(* ===== verification/Lab_Prelude.thy ===== *)
theory Lab_Prelude
  imports Main "HOL-Library.Word"
begin

text \<open>
  The parts of C and of its standard library that the labs share: the outcome of a piece of
  code (it returns, it does not return, or it has undefined behaviour), fixed-size byte
  objects, NUL-terminated strings, the \<open>stdin\<close> stream, and the decimal conversions of
  \<open>scanf\<close>, \<open>strtol\<close> and \<open>printf\<close>.
  A byte is a \<open>char\<close>; a stream is the list of the bytes still to be read, so the
  empty list is the end of file.
\<close>

named_theorems run_simps \<open>evaluation of outcomes\<close>
named_theorems c_defs \<open>definitions of the C library model\<close>

unbundle bit_operations_syntax

type_synonym u8 = "8 word"
type_synonym u32 = "32 word"
type_synonym bytes = "char list"

section \<open>Outcomes\<close>

text \<open>
  \<open>Done\<close> is a normal return, \<open>Diverge\<close> a loop that never ends, and \<open>Fault\<close>
  undefined behaviour, with the reason.
\<close>

datatype fault = OutOfBounds | NullDeref | UseAfterFree | DivByZero | Uninitialised | IntOverflow

datatype 'a run = Done 'a | Diverge | Fault fault

fun bind_run :: "'a run \<Rightarrow> ('a \<Rightarrow> 'b run) \<Rightarrow> 'b run" where
  "bind_run (Done x) k = k x"
| "bind_run Diverge k = Diverge"
| "bind_run (Fault f) k = Fault f"

fun is_done :: "'a run \<Rightarrow> bool" where
  "is_done (Done _) = True"
| "is_done _ = False"

lemmas [run_simps] = bind_run.simps is_done.simps

lemma bind_run_eq_Done [simp]:
  "bind_run m k = Done y \<longleftrightarrow> (\<exists>x. m = Done x \<and> k x = Done y)"
  by (cases m) auto

lemma bind_run_assoc:
  "bind_run (bind_run m k) h = bind_run m (\<lambda>x. bind_run (k x) h)"
  by (cases m) auto

lemma bind_run_Done_right [simp]: "bind_run m Done = m"
  by (cases m) auto

lemma bind_run_cong [fundef_cong]:
  "m = m' \<Longrightarrow> (\<And>x. m' = Done x \<Longrightarrow> k x = k' x) \<Longrightarrow> bind_run m k = bind_run m' k'"
  by (cases m') auto

lemma is_done_iff: "is_done m \<longleftrightarrow> (\<exists>x. m = Done x)"
  by (cases m) auto

text \<open>
  The arithmetic of \<open>int\<close>, 32 bits wide: a result that the type does not hold is undefined behaviour.
\<close>

definition c_int :: "int \<Rightarrow> int run" where
  "c_int n = (if - (2 ^ 31) \<le> n \<and> n < 2 ^ 31 then Done n else Fault IntOverflow)"

lemma c_int_range [simp]: "- (2 ^ 31) \<le> n \<Longrightarrow> n < 2 ^ 31 \<Longrightarrow> c_int n = Done n"
  by (simp add: c_int_def)

lemma c_int_eq_Done [simp]: "c_int n = Done m \<longleftrightarrow> m = n \<and> - (2 ^ 31) \<le> n \<and> n < 2 ^ 31"
  by (auto simp: c_int_def)

section \<open>Byte objects and strings\<close>

abbreviation NUL :: char where "NUL \<equiv> CHR 0x00"
abbreviation NL :: char where "NL \<equiv> CHR 0x0A"
abbreviation TAB :: char where "TAB \<equiv> CHR 0x09"

definition isspace :: "char \<Rightarrow> bool" where
  "isspace c \<longleftrightarrow> c \<in> {CHR 0x20, CHR 0x09, CHR 0x0A, CHR 0x0B, CHR 0x0C, CHR 0x0D}"

definition isdigit :: "char \<Rightarrow> bool" where
  "isdigit c \<longleftrightarrow> c \<in> set ''0123456789''"

definition tolower :: "char \<Rightarrow> char" where
  "tolower c = (if 65 \<le> (of_char c :: nat) \<and> (of_char c :: nat) \<le> 90
     then char_of ((of_char c :: nat) + 32) else c)"

text \<open>The string that starts at a position of a byte object ends before its first NUL.\<close>

definition cstr :: "bytes \<Rightarrow> string" where
  "cstr b = takeWhile (\<lambda>c. c \<noteq> NUL) b"

text \<open>
  \<open>blit\<close> writes bytes into an object at an offset, as \<open>memcpy\<close>, \<open>strcpy\<close> or
  \<open>fgets\<close> do; a write that leaves the object is a fault.
\<close>

definition blit :: "nat \<Rightarrow> bytes \<Rightarrow> bytes \<Rightarrow> bytes run" where
  "blit off bs b =
     (if off + length bs \<le> length b
      then Done (take off b @ bs @ drop (off + length bs) b) else Fault OutOfBounds)"

definition bslice :: "nat \<Rightarrow> nat \<Rightarrow> bytes \<Rightarrow> bytes" where
  "bslice off n b = take n (drop off b)"

definition zeros :: "nat \<Rightarrow> bytes" where
  "zeros n = replicate n NUL"

lemma blit_Done:
  "blit off bs b = Done b' \<Longrightarrow> length b' = length b"
  by (auto simp: blit_def split: if_splits)

lemma blit_ok [simp]:
  "off + length bs \<le> length b \<Longrightarrow>
   blit off bs b = Done (take off b @ bs @ drop (off + length bs) b)"
  by (simp add: blit_def)

lemma bslice_blit_same:
  assumes "blit off bs b = Done b'"
  shows "bslice off (length bs) b' = bs"
  using assms by (auto simp: blit_def bslice_def split: if_splits)

lemma bslice_blit_below:
  assumes "blit off bs b = Done b'" and "o2 + n \<le> off"
  shows "bslice o2 n b' = bslice o2 n b"
  using assms by (auto simp: blit_def bslice_def take_drop min_def split: if_splits)

lemma bslice_blit_above:
  assumes "blit off bs b = Done b'" and "off + length bs \<le> o2"
  shows "bslice o2 n b' = bslice o2 n b"
  using assms by (auto simp: blit_def bslice_def split: if_splits)

lemma length_zeros [simp]: "length (zeros n) = n"
  by (simp add: zeros_def)

lemma cstr_zeros [simp]: "cstr (zeros n) = []"
  by (cases n) (simp_all add: cstr_def zeros_def)

lemma cstr_append_NUL: "NUL \<notin> set s \<Longrightarrow> cstr (s @ NUL # r) = s"
  by (induction s) (auto simp: cstr_def)

lemma cstr_id: "NUL \<notin> set s \<Longrightarrow> cstr s = s"
  by (induction s) (auto simp: cstr_def)

lemma cstr_append: "cstr (a @ b) = (if NUL \<in> set a then cstr a else a @ cstr b)"
  by (induction a) (auto simp: cstr_def)

lemma cstr_snoc_NUL: "cstr (s @ NUL # r) = cstr s"
  by (simp add: cstr_append cstr_id) (simp add: cstr_def)

lemma NUL_notin_cstr [simp]: "NUL \<notin> set (cstr b)"
  by (auto simp: cstr_def dest: set_takeWhileD)

section \<open>The input stream\<close>

text \<open>\<open>getchar\<close> gives the next byte, or EOF (\<open>None\<close>) at the end, again and again.\<close>

fun getchar :: "string \<Rightarrow> char option \<times> string" where
  "getchar [] = (None, [])"
| "getchar (c # cs) = (Some c, cs)"

text \<open>
  \<open>fgets(buf, size, stdin)\<close>: at most \<open>size - 1\<close> bytes, up to and with the first
  newline; \<open>NULL\<close> (\<open>None\<close>) when the end of file comes before any byte.
\<close>

fun fgets_upto :: "nat \<Rightarrow> string \<Rightarrow> string \<times> string" where
  "fgets_upto 0 cs = ([], cs)"
| "fgets_upto (Suc n) [] = ([], [])"
| "fgets_upto (Suc n) (c # cs) =
     (if c = NL then ([c], cs) else let (l, r) = fgets_upto n cs in (c # l, r))"

definition fgets :: "nat \<Rightarrow> string \<Rightarrow> (string \<times> string) option" where
  "fgets n cs = (if cs = [] then None else Some (fgets_upto (n - 1) cs))"

lemma fgets_upto_split: "fgets_upto n cs = (l, r) \<Longrightarrow> cs = l @ r"
  by (induction n cs arbitrary: l r rule: fgets_upto.induct) (auto split: if_splits prod.splits)

lemma fgets_upto_length: "fgets_upto n cs = (l, r) \<Longrightarrow> length l \<le> n"
  by (induction n cs arbitrary: l r rule: fgets_upto.induct) (auto split: if_splits prod.splits)

lemma fgets_upto_line:
  "NL \<notin> set s \<Longrightarrow> length s < n \<Longrightarrow> fgets_upto n (s @ NL # r) = (s @ [NL], r)"
proof (induction s arbitrary: n)
  case Nil
  then show ?case by (cases n) auto
next
  case (Cons c s)
  then show ?case by (cases n) auto
qed

lemma fgets_line:
  "NL \<notin> set s \<Longrightarrow> length s + 1 < n \<Longrightarrow> fgets n (s @ NL # r) = Some (s @ [NL], r)"
  by (simp add: fgets_def fgets_upto_line)

lemma fgets_shorter: "fgets n cs = Some (l, r) \<Longrightarrow> 2 \<le> n \<Longrightarrow> length r < length cs"
proof -
  assume a: "fgets n cs = Some (l, r)" "2 \<le> n"
  then obtain c cs' k where c: "cs = c # cs'" "n - 1 = Suc k"
    by (cases cs; cases "n - 1") (auto simp: fgets_def)
  have f: "fgets_upto (Suc k) (c # cs') = (l, r)" using a c by (simp add: fgets_def)
  then have "l \<noteq> []" by (auto split: if_splits prod.splits)
  moreover have "c # cs' = l @ r" using fgets_upto_split [OF f] .
  ultimately show ?thesis using c(1) by (metis length_append length_greater_0_conv less_add_same_cancel2)
qed

text \<open>
  \<open>while (getchar() != '\n') ;\<close> reads on for ever at the end of file.
\<close>

fun clear_stdin :: "string \<Rightarrow> string run" where
  "clear_stdin [] = Diverge"
| "clear_stdin (c # cs) = (if c = NL then Done cs else clear_stdin cs)"

lemma clear_stdin_line [simp]: "NL \<notin> set s \<Longrightarrow> clear_stdin (s @ NL # r) = Done r"
  by (induction s) auto

lemma clear_stdin_no_line: "NL \<notin> set s \<Longrightarrow> clear_stdin s = Diverge"
  by (induction s) auto

lemma clear_stdin_length: "clear_stdin s = Done r \<Longrightarrow> length r < length s"
  by (induction s) (auto split: if_splits simp: less_SucI)

section \<open>strtok\<close>

text \<open>
  The results of \<open>strtok(s, delims)\<close> and of the calls \<open>strtok(NULL, delims)\<close> that follow, up
  to the first null pointer.
\<close>

function strtok_all :: "(char \<Rightarrow> bool) \<Rightarrow> string \<Rightarrow> string list" where
  "strtok_all d s =
     (case dropWhile d s of
        [] \<Rightarrow> []
      | c # r \<Rightarrow> takeWhile (\<lambda>x. \<not> d x) (c # r) # strtok_all d (dropWhile (\<lambda>x. \<not> d x) (c # r)))"
  by pat_completeness auto

termination
proof (relation "measure (\<lambda>(d, s). length s)", simp, goal_cases)
  case (1 d s c r)
  then have d: "dropWhile d s = c # r" by simp
  then have "\<not> d c" by (simp add: dropWhile_eq_Cons_conv)
  moreover have "Suc (length r) \<le> length s" using length_dropWhile_le [of d s] d by simp
  moreover have "length (dropWhile (\<lambda>x. \<not> d x) r) \<le> length r" by (rule length_dropWhile_le)
  ultimately show ?case by simp
qed

declare strtok_all.simps [simp del]

lemma strtok_all_Nil [simp]: "strtok_all d [] = []"
  by (simp add: strtok_all.simps)

lemma strtok_all_Cons:
  "strtok_all d (c # s) =
     (if d c then strtok_all d s
      else (c # takeWhile (\<lambda>x. \<not> d x) s) # strtok_all d (dropWhile (\<lambda>x. \<not> d x) s))"
proof (cases "d c")
  case True
  then show ?thesis by (subst (1 2) strtok_all.simps) simp
next
  case False
  then show ?thesis by (subst strtok_all.simps) simp
qed

lemma strtok_all_token:
  assumes "t \<noteq> []" "\<forall>c \<in> set t. \<not> d c" "d e"
  shows "strtok_all d (t @ e # s) = t # strtok_all d s"
proof -
  obtain c r where t: "t = c # r" using assms(1) by (cases t) auto
  have "takeWhile (\<lambda>x. \<not> d x) (r @ e # s) = r" "dropWhile (\<lambda>x. \<not> d x) (r @ e # s) = e # s"
    using assms t by (simp_all add: takeWhile_append2 dropWhile_append2)
  then show ?thesis using assms t by (simp add: strtok_all_Cons)
qed

lemma strtok_all_last:
  assumes "t \<noteq> []" "\<forall>c \<in> set t. \<not> d c"
  shows "strtok_all d t = [t]"
proof -
  obtain c r where t: "t = c # r" using assms(1) by (cases t) auto
  have e: "dropWhile (\<lambda>x. \<not> d x) r = []" "takeWhile (\<lambda>x. \<not> d x) r = r"
    using assms t by (simp_all add: takeWhile_eq_all_conv dropWhile_eq_Nil_conv)
  show ?thesis unfolding t strtok_all_Cons e using assms t by simp
qed

lemma strtok_all_tokens:
  "t \<in> set (strtok_all d s) \<Longrightarrow> t \<noteq> [] \<and> (\<forall>c \<in> set t. \<not> d c \<and> c \<in> set s)"
proof (induction d s rule: strtok_all.induct)
  case (1 d s)
  show ?case
  proof (cases "dropWhile d s")
    case Nil
    have "strtok_all d s = []" by (subst strtok_all.simps) (simp only: Nil list.case)
    then show ?thesis using "1.prems" by simp
  next
    case (Cons c r)
    then have "\<not> d c" by (simp add: dropWhile_eq_Cons_conv)
    have sub: "set (c # r) \<subseteq> set s" using set_dropWhileD [of _ d s] Cons by (metis subsetI)
    have "strtok_all d s = takeWhile (\<lambda>x. \<not> d x) (c # r) # strtok_all d (dropWhile (\<lambda>x. \<not> d x) (c # r))"
      using Cons by (subst strtok_all.simps) simp
    then consider "t = takeWhile (\<lambda>x. \<not> d x) (c # r)" | "t \<in> set (strtok_all d (dropWhile (\<lambda>x. \<not> d x) (c # r)))"
      using "1.prems" by auto
    then show ?thesis
    proof cases
      case 1
      have "x \<in> set (c # r) \<and> \<not> d x" if "x \<in> set t" for x
        using that unfolding 1 by (rule set_takeWhileD)
      moreover have "t \<noteq> []" using 1 \<open>\<not> d c\<close> by simp
      ultimately show ?thesis using sub by blast
    next
      case 2
      have "set (dropWhile (\<lambda>x. \<not> d x) (c # r)) \<subseteq> set (c # r)" by (auto dest: set_dropWhileD)
      with "1.IH" [OF Cons 2] sub show ?thesis by blast
    qed
  qed
qed

section \<open>Decimal conversions\<close>

definition digit_val :: "char \<Rightarrow> nat" where
  "digit_val c = of_char c - 48"

definition dec_val :: "string \<Rightarrow> nat" where
  "dec_val s = foldl (\<lambda>n c. n * 10 + digit_val c) 0 s"

text \<open>
  What a numeric conversion of \<open>scanf\<close> sees: white space skipped, an optional sign, the
  digits. \<open>ScanEOF\<close> is the result EOF, \<open>ScanFail\<close> a matching failure (result 0), and
  \<open>ScanNum\<close> the sign, the digits and the rest of the stream.
\<close>

datatype scan = ScanEOF | ScanFail string | ScanNum bool nat string

definition scan_num :: "string \<Rightarrow> scan" where
  "scan_num cs =
     (case dropWhile isspace cs of
        [] \<Rightarrow> ScanEOF
      | c # r \<Rightarrow>
          let neg = (c = CHR ''-'');
              body = (if c = CHR ''-'' \<or> c = CHR ''+'' then r else c # r);
              ds = takeWhile isdigit body
          in if ds = [] then ScanFail body
             else ScanNum neg (dec_val ds) (drop (length ds) body))"

lemma scan_num_length:
  "scan_num cs = ScanNum neg n r \<Longrightarrow> length r \<le> length cs"
  "scan_num cs = ScanFail r \<Longrightarrow> length r \<le> length cs"
proof -
  have le: "length xs < length cs" if "dropWhile isspace cs = x # xs" for x xs
    using length_dropWhile_le [of isspace cs] that by simp
  have le2: "length (dropWhile isspace cs) \<le> length cs"
    by (rule length_dropWhile_le)
  show "scan_num cs = ScanNum neg n r \<Longrightarrow> length r \<le> length cs"
    using le2 by (auto simp: scan_num_def Let_def dest!: le split: list.splits if_splits)
  show "scan_num cs = ScanFail r \<Longrightarrow> length r \<le> length cs"
    using le2 by (auto simp: length_dropWhile_le scan_num_def Let_def dest!: le split: list.splits if_splits)
qed

text \<open>
  \<open>strtoul\<close> and \<open>strtol\<close> on a 64-bit \<open>long\<close> saturate; \<open>%u\<close>, \<open>%d\<close> and
  \<open>%hhu\<close> keep the low bits of the result.
\<close>

definition strtoul64 :: "bool \<Rightarrow> nat \<Rightarrow> int" where
  "strtoul64 neg n =
     (if n \<ge> 2 ^ 64 then 2 ^ 64 - 1 else if neg then (- int n) mod 2 ^ 64 else int n)"

definition strtol64 :: "bool \<Rightarrow> nat \<Rightarrow> int" where
  "strtol64 neg n =
     (if neg then max (- (2 ^ 63)) (- int n) else min (2 ^ 63 - 1) (int n))"

definition scan_u32 :: "bool \<Rightarrow> nat \<Rightarrow> u32" where
  "scan_u32 neg n = word_of_int (strtoul64 neg n)"

definition scan_u8 :: "bool \<Rightarrow> nat \<Rightarrow> u8" where
  "scan_u8 neg n = word_of_int (strtoul64 neg n)"

definition scan_i32 :: "bool \<Rightarrow> nat \<Rightarrow> u32" where
  "scan_i32 neg n = word_of_int (strtol64 neg n)"

lemma scan_u32_small: "n < 2 ^ 32 \<Longrightarrow> scan_u32 False n = of_nat n"
  by (simp add: scan_u32_def strtoul64_def)

lemma scan_u8_small: "n < 2 ^ 32 \<Longrightarrow> scan_u8 False n = of_nat n"
  by (simp add: scan_u8_def strtoul64_def)

lemmas [c_defs] = isspace_def isdigit_def cstr_def bslice_def scan_num_def digit_val_def
  dec_val_def strtoul64_def strtol64_def scan_u32_def scan_u8_def scan_i32_def fgets_def

end
