(* ===== verification/Bytes.thy ===== *)
theory Bytes
  imports Lab_Prelude
begin

text \<open>
  LAB_1 (bitwise operations) and LAB_3 (pointers): a 32-bit unsigned integer and its bytes,
  read and replaced by shifts and masks on one side, through a byte pointer on the other.
\<close>

section \<open>Display of every byte by shifts: task_bitwise_1\<close>

text \<open>
  The four values \<open>main\<close> prints for \<open>a\<close>. C shifts associate to the left and drop the
  bits that leave the 32-bit word.
\<close>

definition display_bytes :: "u32 \<Rightarrow> u32 list" where
  "display_bytes a =
     [drop_bit 24 a,
      drop_bit 24 (push_bit 24 (drop_bit 16 a)),
      drop_bit 24 (push_bit 24 (drop_bit 8 a)),
      drop_bit 24 (push_bit 24 a)]"

section \<open>One byte replaced by shifts: task_bitwise_2\<close>

datatype exit = EXIT_SUCCESS | EXIT_FAILURE

text \<open>The two assignments at the end of \<open>modify_byte\<close>; \<open>sizeof(unsigned int)\<close> is 4.\<close>

definition set_byte_shift :: "u32 \<Rightarrow> u32 \<Rightarrow> u32 \<Rightarrow> u32" where
  "set_byte_shift a byte value =
     (let mask = 0xFFFFFFFF;
          sh = unat ((4 - byte) * 8);
          a1 = a AND NOT (push_bit sh (drop_bit (4 * 8 - 8) mask))
      in a1 OR push_bit sh value)"

text \<open>
  \<open>modify_byte\<close>: two \<open>scanf("%u")\<close>; the exit status and, when it prints it, the new
  value of \<open>a\<close>.
\<close>

definition modify_byte :: "string \<Rightarrow> exit \<times> u32 option" where
  "modify_byte inp =
     (let a = 0xBBFFDDAA in
      case scan_num inp of
        ScanFail r \<Rightarrow> (EXIT_FAILURE, None)
      | ScanEOF \<Rightarrow> (EXIT_FAILURE, None)
      | ScanNum neg n r \<Rightarrow>
          let byte = scan_u32 neg n in
          if byte < 1 \<or> byte > 4 then (EXIT_FAILURE, None)
          else case scan_num r of
                 ScanFail r2 \<Rightarrow> (EXIT_FAILURE, None)
               | ScanEOF \<Rightarrow> (EXIT_FAILURE, None)
               | ScanNum neg2 n2 r2 \<Rightarrow>
                   let value = scan_u32 neg2 n2 in
                   if value > 255 then (EXIT_FAILURE, None)
                   else (EXIT_SUCCESS, Some (set_byte_shift a byte value)))"


section \<open>One byte replaced through a pointer: task_ptr_ex1 and task_ptr_ex2\<close>

text \<open>
  The object representation of an \<open>unsigned int\<close> on a little-endian machine, which is
  what \<open>(unsigned char * ) &a\<close> points to.
\<close>

definition le_bytes :: "u32 \<Rightarrow> u8 list" where
  "le_bytes a = map (\<lambda>i. ucast (drop_bit (8 * i) a)) [0, 1, 2, 3]"

definition of_le_bytes :: "u8 list \<Rightarrow> u32" where
  "of_le_bytes bs = foldr (\<lambda>b w. push_bit 8 w OR ucast b) bs 0"

text \<open>\<open>display_endianness\<close>: the byte at the lowest address of \<open>0x1234\<close>.\<close>

definition display_endianness :: "string" where
  "display_endianness = (if le_bytes 0x1234 ! 0 = 0x12 then ''big-endian'' else ''little-endian'')"

text \<open>\<open>main\<close> of task_ptr_ex1: the four bytes in the order of their addresses.\<close>

definition ptr_display_bytes :: "u32 \<Rightarrow> u8 list" where
  "ptr_display_bytes a = [le_bytes a ! 0, le_bytes a ! 1, le_bytes a ! 2, le_bytes a ! 3]"

text \<open>The store of task_ptr_ex2: byte number \<open>byte\<close> counts from the most significant.\<close>

definition set_byte_ptr :: "u32 \<Rightarrow> u8 \<Rightarrow> u8 \<Rightarrow> u32" where
  "set_byte_ptr a byte value = of_le_bytes ((le_bytes a)[4 - unat byte := value])"

definition ptr_ex2_main :: "string \<Rightarrow> exit \<times> u32 option" where
  "ptr_ex2_main inp =
     (let a = 0x12345678 in
      case scan_num inp of
        ScanFail r \<Rightarrow> (EXIT_FAILURE, None)
      | ScanEOF \<Rightarrow> (EXIT_FAILURE, None)
      | ScanNum neg n r \<Rightarrow>
          let byte = scan_u8 neg n in
          if byte > 4 \<or> byte < 1 then (EXIT_FAILURE, None)
          else case scan_num r of
                 ScanFail r2 \<Rightarrow> (EXIT_FAILURE, None)
               | ScanEOF \<Rightarrow> (EXIT_FAILURE, None)
               | ScanNum neg2 n2 r2 \<Rightarrow>
                   (EXIT_SUCCESS, Some (set_byte_ptr a byte (scan_u8 neg2 n2))))"

section \<open>Lemmas\<close>

lemma le_bytes_length [simp]: "length (le_bytes a) = 4"
  by (simp add: le_bytes_def)


text \<open>The index of a bit splits the word into its four bytes.\<close>

lemma bit_byte_cases:
  assumes "n < (32 :: nat)"
  obtains "n < 8" | "8 \<le> n" "n < 16" | "16 \<le> n" "n < 24" | "24 \<le> n" "n < 32"
  using assms by fastforce

lemma of_le_bytes_le_bytes: "of_le_bytes (le_bytes a) = a"
proof (rule bit_word_eqI)
  fix n assume "n < LENGTH(32)"
  then have "n < 32" by simp
  then show "bit (of_le_bytes (le_bytes a)) n = bit a n"
    by (cases rule: bit_byte_cases) (auto simp: of_le_bytes_def le_bytes_def bit_simps)
qed

lemma u32_byte_cases:
  fixes b :: u32
  assumes "1 \<le> b" "b \<le> 4"
  shows "b = 1 \<or> b = 2 \<or> b = 3 \<or> b = 4"
proof -
  have "1 \<le> unat b" "unat b \<le> 4" using assms by (simp_all add: word_le_nat_alt)
  then have "unat b = unat (1::u32) \<or> unat b = unat (2::u32) \<or> unat b = unat (3::u32) \<or> unat b = unat (4::u32)"
    by simp linarith
  then show ?thesis by (simp only: word_unat_eq_iff)
qed

lemma not_bit_above_byte:
  fixes v :: u32
  assumes "v \<le> 255" "8 \<le> n" shows "\<not> bit v n"
proof -
  have "unat v < 2 ^ 8" using assms(1) by (simp add: word_le_nat_alt)
  then have "take_bit 8 (unat v) = unat v" by (simp add: take_bit_nat_eq_self)
  then have "\<not> bit (unat v) n" using assms(2) by (metis bit_take_bit_iff not_le)
  then show ?thesis by (auto simp: bit_unsigned_iff dest: bit_imp_le_length)
qed

section \<open>Properties\<close>

text \<open>
  The four values that task_bitwise_1 prints are the bytes of the word, most significant
  first: put back at their positions they give the word again.
\<close>

theorem display_bytes_roundtrip:
  "(case display_bytes a of [b1, b2, b3, b4] \<Rightarrow>
      push_bit 24 b1 OR push_bit 16 b2 OR push_bit 8 b3 OR b4) = a"
proof -
  have "push_bit 24 (drop_bit 24 a) OR push_bit 16 (drop_bit 24 (push_bit 24 (drop_bit 16 a)))
     OR push_bit 8 (drop_bit 24 (push_bit 24 (drop_bit 8 a))) OR drop_bit 24 (push_bit 24 a) = a" 
  proof (rule bit_word_eqI)
    fix n assume "n < LENGTH(32)"
    then consider "n < 8" | "8 \<le> n" "n < 16" | "16 \<le> n" "n < 24" | "24 \<le> n" "n < 32" by fastforce
    then show "bit (push_bit 24 (drop_bit 24 a) OR push_bit 16 (drop_bit 24 (push_bit 24 (drop_bit 16 a)))
     OR push_bit 8 (drop_bit 24 (push_bit 24 (drop_bit 8 a))) OR drop_bit 24 (push_bit 24 a)) n = bit a n"
      by cases (auto simp: bit_simps)
  qed
  then show ?thesis by (simp add: display_bytes_def)
qed


text \<open>Where each bit of the updated word comes from.\<close>

lemma bit_set_byte_shift:
  assumes "1 \<le> byte" "byte \<le> 4" "v \<le> 255" "n < 32"
  shows "bit (set_byte_shift a byte v) n =
    (if (4 - unat byte) * 8 \<le> n \<and> n < (4 - unat byte) * 8 + 8
     then bit v (n - (4 - unat byte) * 8) else bit a n)"
proof -
  note hi = not_bit_above_byte [OF assms(3)]
  have m: "(255 :: u32) = mask 8" by (simp add: mask_eq_exp_minus_1)
  consider "byte = 1" | "byte = 2" | "byte = 3" | "byte = 4"
    using u32_byte_cases assms by blast
  then show ?thesis
    using \<open>n < 32\<close> by cases (auto simp: set_byte_shift_def m bit_simps hi)
qed

lemma unat_ucast_u8: "unat (ucast (b :: u8) :: u32) = unat b"
proof -
  have "unat b < 256" using unsigned_less [of b] by simp
  then have "unat b < 2 ^ 32" by simp
  then show ?thesis by (simp add: unsigned_ucast_eq take_bit_nat_eq_self)
qed

lemma less_4_cases: "i < (4 :: nat) \<Longrightarrow> i = 0 \<or> i = 1 \<or> i = 2 \<or> i = 3"
  by arith

lemma length_display_bytes [simp]: "length (display_bytes a) = 4"
  by (simp add: display_bytes_def)

lemma bit_u32_less: "bit (w :: u32) n \<Longrightarrow> n < 32"
  using bit_imp_le_length [of w n] by simp

lemma bit_display_bytes:
  assumes "i < 4"
  shows "bit (display_bytes a ! i) n \<longleftrightarrow> n < 8 \<and> bit a ((3 - i) * 8 + n)"
  using less_4_cases [OF assms] bit_u32_less [of a "n + 24"]
  by (auto simp: display_bytes_def bit_simps add.commute)

text \<open>
  the masks and shifts of task_bitwise_2 replace the chosen byte, counted from the most
  significant one, by the given value and leave the other three bytes of the word as they were.
\<close>

theorem set_byte_shift_replaces:
  assumes "1 \<le> byte" "byte \<le> 4" "v \<le> 255"
  shows "display_bytes (set_byte_shift a byte v) =
         (display_bytes a)[unat byte - 1 := v]"
proof (rule nth_equalityI)
  fix i assume "i < length (display_bytes (set_byte_shift a byte v))"
  then have i: "i < 4" by simp
  note hi = not_bit_above_byte [OF assms(3)]
  show "display_bytes (set_byte_shift a byte v) ! i = (display_bytes a)[unat byte - 1 := v] ! i"
  proof (rule bit_word_eqI)
    fix n assume "n < LENGTH(32)"
    show "bit (display_bytes (set_byte_shift a byte v) ! i) n
        = bit ((display_bytes a)[unat byte - 1 := v] ! i) n"
      using less_4_cases [OF i] u32_byte_cases [OF assms(1,2)] hi [of n]
      by (cases "n < 8")
         (auto simp: bit_display_bytes bit_set_byte_shift [OF _ _ assms(3)] nth_list_update)
  qed
qed simp

theorem set_byte_shift_witness:
  "display_bytes (set_byte_shift 0xBBFFDDAA 3 0x11) = [0xBB, 0xFF, 0x11, 0xAA]"
  using set_byte_shift_replaces [of 3 "0x11" "0xBBFFDDAA"] by (simp add: display_bytes_def)

lemma bit_set_byte_ptr:
  assumes "1 \<le> unat byte" "unat byte \<le> 4" "n < 32"
  shows "bit (set_byte_ptr a byte v) n =
    (if (4 - unat byte) * 8 \<le> n \<and> n < (4 - unat byte) * 8 + 8
     then bit v (n - (4 - unat byte) * 8) else bit a n)"
proof -
  consider "unat byte = 1" | "unat byte = 2" | "unat byte = 3" | "unat byte = 4"
    using assms by fastforce
  then show ?thesis
    by (cases; cases rule: bit_byte_cases [OF \<open>n < 32\<close>])
       (auto simp: set_byte_ptr_def of_le_bytes_def le_bytes_def bit_simps dest: bit_imp_le_length)
qed


text \<open>
  the pointer store of task_ptr_ex2 and the masks of task_bitwise_2 compute the same word on a
  little-endian machine.
\<close>

theorem set_byte_ptr_is_shift:
  assumes "1 \<le> unat byte" "unat byte \<le> 4"
  shows "set_byte_ptr a byte v = set_byte_shift a (ucast byte) (ucast v)"
proof (rule bit_word_eqI)
  fix n assume "n < LENGTH(32)"
  then have n: "n < 32" by simp
  note u = unat_ucast_u8 [of byte]
  have "1 \<le> (ucast byte :: u32)" "(ucast byte :: u32) \<le> 4"
    using assms by (simp_all add: word_le_nat_alt u)
  moreover have "(ucast v :: u32) \<le> 255"
  proof -
    have "unat v < 256" using unsigned_less [of v] by simp
    then show ?thesis by (simp add: word_le_nat_alt unat_ucast_u8)
  qed
  ultimately have "bit (set_byte_shift a (ucast byte) (ucast v)) n =
    (if (4 - unat byte) * 8 \<le> n \<and> n < (4 - unat byte) * 8 + 8
     then bit (ucast v :: u32) (n - (4 - unat byte) * 8) else bit a n)"
    using bit_set_byte_shift [of "ucast byte" "ucast v" n a] n u by simp
  then show "bit (set_byte_ptr a byte v) n = bit (set_byte_shift a (ucast byte) (ucast v)) n"
    using n by (auto simp: bit_set_byte_ptr [OF assms n] bit_simps)
qed

theorem set_byte_ptr_witness: "set_byte_ptr 0x12345678 2 0xFF = set_byte_shift 0x12345678 2 0xFF"
  using set_byte_ptr_is_shift [of 2 "0x12345678" "0xFF"] by simp

theorem display_endianness_little: "display_endianness = ''little-endian''"
  by (simp add: display_endianness_def le_bytes_def)

text \<open>
  on a little-endian machine the pointer walk of task_ptr_ex1 prints the same four bytes as the
  shifts of task_bitwise_1, in the opposite order.
\<close>

theorem ptr_display_reversed: "map ucast (ptr_display_bytes a) = rev (display_bytes a)"
proof -
  have "ucast (ucast (drop_bit (8 * i) a) :: u8) = display_bytes a ! (3 - i)" if "i < 4" for i
    using that by (intro bit_word_eqI) (auto simp: bit_display_bytes bit_simps mult.commute)
  from this [of 0] this [of 1] this [of 2] this [of 3] show ?thesis
    by (simp add: ptr_display_bytes_def le_bytes_def display_bytes_def)
qed

text \<open>Both programs reject a byte number outside 1 to 4 and leave no new value.\<close>

lemma modify_byte_result:
  assumes "modify_byte inp = (st, out)"
  shows "out = None \<longleftrightarrow> st = EXIT_FAILURE"
  using assms by (auto simp: modify_byte_def Let_def split: scan.splits if_splits)

end
