(* ===== verification/Node_Heap.thy ===== *)
theory Node_Heap
  imports Lab_Prelude
begin

text \<open>
  The heap the LAB_6 ledger allocates its list nodes on. A pointer is \<open>None\<close> (NULL) or the
  index of a cell; a freed cell holds \<open>None\<close>, so reading, writing or freeing it is a fault.
  The interface the list code relies on is the locale \<open>node_heap\<close>; the lemmas about
  linked lists are proved once inside it.
\<close>

type_synonym ptr = "nat option"

section \<open>Linked segments\<close>

text \<open>
  \<open>seg g nx p xs q\<close>: following the \<open>nx\<close> links from \<open>p\<close>, reading the cells with
  \<open>g\<close>, one passes the cells \<open>xs\<close> (address and content) and arrives at \<open>q\<close>.
\<close>

fun seg :: "(ptr \<Rightarrow> 'n run) \<Rightarrow> ('n \<Rightarrow> ptr) \<Rightarrow> ptr \<Rightarrow> (nat \<times> 'n) list \<Rightarrow> ptr \<Rightarrow> bool" where
  "seg g nx p [] q \<longleftrightarrow> p = q"
| "seg g nx p (x # xs) q \<longleftrightarrow>
     p = Some (fst x) \<and> g p = Done (snd x) \<and> seg g nx (nx (snd x)) xs q"

abbreviation chain :: "(ptr \<Rightarrow> 'n run) \<Rightarrow> ('n \<Rightarrow> ptr) \<Rightarrow> ptr \<Rightarrow> (nat \<times> 'n) list \<Rightarrow> bool" where
  "chain g nx p xs \<equiv> seg g nx p xs None"

lemma seg_append:
  "seg g nx p (xs @ ys) q \<longleftrightarrow> (\<exists>r. seg g nx p xs r \<and> seg g nx r ys q)"
  by (induction xs arbitrary: p) auto

lemma seg_snoc:
  "seg g nx p (xs @ [x]) q \<longleftrightarrow>
   seg g nx p xs (Some (fst x)) \<and> g (Some (fst x)) = Done (snd x) \<and> nx (snd x) = q"
  by (auto simp: seg_append)

lemma seg_cong:
  "(\<And>i. i \<in> fst ` set xs \<Longrightarrow> g' (Some i) = g (Some i)) \<Longrightarrow> seg g' nx p xs q = seg g nx p xs q"
  by (induction xs arbitrary: p) auto

lemma chain_Some_Cons:
  "chain g nx (Some i) xs \<Longrightarrow> \<exists>n ys. xs = (i, n) # ys \<and> g (Some i) = Done n \<and> chain g nx (nx n) ys"
  by (cases xs) auto

lemma chain_None [simp]: "chain g nx None xs \<longleftrightarrow> xs = []"
  by (cases xs) auto

lemma chain_unique: "chain g nx p xs \<Longrightarrow> chain g nx p ys \<Longrightarrow> xs = ys"
proof (induction xs arbitrary: p ys)
  case Nil
  then show ?case by simp
next
  case (Cons x xs)
  then show ?case by (cases ys) (auto simp: prod_eq_iff)
qed

lemma chain_distinct: "chain g nx p xs \<Longrightarrow> distinct (map fst xs)"
proof (induction xs arbitrary: p)
  case Nil
  then show ?case by simp
next
  case (Cons x xs)
  then have t: "chain g nx (nx (snd x)) xs" by simp
  have "fst x \<notin> fst ` set xs"
  proof
    assume "fst x \<in> fst ` set xs"
    then obtain ys z zs where xs: "xs = ys @ z # zs" and z: "fst z = fst x"
      by (metis imageE split_list)
    from t xs have "chain g nx (Some (fst x)) (z # zs)" by (auto simp: seg_append z)
    moreover from Cons.prems have "chain g nx (Some (fst x)) (x # xs)" by auto
    ultimately have "z # zs = x # xs" by (rule chain_unique)
    then show False using xs by simp
  qed
  then show ?case using Cons.IH [OF t] by simp
qed

section \<open>The interface of a node heap\<close>

locale node_heap =
  fixes get :: "'h \<Rightarrow> ptr \<Rightarrow> 'n run"
    and put :: "'h \<Rightarrow> ptr \<Rightarrow> 'n \<Rightarrow> 'h run"
    and alloc :: "'h \<Rightarrow> 'n \<Rightarrow> 'h \<times> ptr"
    and free :: "'h \<Rightarrow> ptr \<Rightarrow> 'h run"
  assumes get_null: "get h None = Fault NullDeref"
    and put_done: "get h p = Done m \<Longrightarrow> \<exists>h'. put h p n = Done h'"
    and get_put: "put h p n = Done h' \<Longrightarrow> get h' q = (if q = p then Done n else get h q)"
    and alloc_fresh: "alloc h n = (h', p) \<Longrightarrow> p \<noteq> None \<and> \<not> is_done (get h p)"
    and get_alloc: "alloc h n = (h', p) \<Longrightarrow> q \<noteq> p \<Longrightarrow> is_done (get h q) \<Longrightarrow> get h' q = get h q"
    and get_alloc_new: "alloc h n = (h', p) \<Longrightarrow> get h' p = Done n"
    and free_done: "get h p = Done m \<Longrightarrow> \<exists>h'. free h p = Done h'"
    and get_free: "get h p = Done m \<Longrightarrow> free h p = Done h' \<Longrightarrow>
          get h' q = (if q = p then Fault UseAfterFree else get h q)"
begin

lemma get_free_same: "get h p = Done m \<Longrightarrow> free h p = Done h' \<Longrightarrow> get h' p = Fault UseAfterFree"
  by (simp add: get_free)

lemma seg_put_other:
  "put h p n = Done h' \<Longrightarrow> p \<notin> Some ` fst ` set xs \<Longrightarrow> seg (get h') nx q xs r = seg (get h) nx q xs r"
  by (rule seg_cong) (auto simp: get_put)

lemma seg_free_other:
  "get h p = Done m \<Longrightarrow> free h p = Done h' \<Longrightarrow> p \<notin> Some ` fst ` set xs \<Longrightarrow>
   seg (get h') nx q xs r = seg (get h) nx q xs r"
  by (rule seg_cong) (auto simp: get_free)

lemma seg_alive: "seg (get h) nx q xs r \<Longrightarrow> i \<in> fst ` set xs \<Longrightarrow> is_done (get h (Some i))"
  by (induction xs arbitrary: q) auto

lemma alloc_not_in_seg:
  "alloc h n = (h', p) \<Longrightarrow> seg (get h) nx q xs r \<Longrightarrow> p \<notin> Some ` fst ` set xs"
  using alloc_fresh seg_alive by (metis (no_types, lifting) imageE)

lemma seg_alloc:
  assumes "alloc h n = (h', p)" and "seg (get h) nx q xs r"
  shows "seg (get h') nx q xs r"
proof -
  have "get h' (Some i) = get h (Some i)" if "i \<in> fst ` set xs" for i
    using that assms alloc_not_in_seg [OF assms] seg_alive [OF assms(2)]
    by (intro get_alloc [OF assms(1)]) auto
  then show ?thesis using assms(2) seg_cong [of xs "get h'" "get h"] by simp
qed

text \<open>Relinking the last cell of a segment moves its end.\<close>

lemma seg_relink_end:
  assumes "seg (get h) nx p (xs @ [(i, n)]) q" and "put h (Some i) n' = Done h'"
    and "nx n' = r" and "i \<notin> fst ` set xs"
  shows "seg (get h') nx p (xs @ [(i, n')]) r"
proof -
  have "seg (get h') nx p xs (Some i)"
    using assms seg_put_other [OF assms(2), of xs nx p "Some i"] by (auto simp: seg_snoc)
  then show ?thesis using assms by (simp add: seg_snoc get_put)
qed

end

section \<open>The heap of the ledger\<close>

text \<open>
  \<open>h_alloc\<close> appends a cell, so an address is never used twice and a stale pointer is always
  seen as such.
\<close>

fun h_get :: "'n option list \<Rightarrow> ptr \<Rightarrow> 'n run" where
  "h_get h None = Fault NullDeref"
| "h_get h (Some i) =
     (if i < length h then (case h ! i of None \<Rightarrow> Fault UseAfterFree | Some n \<Rightarrow> Done n)
      else Fault OutOfBounds)"

definition h_put :: "'n option list \<Rightarrow> ptr \<Rightarrow> 'n \<Rightarrow> 'n option list run" where
  "h_put h p n = bind_run (h_get h p) (\<lambda>_. Done (h[the p := Some n]))"

definition h_alloc :: "'n option list \<Rightarrow> 'n \<Rightarrow> 'n option list \<times> ptr" where
  "h_alloc h n = (h @ [Some n], Some (length h))"

definition h_free :: "'n option list \<Rightarrow> ptr \<Rightarrow> 'n option list run" where
  "h_free h p = (if p = None then Done h else bind_run (h_get h p) (\<lambda>_. Done (h[the p := None])))"

lemma h_get_Done_iff: "h_get h p = Done n \<longleftrightarrow> (\<exists>i. p = Some i \<and> i < length h \<and> h ! i = Some n)"
  by (cases p) (auto split: option.splits)

interpretation nh: node_heap h_get h_put h_alloc h_free
proof unfold_locales
  fix h :: "'a option list" and p q n h'
  assume "h_put h p n = Done h'"
  then show "h_get h' q = (if q = p then Done n else h_get h q)"
    by (cases q) (auto simp: h_put_def h_get_Done_iff nth_list_update split: option.splits if_splits)
next
  fix h :: "'a option list" and p q m h'
  assume "h_get h p = Done m" "h_free h p = Done h'"
  then show "h_get h' q = (if q = p then Fault UseAfterFree else h_get h q)"
    by (cases q) (auto simp: h_free_def h_get_Done_iff nth_list_update split: option.splits if_splits)
qed (auto simp: h_put_def h_alloc_def h_free_def h_get_Done_iff is_done_iff nth_append
       split: option.splits)

text \<open>The cells that have not been freed.\<close>

definition live :: "'n option list \<Rightarrow> nat set" where
  "live h = {i. i < length h \<and> h ! i \<noteq> None}"

lemma live_put: "h_put h p n = Done h' \<Longrightarrow> live h' = live h"
  by (auto simp: h_put_def live_def h_get_Done_iff nth_list_update split: if_splits)

lemma live_alloc: "h_alloc h n = (h', p) \<Longrightarrow> live h' = insert (the p) (live h)"
  by (auto simp: h_alloc_def live_def nth_append less_Suc_eq split: if_splits)

lemma live_free: "h_free h (Some i) = Done h' \<Longrightarrow> live h' = live h - {i}"
  by (auto simp: h_free_def live_def h_get_Done_iff nth_list_update split: if_splits)

lemma live_finite [simp]: "finite (live h)"
  by (rule finite_subset [of _ "{..<length h}"]) (auto simp: live_def)

lemma length_h_put: "h_put h p n = Done h' \<Longrightarrow> length h' = length h"
  by (auto simp: h_put_def)

lemma length_h_free: "h_free h p = Done h' \<Longrightarrow> length h' = length h"
  by (auto simp: h_free_def split: if_splits)

text \<open>A list on the heap is never longer than the heap.\<close>

lemma chain_length:
  assumes "chain (h_get h) nx p xs" shows "length xs \<le> length h"
proof -
  have "fst ` set xs \<subseteq> {..<length h}"
  proof
    fix i assume "i \<in> fst ` set xs"
    then have "is_done (h_get h (Some i))" by (rule nh.seg_alive [OF assms])
    then show "i \<in> {..<length h}" by (auto split: if_splits)
  qed
  then have "card (fst ` set xs) \<le> length h"
    by (metis card_lessThan card_mono finite_lessThan)
  moreover have "card (fst ` set xs) = length xs"
    using chain_distinct [OF assms] distinct_card [of "map fst xs"] by simp
  ultimately show ?thesis by simp
qed

lemma live_iff: "i \<in> live h \<longleftrightarrow> is_done (h_get h (Some i))"
  by (auto simp: live_def split: option.splits)

text \<open>From here on the heap is seen through its interface only.\<close>

declare h_get.simps(2) [simp del]

end
