(* ===== verification/Ledger_Heap.thy ===== *)
theory Ledger_Heap
  imports Node_Heap
begin

text \<open>
  LAB_6/task_ledger: the address book as a linked list of heap nodes. The struct \<open>priv\<close> is
  its object representation, 292 bytes (five character arrays and a 4-byte little-endian
  \<open>int\<close>), since the code compares and copies it byte for byte and \<open>fgets\<close> may run from
  one array into the next. Prompts and error texts on stderr are not modelled; what the
  commands print about customers is.
\<close>

section \<open>Types: address_book.h and address_book_internals.h\<close>

abbreviation ERR :: int where "ERR \<equiv> -1"
abbreviation OK :: int where "OK \<equiv> 0"

abbreviation BUFSIZE :: nat where "BUFSIZE \<equiv> 256"
abbreviation NAMESIZ :: nat where "NAMESIZ \<equiv> 64"
abbreviation OCCUPSIZ :: nat where "OCCUPSIZ \<equiv> 32"

text \<open>The offsets of the members of \<open>struct priv\<close>, and its size.\<close>

abbreviation off_name :: nat where "off_name \<equiv> 0"
abbreviation off_mname :: nat where "off_mname \<equiv> 64"
abbreviation off_lname :: nat where "off_lname \<equiv> 128"
abbreviation off_number :: nat where "off_number \<equiv> 192"
abbreviation off_occup :: nat where "off_occup \<equiv> 256"
abbreviation off_age :: nat where "off_age \<equiv> 288"
abbreviation sizeof_priv :: nat where "sizeof_priv \<equiv> 292"

record node =
  priv :: bytes
  nxt :: ptr

datatype shown = Entry bytes | Msg string

text \<open>
  The whole state: the heap, the two data members of the \<open>struct ledger\<close>, the input stream,
  the customers and messages printed (last one first), the number of calls of \<open>calloc\<close>
  that still succeed, and whether the descriptor 0 is still open.
\<close>

record lstate =
  lheap :: "node option list"
  lhead :: ptr
  ltotal :: int
  linp :: string
  lout :: "shown list"
  lavail :: nat
  stdin_open :: bool

section \<open>Reading one member: process_param and process_entry\<close>

definition i32_bytes :: "u32 \<Rightarrow> bytes" where
  "i32_bytes w = map (\<lambda>i. char_of (unat (drop_bit (8 * i) w))) [0, 1, 2, 3]"

definition bytes_i32 :: "bytes \<Rightarrow> u32" where
  "bytes_i32 bs = foldr (\<lambda>c w. push_bit 8 w OR of_nat (of_char c)) bs 0"

definition process_param_str :: "nat \<Rightarrow> nat \<Rightarrow> bytes \<Rightarrow> string \<Rightarrow> (int \<times> bytes \<times> string) run" where
  "process_param_str off n obj cs =
     (case fgets n cs of
        None \<Rightarrow> Done (ERR, obj, cs)
      | Some (l, r) \<Rightarrow>
          bind_run (blit off (l @ [NUL]) obj) (\<lambda>obj1.
            let s = cstr (drop off obj1) in
            if NL \<notin> set s then Done (ERR, obj1, r)
            else bind_run (blit (off + length (takeWhile (\<lambda>c. c \<noteq> NL) s)) [NUL] obj1)
                   (\<lambda>obj2. Done (OK, obj2, r))))"

definition process_param_int :: "nat \<Rightarrow> bytes \<Rightarrow> string \<Rightarrow> (int \<times> bytes \<times> string) run" where
  "process_param_int off obj cs =
     (case scan_num cs of
        ScanEOF \<Rightarrow> Done (ERR, obj, [])
      | ScanFail r \<Rightarrow> Done (ERR, obj, r)
      | ScanNum neg n r \<Rightarrow>
          bind_run (blit off (i32_bytes (scan_i32 neg n)) obj) (\<lambda>obj1.
            bind_run (clear_stdin r) (\<lambda>r1. Done (OK, obj1, r1))))"

fun process_strs :: "nat list \<Rightarrow> bytes \<Rightarrow> string \<Rightarrow> (int \<times> bytes \<times> string) run" where
  "process_strs [] obj cs = Done (OK, obj, cs)"
| "process_strs (off # offs) obj cs =
     bind_run (process_param_str off BUFSIZE obj cs) (\<lambda>(st, obj1, cs1).
       if st = ERR then Done (ERR, obj1, cs1) else process_strs offs obj1 cs1)"

definition process_entry :: "bytes \<Rightarrow> string \<Rightarrow> (int \<times> bytes \<times> string) run" where
  "process_entry obj cs =
     bind_run (process_strs [off_name, off_mname, off_lname, off_number, off_occup] obj cs)
       (\<lambda>(st, obj1, cs1).
          if st = ERR then Done (ERR, obj1, cs1) else process_param_int off_age obj1 cs1)"

section \<open>Adding an entry: add\<close>

abbreviation P_BEGIN :: int where "P_BEGIN \<equiv> 1"
abbreviation P_MIDDLE :: int where "P_MIDDLE \<equiv> 2"
abbreviation P_END :: int where "P_END \<equiv> 3"

definition set_nxt :: "node option list \<Rightarrow> ptr \<Rightarrow> ptr \<Rightarrow> node option list run" where
  "set_nxt h p q = bind_run (h_get h p) (\<lambda>n. h_put h p (n\<lparr>nxt := q\<rparr>))"

text \<open>The loop \<open>for (i = 0, tmpNode = head, prevNode = tmpNode; i < middle; ...)\<close>.\<close>

fun walk :: "nat \<Rightarrow> node option list \<Rightarrow> ptr \<Rightarrow> ptr \<Rightarrow> (ptr \<times> ptr) run" where
  "walk 0 h prev tmp = Done (prev, tmp)"
| "walk (Suc k) h prev tmp = bind_run (h_get h tmp) (\<lambda>n. walk k h tmp (nxt n))"

text \<open>
  The loop \<open>for (tmpNode = head; tmpNode->next; tmpNode = tmpNode->next)\<close>. The fuel is one
  more than the number of cells: a walk that uses it up has met a cell twice and goes round
  for ever.
\<close>

fun last_node :: "nat \<Rightarrow> node option list \<Rightarrow> ptr \<Rightarrow> ptr run" where
  "last_node 0 h p = Diverge"
| "last_node (Suc k) h p =
     bind_run (h_get h p) (\<lambda>n. if nxt n = None then Done p else last_node k h (nxt n))"

definition insert_begin :: "node option list \<Rightarrow> ptr \<Rightarrow> ptr \<Rightarrow> (node option list \<times> ptr) run" where
  "insert_begin h hp p = bind_run (set_nxt h p hp) (\<lambda>h1. Done (h1, p))"

definition link_node :: "int \<Rightarrow> int \<Rightarrow> node option list \<Rightarrow> ptr \<Rightarrow> ptr \<Rightarrow> (node option list \<times> ptr) run" where
  "link_node pos tot h hp p =
     (if pos = P_MIDDLE \<and> tot > 2 then
        bind_run (walk (nat (tot div 2)) h hp hp) (\<lambda>(prev, tmp).
          bind_run (set_nxt h prev p) (\<lambda>h1.
            bind_run (set_nxt h1 p tmp) (\<lambda>h2. Done (h2, hp))))
      else if pos = P_END \<and> tot > 1 then
        bind_run (last_node (Suc (length h)) h hp) (\<lambda>q.
          bind_run (set_nxt h q p) (\<lambda>h1. Done (h1, hp)))
      else insert_begin h hp p)"

definition add_fail :: "ptr \<Rightarrow> lstate \<Rightarrow> (int \<times> lstate) run" where
  "add_fail p st = bind_run (h_free (lheap st) p) (\<lambda>h. Done (ERR, st\<lparr>lheap := h\<rparr>))"

text \<open>
  The entry a new node holds: \<open>process_entry\<close> reads it from the input, or it is copied from
  the argument.
\<close>

definition entry_read :: "bytes option \<Rightarrow> string \<Rightarrow> (int \<times> bytes \<times> string) run" where
  "entry_read entry cs =
     (case entry of None \<Rightarrow> process_entry (zeros sizeof_priv) cs
      | Some e \<Rightarrow> bind_run (blit 0 e (zeros sizeof_priv)) (\<lambda>obj. Done (OK, obj, cs)))"

definition named :: "bytes \<Rightarrow> bool" where
  "named e \<longleftrightarrow> e ! off_name \<noteq> NUL \<or> e ! off_number \<noteq> NUL"

definition add :: "bytes option \<Rightarrow> int \<Rightarrow> lstate \<Rightarrow> (int \<times> lstate) run" where
  "add entry pos st =
     (if lavail st = 0 then add_fail None st
      else
        let (h, p) = h_alloc (lheap st) \<lparr>priv = zeros sizeof_priv, nxt = None\<rparr>;
            st1 = st\<lparr>lheap := h, lavail := lavail st - 1\<rparr>
        in bind_run (entry_read entry (linp st)) (\<lambda>(s, obj, cs).
               let st2 = st1\<lparr>linp := cs\<rparr> in
               if s = ERR then add_fail p st2
               else if \<not> named obj then
                 add_fail p (st2\<lparr>lout := Msg ''error: name or phone number have to be at least specified!'' # lout st2\<rparr>)
               else
                 bind_run (h_put h p \<lparr>priv = obj, nxt = None\<rparr>) (\<lambda>h1.
                   bind_run (link_node pos (ltotal st) h1 (lhead st) p) (\<lambda>(h2, hp).
                     Done (OK, st2\<lparr>lheap := h2, lhead := hp, ltotal := ltotal st + 1,
                                   lout := Entry obj # lout st2\<rparr>)))))"


section \<open>Removing and finding: remove_by and find_by\<close>

abbreviation BY_ENTRY :: int where "BY_ENTRY \<equiv> 1"
abbreviation BY_NAME :: int where "BY_NAME \<equiv> 2"
abbreviation BY_MIDDLE_NAME :: int where "BY_MIDDLE_NAME \<equiv> 3"
abbreviation BY_LAST_NAME :: int where "BY_LAST_NAME \<equiv> 4"
abbreviation BY_NUMBER :: int where "BY_NUMBER \<equiv> 5"
abbreviation BY_OCCUPATION :: int where "BY_OCCUPATION \<equiv> 6"
abbreviation BY_AGE :: int where "BY_AGE \<equiv> 7"

text \<open>The offset and the size of the bytes that are compared.\<close>

definition key_field :: "int \<Rightarrow> (nat \<times> nat) option" where
  "key_field opt =
     (if opt = BY_ENTRY then Some (off_name, sizeof_priv)
      else if opt = BY_NAME then Some (off_name, NAMESIZ)
      else if opt = BY_MIDDLE_NAME then Some (off_mname, NAMESIZ)
      else if opt = BY_LAST_NAME then Some (off_lname, NAMESIZ)
      else if opt = BY_NUMBER then Some (off_number, NAMESIZ)
      else if opt = BY_OCCUPATION then Some (off_occup, OCCUPSIZ)
      else if opt = BY_AGE then Some (off_age, 4)
      else None)"

text \<open>The \<open>switch\<close> at the start of both functions: the key is read into a zeroed entry.\<close>

definition read_key :: "int \<Rightarrow> nat \<Rightarrow> nat \<Rightarrow> string \<Rightarrow> (int \<times> bytes \<times> string) run" where
  "read_key opt off n cs =
     (if opt = BY_ENTRY then process_entry (zeros sizeof_priv) cs
      else if opt = BY_AGE then process_param_int off (zeros sizeof_priv) cs
      else process_param_str off n (zeros sizeof_priv) cs)"

text \<open>\<open>cmp\<close> is \<open>memcmp\<close> on the same field of the key and of a node.\<close>

definition same_key :: "nat \<Rightarrow> nat \<Rightarrow> bytes \<Rightarrow> bytes \<Rightarrow> bool" where
  "same_key off n k e \<longleftrightarrow> bslice off n k = bslice off n e"

text \<open>
  The loop of \<open>remove_by\<close>, statement by statement: in the branch of a node that is not the
  head the code goes on to read \<open>curNode->next\<close> after \<open>free(curNode)\<close>.
\<close>

fun remove_loop :: "nat \<Rightarrow> int \<Rightarrow> (bytes \<Rightarrow> bool) \<Rightarrow> ptr \<Rightarrow> ptr \<Rightarrow> bool \<Rightarrow> lstate \<Rightarrow> (bool \<times> lstate) run" where
  "remove_loop 0 opt P cur prev found st = Diverge"
| "remove_loop (Suc k) opt P cur prev found st =
     (if cur = None then Done (found, st)
      else bind_run (h_get (lheap st) cur) (\<lambda>n.
        if P (priv n) then
          let st1 = st\<lparr>lout := Entry (priv n) # lout st\<rparr> in
          if cur = lhead st then
            bind_run (h_free (lheap st1) cur) (\<lambda>h.
              let st2 = st1\<lparr>lhead := nxt n, ltotal := ltotal st1 - 1, lheap := h\<rparr> in
              if opt \<noteq> BY_ENTRY \<and> opt \<noteq> BY_NUMBER
              then remove_loop k opt P (lhead st2) prev True st2
              else Done (True, st2))
          else
            bind_run (set_nxt (lheap st1) prev (nxt n)) (\<lambda>h.
              bind_run (h_free h cur) (\<lambda>h1.
                let st2 = st1\<lparr>lheap := h1, ltotal := ltotal st1 - 1\<rparr> in
                if opt = BY_ENTRY \<or> opt = BY_NUMBER then Done (True, st2)
                else bind_run (h_get (lheap st2) cur) (\<lambda>n2.
                       remove_loop k opt P (nxt n2) cur True st2)))
        else remove_loop k opt P (nxt n) cur found st))"

definition remove_by :: "int \<Rightarrow> lstate \<Rightarrow> (int \<times> lstate) run" where
  "remove_by opt st =
     (case key_field opt of
        None \<Rightarrow> Done (OK, st\<lparr>lout := Msg ''error: unknown compare action!'' # lout st\<rparr>)
      | Some (off, n) \<Rightarrow>
          bind_run (read_key opt off n (linp st)) (\<lambda>(s, key, cs).
            let st1 = st\<lparr>linp := cs\<rparr> in
            if s = ERR then Done (ERR, st1)
            else bind_run (remove_loop (Suc (length (lheap st1))) opt (same_key off n key)
                             (lhead st1) None False st1) (\<lambda>(found, st2).
                   Done (OK, if found then st2
                     else st2\<lparr>lout := Msg ''error: failed to find the customer!'' # lout st2\<rparr>))))"

fun find_loop :: "nat \<Rightarrow> int \<Rightarrow> (bytes \<Rightarrow> bool) \<Rightarrow> ptr \<Rightarrow> bool \<Rightarrow> lstate \<Rightarrow> (bool \<times> lstate) run" where
  "find_loop 0 opt P cur found st = Diverge"
| "find_loop (Suc k) opt P cur found st =
     (if cur = None then Done (found, st)
      else bind_run (h_get (lheap st) cur) (\<lambda>n.
        if P (priv n) then
          let st1 = st\<lparr>lout := Entry (priv n) # lout st\<rparr> in
          if opt = BY_ENTRY \<or> opt = BY_NUMBER then Done (True, st1)
          else find_loop k opt P (nxt n) True st1
        else find_loop k opt P (nxt n) found st))"

definition find_by :: "int \<Rightarrow> lstate \<Rightarrow> (int \<times> lstate) run" where
  "find_by opt st =
     (case key_field opt of
        None \<Rightarrow> Done (OK, st\<lparr>lout := Msg ''error: unknown compare action!'' # lout st\<rparr>)
      | Some (off, n) \<Rightarrow>
          bind_run (read_key opt off n (linp st)) (\<lambda>(s, key, cs).
            let st1 = st\<lparr>linp := cs\<rparr> in
            if s = ERR then Done (ERR, st1)
            else bind_run (find_loop (Suc (length (lheap st1))) opt (same_key off n key)
                             (lhead st1) False st1) (\<lambda>(found, st2).
                   Done (OK, if found then st2
                     else st2\<lparr>lout := Msg ''error: failed to find the customer!'' # lout st2\<rparr>))))"

section \<open>Display, construction and destruction\<close>

fun display_loop :: "nat \<Rightarrow> ptr \<Rightarrow> lstate \<Rightarrow> lstate run" where
  "display_loop 0 cur st = Diverge"
| "display_loop (Suc k) cur st =
     (if cur = None then Done st
      else bind_run (h_get (lheap st) cur) (\<lambda>n.
        display_loop k (nxt n) (st\<lparr>lout := Entry (priv n) # lout st\<rparr>)))"

definition display :: "lstate \<Rightarrow> lstate run" where
  "display st = display_loop (Suc (length (lheap st))) (lhead st) st"

text \<open>\<open>for (p = head, q = NULL; p; p = q) { q = p->next; free(p); }\<close>\<close>

fun free_all :: "nat \<Rightarrow> ptr \<Rightarrow> node option list \<Rightarrow> node option list run" where
  "free_all 0 p h = Diverge"
| "free_all (Suc k) p h =
     (if p = None then Done h
      else bind_run (h_get h p) (\<lambda>n. bind_run (h_free h p) (\<lambda>h1. free_all k (nxt n) h1)))"

definition destructor :: "lstate \<Rightarrow> lstate run" where
  "destructor st =
     bind_run (free_all (Suc (length (lheap st))) (lhead st) (lheap st))
       (\<lambda>h. Done (st\<lparr>lheap := h\<rparr>))"

text \<open>
  \<open>constructor\<close> is a \<open>malloc\<close>, so every member of the ledger is indeterminate;
  \<open>init_obj\<close> sets the function pointers and \<open>head\<close>, and leaves \<open>entry_total\<close> what it
  was. The indeterminate values are the arguments \<open>garbage\<close> and \<open>ghead\<close>.
\<close>

definition init_obj :: "lstate \<Rightarrow> lstate" where
  "init_obj st = st\<lparr>lhead := None\<rparr>"

definition constructor :: "int \<Rightarrow> ptr \<Rightarrow> nat \<Rightarrow> string \<Rightarrow> lstate option" where
  "constructor garbage ghead avail inp =
     (if avail = 0 then None
      else Some \<lparr>lheap = [], lhead = ghead, ltotal = garbage, linp = inp, lout = [],
                 lavail = avail - 1, stdin_open = True\<rparr>)"

end
