(* ===== verification/Ledger_List.thy ===== *)
theory Ledger_List
  imports Ledger_Heap
begin

text \<open>
  What the operations of the LAB_6 ledger promise on lists of entries, and the proofs that the
  pointer code keeps the promise: a heap ledger represents a list of entries when its nodes
  form a chain that holds them, \<open>entry_total\<close> is their number, and no other node is alive.
\<close>

section \<open>The abstract address book\<close>

text \<open>
  \<open>add\<close> in the middle needs three entries and at the end two; with fewer, the new entry
  goes to the front, as the \<open>goto insert_begin\<close> does.
\<close>

definition insert_spec :: "int \<Rightarrow> 'e \<Rightarrow> 'e list \<Rightarrow> 'e list" where
  "insert_spec pos e es =
     (if pos = P_MIDDLE \<and> length es > 2
        then take (length es div 2) es @ e # drop (length es div 2) es
      else if pos = P_END \<and> length es > 1 then es @ [e]
      else e # es)"

lemma set_insert_spec [simp]: "set (insert_spec pos e es) = insert e (set es)"
proof -
  have "set (take k es) \<union> set (drop k es) = set es" for k
    by (metis append_take_drop_id set_append)
  then show ?thesis by (auto simp: insert_spec_def)
qed

fun remove_first :: "('e \<Rightarrow> bool) \<Rightarrow> 'e list \<Rightarrow> 'e list" where
  "remove_first P [] = []"
| "remove_first P (e # es) = (if P e then es else e # remove_first P es)"

fun entries :: "(nat \<times> node) list \<Rightarrow> bytes list" where
  "entries [] = []"
| "entries (x # xs) = priv (snd x) # entries xs"

lemma entries_append [simp]: "entries (xs @ ys) = entries xs @ entries ys"
  by (induction xs) auto

lemma length_entries [simp]: "length (entries xs) = length xs"
  by (induction xs) auto

lemma take_entries: "take k (entries xs) = entries (take k xs)"
  by (induction xs arbitrary: k) (auto simp: take_Cons' split: nat.splits)

lemma drop_entries: "drop k (entries xs) = entries (drop k xs)"
  by (induction xs arbitrary: k) (auto simp: drop_Cons' split: nat.splits)

definition book :: "int \<Rightarrow> lstate \<Rightarrow> (nat \<times> node) list \<Rightarrow> bool" where
  "book g st xs \<longleftrightarrow>
     chain (h_get (lheap st)) nxt (lhead st) xs \<and> ltotal st = g + int (length xs) \<and>
     live (lheap st) = fst ` set xs \<and> (\<forall>e \<in> set (entries xs). length e = sizeof_priv)"

definition represents :: "lstate \<Rightarrow> bytes list \<Rightarrow> bool" where
  "represents st es \<longleftrightarrow> (\<exists>xs. book 0 st xs \<and> es = entries xs)"

section \<open>Loops over a chain\<close>

lemma set_nxt_Done:
  assumes "h_get h p = Done n"
  obtains h' where "set_nxt h p q = Done h'" "h_put h p (n\<lparr>nxt := q\<rparr>) = Done h'"
  using assms nh.put_done [OF assms, of "n\<lparr>nxt := q\<rparr>"] by (auto simp: set_nxt_def)

lemma walk_seg:
  "seg (h_get h) nxt p as q \<Longrightarrow>
   walk (length as) h prev p = Done (if as = [] then prev else Some (fst (last as)), q)"
proof (induction as arbitrary: p prev)
  case Nil
  then show ?case by simp
next
  case (Cons a as)
  then show ?case by (cases as) auto
qed

lemma last_node_chain:
  "chain (h_get h) nxt p xs \<Longrightarrow> xs \<noteq> [] \<Longrightarrow> length xs \<le> k \<Longrightarrow>
   last_node k h p = Done (Some (fst (last xs)))"
proof (induction k arbitrary: p xs)
  case 0
  then show ?case by simp
next
  case (Suc k)
  then obtain x ys where xs: "xs = x # ys" by (cases xs) auto
  with Suc.prems have p: "h_get h p = Done (snd x)" "p = Some (fst x)"
    and t: "chain (h_get h) nxt (nxt (snd x)) ys" by auto
  show ?case
  proof (cases ys)
    case Nil
    with p t xs show ?thesis by simp
  next
    case (Cons y zs)
    with t obtain z where z: "nxt (snd x) = Some z" by auto
    have "last_node k h (nxt (snd x)) = Done (Some (fst (last ys)))"
      using Suc.prems xs Cons by (intro Suc.IH [OF t]) auto
    then show ?thesis using p xs Cons z by simp
  qed
qed

lemma last_seg_snoc:
  assumes "seg g nx p as q" "as \<noteq> []"
  obtains bs i n where "as = bs @ [(i, n)]" "g (Some i) = Done n" "nx n = q"
    "seg g nx p bs (Some i)" "last as = (i, n)"
  using assms by (cases as rule: rev_cases) (auto simp: seg_snoc)

text \<open>Linking a fresh node \<open>i\<close> between two segments.\<close>

lemma link_between:
  assumes s1: "seg (h_get h) nxt p (as @ [(j, m)]) q" and s2: "chain (h_get h) nxt q bs"
    and i: "h_get h (Some i) = Done n" "i \<notin> fst ` set (as @ [(j, m)])" "i \<notin> fst ` set bs"
    and d: "j \<notin> fst ` set as" "j \<notin> fst ` set bs"
  shows "\<exists>h1 h2. set_nxt h (Some j) (Some i) = Done h1 \<and> set_nxt h1 (Some i) q = Done h2 \<and>
     chain (h_get h2) nxt p (as @ (j, m\<lparr>nxt := Some i\<rparr>) # (i, n\<lparr>nxt := q\<rparr>) # bs) \<and>
     live h2 = live h"
proof -
  from s1 have j: "h_get h (Some j) = Done m" by (simp add: seg_snoc)
  obtain h1 where h1: "set_nxt h (Some j) (Some i) = Done h1"
    and p1: "h_put h (Some j) (m\<lparr>nxt := Some i\<rparr>) = Done h1" using set_nxt_Done [OF j] by blast
  have ij: "i \<noteq> j" using i by auto
  have i1: "h_get h1 (Some i) = Done n" using nh.get_put [OF p1, of "Some i"] i ij by simp
  obtain h2 where h2: "set_nxt h1 (Some i) q = Done h2"
    and p2: "h_put h1 (Some i) (n\<lparr>nxt := q\<rparr>) = Done h2" using set_nxt_Done [OF i1] by blast
  have "seg (h_get h1) nxt p (as @ [(j, m\<lparr>nxt := Some i\<rparr>)]) (Some i)"
    by (rule nh.seg_relink_end [OF s1 p1 _ d(1)]) simp
  then have a: "seg (h_get h2) nxt p (as @ [(j, m\<lparr>nxt := Some i\<rparr>)]) (Some i)"
    using nh.seg_put_other [OF p2, of "as @ [(j, m\<lparr>nxt := Some i\<rparr>)]" nxt p "Some i"] i by auto
  have "chain (h_get h1) nxt q bs"
    using nh.seg_put_other [OF p1, of bs nxt q None] s2 d by auto
  then have b: "chain (h_get h2) nxt q bs"
    using nh.seg_put_other [OF p2, of bs nxt q None] i by auto
  have "h_get h2 (Some i) = Done (n\<lparr>nxt := q\<rparr>)" using nh.get_put [OF p2, of "Some i"] by simp
  with a b have "chain (h_get h2) nxt p ((as @ [(j, m\<lparr>nxt := Some i\<rparr>)]) @ (i, n\<lparr>nxt := q\<rparr>) # bs)"
    by (subst seg_append) auto
  then have "chain (h_get h2) nxt p (as @ (j, m\<lparr>nxt := Some i\<rparr>) # (i, n\<lparr>nxt := q\<rparr>) # bs)" by simp
  moreover have "live h2 = live h" using live_put [OF p1] live_put [OF p2] by simp
  ultimately show ?thesis using h1 h2 by blast
qed


text \<open>
  What is left by linking the node \<open>i\<close> with the entry \<open>e\<close> into the chain \<open>xs\<close>: a chain of one node
  more, whose entries are \<open>es\<close>.
\<close>

definition linked :: "(nat \<times> node) list \<Rightarrow> nat \<Rightarrow> node option list \<Rightarrow> node option list \<times> ptr \<Rightarrow> bytes list \<Rightarrow> bool" where
  "linked xs i h r es \<longleftrightarrow> (\<exists>ys. chain (h_get (fst r)) nxt (snd r) ys \<and> live (fst r) = live h \<and>
     entries ys = es \<and> fst ` set ys = insert i (fst ` set xs) \<and> length ys = Suc (length xs))"

lemma link_front:
  assumes c: "chain (h_get h) nxt hp xs" and i: "h_get h (Some i) = Done n" "i \<notin> fst ` set xs"
  shows "\<exists>r. insert_begin h hp (Some i) = Done r \<and> linked xs i h r (priv n # entries xs)"
proof -
  obtain h' where h': "set_nxt h (Some i) hp = Done h'" 
    and p: "h_put h (Some i) (n\<lparr>nxt := hp\<rparr>) = Done h'" using set_nxt_Done [OF i(1)] by blast
  have "chain (h_get h') nxt (Some i) ((i, n\<lparr>nxt := hp\<rparr>) # xs)"
    using nh.get_put [OF p, of "Some i"] nh.seg_put_other [OF p, of xs nxt hp None] c i(2) by auto
  then have "linked xs i h (h', Some i) (priv n # entries xs)"
    using live_put [OF p] unfolding linked_def by (intro exI [of _ "(i, n\<lparr>nxt := hp\<rparr>) # xs"]) auto
  then show ?thesis using h' by (simp add: insert_begin_def)
qed

text \<open>Behind the first \<open>k\<close> nodes, to which the loop of the middle walks.\<close>

lemma link_at:
  assumes c: "chain (h_get h) nxt hp xs" and i: "h_get h (Some i) = Done n" "i \<notin> fst ` set xs"
    and k: "0 < k" "k \<le> length xs"
  shows "\<exists>r. bind_run (walk k h hp hp) (\<lambda>(prev, tmp). bind_run (set_nxt h prev (Some i)) (\<lambda>h1.
      bind_run (set_nxt h1 (Some i) tmp) (\<lambda>h2. Done (h2, hp)))) = Done r \<and>
    linked xs i h r (take k (entries xs) @ priv n # drop k (entries xs))"
proof -
  have d: "distinct (map fst xs)" by (rule chain_distinct [OF c])
  obtain q where s: "seg (h_get h) nxt hp (take k xs) q" "chain (h_get h) nxt q (drop k xs)"
    using c seg_append [of "h_get h" nxt hp "take k xs" "drop k xs" None] by auto
  have ne: "take k xs \<noteq> []" using k by auto
  obtain as j m where as: "take k xs = as @ [(j, m)]" "last (take k xs) = (j, m)"
    using last_seg_snoc [OF s(1) ne] by metis
  have w: "walk k h hp hp = Done (Some j, q)"
    using walk_seg [OF s(1), of hp] ne as(2) k by (simp only: length_take min_absorb2 if_False fst_conv)
  have xs: "xs = (as @ [(j, m)]) @ drop k xs" using as by (metis append_take_drop_id)
  have "distinct (map fst ((as @ [(j, m)]) @ drop k xs))" using d xs by simp
  then have dj: "j \<notin> fst ` set as" "j \<notin> fst ` set (drop k xs)" by auto
  have set_xs: "fst ` set xs = fst ` set (as @ [(j, m)]) \<union> fst ` set (drop k xs)"
    using arg_cong [OF xs, of set] by (metis image_Un set_append)
  then have ii: "i \<notin> fst ` set (as @ [(j, m)])" "i \<notin> fst ` set (drop k xs)"
    using i(2) by auto
  obtain h1 h2 where h: "set_nxt h (Some j) (Some i) = Done h1" "set_nxt h1 (Some i) q = Done h2"
    "chain (h_get h2) nxt hp (as @ (j, m\<lparr>nxt := Some i\<rparr>) # (i, n\<lparr>nxt := q\<rparr>) # drop k xs)"
    "live h2 = live h"
    using link_between [OF s(1)[unfolded as(1)] s(2) i(1) ii dj] by blast
  let ?ys = "as @ (j, m\<lparr>nxt := Some i\<rparr>) # (i, n\<lparr>nxt := q\<rparr>) # drop k xs"
  have "take k (entries xs) = entries as @ [priv m]" using as by (simp add: take_entries)
  then have "entries ?ys = take k (entries xs) @ priv n # drop k (entries xs)" by (simp add: drop_entries)
  moreover have "fst ` set ?ys = insert i (fst ` set xs)"
    unfolding set_xs by auto
  moreover have "length ?ys = Suc (length xs)" using arg_cong [OF xs, of length] by simp
  ultimately have "linked xs i h (h2, hp) (take k (entries xs) @ priv n # drop k (entries xs))"
    using h(3,4) unfolding linked_def by (intro exI [of _ ?ys]) simp
  then show ?thesis using w h(1,2) by simp
qed

lemma link_last:
  assumes c: "chain (h_get h) nxt hp xs" and i: "h_get h (Some i) = Done n" "i \<notin> fst ` set xs"
    and n: "nxt n = None" and ne: "xs \<noteq> []"
  shows "\<exists>r. bind_run (last_node (Suc (length h)) h hp) (\<lambda>q. bind_run (set_nxt h q (Some i)) (\<lambda>h1. Done (h1, hp)))
      = Done r \<and> linked xs i h r (entries xs @ [priv n])"
proof -
  have d: "distinct (map fst xs)" by (rule chain_distinct [OF c])
  obtain as j m where as: "xs = as @ [(j, m)]" "last xs = (j, m)"
    using last_seg_snoc [OF c ne] by metis
  have l: "last_node (Suc (length h)) h hp = Done (Some j)"
  proof -
    have "length xs \<le> Suc (length h)" using chain_length [OF c] by simp
    from last_node_chain [OF c ne this] as(2) show ?thesis by (simp only: fst_conv)
  qed
  have dj: "j \<notin> fst ` set as" using d as by simp
  have j: "h_get h (Some j) = Done m" using c as by (simp add: seg_snoc)
  obtain h1 where h: "set_nxt h (Some j) (Some i) = Done h1"
    and p1: "h_put h (Some j) (m\<lparr>nxt := Some i\<rparr>) = Done h1" using set_nxt_Done [OF j] by blast
  have "j \<noteq> i" using i(2) as by auto
  then have i1: "h_get h1 (Some i) = Done n" using nh.get_put [OF p1, of "Some i"] i by simp
  have "seg (h_get h1) nxt hp (as @ [(j, m\<lparr>nxt := Some i\<rparr>)]) (Some i)"
    using c as dj by (intro nh.seg_relink_end [OF _ p1]) auto
  then have ch: "chain (h_get h1) nxt hp ((as @ [(j, m\<lparr>nxt := Some i\<rparr>)]) @ [(i, n)])"
    using i1 n by (subst seg_append) auto
  then have "linked xs i h (h1, hp) (entries xs @ [priv n])"
    using as live_put [OF p1] unfolding linked_def
    by (intro exI [of _ "(as @ [(j, m\<lparr>nxt := Some i\<rparr>)]) @ [(i, n)]"]) auto
  then show ?thesis using l h by (simp del: last_node.simps)
qed

text \<open>\<open>link_node\<close> puts the node where \<open>insert_spec\<close> puts the entry.\<close>

lemma link_node_spec:
  assumes c: "chain (h_get h) nxt hp xs" and i: "h_get h (Some i) = Done n" "i \<notin> fst ` set xs"
    and n: "nxt n = None"
  shows "\<exists>r. link_node pos (int (length xs)) h hp (Some i) = Done r \<and>
     linked xs i h r (insert_spec pos (priv n) (entries xs))"
proof -
  consider (mid) "pos = P_MIDDLE \<and> length xs > 2" | (fin) "pos = P_END \<and> length xs > 1"
    | (beg) "\<not> (pos = P_MIDDLE \<and> length xs > 2)" "\<not> (pos = P_END \<and> length xs > 1)" by blast
  then show ?thesis
  proof cases
    case beg
    then show ?thesis using link_front [OF c i] by (auto simp: link_node_def insert_spec_def)
  next
    case mid
    have k: "0 < length xs div 2" "length xs div 2 \<le> length xs" using mid by auto
    then show ?thesis using link_at [OF c i k] mid
      by (simp add: link_node_def insert_spec_def nat_div_distrib)
  next
    case fin
    then have "xs \<noteq> []" by auto
    from link_last [OF c i n this] show ?thesis using fin
      by (simp add: link_node_def insert_spec_def del: last_node.simps)
  qed
qed

text \<open>
  With a counter that is not the length of the list the node still goes somewhere into the list, or
  a loop runs over its end: into the null pointer, and only when the counter is too large.
\<close>

lemma walk_null: "chain (h_get h) nxt p xs \<Longrightarrow> length xs < k \<Longrightarrow> walk k h prev p = Fault NullDeref"
proof (induction xs arbitrary: p prev k)
  case Nil
  then show ?case by (cases k) (auto simp: h_get.simps)
next
  case (Cons x xs)
  then show ?case by (cases k) auto
qed

lemma link_node_any:
  assumes c: "chain (h_get h) nxt hp xs" and i: "h_get h (Some i) = Done n" "i \<notin> fst ` set xs"
    and n: "nxt n = None"
  shows "link_node pos tot h hp (Some i) = Fault NullDeref \<and> int (length xs) + 1 < tot \<or>
     (\<exists>r es. link_node pos tot h hp (Some i) = Done r \<and> linked xs i h r es \<and>
       set es = insert (priv n) (set (entries xs)))"
proof -
  consider (mid) "pos = P_MIDDLE \<and> tot > 2" | (fin) "pos = P_END \<and> tot > 1"
    | (beg) "\<not> (pos = P_MIDDLE \<and> tot > 2)" "\<not> (pos = P_END \<and> tot > 1)" by blast
  then show ?thesis
  proof cases
    case beg
    then show ?thesis using link_front [OF c i] by (fastforce simp: link_node_def)
  next
    case mid
    define k where "k = nat (tot div 2)"
    have k: "0 < k" "int k = tot div 2" using mid by (auto simp: k_def)
    have e: "link_node pos tot h hp (Some i) = bind_run (walk k h hp hp) (\<lambda>(prev, tmp).
        bind_run (set_nxt h prev (Some i)) (\<lambda>h1. bind_run (set_nxt h1 (Some i) tmp) (\<lambda>h2. Done (h2, hp))))"
      using mid by (simp add: link_node_def k_def)
    show ?thesis
    proof (cases "k \<le> length xs")
      case True
      have "set (take k (entries xs) @ priv n # drop k (entries xs)) = insert (priv n) (set (entries xs))"
        by (metis append_take_drop_id set_append list.set(2) Un_insert_right)
      then show ?thesis using link_at [OF c i k(1) True] unfolding e by blast
    next
      case False
      then have "int (length xs) + 1 < tot" using k by linarith
      then show ?thesis using walk_null [OF c, of k hp] False unfolding e by simp
    qed
  next
    case fin
    show ?thesis
    proof (cases "xs = []")
      case True
      then show ?thesis using fin c by (simp add: link_node_def h_get.simps)
    next
      case False
      from link_last [OF c i n this] show ?thesis using fin
        by (fastforce simp: link_node_def simp del: last_node.simps)
    qed
  qed
qed


section \<open>add\<close>

lemma length_process_param_str:
  "process_param_str off n obj cs = Done (s, obj', cs') \<Longrightarrow> length obj' = length obj"
  by (auto simp: process_param_str_def Let_def split: option.splits if_splits dest!: blit_Done)

lemma length_process_param_int:
  "process_param_int off obj cs = Done (s, obj', cs') \<Longrightarrow> length obj' = length obj"
  by (auto simp: process_param_int_def split: scan.splits dest!: blit_Done)

lemma length_process_strs:
  "process_strs offs obj cs = Done (s, obj', cs') \<Longrightarrow> length obj' = length obj"
  by (induction offs obj cs rule: process_strs.induct)
     (fastforce split: if_splits dest: length_process_param_str)+

declare process_strs.simps [simp del]

lemma length_process_entry:
  "process_entry obj cs = Done (s, obj', cs') \<Longrightarrow> length obj' = length obj"
  by (auto simp: process_entry_def split: if_splits
      dest!: length_process_strs length_process_param_int)

lemma length_entry_read: "entry_read entry cs = Done (s, obj, cs') \<Longrightarrow> length obj = sizeof_priv"
  by (auto simp: entry_read_def split: option.splits dest!: length_process_entry blit_Done)

lemma entry_read_Some: "length e = sizeof_priv \<Longrightarrow> entry_read (Some e) cs = Done (OK, e, cs)"
  by (simp add: entry_read_def)

lemma book_alloc:
  assumes "book g st xs" and "h_alloc (lheap st) n = (h, p)"
  obtains i where "p = Some i" "i \<notin> fst ` set xs" "chain (h_get h) nxt (lhead st) xs"
    "h_get h (Some i) = Done n" "live h = insert i (fst ` set xs)"
proof -
  have c: "chain (h_get (lheap st)) nxt (lhead st) xs" using assms by (simp add: book_def)
  obtain i where i: "p = Some i" using nh.alloc_fresh [OF assms(2)] by auto
  show thesis
    using that [OF i] nh.alloc_not_in_seg [OF assms(2) c] nh.seg_alloc [OF assms(2) c]
      nh.get_alloc_new [OF assms(2)] live_alloc [OF assms(2)] assms(1) i
    by (auto simp: book_def)
qed

text \<open>An entry that is read, and has a name or a number, is in a new node when the node is linked.\<close>

lemma add_prepare:
  assumes b: "book g st xs" and a: "lavail st \<noteq> 0"
    and r: "entry_read entry (linp st) = Done (OK, obj, cs)" and nm: "named obj"
  shows "\<exists>h1 i. add entry pos st = bind_run (link_node pos (ltotal st) h1 (lhead st) (Some i)) (\<lambda>(h2, hp).
       Done (OK, st\<lparr>lavail := lavail st - 1, linp := cs, lheap := h2, lhead := hp, ltotal := ltotal st + 1,
         lout := Entry obj # lout st\<rparr>)) \<and>
     chain (h_get h1) nxt (lhead st) xs \<and> h_get h1 (Some i) = Done \<lparr>priv = obj, nxt = None\<rparr> \<and>
     i \<notin> fst ` set xs \<and> live h1 = insert i (fst ` set xs)"
proof -
  let ?n = "\<lparr>priv = zeros sizeof_priv, nxt = None\<rparr>"
  obtain h p where al: "h_alloc (lheap st) ?n = (h, p)" by fastforce
  from book_alloc [OF b this] obtain i where i: "p = Some i" "i \<notin> fst ` set xs" "chain (h_get h) nxt (lhead st) xs"
    "h_get h (Some i) = Done ?n" "live h = insert i (fst ` set xs)" by auto
  obtain h1 where h1: "h_put h p \<lparr>priv = obj, nxt = None\<rparr> = Done h1"
    using nh.put_done [OF i(4)] i(1) by auto
  have c1: "chain (h_get h1) nxt (lhead st) xs"
    using nh.seg_put_other [OF h1, of xs nxt "lhead st" None] i by auto
  have g1: "h_get h1 (Some i) = Done \<lparr>priv = obj, nxt = None\<rparr>"
    using nh.get_put [OF h1, of "Some i"] i by simp
  have "add entry pos st = bind_run (link_node pos (ltotal st) h1 (lhead st) (Some i)) (\<lambda>(h2, hp).
       Done (OK, st\<lparr>lavail := lavail st - 1, linp := cs, lheap := h2, lhead := hp, ltotal := ltotal st + 1,
         lout := Entry obj # lout st\<rparr>))"
    using a r nm h1 i(1) by (simp add: add_def al)
  then show ?thesis using c1 g1 i(2,5) live_put [OF h1] by (intro exI [of _ h1] exI [of _ i]) simp
qed

lemma book_linked:
  assumes "linked xs i h1 (h2, hp) es" "live h1 = insert i (fst ` set xs)" "\<forall>e \<in> set es. length e = sizeof_priv"
  shows "\<exists>ys. book g (st\<lparr>lheap := h2, lhead := hp, ltotal := g + int (Suc (length xs))\<rparr>) ys \<and>
    entries ys = es \<and> length ys = Suc (length xs)"
proof -
  obtain ys where "chain (h_get h2) nxt hp ys" "live h2 = live h1" "entries ys = es"
    "fst ` set ys = insert i (fst ` set xs)" "length ys = Suc (length xs)"
    using assms(1) by (auto simp: linked_def)
  then show ?thesis using assms(2,3) by (intro exI [of _ ys]) (simp add: book_def)
qed

lemma add_ok:
  assumes b: "book 0 st xs" and a: "lavail st \<noteq> 0"
    and r: "entry_read entry (linp st) = Done (OK, obj, cs)" and nm: "named obj"
  shows "\<exists>st' ys. add entry pos st = Done (OK, st') \<and> book 0 st' ys \<and>
     entries ys = insert_spec pos obj (entries xs) \<and>
     linp st' = cs \<and> lout st' = Entry obj # lout st \<and> lavail st' = lavail st - 1"
proof -
  from add_prepare [OF b a r nm, of pos] obtain h1 i where
    h1: "add entry pos st = bind_run (link_node pos (ltotal st) h1 (lhead st) (Some i)) (\<lambda>(h2, hp).
       Done (OK, st\<lparr>lavail := lavail st - 1, linp := cs, lheap := h2, lhead := hp, ltotal := ltotal st + 1,
         lout := Entry obj # lout st\<rparr>))"
    "chain (h_get h1) nxt (lhead st) xs" "h_get h1 (Some i) = Done \<lparr>priv = obj, nxt = None\<rparr>"
    "i \<notin> fst ` set xs" "live h1 = insert i (fst ` set xs)" by blast
  have tot: "ltotal st = int (length xs)" using b by (simp add: book_def)
  obtain h2 hp where l: "link_node pos (ltotal st) h1 (lhead st) (Some i) = Done (h2, hp)"
    "linked xs i h1 (h2, hp) (insert_spec pos obj (entries xs))"
    using link_node_spec [OF h1(2-4), of pos] unfolding tot by auto
  have "\<forall>e \<in> set (insert_spec pos obj (entries xs)). length e = sizeof_priv"
    using b length_entry_read [OF r] by (simp add: book_def)
  from book_linked [OF l(2) h1(5) this, of 0 st] show ?thesis
    using h1(1) l(1) tot by (fastforce simp: book_def)
qed

text \<open>The same when the counter started at \<open>g\<close>, and is not the length of the list.\<close>

lemma add_any:
  assumes b: "book g st xs" and a: "lavail st \<noteq> 0"
    and r: "entry_read entry (linp st) = Done (OK, obj, cs)" and nm: "named obj"
  shows "add entry pos st = Fault NullDeref \<and> 1 < g \<or>
    (\<exists>st' ys. add entry pos st = Done (OK, st') \<and> book g st' ys \<and>
      length ys = Suc (length xs) \<and> lavail st' = lavail st - 1)"
proof -
  from add_prepare [OF b a r nm, of pos] obtain h1 i where
    h1: "add entry pos st = bind_run (link_node pos (ltotal st) h1 (lhead st) (Some i)) (\<lambda>(h2, hp).
       Done (OK, st\<lparr>lavail := lavail st - 1, linp := cs, lheap := h2, lhead := hp, ltotal := ltotal st + 1,
         lout := Entry obj # lout st\<rparr>))"
    "chain (h_get h1) nxt (lhead st) xs" "h_get h1 (Some i) = Done \<lparr>priv = obj, nxt = None\<rparr>"
    "i \<notin> fst ` set xs" "live h1 = insert i (fst ` set xs)" by blast
  consider (null) "link_node pos (ltotal st) h1 (lhead st) (Some i) = Fault NullDeref" "int (length xs) + 1 < ltotal st"
    | (ok) h2 hp es where "link_node pos (ltotal st) h1 (lhead st) (Some i) = Done (h2, hp)"
      "linked xs i h1 (h2, hp) es" "set es = insert obj (set (entries xs))"
    using link_node_any [OF h1(2-4), of pos "ltotal st"] by auto
  then show ?thesis
  proof cases
    case null
    then show ?thesis using h1(1) b by (simp add: book_def)
  next
    case ok
    have "\<forall>e \<in> set es. length e = sizeof_priv" using b length_entry_read [OF r] ok(3) by (simp add: book_def)
    from book_linked [OF ok(2) h1(5) this, of g st] obtain ys where
      y: "book g (st\<lparr>lheap := h2, lhead := hp, ltotal := g + int (Suc (length xs))\<rparr>) ys" "length ys = Suc (length xs)"
      by blast
    let ?st = "st\<lparr>lavail := lavail st - 1, linp := cs, lheap := h2, lhead := hp, ltotal := ltotal st + 1,
      lout := Entry obj # lout st\<rparr>"
    have "ltotal st = g + int (length xs)" using b by (simp add: book_def)
    then have "book g ?st ys" using y by (simp add: book_def)
    moreover have "add entry pos st = Done (OK, ?st)" using h1(1) ok(1) by simp
    ultimately show ?thesis using y(2) by (intro disjI2 exI [of _ ?st] exI [of _ ys]) simp
  qed
qed

text \<open>An entry that is not stored leaves the book as it was: the new node is freed.\<close>

lemma book_fields [simp]:
  "book g (st\<lparr>lout := o'\<rparr>) xs = book g st xs" "book g (st\<lparr>linp := cs\<rparr>) xs = book g st xs"
  "book g (st\<lparr>lavail := k\<rparr>) xs = book g st xs" "book g (st\<lparr>stdin_open := b\<rparr>) xs = book g st xs"
  by (simp_all add: book_def)

lemma book_free_new:
  assumes b: "book g st xs" and al: "h_alloc (lheap st) n = (h, p)"
  shows "\<exists>h'. h_free h p = Done h' \<and> book g (st\<lparr>lheap := h'\<rparr>) xs"
proof -
  obtain i where i: "p = Some i" "i \<notin> fst ` set xs" "chain (h_get h) nxt (lhead st) xs"
    "h_get h (Some i) = Done n" "live h = insert i (fst ` set xs)"
    by (rule book_alloc [OF b al])
  obtain h' where h': "h_free h p = Done h'" using nh.free_done [OF i(4)] i(1) by auto
  have "chain (h_get h') nxt (lhead st) xs"
    using nh.seg_free_other [OF i(4), of h' xs nxt "lhead st" None] h' i by auto
  moreover have "live h' = fst ` set xs" using live_free [of h i h'] h' i by auto
  ultimately show ?thesis using b h' by (auto simp: book_def)
qed

lemma add_rejected:
  assumes b: "book g st xs"
    and r: "lavail st = 0 \<or> (\<exists>s obj cs. entry_read entry (linp st) = Done (s, obj, cs) \<and>
              (s = ERR \<or> \<not> named obj))"
  shows "\<exists>st'. add entry pos st = Done (ERR, st') \<and> book g st' xs \<and> lavail st' \<le> lavail st"
proof (cases "lavail st = 0")
  case True
  then show ?thesis using b by (simp add: add_def add_fail_def h_free_def)
next
  case False
  then obtain s obj cs where e: "entry_read entry (linp st) = Done (s, obj, cs)"
    and f: "s = ERR \<or> \<not> named obj" using r by auto
  obtain h p where al: "h_alloc (lheap st) \<lparr>priv = zeros sizeof_priv, nxt = None\<rparr> = (h, p)"
    by fastforce
  obtain h' where h': "h_free h p = Done h'" "book g (st\<lparr>lheap := h'\<rparr>) xs"
    using book_free_new [OF b al] by blast
  show ?thesis using False e f al h'
    by (auto simp: add_def add_fail_def book_def Let_def)
qed

section \<open>Unlinking a node\<close>

lemma unlink_head:
  assumes b: "book g st (x # xs)"
  shows "\<exists>h. h_free (lheap st) (lhead st) = Done h \<and>
     book g (st\<lparr>lhead := nxt (snd x), ltotal := ltotal st - 1, lheap := h\<rparr>) xs"
proof -
  have c: "lhead st = Some (fst x)" "h_get (lheap st) (Some (fst x)) = Done (snd x)"
    "chain (h_get (lheap st)) nxt (nxt (snd x)) xs"
    and l: "live (lheap st) = insert (fst x) (fst ` set xs)" using b by (auto simp: book_def)
  have d: "fst x \<notin> fst ` set xs"
  proof -
    have "chain (h_get (lheap st)) nxt (lhead st) (x # xs)" using b by (simp only: book_def)
    from chain_distinct [OF this] show ?thesis by simp
  qed
  obtain h where h: "h_free (lheap st) (lhead st) = Done h" using nh.free_done c by metis
  have "chain (h_get h) nxt (nxt (snd x)) xs"
    using nh.seg_free_other [OF c(2), of h xs] h c d by auto
  moreover have "live h = fst ` set xs" using live_free [of "lheap st" "fst x" h] h c l d by auto
  ultimately show ?thesis using h b by (auto simp: book_def)
qed

lemma unlink_middle:
  assumes b: "book g st (as @ (j, m) # (i, n) # bs)"
  shows "\<exists>h1 h2. set_nxt (lheap st) (Some j) (nxt n) = Done h1 \<and> h_free h1 (Some i) = Done h2 \<and>
     h_get h2 (Some i) = Fault UseAfterFree \<and>
     book g (st\<lparr>lheap := h2, ltotal := ltotal st - 1\<rparr>) (as @ (j, m\<lparr>nxt := nxt n\<rparr>) # bs)"
proof -
  let ?h = "lheap st"
  have c: "chain (h_get ?h) nxt (lhead st) (as @ (j, m) # (i, n) # bs)"
    and l: "live ?h = fst ` set (as @ (j, m) # (i, n) # bs)" using b by (auto simp: book_def)
  have d: "i \<noteq> j" "j \<notin> fst ` set as" "j \<notin> fst ` set bs" "i \<notin> fst ` set as" "i \<notin> fst ` set bs"
    using chain_distinct [OF c] by auto
  have s: "seg (h_get ?h) nxt (lhead st) (as @ [(j, m)]) (Some i)" "h_get ?h (Some i) = Done n"
    "h_get ?h (Some j) = Done m" "chain (h_get ?h) nxt (nxt n) bs"
    using c by (auto simp: seg_append)
  obtain h1 where h1: "set_nxt ?h (Some j) (nxt n) = Done h1"
    and p1: "h_put ?h (Some j) (m\<lparr>nxt := nxt n\<rparr>) = Done h1" using set_nxt_Done [OF s(3)] by blast
  have i1: "h_get h1 (Some i) = Done n" using nh.get_put [OF p1, of "Some i"] s d by simp
  obtain h2 where h2: "h_free h1 (Some i) = Done h2" using nh.free_done [OF i1] by blast
  let ?as = "as @ [(j, m\<lparr>nxt := nxt n\<rparr>)]"
  have "seg (h_get h1) nxt (lhead st) ?as (nxt n)"
    by (rule nh.seg_relink_end [OF s(1) p1 _ d(2)]) simp
  then have a: "seg (h_get h2) nxt (lhead st) ?as (nxt n)"
    using nh.seg_free_other [OF i1 h2, of ?as] d by auto
  have "chain (h_get h1) nxt (nxt n) bs" using nh.seg_put_other [OF p1, of bs] s d by auto
  then have "chain (h_get h2) nxt (nxt n) bs" using nh.seg_free_other [OF i1 h2, of bs] d by auto
  with a have ch: "chain (h_get h2) nxt (lhead st) (?as @ bs)" by (subst seg_append) blast
  have "live h2 = fst ` set (?as @ bs)"
    using live_free [OF h2] live_put [OF p1] l d by auto
  then have "book g (st\<lparr>lheap := h2, ltotal := ltotal st - 1\<rparr>) (?as @ bs)"
    using ch b by (auto simp: book_def)
  then show ?thesis using h1 h2 nh.get_free_same [OF i1 h2] by simp
qed


section \<open>remove_by\<close>

abbreviation unique_opt :: "int \<Rightarrow> bool" where
  "unique_opt opt \<equiv> opt = BY_ENTRY \<or> opt = BY_NUMBER"

lemma book_head_iff:
  assumes "book g st (as @ (i, n) # bs)"
  shows "Some i = lhead st \<longleftrightarrow> as = []"
proof -
  have c: "chain (h_get (lheap st)) nxt (lhead st) (as @ (i, n) # bs)" using assms by (simp add: book_def)
  have "i \<notin> fst ` set as" using chain_distinct [OF c] by auto
  then show ?thesis using c by (cases as) auto
qed

lemma book_cell: "book g st (as @ (i, n) # bs) \<Longrightarrow> h_get (lheap st) (Some i) = Done n"
  by (auto simp: book_def seg_append)

lemma book_next:
  assumes "book g st (as @ (i, n) # bs)"
  shows "nxt n = (case bs of [] \<Rightarrow> None | (j, m) # cs \<Rightarrow> Some j)"
  using assms by (auto simp: book_def seg_append split: list.splits)

definition first_cell :: "(nat \<times> node) list \<Rightarrow> ptr" where
  "first_cell xs = (case xs of [] \<Rightarrow> None | (i, n) # ys \<Rightarrow> Some i)"

definition last_cell :: "(nat \<times> node) list \<Rightarrow> ptr" where
  "last_cell xs = (if xs = [] then None else Some (fst (last xs)))"

lemma book_head: "book g st xs \<Longrightarrow> lhead st = first_cell xs"
  by (cases xs) (auto simp: book_def first_cell_def)

lemma first_cell_simps [simp]: "first_cell [] = None" "first_cell ((i, n) # xs) = Some i"
  by (simp_all add: first_cell_def)

lemma last_cell_snoc [simp]: "last_cell (xs @ [(i, n)]) = Some i"
  by (simp add: last_cell_def)

lemma nxt_book: "book g st (as @ (i, n) # bs) \<Longrightarrow> nxt n = first_cell bs"
  using book_next by (auto simp: first_cell_def split: list.splits)

text \<open>With a key that stops at the first match, exactly the first match goes.\<close>

lemma remove_loop_unique:
  assumes "unique_opt opt" "book g st (as @ bs)" "\<forall>e \<in> set (entries as). \<not> P e" "length bs < k"
  shows "\<exists>st' ys. remove_loop k opt P (first_cell bs) (last_cell as) f st =
       Done (f \<or> (\<exists>e \<in> set (entries bs). P e), st') \<and> book g st' ys \<and>
     entries ys = entries as @ remove_first P (entries bs) \<and> linp st' = linp st \<and> lavail st' = lavail st"
  using assms
proof (induction k arbitrary: as bs)
  case 0
  then show ?case by simp
next
  case (Suc k)
  show ?case
  proof (cases bs)
    case Nil
    then show ?thesis using Suc.prems by auto
  next
    case (Cons x cs)
    obtain i n where x: "x = (i, n)" by (cases x)
    have b: "book g st (as @ (i, n) # cs)" using Suc.prems Cons x by simp
    note g = book_cell [OF b] and nn = nxt_book [OF b] and hd_iff = book_head_iff [OF b]
    show ?thesis
    proof (cases "P (priv n)")
      case False
      have "\<exists>st' ys. remove_loop k opt P (first_cell cs) (last_cell (as @ [(i, n)])) f st =
           Done (f \<or> (\<exists>e \<in> set (entries cs). P e), st') \<and> book g st' ys \<and>
         entries ys = entries (as @ [(i, n)]) @ remove_first P (entries cs) \<and> linp st' = linp st \<and> lavail st' = lavail st"
        using Suc.prems Cons False b by (intro Suc.IH) auto
      then show ?thesis using Cons x g nn False by auto
    next
      case True
      show ?thesis
      proof (cases as rule: rev_cases)
        case Nil
        have "book g st ((i, n) # cs)" using b Nil by simp
        from unlink_head [OF this] obtain h where "h_free (lheap st) (lhead st) = Done h"
          "book g (st\<lparr>lhead := nxt n, ltotal := ltotal st - 1, lheap := h\<rparr>) cs" by auto
        moreover have "lhead st = Some i" using hd_iff Nil by simp
        ultimately show ?thesis using Cons x g True Nil Suc.prems(1)
          by (auto simp: book_def)
      next
        case (snoc as' y)
        obtain j m where y: "y = (j, m)" by (cases y)
        have "book g st (as' @ (j, m) # (i, n) # cs)" using b snoc y by simp
        from unlink_middle [OF this] obtain h1 h2 where u: "set_nxt (lheap st) (Some j) (nxt n) = Done h1"
          "h_free h1 (Some i) = Done h2"
          "book g (st\<lparr>lheap := h2, ltotal := ltotal st - 1\<rparr>) (as' @ (j, m\<lparr>nxt := nxt n\<rparr>) # cs)" by blast
        let ?st = "st\<lparr>lout := Entry (priv n) # lout st, lheap := h2, ltotal := ltotal st - 1\<rparr>"
        let ?ys = "as' @ (j, m\<lparr>nxt := nxt n\<rparr>) # cs"
        have "Some i \<noteq> lhead st" using hd_iff snoc by simp
        then have "remove_loop (Suc k) opt P (first_cell bs) (last_cell as) f st = Done (True, ?st)"
          using Cons x g True snoc y Suc.prems(1) u by auto
        moreover have "book g ?st ?ys" using u(3) by (simp add: book_def)
        moreover have "entries ?ys = entries as @ remove_first P (entries bs)"
          using snoc y Cons x True by simp
        moreover have "f \<or> (\<exists>e \<in> set (entries bs). P e)" using Cons x True by simp
        ultimately show ?thesis by (intro exI [of _ ?st] exI [of _ ?ys]) (simp del: remove_loop.simps)
      qed
    qed
  qed
qed

text \<open>
  With any other key the loop goes on after a match. It is well defined while the matches are
  at the head; a match further on is a use after free.
\<close>

lemma remove_loop_behind:
  assumes "\<not> unique_opt opt" "book g st (as @ bs)" "as \<noteq> []" "length bs < k"
  shows "remove_loop k opt P (first_cell bs) (last_cell as) f st =
     (if \<exists>e \<in> set (entries bs). P e then Fault UseAfterFree else Done (f, st))"
  using assms
proof (induction k arbitrary: as bs)
  case 0
  then show ?case by simp
next
  case (Suc k)
  show ?case
  proof (cases bs)
    case Nil
    then show ?thesis by simp
  next
    case (Cons x cs)
    obtain i n where x: "x = (i, n)" by (cases x)
    have b: "book g st (as @ (i, n) # cs)" using Suc.prems Cons x by simp
    note g = book_cell [OF b] and nn = nxt_book [OF b] and hd_iff = book_head_iff [OF b]
    show ?thesis
    proof (cases "P (priv n)")
      case False
      have "remove_loop k opt P (first_cell cs) (last_cell (as @ [(i, n)])) f st =
        (if \<exists>e \<in> set (entries cs). P e then Fault UseAfterFree else Done (f, st))"
        using Suc.prems Cons b by (intro Suc.IH) auto
      then show ?thesis using Cons x g nn False by auto
    next
      case True
      obtain as' j m where as: "as = as' @ [(j, m)]" using Suc.prems(3) by (cases as rule: rev_cases) auto
      have "book g st (as' @ (j, m) # (i, n) # cs)" using b as by simp
      from unlink_middle [OF this] obtain h1 h2 where "set_nxt (lheap st) (Some j) (nxt n) = Done h1"
        "h_free h1 (Some i) = Done h2" "h_get h2 (Some i) = Fault UseAfterFree" by blast
      moreover have "Some i \<noteq> lhead st" using hd_iff Suc.prems(3) by simp
      ultimately show ?thesis using Cons x g True as Suc.prems(1) by auto
    qed
  qed
qed

lemma remove_loop_all:
  assumes "\<not> unique_opt opt" "book g st bs" "length bs < k"
  shows "if \<exists>e \<in> set (dropWhile P (entries bs)). P e
     then remove_loop k opt P (lhead st) None f st = Fault UseAfterFree
     else \<exists>st' ys. remove_loop k opt P (lhead st) None f st =
            Done (f \<or> (\<exists>e \<in> set (entries bs). P e), st') \<and> book g st' ys \<and>
            entries ys = dropWhile P (entries bs) \<and> linp st' = linp st \<and> lavail st' = lavail st"
  using assms
proof (induction k arbitrary: bs st f)
  case 0
  then show ?case by simp
next
  case (Suc k)
  show ?case
  proof (cases bs)
    case Nil
    then show ?thesis using Suc.prems by (auto simp: book_head)
  next
    case (Cons x cs)
    obtain i n where x: "x = (i, n)" by (cases x)
    have b: "book g st ([] @ (i, n) # cs)" using Suc.prems Cons x by simp
    note g = book_cell [OF b] and nn = nxt_book [OF b] and hp = book_head [OF Suc.prems(2)]
    show ?thesis
    proof (cases "P (priv n)")
      case False
      have "remove_loop k opt P (first_cell cs) (last_cell [(i, n)]) f st =
        (if \<exists>e \<in> set (entries cs). P e then Fault UseAfterFree else Done (f, st))"
        using Suc.prems Cons x by (intro remove_loop_behind) auto
      then show ?thesis using Cons x g nn hp False Suc.prems by (auto simp: last_cell_def)
    next
      case True
      have "book g st ((i, n) # cs)" using b by simp
      from unlink_head [OF this] obtain h where h: "h_free (lheap st) (lhead st) = Done h"
        "book g (st\<lparr>lhead := nxt n, ltotal := ltotal st - 1, lheap := h\<rparr>) cs" by auto
      let ?st = "st\<lparr>lout := Entry (priv n) # lout st, lhead := nxt n, ltotal := ltotal st - 1, lheap := h\<rparr>"
      have b2: "book g ?st cs" using h by (simp add: book_def)
      have "remove_loop (Suc k) opt P (lhead st) None f st =
        remove_loop k opt P (lhead ?st) None True ?st"
        using hp Cons x g h True Suc.prems(1) by simp
      then show ?thesis using Suc.IH [OF Suc.prems(1) b2, of True] Suc.prems Cons x True
        by (auto split: if_splits)
    qed
  qed
qed

end
