(* ===== verification/Ledger_Spec.thy ===== *)
theory Ledger_Spec
  imports Ledger_List
begin

text \<open>
  The functions of the LAB_6 ledger as its menu calls them: what \<open>find_by\<close>, \<open>display\<close> and
  the destructor do, what the input functions store, and the properties of every operation
  against the abstract list of entries.
\<close>

section \<open>find_by, display and the destructor\<close>

definition shown_matches :: "int \<Rightarrow> (bytes \<Rightarrow> bool) \<Rightarrow> bytes list \<Rightarrow> bytes list" where
  "shown_matches opt P es = (if unique_opt opt then take 1 (filter P es) else filter P es)"

lemma find_loop_spec:
  "chain (h_get (lheap st)) nxt p xs \<Longrightarrow> length xs < k \<Longrightarrow>
   find_loop k opt P p f st = Done (f \<or> (\<exists>e \<in> set (entries xs). P e),
     st\<lparr>lout := rev (map Entry (shown_matches opt P (entries xs))) @ lout st\<rparr>)"
proof (induction k arbitrary: p xs f st)
  case 0
  then show ?case by simp
next
  case (Suc k)
  show ?case
  proof (cases xs)
    case Nil
    then show ?thesis using Suc.prems by (simp add: shown_matches_def)
  next
    case (Cons x ys)
    then have "chain (h_get (lheap st)) nxt (nxt (snd x)) ys" "length ys < k"
      using Suc.prems by auto
    note IH = Suc.IH [OF this(1,2), of f]
      Suc.IH [of "st\<lparr>lout := Entry (priv (snd x)) # lout st\<rparr>", simplified, OF this(1,2), of True]
    have c: "h_get (lheap st) p = Done (snd x)" "p = Some (fst x)" using Suc.prems Cons by auto
    show ?thesis
    proof (cases "P (priv (snd x))")
      case True
      then show ?thesis using Cons c
        by (cases "unique_opt opt") (simp_all add: IH(2) shown_matches_def)
    next
      case False
      then show ?thesis using Cons c by (simp add: IH(1) shown_matches_def)
    qed
  qed
qed

lemma display_loop_spec:
  "chain (h_get (lheap st)) nxt p xs \<Longrightarrow> length xs < k \<Longrightarrow>
   display_loop k p st = Done (st\<lparr>lout := rev (map Entry (entries xs)) @ lout st\<rparr>)"
proof (induction k arbitrary: p xs st)
  case 0
  then show ?case by simp
next
  case (Suc k)
  show ?case
  proof (cases xs)
    case Nil
    then show ?thesis using Suc.prems by simp
  next
    case (Cons x ys)
    then have "chain (h_get (lheap st)) nxt (nxt (snd x)) ys" "length ys < k"
      using Suc.prems by auto
    then show ?thesis using Suc.prems Cons
        Suc.IH [of "st\<lparr>lout := Entry (priv (snd x)) # lout st\<rparr>"] by auto
  qed
qed

lemma free_all_spec:
  "chain (h_get h) nxt p xs \<Longrightarrow> length xs < k \<Longrightarrow>
   \<exists>h'. free_all k p h = Done h' \<and> live h' = live h - fst ` set xs"
proof (induction k arbitrary: p xs h)
  case 0
  then show ?case by simp
next
  case (Suc k)
  show ?case
  proof (cases xs)
    case Nil
    then show ?thesis using Suc.prems by simp
  next
    case (Cons x ys)
    then have c: "h_get h (Some (fst x)) = Done (snd x)" "p = Some (fst x)"
      "chain (h_get h) nxt (nxt (snd x)) ys" "length ys < k" using Suc.prems by auto
    have d: "fst x \<notin> fst ` set ys" using chain_distinct [OF Suc.prems(1)] Cons by simp
    obtain h1 where h1: "h_free h (Some (fst x)) = Done h1" using nh.free_done [OF c(1)] by blast
    have "chain (h_get h1) nxt (nxt (snd x)) ys"
      using nh.seg_free_other [OF c(1) h1, of ys] c(3) d by auto
    from Suc.IH [OF this c(4)] obtain h' where "free_all k (nxt (snd x)) h1 = Done h'"
      "live h' = live h1 - fst ` set ys" by blast
    then show ?thesis using c h1 live_free [OF h1] Cons by auto
  qed
qed

section \<open>What the input functions store\<close>

definition pad :: "nat \<Rightarrow> string \<Rightarrow> bytes" where
  "pad n s = s @ zeros (n - length s)"

text \<open>A line that a field holds with its newline and its NUL.\<close>

definition fits :: "nat \<Rightarrow> string \<Rightarrow> bool" where
  "fits n s \<longleftrightarrow> NL \<notin> set s \<and> NUL \<notin> set s \<and> length s + 2 \<le> n"

lemma zeros_add: "zeros (m + n) = zeros m @ zeros n"
  by (simp add: zeros_def replicate_add)

lemma zeros_Suc: "zeros (Suc n) = NUL # zeros n"
  by (simp add: zeros_def)

lemma length_pad [simp]: "length s \<le> n \<Longrightarrow> length (pad n s) = n"
  by (simp add: pad_def)

lemma process_param_str_line:
  assumes f: "fits m s" and off: "length A = off" and n: "m \<le> n"
  shows "process_param_str off n (A @ zeros m @ B) (s @ NL # r) = Done (OK, A @ pad m s @ B, r)"
proof -
  have s: "NL \<notin> set s" "NUL \<notin> set s" "length s + 2 \<le> m" using f by (auto simp: fits_def)
  obtain d where d: "m = length s + 2 + d" using s(3) le_Suc_ex by blast
  have z: "zeros m = zeros (length s) @ NUL # NUL # zeros d"
    using zeros_add [of "length s" "2 + d"] zeros_add [of 2 d] by (simp add: d zeros_Suc numeral_2_eq_2)
  have fg: "fgets n (s @ NL # r) = Some (s @ [NL], r)" using s n by (intro fgets_line) auto
  have b1: "blit off ((s @ [NL]) @ [NUL]) (A @ zeros m @ B) = Done (A @ s @ NL # NUL # zeros d @ B)"
    using off by (simp add: blit_def z)
  have c: "cstr (drop off (A @ s @ NL # NUL # zeros d @ B)) = s @ [NL]"
    using off cstr_append_NUL [of "s @ [NL]" "zeros d @ B"] s by simp
  have t: "takeWhile (\<lambda>c. c \<noteq> NL) (s @ [NL]) = s" using s(1) by (induction s) auto
  have b2: "blit (off + length s) [NUL] (A @ s @ NL # NUL # zeros d @ B)
      = Done (A @ s @ NUL # NUL # zeros d @ B)" using off by (simp add: blit_def)
  have "pad m s = s @ NUL # NUL # zeros d" by (simp add: pad_def d zeros_Suc numeral_2_eq_2)
  then show ?thesis using fg b1 b2
    by (simp add: process_param_str_def Let_def c t del: drop_append)
qed

lemma length_i32_bytes [simp]: "length (i32_bytes w) = 4"
  by (simp add: i32_bytes_def)

text \<open>The object representation of an entry whose five lines fit their fields.\<close>

definition entry_of :: "string \<Rightarrow> string \<Rightarrow> string \<Rightarrow> string \<Rightarrow> string \<Rightarrow> u32 \<Rightarrow> bytes" where
  "entry_of nm mn ln num occ age =
     pad NAMESIZ nm @ pad NAMESIZ mn @ pad NAMESIZ ln @ pad NAMESIZ num @ pad OCCUPSIZ occ @ i32_bytes age"

lemma process_entry_lines:
  assumes f: "fits NAMESIZ nm" "fits NAMESIZ mn" "fits NAMESIZ ln" "fits NAMESIZ num" "fits OCCUPSIZ occ"
    and age: "scan_num cs = ScanNum neg v r" "clear_stdin r = Done r'"
  shows "process_entry (zeros sizeof_priv)
       (nm @ NL # mn @ NL # ln @ NL # num @ NL # occ @ NL # cs)
     = Done (OK, entry_of nm mn ln num occ (scan_i32 neg v), r')"
proof -
  have len: "length nm \<le> 64" "length mn \<le> 64" "length ln \<le> 64" "length num \<le> 64" "length occ \<le> 32"
    using f by (auto simp: fits_def)
  have z: "zeros sizeof_priv = zeros 64 @ zeros 64 @ zeros 64 @ zeros 64 @ zeros 32 @ zeros 4"
    by (simp add: zeros_add [symmetric])
  note p1 = process_param_str_line [OF f(1), of "[]" 0 BUFSIZE, simplified]
  note p2 = process_param_str_line [OF f(2), of "pad 64 nm" 64 BUFSIZE, simplified]
  note p3 = process_param_str_line [OF f(3), of "pad 64 nm @ pad 64 mn" 128 BUFSIZE, simplified]
  note p4 = process_param_str_line [OF f(4), of "pad 64 nm @ pad 64 mn @ pad 64 ln" 192 BUFSIZE, simplified]
  note p5 = process_param_str_line [OF f(5), of "pad 64 nm @ pad 64 mn @ pad 64 ln @ pad 64 num" 256 BUFSIZE, simplified]
  have "blit 288 (i32_bytes w) (pad 64 nm @ pad 64 mn @ pad 64 ln @ pad 64 num @ pad 32 occ @ zeros 4)
    = Done (pad 64 nm @ pad 64 mn @ pad 64 ln @ pad 64 num @ pad 32 occ @ i32_bytes w)" for w
    using len by (simp add: blit_def)
  then show ?thesis
    using age len
    by (simp add: process_entry_def process_strs.simps z p1 p2 p3 p4 p5 process_param_int_def entry_of_def)
qed


section \<open>Properties\<close>

lemma representsI: "book 0 st xs \<Longrightarrow> entries xs = es \<Longrightarrow> represents st es"
  by (auto simp: represents_def)

lemma represents_fields [simp]:
  "represents (st\<lparr>lout := o'\<rparr>) es = represents st es"
  "represents (st\<lparr>linp := cs\<rparr>) es = represents st es"
  by (simp_all add: represents_def)

text \<open>
  C2: \<open>add\<close> on a heap ledger that represents a list of entries inserts the entry it reads
  (or is given) at the position asked for, and the pointers stay well formed; the counter
  \<open>entry_total\<close>, which decides how far the insertion loops walk, stays the length of the list.
\<close>

theorem add_refines:
  assumes "represents st es" and "lavail st \<noteq> 0"
    and "entry_read entry (linp st) = Done (OK, obj, cs)" and "named obj"
  shows "\<exists>st'. add entry pos st = Done (OK, st') \<and> represents st' (insert_spec pos obj es) \<and>
     linp st' = cs \<and> lout st' = Entry obj # lout st"
proof -
  obtain xs where xs: "book 0 st xs" "es = entries xs" using assms(1) by (auto simp: represents_def)
  from add_ok [OF xs(1) assms(2-4), of pos] xs(2) show ?thesis
    unfolding represents_def by metis
qed

text \<open>
  an \<open>add\<close> that runs out of memory, cannot read its input or gets an entry with neither name
  nor number returns \<open>ERR\<close>, frees the node it had allocated and leaves the list of entries as it was.
\<close>

theorem add_rejected_keeps:
  assumes "represents st es"
    and "lavail st = 0 \<or> (\<exists>s obj cs. entry_read entry (linp st) = Done (s, obj, cs) \<and>
              (s = ERR \<or> \<not> named obj))"
  shows "\<exists>st'. add entry pos st = Done (ERR, st') \<and> represents st' es"
  using assms add_rejected [of 0 st _ entry pos] unfolding represents_def by blast

text \<open>
  C34: \<open>remove_by\<close> the full entry or the phone number removes the first entry that matches the key
  that was read, if there is one, frees its node, and keeps the pointers and the counter right.
\<close>

theorem remove_by_unique:
  assumes "represents st es" and opt: "opt = BY_ENTRY \<or> opt = BY_NUMBER"
    and key: "key_field opt = Some (off, n)" "read_key opt off n (linp st) = Done (OK, key, cs)"
  shows "\<exists>st'. remove_by opt st = Done (OK, st') \<and>
     represents st' (remove_first (same_key off n key) es) \<and> linp st' = cs"
proof -
  obtain xs where xs: "book 0 st xs" "es = entries xs" using assms(1) by (auto simp: represents_def)
  let ?P = "same_key off n key"
  have b: "book 0 (st\<lparr>linp := cs\<rparr>) ([] @ xs)" using xs by simp
  have "length xs < Suc (length (lheap st))"
    using xs(1) chain_length by (fastforce simp: book_def)
  from remove_loop_unique [OF opt b _ this, of ?P False]
  obtain st' ys where r: "remove_loop (Suc (length (lheap st))) opt ?P (lhead st) None False (st\<lparr>linp := cs\<rparr>)
      = Done (\<exists>e \<in> set (entries xs). ?P e, st')" "book 0 st' ys"
      "entries ys = remove_first ?P (entries xs)" "linp st' = cs"
    using book_head [OF xs(1)] by (auto simp: last_cell_def)
  then have "remove_by opt st = Done (OK, if \<exists>e \<in> set (entries xs). ?P e then st'
       else st'\<lparr>lout := Msg ''error: failed to find the customer!'' # lout st'\<rparr>)"
    using key by (simp add: remove_by_def del: remove_loop.simps)
  moreover have "represents st' (remove_first ?P es)" using r(2,3) xs(2) by (intro representsI) auto
  ultimately show ?thesis using r(4) by simp
qed

text \<open>
  C35: \<open>remove_by\<close> any other field removes matching entries at the front of the list correctly, but
  a match behind an entry that stays makes it read \<open>next\<close> from the node it has just freed.
\<close>

theorem remove_by_other:
  assumes "represents st es" and opt: "key_field opt = Some (off, n)" "opt \<noteq> BY_ENTRY" "opt \<noteq> BY_NUMBER"
    and key: "read_key opt off n (linp st) = Done (OK, key, cs)"
  shows "if \<exists>e \<in> set (dropWhile (same_key off n key) es). same_key off n key e
     then remove_by opt st = Fault UseAfterFree
     else \<exists>st'. remove_by opt st = Done (OK, st') \<and>
            represents st' (dropWhile (same_key off n key) es) \<and> linp st' = cs"
proof -
  obtain xs where xs: "book 0 st xs" "es = entries xs" using assms(1) by (auto simp: represents_def)
  let ?P = "same_key off n key"
  have b: "book 0 (st\<lparr>linp := cs\<rparr>) xs" using xs by simp
  have nu: "\<not> unique_opt opt" using opt by simp
  have "length xs < Suc (length (lheap st))"
    using xs(1) chain_length by (fastforce simp: book_def)
  note r = remove_loop_all [OF nu b this, of ?P False]
  show ?thesis
  proof (cases "\<exists>e \<in> set (dropWhile ?P es). ?P e")
    case True
    with r key opt xs(2) show ?thesis by (simp add: remove_by_def del: remove_loop.simps)
  next
    case False
    then obtain st' ys where r2: "remove_loop (Suc (length (lheap st))) opt ?P (lhead st) None False (st\<lparr>linp := cs\<rparr>)
      = Done (\<exists>e \<in> set (entries xs). ?P e, st')" "book 0 st' ys"
      "entries ys = dropWhile ?P (entries xs)" "linp st' = cs"
      using r xs(2) by auto
    then have "remove_by opt st = Done (OK, if \<exists>e \<in> set (entries xs). ?P e then st'
       else st'\<lparr>lout := Msg ''error: failed to find the customer!'' # lout st'\<rparr>)"
      using key opt by (simp add: remove_by_def del: remove_loop.simps)
    moreover have "represents st' (dropWhile ?P es)" using r2(2,3) xs(2) by (intro representsI) auto
    ultimately show ?thesis using r2(4) False by simp
  qed
qed

theorem find_by_shows:
  assumes "represents st es" and key: "key_field opt = Some (off, n)"
    "read_key opt off n (linp st) = Done (OK, key, cs)"
  shows "\<exists>st'. find_by opt st = Done (OK, st') \<and> represents st' es \<and> linp st' = cs \<and>
     lout st' = (if \<exists>e \<in> set es. same_key off n key e
       then rev (map Entry (shown_matches opt (same_key off n key) es)) @ lout st
       else Msg ''error: failed to find the customer!'' # lout st)"
proof -
  obtain xs where xs: "book 0 st xs" "es = entries xs" using assms(1) by (auto simp: represents_def)
  let ?P = "same_key off n key" and ?st = "st\<lparr>linp := cs\<rparr>"
  have c: "chain (h_get (lheap ?st)) nxt (lhead st) xs" using xs by (simp add: book_def)
  have l: "length xs < Suc (length (lheap st))" using chain_length [OF c] by simp
  have none: "shown_matches opt ?P es = []" if "\<not> (\<exists>e \<in> set es. ?P e)"
    using that by (simp add: shown_matches_def)
  show ?thesis
    using assms(1) key find_loop_spec [OF c l, of opt ?P False] none xs(2)
    by (auto simp: find_by_def simp del: find_loop.simps)
qed

theorem destructor_no_leak:
  assumes "represents st es"
  shows "\<exists>st'. destructor st = Done st' \<and> live (lheap st') = {}"
proof -
  obtain xs where xs: "book 0 st xs" using assms(1) by (auto simp: represents_def)
  then have c: "chain (h_get (lheap st)) nxt (lhead st) xs" "live (lheap st) = fst ` set xs"
    by (simp_all add: book_def)
  from free_all_spec [OF c(1), of "Suc (length (lheap st))"] chain_length [OF c(1)] c(2)
  show ?thesis by (auto simp: destructor_def simp del: free_all.simps)
qed

end
