(* ===== verification/Ledger_App.thy ===== *)
theory Ledger_App
  imports Ledger_Spec
begin

text \<open>
  The rest of LAB_6: \<open>load_from\<close>, which fills the ledger from a JSON file, and the menu loop
  \<open>address_book\<close>. The JSON tokeniser jsmn is a submodule that is not part of the repository:
  \<open>jsmn_parse\<close> is a parameter of the model, from the text to the returned count and the
  tokens. The file system is a parameter too.
\<close>

section \<open>load_from\<close>

datatype jsmntype = JSMN_UNDEFINED | JSMN_OBJECT | JSMN_ARRAY | JSMN_STRING | JSMN_PRIMITIVE

record jsmntok =
  jtype :: jsmntype
  jstart :: int
  jend :: int
  jsize :: int

text \<open>The answers of \<open>stat\<close>, \<open>open\<close> and \<open>read\<close> for a file name.\<close>

record finfo =
  st_size :: int
  open_ok :: bool
  read_res :: "bytes option"

abbreviation MAX_TOKENS :: nat where "MAX_TOKENS \<equiv> 32076"

text \<open>\<open>tokens[i]\<close>: the array is zeroed before jsmn writes the first of its elements.\<close>

definition tok_at :: "jsmntok list \<Rightarrow> nat \<Rightarrow> jsmntok run" where
  "tok_at ts i =
     (if i < length ts \<and> i < MAX_TOKENS then Done (ts ! i)
      else if i < MAX_TOKENS then Done \<lparr>jtype = JSMN_UNDEFINED, jstart = 0, jend = 0, jsize = 0\<rparr>
      else Fault OutOfBounds)"

definition tok_text :: "bytes \<Rightarrow> jsmntok \<Rightarrow> bytes run" where
  "tok_text buf t =
     (if 0 \<le> jstart t \<and> jstart t \<le> jend t \<and> jend t \<le> int (length buf)
      then Done (bslice (nat (jstart t)) (nat (jend t - jstart t)) buf) else Fault OutOfBounds)"

definition store_text :: "nat \<Rightarrow> bytes \<Rightarrow> jsmntok \<Rightarrow> bytes \<Rightarrow> bytes run" where
  "store_text off buf t entry =
     (if jstart t = jend t then blit off (''nil'' @ [NUL]) entry
      else bind_run (tok_text buf t) (\<lambda>s. blit off s entry))"

text \<open>The \<open>if\<close> chain on the value of a pair; \<open>None\<close> is \<open>goto fail\<close>.\<close>

definition load_value :: "bytes \<Rightarrow> jsmntok \<Rightarrow> bytes \<Rightarrow> bytes option run" where
  "load_value buf t entry =
     (let str = (jtype t = JSMN_STRING);
          store = (\<lambda>off. bind_run (store_text off buf t entry) (\<lambda>e. Done (Some e)))
      in if entry ! off_name = NUL \<and> str then store off_name
         else if entry ! off_mname = NUL \<and> str then store off_mname
         else if entry ! off_lname = NUL \<and> str then store off_lname
         else if entry ! off_occup = NUL \<and> str then store off_occup
         else if entry ! off_number = NUL \<and> str then store off_number
         else if jtype t = JSMN_PRIMITIVE then
           if jstart t < 0 \<or> jstart t > int (length buf) then Fault OutOfBounds
           else bind_run (case scan_num (cstr (drop (nat (jstart t)) buf)) of
                            ScanEOF \<Rightarrow> Done entry
                          | ScanFail r \<Rightarrow> Done entry
                          | ScanNum neg n r \<Rightarrow> blit off_age (i32_bytes (scan_i32 neg n)) entry)
                  (\<lambda>e. if sint (bytes_i32 (bslice off_age 4 e)) < 0 then Done None else Done (Some e))
         else Done None)"

text \<open>The loop over the pairs of one object: \<open>n\<close> more pairs, next token \<open>i\<close>.\<close>

fun load_pairs :: "nat \<Rightarrow> nat \<Rightarrow> bytes \<Rightarrow> jsmntok list \<Rightarrow> bytes \<Rightarrow> (nat \<times> bytes) option run" where
  "load_pairs 0 i buf ts entry = Done (Some (i, entry))"
| "load_pairs (Suc n) i buf ts entry =
     bind_run (tok_at ts i) (\<lambda>key.
       if jtype key = JSMN_STRING \<and> jsize key \<noteq> 0 then
         bind_run (tok_at ts (i + 1)) (\<lambda>t.
           bind_run (load_value buf t entry) (\<lambda>r.
             case r of None \<Rightarrow> Done None | Some e \<Rightarrow> load_pairs n (i + 2) buf ts e))
       else Done None)"

text \<open>The loop over the array; the flag says whether it ends at \<open>ok\<close>.\<close>

fun load_array :: "nat \<Rightarrow> nat \<Rightarrow> bytes \<Rightarrow> jsmntok list \<Rightarrow> lstate \<Rightarrow> (bool \<times> lstate) run" where
  "load_array 0 i buf ts st = Done (True, st)"
| "load_array (Suc j) i buf ts st =
     bind_run (tok_at ts i) (\<lambda>t.
       if jtype t \<noteq> JSMN_OBJECT then Done (True, st)
       else bind_run (load_pairs (nat (jsize t)) (i + 1) buf ts (zeros sizeof_priv)) (\<lambda>r.
         case r of None \<Rightarrow> Done (False, st)
         | Some (i2, e) \<Rightarrow>
             bind_run (add (Some e) P_BEGIN st) (\<lambda>(s, st2).
               if s = ERR then Done (False, st2) else load_array j i2 buf ts st2)))"

text \<open>\<open>memcmp(buf + start, "Employees", end - start)\<close>; the literal is 10 bytes long.\<close>

definition is_employees :: "bytes \<Rightarrow> jsmntok \<Rightarrow> bool run" where
  "is_employees buf t =
     bind_run (tok_text buf t) (\<lambda>s.
       if length s > 10 then Fault OutOfBounds
       else Done (s = take (length s) (''Employees'' @ [NUL])))"

text \<open>
  The tokens are walked after \<open>jsmn_parse\<close> has put its count into \<open>ret\<close>, so a \<open>goto fail\<close>
  from here on returns that count.
\<close>

definition load_tokens :: "int \<Rightarrow> bytes \<Rightarrow> jsmntok list \<Rightarrow> lstate \<Rightarrow> (int \<times> lstate) run" where
  "load_tokens ret buf ts st =
     (if ret < 1 then Done (ret, st)
      else bind_run (tok_at ts 0) (\<lambda>t0.
        if jtype t0 \<noteq> JSMN_OBJECT then Done (ret, st)
        else bind_run (tok_at ts 1) (\<lambda>t1.
          bind_run (is_employees buf t1) (\<lambda>emp.
            if \<not> emp then Done (ret, st)
            else bind_run (tok_at ts 2) (\<lambda>t2.
              if jtype t2 \<noteq> JSMN_ARRAY then Done (ret, st)
              else bind_run (load_array (nat (jsize t2)) 3 buf ts st) (\<lambda>(ok, st2).
                Done (if ok then OK else ret, st2)))))))"

text \<open>
  An empty file jumps to \<open>ok\<close> while \<open>fd\<close> is still 0, and \<open>close(0)\<close> closes the standard
  input. Terminal input comes line by line, so nothing is left in the buffer of \<open>stdin\<close>.
\<close>

definition load_from ::
  "(bytes \<Rightarrow> int \<times> jsmntok list) \<Rightarrow> (string \<Rightarrow> finfo option) \<Rightarrow> string \<Rightarrow> lstate \<Rightarrow> (int \<times> lstate) run" where
  "load_from jsmn_parse fs filename st =
     (case fs filename of
        None \<Rightarrow> Done (ERR, st)
      | Some fi \<Rightarrow>
          if st_size fi \<le> 0 then
            Done (OK, st\<lparr>lout := Msg ''error: nbytes read'' # lout st, stdin_open := False, linp := []\<rparr>)
          else if lavail st = 0 then Done (ERR, st)
          else
            let st1 = st\<lparr>lavail := lavail st - 1\<rparr> in
            if \<not> open_ok fi then Done (ERR, st1)
            else case read_res fi of
                None \<Rightarrow> Done (ERR, st1)
              | Some bs \<Rightarrow>
                  if bs = [] then Done (OK, st1)
                  else bind_run (blit 0 (take (nat (st_size fi)) bs) (zeros (nat (st_size fi) + 1))) (\<lambda>buf.
                    let (ret, ts) = jsmn_parse buf in
                    if ret < 0 then Done (ret, st1) else load_tokens ret buf ts st1))"


section \<open>address_book and main\<close>

text \<open>
  \<open>DECIDE\<close> and the clearing of the rest of the line. At the end of file \<open>c\<close> is EOF, which
  is not white space, and \<open>clear_stdin_buffer\<close> does not return.
\<close>

definition decide :: "string \<Rightarrow> (int \<times> string) run" where
  "decide cs =
     (case getchar cs of
        (None, r) \<Rightarrow> bind_run (clear_stdin r) (\<lambda>r2. Done (-1 - 48, r2))
      | (Some c, r) \<Rightarrow>
          bind_run (if isspace c then Done r else clear_stdin r) (\<lambda>r2.
            Done (int (of_char c) - 48, r2)))"

definition unknown_option :: "lstate \<Rightarrow> lstate" where
  "unknown_option st = st\<lparr>lout := Msg ''error: unknown option'' # lout st\<rparr>"

text \<open>The \<open>switch\<close> on a command: does it leave the loop, the status, the state.\<close>

definition run_command ::
  "(bytes \<Rightarrow> int \<times> jsmntok list) \<Rightarrow> (string \<Rightarrow> finfo option) \<Rightarrow> int \<Rightarrow> lstate \<Rightarrow> (bool \<times> int \<times> lstate) run" where
  "run_command jp fs c st =
     (if c = 1 then
        bind_run (decide (linp st)) (\<lambda>(pos, cs).
          let st1 = st\<lparr>linp := cs\<rparr> in
          if pos \<le> 0 \<or> pos \<ge> 4 then Done (False, OK, unknown_option st1)
          else bind_run (add None pos st1) (\<lambda>(s, st2). Done (False, s, st2)))
      else if c = 2 then
        bind_run (decide (linp st)) (\<lambda>(opt, cs).
          let st1 = st\<lparr>linp := cs\<rparr> in
          if opt \<le> 0 \<or> opt \<ge> 8 then Done (False, OK, unknown_option st1)
          else bind_run (remove_by opt st1) (\<lambda>(s, st2). Done (False, s, st2)))
      else if c = 3 then
        bind_run (decide (linp st)) (\<lambda>(opt, cs).
          let st1 = st\<lparr>linp := cs\<rparr> in
          if opt \<le> 0 \<or> opt \<ge> 8 then Done (False, OK, unknown_option st1)
          else bind_run (find_by opt st1) (\<lambda>(s, st2). Done (False, s, st2)))
      else if c = 5 then
        (case fgets (NAMESIZ * 2) (linp st) of
           None \<Rightarrow> Done (False, ERR, st)
         | Some (l, cs) \<Rightarrow>
             let st1 = st\<lparr>linp := cs\<rparr> in
             if hd l = NUL \<or> isspace (hd l) then
               Done (False, OK, st1\<lparr>lout := Msg ''error: filename is empty!'' # lout st1\<rparr>)
             else bind_run (load_from jp fs (butlast (cstr l)) st1) (\<lambda>(s, st2). Done (False, s, st2)))
      else if c = 4 then bind_run (display st) (\<lambda>st1. Done (False, OK, st1))
      else if c = 6 then Done (False, OK, st\<lparr>lout := Msg ''options'' # lout st\<rparr>)
      else if c = 7 then Done (True, OK, st)
      else Done (False, OK, st))"

subsection \<open>No command puts input back\<close>

lemma linp_process_param_str:
  "process_param_str off n obj cs = Done (s, obj', cs') \<Longrightarrow> length cs' \<le> length cs"
  by (auto simp: process_param_str_def fgets_def Let_def split: option.splits if_splits
      dest!: fgets_upto_split [OF sym] fgets_upto_split)

lemma linp_process_param_int:
  "process_param_int off obj cs = Done (s, obj', cs') \<Longrightarrow> length cs' \<le> length cs"
  by (auto simp: process_param_int_def split: scan.splits
      dest!: scan_num_length clear_stdin_length)

lemma linp_process_strs:
  "process_strs offs obj cs = Done (s, obj', cs') \<Longrightarrow> length cs' \<le> length cs"
proof (induction offs obj cs rule: process_strs.induct)
  case (1 obj cs)
  then show ?case by (simp add: process_strs.simps)
next
  case (2 off offs obj cs)
  then show ?case
    by (fastforce simp: process_strs.simps split: if_splits dest: linp_process_param_str)
qed

lemma linp_process_entry:
  "process_entry obj cs = Done (s, obj', cs') \<Longrightarrow> length cs' \<le> length cs"
  by (fastforce simp: process_entry_def split: if_splits
      dest: linp_process_strs linp_process_param_int)

lemma linp_entry_read: "entry_read entry cs = Done (s, obj, cs') \<Longrightarrow> length cs' \<le> length cs"
  by (auto simp: entry_read_def split: option.splits dest: linp_process_entry)

lemma linp_read_key: "read_key opt off n cs = Done (s, obj, cs') \<Longrightarrow> length cs' \<le> length cs"
  by (auto simp: read_key_def split: if_splits
      dest: linp_process_entry linp_process_param_int linp_process_param_str)

lemma linp_add: "add entry pos st = Done (s, st') \<Longrightarrow> length (linp st') \<le> length (linp st)"
  by (auto simp: add_def add_fail_def Let_def split: if_splits prod.splits dest!: linp_entry_read)

lemma linp_remove_loop: "remove_loop k opt P cur prev f st = Done (f', st') \<Longrightarrow> linp st' = linp st"
proof (induction k opt P cur prev f st rule: remove_loop.induct)
  case (2 k opt P cur prev found st)
  then show ?case
    by (fastforce simp: Let_def split: if_splits)
qed simp


lemma linp_find_loop: "find_loop k opt P cur f st = Done (f', st') \<Longrightarrow> linp st' = linp st"
proof (induction k opt P cur f st rule: find_loop.induct)
  case (2 k opt P cur found st)
  then show ?case
    by (fastforce simp: Let_def split: if_splits)
qed simp

lemma linp_display_loop: "display_loop k cur st = Done st' \<Longrightarrow> linp st' = linp st"
proof (induction k cur st rule: display_loop.induct)
  case (2 k cur st)
  then show ?case by (fastforce split: if_splits)
qed simp

lemma linp_remove_by: "remove_by opt st = Done (s, st') \<Longrightarrow> length (linp st') \<le> length (linp st)"
  by (fastforce simp: remove_by_def Let_def simp del: remove_loop.simps
      split: option.splits if_splits dest: linp_remove_loop linp_read_key)

lemma linp_find_by: "find_by opt st = Done (s, st') \<Longrightarrow> length (linp st') \<le> length (linp st)"
  by (fastforce simp: find_by_def Let_def simp del: find_loop.simps
      split: option.splits if_splits dest: linp_find_loop linp_read_key)

lemma linp_load_array:
  "load_array j i buf ts st = Done (ok, st') \<Longrightarrow> length (linp st') \<le> length (linp st)"
proof (induction j i buf ts st rule: load_array.induct)
  case (2 j i buf ts st)
  then show ?case
    by (fastforce split: if_splits option.splits dest: linp_add)
qed simp

lemma linp_load_from:
  "load_from jp fs fname st = Done (s, st') \<Longrightarrow> length (linp st') \<le> length (linp st)"
  by (auto simp: load_from_def load_tokens_def Let_def simp del: load_array.simps
      split: option.splits if_splits prod.splits dest!: linp_load_array)

lemma linp_decide: "decide cs = Done (c, cs') \<Longrightarrow> length cs' \<le> length cs"
  by (cases cs) (auto simp: decide_def split: if_splits dest!: clear_stdin_length)

lemma linp_fgets: "fgets n cs = Some (l, r) \<Longrightarrow> length r \<le> length cs"
  by (auto simp: fgets_def split: if_splits dest!: fgets_upto_split)

lemma linp_run_command:
  assumes "run_command jp fs c st = Done (ex, s, st')"
  shows "length (linp st') \<le> length (linp st)"
proof -
  have ro: "length (linp st2) \<le> length (linp st)"
    if "decide (linp st) = Done (p, cs)" "length (linp st2) \<le> length cs" for p cs st2
    using linp_decide [OF that(1)] that(2) by simp
  show ?thesis
    using assms
    by (auto simp: run_command_def unknown_option_def display_def Let_def
        simp del: display_loop.simps split: if_splits option.splits
        dest!: linp_add linp_remove_by linp_find_by linp_load_from linp_fgets linp_display_loop
        intro: ro dest: linp_decide)
qed

subsection \<open>The loop\<close>

text \<open>
  \<open>while ((c = getchar()) != EOF)\<close>: each round takes at least the command byte, so the loop
  ends when its parts do. A status other than \<open>OK\<close> leaves it.
\<close>

function menu ::
  "(bytes \<Rightarrow> int \<times> jsmntok list) \<Rightarrow> (string \<Rightarrow> finfo option) \<Rightarrow> lstate \<Rightarrow> (int \<times> lstate) run" where
  "menu jp fs st =
     (case linp st of
        [] \<Rightarrow> Done (OK, st)
      | c # cs \<Rightarrow>
          bind_run (if isspace c then Done cs else clear_stdin cs) (\<lambda>cs1.
            bind_run (run_command jp fs (int (of_char c) - 48) (st\<lparr>linp := cs1\<rparr>))
              (\<lambda>(ex, s, st1). if ex \<or> s \<noteq> OK then Done (s, st1) else menu jp fs st1)))"
  by pat_completeness auto

termination
proof (relation "measure (\<lambda>(jp, fs, st). length (linp st))", simp, goal_cases)
  case (1 jp fs st c cs cs1 x ex y s st1)
  have "length cs1 \<le> length cs"
    using 1 by (auto split: if_splits dest: clear_stdin_length)
  moreover have "length (linp st1) \<le> length cs1"
    using linp_run_command [of jp fs _ "st\<lparr>linp := cs1\<rparr>" ex s st1] 1 by simp
  ultimately show ?case using 1 by simp
qed

declare menu.simps [simp del]

abbreviation EXIT_SUCCESS :: int where "EXIT_SUCCESS \<equiv> 0"
abbreviation EXIT_FAILURE :: int where "EXIT_FAILURE \<equiv> 1"

definition address_book ::
  "(bytes \<Rightarrow> int \<times> jsmntok list) \<Rightarrow> (string \<Rightarrow> finfo option) \<Rightarrow> int \<Rightarrow> ptr \<Rightarrow> nat \<Rightarrow> string
     \<Rightarrow> (int \<times> lstate option) run" where
  "address_book jp fs garbage ghead avail inp =
     (case constructor garbage ghead avail inp of
        None \<Rightarrow> Done (EXIT_FAILURE, None)
      | Some st \<Rightarrow>
          bind_run (menu jp fs (init_obj st)) (\<lambda>(s, st1).
            bind_run (destructor st1) (\<lambda>st2. Done (s, Some st2))))"

text \<open>\<open>main\<close>: the exit status of the program.\<close>

definition ledger_main ::
  "(bytes \<Rightarrow> int \<times> jsmntok list) \<Rightarrow> (string \<Rightarrow> finfo option) \<Rightarrow> int \<Rightarrow> ptr \<Rightarrow> nat \<Rightarrow> string
     \<Rightarrow> int run" where
  "ledger_main jp fs garbage ghead avail inp =
     bind_run (address_book jp fs garbage ghead avail inp) (\<lambda>(s, st).
       Done (if s = -1 then EXIT_FAILURE else EXIT_SUCCESS))"

end
