(* ===== verification/Ledger_Safety.thy ===== *)
theory Ledger_Safety
  imports Ledger_App
begin

text \<open>
  The LAB_6 program as a whole: every command keeps the heap a well-formed ledger, whatever the
  input and whatever value the counter \<open>entry_total\<close>, which the constructor does not set, had at
  the start. The only undefined behaviours a run can meet are accesses outside an object, the use
  of a freed node in \<open>remove_by\<close> and, when that value is above 1, a walk over the end of the list.
\<close>

section \<open>Outcomes of the commands\<close>

text \<open>
  A tame outcome is a normal return with a property, a loop at the end of the input, one of the
  two faults, or the null pointer, when the counter started at a \<open>g\<close> above 1.
\<close>

fun tame :: "int \<Rightarrow> ('a \<Rightarrow> bool) \<Rightarrow> 'a run \<Rightarrow> bool" where
  "tame g Q (Done x) = Q x"
| "tame g Q Diverge = True"
| "tame g Q (Fault f) = (f = OutOfBounds \<or> f = UseAfterFree \<or> f = NullDeref \<and> 1 < g)"

lemma tame_bind: "tame g R m \<Longrightarrow> (\<And>x. R x \<Longrightarrow> m = Done x \<Longrightarrow> tame g Q (k x)) \<Longrightarrow> tame g Q (bind_run m k)"
  by (cases m) auto

lemma tame_mono: "tame g R m \<Longrightarrow> (\<And>x. R x \<Longrightarrow> Q x) \<Longrightarrow> tame g Q m"
  by (cases m) auto

lemma tame_blit [simp, intro]: "tame g (\<lambda>_. True) (blit off bs b)"
  by (simp add: blit_def)

lemma tame_clear_stdin [simp, intro]: "tame g (\<lambda>_. True) (clear_stdin cs)"
  by (induction cs) auto

abbreviation status_ok :: "int \<times> 'a \<Rightarrow> bool" where
  "status_ok r \<equiv> fst r = OK \<or> fst r = ERR"

lemma tame_process_param_str: "tame g status_ok (process_param_str off n obj cs)"
  unfolding process_param_str_def
  by (auto split: option.splits simp: Let_def intro!: tame_bind [OF tame_blit])

lemma tame_process_param_int: "tame g status_ok (process_param_int off obj cs)"
  unfolding process_param_int_def
  by (auto split: scan.splits intro!: tame_bind [OF tame_blit] tame_bind [OF tame_clear_stdin])

lemma tame_process_strs: "tame g status_ok (process_strs offs obj cs)"
proof (induction offs obj cs rule: process_strs.induct)
  case (1 obj cs)
  then show ?case by (simp add: process_strs.simps)
next
  case (2 off offs obj cs)
  show ?case
    unfolding process_strs.simps
  proof (rule tame_bind [OF tame_process_param_str])
    fix x assume "process_param_str off BUFSIZE obj cs = Done x" 
    then show "tame g status_ok (case x of (st, obj1, cs1) \<Rightarrow>
        if st = ERR then Done (ERR, obj1, cs1) else process_strs offs obj1 cs1)"
      using 2 by (cases x) auto
  qed
qed

lemma tame_process_entry: "tame g status_ok (process_entry obj cs)"
  unfolding process_entry_def
  by (auto intro!: tame_bind [OF tame_process_strs] tame_process_param_int)

lemma tame_entry_read: "tame g status_ok (entry_read entry cs)"
  unfolding entry_read_def
  by (auto split: option.splits intro!: tame_bind [OF tame_blit] tame_process_entry)

lemma tame_read_key: "tame g status_ok (read_key opt off n cs)"
  by (simp add: read_key_def tame_process_entry tame_process_param_int tame_process_param_str)

text \<open>
  The heap is a ledger whose counter started at \<open>g\<close>; the nodes and the calls of \<open>calloc\<close> that can
  still succeed are at most \<open>m\<close>.
\<close>

definition ring :: "int \<Rightarrow> nat \<Rightarrow> lstate \<Rightarrow> bool" where
  "ring g m st \<longleftrightarrow> (\<exists>xs. book g st xs \<and> length xs + lavail st \<le> m)"

lemma ring_fields [simp]:
  "ring g m (st\<lparr>lout := o'\<rparr>) = ring g m st" "ring g m (st\<lparr>linp := cs\<rparr>) = ring g m st"
  "ring g m (st\<lparr>stdin_open := b\<rparr>) = ring g m st"
  by (simp_all add: ring_def)

lemma ring_avail [simp]: "ring g m st \<Longrightarrow> ring g m (st\<lparr>lavail := lavail st - k\<rparr>)"
  by (fastforce simp: ring_def)

lemma tame_add:
  assumes "ring g m st"
  shows "tame g (\<lambda>r. status_ok r \<and> ring g m (snd r)) (add entry pos st)"
proof -
  obtain xs where b: "book g st xs" "length xs + lavail st \<le> m" using assms by (auto simp: ring_def)
  show ?thesis
  proof (cases "entry_read entry (linp st)")
    case (Done r)
    obtain s obj cs where r: "r = (s, obj, cs)" by (cases r)
    have s: "s = OK \<or> s = ERR" using tame_entry_read [of g entry "linp st"] Done r by simp
    show ?thesis
    proof (cases "lavail st = 0 \<or> s = ERR \<or> \<not> named obj")
      case True
      then obtain st' where "add entry pos st = Done (ERR, st')" "book g st' xs" "lavail st' \<le> lavail st"
        using add_rejected [OF b(1), of entry pos] Done r by blast
      then show ?thesis using b(2) by (fastforce simp: ring_def)
    next
      case False
      then have f: "lavail st \<noteq> 0" "entry_read entry (linp st) = Done (OK, obj, cs)" "named obj"
        using Done r s by auto
      from add_any [OF b(1) f, of pos] show ?thesis
      proof (elim disjE exE conjE)
        fix st' ys
        assume a: "add entry pos st = Done (OK, st')" "book g st' ys" "length ys = Suc (length xs)"
          "lavail st' = lavail st - 1"
        then have "length ys + lavail st' \<le> m" using b(2) f(1) by simp
        then show ?thesis using a(1,2) by (auto simp: ring_def)
      qed simp
    qed
  next
    case Diverge
    then show ?thesis
      by (cases "lavail st = 0") (auto simp: add_def add_fail_def h_free_def assms split: prod.splits)
  next
    case (Fault f)
    moreover have "tame g status_ok (Fault f :: (int \<times> bytes \<times> string) run)"
      using tame_entry_read [of g entry "linp st"] Fault by simp
    ultimately show ?thesis
      by (cases "lavail st = 0") (auto simp: add_def add_fail_def h_free_def assms split: prod.splits)
  qed
qed

lemma length_remove_first: "length (remove_first P es) \<le> length es"
  by (induction es) auto

lemma tame_remove_loop:
  assumes b: "book g st xs" "length xs + lavail st \<le> m" and k: "length xs < k"
  shows "tame g (\<lambda>r. ring g m (snd r)) (remove_loop k opt P (lhead st) None False st)"
proof (cases "unique_opt opt")
  case True
  have b0: "book g st ([] @ xs)" using b(1) by simp
  obtain st' ys where r: "remove_loop k opt P (lhead st) None False st = Done (\<exists>e \<in> set (entries xs). P e, st')"
    "book g st' ys" "entries ys = remove_first P (entries xs)" "lavail st' = lavail st"
    using remove_loop_unique [OF True b0 _ k, of P False] book_head [OF b(1)] by (auto simp: last_cell_def)
  then have "length ys \<le> length xs" using length_remove_first [of P "entries xs"] by (metis length_entries)
  then show ?thesis using r b(2) by (auto simp: ring_def simp del: remove_loop.simps intro!: exI [of _ ys])
next
  case False
  show ?thesis
  proof (cases "\<exists>e \<in> set (dropWhile P (entries xs)). P e")
    case True
    then show ?thesis using remove_loop_all [OF False b(1) k, of P False] by (simp del: remove_loop.simps)
  next
    case none: False
    then obtain st' ys where r: "remove_loop k opt P (lhead st) None False st = Done (\<exists>e \<in> set (entries xs). P e, st')"
      "book g st' ys" "entries ys = dropWhile P (entries xs)" "lavail st' = lavail st"
      using remove_loop_all [OF False b(1) k, of P False] by (auto simp del: remove_loop.simps)
    then have "length ys \<le> length xs" using length_dropWhile_le [of P "entries xs"] by (metis length_entries)
    then show ?thesis using r b(2) by (auto simp: ring_def simp del: remove_loop.simps intro!: exI [of _ ys])
  qed
qed

lemma book_cells: "book g st xs \<Longrightarrow> length xs < Suc (length (lheap st))"
  using chain_length by (fastforce simp: book_def)

lemma tame_remove_by:
  assumes "ring g m st"
  shows "tame g (\<lambda>r. status_ok r \<and> ring g m (snd r)) (remove_by opt st)"
proof -
  obtain xs where b: "book g st xs" "length xs + lavail st \<le> m" using assms by (auto simp: ring_def)
  have rl: "tame g (\<lambda>r. ring g m (snd r))
      (remove_loop (Suc (length (lheap st))) opt P (lhead st) None False (st\<lparr>linp := cs\<rparr>))" for P cs
    using tame_remove_loop [of g "st\<lparr>linp := cs\<rparr>" xs m _ opt P] b book_cells [OF b(1)]
    by (simp del: remove_loop.simps)
  show ?thesis
    unfolding remove_by_def
    by (auto simp: Let_def assms simp del: remove_loop.simps split: option.splits
        intro!: tame_bind [OF tame_read_key] tame_bind [OF rl])
qed

lemma find_loop_tame:
  assumes b: "book g st xs"
  shows "find_loop (Suc (length (lheap st))) opt P (lhead st) f (st\<lparr>linp := cs\<rparr>)
     = Done (f \<or> (\<exists>e \<in> set (entries xs). P e),
        st\<lparr>linp := cs, lout := rev (map Entry (shown_matches opt P (entries xs))) @ lout st\<rparr>)"
  using find_loop_spec [of "st\<lparr>linp := cs\<rparr>" "lhead st" xs] b book_cells [OF b]
  by (simp add: book_def del: find_loop.simps)

lemma tame_find_by:
  assumes "ring g m st"
  shows "tame g (\<lambda>r. status_ok r \<and> ring g m (snd r)) (find_by opt st)"
proof -
  obtain xs where b: "book g st xs" "length xs + lavail st \<le> m" using assms by (auto simp: ring_def)
  show ?thesis
    unfolding find_by_def
    by (auto simp: Let_def assms find_loop_tame [OF b(1)] simp del: find_loop.simps split: option.splits
        intro!: tame_bind [OF tame_read_key])
qed

lemma display_wf:
  assumes "ring g m st"
  shows "tame g (ring g m) (display st)"
proof -
  obtain xs where b: "book g st xs" "length xs + lavail st \<le> m" using assms by (auto simp: ring_def)
  then show ?thesis
    using display_loop_spec [of st "lhead st" xs] book_cells [OF b(1)] assms b
    by (simp add: display_def book_def del: display_loop.simps)
qed

lemma tame_tok_at [intro]: "tame g (\<lambda>_. True) (tok_at ts i)"
  by (simp add: tok_at_def)

lemma tame_tok_text [intro]: "tame g (\<lambda>_. True) (tok_text buf t)"
  by (simp add: tok_text_def)

lemma tame_store_text [intro]: "tame g (\<lambda>_. True) (store_text off buf t e)"
  by (auto simp: store_text_def intro!: tame_bind [OF tame_tok_text])

lemma tame_load_value [intro]: "tame g (\<lambda>_. True) (load_value buf t e)"
  by (auto simp: load_value_def Let_def
      intro!: tame_bind [OF tame_store_text] tame_bind [of g "\<lambda>_. True"] split: scan.splits)

lemma tame_load_pairs: "tame g (\<lambda>_. True) (load_pairs n i buf ts e)"
proof (induction n i buf ts e rule: load_pairs.induct)
  case (2 n i buf ts entry)
  then show ?case
    by (auto intro!: tame_bind [OF tame_tok_at] tame_bind [OF tame_load_value] split: option.splits)
qed simp

lemma tame_load_array: "ring g m st \<Longrightarrow> tame g (\<lambda>r. ring g m (snd r)) (load_array j i buf ts st)"
proof (induction j i buf ts st rule: load_array.induct)
  case (2 j i buf ts st)
  then show ?case
    by (auto intro!: tame_bind [OF tame_tok_at] tame_bind [OF tame_load_pairs] tame_bind [OF tame_add [where m = m]]
        split: option.splits)
qed simp

lemma tame_is_employees: "tame g (\<lambda>_. True) (is_employees buf t)"
  by (auto simp: is_employees_def intro!: tame_bind [OF tame_tok_text])

lemma tame_load_tokens: "ring g m st \<Longrightarrow> tame g (\<lambda>r. ring g m (snd r)) (load_tokens ret buf ts st)"
  by (auto simp: load_tokens_def simp del: load_array.simps
      intro!: tame_bind [OF tame_tok_at] tame_bind [OF tame_is_employees] tame_bind [OF tame_load_array [where m = m]])

lemma tame_load_from: "ring g m st \<Longrightarrow> tame g (\<lambda>r. ring g m (snd r)) (load_from jp fs fname st)"
  by (auto simp: load_from_def Let_def simp del: load_array.simps
      intro!: tame_bind [OF tame_blit] tame_load_tokens split: option.splits prod.splits)

lemma tame_decide: "tame g (\<lambda>_. True) (decide cs)"
  by (cases cs) (auto simp: decide_def intro!: tame_bind [OF tame_clear_stdin])

lemma tame_run_command:
  assumes "ring g m st"
  shows "tame g (\<lambda>(ex, s, st'). ring g m st') (run_command jp fs c st)"
  unfolding run_command_def unknown_option_def
  by (auto simp: Let_def assms
      intro!: tame_bind [OF tame_decide] tame_bind [OF tame_add [where m = m]] tame_bind [OF tame_remove_by [where m = m]]
        tame_bind [OF tame_find_by [where m = m]] tame_bind [OF tame_load_from [where m = m]] tame_bind [OF display_wf [where m = m]]
      split: option.splits)

lemma tame_menu: "ring g m st \<Longrightarrow> tame g (\<lambda>(s, st'). ring g m st') (menu jp fs st)"
proof (induction jp fs st rule: menu.induct)
  case (1 jp fs st)
  show ?case
  proof (cases "linp st")
    case Nil
    then show ?thesis using "1.prems" by (simp add: menu.simps [of jp fs st])
  next
    case (Cons c cs)
    show ?thesis
      unfolding menu.simps [of jp fs st] Cons list.case
    proof (rule tame_bind [of g "\<lambda>_. True"], simp add: tame_clear_stdin, rule tame_bind [OF tame_run_command [where m = m]], goal_cases)
      case (1 cs1)
      then show ?case using "local.1.prems" by simp
    next
      case (2 cs1 x)
      then show ?case using "local.1.IH" [OF Cons _ _ refl] by (cases x) auto
    qed
  qed
qed

end
