(* ===== verification/Ledger_Program.thy ===== *)
theory Ledger_Program
  imports Ledger_Safety
begin

text \<open>
  Properties of the whole LAB_6 program: its safety, the search by number on the entries that
  were typed in, and four places where the program does not do what it means to.
\<close>

section \<open>Safety\<close>




section \<open>Searching by number\<close>

definition number_of :: "bytes \<Rightarrow> string" where
  "number_of e = cstr (bslice off_number NAMESIZ e)"

text \<open>The entries that lines typed by the user give.\<close>

definition typed :: "bytes \<Rightarrow> bool" where
  "typed e \<longleftrightarrow> (\<exists>nm mn ln num occ age. e = entry_of nm mn ln num occ age \<and>
     fits NAMESIZ nm \<and> fits NAMESIZ mn \<and> fits NAMESIZ ln \<and> fits NAMESIZ num \<and> fits OCCUPSIZ occ)"

lemma fits_length: "fits n s \<Longrightarrow> length s \<le> n"
  by (simp add: fits_def)

lemma cstr_pad:
  assumes "fits n s"
  shows "cstr (pad n s) = s"
proof -
  have "n - length s = Suc (n - Suc (length s))" using assms unfolding fits_def by linarith
  then have "pad n s = s @ NUL # zeros (n - Suc (length s))" by (simp add: pad_def zeros_Suc)
  then show ?thesis using cstr_append_NUL assms by (simp add: fits_def)
qed

lemma pad_inj: "fits n s \<Longrightarrow> fits n s' \<Longrightarrow> pad n s = pad n s' \<longleftrightarrow> s = s'"
  by (metis cstr_pad)

lemma number_entry_of:
  assumes "fits NAMESIZ nm" "fits NAMESIZ mn" "fits NAMESIZ ln" "fits NAMESIZ num"
  shows "bslice off_number NAMESIZ (entry_of nm mn ln num occ age) = pad NAMESIZ num"
  using assms [THEN fits_length] by (simp add: bslice_def entry_of_def)

lemma same_number:
  assumes "typed e" and "fits NAMESIZ num"
  shows "same_key off_number NAMESIZ (zeros off_number @ pad NAMESIZ num @ zeros 36) e
    \<longleftrightarrow> number_of e = num"
proof -
  have k: "bslice off_number NAMESIZ (zeros off_number @ pad NAMESIZ num @ zeros 36) = pad NAMESIZ num"
    using fits_length [OF assms(2)] by (simp add: bslice_def)
  obtain n' where n': "fits NAMESIZ n'" "bslice off_number NAMESIZ e = pad NAMESIZ n'"
    using assms(1) number_entry_of by (auto simp: typed_def)
  show ?thesis
    using pad_inj [OF assms(2) n'(1)] cstr_pad [OF n'(1)] by (auto simp: same_key_def number_of_def k n'(2))
qed

lemma find_filter: "filter P xs = [] \<Longrightarrow> List.find P xs = None"
  "filter P xs = x # ys \<Longrightarrow> List.find P xs = Some x"
  by (induction xs) (auto split: if_splits)

text \<open>
  on a ledger of typed entries, the search by phone number shows the first entry whose
  number is the line that is typed, and nothing else; or it says that there is none. The
  comparison of the whole 64-byte fields is the comparison of the strings.
\<close>

theorem find_by_number_shows_first:
  assumes "represents st es" and "\<forall>e \<in> set es. typed e"
    and "linp st = num @ NL # rest" and "fits NAMESIZ num"
  shows "\<exists>st'. find_by BY_NUMBER st = Done (OK, st') \<and> represents st' es \<and> linp st' = rest \<and>
     lout st' = (case List.find (\<lambda>e. number_of e = num) es of
       None \<Rightarrow> Msg ''error: failed to find the customer!'' | Some e \<Rightarrow> Entry e) # lout st"
proof -
  let ?k = "zeros off_number @ pad NAMESIZ num @ zeros 36"
  let ?P = "same_key off_number NAMESIZ ?k"
  have z: "zeros sizeof_priv = zeros off_number @ zeros NAMESIZ @ zeros 36"
    by (simp add: zeros_add [symmetric])
  have rk: "read_key BY_NUMBER off_number NAMESIZ (linp st) = Done (OK, ?k, rest)"
    using process_param_str_line [OF assms(4), of "zeros off_number" off_number NAMESIZ "zeros 36" rest]
    by (simp add: read_key_def z assms(3))
  have kf: "key_field BY_NUMBER = Some (off_number, NAMESIZ)" by (simp add: key_field_def)
  have fil: "filter ?P es = filter (\<lambda>e. number_of e = num) es"
    using assms(2) same_number [OF _ assms(4)] by (intro filter_cong) auto
  obtain xs where b: "book 0 st xs" and es: "es = entries xs" using assms(1) by (auto simp: represents_def)
  have ex: "(\<exists>e \<in> set es. ?P e) \<longleftrightarrow> filter ?P es \<noteq> []"
    by (simp add: filter_empty_conv)
  have fb: "find_by BY_NUMBER st = bind_run (find_loop (Suc (length (lheap st))) BY_NUMBER ?P (lhead st) False
      (st\<lparr>linp := rest\<rparr>)) (\<lambda>(found, st2). Done (OK, if found then st2
         else st2\<lparr>lout := Msg ''error: failed to find the customer!'' # lout st2\<rparr>))"
    unfolding find_by_def kf option.case prod.case rk bind_run.simps Let_def by simp
  note fl = find_loop_tame [OF b, of BY_NUMBER ?P False rest, folded es]
  show ?thesis
  proof (cases "filter ?P es")
    case Nil
    then show ?thesis
      using ex assms(1) fil find_filter(1) [of "\<lambda>e. number_of e = num" es]
      by (simp add: fb fl shown_matches_def del: find_loop.simps)
  next
    case (Cons e ys)
    then show ?thesis
      using ex assms(1) fil find_filter(2) [of "\<lambda>e. number_of e = num" es e ys]
      by (simp add: fb fl shown_matches_def del: find_loop.simps)
  qed
qed

text \<open>A concrete book of two typed customers.\<close>

definition ann :: bytes where "ann = entry_of ''Ann'' [] [] ''17'' [] 30"
definition bob :: bytes where "bob = entry_of ''Bob'' [] [] ''25'' [] 41"

definition two_book :: "string \<Rightarrow> lstate" where
  "two_book cs = \<lparr>lheap = [Some \<lparr>priv = bob, nxt = None\<rparr>, Some \<lparr>priv = ann, nxt = Some 0\<rparr>],
     lhead = Some 1, ltotal = 2, linp = cs, lout = [], lavail = 5, stdin_open = True\<rparr>"

lemma two_book_fields [simp]: "linp (two_book cs) = cs" "lout (two_book cs) = []"
  by (simp_all add: two_book_def)

lemma fits_short: "fits 64 ''Ann''" "fits 64 ''Bob''" "fits 64 ''17''" "fits 64 ''25''" "fits 64 []" "fits 32 []"
  by (simp_all add: fits_def)

lemma length_entry_of:
  "fits NAMESIZ nm \<Longrightarrow> fits NAMESIZ mn \<Longrightarrow> fits NAMESIZ ln \<Longrightarrow> fits NAMESIZ num \<Longrightarrow> fits OCCUPSIZ occ \<Longrightarrow>
   length (entry_of nm mn ln num occ age) = sizeof_priv"
  by (simp add: entry_of_def fits_length)

lemma two_book_represents: "represents (two_book cs) [ann, bob]"
proof -
  have l: "length ann = sizeof_priv" "length bob = sizeof_priv"
    by (simp_all add: ann_def bob_def length_entry_of fits_short)
  have "book 0 (two_book cs) [(1, \<lparr>priv = ann, nxt = Some 0\<rparr>), (0, \<lparr>priv = bob, nxt = None\<rparr>)]"
    using l by (auto simp: book_def two_book_def live_def h_get.simps less_Suc_eq numeral_2_eq_2)
  then show ?thesis by (auto intro: representsI)
qed

lemma typed_two: "typed ann" "typed bob"
  unfolding typed_def ann_def bob_def using fits_short by blast+

theorem find_by_number_witness:
  "\<exists>st'. find_by BY_NUMBER (two_book (''25'' @ NL # ''7'')) = Done (OK, st') \<and> lout st' = [Entry bob]"
proof -
  have n: "number_of ann = ''17''" "number_of bob = ''25''"
    by (simp_all add: number_of_def ann_def bob_def number_entry_of fits_short cstr_pad)
  show ?thesis
    using find_by_number_shows_first [OF two_book_represents, of "''25'' @ NL # ''7''" "''25''" "''7''"]
      typed_two fits_short
    by (auto simp: n)
qed

section \<open>Where the program does not do what it means to\<close>

lemma menu_fault:
  assumes "linp st = c # NL # rest" and "\<not> isspace c" and "run_command jp fs (int (of_char c) - 48) (st\<lparr>linp := rest\<rparr>) = Fault f"
  shows "menu jp fs st = Fault f"
  using assms by (subst menu.simps) simp

text \<open>
  \<open>init_obj\<close> does not set \<open>entry_total\<close>. When the memory that \<open>malloc\<close> returns holds a
  value above 2 there, inserting the first customer "in the middle" walks a list that is still
  empty and dereferences the null pointer.
\<close>

theorem uninitialised_total_null_deref:
  assumes "garbage > 2" and "avail > 1"
    and "entry_read None inp = Done (OK, obj, cs)" and "named obj"
  shows "address_book jp fs garbage ghead avail (''1'' @ [NL] @ ''2'' @ [NL] @ inp) = Fault NullDeref"
proof -
  have "nat (garbage div 2) > 0" using assms(1) by linarith
  then obtain k where k: "nat (garbage div 2) = Suc k" using gr0_implies_Suc by blast
  define st where "st = \<lparr>lheap = [], lhead = None, ltotal = garbage, linp = ''1'' @ [NL] @ ''2'' @ [NL] @ inp,
    lout = [], lavail = avail - 1, stdin_open = True\<rparr>"
  have link: "link_node P_MIDDLE garbage h None p = Fault NullDeref" for h p
    using assms(1) k by (simp add: link_node_def h_get.simps)
  have add: "add None P_MIDDLE (st\<lparr>linp := inp\<rparr>) = Fault NullDeref"
    using assms link by (simp add: add_def st_def h_alloc_def h_put_def h_get.simps)
  have dec: "decide (''2'' @ [NL] @ inp) = Done (P_MIDDLE, inp)"
    by (simp add: decide_def isspace_def)
  have "run_command jp fs 1 (st\<lparr>linp := ''2'' @ [NL] @ inp\<rparr>) = Fault NullDeref"
    using add dec by (simp add: run_command_def)
  then have "menu jp fs st = Fault NullDeref"
    by (intro menu_fault [of st "CHR ''1''" "''2'' @ [NL] @ inp"]) (simp_all add: st_def isspace_def)
  then show ?thesis
    using assms(2) by (simp add: address_book_def constructor_def init_obj_def st_def)
qed

definition typed_ann :: string where
  "typed_ann = ''Ann'' @ NL # [] @ NL # [] @ NL # ''17'' @ NL # [] @ NL # ''30'' @ [NL]"

lemma entry_read_ann: "entry_read None typed_ann = Done (OK, ann, [])"
proof -
  have s: "scan_num (''30'' @ [NL]) = ScanNum False 30 [NL]"
    by (simp add: scan_num_def isspace_def isdigit_def dec_val_def digit_val_def Let_def)
  have a: "scan_i32 False 30 = 30" by (simp add: scan_i32_def strtol64_def)
  show ?thesis
    using process_entry_lines [OF fits_short(1) fits_short(5) fits_short(5) fits_short(3) fits_short(6) s, of "[]"]
    by (simp add: entry_read_def typed_ann_def ann_def a)
qed

lemma named_ann: "named ann"
  by (simp add: named_def ann_def entry_of_def pad_def)

theorem uninitialised_total_witness:
  "address_book (\<lambda>b. (0, [])) (\<lambda>f. None) 7 None 2 (''1'' @ [NL] @ ''2'' @ [NL] @ typed_ann) = Fault NullDeref"
  by (rule uninitialised_total_null_deref [OF _ _ entry_read_ann named_ann]) simp_all

subsection \<open>Loading a file\<close>

definition file_line :: "string \<Rightarrow> bool" where
  "file_line f \<longleftrightarrow> f \<noteq> [] \<and> \<not> isspace (f ! 0) \<and> NL \<notin> set f \<and> NUL \<notin> set f \<and> length f < 2 * NAMESIZ - 1"

lemma run_load:
  assumes "file_line f" and "load_from jp fs f (st\<lparr>linp := rest\<rparr>) = Done (s, st')"
  shows "run_command jp fs 5 (st\<lparr>linp := f @ NL # rest\<rparr>) = Done (False, s, st')"
proof -
  have f: "f \<noteq> []" "\<not> isspace (f ! 0)" "NL \<notin> set f" "NUL \<notin> set f" "length f + 1 < NAMESIZ * 2"
    using assms(1) by (auto simp: file_line_def)
  then have "f ! 0 \<noteq> NUL" using nth_mem [of 0 f] by (metis length_greater_0_conv)
  moreover have "cstr (f @ [NL]) = f @ [NL]"
    using f(4) by (induction f) (auto simp: cstr_def)
  ultimately show ?thesis
    using f assms(2) fgets_line [OF f(3,5), of rest]
    by (simp add: run_command_def hd_conv_nth hd_append)
qed

lemma menu_command:
  assumes "linp st = c # NL # rest" and "\<not> isspace c"
    and "run_command jp fs (int (of_char c) - 48) (st\<lparr>linp := rest\<rparr>) = Done (False, s, st')"
  shows "menu jp fs st = (if s \<noteq> OK then Done (s, st') else menu jp fs st')"
  using assms by (subst menu.simps) simp

text \<open>
  loading an empty file closes the standard input (\<open>fd\<close> is still 0 at the label \<open>ok\<close>), so
  the commands typed after it are never read and the program ends.
\<close>

theorem load_empty_file_closes_stdin:
  assumes "file_line f" and "fs f = Some fi" and "st_size fi = 0"
  shows "menu jp fs (st\<lparr>linp := ''5'' @ [NL] @ f @ NL # rest\<rparr>) =
     Done (OK, st\<lparr>lout := Msg ''error: nbytes read'' # lout st, stdin_open := False, linp := []\<rparr>)"
proof -
  let ?st = "st\<lparr>lout := Msg ''error: nbytes read'' # lout st, stdin_open := False, linp := []\<rparr>"
  have "load_from jp fs f (st\<lparr>linp := rest\<rparr>) = Done (OK, ?st)"
    using assms(2,3) by (simp add: load_from_def)
  from menu_command [of "st\<lparr>linp := ''5'' @ [NL] @ f @ NL # rest\<rparr>" "CHR ''5''" "f @ NL # rest" jp fs OK ?st]
    run_load [OF assms(1) this]
  have "menu jp fs (st\<lparr>linp := ''5'' @ [NL] @ f @ NL # rest\<rparr>) = menu jp fs ?st"
    by (simp add: isspace_def)
  then show ?thesis by (simp add: menu.simps [of jp fs ?st])
qed

theorem load_empty_file_witness:
  "menu (\<lambda>b. (0, [])) (\<lambda>f. Some \<lparr>st_size = 0, open_ok = True, read_res = Some []\<rparr>)
     (two_book [] \<lparr>linp := ''5'' @ [NL] @ ''f'' @ NL # ''4''\<rparr>) =
   Done (OK, two_book [] \<lparr>lout := [Msg ''error: nbytes read''], stdin_open := False, linp := []\<rparr>)"
  using load_empty_file_closes_stdin [where st = "two_book []" and jp = "\<lambda>b. (0, [])" and rest = "''4''"
      and f = "''f''" and fs = "\<lambda>f. Some \<lparr>st_size = 0, open_ok = True, read_res = Some []\<rparr>"]
  by (simp add: file_line_def isspace_def)

text \<open>
  a failure of \<open>load_from\<close> after the tokeniser has succeeded returns its token count, a
  positive number, so the program stops with an error but its exit status is success.
\<close>

theorem load_failure_exits_success:
  assumes "file_line f" and "avail > 1"
    and "fs f = Some \<lparr>st_size = int (length body), open_ok = True, read_res = Some body\<rparr>" and "body \<noteq> []"
    and "jp (body @ [NUL]) = (ret, t # ts)" and "ret \<ge> 1" and "jtype t \<noteq> JSMN_OBJECT"
  shows "(\<exists>st. address_book jp fs garbage ghead avail (''5'' @ [NL] @ f @ NL # rest) = Done (ret, Some st)) \<and>
     ledger_main jp fs garbage ghead avail (''5'' @ [NL] @ f @ NL # rest) = Done EXIT_SUCCESS"
proof -
  define st where "st = \<lparr>lheap = [], lhead = None, ltotal = garbage, linp = ''5'' @ [NL] @ f @ NL # rest,
    lout = [], lavail = avail - 1, stdin_open = True\<rparr>"
  have bl: "blit 0 body (zeros (Suc (length body))) = Done (body @ [NUL])"
    by (simp add: blit_def zeros_def drop_replicate del: replicate_Suc) simp
  have "load_from jp fs f (st\<lparr>linp := rest\<rparr>) = Done (ret, st\<lparr>linp := rest, lavail := avail - 2\<rparr>)"
    using assms by (simp add: load_from_def load_tokens_def tok_at_def st_def bl del: blit_ok)
  from menu_command [of st "CHR ''5''" "f @ NL # rest" jp fs ret] run_load [OF assms(1) this]
  have m: "menu jp fs st = Done (ret, st\<lparr>linp := rest, lavail := avail - 2\<rparr>)"
    using assms(6) by (simp add: isspace_def st_def)
  have "address_book jp fs garbage ghead avail (''5'' @ [NL] @ f @ NL # rest)
      = Done (ret, Some (st\<lparr>linp := rest, lavail := avail - 2\<rparr>))"
    using assms(2) m by (simp add: address_book_def constructor_def init_obj_def st_def destructor_def)
  then show ?thesis using assms(6) by (simp add: ledger_main_def)
qed

theorem load_failure_witness:
  "(\<exists>st. address_book (\<lambda>b. (1, [\<lparr>jtype = JSMN_PRIMITIVE, jstart = 0, jend = 1, jsize = 0\<rparr>]))
       (\<lambda>f. Some \<lparr>st_size = int (length ''7''), open_ok = True, read_res = Some ''7''\<rparr>) 0 None 2
       (''5'' @ [NL] @ ''f'' @ NL # []) = Done (1, Some st)) \<and>
   ledger_main (\<lambda>b. (1, [\<lparr>jtype = JSMN_PRIMITIVE, jstart = 0, jend = 1, jsize = 0\<rparr>]))
       (\<lambda>f. Some \<lparr>st_size = int (length ''7''), open_ok = True, read_res = Some ''7''\<rparr>) 0 None 2
       (''5'' @ [NL] @ ''f'' @ NL # []) = Done EXIT_SUCCESS"
  by (rule load_failure_exits_success [where t = "\<lparr>jtype = JSMN_PRIMITIVE, jstart = 0, jend = 1, jsize = 0\<rparr>"
        and body = "''7''" and ts = "[]"]) (simp_all add: file_line_def isspace_def)

section \<open>Witnesses of the operations\<close>

theorem add_refines_witness:
  "\<exists>st'. add None P_END (two_book typed_ann) = Done (OK, st') \<and> represents st' [ann, bob, ann] \<and>
     linp st' = [] \<and> lout st' = [Entry ann]"
  using add_refines [OF two_book_represents, of typed_ann None ann "[]" P_END] entry_read_ann named_ann
  by (simp add: two_book_def insert_spec_def)

theorem add_rejected_witness:
  "\<exists>st'. add None P_END (two_book []) = Done (ERR, st') \<and> represents st' [ann, bob]"
proof -
  have "entry_read None [] = Done (ERR, zeros sizeof_priv, [])"
    by (simp add: entry_read_def process_entry_def process_strs.simps process_param_str_def fgets_def)
  then show ?thesis
    using add_rejected_keeps [OF two_book_represents, of "[]" None P_END] by simp
qed

lemma read_bob_number:
  "read_key BY_NUMBER off_number NAMESIZ (''25'' @ [NL]) =
     Done (OK, zeros off_number @ pad NAMESIZ ''25'' @ zeros 36, [])"
  using process_param_str_line [OF fits_short(4), of "zeros off_number" off_number NAMESIZ "zeros 36" "[]"]
  by (simp add: read_key_def zeros_add [symmetric])

lemma read_bob_name:
  "read_key BY_NAME off_name NAMESIZ (''Bob'' @ [NL]) =
     Done (OK, pad NAMESIZ ''Bob'' @ zeros 228, [])"
  using process_param_str_line [OF fits_short(2), of "[]" off_name NAMESIZ "zeros 228" "[]"]
  by (simp add: read_key_def zeros_add [symmetric])

lemma bob_number: "same_key off_number NAMESIZ (zeros off_number @ pad NAMESIZ ''25'' @ zeros 36) ann = False"
  "same_key off_number NAMESIZ (zeros off_number @ pad NAMESIZ ''25'' @ zeros 36) bob = True"
  using same_number [OF typed_two(1) fits_short(4)] same_number [OF typed_two(2) fits_short(4)]
  by (simp_all add: number_of_def ann_def bob_def number_entry_of fits_short cstr_pad)

theorem remove_by_unique_witness:
  "\<exists>st'. remove_by BY_NUMBER (two_book (''25'' @ [NL])) = Done (OK, st') \<and> represents st' [ann] \<and>
     linp st' = []"
  using remove_by_unique [OF two_book_represents, of BY_NUMBER off_number NAMESIZ "''25'' @ [NL]"]
    read_bob_number bob_number
  by (auto simp: key_field_def)

lemma bob_name: "same_key off_name NAMESIZ (pad NAMESIZ ''Bob'' @ zeros 228) ann = False"
  "same_key off_name NAMESIZ (pad NAMESIZ ''Bob'' @ zeros 228) bob = True"
  using pad_inj [of NAMESIZ "''Bob''" "''Ann''"] fits_short
  by (simp_all add: same_key_def bslice_def ann_def bob_def entry_of_def fits_length)

theorem remove_by_other_witness:
  "remove_by BY_NAME (two_book (''Bob'' @ [NL])) = Fault UseAfterFree"
  using remove_by_other [OF two_book_represents, of BY_NAME off_name NAMESIZ "''Bob'' @ [NL]"]
    read_bob_name bob_name
  by (simp add: key_field_def)

end
