(* ===== verification/Matrix.thy ===== *)
theory Matrix
  imports Lab_Prelude
begin

text \<open>
  LAB_2: the matrix exercises. A matrix is the flat memory of \<open>unsigned int arr[100][100]\<close>,
  which every function takes as a pointer to its first element. The guards of the \<open>main\<close>
  functions keep both dimensions between 2 and 99, so additions and products stay far below
  \<open>2 ^ 32\<close>; subtractions of \<open>unsigned int\<close> that may go below zero are written with
  \<open>usub\<close>, which wraps.
\<close>

section \<open>Shared functions\<close>

abbreviation ROWMAX :: nat where "ROWMAX \<equiv> 100"
abbreviation COLMAX :: nat where "COLMAX \<equiv> 100"

definition usub :: "nat \<Rightarrow> nat \<Rightarrow> nat" where
  "usub a b = (if b \<le> a then a - b else 2 ^ 32 + a - b)"

lemma usub_le [simp]: "b \<le> a \<Longrightarrow> usub a b = a - b"
  by (simp add: usub_def)

definition arr_zero :: "nat list" where
  "arr_zero = replicate (ROWMAX * COLMAX) 0"

definition arr_put :: "nat list \<Rightarrow> nat \<Rightarrow> nat \<Rightarrow> nat list run" where
  "arr_put m i v = (if i < length m then Done (m[i := v]) else Fault OutOfBounds)"

definition arr_get :: "nat list \<Rightarrow> nat \<Rightarrow> nat run" where
  "arr_get m i = (if i < length m then Done (m ! i) else Fault OutOfBounds)"

lemma arr_put_ok [simp]: "i < length m \<Longrightarrow> arr_put m i v = Done (m[i := v])"
  by (simp add: arr_put_def)

lemma arr_get_ok [simp]: "i < length m \<Longrightarrow> arr_get m i = Done (m ! i)"
  by (simp add: arr_get_def)

text \<open>What is printed: numbers followed by a blank, and line ends.\<close>

datatype outitem = Num nat | Newline

text \<open>\<open>%32u\<close> reads at most 32 bytes after the white space.\<close>

definition scan_u32_w :: "nat \<Rightarrow> string \<Rightarrow> (u32 \<times> string) option" where
  "scan_u32_w w cs =
     (let item = dropWhile isspace cs in
      case scan_num (take w item) of
        ScanNum neg n r \<Rightarrow> Some (scan_u32 neg n, r @ drop w item)
      | _ \<Rightarrow> None)"

text \<open>
  \<open>scanf("%32u %32u", &rows, &cols)\<close> and the tests that follow: a result other than 2 and
  dimensions out of range end at \<open>fail\<close>.
\<close>

definition read_dims :: "string \<Rightarrow> (nat \<times> nat) option" where
  "read_dims cs =
     (case scan_u32_w 32 cs of
        None \<Rightarrow> None
      | Some (rows, r) \<Rightarrow>
          (case scan_u32_w 32 r of
             None \<Rightarrow> None
           | Some (cols, r2) \<Rightarrow>
               if (unat cols \<ge> COLMAX \<or> unat rows \<ge> ROWMAX) \<or> (unat cols \<le> 1 \<or> unat rows \<le> 1)
               then None else Some (unat rows, unat cols)))"

lemma read_dims_range:
  "read_dims cs = Some (rows, cols) \<Longrightarrow> 2 \<le> rows \<and> rows < ROWMAX \<and> 2 \<le> cols \<and> cols < COLMAX"
  by (auto simp: read_dims_def split: option.splits prod.splits if_splits)

section \<open>display_matrix.c\<close>

fun fill_from :: "nat \<Rightarrow> nat \<Rightarrow> nat \<Rightarrow> nat list \<Rightarrow> nat list run" where
  "fill_from 0 i counter m = Done m"
| "fill_from (Suc n) i counter m =
     bind_run (arr_put m i (counter + 1)) (\<lambda>m1. fill_from n (i + 1) (counter + 1) m1)"

definition fill_matrix :: "nat \<Rightarrow> nat list \<Rightarrow> nat list run" where
  "fill_matrix elements_total m = fill_from elements_total 0 0 m"

fun display_from :: "nat \<Rightarrow> nat \<Rightarrow> nat \<Rightarrow> nat list \<Rightarrow> outitem list run" where
  "display_from 0 i rows m = Done []"
| "display_from (Suc n) i rows m =
     bind_run (arr_get m i) (\<lambda>v.
       bind_run (display_from n (i + 1) rows m) (\<lambda>out.
         Done (Num v # (if (i + 1) mod rows = 0 then [Newline] else []) @ out)))"

definition display_matrix :: "nat \<Rightarrow> nat \<Rightarrow> nat list \<Rightarrow> outitem list run" where
  "display_matrix elements_total rows m = display_from elements_total 0 rows m"

text \<open>The exit status and what is displayed.\<close>

definition display_main :: "string \<Rightarrow> (int \<times> outitem list) run" where
  "display_main inp =
     (case read_dims inp of
        None \<Rightarrow> Done (1, [])
      | Some (rows, cols) \<Rightarrow>
          bind_run (fill_matrix (rows * cols) arr_zero) (\<lambda>m.
            bind_run (display_matrix (rows * cols) rows m) (\<lambda>out. Done (0, out))))"

lemma fill_from_spec:
  "i + n \<le> length m \<Longrightarrow>
   fill_from n i c m = Done (take i m @ map Suc [c..<c + n] @ drop (i + n) m)"
proof (induction n arbitrary: i c m)
  case 0
  then show ?case by simp
next
  case (Suc n)
  have "fill_from (Suc n) i c m = fill_from n (i + 1) (c + 1) (m[i := c + 1])"
    using Suc.prems by simp
  also have "\<dots> = Done (take (i + 1) (m[i := c + 1]) @ map Suc [c + 1..<c + 1 + n] @ drop (i + 1 + n) (m[i := c + 1]))"
    using Suc.prems by (intro Suc.IH) simp
  also have "take (i + 1) (m[i := c + 1]) = take i m @ [c + 1]"
    using Suc.prems by (simp add: take_Suc_conv_app_nth)
  finally show ?case using Suc.prems by (simp add: upt_conv_Cons)
qed

lemma fill_matrix_spec:
  "n \<le> length m \<Longrightarrow> fill_matrix n m = Done (map Suc [0..<n] @ drop n m)"
  by (simp add: fill_matrix_def fill_from_spec)

text \<open>One line of the output for every \<open>rows\<close> elements.\<close>

lemma display_from_spec:
  "i + n \<le> length m \<Longrightarrow>
   display_from n i rows m =
     Done (concat (map (\<lambda>k. Num (m ! k) # (if (k + 1) mod rows = 0 then [Newline] else [])) [i..<i + n]))"
proof (induction n arbitrary: i)
  case (Suc n)
  have "[i..<i + Suc n] = i # [i + 1..<i + 1 + n]" by (simp add: upt_conv_Cons)
  then show ?case using Suc.IH [of "i + 1"] Suc.prems by simp
qed simp

lemma chunk_line:
  assumes "0 < d"
  shows "concat (map (\<lambda>k. Num (g k) # (if (k + 1) mod d = 0 then [Newline] else [])) [c * d..<c * d + d]) =
     map (\<lambda>k. Num (g k)) [c * d..<c * d + d] @ [Newline]"
proof -
  obtain e where e: "d = Suc e" using assms gr0_implies_Suc by blast
  have u: "[c * d..<c * d + d] = [c * d..<c * d + e] @ [c * d + e]" by (simp add: e)
  have nz: "(k + 1) mod d \<noteq> 0" if k: "k \<in> set [c * d..<c * d + e]" for k
  proof -
    have "(k + 1) mod d = (k + 1 - c * d) mod d"
      using k mod_mult_self1 [of "k + 1 - c * d" c d] by (simp add: mult.commute)
    moreover have "0 < k + 1 - c * d" "k + 1 - c * d < d" using k e by (simp_all only: set_upt) auto
    ultimately show ?thesis using mod_less [of "k + 1 - c * d" d] by linarith
  qed
  have "c * d + e + 1 = (c + 1) * d" by (simp add: e)
  then have "(c * d + e + 1) mod d = 0" by (metis mod_mult_self2_is_0)
  moreover have "concat (map (\<lambda>k. Num (g k) # (if (k + 1) mod d = 0 then [Newline] else [])) [c * d..<c * d + e]) =
     map (\<lambda>k. Num (g k)) [c * d..<c * d + e]"
    using nz by (subst map_cong [OF refl, of _ _ "\<lambda>k. [Num (g k)]"]) (auto simp: concat_map_singleton)
  ultimately show ?thesis by (simp add: u)
qed

lemma chunk_lines:
  assumes "0 < d"
  shows "concat (map (\<lambda>k. Num (g k) # (if (k + 1) mod d = 0 then [Newline] else [])) [0..<c * d]) =
     concat (map (\<lambda>l. map (\<lambda>k. Num (g k)) [l * d..<l * d + d] @ [Newline]) [0..<c])"
proof (induction c)
  case 0
  then show ?case by simp
next
  case (Suc c)
  have "[0..<Suc c * d] = [0..<c * d] @ [c * d..<c * d + d]"
    using upt_add_eq_append [of 0 "c * d" d] by (simp add: add.commute)
  then show ?case using Suc chunk_line [OF assms, of g c] by simp
qed

lemma display_matrix_lines:
  assumes "0 < d" and "c * d \<le> length m"
  shows "display_matrix (c * d) d m =
     Done (concat (map (\<lambda>l. map (\<lambda>k. Num (m ! k)) [l * d..<l * d + d] @ [Newline]) [0..<c]))"
  using assms chunk_lines [of d "\<lambda>k. m ! k" c] by (simp add: display_matrix_def display_from_spec)

lemma dims_fit:
  assumes "read_dims inp = Some (rows, cols)"
  shows "cols * rows \<le> length arr_zero" "0 < rows" "2 \<le> cols * rows"
proof -
  have r: "2 \<le> rows" "rows < 100" "2 \<le> cols" "cols < 100" using read_dims_range [OF assms] by auto
  then show "cols * rows \<le> length arr_zero" using mult_le_mono [of cols 100 rows 100] by (simp add: arr_zero_def)
  show "0 < rows" using r by simp
  show "2 \<le> cols * rows" using mult_le_mono [of 2 cols 1 rows] r by simp
qed

text \<open>
  \<open>display_matrix.c\<close> prints the numbers from 1 in order, a new line after every \<open>rows\<close> of
  them, so the number of lines is the number of columns that was asked for.
\<close>

theorem display_main_lines:
  assumes "read_dims inp = Some (rows, cols)"
  shows "display_main inp =
     Done (0, concat (map (\<lambda>l. map (\<lambda>k. Num (k + 1)) [l * rows..<l * rows + rows] @ [Newline]) [0..<cols]))"
proof -
  note b = dims_fit [OF assms]
  let ?m = "map Suc [0..<cols * rows] @ drop (cols * rows) arr_zero"
  have f: "fill_matrix (cols * rows) arr_zero = Done ?m"
    using b by (intro fill_matrix_spec)
  have v: "?m ! k = k + 1" if "l < cols" "k < l * rows + rows" for l k
  proof -
    have "l * rows + rows \<le> cols * rows"
      using that(1) mult_le_mono1 [of "l + 1" cols rows] by simp
    then show ?thesis using that(2) by (simp add: nth_append)
  qed
  have e: "concat (map (\<lambda>l. map (\<lambda>k. Num (?m ! k)) [l * rows..<l * rows + rows] @ [Newline]) [0..<cols]) =
     concat (map (\<lambda>l. map (\<lambda>k. Num (k + 1)) [l * rows..<l * rows + rows] @ [Newline]) [0..<cols])"
    using v by (intro arg_cong [where f = concat] map_cong) auto
  have "display_matrix (cols * rows) rows ?m =
      Done (concat (map (\<lambda>l. map (\<lambda>k. Num (?m ! k)) [l * rows..<l * rows + rows] @ [Newline]) [0..<cols]))"
    using b by (intro display_matrix_lines) simp_all
  then show ?thesis
    using f by (simp add: display_main_def assms mult.commute [of rows] e del: map_append)
qed

theorem display_main_witness:
  "display_main ''2 3'' = Done (0, [Num 1, Num 2, Newline, Num 3, Num 4, Newline, Num 5, Num 6, Newline])"
proof -
  have "read_dims ''2 3'' = Some (2, 3)"
    by (simp add: read_dims_def scan_u32_w_def scan_num_def isspace_def isdigit_def dec_val_def
        digit_val_def scan_u32_small Let_def)
  from display_main_lines [OF this] show ?thesis by (simp add: upt_rec)
qed

section \<open>reverse_matrix.c\<close>

definition swap_cells :: "nat \<Rightarrow> nat \<Rightarrow> nat list \<Rightarrow> nat list run" where
  "swap_cells a b m =
     bind_run (arr_get m a) (\<lambda>temp.
       bind_run (arr_get m b) (\<lambda>v.
         bind_run (arr_put m a v) (\<lambda>m1. arr_put m1 b temp)))"

function reverse_cells :: "nat \<Rightarrow> nat \<Rightarrow> nat list \<Rightarrow> nat list run" where
  "reverse_cells elements_total counter m =
     bind_run (if counter < usub (elements_total div 2) 1
               then reverse_cells elements_total (counter + 1) m else Done m)
       (\<lambda>m1. swap_cells counter (elements_total - counter - 1) m1)"
  by pat_completeness auto

termination by (relation "measure (\<lambda>(t, c, m). usub (t div 2) 1 - c)") auto

declare reverse_cells.simps [simp del]

definition reverse_main :: "string \<Rightarrow> (int \<times> outitem list) run" where
  "reverse_main inp =
     (case read_dims inp of
        None \<Rightarrow> Done (1, [])
      | Some (rows, columns) \<Rightarrow>
          bind_run (fill_matrix (rows * columns) arr_zero) (\<lambda>m.
            bind_run (reverse_cells (rows * columns) 0 m) (\<lambda>m1.
              bind_run (display_matrix (rows * columns) rows m1) (\<lambda>out. Done (0, out)))))"

lemma swap_cells_ok:
  "a < length m \<Longrightarrow> b < length m \<Longrightarrow> swap_cells a b m = Done (m[a := m ! b, b := m ! a])"
  by (simp add: swap_cells_def)

text \<open>The calls from \<open>counter\<close> on exchange every pair of cells that far or farther from the ends.\<close>

lemma reverse_cells_spec:
  assumes "2 \<le> n" "n \<le> length m" "c < n div 2"
  shows "\<exists>m'. reverse_cells n c m = Done m' \<and> length m' = length m \<and>
     (\<forall>k < length m. m' ! k = (if c \<le> k \<and> k < n - c \<and> \<not> (n div 2 \<le> k \<and> k < n - n div 2)
                              then m ! (n - 1 - k) else m ! k))"
  using assms
proof (induction n c m rule: reverse_cells.induct)
  case (1 n c m)
  have us: "usub (n div 2) 1 = n div 2 - 1" using "1.prems" by (simp add: Suc_leI)
  obtain m1 where m1: "(if c < usub (n div 2) 1 then reverse_cells n (c + 1) m else Done m) = Done m1"
    "length m1 = length m"
    "\<forall>k < length m. m1 ! k = (if c + 1 \<le> k \<and> k < n - (c + 1) \<and> \<not> (n div 2 \<le> k \<and> k < n - n div 2)
                              then m ! (n - 1 - k) else m ! k)"
  proof (cases "c < usub (n div 2) 1")
    case True
    have "c + 1 < n div 2" using True us by linarith
    from "1.IH" [OF True "1.prems"(1,2) this] True that show ?thesis by auto
  next
    case False
    then have "n div 2 = c + 1" using us "1.prems" by linarith
    then show ?thesis using False by (intro that [of m]) auto
  qed
  have b: "c < length m1" "n - c - 1 < length m1" "c < n - c - 1" using "1.prems" m1(2) by linarith+
  have "reverse_cells n c m = Done (m1[c := m1 ! (n - c - 1), n - c - 1 := m1 ! c])"
    using m1(1) swap_cells_ok [OF b(1,2)] by (simp add: reverse_cells.simps [of n c m])
  moreover have "m1 ! c = m ! c" "m1 ! (n - c - 1) = m ! (n - 1 - c)"
    using m1(2,3) b by auto
  moreover have "m1[c := m ! (n - 1 - c), n - c - 1 := m ! c] ! k =
      (if c \<le> k \<and> k < n - c \<and> \<not> (n div 2 \<le> k \<and> k < n - n div 2) then m ! (n - 1 - k) else m ! k)"
    if k: "k < length m" for k
  proof -
    consider "k = c" | "k = n - c - 1" | "k \<noteq> c" "k \<noteq> n - c - 1" by blast
    then show ?thesis
    proof cases
      case 1
      then show ?thesis using b "1.prems" m1(2) by auto
    next
      case 2
      have "\<not> (n div 2 \<le> k \<and> k < n - n div 2)" "c \<le> k" "k < n - c" "n - 1 - k = c"
        using 2 "1.prems" by linarith+
      then show ?thesis using 2 b m1(2) by simp
    next
      case 3
      have "c + 1 \<le> k \<and> k < n - (c + 1) \<and> \<not> (n div 2 \<le> k \<and> k < n - n div 2) \<longleftrightarrow>
          c \<le> k \<and> k < n - c \<and> \<not> (n div 2 \<le> k \<and> k < n - n div 2)" using 3 by auto
      with m1(3) k have "m1 ! k = (if c \<le> k \<and> k < n - c \<and> \<not> (n div 2 \<le> k \<and> k < n - n div 2)
          then m ! (n - 1 - k) else m ! k)" by presburger
      then show ?thesis using 3 by simp
    qed
  qed
  ultimately show ?case using m1(2) by auto
qed

lemma reverse_cells_rev:
  assumes "2 \<le> n" "n \<le> length m"
  shows "reverse_cells n 0 m = Done (rev (take n m) @ drop n m)"
proof -
  obtain m' where m': "reverse_cells n 0 m = Done m'" "length m' = length m"
     "\<forall>k < length m. m' ! k = (if 0 \<le> k \<and> k < n - 0 \<and> \<not> (n div 2 \<le> k \<and> k < n - n div 2)
                              then m ! (n - 1 - k) else m ! k)"
    using reverse_cells_spec [of n m 0] assms by auto
  have "m' = rev (take n m) @ drop n m"
  proof (rule nth_equalityI)
    fix k assume "k < length m'"
    then have k: "k < length m" using m'(2) by simp
    show "m' ! k = (rev (take n m) @ drop n m) ! k"
    proof (cases "n div 2 \<le> k \<and> k < n - n div 2")
      case True
      then have "n - 1 - k = k" "k < n" by linarith+
      then show ?thesis using m'(3) k assms True by (auto simp: nth_append rev_nth)
    next
      case False
      then show ?thesis using m'(3) k assms by (auto simp: nth_append rev_nth)
    qed
  qed (use m' assms in simp)
  then show ?thesis using m' by simp
qed

text \<open>
  \<open>reverse_matrix.c\<close> displays the numbers from the last one down to 1: the recursion swaps
  every pair once, also when the number of elements is odd.
\<close>

theorem reverse_main_reverses:
  assumes "read_dims inp = Some (rows, cols)"
  shows "reverse_main inp =
     Done (0, concat (map (\<lambda>l. map (\<lambda>k. Num (rows * cols - k)) [l * rows..<l * rows + rows] @ [Newline]) [0..<cols]))"
proof -
  note b = dims_fit [OF assms]
  let ?n = "cols * rows"
  let ?m = "map Suc [0..<?n] @ drop ?n arr_zero"
  let ?r = "rev (map Suc [0..<?n]) @ drop ?n arr_zero"
  have f: "fill_matrix ?n arr_zero = Done ?m"
    using b by (intro fill_matrix_spec)
  have r: "reverse_cells ?n 0 ?m = Done ?r"
    using reverse_cells_rev [of ?n ?m] b by simp
  have v: "?r ! k = rows * cols - k" if "l < cols" "k < l * rows + rows" for l k
  proof -
    have "l * rows + rows \<le> cols * rows"
      using that(1) mult_le_mono1 [of "l + 1" cols rows] by simp
    then have "k < ?n" using that(2) by simp
    then show ?thesis by (simp add: nth_append rev_nth mult.commute Suc_diff_Suc)
  qed
  have e: "concat (map (\<lambda>l. map (\<lambda>k. Num (?r ! k)) [l * rows..<l * rows + rows] @ [Newline]) [0..<cols]) =
     concat (map (\<lambda>l. map (\<lambda>k. Num (rows * cols - k)) [l * rows..<l * rows + rows] @ [Newline]) [0..<cols])"
    using v by (intro arg_cong [where f = concat] map_cong) auto
  have "display_matrix ?n rows ?r =
      Done (concat (map (\<lambda>l. map (\<lambda>k. Num (?r ! k)) [l * rows..<l * rows + rows] @ [Newline]) [0..<cols]))"
    using b by (intro display_matrix_lines) simp_all
  then show ?thesis
    using f r by (simp add: reverse_main_def assms mult.commute [of rows] e del: map_append)
qed

theorem reverse_main_witness:
  "reverse_main ''3 3'' = Done (0, [Num 9, Num 8, Num 7, Newline, Num 6, Num 5, Num 4, Newline,
     Num 3, Num 2, Num 1, Newline])"
proof -
  have "read_dims ''3 3'' = Some (3, 3)"
    by (simp add: read_dims_def scan_u32_w_def scan_num_def isspace_def isdigit_def dec_val_def
        digit_val_def scan_u32_small Let_def)
  from reverse_main_reverses [OF this] show ?thesis by (simp add: upt_rec)
qed

section \<open>upper_triangle.c\<close>

text \<open>
  The inner loop on a row that starts at \<open>base\<close>; it returns the final \<open>j\<close>, by which the
  pointer \<open>mtrx\<close> is moved.
\<close>

function tri_row :: "nat \<Rightarrow> nat \<Rightarrow> nat \<Rightarrow> nat \<Rightarrow> nat list \<Rightarrow> (nat \<times> nat list) run" where
  "tri_row j rows lim base m =
     (if j < rows then
        if j = usub rows lim then Done (rows, m)
        else bind_run (arr_put m (base + j) 1) (\<lambda>m1. tri_row (j + 1) rows lim base m1)
      else Done (j, m))"
  by pat_completeness auto

termination by (relation "measure (\<lambda>(j, rows, lim, base, m). rows - j)") auto

declare tri_row.simps [simp del]

fun tri_loop :: "nat \<Rightarrow> nat \<Rightarrow> nat \<Rightarrow> nat \<Rightarrow> nat list \<Rightarrow> nat list run" where
  "tri_loop 0 lim base rows m = Done m"
| "tri_loop (Suc n) lim base rows m =
     bind_run (tri_row 0 rows lim base m) (\<lambda>(j, m1).
       if lim + 1 = rows then Done m1 else tri_loop n (lim + 1) (base + j) rows m1)"

definition fill_triangle :: "nat \<Rightarrow> nat \<Rightarrow> nat list \<Rightarrow> nat list run" where
  "fill_triangle rows columns m = tri_loop columns 0 0 rows m"

definition triangle_main :: "string \<Rightarrow> (int \<times> outitem list) run" where
  "triangle_main inp =
     (case read_dims inp of
        None \<Rightarrow> Done (1, [])
      | Some (rows, columns) \<Rightarrow>
          bind_run (fill_triangle rows columns arr_zero) (\<lambda>m.
            bind_run (display_matrix (rows * columns) rows m) (\<lambda>out. Done (0, out))))"

lemma tri_row_spec:
  assumes "lim < rows" "j \<le> rows - lim" "base + rows \<le> length m"
  shows "\<exists>m'. tri_row j rows lim base m = Done (rows, m') \<and> length m' = length m \<and>
     (\<forall>p < length m. m' ! p = (if base + j \<le> p \<and> p < base + (rows - lim) then 1 else m ! p))"
  using assms
proof (induction j rows lim base m rule: tri_row.induct)
  case (1 j rows lim base m)
  have us: "usub rows lim = rows - lim" using "1.prems" by simp
  show ?case
  proof (cases "j = rows - lim")
    case True
    then have "tri_row j rows lim base m = Done (rows, m)"
      using "1.prems" us by (subst tri_row.simps) auto
    then show ?thesis using True by auto
  next
    case False
    then have j: "j < rows" "j \<noteq> usub rows lim" "j + 1 \<le> rows - lim" using "1.prems" us by linarith+
    have len: "length (m[base + j := 1]) = length m" "base + j < length m" using "1.prems" j by simp_all
    from "1.IH" [OF j(1,2) arr_put_ok [OF len(2)] "1.prems"(1) j(3)] "1.prems"(3) len
    obtain m' where m': "tri_row (j + 1) rows lim base (m[base + j := 1]) = Done (rows, m')" "length m' = length m"
      "\<forall>p < length m. m' ! p = (if base + (j + 1) \<le> p \<and> p < base + (rows - lim) then 1 else m[base + j := 1] ! p)"
      by auto
    have "m' ! p = (if base + j \<le> p \<and> p < base + (rows - lim) then 1 else m ! p)" if "p < length m" for p
      using m'(3) that j(3) len(2) by (cases "p = base + j") auto
    then show ?thesis using m'(1,2) j len by (auto simp: tri_row.simps [of j rows lim base m])
  qed
qed

definition in_triangle :: "nat \<Rightarrow> nat \<Rightarrow> nat \<Rightarrow> nat \<Rightarrow> bool" where
  "in_triangle rows a b p \<longleftrightarrow> (\<exists>k \<in> {a..<b}. k < rows \<and> k * rows \<le> p \<and> p < k * rows + (rows - k))"

lemma in_triangle_step:
  "a < rows \<Longrightarrow> in_triangle rows a (a + Suc n) p \<longleftrightarrow>
     (a * rows \<le> p \<and> p < a * rows + (rows - a)) \<or> in_triangle rows (a + 1) (a + 1 + n) p"
proof -
  assume a: "a < rows"
  have "{a..<a + Suc n} = insert a {a + 1..<a + 1 + n}" by auto
  then show ?thesis unfolding in_triangle_def using a by simp
qed

lemma tri_loop_spec:
  assumes "lim < rows" "(lim + n) * rows \<le> length m"
  shows "\<exists>m'. tri_loop n lim (lim * rows) rows m = Done m' \<and> length m' = length m \<and>
     (\<forall>p < length m. m' ! p = (if in_triangle rows lim (lim + n) p then 1 else m ! p))"
  using assms
proof (induction n arbitrary: lim m)
  case 0
  then show ?case by (simp add: in_triangle_def)
next
  case (Suc n)
  have "lim * rows + rows \<le> length m"
  proof -
    have "(lim + 1) * rows \<le> (lim + Suc n) * rows" by (intro mult_le_mono1) simp
    moreover have "(lim + 1) * rows = lim * rows + rows" by simp
    ultimately show ?thesis using Suc.prems(2) by linarith
  qed
  then obtain m1 where m1: "tri_row 0 rows lim (lim * rows) m = Done (rows, m1)" "length m1 = length m"
    "\<forall>p < length m. m1 ! p = (if lim * rows \<le> p \<and> p < lim * rows + (rows - lim) then 1 else m ! p)"
    using tri_row_spec [of lim rows 0 "lim * rows" m] Suc.prems by auto
  note step = in_triangle_step [OF Suc.prems(1), of n]
  show ?case
  proof (cases "lim + 1 = rows")
    case True
    then have "\<not> in_triangle rows (lim + 1) (lim + 1 + n) p" for p by (auto simp: in_triangle_def)
    then show ?thesis using m1 True step by (auto simp del: add_Suc_right)
  next
    case False
    have "lim + 1 < rows" "(lim + 1 + n) * rows \<le> length m1" using False Suc.prems m1(2) by simp_all
    from Suc.IH [OF this] obtain m' where m': "tri_loop n (lim + 1) ((lim + 1) * rows) rows m1 = Done m'"
      "length m' = length m1"
      "\<forall>p < length m1. m' ! p = (if in_triangle rows (lim + 1) (lim + 1 + n) p then 1 else m1 ! p)" by blast
    have "tri_loop (Suc n) lim (lim * rows) rows m = Done m'"
      using m1(1) m'(1) False by (simp add: add.commute)
    moreover have "m' ! p = (if in_triangle rows lim (lim + Suc n) p then 1 else m ! p)" if "p < length m" for p
      using m'(3) m1(2,3) that step by (auto simp del: add_Suc_right)
    ultimately show ?thesis using m'(2) m1(2) by (intro exI [of _ m']) simp
  qed
qed

lemma in_triangle_cell:
  assumes "k < cols" "j < rows"
  shows "in_triangle rows 0 cols (k * rows + j) \<longleftrightarrow> j + k < rows"
proof
  assume "in_triangle rows 0 cols (k * rows + j)"
  then obtain l where l: "l < rows" "l * rows \<le> k * rows + j" "k * rows + j < l * rows + (rows - l)"
    by (auto simp: in_triangle_def)
  have "l = (k * rows + j) div rows"
  proof -
    have "k * rows + j = l * rows + (k * rows + j - l * rows)" "k * rows + j - l * rows < rows"
      using l by linarith+
    then show ?thesis using assms(2) by (metis add.commute add_cancel_right_left div_less div_mult_self1 less_nat_zero_code mult.commute)
  qed
  then have "l = k" using assms(2) by simp
  then show "j + k < rows" using l(1,3) by auto
next
  assume "j + k < rows"
  then show "in_triangle rows 0 cols (k * rows + j)"
    using assms by (auto simp: in_triangle_def intro!: bexI [of _ k])
qed

text \<open>
  \<open>upper_triangle.c\<close> displays on line \<open>k\<close> a row whose first \<open>rows - k\<close> numbers are 1 and
  whose other numbers are 0 (the ones are in the upper left, not as in the comment).
\<close>

theorem triangle_main_shape:
  assumes "read_dims inp = Some (rows, cols)"
  shows "triangle_main inp =
     Done (0, concat (map (\<lambda>k. map (\<lambda>j. Num (if j + k < rows then 1 else 0)) [0..<rows] @ [Newline]) [0..<cols]))"
proof -
  note b = dims_fit [OF assms]
  have r0: "0 < rows" using read_dims_range [OF assms] by simp
  obtain m where m: "tri_loop cols 0 0 rows arr_zero = Done m" "length m = length arr_zero"
    "\<forall>p < length arr_zero. m ! p = (if in_triangle rows 0 cols p then 1 else arr_zero ! p)"
    using tri_loop_spec [OF r0, of cols arr_zero] b by auto
  have v: "m ! (l * rows + j) = (if j + l < rows then 1 else 0)" if "l < cols" "j < rows" for l j
  proof -
    have "l * rows + rows \<le> cols * rows"
      using that(1) mult_le_mono1 [of "l + 1" cols rows] by simp
    then have "l * rows + j < length arr_zero" using that(2) b(1) by simp
    then show ?thesis using m(3) in_triangle_cell [OF that] by (simp add: arr_zero_def)
  qed
  have sh: "map (\<lambda>k. Num (m ! k)) [l * rows..<l * rows + rows] = map (\<lambda>j. Num (m ! (l * rows + j))) [0..<rows]" for l
    by (rule nth_equalityI) simp_all
  have "concat (map (\<lambda>l. map (\<lambda>k. Num (m ! k)) [l * rows..<l * rows + rows] @ [Newline]) [0..<cols]) =
     concat (map (\<lambda>k. map (\<lambda>j. Num (if j + k < rows then 1 else 0)) [0..<rows] @ [Newline]) [0..<cols])"
    unfolding sh using v by (intro arg_cong [where f = concat] map_cong) auto
  moreover have "display_matrix (cols * rows) rows m =
      Done (concat (map (\<lambda>l. map (\<lambda>k. Num (m ! k)) [l * rows..<l * rows + rows] @ [Newline]) [0..<cols]))"
    using b m(2) by (intro display_matrix_lines) simp_all
  ultimately show ?thesis
    using m(1) by (simp add: triangle_main_def fill_triangle_def assms mult.commute [of rows])
qed

theorem triangle_main_witness:
  "triangle_main ''3 3'' = Done (0, [Num 1, Num 1, Num 1, Newline, Num 1, Num 1, Num 0, Newline,
     Num 1, Num 0, Num 0, Newline])"
proof -
  have "read_dims ''3 3'' = Some (3, 3)"
    by (simp add: read_dims_def scan_u32_w_def scan_num_def isspace_def isdigit_def dec_val_def
        digit_val_def scan_u32_small Let_def)
  from triangle_main_shape [OF this] show ?thesis by (simp add: upt_rec)
qed

end
