(* ===== verification/Snake.thy ===== *)
theory Snake
  imports Matrix
begin

text \<open>
  LAB_2, matrix_as_snake.c: the spiral numbering of a matrix, in the pointer version and in the
  version compiled with \<open>ARRAY_SOLUTION\<close>. Both walk the matrix in four straight lines per
  round. The specification is the list of the cells of the spiral.
\<close>

section \<open>The code\<close>

text \<open>
  One of the \<open>for\<close> loops: \<open>for (v = ...; counter < total && cond; v = step) mtrx[pos] = ++counter\<close>.
\<close>

function for_fill :: "nat \<Rightarrow> (nat \<Rightarrow> bool) \<Rightarrow> (nat \<Rightarrow> nat) \<Rightarrow> (nat \<Rightarrow> nat) \<Rightarrow> nat \<Rightarrow> nat \<times> nat list
     \<Rightarrow> (nat \<times> nat list) run" where
  "for_fill tot cond step pos v (counter, m) =
     (if counter < tot \<and> cond v
      then bind_run (arr_put m (pos v) (counter + 1)) (\<lambda>m1.
             for_fill tot cond step pos (step v) (counter + 1, m1))
      else Done (counter, m))"
  by pat_completeness auto

termination by (relation "measure (\<lambda>(t, c, s, p, v, k, m). t - k)") auto

declare for_fill.simps [simp del]

definition snake_round_ptr :: "nat \<Rightarrow> nat \<Rightarrow> nat \<Rightarrow> nat \<times> nat list \<Rightarrow> (nat \<times> nat list) run" where
  "snake_round_ptr rows columns depth s =
     bind_run (for_fill (rows * columns) (\<lambda>column. column < usub columns depth) Suc
                 (\<lambda>column. columns * depth + column) depth s) (\<lambda>s1.
     bind_run (for_fill (rows * columns) (\<lambda>row. row < usub (rows * columns) (columns * depth)) (\<lambda>row. row + columns)
                 (\<lambda>row. row + usub (usub columns depth) 1) (columns * (depth + 1)) s1) (\<lambda>s2.
     bind_run (for_fill (rows * columns) (\<lambda>column. column > depth) (\<lambda>column. usub column 1)
                 (\<lambda>column. usub (rows * columns) (columns * (depth + 1)) + column) (usub (usub columns 2) depth) s2) (\<lambda>s3.
     for_fill (rows * columns) (\<lambda>row. row > depth * columns) (\<lambda>row. usub row columns)
                 (\<lambda>row. row + depth) (usub (rows * columns) (columns * (depth + 1))) s3)))"

text \<open>\<open>mtrx[row][column]\<close> of a matrix with \<open>columns\<close> columns is the cell \<open>row * columns + column\<close>.\<close>

definition snake_round_arr :: "nat \<Rightarrow> nat \<Rightarrow> nat \<Rightarrow> nat \<times> nat list \<Rightarrow> (nat \<times> nat list) run" where
  "snake_round_arr rows columns depth s =
     bind_run (for_fill (rows * columns) (\<lambda>column. column < usub columns depth) Suc
                 (\<lambda>column. depth * columns + column) depth s) (\<lambda>s1.
     bind_run (for_fill (rows * columns) (\<lambda>row. row < usub rows depth) Suc
                 (\<lambda>row. row * columns + usub (usub columns depth) 1) (depth + 1) s1) (\<lambda>s2.
     bind_run (for_fill (rows * columns) (\<lambda>column. column > depth) (\<lambda>column. usub column 1)
                 (\<lambda>column. usub (usub rows depth) 1 * columns + column) (usub (usub columns depth) 2) s2) (\<lambda>s3.
     for_fill (rows * columns) (\<lambda>row. row > depth) (\<lambda>row. usub row 1)
                 (\<lambda>row. row * columns + depth) (usub (usub rows depth) 1) s3)))"

fun snake_loop :: "(nat \<Rightarrow> nat \<times> nat list \<Rightarrow> (nat \<times> nat list) run) \<Rightarrow> nat \<Rightarrow> nat \<Rightarrow> nat \<times> nat list
     \<Rightarrow> (nat \<times> nat list) run" where
  "snake_loop round 0 depth s = Done s"
| "snake_loop round (Suc n) depth s = bind_run (round depth s) (\<lambda>s1. snake_loop round n (depth + 1) s1)"

definition snake_matrix_ptr :: "nat \<Rightarrow> nat \<Rightarrow> nat list \<Rightarrow> nat list run" where
  "snake_matrix_ptr rows columns m =
     bind_run (snake_loop (snake_round_ptr rows columns) (columns div 2 + columns mod 2) 0 (0, m))
       (\<lambda>(counter, m1). Done m1)"

definition snake_matrix_arr :: "nat \<Rightarrow> nat \<Rightarrow> nat list \<Rightarrow> nat list run" where
  "snake_matrix_arr rows columns m =
     bind_run (snake_loop (snake_round_arr rows columns) (columns div 2 + columns mod 2) 0 (0, m))
       (\<lambda>(counter, m1). Done m1)"

text \<open>The display function of the array version: a line for each row.\<close>

fun display_row :: "nat \<Rightarrow> nat \<Rightarrow> nat list \<Rightarrow> outitem list run" where
  "display_row 0 p m = Done []"
| "display_row (Suc n) p m =
     bind_run (arr_get m p) (\<lambda>v. bind_run (display_row n (p + 1) m) (\<lambda>out. Done (Num v # out)))"

fun display_rows :: "nat \<Rightarrow> nat \<Rightarrow> nat \<Rightarrow> nat list \<Rightarrow> outitem list run" where
  "display_rows 0 i columns m = Done []"
| "display_rows (Suc n) i columns m =
     bind_run (display_row columns (i * columns) m) (\<lambda>l.
       bind_run (display_rows n (i + 1) columns m) (\<lambda>out. Done (l @ Newline # out)))"

definition snake_main_ptr :: "string \<Rightarrow> (int \<times> outitem list) run" where
  "snake_main_ptr inp =
     (case read_dims inp of
        None \<Rightarrow> Done (1, [])
      | Some (rows, columns) \<Rightarrow>
          bind_run (snake_matrix_ptr rows columns arr_zero) (\<lambda>m.
            bind_run (display_matrix (rows * columns) columns m) (\<lambda>out. Done (0, out))))"

definition snake_main_arr :: "string \<Rightarrow> (int \<times> outitem list) run" where
  "snake_main_arr inp =
     (case read_dims inp of
        None \<Rightarrow> Done (1, [])
      | Some (rows, columns) \<Rightarrow>
          bind_run (snake_matrix_arr rows columns arr_zero) (\<lambda>m.
            bind_run (display_rows rows 0 columns m) (\<lambda>out. Done (0, out))))"

section \<open>The cells of the spiral\<close>

type_synonym cell = "nat \<times> nat"

definition ring :: "nat \<Rightarrow> nat \<Rightarrow> nat \<Rightarrow> cell list" where
  "ring R C d =
     (if 2 * d < R \<and> 2 * d < C then
        map (\<lambda>i. (d, d + i)) [0..<C - 2 * d] @
        map (\<lambda>i. (d + 1 + i, C - d - 1)) [0..<R - 2 * d - 1] @
        (if 2 * d + 1 < R then map (\<lambda>i. (R - d - 1, C - d - 2 - i)) [0..<C - 2 * d - 2] else []) @
        (if 2 * d + 1 < C then map (\<lambda>i. (R - d - 1 - i, d)) [0..<R - 2 * d - 1] else [])
      else [])"

definition spiral :: "nat \<Rightarrow> nat \<Rightarrow> nat \<Rightarrow> cell list" where
  "spiral R C n = concat (map (ring R C) [0..<n])"

definition flat :: "nat \<Rightarrow> cell \<Rightarrow> nat" where
  "flat C p = fst p * C + snd p"

fun number_cells :: "nat list \<Rightarrow> nat \<Rightarrow> nat list \<Rightarrow> nat list" where
  "number_cells m c [] = m"
| "number_cells m c (p # ps) = number_cells (m[p := c + 1]) (c + 1) ps"

lemma number_cells_append:
  "number_cells m c (ps @ qs) = number_cells (number_cells m c ps) (c + length ps) qs"
  by (induction ps arbitrary: m c) simp_all

lemma length_number_cells [simp]: "length (number_cells m c ps) = length m"
  by (induction ps arbitrary: m c) simp_all

lemma number_cells_other: "p \<notin> set ps \<Longrightarrow> number_cells m c ps ! p = m ! p"
  by (induction ps arbitrary: m c) simp_all

lemma number_cells_nth:
  "distinct ps \<Longrightarrow> k < length ps \<Longrightarrow> ps ! k < length m \<Longrightarrow> number_cells m c ps ! (ps ! k) = c + k + 1"
proof (induction ps arbitrary: m c k)
  case (Cons p ps)
  then show ?case by (cases k) (simp_all add: number_cells_other)
qed simp

lemma length_ring: "length (ring R C d) = (R - 2 * d) * (C - 2 * d) - (R - 2 * (d + 1)) * (C - 2 * (d + 1))"
proof (cases "2 * d < R \<and> 2 * d < C")
  case True
  then obtain x y where x: "R = 2 * d + Suc x" and y: "C = 2 * d + Suc y"
    by (metis add_Suc_right less_imp_Suc_add)
  show ?thesis
    unfolding ring_def x y by (cases x; cases y) (simp_all add: algebra_simps)
qed (auto simp: ring_def)

lemma spiral_Suc: "spiral R C (Suc n) = spiral R C n @ ring R C n"
  by (simp add: spiral_def)

lemma length_spiral: "length (spiral R C n) = R * C - (R - 2 * n) * (C - 2 * n)"
proof (induction n)
  case 0
  then show ?case by (simp add: spiral_def)
next
  case (Suc n)
  have "(R - 2 * n) * (C - 2 * n) \<le> R * C" "(R - 2 * (n + 1)) * (C - 2 * (n + 1)) \<le> (R - 2 * n) * (C - 2 * n)"
    by (intro mult_le_mono; simp)+
  then show ?case using Suc length_ring [of R C n] by (simp add: spiral_Suc)
qed

lemma ring_range: "(r, c) \<in> set (ring R C d) \<Longrightarrow> r < R \<and> c < C"
  by (auto simp: ring_def split: if_splits)

lemma in_ring:
  assumes "r < R" "c < C" "d = min (min r c) (min (R - 1 - r) (C - 1 - c))"
  shows "(r, c) \<in> set (ring R C d)"
proof -
  have le: "d \<le> r" "d \<le> c" "d \<le> R - 1 - r" "d \<le> C - 1 - c" using assms(3) by (simp_all add: min_le_iff_disj)
  then have d: "2 * d < R" "2 * d < C" using assms(1,2) by linarith+
  have one: "d = r \<or> d = c \<or> d = R - 1 - r \<or> d = C - 1 - c"
    unfolding assms(3) by (simp add: min_def)
  have "d = r \<or> d < r" "d = c \<or> d < c" "d = C - 1 - c \<or> d < C - 1 - c" using le by linarith+
  with one consider "d = r" | "d = C - 1 - c" "d < r" | "d = R - 1 - r" "d < r" "d < C - 1 - c" "d < c"
    | "d = c" "d < r" "d < C - 1 - c"
    by blast
  then show ?thesis
  proof cases
    case 1
    then have "(r, c) = (\<lambda>i. (d, d + i)) (c - d)" "c - d < C - 2 * d" using le d assms(1,2) by auto
    then have "(r, c) \<in> set (map (\<lambda>i. (d, d + i)) [0..<C - 2 * d])" by (auto intro: image_eqI)
    then show ?thesis using d by (simp add: ring_def)
  next
    case 2
    have "C - d - 1 = c" "r - d - 1 < R - 2 * d - 1" "d + 1 + (r - d - 1) = r"
      using 2 le d assms(1,2) by linarith+
    then have "(r, c) = (\<lambda>i. (d + 1 + i, C - d - 1)) (r - d - 1)" "r - d - 1 < R - 2 * d - 1" by simp_all
    then have "(r, c) \<in> set (map (\<lambda>i. (d + 1 + i, C - d - 1)) [0..<R - 2 * d - 1])" by (auto intro: image_eqI)
    then show ?thesis using d by (simp add: ring_def)
  next
    case 3
    have "R - d - 1 = r" "C - d - 2 - (C - d - 2 - c) = c" "C - d - 2 - c < C - 2 * d - 2" "2 * d + 1 < R"
      using 3 le d assms(1,2) by linarith+
    then have "(r, c) = (\<lambda>i. (R - d - 1, C - d - 2 - i)) (C - d - 2 - c)" "C - d - 2 - c < C - 2 * d - 2" "2 * d + 1 < R"
      by simp_all
    then have "(r, c) \<in> set (map (\<lambda>i. (R - d - 1, C - d - 2 - i)) [0..<C - 2 * d - 2])" "2 * d + 1 < R"
      by (auto intro: image_eqI)
    then show ?thesis using d by (simp add: ring_def)
  next
    case 4
    have "R - d - 1 - (R - d - 1 - r) = r" "R - d - 1 - r < R - 2 * d - 1" "2 * d + 1 < C" "d = c"
      using 4 le d assms(1,2) by linarith+
    then have "(r, c) = (\<lambda>i. (R - d - 1 - i, d)) (R - d - 1 - r)" "R - d - 1 - r < R - 2 * d - 1" "2 * d + 1 < C"
      by simp_all
    then have "(r, c) \<in> set (map (\<lambda>i. (R - d - 1 - i, d)) [0..<R - 2 * d - 1])" "2 * d + 1 < C"
      by (auto intro: image_eqI)
    then show ?thesis using d by (simp add: ring_def)
  qed
qed

lemma set_spiral:
  assumes "C \<le> 2 * n"
  shows "set (spiral R C n) = {..<R} \<times> {..<C}"
proof
  show "set (spiral R C n) \<subseteq> {..<R} \<times> {..<C}"
    by (auto simp: spiral_def dest: ring_range)
  show "{..<R} \<times> {..<C} \<subseteq> set (spiral R C n)"
  proof
    fix p assume "p \<in> {..<R} \<times> {..<C}"
    then obtain r c where p: "p = (r, c)" "r < R" "c < C" by auto
    define d where "d = min (min r c) (min (R - 1 - r) (C - 1 - c))"
    then have "d \<le> c" "d \<le> C - 1 - c" by (simp_all add: min_le_iff_disj)
    then have "d < n" using assms p by linarith
    then show "p \<in> set (spiral R C n)" using in_ring [OF p(2,3) d_def] p(1) by (auto simp: spiral_def)
  qed
qed

lemma distinct_spiral:
  assumes "C \<le> 2 * n"
  shows "distinct (spiral R C n)" "length (spiral R C n) = R * C"
proof -
  show l: "length (spiral R C n) = R * C" using assms by (simp add: length_spiral)
  show "distinct (spiral R C n)"
    by (rule card_distinct) (simp add: set_spiral [OF assms] l card_cartesian_product)
qed

text \<open>Neighbours in the spiral are neighbours in the matrix.\<close>

definition adjacent :: "cell \<Rightarrow> cell \<Rightarrow> bool" where
  "adjacent p q \<longleftrightarrow>
     (fst p = fst q \<and> (snd q = snd p + 1 \<or> snd p = snd q + 1)) \<or>
     (snd p = snd q \<and> (fst q = fst p + 1 \<or> fst p = fst q + 1))"

lemma successively_map_upt:
  "(\<And>i. Suc i < n \<Longrightarrow> P (f i) (f (Suc i))) \<Longrightarrow> successively P (map f [0..<n])"
  by (simp add: successively_conv_nth)

lemma ring_path: "successively adjacent (ring R C d)"
proof (cases "2 * d < R \<and> 2 * d < C")
  case True
  then obtain x y where x: "R = 2 * d + Suc x" and y: "C = 2 * d + Suc y"
    by (metis add_Suc_right less_imp_Suc_add)
  have l: "successively adjacent (map (\<lambda>i. (d, d + i)) [0..<n])"
    "successively adjacent (map (\<lambda>i. (d + 1 + i, C - d - 1)) [0..<n])" for n
    by (rule successively_map_upt; simp add: adjacent_def)+
  have b: "successively adjacent (map (\<lambda>i. (R - d - 1, C - d - 2 - i)) [0..<C - 2 * d - 2])"
    "successively adjacent (map (\<lambda>i. (R - d - 1 - i, d)) [0..<R - 2 * d - 1])"
    by (rule successively_map_upt; simp add: adjacent_def x y; linarith)+
  show ?thesis
    using True l b unfolding ring_def x y
    by (cases x; cases y) (auto simp: successively_append_iff hd_append hd_map last_map adjacent_def simp del: upt_Suc)
qed (auto simp: ring_def)

lemma spiral_hd_last:
  assumes "2 * (d + 1) < R" "2 * (d + 1) < C"
  shows "ring R C d \<noteq> [] \<and> last (ring R C d) = (d + 1, d) \<and> ring R C (d + 1) \<noteq> [] \<and>
     hd (ring R C (d + 1)) = (d + 1, d + 1)"
  using assms by (auto simp: ring_def last_map hd_append hd_map)

lemma ring_empty: "R \<le> 2 * d \<or> C \<le> 2 * d \<Longrightarrow> ring R C d = []"
  by (auto simp: ring_def)

lemma spiral_path: "successively adjacent (spiral R C n)"
proof (induction n)
  case 0
  then show ?case by (simp add: spiral_def)
next
  case (Suc n)
  show ?case
  proof (cases n)
    case 0
    then show ?thesis using ring_path [of R C 0] by (simp add: spiral_def)
  next
    case (Suc d)
    show ?thesis
    proof (cases "2 * (d + 1) < R \<and> 2 * (d + 1) < C")
      case True
      then have "last (spiral R C n) = (d + 1, d)" "hd (ring R C n) = (d + 1, d + 1)"
        using spiral_hd_last [of d R C] Suc by (simp_all add: spiral_Suc)
      then show ?thesis using Suc.IH ring_path by (simp add: spiral_Suc successively_append_iff adjacent_def)
    next
      case False
      then have "ring R C n = []" using Suc by (intro ring_empty) auto
      then show ?thesis using Suc.IH by (simp add: spiral_Suc)
    qed
  qed
qed

section \<open>The loops walk along the spiral\<close>

lemma for_fill_full: "for_fill tot cond step pos v (tot, m) = Done (tot, m)"
  by (subst for_fill.simps) simp

lemma for_fill_line:
  assumes "\<And>i. i < n \<Longrightarrow> cond (f i) \<and> pos (f i) < length m \<and> step (f i) = f (Suc i)"
    and "counter + n \<le> tot" and "counter + n = tot \<or> \<not> cond (f n)" and "v = f 0"
  shows "for_fill tot cond step pos v (counter, m) =
     Done (counter + n, number_cells m counter (map (\<lambda>i. pos (f i)) [0..<n]))"
  using assms
proof (induction n arbitrary: f counter m v)
  case 0
  then show ?case by (subst for_fill.simps) auto
next
  case (Suc n)
  have "for_fill tot cond step pos v (counter, m) =
      for_fill tot cond step pos (f (Suc 0)) (counter + 1, m[pos (f 0) := counter + 1])"
    using Suc.prems by (subst for_fill.simps) simp
  also have "\<dots> = Done (counter + 1 + n, number_cells (m[pos (f 0) := counter + 1]) (counter + 1)
      (map (\<lambda>i. pos (f (Suc i))) [0..<n]))"
    using Suc.prems by (intro Suc.IH [of "\<lambda>i. f (Suc i)"]) auto
  finally show ?case
    by (simp add: upt_conv_Cons map_Suc_upt [symmetric] comp_def del: upt_Suc map_Suc_upt)
qed

lemma flat_bound: "r < R \<Longrightarrow> c < C \<Longrightarrow> R * C \<le> n \<Longrightarrow> r * C + c < n" for r R c C n :: nat
proof -
  assume "r < R" "c < C" "R * C \<le> n"
  then have "(r + 1) * C \<le> R * C" by (intro mult_le_mono1) simp
  then show ?thesis using \<open>c < C\<close> \<open>R * C \<le> n\<close> by simp
qed

lemma usub_rows: "k \<le> R \<Longrightarrow> usub (R * C) (C * k) = (R - k) * C"
  by (simp add: diff_mult_distrib mult.commute [of C] mult_le_mono1)

text \<open>The four lines of a round.\<close>

definition seg_top :: "nat \<Rightarrow> nat \<Rightarrow> nat \<Rightarrow> cell list" where
  "seg_top R C d = map (\<lambda>i. (d, d + i)) [0..<C - 2 * d]"
definition seg_right :: "nat \<Rightarrow> nat \<Rightarrow> nat \<Rightarrow> cell list" where
  "seg_right R C d = map (\<lambda>i. (d + 1 + i, C - d - 1)) [0..<R - 2 * d - 1]"
definition seg_bottom :: "nat \<Rightarrow> nat \<Rightarrow> nat \<Rightarrow> cell list" where
  "seg_bottom R C d = map (\<lambda>i. (R - d - 1, C - d - 2 - i)) [0..<C - 2 * d - 2]"
definition seg_left :: "nat \<Rightarrow> nat \<Rightarrow> nat \<Rightarrow> cell list" where
  "seg_left R C d = map (\<lambda>i. (R - d - 1 - i, d)) [0..<R - 2 * d - 1]"

abbreviation run_seg :: "nat \<Rightarrow> nat \<Rightarrow> nat list \<Rightarrow> cell list \<Rightarrow> (nat \<times> nat list) run" where
  "run_seg C c m seg \<equiv> Done (c + length seg, number_cells m c (map (flat C) seg))"

lemma run_segI:
  assumes "for_fill tot cond step pos v (c, m) =
      Done (c + n, number_cells m c (map (\<lambda>i. pos (f i)) [0..<n]))"
    and "seg = map g [0..<n]" and "\<And>i. i < n \<Longrightarrow> pos (f i) = flat C (g i)"
  shows "for_fill tot cond step pos v (c, m) = run_seg C c m seg"
proof -
  have "map (\<lambda>i. pos (f i)) [0..<n] = map (flat C) seg"
    unfolding assms(2) map_map comp_def by (rule map_cong) (use assms(3) in auto)
  moreover have "length seg = n" by (simp add: assms(2))
  ultimately show ?thesis by (simp only: assms(1))
qed

lemma top_line:
  assumes "2 * d < R" "2 * d < C" "c + (C - 2 * d) \<le> R * C" "R * C \<le> length m"
    and pos: "\<And>k. pos k = d * C + k"
  shows "for_fill (R * C) (\<lambda>column. column < usub C d) Suc pos d (c, m) = run_seg C c m (seg_top R C d)"
proof (rule run_segI [OF for_fill_line [where f = "\<lambda>i. d + i"] seg_top_def])
  show "d + i < usub C d \<and> pos (d + i) < length m \<and> Suc (d + i) = d + Suc i" if "i < C - 2 * d" for i
    using that assms(1,2) flat_bound [of d R "d + i" C "length m"] assms(4) by (simp add: pos)
qed (use assms in \<open>simp_all add: flat_def\<close>)

lemma right_line_arr:
  assumes "2 * d < R" "2 * d < C" "c + (R - 2 * d - 1) \<le> R * C" "R * C \<le> length m"
  shows "for_fill (R * C) (\<lambda>row. row < usub R d) Suc (\<lambda>row. row * C + usub (usub C d) 1) (d + 1) (c, m) =
     run_seg C c m (seg_right R C d)"
proof (rule run_segI [OF for_fill_line [where f = "\<lambda>i. d + 1 + i"] seg_right_def])
  show "d + 1 + i < usub R d \<and> (d + 1 + i) * C + usub (usub C d) 1 < length m \<and> Suc (d + 1 + i) = d + 1 + Suc i"
    if "i < R - 2 * d - 1" for i
    using that assms(1,2) flat_bound [of "d + 1 + i" R "C - d - 1" C "length m"] assms(4) by simp
  have "usub R d = R - d" using assms(1) by simp
  then show "c + (R - 2 * d - 1) = R * C \<or> \<not> d + 1 + (R - 2 * d - 1) < usub R d" using assms(1) by linarith
qed (use assms in \<open>simp_all add: flat_def\<close>)

lemma right_line_ptr:
  assumes "2 * d < R" "2 * d < C" "c + (R - 2 * d - 1) \<le> R * C" "R * C \<le> length m"
  shows "for_fill (R * C) (\<lambda>row. row < usub (R * C) (C * d)) (\<lambda>row. row + C)
       (\<lambda>row. row + usub (usub C d) 1) (C * (d + 1)) (c, m) = run_seg C c m (seg_right R C d)"
proof (rule run_segI [OF for_fill_line [where f = "\<lambda>i. (d + 1 + i) * C"] seg_right_def])
  have lim: "usub (R * C) (C * d) = (R - d) * C" using assms(1) by (intro usub_rows) simp
  show "(d + 1 + i) * C < usub (R * C) (C * d) \<and> (d + 1 + i) * C + usub (usub C d) 1 < length m \<and>
      (d + 1 + i) * C + C = (d + 1 + Suc i) * C" if "i < R - 2 * d - 1" for i
    unfolding lim using that assms(1,2) flat_bound [of "d + 1 + i" R "C - d - 1" C "length m"] assms(4)
    by (simp add: mult_less_cancel2 del: mult_Suc add_mult_distrib) simp
  have "R - d = d + 1 + (R - 2 * d - 1)" using assms(1) by linarith
  then show "c + (R - 2 * d - 1) = R * C \<or> \<not> (d + 1 + (R - 2 * d - 1)) * C < usub (R * C) (C * d)"
    unfolding lim by simp
qed (use assms in \<open>simp_all add: flat_def mult.commute\<close>)

lemma bottom_line_arr:
  assumes "2 * d + 1 < R" "2 * d + 1 < C" "c + (C - 2 * d - 2) \<le> R * C" "R * C \<le> length m"
    and pos: "\<And>k. k < C \<Longrightarrow> pos k = (R - d - 1) * C + k" and start: "v = C - d - 2"
  shows "for_fill (R * C) (\<lambda>column. column > d) (\<lambda>column. usub column 1) pos v (c, m) =
     run_seg C c m (seg_bottom R C d)"
proof (rule run_segI [OF for_fill_line [where f = "\<lambda>i. C - d - 2 - i"] seg_bottom_def])
  show "d < C - d - 2 - i \<and> pos (C - d - 2 - i) < length m \<and> usub (C - d - 2 - i) 1 = C - d - 2 - Suc i"
    if "i < C - 2 * d - 2" for i
    using that assms(1,2) flat_bound [of "R - d - 1" R "C - d - 2 - i" C "length m"] assms(4) by (simp add: pos)
  show "c + (C - 2 * d - 2) = R * C \<or> \<not> d < C - d - 2 - (C - 2 * d - 2)" using assms(2) by linarith
qed (use assms in \<open>simp_all add: flat_def pos\<close>)

lemma left_line_arr:
  assumes "2 * d + 1 < R" "2 * d + 1 < C" "c + (R - 2 * d - 1) \<le> R * C" "R * C \<le> length m"
  shows "for_fill (R * C) (\<lambda>row. row > d) (\<lambda>row. usub row 1) (\<lambda>row. row * C + d) (usub (usub R d) 1) (c, m) =
     run_seg C c m (seg_left R C d)"
proof (rule run_segI [OF for_fill_line [where f = "\<lambda>i. R - d - 1 - i"] seg_left_def])
  show "d < R - d - 1 - i \<and> (R - d - 1 - i) * C + d < length m \<and> usub (R - d - 1 - i) 1 = R - d - 1 - Suc i"
    if "i < R - 2 * d - 1" for i
    using that assms(1,2) flat_bound [of "R - d - 1 - i" R d C "length m"] assms(4) by simp
qed (use assms in \<open>simp_all add: flat_def\<close>)

lemma left_line_ptr:
  assumes "2 * d + 1 < R" "2 * d + 1 < C" "c + (R - 2 * d - 1) \<le> R * C" "R * C \<le> length m"
  shows "for_fill (R * C) (\<lambda>row. row > d * C) (\<lambda>row. usub row C) (\<lambda>row. row + d)
       (usub (R * C) (C * (d + 1))) (c, m) = run_seg C c m (seg_left R C d)"
proof (rule run_segI [OF for_fill_line [where f = "\<lambda>i. (R - d - 1 - i) * C"] seg_left_def])
  show "d * C < (R - d - 1 - i) * C \<and> (R - d - 1 - i) * C + d < length m \<and>
      usub ((R - d - 1 - i) * C) C = (R - d - 1 - Suc i) * C" if "i < R - 2 * d - 1" for i
  proof -
    define k where "k = R - d - 2 - i"
    have k: "R - d - 1 - i = Suc k" "d < Suc k" using that assms(1) unfolding k_def by linarith+
    have k2: "R - d - 1 - Suc i = k" using k(1) by simp
    have "Suc k * C + d < length m"
      using flat_bound [of "R - d - 1 - i" R d C "length m"] assms k(1) by simp
    moreover have "d * C < Suc k * C" using k(2) assms(2) by (intro mult_strict_right_mono) simp_all
    ultimately show ?thesis by (simp only: k(1) k2) simp
  qed
  show "c + (R - 2 * d - 1) = R * C \<or> \<not> d * C < (R - d - 1 - (R - 2 * d - 1)) * C"
    using assms(1) by simp
  show "usub (R * C) (C * (d + 1)) = (R - d - 1 - 0) * C"
    using usub_rows [of "d + 1" R C] assms(1) by simp
qed (use assms in \<open>simp_all add: flat_def\<close>)

lemma four_lines:
  assumes d: "2 * d < R" "2 * d < C" and len: "R * C \<le> length m"
    and cnt: "c + (R - 2 * d) * (C - 2 * d) = R * C"
    and f1: "\<And>c m. c + (C - 2 * d) \<le> R * C \<Longrightarrow> R * C \<le> length m \<Longrightarrow> F1 (c, m) = run_seg C c m (seg_top R C d)"
    and f2: "\<And>c m. c + (R - 2 * d - 1) \<le> R * C \<Longrightarrow> R * C \<le> length m \<Longrightarrow> F2 (c, m) = run_seg C c m (seg_right R C d)"
    and f3: "\<And>c m. 2 * d + 1 < R \<Longrightarrow> 2 * d + 1 < C \<Longrightarrow> c + (C - 2 * d - 2) \<le> R * C \<Longrightarrow> R * C \<le> length m \<Longrightarrow>
       F3 (c, m) = run_seg C c m (seg_bottom R C d)"
    and f4: "\<And>c m. 2 * d + 1 < R \<Longrightarrow> 2 * d + 1 < C \<Longrightarrow> c + (R - 2 * d - 1) \<le> R * C \<Longrightarrow> R * C \<le> length m \<Longrightarrow>
       F4 (c, m) = run_seg C c m (seg_left R C d)"
    and full: "\<And>m. F2 (R * C, m) = Done (R * C, m)" "\<And>m. F3 (R * C, m) = Done (R * C, m)"
      "\<And>m. F4 (R * C, m) = Done (R * C, m)"
  shows "bind_run (F1 (c, m)) (\<lambda>s1. bind_run (F2 s1) (\<lambda>s2. bind_run (F3 s2) F4)) = run_seg C c m (ring R C d)"
proof -
  define x y where "x = R - 2 * d" and "y = C - 2 * d"
  have xy: "0 < x" "0 < y" "c + x * y = R * C" using d cnt by (simp_all add: x_def y_def)
  have l: "length (seg_top R C d) = y" "length (seg_right R C d) = x - 1" "length (seg_bottom R C d) = y - 2"
    "length (seg_left R C d) = x - 1"
    by (simp_all add: seg_top_def seg_right_def seg_bottom_def seg_left_def x_def y_def)
  have ring: "ring R C d = seg_top R C d @ seg_right R C d @ (if 1 < x then seg_bottom R C d else []) @
     (if 1 < y then seg_left R C d else [])"
    using d by (auto simp: ring_def seg_top_def seg_right_def seg_bottom_def seg_left_def x_def y_def)
  have top: "F1 (c, m) = run_seg C c m (seg_top R C d)"
  proof (rule f1)
    have "y \<le> x * y" using xy by (cases x) simp_all
    then have "c + y \<le> R * C" using xy(3) by linarith
    then show "c + (C - 2 * d) \<le> R * C" unfolding y_def .
  qed (rule len)
  consider "x = 1" | "y = 1" "1 < x" | "1 < x" "1 < y" using xy by linarith
  then show ?thesis
  proof cases
    case 1
    then have "c + y = R * C" "seg_right R C d = []" "seg_left R C d = []"
      using xy l by (simp, metis One_nat_def diff_self_eq_0 length_0_conv, metis One_nat_def diff_self_eq_0 length_0_conv)
    then show ?thesis using top full l 1 by (simp add: ring)
  next
    case 2
    let ?m = "number_cells m c (map (flat C) (seg_top R C d))"
    have s: "c + y + (x - 1) = R * C" using xy(3) 2 by simp
    have "F2 (c + y, ?m) = run_seg C (c + y) ?m (seg_right R C d)"
      using s len by (intro f2) (simp_all add: x_def)
    then show ?thesis using top full l 2 s by (simp add: ring number_cells_append)
  next
    case 3
    let ?m1 = "number_cells m c (map (flat C) (seg_top R C d))"
    let ?m2 = "number_cells ?m1 (c + y) (map (flat C) (seg_right R C d))"
    let ?m3 = "number_cells ?m2 (c + y + (x - 1)) (map (flat C) (seg_bottom R C d))"
    have s: "c + y + (x - 1) + (y - 2) + (x - 1) \<le> R * C"
    proof -
      obtain a b where "x = a + 2" "y = b + 2" using 3 by (metis add.commute less_iff_Suc_add add_2_eq_Suc One_nat_def Suc_eq_plus1 plus_1_eq_Suc)
      then show ?thesis using xy(3) by simp
    qed
    have "F2 (c + y, ?m1) = run_seg C (c + y) ?m1 (seg_right R C d)"
      using s len by (intro f2) (simp_all add: x_def)
    moreover have "F3 (c + y + (x - 1), ?m2) = run_seg C (c + y + (x - 1)) ?m2 (seg_bottom R C d)"
      using s len 3 by (intro f3) (simp_all add: x_def y_def)
    moreover have "F4 (c + y + (x - 1) + (y - 2), ?m3) = run_seg C (c + y + (x - 1) + (y - 2)) ?m3 (seg_left R C d)"
      using s len 3 by (intro f4) (simp_all add: x_def y_def)
    ultimately show ?thesis using top l 3 by (simp add: ring number_cells_append add.assoc)
  qed
qed

lemma round_empty:
  assumes "\<And>m. F1 (t, m) = Done (t, m)" "\<And>m. F2 (t, m) = Done (t, m)" "\<And>m. F3 (t, m) = Done (t, m)"
    "\<And>m. F4 (t, m) = Done (t, m)"
  shows "bind_run (F1 (t, m)) (\<lambda>s1. bind_run (F2 s1) (\<lambda>s2. bind_run (F3 s2) F4)) = Done (t, m)"
  using assms by simp

lemma snake_round_spec:
  assumes C: "2 \<le> C" "2 * d < C" and len: "R * C \<le> length m"
    and cnt: "c + (R - 2 * d) * (C - 2 * d) = R * C"
  shows "snake_round_ptr R C d (c, m) = run_seg C c m (ring R C d)"
    and "snake_round_arr R C d (c, m) = run_seg C c m (ring R C d)"
proof -
  show "snake_round_ptr R C d (c, m) = run_seg C c m (ring R C d)"
  proof (cases "2 * d < R")
    case True
    show ?thesis
      unfolding snake_round_ptr_def
    proof (rule four_lines [OF True C(2) len cnt], goal_cases)
      case (1 c m)
      then show ?case using True C by (intro top_line) (simp_all add: mult.commute)
    next
      case (2 c m)
      then show ?case using True C by (intro right_line_ptr)
    next
      case (3 c m)
      have u: "usub (R * C) (C * (d + 1)) = (R - d - 1) * C" using usub_rows [of "d + 1" R C] 3 by simp
      show ?case unfolding u using 3 by (intro bottom_line_arr) simp_all
    next
      case (4 c m)
      then show ?case by (intro left_line_ptr)
    qed (rule for_fill_full)+
  next
    case False
    then have "c = R * C" "ring R C d = []" using cnt by (auto intro: ring_empty)
    then show ?thesis by (simp add: snake_round_ptr_def for_fill_full)
  qed
  show "snake_round_arr R C d (c, m) = run_seg C c m (ring R C d)"
  proof (cases "2 * d < R")
    case True
    show ?thesis
      unfolding snake_round_arr_def
    proof (rule four_lines [OF True C(2) len cnt], goal_cases)
      case (1 c m)
      then show ?case using True C by (intro top_line) simp_all
    next
      case (2 c m)
      then show ?case using True C by (intro right_line_arr)
    next
      case (3 c m)
      then show ?case by (intro bottom_line_arr) simp_all
    next
      case (4 c m)
      then show ?case by (intro left_line_arr)
    qed (rule for_fill_full)+
  next
    case False
    then have "c = R * C" "ring R C d = []" using cnt by (auto intro: ring_empty)
    then show ?thesis by (simp add: snake_round_arr_def for_fill_full)
  qed
qed

lemma snake_loop_spec:
  assumes round: "\<And>d c m. 2 * d < C \<Longrightarrow> R * C \<le> length m \<Longrightarrow> c + (R - 2 * d) * (C - 2 * d) = R * C \<Longrightarrow>
      F d (c, m) = run_seg C c m (ring R C d)"
  shows "2 * (d + n) \<le> C + 1 \<Longrightarrow> R * C \<le> length m \<Longrightarrow> c + (R - 2 * d) * (C - 2 * d) = R * C \<Longrightarrow>
     snake_loop F n d (c, m) = run_seg C c m (concat (map (ring R C) [d..<d + n]))"
proof (induction n arbitrary: d c m)
  case 0
  then show ?case by simp
next
  case (Suc n)
  let ?r = "ring R C d"
  have le: "(R - 2 * (d + 1)) * (C - 2 * (d + 1)) \<le> (R - 2 * d) * (C - 2 * d)" by (intro mult_le_mono) simp_all
  have r: "F d (c, m) = run_seg C c m ?r" using Suc.prems by (intro round) simp_all
  have "snake_loop F (Suc n) d (c, m) = snake_loop F n (d + 1) (c + length ?r, number_cells m c (map (flat C) ?r))"
    using r by simp
  also have "\<dots> = run_seg C (c + length ?r) (number_cells m c (map (flat C) ?r))
      (concat (map (ring R C) [d + 1..<d + 1 + n]))"
    using Suc.prems length_ring [of R C d] le by (intro Suc.IH) simp_all
  finally show ?case by (simp add: upt_conv_Cons number_cells_append add.assoc del: upt_Suc)
qed

definition rounds_of :: "nat \<Rightarrow> nat" where
  "rounds_of C = C div 2 + C mod 2"

lemma rounds_of: "2 * rounds_of C \<le> C + 1" "C \<le> 2 * rounds_of C"
  unfolding rounds_of_def by presburger+

lemma snake_matrix_spec:
  assumes "2 \<le> C" "R * C \<le> length m"
  shows "snake_matrix_ptr R C m = Done (number_cells m 0 (map (flat C) (spiral R C (rounds_of C))))"
    and "snake_matrix_arr R C m = Done (number_cells m 0 (map (flat C) (spiral R C (rounds_of C))))"
proof -
  have "snake_loop (snake_round_ptr R C) (rounds_of C) 0 (0, m) = run_seg C 0 m (concat (map (ring R C) [0..<0 + rounds_of C]))"
  proof (rule snake_loop_spec)
    show "snake_round_ptr R C d (c, m) = run_seg C c m (ring R C d)"
      if "2 * d < C" "R * C \<le> length m" "c + (R - 2 * d) * (C - 2 * d) = R * C" for d c m
      by (rule snake_round_spec(1) [OF assms(1) that])
  qed (use rounds_of(1) [of C] assms(2) in simp_all)
  then show "snake_matrix_ptr R C m = Done (number_cells m 0 (map (flat C) (spiral R C (rounds_of C))))"
    by (simp add: snake_matrix_ptr_def rounds_of_def [symmetric] spiral_def)
  have "snake_loop (snake_round_arr R C) (rounds_of C) 0 (0, m) = run_seg C 0 m (concat (map (ring R C) [0..<0 + rounds_of C]))"
  proof (rule snake_loop_spec)
    show "snake_round_arr R C d (c, m) = run_seg C c m (ring R C d)"
      if "2 * d < C" "R * C \<le> length m" "c + (R - 2 * d) * (C - 2 * d) = R * C" for d c m
      by (rule snake_round_spec(2) [OF assms(1) that])
  qed (use rounds_of(1) [of C] assms(2) in simp_all)
  then show "snake_matrix_arr R C m = Done (number_cells m 0 (map (flat C) (spiral R C (rounds_of C))))"
    by (simp add: snake_matrix_arr_def rounds_of_def [symmetric] spiral_def)
qed

lemma flat_inj: "inj_on (flat C) ({..<R} \<times> {..<C})"
proof (rule inj_onI)
  fix p q assume a: "p \<in> {..<R} \<times> {..<C}" "q \<in> {..<R} \<times> {..<C}" "flat C p = flat C q"
  then have "(fst p * C + snd p) div C = (fst q * C + snd q) div C" "(fst p * C + snd p) mod C = (fst q * C + snd q) mod C"
    by (simp_all add: flat_def)
  then show "p = q" using a(1,2) by (auto simp: prod_eq_iff)
qed

section \<open>Properties\<close>

text \<open>
  C36: for dimensions the program accepts, \<open>snake_matrix\<close> puts the numbers 1, 2, ... on a path
  that starts in the upper left corner, moves between neighbouring cells, and visits every cell
  of the matrix exactly once; it stays inside the array.
\<close>

theorem snake_matrix_path:
  assumes "2 \<le> rows" "rows < ROWMAX" "2 \<le> cols" "cols < COLMAX"
  shows "\<exists>m path. snake_matrix_ptr rows cols arr_zero = Done m \<and>
     distinct path \<and> set path = {..<rows} \<times> {..<cols} \<and> successively adjacent path \<and> hd path = (0, 0) \<and>
     (\<forall>k < rows * cols. m ! flat cols (path ! k) = k + 1)"
proof -
  let ?n = "rounds_of cols"
  let ?p = "spiral rows cols ?n"
  let ?m = "number_cells arr_zero 0 (map (flat cols) ?p)"
  have len: "rows * cols \<le> length arr_zero"
    using mult_le_mono [of rows 100 cols 100] assms by (simp add: arr_zero_def)
  have s: "set ?p = {..<rows} \<times> {..<cols}" by (rule set_spiral) (rule rounds_of)
  note d = distinct_spiral [OF rounds_of(2) [of cols], of rows]
  have dm: "distinct (map (flat cols) ?p)" using d(1) flat_inj [of cols rows] s by (simp add: distinct_map)
  have "?m ! flat cols (?p ! k) = k + 1" if k: "k < rows * cols" for k
  proof -
    have "?p ! k \<in> {..<rows} \<times> {..<cols}" using k d(2) nth_mem [of k ?p] s by auto
    then have "flat cols (?p ! k) < length arr_zero"
      using flat_bound [OF _ _ len, of "fst (?p ! k)" "snd (?p ! k)"] by (auto simp: flat_def)
    then show ?thesis using number_cells_nth [OF dm, of k arr_zero 0] k d(2) by simp
  qed
  moreover have "hd ?p = (0, 0)"
  proof -
    obtain n where "?n = Suc n" using rounds_of(2) [of cols] assms by (cases ?n) auto
    then have "?p = ring rows cols 0 @ concat (map (ring rows cols) [1..<?n])"
      by (simp add: spiral_def upt_conv_Cons del: upt_Suc)
    then show ?thesis using assms by (simp add: ring_def hd_append hd_map)
  qed
  ultimately show ?thesis
    using snake_matrix_spec(1) [OF assms(3) len] s d(1) spiral_path by blast
qed

theorem snake_matrix_witness:
  "\<exists>m path. snake_matrix_ptr 3 4 arr_zero = Done m \<and>
     distinct path \<and> set path = {..<3} \<times> {..<4} \<and> successively adjacent path \<and> hd path = (0, 0) \<and>
     (\<forall>k < 3 * 4. m ! flat 4 (path ! k) = k + 1)"
  by (rule snake_matrix_path) simp_all

lemma display_row_spec:
  "p + n \<le> length m \<Longrightarrow> display_row n p m = Done (map (\<lambda>k. Num (m ! k)) [p..<p + n])"
  by (induction n arbitrary: p) (simp_all add: upt_conv_Cons del: upt_Suc)

lemma display_rows_spec:
  "(i + n) * C \<le> length m \<Longrightarrow> display_rows n i C m =
     Done (concat (map (\<lambda>l. map (\<lambda>k. Num (m ! k)) [l * C..<l * C + C] @ [Newline]) [i..<i + n]))"
proof (induction n arbitrary: i)
  case 0
  then show ?case by simp
next
  case (Suc n)
  have "(i + 1) * C \<le> (i + Suc n) * C" by (intro mult_le_mono1) simp
  then have "(i + 1) * C \<le> length m" using Suc.prems by (rule order_trans)
  then have "i * C + C \<le> length m" by simp
  moreover have "display_rows n (i + 1) C m =
     Done (concat (map (\<lambda>l. map (\<lambda>k. Num (m ! k)) [l * C..<l * C + C] @ [Newline]) [i + 1..<i + 1 + n]))"
    using Suc.prems by (intro Suc.IH) simp
  ultimately show ?case by (simp add: display_row_spec upt_conv_Cons del: upt_Suc)
qed

text \<open>
  C37: the array version of the program and the pointer version print the same for every input.
\<close>

theorem snake_main_equiv: "snake_main_arr inp = snake_main_ptr inp"
proof (cases "read_dims inp")
  case None
  then show ?thesis by (simp add: snake_main_arr_def snake_main_ptr_def)
next
  case (Some dims)
  obtain rows cols where rc: "dims = (rows, cols)" by (cases dims)
  have r: "2 \<le> cols" "0 < cols" "rows * cols \<le> length arr_zero"
    using read_dims_range [of inp rows cols] Some rc mult_le_mono [of rows 100 cols 100] by (auto simp: arr_zero_def)
  let ?m = "number_cells arr_zero 0 (map (flat cols) (spiral rows cols (rounds_of cols)))"
  have "display_rows rows 0 cols ?m = display_matrix (rows * cols) cols ?m"
    using r by (simp add: display_rows_spec display_matrix_lines)
  then show ?thesis
    using snake_matrix_spec [OF r(1,3)] by (simp add: snake_main_arr_def snake_main_ptr_def Some rc)
qed

end
