(* ===== verification/Calc_Stack.thy ===== *)
theory Calc_Stack
  imports Lab_Prelude
begin

text \<open>
  LAB_7, LAB_8 and LAB_9: the stack of the calculators (push.c, pop.c, stack_init.c, the same in
  the three labs) and its interface, the locale \<open>calc_stack\<close>, for the static program, the
  program linked with a dynamic library, and the one that loads the library at run time.
\<close>

section \<open>The interface\<close>

text \<open>
  What the calculator relies on: the two operations move values on and off a list of bounded
  length, dropping what does not fit, and an empty stack yields the end-of-stack value.
\<close>

locale calc_stack =
  fixes push :: "'s \<Rightarrow> 'd \<Rightarrow> 's"
    and pop :: "'s \<Rightarrow> 'd \<times> 's"
    and content :: "'s \<Rightarrow> 'd list"
    and wf :: "'s \<Rightarrow> bool"
    and cap :: nat
    and eos :: 'd
  assumes push_wf: "wf s \<Longrightarrow> wf (push s x)"
    and push_content: "wf s \<Longrightarrow>
      content (push s x) = (if length (content s) < cap then x # content s else content s)"
    and pop_empty: "wf s \<Longrightarrow> content s = [] \<Longrightarrow> pop s = (eos, s)"
    and pop_wf: "wf s \<Longrightarrow> wf (snd (pop s))"
    and pop_content: "wf s \<Longrightarrow> content s = x # xs \<Longrightarrow> fst (pop s) = x \<and> content (snd (pop s)) = xs"
    and content_cap: "wf s \<Longrightarrow> length (content s) \<le> cap"
begin

lemma pop_push:
  assumes "wf s" "length (content s) < cap"
  shows "fst (pop (push s x)) = x" "content (snd (pop (push s x))) = content s"
  using pop_content [OF push_wf [OF assms(1)], of x x "content s"] push_content [OF assms(1), of x] assms(2)
  by simp_all

lemma pop_tl:
  assumes "wf s"
  shows "content (snd (pop s)) = tl (content s)" "wf (snd (pop s))"
proof -
  show "content (snd (pop s)) = tl (content s)"
    using pop_empty [OF assms] pop_content [OF assms] by (cases "content s") auto
  show "wf (snd (pop s))" by (rule pop_wf [OF assms])
qed

lemma pop_hd: "wf s \<Longrightarrow> fst (pop s) = (case content s of [] \<Rightarrow> eos | x # _ \<Rightarrow> x)"
  using pop_empty pop_content by (cases "content s") auto

text \<open>A binary operation on the two top values.\<close>

lemma binary:
  assumes "wf s" "content s = y # x # xs"
  shows "fst (pop s) = y" "fst (pop (snd (pop s))) = x"
    "content (push (snd (pop (snd (pop s)))) z) = z # xs" "wf (push (snd (pop (snd (pop s)))) z)"
proof -
  let ?s1 = "snd (pop s)"
  let ?s2 = "snd (pop ?s1)"
  have 1: "content ?s1 = x # xs" "wf ?s1" using pop_tl [OF assms(1)] assms(2) by simp_all
  have 2: "content ?s2 = xs" "wf ?s2" using pop_tl [OF 1(2)] 1(1) by simp_all
  have "length xs < cap" using content_cap [OF assms(1)] assms(2) by simp
  then show "content (push ?s2 z) = z # xs" using push_content [OF 2(2)] 2(1) by simp
  show "fst (pop s) = y" "fst (pop ?s1) = x" "wf (push ?s2 z)"
    using pop_content [OF assms] pop_content [OF 1(2,1)] push_wf [OF 2(2)] by simp_all
qed

end

section \<open>The implementation\<close>

abbreviation ARRAYSIZE :: nat where "ARRAYSIZE \<equiv> 256"

record 'd stack =
  array :: "'d list"
  idx :: nat

definition init_stack :: "'d \<Rightarrow> 'd stack" where
  "init_stack zero = \<lparr>array = replicate ARRAYSIZE zero, idx = 0\<rparr>"

definition push :: "'d stack \<Rightarrow> 'd \<Rightarrow> 'd stack" where
  "push self item =
     (if idx self \<ge> ARRAYSIZE then self
      else self\<lparr>array := (array self)[idx self := item], idx := idx self + 1\<rparr>)"

definition pop :: "'d \<Rightarrow> 'd stack \<Rightarrow> 'd \<times> 'd stack" where
  "pop eos self =
     (if idx self = 0 then (eos, self)
      else (array self ! (idx self - 1), self\<lparr>idx := idx self - 1\<rparr>))"

definition stack_wf :: "'d stack \<Rightarrow> bool" where
  "stack_wf s \<longleftrightarrow> length (array s) = ARRAYSIZE \<and> idx s \<le> ARRAYSIZE"

text \<open>The values of a stack, the top first.\<close>

definition content :: "'d stack \<Rightarrow> 'd list" where
  "content s = rev (take (idx s) (array s))"

lemma content_init [simp]: "content (init_stack z) = []" "stack_wf (init_stack z)"
  by (simp_all add: content_def init_stack_def stack_wf_def)

lemma length_content: "stack_wf s \<Longrightarrow> length (content s) = idx s"
  by (simp add: content_def stack_wf_def)

interpretation cs: calc_stack push "pop eos" content stack_wf ARRAYSIZE eos for eos :: 'd
proof
  fix s :: "'d stack" and x :: 'd and xs
  assume wf: "stack_wf s"
  then show "stack_wf (push s x)" by (auto simp: push_def stack_wf_def)
  show "content (push s x) = (if length (content s) < ARRAYSIZE then x # content s else content s)"
    using wf by (auto simp: length_content push_def content_def stack_wf_def take_Suc_conv_app_nth)
  show "stack_wf (snd (pop eos s))" using wf by (auto simp: pop_def stack_wf_def)
  show "length (content s) \<le> ARRAYSIZE" using wf by (simp add: length_content stack_wf_def)
  show "content s = [] \<Longrightarrow> pop eos s = (eos, s)"
    using wf length_content [OF wf] by (simp add: pop_def)
  show "content s = x # xs \<Longrightarrow> fst (pop eos s) = x \<and> content (snd (pop eos s)) = xs"
  proof -
    assume c: "content s = x # xs"
    then have i: "idx s = Suc (length xs)" using length_content [OF wf] by simp
    then have "take (idx s) (array s) = take (length xs) (array s) @ [array s ! length xs]"
      using wf by (simp add: stack_wf_def take_Suc_conv_app_nth)
    then show ?thesis using c i by (simp add: content_def pop_def)
  qed
qed

end
