(* ===== verification/Calculator.thy ===== *)
theory Calculator
  imports Calc_Stack
begin

text \<open>
  calculator.c of LAB_7, LAB_8 and LAB_9: the reverse Polish calculator. The arithmetic of
  \<open>double\<close> is the floating point of the machine: a record of its operations is a parameter of
  the model. The program prints results with \<open>%g\<close>; the model keeps the value.
\<close>

section \<open>Numbers, tokens and state\<close>

text \<open>
  The operations on \<open>double\<close> that the code uses: the four operators, negation, the conversions
  to and from \<open>int\<close> (\<open>None\<close> when the value is outside the range of \<open>int\<close>), the comparison with
  0.0, and \<open>strtod\<close> with the flag that says whether it sets \<open>errno\<close>.
\<close>

record 'd fops =
  fzero :: 'd
  fadd :: "'d \<Rightarrow> 'd \<Rightarrow> 'd"
  fsub :: "'d \<Rightarrow> 'd \<Rightarrow> 'd"
  fmul :: "'d \<Rightarrow> 'd \<Rightarrow> 'd"
  fdiv :: "'d \<Rightarrow> 'd \<Rightarrow> 'd"
  fneg :: "'d \<Rightarrow> 'd"
  fof_int :: "int \<Rightarrow> 'd"
  fto_int :: "'d \<Rightarrow> int option"
  fis0 :: "'d \<Rightarrow> bool"
  fstrtod :: "string \<Rightarrow> 'd \<times> bool"

datatype Op = NONE | FATAL_ERR | RESET | NUM | ADD | SUB | MUL | DIV | REM

datatype Type = INT_TYPE | DOUBLE_TYPE

datatype calc_out = Err_div | Err_rem | Err_number string | Err_oper

datatype 'd printed = Value 'd | Message calc_out

text \<open>The locals of \<open>calculator\<close> that live across tokens, and what was printed, last first.\<close>

record 'd calc =
  stack :: "'d stack"
  val :: 'd
  ctype :: Type
  cout :: "'d printed list"

section \<open>ops.c\<close>

definition ADD_F :: "'d fops \<Rightarrow> 'd \<Rightarrow> 'd \<Rightarrow> 'd" where "ADD_F fo val1 val2 = fadd fo val1 val2"
definition SUB_F :: "'d fops \<Rightarrow> 'd \<Rightarrow> 'd \<Rightarrow> 'd" where "SUB_F fo val1 val2 = fsub fo val1 val2"
definition MUL_F :: "'d fops \<Rightarrow> 'd \<Rightarrow> 'd \<Rightarrow> 'd" where "MUL_F fo val1 val2 = fmul fo val1 val2"
definition DIV_F :: "'d fops \<Rightarrow> 'd \<Rightarrow> 'd \<Rightarrow> 'd" where "DIV_F fo val1 val2 = fdiv fo val1 val2"

text \<open>
  \<open>val1 % val2\<close> on \<open>int\<close>: the result has the sign of the dividend; a zero divisor, and
  \<open>INT_MIN % -1\<close>, trap.
\<close>

definition REM_F :: "int \<Rightarrow> int \<Rightarrow> int run" where
  "REM_F val1 val2 =
     (if val2 = 0 \<or> (val1 = - (2 ^ 31) \<and> val2 = -1) then Fault DivByZero
      else Done (sgn val1 * (\<bar>val1\<bar> mod \<bar>val2\<bar>)))"

section \<open>getLine\<close>

abbreviation CALC_BUFSIZE :: nat where "CALC_BUFSIZE \<equiv> 512"

text \<open>
  The loop has \<open>n\<close> bytes left before \<open>size - 1\<close>. A byte 255 is EOF once it is stored in a
  \<open>char\<close>. When the loop ends because the buffer is full, \<open>buf[++i] = '\0'\<close> writes to
  \<open>buf[size]\<close>.
\<close>

fun getLine_from :: "nat \<Rightarrow> string \<Rightarrow> (string \<times> string) option run" where
  "getLine_from 0 cs = Fault OutOfBounds"
| "getLine_from (Suc n) [] = Done None"
| "getLine_from (Suc n) (c # cs) =
     (if c = CHR 0xFF then Done None
      else if c = NL then Done (Some ([NL], cs))
      else bind_run (getLine_from n cs) (\<lambda>r.
             Done (case r of None \<Rightarrow> None | Some (l, rest) \<Rightarrow> Some (c # l, rest))))"

definition getLine :: "string \<Rightarrow> (string \<times> string) option run" where
  "getLine cs = getLine_from (CALC_BUFSIZE - 1) cs"

section \<open>parseTok\<close>

text \<open>
  The loop over the bytes of a number: the type it leaves, and the message when it finds the
  number invalid. It stores the action RESET then, which the next statement overwrites.
\<close>

fun number_loop :: "string \<Rightarrow> nat \<Rightarrow> Type \<Rightarrow> bool \<times> Type" where
  "number_loop [] dot_cnt ty = (True, ty)"
| "number_loop (c # cs) dot_cnt ty =
     (if c = CHR ''.'' then number_loop cs (dot_cnt + 1) DOUBLE_TYPE
      else if dot_cnt > 1 \<or> (\<not> isdigit c \<and> c \<noteq> NL) then (False, INT_TYPE)
      else number_loop cs dot_cnt ty)"

definition byte_at :: "string \<Rightarrow> nat \<Rightarrow> char" where
  "byte_at s i = (if i < length s then s ! i else NUL)"

fun op_of_char :: "char \<Rightarrow> Op" where
  "op_of_char c =
     (if c = CHR ''+'' then ADD else if c = CHR ''-'' then SUB else if c = CHR ''*'' then MUL
      else if c = CHR ''/'' then DIV else if c = CHR ''%'' then REM else NONE)"

definition IS_OPER :: "char \<Rightarrow> bool" where
  "IS_OPER c \<longleftrightarrow> op_of_char c \<noteq> NONE"

definition parseTok :: "'d fops \<Rightarrow> string \<Rightarrow> 'd calc \<Rightarrow> Op \<times> 'd calc" where
  "parseTok fo buf st =
     (let isNegative = (byte_at buf 0 = CHR ''-'' \<and> isdigit (byte_at buf 1));
          buf = (if isNegative then tl buf else buf)
      in if isdigit (byte_at buf 0) then
           let (valid, ty) = number_loop buf 0 (ctype st);
               out = (if valid then cout st else Message (Err_number buf) # cout st);
               (v, err) = fstrtod fo buf;
               v2 = (if isNegative then fneg fo v else v)
           in (if err then FATAL_ERR else NUM,
               st\<lparr>val := v2, ctype := (if err then INT_TYPE else ty), cout := out\<rparr>)
         else if IS_OPER (byte_at buf 0) \<and> (byte_at buf 1 = NUL \<or> byte_at buf 1 = NL) then
           (op_of_char (byte_at buf 0), st)
         else
           (RESET, st\<lparr>ctype := INT_TYPE,
                      cout := (if byte_at buf 0 \<noteq> NL then Message Err_oper # cout st else cout st)\<rparr>))"

section \<open>calculator\<close>

text \<open>
  The functions \<open>push\<close> and \<open>pop\<close> are arguments: LAB_7 and LAB_8 call their own through the
  struct, LAB_9 those of the library it has loaded.
\<close>

type_synonym 'd push_fun = "'d stack \<Rightarrow> 'd \<Rightarrow> 'd stack"
type_synonym 'd pop_fun = "'d stack \<Rightarrow> 'd \<times> 'd stack"

text \<open>\<open>while (stack.POP() != EOS) ;\<close>, for a pop function that takes one value off.\<close>

fun reset_loop :: "'d fops \<Rightarrow> 'd pop_fun \<Rightarrow> nat \<Rightarrow> 'd stack \<Rightarrow> 'd stack run" where
  "reset_loop fo pp 0 s = Diverge"
| "reset_loop fo pp (Suc k) s =
     (let (x, s1) = pp s in if fis0 fo x then Done s1 else reset_loop fo pp k s1)"

datatype flow = Next | Try_again | Leave

definition do_reset :: "'d fops \<Rightarrow> 'd pop_fun \<Rightarrow> 'd calc \<Rightarrow> (flow \<times> 'd calc) run" where
  "do_reset fo pp st =
     bind_run (reset_loop fo pp (Suc (idx (stack st))) (stack st)) (\<lambda>s.
       Done (Try_again, st\<lparr>stack := s\<rparr>))"

definition exec_op :: "'d fops \<Rightarrow> 'd push_fun \<Rightarrow> 'd pop_fun \<Rightarrow> Op \<Rightarrow> 'd calc \<Rightarrow> (flow \<times> 'd calc) run" where
  "exec_op fo psh pp oper st =
     (if oper = NUM then Done (Next, st\<lparr>stack := psh (stack st) (val st)\<rparr>)
      else if oper = ADD \<or> oper = MUL then
        (let (val1, s1) = pp (stack st);
             (val2, s2) = pp s1;
             v = (if oper = ADD then ADD_F fo val1 val2 else MUL_F fo val1 val2)
         in Done (Next, st\<lparr>val := v, stack := psh s2 v\<rparr>))
      else if oper = SUB \<or> oper = DIV \<or> oper = REM then
        (let (val2, s1) = pp (stack st); st1 = st\<lparr>stack := s1\<rparr> in
         if oper = DIV \<and> fis0 fo val2 then
           do_reset fo pp (st1\<lparr>cout := Message Err_div # cout st1\<rparr>)
         else if oper = REM \<and> ctype st = DOUBLE_TYPE then
           do_reset fo pp (st1\<lparr>cout := Message Err_rem # cout st1\<rparr>)
         else
           let (val1, s2) = pp s1 in
           bind_run (if oper = SUB then Done (SUB_F fo val1 val2)
                     else if oper = DIV then Done (DIV_F fo val1 val2)
                     else case (fto_int fo val1, fto_int fo val2) of
                            (Some a, Some b) \<Rightarrow> bind_run (REM_F a b) (\<lambda>r. Done (fof_int fo r))
                          | _ \<Rightarrow> Fault OutOfBounds)
             (\<lambda>v. Done (Next, st1\<lparr>val := v, stack := psh s2 v\<rparr>)))
      else if oper = RESET then do_reset fo pp st
      else if oper = FATAL_ERR then Done (Leave, st)
      else Done (Next, st))"

fun run_tokens :: "'d fops \<Rightarrow> 'd push_fun \<Rightarrow> 'd pop_fun \<Rightarrow> string list \<Rightarrow> 'd calc \<Rightarrow> (flow \<times> 'd calc) run" where
  "run_tokens fo psh pp [] st = Done (Next, st)"
| "run_tokens fo psh pp (tok # toks) st =
     (let (oper, st1) = parseTok fo tok st in
      bind_run (exec_op fo psh pp oper st1) (\<lambda>(fl, st2).
        if fl = Next then run_tokens fo psh pp toks st2 else Done (fl, st2)))"

definition end_line :: "'d fops \<Rightarrow> 'd pop_fun \<Rightarrow> 'd calc \<Rightarrow> 'd calc" where
  "end_line fo pp st =
     (let st1 = (if idx (stack st) > 0 then
                   let (v, s) = pp (stack st) in st\<lparr>stack := s, val := v, cout := Value v # cout st\<rparr>
                 else st)
      in st1\<lparr>ctype := INT_TYPE, val := fzero fo\<rparr>)"

definition calc_tokens :: "string \<Rightarrow> string list" where
  "calc_tokens l = strtok_all (\<lambda>c. c = CHR '' '') (cstr l)"

text \<open>The body of the loop for one line, without the reading.\<close>

definition run_line :: "'d fops \<Rightarrow> 'd push_fun \<Rightarrow> 'd pop_fun \<Rightarrow> string \<Rightarrow> 'd calc \<Rightarrow> (bool \<times> 'd calc) run" where
  "run_line fo psh pp l st =
     bind_run (run_tokens fo psh pp (calc_tokens l) st) (\<lambda>(fl, st1).
       Done (fl = Leave, if fl = Next then end_line fo pp st1 else st1))"

lemma getLine_from_length: "getLine_from n cs = Done (Some (l, r)) \<Longrightarrow> length r < length cs"
  by (induction n cs arbitrary: l rule: getLine_from.induct)
    (fastforce split: if_splits option.splits)+

function calc_loop :: "'d fops \<Rightarrow> 'd push_fun \<Rightarrow> 'd pop_fun \<Rightarrow> string \<Rightarrow> 'd calc \<Rightarrow> (int \<times> 'd calc) run" where
  "calc_loop fo psh pp cs st =
     bind_run (getLine cs) (\<lambda>r.
       case r of
         None \<Rightarrow> Done (0, st)
       | Some (l, rest) \<Rightarrow>
           bind_run (run_line fo psh pp l st) (\<lambda>(leave, st1).
             if leave then Done (1, st1) else calc_loop fo psh pp rest st1))"
  by pat_completeness auto

termination
  by (relation "measure (\<lambda>(fo, psh, pp, cs, st). length cs)")
    (auto simp: getLine_def dest: getLine_from_length)

declare calc_loop.simps [simp del]

definition calc_start :: "'d fops \<Rightarrow> 'd calc" where
  "calc_start fo = \<lparr>stack = init_stack (fzero fo), val = fzero fo, ctype = INT_TYPE, cout = []\<rparr>"

definition calculator :: "'d fops \<Rightarrow> string \<Rightarrow> (int \<times> 'd calc) run" where
  "calculator fo inp = calc_loop fo push (pop (fzero fo)) inp (calc_start fo)"

section \<open>LAB_9: the library loaded at run time\<close>

text \<open>
  \<open>dlopen\<close> fails (\<open>None\<close>) or gives the symbols of the library; \<open>dlsym\<close> of a name gives a
  function or an error. The functions are looked up in the order of the code.
\<close>

record 'd lib =
  sym_init :: "('d stack) option"
  sym_push :: "'d push_fun option"
  sym_pop :: "'d pop_fun option"

definition calculator_dl :: "'d fops \<Rightarrow> 'd lib option \<Rightarrow> string \<Rightarrow> (int \<times> 'd calc option) run" where
  "calculator_dl fo dl inp =
     (case dl of
        None \<Rightarrow> Done (1, None)
      | Some lib \<Rightarrow>
          (case sym_init lib of
             None \<Rightarrow> Done (1, None)
           | Some s0 \<Rightarrow>
               (case sym_push lib of
                  None \<Rightarrow> Done (1, None)
                | Some psh \<Rightarrow>
                    (case sym_pop lib of
                       None \<Rightarrow> Done (1, None)
                     | Some pp \<Rightarrow>
                         bind_run (calc_loop fo psh pp inp
                                    \<lparr>stack = s0, val = fzero fo, ctype = INT_TYPE, cout = []\<rparr>)
                           (\<lambda>(s, st). Done (s, Some st))))))"

end
