(* ===== verification/Calc_Props.thy ===== *)
theory Calc_Props
  imports Calculator
begin

text \<open>
  The calculators against expressions: a line that is the postfix form of an expression prints
  its value, over any stack that keeps the promises of \<open>calc_stack\<close>. And what the error paths
  leave behind.
\<close>

section \<open>Lines and their tokens\<close>

fun join_sp :: "string list \<Rightarrow> string" where
  "join_sp [] = []"
| "join_sp [t] = t"
| "join_sp (t # u # ts) = t @ CHR '' '' # join_sp (u # ts)"

definition plain_tok :: "string \<Rightarrow> bool" where
  "plain_tok t \<longleftrightarrow> t \<noteq> [] \<and> CHR '' '' \<notin> set t \<and> NUL \<notin> set t \<and> NL \<notin> set t \<and> CHR 0xFF \<notin> set t"

lemma plain_tokD: "plain_tok t \<Longrightarrow> t \<noteq> []" "plain_tok t \<Longrightarrow> \<forall>c \<in> set t. c \<noteq> CHR '' ''"
  by (auto simp: plain_tok_def)

lemma join_sp_tokens:
  "ts \<noteq> [] \<Longrightarrow> \<forall>t \<in> set ts. plain_tok t \<Longrightarrow>
   strtok_all (\<lambda>c. c = CHR '' '') (join_sp ts @ [NL]) = butlast ts @ [last ts @ [NL]]"
proof (induction ts rule: join_sp.induct)
  case (2 t)
  then show ?case by (auto intro!: strtok_all_last simp: plain_tok_def)
next
  case (3 t u ts)
  let ?D = "\<lambda>c. c = CHR '' ''"
  have "strtok_all ?D (t @ CHR '' '' # (join_sp (u # ts) @ [NL])) = t # strtok_all ?D (join_sp (u # ts) @ [NL])"
    using 3(3) plain_tokD [of t] by (intro strtok_all_token) simp_all
  moreover have "strtok_all ?D (join_sp (u # ts) @ [NL]) = butlast (u # ts) @ [last (u # ts) @ [NL]]"
    using 3 by simp
  moreover have "join_sp (t # u # ts) @ [NL] = t @ CHR '' '' # (join_sp (u # ts) @ [NL])"
    by simp
  ultimately show ?case by (simp only: butlast.simps last.simps list.distinct if_False append.simps)
qed simp

lemma join_sp_chars: "c \<in> set (join_sp ts) \<Longrightarrow> c = CHR '' '' \<or> (\<exists>t \<in> set ts. c \<in> set t)"
  by (induction ts rule: join_sp.induct) auto

lemma join_sp_plain:
  "\<forall>t \<in> set ts. plain_tok t \<Longrightarrow> NUL \<notin> set (join_sp ts) \<and> NL \<notin> set (join_sp ts) \<and> CHR 0xFF \<notin> set (join_sp ts)"
  using join_sp_chars [of _ ts] by (fastforce simp: plain_tok_def)

lemma calc_tokens_line:
  assumes "ts \<noteq> []" "\<forall>t \<in> set ts. plain_tok t"
  shows "calc_tokens (join_sp ts @ [NL]) = butlast ts @ [last ts @ [NL]]"
proof -
  have "cstr (join_sp ts @ [NL]) = join_sp ts @ [NL]"
    using join_sp_plain [OF assms(2)] by (simp add: cstr_def takeWhile_eq_all_conv) metis
  then show ?thesis by (simp add: calc_tokens_def join_sp_tokens [OF assms])
qed

lemma getLine_from_line:
  "NL \<notin> set l \<Longrightarrow> CHR 0xFF \<notin> set l \<Longrightarrow> length l < n \<Longrightarrow>
   getLine_from n (l @ NL # r) = Done (Some (l @ [NL], r))"
proof (induction l arbitrary: n)
  case Nil
  then show ?case by (cases n) auto
next
  case (Cons c l)
  then show ?case by (cases n) auto
qed

lemma getLine_from_long:
  "NL \<notin> set l \<Longrightarrow> CHR 0xFF \<notin> set l \<Longrightarrow> n \<le> length l \<Longrightarrow> getLine_from n (l @ r) = Fault OutOfBounds"
proof (induction l arbitrary: n)
  case (Cons c l)
  then show ?case by (cases n) auto
qed simp

section \<open>Expressions\<close>

datatype expr = Lit string | Add expr expr | Sub expr expr | Mul expr expr | Div expr expr | Rem expr expr

fun rpn :: "expr \<Rightarrow> string list" where
  "rpn (Lit s) = [s]"
| "rpn (Add a b) = rpn a @ rpn b @ [''+'']"
| "rpn (Sub a b) = rpn a @ rpn b @ [''-'']"
| "rpn (Mul a b) = rpn a @ rpn b @ [''*'']"
| "rpn (Div a b) = rpn a @ rpn b @ [''/'']"
| "rpn (Rem a b) = rpn a @ rpn b @ [''%'']"

text \<open>A literal may have a minus sign in front of its digits; \<open>strtod\<close> gets what is behind the sign.\<close>

definition magnitude :: "string \<Rightarrow> string" where
  "magnitude s = (case s of [] \<Rightarrow> [] | c # cs \<Rightarrow> if c = CHR ''-'' then cs else s)"

definition lit_val :: "'d fops \<Rightarrow> string \<Rightarrow> 'd" where
  "lit_val fo s =
     (let v = fst (fstrtod fo (magnitude s)) in if s \<noteq> [] \<and> hd s = CHR ''-'' then fneg fo v else v)"

text \<open>
  The remainder of C on the two operands as integers, with the sign of the first; it is defined when
  both are in the range of \<open>int\<close>, the second is not zero and the quotient is in the range too.
\<close>

definition rem_ok :: "'d fops \<Rightarrow> 'd \<Rightarrow> 'd \<Rightarrow> bool" where
  "rem_ok fo x y = (case (fto_int fo x, fto_int fo y) of
     (Some a, Some b) \<Rightarrow> b \<noteq> 0 \<and> \<not> (a = - (2 ^ 31) \<and> b = -1) | _ \<Rightarrow> False)"

definition rem_val :: "'d fops \<Rightarrow> 'd \<Rightarrow> 'd \<Rightarrow> 'd" where
  "rem_val fo x y = (case (fto_int fo x, fto_int fo y) of
     (Some a, Some b) \<Rightarrow> fof_int fo (sgn a * (\<bar>a\<bar> mod \<bar>b\<bar>)) | _ \<Rightarrow> fzero fo)"

text \<open>The code adds and multiplies with the top of the stack as the first operand.\<close>

fun feval :: "'d fops \<Rightarrow> expr \<Rightarrow> 'd" where
  "feval fo (Lit s) = lit_val fo s"
| "feval fo (Add a b) = fadd fo (feval fo b) (feval fo a)"
| "feval fo (Sub a b) = fsub fo (feval fo a) (feval fo b)"
| "feval fo (Mul a b) = fmul fo (feval fo b) (feval fo a)"
| "feval fo (Div a b) = fdiv fo (feval fo a) (feval fo b)"
| "feval fo (Rem a b) = rem_val fo (feval fo a) (feval fo b)"

fun need :: "expr \<Rightarrow> nat" where
  "need (Lit s) = 1"
| "need (Add a b) = max (need a) (need b + 1)"
| "need (Sub a b) = max (need a) (need b + 1)"
| "need (Mul a b) = max (need a) (need b + 1)"
| "need (Div a b) = max (need a) (need b + 1)"
| "need (Rem a b) = max (need a) (need b + 1)"

text \<open>Digits with at most one point, and an optional minus sign in front.\<close>

definition literal :: "string \<Rightarrow> bool" where
  "literal s \<longleftrightarrow> (let m = magnitude s in m \<noteq> [] \<and> isdigit (hd m) \<and>
     (\<forall>c \<in> set m. isdigit c \<or> c = CHR ''.'') \<and> length (filter (\<lambda>c. c = CHR ''.'') m) \<le> 1)"

text \<open>
  \<open>strtod\<close> reads the digits of a literal without an error, and stops at the newline that follows them
  on a line.
\<close>

definition reads_ok :: "'d fops \<Rightarrow> string \<Rightarrow> bool" where
  "reads_ok fo s \<longleftrightarrow> (let m = magnitude s in \<not> snd (fstrtod fo m) \<and> fstrtod fo (m @ [NL]) = fstrtod fo m)"

text \<open>
  An expression without a division by zero. The flag says that the line is one of integers: none of
  its literals has a point, and only then it may have remainders.
\<close>

fun expr_ok :: "'d fops \<Rightarrow> bool \<Rightarrow> expr \<Rightarrow> bool" where
  "expr_ok fo i (Lit s) = (literal s \<and> reads_ok fo s \<and> (i \<longrightarrow> CHR ''.'' \<notin> set s))"
| "expr_ok fo i (Add a b) = (expr_ok fo i a \<and> expr_ok fo i b)"
| "expr_ok fo i (Sub a b) = (expr_ok fo i a \<and> expr_ok fo i b)"
| "expr_ok fo i (Mul a b) = (expr_ok fo i a \<and> expr_ok fo i b)"
| "expr_ok fo i (Div a b) = (expr_ok fo i a \<and> expr_ok fo i b \<and> \<not> fis0 fo (feval fo b))"
| "expr_ok fo i (Rem a b) = (i \<and> expr_ok fo i a \<and> expr_ok fo i b \<and> rem_ok fo (feval fo a) (feval fo b))"

definition op_tok :: "string \<Rightarrow> bool" where
  "op_tok t \<longleftrightarrow> t \<in> {''+'', ''-'', ''*'', ''/'', ''%''}"

lemma op_tok_simps [simp]: "op_tok ''+''" "op_tok ''-''" "op_tok ''*''" "op_tok ''/''" "op_tok ''%''"
  by (simp_all add: op_tok_def)

lemma isdigit_consts [simp]: "isdigit CHR '' '' = False" "isdigit NUL = False" "isdigit NL = False"
  "isdigit CHR 0xFF = False" "isdigit CHR ''+'' = False" "isdigit CHR ''-'' = False"
  "isdigit CHR ''*'' = False" "isdigit CHR ''/'' = False" "isdigit CHR ''%'' = False"
  by (simp_all add: isdigit_def)

lemma magnitude_cases:
  assumes "literal s"
  obtains (pos) "magnitude s = s" "isdigit (hd s)" "lit_val fo s = fst (fstrtod fo s)"
    | (neg) m where "s = CHR ''-'' # m" "magnitude s = m" "isdigit (hd m)" "lit_val fo s = fneg fo (fst (fstrtod fo m))"
proof (cases "s \<noteq> [] \<and> hd s = CHR ''-''")
  case True
  then obtain m where "s = CHR ''-'' # m" by (cases s) auto
  then show thesis using neg assms by (simp add: magnitude_def literal_def lit_val_def Let_def)
next
  case False
  then have "magnitude s = s" by (cases s) (auto simp: magnitude_def)
  then show thesis using pos False assms by (auto simp: literal_def lit_val_def Let_def)
qed

lemma literal_magnitude:
  assumes "literal s"
  shows "magnitude s \<noteq> []" "\<forall>c \<in> set (magnitude s). isdigit c \<or> c = CHR ''.''"
    "length (filter (\<lambda>c. c = CHR ''.'') (magnitude s)) \<le> 1" "isdigit (hd (magnitude s))"
  using assms by (simp_all add: literal_def Let_def)

lemma set_magnitude: "set s \<subseteq> insert (CHR ''-'') (set (magnitude s))"
  by (cases s) (auto simp: magnitude_def)

lemma literal_plain:
  assumes "literal s"
  shows "plain_tok s"
proof -
  have "isdigit c \<or> c = CHR ''.'' \<or> c = CHR ''-''" if "c \<in> set s" for c
    using literal_magnitude(2) [OF assms] set_magnitude [of s] that by blast
  moreover have "s \<noteq> []" using literal_magnitude(1) [OF assms] by (auto simp: magnitude_def)
  ultimately show ?thesis unfolding plain_tok_def by (intro conjI notI) force+
qed

lemma op_plain: "op_tok t \<Longrightarrow> plain_tok t"
  by (auto simp: op_tok_def plain_tok_def)

lemma rpn_toks_all: "expr_ok fo i e \<Longrightarrow> \<forall>t \<in> set (rpn e). (literal t \<and> reads_ok fo t) \<or> op_tok t"
  by (cases i; induction e) (simp_all add: ball_Un)

lemma rpn_toks: "expr_ok fo i e \<Longrightarrow> t \<in> set (rpn e) \<Longrightarrow> (literal t \<and> reads_ok fo t) \<or> op_tok t"
  using rpn_toks_all by blast

lemma rpn_ne [simp]: "rpn e \<noteq> []"
  by (cases e) auto

lemma rpn_plain: "expr_ok fo i e \<Longrightarrow> \<forall>t \<in> set (rpn e). plain_tok t"
  using rpn_toks literal_plain op_plain by blast

section \<open>parseTok on numbers and operators\<close>

lemma number_loop_ok:
  "\<forall>c \<in> set s. isdigit c \<or> c = CHR ''.'' \<or> c = NL \<Longrightarrow>
   length (filter (\<lambda>c. c = CHR ''.'') s) + d \<le> 1 \<Longrightarrow>
   fst (number_loop s d ty) \<and> (CHR ''.'' \<notin> set s \<longrightarrow> snd (number_loop s d ty) = ty)"
  by (induction s arbitrary: d ty) auto

lemma not_neg_digit: "isdigit c \<Longrightarrow> c \<noteq> CHR ''-''"
  by (auto simp: isdigit_def)

lemma parseTok_literal:
  assumes "literal s" "reads_ok fo s" "t = s \<or> t = s @ [NL]"
  obtains ty where "parseTok fo t st = (NUM, st\<lparr>val := lit_val fo s, ctype := ty\<rparr>)"
    "CHR ''.'' \<notin> set s \<Longrightarrow> ty = ctype st"
proof -
  define m where "m = magnitude s"
  define u where "u = (if t = s then m else m @ [NL])"
  note l = literal_magnitude [OF assms(1), folded m_def]
  obtain v ty where nl: "number_loop u 0 (ctype st) = (v, ty)" by (cases "number_loop u 0 (ctype st)")
  have c: "\<forall>c \<in> set u. isdigit c \<or> c = CHR ''.'' \<or> c = NL" "length (filter (\<lambda>c. c = CHR ''.'') u) + 0 \<le> 1"
    using l by (auto simp: u_def)
  have dots: "CHR ''.'' \<notin> set u" if "CHR ''.'' \<notin> set s"
    using that by (auto simp: u_def m_def magnitude_def split: list.splits if_splits)
  have v: "v" "CHR ''.'' \<notin> set s \<Longrightarrow> ty = ctype st"
    using number_loop_ok [OF c, of "ctype st"] nl dots by simp_all
  have f: "fstrtod fo u = (fst (fstrtod fo m), False)"
    using assms(2) by (auto simp: reads_ok_def prod_eq_iff u_def m_def Let_def)
  have b: "byte_at u 0 = hd m" using l(1) by (auto simp: byte_at_def u_def hd_conv_nth nth_append)
  have "parseTok fo t st = (NUM, st\<lparr>val := lit_val fo s, ctype := ty\<rparr>)"
    using assms(1)
  proof (cases rule: magnitude_cases [of s fo])
    case pos
    then have "u = t" "hd s \<noteq> CHR ''-''" using assms(3) not_neg_digit by (auto simp: u_def m_def)
    then show ?thesis using pos b f nl v(1) by (simp add: parseTok_def Let_def m_def)
  next
    case (neg m')
    then have "t = CHR ''-'' # u" using assms(3) by (auto simp: u_def m_def)
    moreover have "byte_at (CHR ''-'' # u) 0 = CHR ''-''" "byte_at (CHR ''-'' # u) 1 = byte_at u 0"
      by (simp_all add: byte_at_def)
    ultimately show ?thesis using neg b f nl v(1) by (simp add: parseTok_def Let_def m_def)
  qed
  then show thesis using that v(2) by blast
qed

lemma op_tok_char:
  assumes "op_tok t"
  obtains c where "t = [c]" "IS_OPER c" "\<not> isdigit c"
proof -
  have o: "IS_OPER CHR ''+''" "IS_OPER CHR ''-''" "IS_OPER CHR ''*''" "IS_OPER CHR ''/''" "IS_OPER CHR ''%''"
    by (simp_all add: IS_OPER_def)
  from assms consider "t = ''+''" | "t = ''-''" | "t = ''*''" | "t = ''/''" | "t = ''%''" by (auto simp: op_tok_def)
  then show thesis by cases (use o in \<open>auto intro: that\<close>)
qed

lemma parseTok_op:
  assumes "op_tok t" "u = t \<or> u = t @ [NL]"
  shows "parseTok fo u st = (op_of_char (hd t), st)"
proof -
  obtain c where c: "t = [c]" "IS_OPER c" "\<not> isdigit c" by (rule op_tok_char [OF assms(1)])
  have b: "byte_at u 0 = c" "byte_at u 1 = NUL \<or> byte_at u 1 = NL"
    using assms(2) c(1) by (auto simp: byte_at_def)
  then have "\<not> isdigit (byte_at u 1)" by (auto simp: isdigit_def)
  then show ?thesis using b c by (simp add: parseTok_def Let_def del: op_of_char.simps)
qed

lemma parseTok_newline:
  assumes "(literal t \<and> reads_ok fo t) \<or> op_tok t"
  shows "\<exists>op st1 st2. parseTok fo t st = (op, st1) \<and> parseTok fo (t @ [NL]) st = (op, st2) \<and>
     stack st2 = stack st1 \<and> val st2 = val st1 \<and> cout st2 = cout st1"
  using assms
proof
  assume l: "literal t \<and> reads_ok fo t"
  obtain ty where "parseTok fo t st = (NUM, st\<lparr>val := lit_val fo t, ctype := ty\<rparr>)"
    using l by (elim conjE parseTok_literal [of t fo t st]) auto
  moreover obtain ty2 where "parseTok fo (t @ [NL]) st = (NUM, st\<lparr>val := lit_val fo t, ctype := ty2\<rparr>)"
    using l by (elim conjE parseTok_literal [of t fo "t @ [NL]" st]) auto
  ultimately show ?thesis by simp
next
  assume "op_tok t"
  then show ?thesis using parseTok_op [of t _ fo st] by blast
qed

section \<open>Running the tokens of an expression\<close>

abbreviation good_stack :: "'d fops \<Rightarrow> 'd push_fun \<Rightarrow> 'd pop_fun \<Rightarrow> bool" where
  "good_stack fo psh pp \<equiv> calc_stack psh pp content stack_wf ARRAYSIZE (fzero fo)"

lemma run_literal:
  assumes I: "good_stack fo psh pp" and l: "literal s" "reads_ok fo s" "t = s \<or> t = s @ [NL]"
    and w: "stack_wf (stack st)" "length (content (stack st)) < ARRAYSIZE"
  shows "\<exists>st'. run_tokens fo psh pp (t # ts) st = run_tokens fo psh pp ts st' \<and> stack_wf (stack st') \<and>
     content (stack st') = lit_val fo s # content (stack st) \<and> cout st' = cout st \<and>
     (CHR ''.'' \<notin> set s \<longrightarrow> ctype st' = ctype st)"
proof -
  obtain ty where "parseTok fo t st = (NUM, st\<lparr>val := lit_val fo s, ctype := ty\<rparr>)"
    "CHR ''.'' \<notin> set s \<Longrightarrow> ty = ctype st"
    using parseTok_literal [OF l] by blast
  then show ?thesis
    using calc_stack.push_wf [OF I w(1)] calc_stack.push_content [OF I w(1)] w(2)
    by (auto simp: exec_op_def)
qed

fun op_fun :: "'d fops \<Rightarrow> string \<Rightarrow> 'd \<Rightarrow> 'd \<Rightarrow> 'd" where
  "op_fun fo t x y =
     (if t = ''+'' then fadd fo y x else if t = ''-'' then fsub fo x y
      else if t = ''*'' then fmul fo y x else if t = ''/'' then fdiv fo x y else rem_val fo x y)"

lemma rem_run:
  "rem_ok fo x y \<Longrightarrow> (case (fto_int fo x, fto_int fo y) of
     (Some a, Some b) \<Rightarrow> bind_run (REM_F a b) (\<lambda>r. Done (fof_int fo r)) | _ \<Rightarrow> Fault OutOfBounds) = Done (rem_val fo x y)"
  by (auto simp: rem_ok_def rem_val_def REM_F_def split: option.splits)

text \<open>What the division and the remainder need of their operands.\<close>

definition op_ok :: "'d fops \<Rightarrow> bool \<Rightarrow> string \<Rightarrow> 'd \<Rightarrow> 'd \<Rightarrow> bool" where
  "op_ok fo i t x y \<longleftrightarrow> op_tok t \<and> (t = ''/'' \<longrightarrow> \<not> fis0 fo y) \<and> (t = ''%'' \<longrightarrow> i \<and> rem_ok fo x y)"

lemma run_binop:
  assumes I: "good_stack fo psh pp" and t: "op_ok fo i t x y" "u = t \<or> u = t @ [NL]"
    and w: "stack_wf (stack st)" "content (stack st) = y # x # xs" and i: "i \<longrightarrow> ctype st = INT_TYPE"
  shows "\<exists>st'. run_tokens fo psh pp (u # ts) st = run_tokens fo psh pp ts st' \<and> stack_wf (stack st') \<and>
     content (stack st') = op_fun fo t x y # xs \<and> cout st' = cout st \<and> ctype st' = ctype st"
proof -
  let ?s = "stack st"
  have o: "op_tok t" using t(1) by (simp add: op_ok_def)
  note b = calc_stack.binary [OF I w]
  obtain s1 where p1: "pp ?s = (y, s1)" using b(1) by (cases "pp ?s") auto
  obtain s2 where p2: "pp s1 = (x, s2)" using b(2) p1 by (cases "pp s1") auto
  have c: "content (psh s2 v) = v # xs" "stack_wf (psh s2 v)" for v using b(3,4) [of v] p1 p2 by simp_all
  note pt = parseTok_op [OF o t(2), of fo st]
  from o consider "t = ''+''" | "t = ''-''" | "t = ''*''" | "t = ''/''" | "t = ''%''" by (auto simp: op_tok_def)
  then have "run_tokens fo psh pp (u # ts) st =
      run_tokens fo psh pp ts (st\<lparr>val := op_fun fo t x y, stack := psh s2 (op_fun fo t x y)\<rparr>)"
  proof cases
    case 5
    then show ?thesis using t(1) i rem_run [of fo x y]
      by (simp add: pt exec_op_def p1 p2 Let_def op_ok_def)
  qed (use t(1) in \<open>simp_all add: op_ok_def pt exec_op_def p1 p2 Let_def ADD_F_def SUB_F_def MUL_F_def DIV_F_def\<close>)
  then show ?thesis using c
    by (intro exI [of _ "st\<lparr>val := op_fun fo t x y, stack := psh s2 (op_fun fo t x y)\<rparr>"])
      (simp del: op_fun.simps run_tokens.simps)
qed

text \<open>\<open>yields\<close>: the tokens put a value on the stack, and the line stays one of integers.\<close>

definition yields :: "'d fops \<Rightarrow> 'd push_fun \<Rightarrow> 'd pop_fun \<Rightarrow> bool \<Rightarrow> string list \<Rightarrow> 'd \<Rightarrow> nat \<Rightarrow> bool" where
  "yields fo psh pp i toks v k \<longleftrightarrow> (\<forall>st ts. stack_wf (stack st) \<longrightarrow> length (content (stack st)) + k \<le> ARRAYSIZE \<longrightarrow>
     (i \<longrightarrow> ctype st = INT_TYPE) \<longrightarrow>
     (\<exists>st'. run_tokens fo psh pp (toks @ ts) st = run_tokens fo psh pp ts st' \<and> stack_wf (stack st') \<and>
       content (stack st') = v # content (stack st) \<and> cout st' = cout st \<and> (i \<longrightarrow> ctype st' = INT_TYPE)))"

lemma yieldsD:
  assumes "yields fo psh pp i toks v k" "stack_wf (stack st)" "length (content (stack st)) + k \<le> ARRAYSIZE"
    "i \<longrightarrow> ctype st = INT_TYPE"
  obtains st' where "run_tokens fo psh pp (toks @ ts) st = run_tokens fo psh pp ts st'" "stack_wf (stack st')"
    "content (stack st') = v # content (stack st)" "cout st' = cout st" "i \<longrightarrow> ctype st' = INT_TYPE"
  using assms unfolding yields_def by blast

lemma yields_op:
  assumes I: "good_stack fo psh pp" and a: "yields fo psh pp i as x k" and b: "yields fo psh pp i bs y l"
    and t: "op_ok fo i t x y"
  shows "yields fo psh pp i (as @ bs @ [t]) (op_fun fo t x y) (max k (l + 1))"
  unfolding yields_def
proof (intro allI impI)
  fix st :: "'a calc" and ts
  assume w: "stack_wf (stack st)" "length (content (stack st)) + max k (l + 1) \<le> ARRAYSIZE" "i \<longrightarrow> ctype st = INT_TYPE"
  then have n: "length (content (stack st)) + k \<le> ARRAYSIZE" "length (content (stack st)) + l + 1 \<le> ARRAYSIZE"
    by (simp_all add: max_def split: if_splits)
  obtain s1 where s1: "run_tokens fo psh pp (as @ (bs @ [t] @ ts)) st = run_tokens fo psh pp (bs @ [t] @ ts) s1"
    "stack_wf (stack s1)" "content (stack s1) = x # content (stack st)" "cout s1 = cout st" "i \<longrightarrow> ctype s1 = INT_TYPE"
    using yieldsD [OF a w(1) n(1) w(3)] by blast
  have n1: "length (content (stack s1)) + l \<le> ARRAYSIZE" using n(2) s1(3) by simp
  obtain s2 where s2: "run_tokens fo psh pp (bs @ ([t] @ ts)) s1 = run_tokens fo psh pp ([t] @ ts) s2"
    "stack_wf (stack s2)" "content (stack s2) = y # x # content (stack st)" "cout s2 = cout st" "i \<longrightarrow> ctype s2 = INT_TYPE"
    using yieldsD [OF b s1(2) n1 s1(5)] s1(3,4) by metis
  obtain s3 where "run_tokens fo psh pp (t # ts) s2 = run_tokens fo psh pp ts s3" "stack_wf (stack s3)"
    "content (stack s3) = op_fun fo t x y # content (stack st)" "cout s3 = cout s2" "ctype s3 = ctype s2"
    using run_binop [OF I t disjI1 [OF refl] s2(2,3,5)] by blast
  then show "\<exists>st'. run_tokens fo psh pp ((as @ bs @ [t]) @ ts) st = run_tokens fo psh pp ts st' \<and> stack_wf (stack st') \<and>
       content (stack st') = op_fun fo t x y # content (stack st) \<and> cout st' = cout st \<and> (i \<longrightarrow> ctype st' = INT_TYPE)"
    using s1(1) s2(1,4,5) by (intro exI [of _ s3]) (simp del: op_fun.simps run_tokens.simps)
qed

lemma run_rpn:
  assumes I: "good_stack fo psh pp"
  shows "expr_ok fo i e \<Longrightarrow> yields fo psh pp i (rpn e) (feval fo e) (need e)"
proof (induction e)
  case (Lit s)
  show ?case
    unfolding yields_def
  proof (intro allI impI)
    fix st :: "'a calc" and ts
    assume w: "stack_wf (stack st)" "length (content (stack st)) + need (Lit s) \<le> ARRAYSIZE" "i \<longrightarrow> ctype st = INT_TYPE"
    then have "length (content (stack st)) < ARRAYSIZE" by simp
    from run_literal [OF I _ _ disjI1 [OF refl] w(1) this, of s ts]
    show "\<exists>st'. run_tokens fo psh pp (rpn (Lit s) @ ts) st = run_tokens fo psh pp ts st' \<and> stack_wf (stack st') \<and>
       content (stack st') = feval fo (Lit s) # content (stack st) \<and> cout st' = cout st \<and> (i \<longrightarrow> ctype st' = INT_TYPE)"
      using Lit w(3) by auto
  qed
next
  case (Add a b)
  then show ?case using yields_op [OF I, of i "rpn a" _ _ "rpn b" _ _ "''+''"] by (simp add: op_ok_def)
next
  case (Sub a b)
  then show ?case using yields_op [OF I, of i "rpn a" _ _ "rpn b" _ _ "''-''"] by (simp add: op_ok_def)
next
  case (Mul a b)
  then show ?case using yields_op [OF I, of i "rpn a" _ _ "rpn b" _ _ "''*''"] by (simp add: op_ok_def)
next
  case (Div a b)
  then show ?case using yields_op [OF I, of i "rpn a" _ _ "rpn b" _ _ "''/''"] by (simp add: op_ok_def)
next
  case (Rem a b)
  have p: "i" "expr_ok fo i a" "expr_ok fo i b" "rem_ok fo (feval fo a) (feval fo b)"
    using Rem.prems unfolding expr_ok.simps by blast+
  show ?case
    using yields_op [OF I Rem.IH(1) [OF p(2)] Rem.IH(2) [OF p(3)], of "''%''"] p(1,4) by (simp add: op_ok_def)
qed

section \<open>A line with an expression\<close>

lemma run_tokens_append:
  "run_tokens fo psh pp (xs @ ys) st =
     bind_run (run_tokens fo psh pp xs st) (\<lambda>(fl, s). if fl = Next then run_tokens fo psh pp ys s else Done (fl, s))"
proof (induction xs arbitrary: st)
  case (Cons t xs)
  obtain op st1 where p: "parseTok fo t st = (op, st1)" by (cases "parseTok fo t st")
  show ?case
    using Cons by (cases "exec_op fo psh pp op st1") (auto simp: p split: prod.splits)
qed simp

text \<open>The newline at the end of the last token changes nothing that is used later.\<close>

lemma run_last_newline:
  assumes t: "(literal t \<and> reads_ok fo t) \<or> op_tok t"
    and r: "run_tokens fo psh pp [t] st = Done (Next, st1)"
  shows "\<exists>st2. run_tokens fo psh pp [t @ [NL]] st = Done (Next, st2) \<and> stack st2 = stack st1 \<and> cout st2 = cout st1"
  using t
proof
  assume l: "literal t \<and> reads_ok fo t"
  obtain ty where 1: "parseTok fo t st = (NUM, st\<lparr>val := lit_val fo t, ctype := ty\<rparr>)"
    using l by (elim conjE parseTok_literal [of t fo t st]) auto
  obtain ty2 where 2: "parseTok fo (t @ [NL]) st = (NUM, st\<lparr>val := lit_val fo t, ctype := ty2\<rparr>)"
    using l by (elim conjE parseTok_literal [of t fo "t @ [NL]" st]) auto
  show ?thesis using r by (auto simp: 1 2 exec_op_def)
next
  assume o: "op_tok t"
  have "parseTok fo (t @ [NL]) st = parseTok fo t st"
    using parseTok_op [OF o, of t fo st] parseTok_op [OF o, of "t @ [NL]" fo st] by simp
  then show ?thesis using r by simp
qed

definition expr_line :: "expr \<Rightarrow> string" where
  "expr_line e = join_sp (rpn e) @ [NL]"

lemma run_expr_line:
  assumes I: "good_stack fo psh pp" and e: "expr_ok fo i e" "need e \<le> ARRAYSIZE"
    and st: "stack_wf (stack st)" "content (stack st) = []" "ctype st = INT_TYPE"
  shows "\<exists>st'. run_line fo psh pp (expr_line e) st = Done (False, st') \<and> stack_wf (stack st') \<and>
     content (stack st') = [] \<and> cout st' = Value (feval fo e) # cout st \<and> ctype st' = INT_TYPE"
proof -
  obtain ts t where r: "rpn e = ts @ [t]" by (metis rpn_ne append_butlast_last_id)
  have t: "(literal t \<and> reads_ok fo t) \<or> op_tok t" using rpn_toks [OF e(1), of t] r by simp
  obtain s1 where s1: "run_tokens fo psh pp (ts @ [t]) st = Done (Next, s1)" "stack_wf (stack s1)"
    "content (stack s1) = [feval fo e]" "cout s1 = cout st"
    using yieldsD [OF run_rpn [OF I e(1)] st(1), of "[]"] e(2) st(2,3) r by auto
  then obtain s0 where s0: "run_tokens fo psh pp ts st = Done (Next, s0)" "run_tokens fo psh pp [t] s0 = Done (Next, s1)"
    by (auto simp: run_tokens_append split: if_splits simp del: run_tokens.simps)
  obtain s2 where s2: "run_tokens fo psh pp [t @ [NL]] s0 = Done (Next, s2)" "stack s2 = stack s1" "cout s2 = cout s1"
    using run_last_newline [OF t s0(2)] by blast
  have run: "run_tokens fo psh pp (calc_tokens (expr_line e)) st = Done (Next, s2)"
    using calc_tokens_line [OF rpn_ne rpn_plain [OF e(1)]] r s0(1) s2(1)
    by (simp add: expr_line_def run_tokens_append del: run_tokens.simps)
  have c: "stack_wf (stack s2)" "content (stack s2) = [feval fo e]" using s1 s2 by simp_all
  have i: "idx (stack s2) > 0" using length_content [OF c(1)] c(2) by simp
  obtain s3 where p: "pp (stack s2) = (feval fo e, s3)"
    using calc_stack.pop_content [OF I c] by (cases "pp (stack s2)") auto
  have "content s3 = []" "stack_wf s3"
    using calc_stack.pop_content [OF I c] calc_stack.pop_wf [OF I c(1)] p by simp_all
  then show ?thesis using run i p s2(3) s1(4) by (simp add: run_line_def end_line_def del: run_tokens.simps)
qed

definition short_line :: "expr \<Rightarrow> bool" where
  "short_line e \<longleftrightarrow> length (expr_line e) \<le> 511"

lemma getLine_expr:
  assumes "expr_ok fo i e" "short_line e"
  shows "getLine (expr_line e @ r) = Done (Some (expr_line e, r))"
proof -
  have "NL \<notin> set (join_sp (rpn e))" "CHR 0xFF \<notin> set (join_sp (rpn e))"
    using join_sp_plain [OF rpn_plain [OF assms(1)]] by simp_all
  then show ?thesis
    using assms(2) getLine_from_line [of "join_sp (rpn e)" "CALC_BUFSIZE - 1" r]
    by (simp add: getLine_def expr_line_def short_line_def)
qed

lemma calc_loop_exprs:
  assumes I: "good_stack fo psh pp"
  shows "\<forall>e \<in> set es. (\<exists>i. expr_ok fo i e) \<and> need e \<le> ARRAYSIZE \<and> short_line e \<Longrightarrow>
    stack_wf (stack st) \<Longrightarrow> content (stack st) = [] \<Longrightarrow> ctype st = INT_TYPE \<Longrightarrow>
    \<exists>st'. calc_loop fo psh pp (concat (map expr_line es)) st = Done (0, st') \<and>
       cout st' = rev (map (\<lambda>e. Value (feval fo e)) es) @ cout st"
proof (induction es arbitrary: st)
  case Nil
  then show ?case by (simp add: calc_loop.simps [of fo psh pp] getLine_def numeral_eq_Suc)
next
  case (Cons e es)
  obtain i where i: "expr_ok fo i e" "short_line e" "need e \<le> ARRAYSIZE" using Cons.prems(1) by auto
  obtain s1 where s1: "run_line fo psh pp (expr_line e) st = Done (False, s1)" "stack_wf (stack s1)"
    "content (stack s1) = []" "cout s1 = Value (feval fo e) # cout st" "ctype s1 = INT_TYPE"
    using run_expr_line [OF I i(1,3) Cons.prems(2-4)] by blast
  have "calc_loop fo psh pp (concat (map expr_line (e # es))) st = calc_loop fo psh pp (concat (map expr_line es)) s1"
    using getLine_expr [OF i(1,2), of "concat (map expr_line es)"] s1(1)
    by (subst calc_loop.simps) simp
  then show ?case using Cons.IH [OF _ s1(2,3,5)] Cons.prems(1) s1(4) by auto
qed

section \<open>The reset\<close>

lemma reset_loop_spec:
  assumes I: "good_stack fo psh pp" and z: "fis0 fo (fzero fo)"
  shows "stack_wf s \<Longrightarrow> length (content s) < k \<Longrightarrow>
    \<exists>s'. reset_loop fo pp k s = Done s' \<and> stack_wf s' \<and>
      content s' = tl (dropWhile (\<lambda>x. \<not> fis0 fo x) (content s))"
proof (induction k arbitrary: s)
  case 0
  then show ?case by simp
next
  case (Suc k)
  obtain x s1 where p: "pp s = (x, s1)" by (cases "pp s")
  have t: "content s1 = tl (content s)" "stack_wf s1" "x = (case content s of [] \<Rightarrow> fzero fo | y # _ \<Rightarrow> y)"
    using calc_stack.pop_tl [OF I Suc.prems(1)] calc_stack.pop_hd [OF I Suc.prems(1)] p by simp_all
  show ?case
  proof (cases "fis0 fo x")
    case True
    then show ?thesis using p t z by (cases "content s") (auto split: if_splits)
  next
    case False
    then obtain y ys where c: "content s = y # ys" using t(3) z by (cases "content s") auto
    have "length (content s1) < k" using c t(1) Suc.prems(2) by simp
    from Suc.IH [OF t(2) this] show ?thesis using p False t(1,3) c by simp
  qed
qed

lemma do_reset_spec:
  assumes I: "good_stack fo psh pp" and z: "fis0 fo (fzero fo)" and w: "stack_wf (stack st)"
  shows "\<exists>s'. do_reset fo pp st = Done (Try_again, st\<lparr>stack := s'\<rparr>) \<and> stack_wf s' \<and>
      content s' = tl (dropWhile (\<lambda>x. \<not> fis0 fo x) (content (stack st)))"
  using reset_loop_spec [OF I z w, of "Suc (idx (stack st))"] length_content [OF w]
  by (auto simp: do_reset_def simp del: reset_loop.simps)

lemmas own_stack = cs.calc_stack_axioms

lemma rem_line_tokens: "calc_tokens (''7 2 %'' @ [NL]) = [''7'', ''2'', ''%'' @ [NL]]"
  "calc_tokens (''2.5 2 %'' @ [NL]) = [''2.5'', ''2'', ''%'' @ [NL]]"
  "calc_tokens (''5 0 %'' @ [NL]) = [''5'', ''0'', ''%'' @ [NL]]"
  using calc_tokens_line [of "[''7'', ''2'', ''%'']"] calc_tokens_line [of "[''2.5'', ''2'', ''%'']"]
    calc_tokens_line [of "[''5'', ''0'', ''%'']"]
  by (simp_all add: plain_tok_def)

lemma parse_rem: "parseTok fo (''%'' @ [NL]) st = (REM, st)"
  by (simp add: parseTok_def byte_at_def IS_OPER_def)

lemma rem_double_line:
  assumes z: "fis0 fo (fzero fo)" and e: "\<forall>s. \<not> snd (fstrtod fo s)" and w: "stack_wf (stack st)"
    and toks: "calc_tokens l = [a, b, ''%'' @ [NL]]"
    and p: "\<And>st. \<exists>v. parseTok fo a st = (NUM, st\<lparr>val := v, ctype := if d then DOUBLE_TYPE else ctype st\<rparr>)"
      "\<And>st. \<exists>v. parseTok fo b st = (NUM, st\<lparr>val := v\<rparr>)"
    and t: "d \<or> ctype st = DOUBLE_TYPE"
  shows "\<exists>st'. run_line fo push (pop (fzero fo)) l st = Done (False, st') \<and> stack_wf (stack st') \<and>
     ctype st' = DOUBLE_TYPE \<and> cout st' = Message Err_rem # cout st"
proof -
  let ?pp = "pop (fzero fo)"
  obtain v where v: "parseTok fo a st = (NUM, st\<lparr>val := v, ctype := if d then DOUBLE_TYPE else ctype st\<rparr>)"
    using p(1) by blast
  define st1 where "st1 = st\<lparr>val := v, ctype := DOUBLE_TYPE, stack := push (stack st) v\<rparr>"
  obtain u where u: "parseTok fo b st1 = (NUM, st1\<lparr>val := u\<rparr>)" using p(2) by blast
  define st2 where "st2 = st1\<lparr>val := u, stack := push (stack st1) u\<rparr>"
  have w2: "stack_wf (stack st2)" using w by (simp add: st2_def st1_def cs.push_wf)
  obtain y s3 where y: "?pp (stack st2) = (y, s3)" by (cases "?pp (stack st2)")
  have w3: "stack_wf s3" using cs.pop_wf [OF w2, of "fzero fo"] y by simp
  obtain s4 where s4: "do_reset fo ?pp (st2\<lparr>stack := s3, cout := Message Err_rem # cout st2\<rparr>) =
      Done (Try_again, st2\<lparr>cout := Message Err_rem # cout st2, stack := s4\<rparr>)" "stack_wf s4"
    using do_reset_spec [OF own_stack z, of "st2\<lparr>stack := s3, cout := Message Err_rem # cout st2\<rparr>"] w3 by auto
  have d2: "ctype st2 = DOUBLE_TYPE" by (simp add: st2_def st1_def)
  have "exec_op fo push ?pp REM st2 = Done (Try_again, st2\<lparr>cout := Message Err_rem # cout st2, stack := s4\<rparr>)"
    using y s4(1) d2 by (simp add: exec_op_def)
  moreover have "exec_op fo push ?pp NUM (st\<lparr>val := v, ctype := if d then DOUBLE_TYPE else ctype st\<rparr>) = Done (Next, st1)"
    using t by (auto simp: exec_op_def st1_def)
  moreover have "exec_op fo push ?pp NUM (st1\<lparr>val := u\<rparr>) = Done (Next, st2)"
    by (simp add: exec_op_def st2_def)
  ultimately have "run_tokens fo push ?pp (calc_tokens l) st =
      Done (Try_again, st2\<lparr>cout := Message Err_rem # cout st2, stack := s4\<rparr>)"
    by (simp add: toks v u parse_rem del: append.simps)
  then show ?thesis using s4(2) d2
    by (simp add: run_line_def st2_def st1_def)
qed

lemma rem_double_lines:
  assumes z: "fis0 fo (fzero fo)" and e: "\<forall>s. \<not> snd (fstrtod fo s)"
  shows "stack_wf (stack st) \<Longrightarrow> ctype st = DOUBLE_TYPE \<Longrightarrow>
    \<exists>st'. calc_loop fo push (pop (fzero fo)) (concat (replicate n (''7 2 %'' @ [NL]))) st = Done (0, st') \<and>
      cout st' = replicate n (Message Err_rem) @ cout st"
proof (induction n arbitrary: st)
  case 0
  then show ?case by (simp add: calc_loop.simps [of fo push] getLine_def numeral_eq_Suc)
next
  case (Suc n)
  have p: "\<exists>v. parseTok fo ''7'' st = (NUM, st\<lparr>val := v, ctype := if False then DOUBLE_TYPE else ctype st\<rparr>)"
    "\<exists>v. parseTok fo ''2'' st = (NUM, st\<lparr>val := v\<rparr>)" for st
    using e by (auto simp: parseTok_def byte_at_def isdigit_def Let_def split: prod.splits) (metis snd_conv)+
  obtain s1 where s1: "run_line fo push (pop (fzero fo)) (''7 2 %'' @ [NL]) st = Done (False, s1)"
    "stack_wf (stack s1)" "ctype s1 = DOUBLE_TYPE" "cout s1 = Message Err_rem # cout st"
    using rem_double_line [OF z e Suc.prems(1) rem_line_tokens(1), where d = False, OF p] Suc.prems(2) by auto
  have "getLine ((''7 2 %'' @ [NL]) @ r) = Done (Some (''7 2 %'' @ [NL], r))" for r
    using getLine_from_line [of "''7 2 %''" "CALC_BUFSIZE - 1" r] by (simp add: getLine_def)
  then have "calc_loop fo push (pop (fzero fo)) (concat (replicate (Suc n) (''7 2 %'' @ [NL]))) st =
      calc_loop fo push (pop (fzero fo)) (concat (replicate n (''7 2 %'' @ [NL]))) s1"
    using s1(1) by (subst calc_loop.simps) simp
  then show ?case using Suc.IH [OF s1(2,3)] s1(4) by (auto simp: replicate_append_same [symmetric])
qed

section \<open>Properties\<close>

lemma exprs_ok:
  "\<forall>e \<in> set es. (expr_ok fo True e \<or> expr_ok fo False e) \<and> need e \<le> ARRAYSIZE \<and> short_line e \<Longrightarrow>
   \<forall>e \<in> set es. (\<exists>i. expr_ok fo i e) \<and> need e \<le> ARRAYSIZE \<and> short_line e"
  by blast


text \<open>A concrete arithmetic: the integers, with the digits up to the first other byte.\<close>

definition int_fops :: "int fops" where
  "int_fops = \<lparr>fzero = 0, fadd = (+), fsub = (-), fmul = (*), fdiv = (div), fneg = uminus, fof_int = (\<lambda>i. i),
     fto_int = Some, fis0 = (\<lambda>x. x = 0), fstrtod = (\<lambda>s. (int (dec_val (takeWhile isdigit s)), False))\<rparr>"

definition example_expr :: expr where
  "example_expr = Sub (Mul (Lit ''12'') (Lit ''3'')) (Rem (Lit ''-8'') (Div (Lit ''15'') (Lit ''5'')))"

lemma isdigit_digits: "isdigit CHR ''0''" "isdigit CHR ''1''" "isdigit CHR ''2''" "isdigit CHR ''3''"
  "isdigit CHR ''5''" "isdigit CHR ''7''" "isdigit CHR ''8''" "isdigit CHR ''.'' = False"
  by (simp_all add: isdigit_def)

lemma example_ok: "expr_ok int_fops True example_expr" "need example_expr \<le> ARRAYSIZE" "short_line example_expr"
  by (simp_all add: example_expr_def literal_def isdigit_digits reads_ok_def int_fops_def dec_val_def
      digit_val_def short_line_def expr_line_def magnitude_def lit_val_def rem_ok_def Let_def)

lemma example_val: "feval int_fops example_expr = 38"
  by (simp add: example_expr_def int_fops_def isdigit_digits dec_val_def digit_val_def magnitude_def lit_val_def
      rem_val_def)


text \<open>
  the program of LAB_9 prints the same values with any library whose functions keep the
  promises of a stack, and an initialised stack that is empty.
\<close>

theorem calculator_dl_evaluates:
  assumes "calc_stack psh pp content stack_wf ARRAYSIZE (fzero fo)"
    and "stack_wf s0" and "content s0 = []"
    and "\<forall>e \<in> set es. (expr_ok fo True e \<or> expr_ok fo False e) \<and> need e \<le> ARRAYSIZE \<and> short_line e"
  shows "\<exists>st. calculator_dl fo (Some \<lparr>sym_init = Some s0, sym_push = Some psh, sym_pop = Some pp\<rparr>)
       (concat (map expr_line es)) = Done (0, Some st) \<and>
     rev (cout st) = map (\<lambda>e. Value (feval fo e)) es"
  using calc_loop_exprs [OF assms(1) exprs_ok [OF assms(4)], of "\<lparr>stack = s0, val = fzero fo, ctype = INT_TYPE, cout = []\<rparr>"] assms(2,3)
  by (auto simp: calculator_dl_def)

theorem calculator_dl_witness:
  "\<exists>st. calculator_dl int_fops (Some \<lparr>sym_init = Some (init_stack 0), sym_push = Some push, sym_pop = Some (pop 0)\<rparr>)
       (concat (map expr_line [example_expr])) = Done (0, Some st) \<and> rev (cout st) = [Value 38]"
proof -
  have "fzero int_fops = 0" by (simp add: int_fops_def)
  then show ?thesis
    using calculator_dl_evaluates [of push "pop 0" int_fops "init_stack 0" "[example_expr]"] example_ok example_val
      own_stack [of "0 :: int"]
    by simp
qed

text \<open>
  the reset after an error does not empty the stack: it stops at the first value that equals
  the end-of-stack mark 0, and keeps everything below it for the next line.
\<close>

theorem reset_stops_at_zero:
  assumes "stack_wf (stack st)" and "fis0 fo (fzero fo)"
  shows "\<exists>st'. exec_op fo push (pop (fzero fo)) RESET st = Done (Try_again, st') \<and>
     content (stack st') = tl (dropWhile (\<lambda>x. \<not> fis0 fo x) (content (stack st)))"
  using do_reset_spec [OF own_stack assms(2,1)] by (auto simp: exec_op_def)

theorem reset_witness:
  "\<exists>st'. exec_op int_fops push (pop 0) RESET
      ((calc_start int_fops)\<lparr>stack := push (push (push (init_stack 0) 2) 0) 1\<rparr>) = Done (Try_again, st') \<and>
     content (stack st') = [2]"
proof -
  have w: "stack_wf (push (push (push (init_stack 0) 2) 0) (1::int))"
    by (intro cs.push_wf content_init)
  have c: "content (push (push (push (init_stack 0) 2) 0) (1::int)) = [1, 0, 2]"
    using cs.push_content [of "init_stack (0::int)" 2] cs.push_content [of "push (init_stack (0::int)) 2" 0]
      cs.push_content [of "push (push (init_stack (0::int)) 2) 0" 1] cs.push_wf [of "init_stack (0::int)" 2]
      cs.push_wf [of "push (init_stack (0::int)) 2" 0]
    by simp
  have z: "fzero int_fops = 0" "fis0 int_fops 0" "\<not> fis0 int_fops 1" by (simp_all add: int_fops_def)
  show ?thesis
    using reset_stops_at_zero [of "(calc_start int_fops)\<lparr>stack := push (push (push (init_stack 0) 2) 0) 1\<rparr>" int_fops] w c z
    by simp
qed

text \<open>
  after one remainder of a number with a point, the type stays DOUBLE, since the jump to the
  reset skips the assignment at the end of the line: every later remainder of integers on a line
  of its own is refused too.
\<close>

theorem rem_type_sticks:
  assumes "fis0 fo (fzero fo)" and "\<forall>s. \<not> snd (fstrtod fo s)"
  shows "\<exists>st. calculator fo (''2.5 2 %'' @ [NL] @ concat (replicate n (''7 2 %'' @ [NL]))) = Done (0, st) \<and>
     cout st = replicate (Suc n) (Message Err_rem)"
proof -
  have p: "\<exists>v. parseTok fo ''2.5'' st = (NUM, st\<lparr>val := v, ctype := if True then DOUBLE_TYPE else ctype st\<rparr>)"
    "\<exists>v. parseTok fo ''2'' st = (NUM, st\<lparr>val := v\<rparr>)" for st
    using assms(2) by (auto simp: parseTok_def byte_at_def isdigit_digits Let_def split: prod.splits) (metis snd_conv)+
  obtain s1 where s1: "run_line fo push (pop (fzero fo)) (''2.5 2 %'' @ [NL]) (calc_start fo) = Done (False, s1)"
    "stack_wf (stack s1)" "ctype s1 = DOUBLE_TYPE" "cout s1 = [Message Err_rem]"
    using rem_double_line [OF assms(1,2) _ rem_line_tokens(2), where d = True, OF _ p, of "calc_start fo"]
    by (auto simp: calc_start_def)
  have "getLine ((''2.5 2 %'' @ [NL]) @ r) = Done (Some (''2.5 2 %'' @ [NL], r))" for r
    using getLine_from_line [of "''2.5 2 %''" "CALC_BUFSIZE - 1" r] by (simp add: getLine_def)
  then have "calculator fo (''2.5 2 %'' @ [NL] @ concat (replicate n (''7 2 %'' @ [NL]))) =
      calc_loop fo push (pop (fzero fo)) (concat (replicate n (''7 2 %'' @ [NL]))) s1"
    using s1(1) unfolding calculator_def by (subst calc_loop.simps) simp
  then show ?thesis
    using rem_double_lines [OF assms s1(2,3), of n] s1(4) by (auto simp: replicate_append_same)
qed

theorem rem_type_witness:
  "\<exists>st. calculator int_fops (''2.5 2 %'' @ [NL] @ concat (replicate 1 (''7 2 %'' @ [NL]))) = Done (0, st) \<and>
     cout st = replicate (Suc 1) (Message Err_rem)"
  by (rule rem_type_sticks) (simp_all add: int_fops_def)

text \<open>
  a remainder by the integer zero is not guarded: the program is killed by the division.
\<close>

theorem rem_by_zero_faults:
  assumes "fstrtod fo ''5'' = (five, False)" "fto_int fo five = Some a"
    and "fstrtod fo ''0'' = (zero, False)" "fto_int fo zero = Some 0"
  shows "calculator fo (''5 0 %'' @ [NL] @ rest) = Fault DivByZero"
proof -
  let ?pp = "pop (fzero fo)"
  have g: "getLine ((''5 0 %'' @ [NL]) @ rest) = Done (Some (''5 0 %'' @ [NL], rest))"
    using getLine_from_line [of "''5 0 %''" "CALC_BUFSIZE - 1" rest] by (simp add: getLine_def)
  define s1 where "s1 = push (init_stack (fzero fo)) five"
  define s2 where "s2 = push s1 zero"
  have w: "stack_wf s1" "stack_wf s2" unfolding s2_def s1_def by (simp_all add: cs.push_wf)
  have c: "content s1 = [five]" "content s2 = [zero, five]"
    using cs.push_content [of "init_stack (fzero fo)" five] cs.push_content [OF w(1), of zero]
    by (simp_all add: s1_def s2_def)
  have p1: "parseTok fo ''5'' (calc_start fo) = (NUM, (calc_start fo)\<lparr>val := five\<rparr>)"
    using assms(1) by (simp add: parseTok_def byte_at_def isdigit_digits calc_start_def)
  have p2: "parseTok fo ''0'' ((calc_start fo)\<lparr>val := five, stack := s1\<rparr>) = (NUM, (calc_start fo)\<lparr>val := zero, stack := s1\<rparr>)"
    using assms(3) by (simp add: parseTok_def byte_at_def isdigit_digits calc_start_def)
  obtain s3 where s3: "?pp s2 = (zero, s3)" "content s3 = [five]" "stack_wf s3"
    using cs.pop_content [OF w(2) c(2), of "fzero fo"] cs.pop_wf [OF w(2), of "fzero fo"] by (cases "?pp s2") auto
  obtain s4 where s4: "?pp s3 = (five, s4)"
    using cs.pop_content [OF s3(3,2), of "fzero fo"] by (cases "?pp s3") auto
  have "run_tokens fo push ?pp (calc_tokens (''5 0 %'' @ [NL])) (calc_start fo) = Fault DivByZero"
    using p1 p2 s3(1) s4 assms(2,4)
    by (simp add: rem_line_tokens [simplified] exec_op_def parse_rem [simplified] calc_start_def s1_def [symmetric] s2_def [symmetric] REM_F_def)
  then show ?thesis
    using g unfolding calculator_def by (subst calc_loop.simps) (simp add: run_line_def)
qed

theorem rem_by_zero_witness: "calculator int_fops (''5 0 %'' @ [NL] @ []) = Fault DivByZero"
  by (rule rem_by_zero_faults) (simp_all add: int_fops_def isdigit_digits dec_val_def digit_val_def)

text \<open>
  a line of 511 bytes or more before its newline writes one byte past the end of the buffer.
\<close>

theorem long_line_overflows:
  assumes "NL \<notin> set l" "CHR 0xFF \<notin> set l" "CALC_BUFSIZE - 1 \<le> length l"
  shows "calculator fo (l @ rest) = Fault OutOfBounds"
  using getLine_from_long [OF assms, of rest] unfolding calculator_def
  by (subst calc_loop.simps) (simp add: getLine_def)

theorem long_line_witness: "calculator int_fops (replicate 511 CHR ''1'' @ [NL]) = Fault OutOfBounds"
  by (rule long_line_overflows) simp_all

end
