(* ===== verification/Ledger_Table.thy ===== *)
theory Ledger_Table
  imports Lab_Prelude "HOL-Library.Multiset"
begin

text \<open>
  LAB_4/task_ledger: the address book as a fixed table of 64 slots in static memory, where an
  empty name marks a free slot. A character array of a slot is the string it holds: the code
  never looks behind its NUL. Prompts and error texts on stderr are left out.
\<close>

section \<open>The table: address_book.h and the global ledger\<close>

abbreviation MAX_PRIV :: nat where "MAX_PRIV \<equiv> 64"
abbreviation TNAMESIZ :: nat where "TNAMESIZ \<equiv> 64"
abbreviation NUMSIZ :: nat where "NUMSIZ \<equiv> 64"
abbreviation TOCCUPSIZ :: nat where "TOCCUPSIZ \<equiv> 32"
abbreviation TBUFSIZE :: nat where "TBUFSIZE \<equiv> 256"

record cust =
  name :: string
  middle_name :: string
  last_name :: string
  phone_number :: string
  occupation :: string
  age :: u32

definition blank :: cust where
  "blank = \<lparr>name = [], middle_name = [], last_name = [], phone_number = [], occupation = [], age = 0\<rparr>"

datatype tshown = Customer cust | Numbered nat cust | Skipping string | Added | Unknown_command | No_input | Bad_age

record tstate =
  slots :: "cust list"
  tin :: string
  tout :: "tshown list"

definition ledger_init :: "string \<Rightarrow> tstate" where
  "ledger_init inp = \<lparr>slots = replicate MAX_PRIV blank, tin = inp, tout = []\<rparr>"

definition tshow :: "tshown \<Rightarrow> tstate \<Rightarrow> tstate" where
  "tshow x st = st\<lparr>tout := x # tout st\<rparr>"

text \<open>A slot is read and written by its number; \<open>ledger.priv\<close> has no slot outside the array.\<close>

definition slot_at :: "nat \<Rightarrow> tstate \<Rightarrow> cust run" where
  "slot_at i st = (if i < length (slots st) then Done (slots st ! i) else Fault OutOfBounds)"

definition put_slot :: "nat \<Rightarrow> cust \<Rightarrow> tstate \<Rightarrow> tstate run" where
  "put_slot i p st =
     (if i < length (slots st) then Done (st\<lparr>slots := (slots st)[i := p]\<rparr>) else Fault OutOfBounds)"

section \<open>process_param\<close>

text \<open>The string case: \<open>None\<close> is \<open>ERR\<close>.\<close>

definition param_string :: "nat \<Rightarrow> tstate \<Rightarrow> string option \<times> tstate" where
  "param_string n st =
     (case fgets n (tin st) of
        None \<Rightarrow> (None, st)
      | Some (l, r) \<Rightarrow>
          let st1 = st\<lparr>tin := r\<rparr>; s = cstr l in
          if NL \<notin> set s then (None, st1)
          else let t = takeWhile (\<lambda>c. c \<noteq> NL) s in
               if t = [] then (None, tshow No_input st1) else (Some t, st1))"

text \<open>The number case, with the label \<open>try_again\<close>.\<close>

function param_int :: "tstate \<Rightarrow> (u32 option \<times> tstate) run" where
  "param_int st =
     (case scan_num (tin st) of
        ScanEOF \<Rightarrow> Done (None, st\<lparr>tin := []\<rparr>)
      | ScanFail r \<Rightarrow> Done (None, st\<lparr>tin := r\<rparr>)
      | ScanNum neg n r \<Rightarrow>
          bind_run (clear_stdin r) (\<lambda>r1.
            let v = scan_i32 neg n; st1 = st\<lparr>tin := r1\<rparr> in
            if sint v \<le> 0 then param_int (tshow Bad_age st1) else Done (Some v, st1)))"
  by pat_completeness auto

termination
  by (relation "measure (\<lambda>st. length (tin st))")
    (auto simp: tshow_def dest!: scan_num_length clear_stdin_length)

declare param_int.simps [simp del]

section \<open>The commands\<close>

text \<open>The loops over the table go from slot \<open>i\<close> on, with \<open>n\<close> rounds left.\<close>

fun store_slot :: "nat \<Rightarrow> nat \<Rightarrow> cust \<Rightarrow> tstate \<Rightarrow> tstate run" where
  "store_slot 0 i p st = Done st"
| "store_slot (Suc n) i p st =
     bind_run (slot_at i st) (\<lambda>q. if name q = [] then put_slot i p st else store_slot n (i + 1) p st)"

text \<open>\<open>add\<close>: the five strings, the age, then the first free slot, if there is one.\<close>

definition tbl_add :: "tstate \<Rightarrow> (bool \<times> tstate) run" where
  "tbl_add st =
     (case param_string TNAMESIZ st of (None, s) \<Rightarrow> Done (False, s) | (Some nm, s1) \<Rightarrow>
     (case param_string TNAMESIZ s1 of (None, s) \<Rightarrow> Done (False, s) | (Some mn, s2) \<Rightarrow>
     (case param_string TNAMESIZ s2 of (None, s) \<Rightarrow> Done (False, s) | (Some ln, s3) \<Rightarrow>
     (case param_string NUMSIZ s3 of (None, s) \<Rightarrow> Done (False, s) | (Some num, s4) \<Rightarrow>
     (case param_string TOCCUPSIZ s4 of (None, s) \<Rightarrow> Done (False, s) | (Some occ, s5) \<Rightarrow>
       bind_run (param_int s5) (\<lambda>(a, s6).
         case a of None \<Rightarrow> Done (False, s6)
         | Some v \<Rightarrow>
             let p = \<lparr>name = nm, middle_name = mn, last_name = ln, phone_number = num,
                      occupation = occ, age = v\<rparr>;
                 s7 = tshow (Customer p) s6
             in bind_run (store_slot MAX_PRIV 0 p s7) (\<lambda>s8. Done (True, tshow Added s8))))))))"

text \<open>The search loop of \<open>remove_\<close>.\<close>

fun remove_scan :: "nat \<Rightarrow> nat \<Rightarrow> string \<Rightarrow> tstate \<Rightarrow> tstate run" where
  "remove_scan 0 i buf st = Done st"
| "remove_scan (Suc n) i buf st =
     bind_run (slot_at i st) (\<lambda>p.
      if buf = name p then
        let st1 = tshow (Customer p) st in
        (case getchar (tin st1) of
           (None, r) \<Rightarrow> Done st1
         | (Some c, r) \<Rightarrow>
             bind_run (clear_stdin r) (\<lambda>r1.
               let st2 = st1\<lparr>tin := r1\<rparr> in
               if tolower c \<noteq> CHR ''y'' then remove_scan n (i + 1) buf (tshow (Skipping (name p)) st2)
               else put_slot i blank st2))
      else remove_scan n (i + 1) buf st)"

definition tbl_remove :: "tstate \<Rightarrow> (bool \<times> tstate) run" where
  "tbl_remove st =
     (case param_string TBUFSIZE st of
        (None, s) \<Rightarrow> Done (False, s)
      | (Some buf, s) \<Rightarrow> bind_run (remove_scan MAX_PRIV 0 buf s) (\<lambda>s1. Done (True, s1)))"

fun find_scan :: "nat \<Rightarrow> nat \<Rightarrow> string \<Rightarrow> tstate \<Rightarrow> tstate run" where
  "find_scan 0 i buf st = Done st"
| "find_scan (Suc n) i buf st =
     bind_run (slot_at i st) (\<lambda>p.
      if name p = buf then
        let st1 = tshow (Customer p) st in
        (case getchar (tin st1) of
           (None, r) \<Rightarrow> Done st1
         | (Some c, r) \<Rightarrow>
             bind_run (clear_stdin r) (\<lambda>r1.
               let st2 = st1\<lparr>tin := r1\<rparr> in
               if tolower c \<noteq> CHR ''n'' then find_scan n (i + 1) buf (tshow (Skipping (name p)) st2)
               else Done st2))
      else find_scan n (i + 1) buf st)"

definition tbl_find :: "tstate \<Rightarrow> (bool \<times> tstate) run" where
  "tbl_find st =
     (case param_string TBUFSIZE st of
        (None, s) \<Rightarrow> Done (False, s)
      | (Some buf, s) \<Rightarrow> bind_run (find_scan MAX_PRIV 0 buf s) (\<lambda>s1. Done (True, s1)))"

text \<open>\<open>display\<close> stops at the first free slot.\<close>

fun display_scan :: "nat \<Rightarrow> nat \<Rightarrow> tstate \<Rightarrow> tstate run" where
  "display_scan 0 i st = Done st"
| "display_scan (Suc n) i st =
     bind_run (slot_at i st) (\<lambda>p.
       if name p = [] then Done st else display_scan n (i + 1) (tshow (Numbered (i + 1) p) st))"

definition tbl_display :: "tstate \<Rightarrow> tstate run" where
  "tbl_display st = display_scan MAX_PRIV 0 st"

section \<open>address_book\<close>

text \<open>One command: the flag says whether the loop goes on, with the status (\<open>False\<close> is ERR).\<close>

definition tbl_command :: "int \<Rightarrow> tstate \<Rightarrow> (bool \<times> bool \<times> tstate) run" where
  "tbl_command c st =
     (if c = 1 then bind_run (tbl_add st) (\<lambda>(s, st1). Done (s, s, st1))
      else if c = 2 then bind_run (tbl_remove st) (\<lambda>(s, st1). Done (s, s, st1))
      else if c = 3 then bind_run (tbl_find st) (\<lambda>(s, st1). Done (s, s, st1))
      else if c = 4 then bind_run (tbl_display st) (\<lambda>st1. Done (True, True, st1))
      else if c = 5 then Done (True, True, st)
      else if c = 6 then Done (False, True, st)
      else Done (True, True, tshow Unknown_command st))"

lemma tin_tshow [simp]: "tin (tshow x st) = tin st" "slots (tshow x st) = slots st"
  "tout (tshow x st) = x # tout st"
  by (simp_all add: tshow_def)

lemma param_string_shorter: "param_string n st = (x, st') \<Longrightarrow> length (tin st') \<le> length (tin st)"
  by (auto simp: param_string_def fgets_def Let_def split: option.splits if_splits prod.splits
      dest!: fgets_upto_split [OF sym] fgets_upto_split)

lemma param_int_shorter: "param_int st = Done (x, st') \<Longrightarrow> length (tin st') \<le> length (tin st)"
proof (induction st rule: param_int.induct)
  case (1 st)
  show ?case
  proof (cases "scan_num (tin st)")
    case ScanEOF
    then show ?thesis using "1.prems" by (auto simp: param_int.simps [of st])
  next
    case (ScanFail r)
    then show ?thesis using "1.prems" scan_num_length(2) [OF ScanFail] by (auto simp: param_int.simps [of st])
  next
    case (ScanNum neg n r)
    then obtain r1 where r1: "clear_stdin r = Done r1"
      using "1.prems" by (auto simp: param_int.simps [of st])
    have l: "length r1 \<le> length (tin st)"
      using scan_num_length(1) [OF ScanNum] clear_stdin_length [OF r1] by simp
    show ?thesis
    proof (cases "sint (scan_i32 neg n) \<le> 0")
      case True
      then show ?thesis
        using "1.IH" [OF ScanNum r1 refl refl True] "1.prems" ScanNum r1 l
        by (auto simp: param_int.simps [of st])
    next
      case False
      then show ?thesis using "1.prems" ScanNum r1 l by (auto simp: param_int.simps [of st])
    qed
  qed
qed

lemma slot_at_eq: "slot_at i st = Done p \<longleftrightarrow> i < length (slots st) \<and> p = slots st ! i"
  by (auto simp: slot_at_def)

lemma put_slot_eq:
  "put_slot i p st = Done st' \<longleftrightarrow> i < length (slots st) \<and> st' = st\<lparr>slots := (slots st)[i := p]\<rparr>"
  by (auto simp: put_slot_def)

lemma store_slot_tin: "store_slot n i p st = Done st' \<Longrightarrow> tin st' = tin st"
  by (induction n i p st rule: store_slot.induct) (auto simp: put_slot_eq split: if_splits)

lemma remove_scan_shorter: "remove_scan n i buf st = Done st' \<Longrightarrow> length (tin st') \<le> length (tin st)"
proof (induction n i buf st rule: remove_scan.induct)
  case (2 n i buf st)
  obtain p where p: "slot_at i st = Done p" using "2.prems" by auto
  show ?case
  proof (cases "buf = name p")
    case True
    show ?thesis
    proof (cases "tin st")
      case (Cons c r)
      then obtain r1 where r1: "clear_stdin r = Done r1" using "2.prems" True p by (auto simp: Let_def)
      show ?thesis
        using "2.prems" "2.IH" [OF p] True Cons r1 p clear_stdin_length [OF r1]
        by (auto simp: Let_def put_slot_eq split: if_splits) fastforce
    qed (use "2.prems" p True in \<open>auto simp: Let_def\<close>)
  qed (use "2.prems" "2.IH" [OF p] p in \<open>auto simp: Let_def\<close>)
qed simp

lemma find_scan_shorter: "find_scan n i buf st = Done st' \<Longrightarrow> length (tin st') \<le> length (tin st)"
proof (induction n i buf st rule: find_scan.induct)
  case (2 n i buf st)
  obtain p where p: "slot_at i st = Done p" using "2.prems" by auto
  show ?case
  proof (cases "name p = buf")
    case True
    show ?thesis
    proof (cases "tin st")
      case (Cons c r)
      then obtain r1 where r1: "clear_stdin r = Done r1" using "2.prems" True p by (auto simp: Let_def)
      show ?thesis
        using "2.prems" "2.IH" [OF p] True Cons r1 p clear_stdin_length [OF r1]
        by (auto simp: Let_def put_slot_eq split: if_splits) fastforce
    qed (use "2.prems" p True in \<open>auto simp: Let_def\<close>)
  qed (use "2.prems" "2.IH" [OF p] p in \<open>auto simp: Let_def\<close>)
qed simp

lemma display_scan_tin: "display_scan n i st = Done st' \<Longrightarrow> tin st' = tin st \<and> slots st' = slots st"
  by (induction n i st rule: display_scan.induct) (auto split: if_splits)

lemma tbl_add_shorter: "tbl_add st = Done (b, st') \<Longrightarrow> length (tin st') \<le> length (tin st)"
  unfolding tbl_add_def
  by (fastforce simp: Let_def split: option.splits prod.splits simp del: store_slot.simps
      dest: param_string_shorter param_int_shorter store_slot_tin)

lemma tbl_command_shorter: "tbl_command c st = Done (g, s, st') \<Longrightarrow> length (tin st') \<le> length (tin st)"
  unfolding tbl_command_def tbl_remove_def tbl_find_def
  by (fastforce simp: tbl_display_def Let_def split: if_splits option.splits prod.splits
      simp del: remove_scan.simps find_scan.simps display_scan.simps
      dest: param_string_shorter tbl_add_shorter remove_scan_shorter find_scan_shorter display_scan_tin)

function tbl_loop :: "tstate \<Rightarrow> (bool \<times> tstate) run" where
  "tbl_loop st =
     (case tin st of
        [] \<Rightarrow> Done (True, st)
      | c # cs \<Rightarrow>
          bind_run (if isspace c then Done cs else clear_stdin cs) (\<lambda>cs1.
            bind_run (tbl_command (int (of_char c) - 48) (st\<lparr>tin := cs1\<rparr>)) (\<lambda>(go, s, st1).
              if go then tbl_loop st1 else Done (s, st1))))"
  by pat_completeness auto

termination
proof (relation "measure (\<lambda>st. length (tin st))", simp, goal_cases)
  case (1 st c cs cs1 x go y s st1)
  have "length cs1 \<le> length cs" using 1 by (auto split: if_splits dest: clear_stdin_length)
  moreover have "length (tin st1) \<le> length cs1"
    using tbl_command_shorter [of _ "st\<lparr>tin := cs1\<rparr>" go s st1] 1 by simp
  ultimately show ?case using 1 by simp
qed

declare tbl_loop.simps [simp del]

text \<open>The exit status: 0, or 1 when a command failed.\<close>

definition tbl_main :: "string \<Rightarrow> (int \<times> tstate) run" where
  "tbl_main inp =
     bind_run (tbl_loop (ledger_init inp)) (\<lambda>(s, st). Done (if s then 0 else 1, st))"

end
