(* ===== verification/Table_Props.thy ===== *)
theory Table_Props
  imports Ledger_Table
begin

text \<open>
  Properties of the LAB_4 address book: the table as a multiset of customers, the invariant of
  the whole program, and what \<open>display\<close> shows.
\<close>

section \<open>Reading lines\<close>

text \<open>A line that a field of \<open>n\<close> bytes holds with its newline and NUL, and that is not empty.\<close>

definition tline :: "nat \<Rightarrow> string \<Rightarrow> bool" where
  "tline n s \<longleftrightarrow> s \<noteq> [] \<and> NL \<notin> set s \<and> NUL \<notin> set s \<and> length s + 2 \<le> n"

lemma param_string_line:
  assumes "tline n s" "tin st = s @ NL # r"
  shows "param_string n st = (Some s, st\<lparr>tin := r\<rparr>)"
proof -
  have s: "NL \<notin> set s" "NUL \<notin> set s" "length s + 1 < n" "s \<noteq> []" using assms(1) by (auto simp: tline_def)
  have "cstr (s @ [NL]) = s @ [NL]" using s(2) by (induction s) (auto simp: cstr_def)
  moreover have "takeWhile (\<lambda>c. c \<noteq> NL) (s @ [NL]) = s" using s(1) by (induction s) auto
  ultimately show ?thesis using assms(2) fgets_line [OF s(1,3), of r] s(4)
    by (simp add: param_string_def)
qed

lemma param_string_result:
  assumes "param_string n st = (Some s, st')"
  shows "s \<noteq> [] \<and> length s < n" "slots st' = slots st"
proof -
  obtain l r where f: "fgets n (tin st) = Some (l, r)" and nl: "NL \<in> set (cstr l)"
    and s: "s = takeWhile (\<lambda>c. c \<noteq> NL) (cstr l)" "s \<noteq> []" and st': "slots st' = slots st"
    using assms by (auto simp: param_string_def Let_def split: option.splits if_splits)
  have "length l \<le> n - 1" using f by (auto simp: fgets_def split: if_splits dest: fgets_upto_length)
  moreover have "length s < length (cstr l)"
  proof -
    have "s \<noteq> cstr l" using nl s(1) by (metis set_takeWhileD)
    then show ?thesis using s(1) by (metis takeWhile_dropWhile_id length_append length_greater_0_conv less_add_same_cancel1 append_Nil2)
  qed
  moreover have "length (cstr l) \<le> length l" by (simp add: cstr_def length_takeWhile_le)
  ultimately show "s \<noteq> [] \<and> length s < n" using s(2) by linarith
  show "slots st' = slots st" by (rule st')
qed

lemma param_string_slots: "param_string n st = (x, st') \<Longrightarrow> slots st' = slots st"
  by (auto simp: param_string_def Let_def split: option.splits if_splits)

lemma param_string_both:
  "param_string n st = (x, st') \<Longrightarrow> slots st' = slots st \<and> (\<forall>s. x = Some s \<longrightarrow> s \<noteq> [] \<and> length s < n)"
  using param_string_result(1) param_string_slots by blast

lemma param_int_slots:
  "param_int st = Done (x, st') \<Longrightarrow> slots st' = slots st \<and> (\<forall>v. x = Some v \<longrightarrow> 0 < sint v)"
proof (induction st rule: param_int.induct)
  case (1 st)
  show ?case
  proof (cases "scan_num (tin st)")
    case (ScanNum neg n r)
    then obtain r1 where r1: "clear_stdin r = Done r1"
      using "1.prems" by (auto simp: param_int.simps [of st])
    show ?thesis
    proof (cases "sint (scan_i32 neg n) \<le> 0")
      case True
      then show ?thesis
        using "1.IH" [OF ScanNum r1 refl refl True] "1.prems" ScanNum r1
        by (auto simp: param_int.simps [of st])
    next
      case False
      then show ?thesis using "1.prems" ScanNum r1 by (auto simp: param_int.simps [of st])
    qed
  qed (use "1.prems" in \<open>auto simp: param_int.simps [of st]\<close>)
qed

lemma param_int_no_fault: "param_int st \<noteq> Fault f"
proof (induction st rule: param_int.induct)
  case (1 st)
  have nf: "clear_stdin r \<noteq> Fault f" for r by (induction r) auto
  show ?case
  proof (cases "scan_num (tin st)")
    case (ScanNum neg n r)
    show ?thesis
    proof (cases "clear_stdin r")
      case (Done r1)
      then show ?thesis using "1.IH" [OF ScanNum Done refl refl] ScanNum
        by (simp add: param_int.simps [of st] Let_def)
    qed (use ScanNum nf in \<open>auto simp: param_int.simps [of st]\<close>)
  qed (simp_all add: param_int.simps [of st])
qed

section \<open>The customers of a table\<close>

definition occupied :: "cust \<Rightarrow> bool" where
  "occupied p \<longleftrightarrow> name p \<noteq> []"

definition customers :: "tstate \<Rightarrow> cust multiset" where
  "customers st = mset (filter occupied (slots st))"

text \<open>The table with a customer in its first free slot, if there is one.\<close>

fun placed :: "cust \<Rightarrow> cust list \<Rightarrow> cust list" where
  "placed p [] = []"
| "placed p (q # qs) = (if name q = [] then p # qs else q # placed p qs)"



lemma length_placed [simp]: "length (placed p qs) = length qs"
  by (induction qs) auto

lemma set_placed: "set (placed p qs) \<subseteq> insert p (set qs)"
  by (induction qs) auto

lemma drop_nth_Cons: "length xs = Suc n + i \<Longrightarrow> drop i xs = xs ! i # drop (i + 1) xs"
  using Cons_nth_drop_Suc [of i xs] by simp

lemma store_slot_placed:
  "length (slots st) = n + i \<Longrightarrow>
   store_slot n i p st = Done (st\<lparr>slots := take i (slots st) @ placed p (drop i (slots st))\<rparr>)"
proof (induction n arbitrary: i)
  case (Suc n)
  have i: "i < length (slots st)" using Suc.prems by simp
  then show ?case
    using Suc.IH [of "i + 1"] Suc.prems drop_nth_Cons [OF Suc.prems]
    by (auto simp: slot_at_def put_slot_def take_Suc_conv_app_nth upd_conv_take_nth_drop)
qed simp


section \<open>Removing\<close>

text \<open>Answers "n" to \<open>k\<close> questions, then "y".\<close>

definition answers :: "nat \<Rightarrow> string" where
  "answers k = concat (replicate k [CHR ''n'', NL]) @ [CHR ''y'', NL]"

definition matches :: "string \<Rightarrow> cust list \<Rightarrow> cust list" where
  "matches buf ps = filter (\<lambda>p. name p = buf) ps"

lemma answers_simps:
  "answers 0 = [CHR ''y'', NL]" "answers (Suc k) = CHR ''n'' # NL # answers k"
  by (simp_all add: answers_def)

lemma tolower_yn: "tolower CHR ''n'' = CHR ''n''" "tolower CHR ''y'' = CHR ''y''"
  by (simp_all add: tolower_def)

lemma occupied_blank:
  "i < length ps \<Longrightarrow> occupied (ps ! i) \<Longrightarrow>
   mset (filter occupied ps) = add_mset (ps ! i) (mset (filter occupied (ps[i := blank])))"
proof (induction ps arbitrary: i)
  case (Cons p ps)
  then show ?case by (cases i) (auto simp: occupied_def blank_def)
qed simp

lemma remove_scan_spec:
  assumes "length (slots st) = n + i" "tin st = answers k @ r"
    and "k < length (matches buf (drop i (slots st)))" "buf \<noteq> []"
  shows "\<exists>st'. remove_scan n i buf st = Done st' \<and> tin st' = r \<and>
     customers st = add_mset (matches buf (drop i (slots st)) ! k) (customers st') \<and>
     take i (slots st') = take i (slots st)"
  using assms
proof (induction n arbitrary: i st k)
  case 0
  then show ?case by (simp add: matches_def)
next
  case (Suc n)
  let ?p = "slots st ! i"
  have d: "drop i (slots st) = ?p # drop (i + 1) (slots st)" by (rule drop_nth_Cons [OF Suc.prems(1)])
  have i: "i < length (slots st)" using Suc.prems(1) by simp
  then have sl: "slot_at i st = Done ?p" by (simp add: slot_at_def)
  have tk: "take i (slots s) = take i (slots st)" if "take (i + 1) (slots s) = take (i + 1) (slots st)" for s
    using arg_cong [OF that, of "take i"] by (simp add: min_def)
  show ?case
  proof (cases "buf = name ?p")
    case False
    have m: "matches buf (drop i (slots st)) = matches buf (drop (i + 1) (slots st))"
      using False by (auto simp: d matches_def)
    show ?thesis
      using Suc.IH [of st "i + 1" k] Suc.prems False tk by (auto simp: m sl)
  next
    case True
    have m: "matches buf (drop i (slots st)) = ?p # matches buf (drop (i + 1) (slots st))"
      using True by (auto simp: d matches_def)
    show ?thesis
    proof (cases k)
      case 0
      let ?st = "(tshow (Customer ?p) st)\<lparr>tin := r, slots := (slots st)[i := blank]\<rparr>"
      have "remove_scan (Suc n) i buf st = Done ?st"
        using True 0 Suc.prems(2) i by (simp add: sl answers_simps tolower_yn tshow_def put_slot_def)
      moreover have "customers st = add_mset ?p (customers ?st)"
        using occupied_blank [OF i] True Suc.prems(4) by (simp add: customers_def occupied_def)
      ultimately show ?thesis using 0 m by (auto simp del: remove_scan.simps)
    next
      case (Suc k')
      let ?st = "(tshow (Skipping (name ?p)) ((tshow (Customer ?p) st)\<lparr>tin := answers k' @ r\<rparr>))"
      have e: "remove_scan (Suc n) i buf st = remove_scan n (i + 1) buf ?st"
        using True Suc Suc.prems(2) by (simp add: sl answers_simps tolower_yn Let_def)
      obtain st' where "remove_scan n (i + 1) buf ?st = Done st'" "tin st' = r"
        "customers ?st = add_mset (matches buf (drop (i + 1) (slots st)) ! k') (customers st')"
        "take (i + 1) (slots st') = take (i + 1) (slots st)"
        using Suc.IH [of ?st "i + 1" k'] Suc.prems Suc m by auto
      then show ?thesis using e Suc m tk by (auto simp: customers_def simp del: remove_scan.simps)
    qed
  qed
qed

text \<open>
  \<open>remove_\<close> with a name, \<open>k\<close> answers "n" and then "y" takes exactly the customer behind
  those \<open>k\<close> in the order of the table out of the customers.
\<close>

theorem tbl_remove_refines:
  assumes "length (slots st) = MAX_PRIV" "tline TBUFSIZE buf"
    and "tin st = buf @ NL # answers k @ rest" "k < length (matches buf (slots st))"
  shows "\<exists>st'. tbl_remove st = Done (True, st') \<and> tin st' = rest \<and>
     customers st' = customers st - {#matches buf (slots st) ! k#}"
proof -
  have p: "param_string TBUFSIZE st = (Some buf, st\<lparr>tin := answers k @ rest\<rparr>)"
    by (rule param_string_line [OF assms(2,3)])
  obtain st' where "remove_scan MAX_PRIV 0 buf (st\<lparr>tin := answers k @ rest\<rparr>) = Done st'" "tin st' = rest"
    "customers st = add_mset (matches buf (slots st) ! k) (customers st')"
    using remove_scan_spec [of "st\<lparr>tin := answers k @ rest\<rparr>" MAX_PRIV 0 k rest buf] assms
    by (auto simp: tline_def customers_def simp del: remove_scan.simps)
  then show ?thesis using p by (auto simp: tbl_remove_def simp del: remove_scan.simps)
qed

section \<open>Display\<close>

lemma display_scan_spec:
  "length (slots st) = n + i \<Longrightarrow> \<exists>st'. display_scan n i st = Done st' \<and> slots st' = slots st \<and> tout st' =
     rev (map (\<lambda>(k, p). Numbered k p) (zip [i + 1..<i + 1 + n] (takeWhile occupied (drop i (slots st))))) @ tout st"
proof (induction n arbitrary: i st)
  case (Suc n)
  have "i < length (slots st)" using Suc.prems by simp
  then show ?case
    using Suc.IH [of "tshow (Numbered (i + 1) (slots st ! i)) st" "i + 1"] Suc.prems drop_nth_Cons [OF Suc.prems]
    by (simp add: slot_at_def occupied_def upt_conv_Cons del: upt_Suc)
qed simp

text \<open>
  \<open>display\<close> shows the customers up to the first free slot, numbered from 1: those behind a
  slot that was freed by \<open>remove_\<close> stay in the table and are not shown.
\<close>

theorem tbl_display_shows:
  assumes "length (slots st) = MAX_PRIV"
  shows "\<exists>st'. tbl_display st = Done st' \<and> slots st' = slots st \<and> tout st' =
     rev (map (\<lambda>(k, p). Numbered k p) (zip [1..<1 + MAX_PRIV] (takeWhile occupied (slots st)))) @ tout st"
  using display_scan_spec [of st MAX_PRIV 0] assms unfolding tbl_display_def by simp

section \<open>The invariant of the program\<close>

definition wf_cust :: "cust \<Rightarrow> bool" where
  "wf_cust p \<longleftrightarrow> p = blank \<or>
     (name p \<noteq> [] \<and> length (name p) < TNAMESIZ \<and> middle_name p \<noteq> [] \<and> length (middle_name p) < TNAMESIZ \<and>
      last_name p \<noteq> [] \<and> length (last_name p) < TNAMESIZ \<and> phone_number p \<noteq> [] \<and> length (phone_number p) < NUMSIZ \<and>
      occupation p \<noteq> [] \<and> length (occupation p) < TOCCUPSIZ \<and> 0 < sint (age p))"

definition wf_table :: "tstate \<Rightarrow> bool" where
  "wf_table st \<longleftrightarrow> length (slots st) = MAX_PRIV \<and> (\<forall>p \<in> set (slots st). wf_cust p)"

fun safe :: "('a \<Rightarrow> bool) \<Rightarrow> 'a run \<Rightarrow> bool" where
  "safe Q (Done x) = Q x"
| "safe Q Diverge = True"
| "safe Q (Fault f) = False"

lemma safe_bind: "safe R m \<Longrightarrow> (\<And>x. R x \<Longrightarrow> safe Q (k x)) \<Longrightarrow> safe Q (bind_run m k)"
  by (cases m) auto

lemma safe_clear_stdin: "safe (\<lambda>_. True) (clear_stdin cs)"
  by (induction cs) auto

lemma wf_table_cong: "slots st' = slots st \<Longrightarrow> wf_table st' = wf_table st"
  by (simp add: wf_table_def)

lemma safe_param_int:
  "safe (\<lambda>(x, st'). slots st' = slots st \<and> (\<forall>v. x = Some v \<longrightarrow> 0 < sint v)) (param_int st)"
  using param_int_slots [of st] param_int_no_fault [of st] by (cases "param_int st") auto

lemma safe_tbl_add:
  assumes "wf_table st"
  shows "safe (\<lambda>(s, st'). wf_table st') (tbl_add st)"
proof -
  have store: "safe (\<lambda>(s, st'). wf_table st') (bind_run (store_slot MAX_PRIV 0 p (tshow (Customer p) s))
      (\<lambda>s1. Done (True, tshow Added s1)))" if "wf_cust p" "slots s = slots st" for s p
    using that assms set_placed [of p "slots st"] store_slot_placed [of "tshow (Customer p) s" MAX_PRIV 0 p]
    by (auto simp: wf_table_def tshow_def simp del: store_slot.simps)
  note w = wf_table_cong [of _ st]
  show ?thesis
    unfolding tbl_add_def Let_def
    by (auto split: prod.splits option.splits
        dest!: param_string_both
        intro!: safe_bind [OF safe_param_int] store simp: wf_cust_def w assms simp del: store_slot.simps)
qed

text \<open>The loops stay inside the table: the rounds that are left end at its 64 slots.\<close>

lemma safe_slot_at: "wf_table st \<Longrightarrow> i < MAX_PRIV \<Longrightarrow> safe wf_cust (slot_at i st)"
  by (simp add: slot_at_def wf_table_def)

lemma safe_put_blank: "wf_table st \<Longrightarrow> i < MAX_PRIV \<Longrightarrow> safe wf_table (put_slot i blank st)"
  using set_update_subset_insert [of "slots st" i blank] by (auto simp: put_slot_def wf_table_def wf_cust_def)

lemma safe_remove_scan: "wf_table st \<Longrightarrow> n + i \<le> MAX_PRIV \<Longrightarrow> safe wf_table (remove_scan n i buf st)"
proof (induction n arbitrary: i st buf)
  case (Suc n)
  have i: "i < MAX_PRIV" "n + i \<le> 63" using Suc.prems(2) by simp_all
  note w = wf_table_cong [of _ st]
  show ?case
    unfolding remove_scan.simps Let_def
    by (cases "tin st") (auto intro!: safe_bind [OF safe_slot_at] safe_bind [OF safe_clear_stdin] Suc.IH
        safe_put_blank simp: Suc.prems(1) w i)
qed simp

lemma safe_find_scan: "wf_table st \<Longrightarrow> n + i \<le> MAX_PRIV \<Longrightarrow> safe wf_table (find_scan n i buf st)"
proof (induction n arbitrary: i st buf)
  case (Suc n)
  have i: "i < MAX_PRIV" "n + i \<le> 63" using Suc.prems(2) by simp_all
  note w = wf_table_cong [of _ st]
  show ?case
    unfolding find_scan.simps Let_def
    by (cases "tin st") (auto intro!: safe_bind [OF safe_slot_at] safe_bind [OF safe_clear_stdin] Suc.IH
        simp: Suc.prems(1) w i)
qed simp

lemma safe_display: "wf_table st \<Longrightarrow> safe wf_table (tbl_display st)"
  using tbl_display_shows [of st] by (auto simp: wf_table_def)

lemma safe_tbl_command:
  assumes "wf_table st"
  shows "safe (\<lambda>(g, s, st'). wf_table st') (tbl_command c st)"
proof -
  have r: "safe (\<lambda>(s, st'). wf_table st') (tbl_remove st)" "safe (\<lambda>(s, st'). wf_table st') (tbl_find st)"
    unfolding tbl_remove_def tbl_find_def
    using wf_table_cong [of _ st] assms
    by (auto split: prod.splits option.splits dest!: param_string_slots simp del: remove_scan.simps find_scan.simps
        intro!: safe_bind [OF safe_remove_scan] safe_bind [OF safe_find_scan])
  show ?thesis
    unfolding tbl_command_def
    using wf_table_cong [of _ st] assms
    by (auto intro!: safe_bind [OF safe_tbl_add [OF assms]] safe_bind [OF r(1)] safe_bind [OF r(2)]
        safe_bind [OF safe_display [OF assms]])
qed

lemma safe_tbl_loop: "wf_table st \<Longrightarrow> safe (\<lambda>(s, st'). wf_table st') (tbl_loop st)"
proof (induction st rule: tbl_loop.induct)
  case (1 st)
  show ?case
  proof (cases "tin st")
    case Nil
    then show ?thesis using "1.prems" by (simp add: tbl_loop.simps [of st])
  next
    case (Cons c cs)
    have cl: "safe (\<lambda>_. True) (if isspace c then Done cs else clear_stdin cs)" by (simp add: safe_clear_stdin)
    show ?thesis
      unfolding tbl_loop.simps [of st] Cons list.case
    proof (cases "if isspace c then Done cs else clear_stdin cs")
      case (Done cs1)
      have "wf_table (st\<lparr>tin := cs1\<rparr>)" using "1.prems" by (simp add: wf_table_def)
      note t = safe_tbl_command [OF this, of "int (of_char c) - 48"]
      show "safe (\<lambda>(s, st'). wf_table st') (bind_run (if isspace c then Done cs else clear_stdin cs) (\<lambda>cs1.
          bind_run (tbl_command (int (of_char c) - 48) (st\<lparr>tin := cs1\<rparr>)) (\<lambda>(go, s, st1).
            if go then tbl_loop st1 else Done (s, st1))))"
      proof (cases "tbl_command (int (of_char c) - 48) (st\<lparr>tin := cs1\<rparr>)")
        case c: (Done x)
        obtain go s st1 where x: "x = (go, s, st1)" by (cases x)
        then have "wf_table st1" using t c by simp
        then show ?thesis using "1.IH" [OF Cons Done c] Done c x by auto
      qed (use t Done in auto)
    qed (use cl in auto)
  qed
qed

text \<open>
  C38: no input makes the program of LAB_4 read or write outside its table of 64 slots; when it
  returns, its table still has 64 slots, each free or holding a customer whose five strings are
  not empty and fit their arrays, and whose age is positive.
\<close>

theorem tbl_main_safe:
  "case tbl_main inp of Done (s, st) \<Rightarrow> wf_table st \<and> (s = 0 \<or> s = 1) | Diverge \<Rightarrow> True | Fault f \<Rightarrow> False"
proof -
  have "wf_table (ledger_init inp)" by (simp add: wf_table_def ledger_init_def wf_cust_def)
  from safe_tbl_loop [OF this] show ?thesis
    by (cases "tbl_loop (ledger_init inp)") (auto simp: tbl_main_def)
qed

section \<open>Witnesses\<close>

definition typed_cust :: cust where
  "typed_cust = \<lparr>name = ''Ann'', middle_name = ''B'', last_name = ''C'', phone_number = ''17'',
     occupation = ''D'', age = 30\<rparr>"


theorem tbl_remove_witness:
  "\<exists>st'. tbl_remove ((ledger_init (''Ann'' @ NL # answers 1))\<lparr>slots := [typed_cust, typed_cust] @ replicate 62 blank\<rparr>)
      = Done (True, st') \<and> customers st' = {#typed_cust#}"
proof -
  let ?st = "(ledger_init (''Ann'' @ NL # answers 1))\<lparr>slots := [typed_cust, typed_cust] @ replicate 62 blank\<rparr>"
  have m: "matches ''Ann'' (slots ?st) = [typed_cust, typed_cust]"
    by (simp add: matches_def typed_cust_def blank_def)
  have c: "customers ?st = {#typed_cust, typed_cust#}"
    by (simp add: customers_def typed_cust_def blank_def occupied_def)
  have "tin ?st = ''Ann'' @ NL # answers 1 @ []" by (simp add: ledger_init_def)
  from tbl_remove_refines [OF _ _ this] m c show ?thesis by (auto simp: tline_def)
qed

end
