(* ===== verification/Shell_Text.thy ===== *)
theory Shell_Text
  imports Lab_Prelude
begin

text \<open>
  LAB_12/task_mini_bash: the shell that splits a line into commands, changes directory, and runs
  each command in a child. The system calls whose results the program only tests are in a
  record; messages are left out. The loop over the input lines and the counting of arguments
  are the same in LAB_14, which adds pipes.
\<close>

section \<open>The system and the actions of a shell\<close>

abbreviation SH_FAIL :: int where "SH_FAIL \<equiv> -1"
abbreviation SH_OK :: int where "SH_OK \<equiv> 0"
abbreviation SH_QUIT :: int where "SH_QUIT \<equiv> 1"
abbreviation SH_CHDIR :: int where "SH_CHDIR \<equiv> 2"

text \<open>
  The environment (\<open>USER\<close>, the host name), \<open>getcwd\<close>, \<open>HOME\<close>, \<open>chdir\<close> of a path, and
  \<open>fork\<close>, by the number of actions done before it.
\<close>

record sh_os =
  env_ok :: bool
  cwd_ok :: bool
  home_dir :: "string option"
  chdir_ok :: "string \<Rightarrow> bool"
  fork_ok :: "nat \<Rightarrow> bool"

section \<open>Counting and cutting\<close>

text \<open>\<open>smart_space_cnt\<close>, \<open>arg_count\<close> in LAB_14: the runs of white space between words.\<close>

function space_runs :: "string \<Rightarrow> nat" where
  "space_runs [] = 0"
| "space_runs (c # s) =
     (if isspace c then
        (case dropWhile isspace s of [] \<Rightarrow> 0 | d # r \<Rightarrow> 1 + space_runs r)
      else space_runs s)"
  by pat_completeness auto

termination
proof (relation "measure length", simp_all, goal_cases)
  case (1 c s d r)
  then show ?case using length_dropWhile_le [of isspace s] by simp
qed

definition smart_space_cnt :: "string \<Rightarrow> nat" where
  "smart_space_cnt buf = space_runs (dropWhile isspace buf)"

definition is_delim :: "char \<Rightarrow> bool" where
  "is_delim c \<longleftrightarrow> c \<in> set '';&&''"

text \<open>The argument of \<open>cd\<close>: the first word; empty stands for the home directory.\<close>

definition cd_arg :: "string \<Rightarrow> string" where
  "cd_arg t = takeWhile (\<lambda>c. \<not> isspace c) (dropWhile isspace t)"

section \<open>parse_cmd of LAB_12\<close>

datatype kid = Exec "string list" | Crashed

datatype sh_act = Ran kid | Went string

text \<open>
  The child: \<open>argv\<close> has one entry more than the words that were counted, for the null pointer
  at the end. Words past it are written outside, and without a null pointer \<open>execvp\<close> reads
  outside; \<open>execvp(NULL, ...)\<close> of a blank command does not run anything either.
\<close>

definition child_argv :: "string \<Rightarrow> kid" where
  "child_argv cmd =
     (let arg_num = smart_space_cnt cmd + 1;
          words = strtok_all (\<lambda>c. c = CHR '' '') cmd
      in if length words \<ge> arg_num + 1 \<or> words = [] then Crashed else Exec words)"

fun parse_toks :: "sh_os \<Rightarrow> string list \<Rightarrow> int \<Rightarrow> sh_act list \<Rightarrow> int \<times> sh_act list" where
  "parse_toks os [] ret acts = (ret, acts)"
| "parse_toks os (tok # toks) ret acts =
     (let t = dropWhile isspace tok in
      if t = ''exit'' then (SH_QUIT, acts)
      else if take 2 t = ''cd'' then
        (let a = cd_arg (drop 2 t) in
         case (if a = [] then home_dir os else Some a) of
           None \<Rightarrow> (SH_FAIL, acts)
         | Some d \<Rightarrow>
             if chdir_ok os d then parse_toks os toks SH_CHDIR (acts @ [Went d])
             else parse_toks os toks SH_FAIL acts)
      else if fork_ok os (length acts) then parse_toks os toks ret (acts @ [Ran (child_argv t)])
      else parse_toks os toks ret acts)"

definition parse_cmd :: "sh_os \<Rightarrow> string \<Rightarrow> int \<times> sh_act list" where
  "parse_cmd os buf = parse_toks os (strtok_all is_delim buf) SH_OK []"

section \<open>The loop over the lines\<close>

abbreviation SH_BUFSIZ :: nat where "SH_BUFSIZ \<equiv> 8192"

function shell_loop ::
  "(string \<Rightarrow> (int \<times> 'a list) run) \<Rightarrow> string \<Rightarrow> int \<Rightarrow> 'a list \<Rightarrow> (int \<times> 'a list) run" where
  "shell_loop parse inp ret acts =
     (case fgets (SH_BUFSIZ + 1) inp of
        None \<Rightarrow> Done (ret, acts)
      | Some (l, r) \<Rightarrow>
          if hd l = NL then shell_loop parse r ret acts
          else if NL \<notin> set (cstr l) then
            bind_run (clear_stdin r) (\<lambda>r1. shell_loop parse r1 ret acts)
          else bind_run (parse (takeWhile (\<lambda>c. c \<noteq> NL) (cstr l))) (\<lambda>(rt, new).
                 if rt = SH_QUIT then Done (0, acts @ new)
                 else if rt = SH_FAIL then Done (1, acts @ new)
                 else shell_loop parse r rt (acts @ new)))"
  by pat_completeness auto

termination
  by (relation "measure (\<lambda>(p, inp, ret, acts). length inp)")
    (auto dest!: fgets_shorter clear_stdin_length)

declare shell_loop.simps [simp del]

definition pseudo_bash :: "sh_os \<Rightarrow> string \<Rightarrow> (int \<times> sh_act list) run" where
  "pseudo_bash os inp =
     (if env_ok os \<and> cwd_ok os then shell_loop (\<lambda>l. Done (parse_cmd os l)) inp 1 []
      else Done (1, []))"

section \<open>Properties\<close>

definition sword :: "string \<Rightarrow> bool" where
  "sword w \<longleftrightarrow> w \<noteq> [] \<and> (\<forall>c \<in> set w. \<not> isspace c \<and> \<not> is_delim c \<and> c \<noteq> NUL)"

fun unwords :: "string list \<Rightarrow> string" where
  "unwords [] = []"
| "unwords [w] = w"
| "unwords (w # v # ws) = w @ CHR '' '' # unwords (v # ws)"

lemma isspace_consts [simp]: "isspace CHR '' ''" "isspace NL" "\<not> isspace NUL"
  by (simp_all add: isspace_def)

lemma sword_nospace: "sword w \<Longrightarrow> \<forall>c \<in> set w. c \<noteq> CHR '' ''"
  unfolding sword_def using isspace_consts(1) by blast

lemma is_delim_consts [simp]: "is_delim CHR '';''" "\<not> is_delim CHR '' ''" "\<not> is_delim NUL" "\<not> is_delim NL"
  by (simp_all add: is_delim_def)

lemma sword_char: "sword w \<Longrightarrow> c \<in> set w \<Longrightarrow> \<not> is_delim c \<and> c \<noteq> NUL \<and> c \<noteq> NL \<and> c \<noteq> CHR '' ''"
  unfolding sword_def using isspace_consts by blast

lemma unwords_words:
  "ws \<noteq> [] \<Longrightarrow> \<forall>w \<in> set ws. sword w \<Longrightarrow> strtok_all (\<lambda>c. c = CHR '' '') (unwords ws) = ws"
proof (induction ws rule: unwords.induct)
  case (2 w)
  then show ?case using sword_nospace [of w] strtok_all_last [of w "\<lambda>c. c = CHR '' ''"] by (simp add: sword_def)
next
  case (3 w v ws)
  have "strtok_all (\<lambda>c. c = CHR '' '') (w @ CHR '' '' # unwords (v # ws)) = w # strtok_all (\<lambda>c. c = CHR '' '') (unwords (v # ws))"
    using 3(3) sword_nospace [of w] by (intro strtok_all_token) (auto simp: sword_def)
  then show ?case using 3 by simp
qed simp

lemma space_runs_word: "\<forall>c \<in> set w. \<not> isspace c \<Longrightarrow> space_runs (w @ s) = space_runs s"
  by (induction w) simp_all

lemma unwords_hd: "sword w \<Longrightarrow> \<exists>c r. unwords (w # ws) = c # r \<and> \<not> isspace c"
  by (cases w; cases ws) (auto simp: sword_def)

lemma space_runs_unwords:
  "ws \<noteq> [] \<Longrightarrow> \<forall>w \<in> set ws. sword w \<Longrightarrow> space_runs (unwords ws) = length ws - 1"
proof (induction ws rule: unwords.induct)
  case (2 w)
  then show ?case using space_runs_word [of w "[]"] by (auto simp: sword_def)
next
  case (3 w v ws)
  obtain c r where c: "unwords (v # ws) = c # r" "\<not> isspace c" using unwords_hd [of v ws] 3(3) by auto
  have "space_runs (unwords (w # v # ws)) = space_runs (CHR '' '' # c # r)"
    using 3(3) space_runs_word [of w "CHR '' '' # unwords (v # ws)"] c(1) by (simp add: sword_def)
  also have "\<dots> = 1 + space_runs (c # r)" using c(2) by simp
  finally show ?case using 3 c(1) by simp
qed simp

lemma smart_space_cnt_unwords:
  assumes "ws \<noteq> []" "\<forall>w \<in> set ws. sword w"
  shows "smart_space_cnt (unwords ws) = length ws - 1"
proof -
  obtain w vs where w: "ws = w # vs" using assms(1) by (cases ws) auto
  then have "dropWhile isspace (unwords ws) = unwords ws" using unwords_hd [of w vs] assms(2) by auto
  then show ?thesis using space_runs_unwords [OF assms] by (simp add: smart_space_cnt_def)
qed

text \<open>A command of plain words that is neither \<open>exit\<close> nor taken for \<open>cd\<close>.\<close>

definition plain_command :: "string list \<Rightarrow> bool" where
  "plain_command ws \<longleftrightarrow> ws \<noteq> [] \<and> (\<forall>w \<in> set ws. sword w) \<and> unwords ws \<noteq> ''exit'' \<and> take 2 (unwords ws) \<noteq> ''cd''"

fun semi_line :: "string list list \<Rightarrow> string" where
  "semi_line [] = []"
| "semi_line [ws] = unwords ws"
| "semi_line (ws # vs # cs) = unwords ws @ CHR '';'' # CHR '' '' # semi_line (vs # cs)"

lemma unwords_no_delim: "\<forall>w \<in> set ws. sword w \<Longrightarrow> c \<in> set (unwords ws) \<Longrightarrow> \<not> is_delim c \<and> c \<noteq> NUL \<and> c \<noteq> NL"
  by (induction ws rule: unwords.induct) (auto dest: sword_char)

lemma unwords_ne: "ws \<noteq> [] \<Longrightarrow> \<forall>w \<in> set ws. sword w \<Longrightarrow> unwords ws \<noteq> []"
  by (cases ws rule: unwords.cases) (auto simp: sword_def)

lemma child_argv_plain: "plain_command ws \<Longrightarrow> child_argv (unwords ws) = Exec ws"
  using smart_space_cnt_unwords [of ws] unwords_words [of ws]
  by (cases ws) (auto simp: plain_command_def child_argv_def)

lemma trim_plain: "plain_command ws \<Longrightarrow> dropWhile isspace (unwords ws) = unwords ws"
  using unwords_hd [of "hd ws" "tl ws"] by (cases ws) (auto simp: plain_command_def)

lemma semi_tokens:
  "cs \<noteq> [] \<Longrightarrow> \<forall>ws \<in> set cs. plain_command ws \<Longrightarrow>
   \<exists>toks. strtok_all is_delim (semi_line cs) = unwords (hd cs) # toks \<and>
     strtok_all is_delim (CHR '' '' # semi_line cs) = (CHR '' '' # unwords (hd cs)) # toks \<and>
     map (dropWhile isspace) toks = map unwords (tl cs)"
proof (induction cs rule: semi_line.induct)
  case (2 ws)
  have p: "\<forall>w \<in> set ws. sword w" "ws \<noteq> []" using 2 by (auto simp: plain_command_def)
  have nd: "\<forall>c \<in> set (unwords ws). \<not> is_delim c" using unwords_no_delim [OF p(1)] by blast
  show ?case
    using strtok_all_last [of "unwords ws" is_delim] strtok_all_last [of "CHR '' '' # unwords ws" is_delim] nd
      unwords_ne [OF p(2,1)] by simp
next
  case (3 ws vs cs)
  have p: "\<forall>w \<in> set ws. sword w" "ws \<noteq> []" using 3(3) by (auto simp: plain_command_def)
  have nd: "\<forall>c \<in> set (unwords ws). \<not> is_delim c" using unwords_no_delim [OF p(1)] by blast
  note d = is_delim_consts
  obtain toks where t: "strtok_all is_delim (CHR '' '' # semi_line (vs # cs)) = (CHR '' '' # unwords vs) # toks"
    "map (dropWhile isspace) toks = map unwords cs"
    using 3 by auto
  have "strtok_all is_delim (unwords ws @ CHR '';'' # (CHR '' '' # semi_line (vs # cs))) =
      unwords ws # (CHR '' '' # unwords vs) # toks"
    using strtok_all_token [of "unwords ws" is_delim "CHR '';''"] nd d t(1) unwords_ne [OF p(2,1)] by simp
  moreover have "strtok_all is_delim ((CHR '' '' # unwords ws) @ CHR '';'' # (CHR '' '' # semi_line (vs # cs))) =
      (CHR '' '' # unwords ws) # (CHR '' '' # unwords vs) # toks"
    using strtok_all_token [of "CHR '' '' # unwords ws" is_delim "CHR '';''"] nd d t(1) by simp
  moreover have "dropWhile isspace (CHR '' '' # unwords vs) = unwords vs"
    using trim_plain [of vs] 3(3) by simp
  ultimately show ?case using t(2) by simp
qed simp

lemma parse_toks_plain:
  "map (dropWhile isspace) toks = map unwords cs \<Longrightarrow> \<forall>ws \<in> set cs. plain_command ws \<Longrightarrow>
   \<forall>n. fork_ok os n \<Longrightarrow> parse_toks os toks ret acts = (ret, acts @ map (\<lambda>ws. Ran (Exec ws)) cs)"
proof (induction cs arbitrary: toks acts)
  case (Cons ws cs)
  then obtain t ts where t: "toks = t # ts" "dropWhile isspace t = unwords ws" "map (dropWhile isspace) ts = map unwords cs"
    by (cases toks) auto
  then show ?case using Cons child_argv_plain [of ws] by (simp add: plain_command_def Let_def)
qed simp

text \<open>
  C40: the shell of LAB_12 runs the commands of a line one after the other, each with exactly its
  words as arguments, under these conditions: the commands are joined by "; ", each of them is made of plain words (without
  white space, semicolons and ampersands) joined by single spaces, none is \<open>exit\<close>, none begins with the letters
  \<open>cd\<close>, and every \<open>fork\<close> succeeds.
\<close>

theorem parse_cmd_runs_all:
  assumes "\<forall>ws \<in> set cs. plain_command ws" and "\<forall>n. fork_ok os n"
  shows "parse_cmd os (semi_line cs) = (SH_OK, map (\<lambda>ws. Ran (Exec ws)) cs)"
proof (cases cs)
  case Nil
  then show ?thesis by (simp add: parse_cmd_def)
next
  case (Cons ws vs)
  obtain toks where t: "strtok_all is_delim (semi_line cs) = unwords ws # toks"
    "map (dropWhile isspace) toks = map unwords vs"
    using semi_tokens [OF _ assms(1)] Cons by auto
  have "map (dropWhile isspace) (unwords ws # toks) = map unwords cs"
    using t(2) Cons trim_plain [of ws] assms(1) by simp
  from parse_toks_plain [OF this assms] show ?thesis by (simp add: parse_cmd_def t(1))
qed

text \<open>A system on which every call succeeds.\<close>

definition good_os :: sh_os where
  "good_os = \<lparr>env_ok = True, cwd_ok = True, home_dir = Some ''/root'', chdir_ok = (\<lambda>d. True), fork_ok = (\<lambda>n. True)\<rparr>"

lemma plain_ls: "plain_command [''ls'', ''-l'']" "plain_command [''pwd'']"
  by (auto simp: plain_command_def sword_def isspace_def is_delim_def)

theorem parse_cmd_witness:
  "parse_cmd good_os ''ls -l; pwd'' = (SH_OK, [Ran (Exec [''ls'', ''-l'']), Ran (Exec [''pwd''])])"
  using parse_cmd_runs_all [of "[[''ls'', ''-l''], [''pwd'']]" good_os] plain_ls by (simp add: good_os_def)

text \<open>
  every word that starts with "cd" is taken for the command \<open>cd\<close>: "cdrom /x" changes to the
  directory "rom", whatever follows; and a change that fails makes the shell leave with status 1,
  after the rest of the line has run.
\<close>

theorem cd_prefix:
  assumes "\<forall>c \<in> set w. \<not> isspace c \<and> \<not> is_delim c" and "w \<noteq> []"
    and "\<forall>c \<in> set args. \<not> is_delim c"
  shows "parse_cmd os (''cd'' @ w @ CHR '' '' # args) =
     (if chdir_ok os w then (SH_CHDIR, [Went w]) else (SH_FAIL, []))"
proof -
  let ?t = "''cd'' @ w @ CHR '' '' # args"
  have "\<forall>c \<in> set ?t. \<not> is_delim c" using assms by (auto simp: is_delim_def)
  then have s: "strtok_all is_delim ?t = [?t]" by (intro strtok_all_last) simp_all
  have "\<not> isspace CHR ''c''" by (simp add: isspace_def)
  then have d: "dropWhile isspace ?t = ?t" by simp
  have "dropWhile isspace (w @ CHR '' '' # args) = w @ CHR '' '' # args"
    using assms(1,2) by (cases w) auto
  then have "cd_arg (w @ CHR '' '' # args) = w"
    using assms(1) by (simp add: cd_arg_def takeWhile_tail takeWhile_append2)
  then show ?thesis using assms(2) s d by (simp add: parse_cmd_def)
qed

theorem cd_prefix_witness: "parse_cmd good_os (''cd'' @ ''rom'' @ CHR '' '' # ''/x'') = (SH_CHDIR, [Went ''rom''])"
  by (subst cd_prefix) (auto simp: good_os_def isspace_def is_delim_def)

end
