(* ===== verification/Shell_Pipes.thy ===== *)
theory Shell_Pipes
  imports Shell_Text
begin

text \<open>
  LAB_14/task_pipe7: the shell with pipes and redirections. The words of a command, the
  construction of the command context, the descriptors of the parent and of every child, and
  the loop over a line, with the one static position that all calls of \<open>strtok\<close> share.
  Memory is taken to be available: the failures of \<open>calloc\<close> and \<open>strdup\<close> are left out.
\<close>

section \<open>strtok and its static position\<close>

text \<open>One call: the token, if any, and the position that the next call starts from.\<close>

definition strtok_next :: "(char \<Rightarrow> bool) \<Rightarrow> string \<Rightarrow> string option \<times> string" where
  "strtok_next d s =
     (case dropWhile d s of
        [] \<Rightarrow> (None, [])
      | c # r \<Rightarrow> (Some (c # takeWhile (\<lambda>x. \<not> d x) r), tl (dropWhile (\<lambda>x. \<not> d x) r)))"

lemma strtok_next_shorter: "strtok_next d s = (Some t, r) \<Longrightarrow> length r < length s"
proof -
  assume a: "strtok_next d s = (Some t, r)"
  then obtain c x where x: "dropWhile d s = c # x" "r = tl (dropWhile (\<lambda>x. \<not> d x) x)"
    by (auto simp: strtok_next_def split: list.splits)
  have "length (c # x) \<le> length s" using length_dropWhile_le [of d s] x(1) by simp
  moreover have "length r \<le> length x"
    using length_dropWhile_le [of "\<lambda>x. \<not> d x" x] x(2) by simp
  ultimately show ?thesis by simp
qed

text \<open>All the tokens, and the position that is left.\<close>

function strtok_words :: "(char \<Rightarrow> bool) \<Rightarrow> string \<Rightarrow> string list \<times> string" where
  "strtok_words d s =
     (case strtok_next d s of
        (None, r) \<Rightarrow> ([], r)
      | (Some t, r) \<Rightarrow> let (ts, r2) = strtok_words d r in (t # ts, r2))"
  by pat_completeness auto

termination by (relation "measure (\<lambda>(d, s). length s)") (auto dest: strtok_next_shorter [OF sym])

declare strtok_words.simps [simp del]

section \<open>The words of a command\<close>

definition arg_count :: "string \<Rightarrow> nat" where
  "arg_count buf = smart_space_cnt buf"

text \<open>
  \<open>argv\<close> has \<open>argc\<close> entries, the count of the words that \<open>arg_count\<close> sees. \<open>strtok\<close>
  splits at blanks only: more words are written past the end, and an entry that was not written
  is a null pointer, which the loop that looks for operators dereferences.
\<close>

definition make_argv :: "string \<Rightarrow> string list run" where
  "make_argv cmd =
     (let argc = arg_count cmd + 1; ws = fst (strtok_words (\<lambda>c. c = CHR '' '') cmd) in
      if length ws > argc then Fault OutOfBounds
      else if length ws < argc then Fault NullDeref
      else Done ws)"

definition is_pipe :: "string \<Rightarrow> bool" where "is_pipe w \<longleftrightarrow> w \<noteq> [] \<and> hd w = CHR ''|''"
definition is_redir :: "string \<Rightarrow> bool" where "is_redir w \<longleftrightarrow> w \<noteq> [] \<and> (hd w = CHR ''<'' \<or> hd w = CHR ''>'')"

fun last_idx :: "(string \<Rightarrow> bool) \<Rightarrow> string list \<Rightarrow> nat \<Rightarrow> nat option \<Rightarrow> nat option" where
  "last_idx P [] i r = r"
| "last_idx P (w # ws) i r = last_idx P ws (i + 1) (if P w then Some i else r)"

section \<open>The command context\<close>

abbreviation RD :: nat where "RD \<equiv> 0"
abbreviation WR :: nat where "WR \<equiv> 1"

text \<open>
  The code compares \<open>to_from[k]->cmd == cmds[i][0]\<close>, two pointers out of \<open>argv\<close>: both are the
  index of an entry here.
\<close>

record redir =
  direct :: nat
  file_name :: string
  rcmd :: nat

record cmd_ctx =
  cmds :: "(nat \<times> string list) option list"
  to_from :: "redir option list"
  pipe_num :: nat
  redir_num :: nat

fun back_to_pipe :: "string list \<Rightarrow> nat \<Rightarrow> nat" where
  "back_to_pipe argv 0 = 0"
| "back_to_pipe argv (Suc j) = (if is_pipe (argv ! Suc j) then Suc j else back_to_pipe argv j)"

function build_redirs :: "string list \<Rightarrow> nat \<Rightarrow> (redir list \<times> nat) run" where
  "build_redirs argv j =
     (if j < length argv \<and> is_redir (argv ! j) then
        if j + 1 < length argv then
          let cnt = back_to_pipe argv j;
              r = \<lparr>direct = (if hd (argv ! j) = CHR ''>'' then WR else RD),
                   file_name = argv ! (j + 1),
                   rcmd = (if is_pipe (argv ! cnt) then cnt + 1 else cnt)\<rparr>
          in bind_run (build_redirs argv (j + 2)) (\<lambda>(rs, j2). Done (r # rs, j2))
        else Fault OutOfBounds
      else Done ([], j))"
  by pat_completeness auto

termination by (relation "measure (\<lambda>(argv, j). length argv - j)") auto

declare build_redirs.simps [simp del]

fun build_cmds :: "string list \<Rightarrow> nat \<Rightarrow> nat \<Rightarrow> ((nat \<times> string list) option list \<times> redir list) run" where
  "build_cmds argv 0 nx = Done ([], [])"
| "build_cmds argv (Suc n) nx =
     (let ws = takeWhile (\<lambda>w. \<not> is_pipe w \<and> \<not> is_redir w) (drop nx argv);
          j = nx + length ws;
          c = (if ws = [] then None else Some (nx, ws))
      in if j < length argv then
           bind_run (build_redirs argv j) (\<lambda>(rs, j2).
             bind_run (build_cmds argv n (j2 + 1)) (\<lambda>(cs, rs2). Done (c # cs, rs @ rs2)))
         else bind_run (build_cmds argv n nx) (\<lambda>(cs, rs2). Done (c # cs, rs2)))"

text \<open>\<open>None\<close> is \<open>goto err\<close> on an operator at either end.\<close>

definition build_ctx :: "string list \<Rightarrow> cmd_ctx option run" where
  "build_ctx argv =
     (let pn = length (filter is_pipe argv);
          rn = length (filter (\<lambda>w. \<not> is_pipe w \<and> is_redir w) argv);
          pi = last_idx is_pipe argv 0 None;
          ri = last_idx (\<lambda>w. \<not> is_pipe w \<and> is_redir w) argv 0 None
      in if pi = Some 0 \<or> pi = Some (length argv - 1) then Done None
         else if ri = Some 0 \<or> ri = Some (length argv - 1) then Done None
         else bind_run (build_cmds argv (pn + 1) 0) (\<lambda>(cs, rs).
                Done (Some \<lparr>cmds = cs, to_from = map Some rs @ replicate (rn - length rs) None,
                            pipe_num = pn, redir_num = rn\<rparr>)))"

section \<open>Descriptors\<close>

datatype fdobj = Term nat | Pipe_read nat | Pipe_write nat | File_in string | File_out string

type_synonym fdtab = "fdobj option list"

definition fd_at :: "fdtab \<Rightarrow> nat \<Rightarrow> fdobj option" where
  "fd_at t k = (if k < length t then t ! k else None)"

definition lowest_free :: "fdtab \<Rightarrow> nat" where
  "lowest_free t = length (takeWhile (\<lambda>x. x \<noteq> None) t)"

definition fd_open :: "fdobj \<Rightarrow> fdtab \<Rightarrow> nat \<times> fdtab" where
  "fd_open x t =
     (let k = lowest_free t in (k, if k < length t then t[k := Some x] else t @ [Some x]))"

text \<open>\<open>close\<close> and \<open>dup2\<close>: \<open>None\<close> when the descriptor is not open.\<close>

definition fd_close :: "int \<Rightarrow> fdtab \<Rightarrow> fdtab option" where
  "fd_close fd t =
     (if 0 \<le> fd \<and> fd_at t (nat fd) \<noteq> None then Some (t[nat fd := None]) else None)"

definition fd_dup2 :: "int \<Rightarrow> nat \<Rightarrow> fdtab \<Rightarrow> fdtab option" where
  "fd_dup2 old new t =
     (if 0 \<le> old \<and> fd_at t (nat old) \<noteq> None
      then Some ((t @ replicate (new + 1 - length t) None)[new := fd_at t (nat old)]) else None)"

section \<open>The child\<close>

text \<open>What becomes of a child: it runs a program with a table, exits with a failure, or crashes.\<close>

datatype child = Runs "string list" fdtab | Exits | Crashes

datatype 'a cstep = Go 'a | Exited | Crash

fun cbind :: "'a cstep \<Rightarrow> ('a \<Rightarrow> 'b cstep) \<Rightarrow> 'b cstep" where
  "cbind (Go x) k = k x"
| "cbind Exited k = Exited"
| "cbind Crash k = Crash"

definition sys :: "'a option \<Rightarrow> 'a cstep" where
  "sys x = (case x of None \<Rightarrow> Exited | Some y \<Rightarrow> Go y)"

text \<open>The results of \<open>pipe\<close>, \<open>fork\<close>, \<open>open\<close> and \<open>waitpid\<close> by the index of the command.\<close>

record pipe_os =
  pipe_ok :: "nat \<Rightarrow> bool"
  pfork_ok :: "nat \<Rightarrow> bool"
  open_ok :: "nat \<Rightarrow> string \<Rightarrow> bool"
  wait_status :: "nat \<Rightarrow> bool \<Rightarrow> int"

abbreviation pl_get :: "(int \<times> int) list \<Rightarrow> nat \<Rightarrow> nat \<Rightarrow> int" where
  "pl_get pl k e \<equiv> (if e = RD then fst (pl ! k) else snd (pl ! k))"

definition child_file :: "pipe_os \<Rightarrow> nat \<Rightarrow> nat \<Rightarrow> redir \<Rightarrow> fdtab \<Rightarrow> fdtab cstep" where
  "child_file os how i r t =
     (if open_ok os how (file_name r) then
        let (fd, t1) = fd_open (if how = WR then File_out (file_name r) else File_in (file_name r)) t
        in sys (fd_dup2 (int fd) (direct r) t1)
      else Exited)"

text \<open>
  Does \<open>to_from[ridx]\<close> belong to the command that starts at entry \<open>start\<close>? It is
  dereferenced when \<open>ridx\<close> is in range.
\<close>

definition redir_for :: "cmd_ctx \<Rightarrow> nat \<Rightarrow> nat \<Rightarrow> redir option cstep" where
  "redir_for ctx ridx start =
     (if ridx < redir_num ctx then
        case to_from ctx ! ridx of
          None \<Rightarrow> Crash
        | Some r \<Rightarrow> Go (if rcmd r = start then Some r else None)
      else Go None)"

definition child_fds :: "pipe_os \<Rightarrow> cmd_ctx \<Rightarrow> (int \<times> int) list \<Rightarrow> nat \<Rightarrow> nat \<Rightarrow> nat \<Rightarrow> nat \<Rightarrow> nat \<Rightarrow> fdtab \<Rightarrow> fdtab cstep" where
  "child_fds os ctx pl prev pidx ridx i start t =
     (let pn = pipe_num ctx; e = (if pidx > 0 then RD else WR) in
      cbind (if pn > 0 \<and> pl_get pl prev e > 0 then sys (fd_dup2 (pl_get pl prev e) e t) else Go t) (\<lambda>t1.
      cbind (redir_for ctx ridx start) (\<lambda>r.
      cbind (case r of None \<Rightarrow> Go (t1, ridx)
             | Some rd \<Rightarrow> cbind (child_file os (direct rd) i rd t1) (\<lambda>t2. Go (t2, ridx + 1))) (\<lambda>(t2, ridx2).
      cbind (if pidx > 0 \<and> pidx < pn then sys (fd_dup2 (pl_get pl pidx WR) 1 t2) else Go t2) (\<lambda>t3.
      cbind (if ridx2 > 0 then redir_for ctx ridx2 start else Go None) (\<lambda>r2.
      cbind (case r2 of None \<Rightarrow> Go t3 | Some rd \<Rightarrow> child_file os WR i rd t3) (\<lambda>t4.
      cbind (if pn > 0 \<and> pl_get pl prev WR > 0 then sys (fd_close (pl_get pl prev WR) t4) else Go t4) (\<lambda>t5.
      cbind (if pn > 0 then sys (fd_close (pl_get pl prev RD) t5) else Go t5) (\<lambda>t6.
      if pidx > 0 \<and> pidx < pn then
        cbind (sys (fd_close (pl_get pl pidx WR) t6)) (\<lambda>t7. sys (fd_close (pl_get pl pidx RD) t7))
      else Go t6)))))))))"

definition child_section :: "pipe_os \<Rightarrow> cmd_ctx \<Rightarrow> (int \<times> int) list \<Rightarrow> nat \<Rightarrow> nat \<Rightarrow> nat \<Rightarrow> nat \<Rightarrow> fdtab \<Rightarrow> child" where
  "child_section os ctx pl prev pidx ridx i t =
     (case cmds ctx ! i of
        None \<Rightarrow> Crashes
      | Some (start, argv) \<Rightarrow>
          (case (if pipe_num ctx > 0 \<or> redir_num ctx > 0
                 then child_fds os ctx pl prev pidx ridx i start t else Go t) of
             Go t1 \<Rightarrow> Runs argv t1
           | Exited \<Rightarrow> Exits
           | Crash \<Rightarrow> Crashes))"

section \<open>exec_cmd_list\<close>

record pstate =
  pfds :: fdtab
  plist :: "(int \<times> int) list"
  kids :: "child list"

text \<open>The calls of \<open>close\<close> whose result the parent ignores.\<close>

definition quiet_close :: "int \<Rightarrow> fdtab \<Rightarrow> fdtab" where
  "quiet_close fd t = (case fd_close fd t of None \<Rightarrow> t | Some t1 \<Rightarrow> t1)"

definition make_pipe :: "nat \<Rightarrow> pstate \<Rightarrow> pstate" where
  "make_pipe k st =
     (let (r, t1) = fd_open (Pipe_read k) (pfds st);
          (w, t2) = fd_open (Pipe_write k) t1
      in st\<lparr>pfds := t2, plist := (plist st)[k := (int r, int w)]\<rparr>)"

definition parent_close :: "cmd_ctx \<Rightarrow> nat \<Rightarrow> nat \<Rightarrow> pstate \<Rightarrow> pstate" where
  "parent_close ctx prev pidx st =
     (let st1 = (if pidx < pipe_num ctx then
                   st\<lparr>pfds := quiet_close (snd (plist st ! pidx)) (pfds st),
                      plist := (plist st)[pidx := (fst (plist st ! pidx), -1)]\<rparr>
                 else st)
      in if pidx > 0 \<and> prev < pipe_num ctx then
           st1\<lparr>pfds := quiet_close (fst (plist st1 ! prev)) (pfds st1),
               plist := (plist st1)[prev := (-1, snd (plist st1 ! prev))]\<rparr>
         else st1)"

text \<open>
  The parent moves \<open>redir_idx\<close> past the redirections of the command it has started; it looks
  for the second one at \<open>redir_idx + 1\<close>, after the first \<open>redir_idx++\<close>.
\<close>

definition advance_redir :: "cmd_ctx \<Rightarrow> nat \<Rightarrow> nat \<Rightarrow> nat run" where
  "advance_redir ctx ridx i =
     (if ridx < redir_num ctx then
        case (to_from ctx ! ridx, cmds ctx ! i) of
          (Some r, Some (start, argv)) \<Rightarrow>
            let ridx1 = (if rcmd r = start then ridx + 1 else ridx) in
            if ridx1 + 1 < redir_num ctx then
              (case to_from ctx ! (ridx1 + 1) of
                 None \<Rightarrow> Fault NullDeref
               | Some r2 \<Rightarrow> Done (if rcmd r2 = start then ridx1 + 1 else ridx1))
            else Done ridx1
        | _ \<Rightarrow> Fault NullDeref
      else Done ridx)"

text \<open>
  The loop over the commands, \<open>n\<close> of them left; the first component says whether the children
  are waited for (a failing \<open>pipe\<close> returns at once) and the second is \<open>ret\<close>.
\<close>

fun exec_loop :: "pipe_os \<Rightarrow> cmd_ctx \<Rightarrow> nat \<Rightarrow> nat \<Rightarrow> nat \<Rightarrow> nat \<Rightarrow> pstate \<Rightarrow> (bool \<times> int \<times> pstate) run" where
  "exec_loop os ctx 0 i pidx ridx st = Done (True, 0, st)"
| "exec_loop os ctx (Suc n) i pidx ridx st =
     (let pn = pipe_num ctx;
          prev = (if pidx > 0 then pidx - 1 else pidx)
      in if pn > 0 \<and> pidx < pn \<and> \<not> pipe_ok os i then Done (False, 1, st)
         else let st1 = (if pn > 0 \<and> pidx < pn then make_pipe pidx st else st) in
           if \<not> pfork_ok os i then Done (True, 1, st1)
           else
             let kid = child_section os ctx (plist st1) prev pidx ridx i (pfds st1);
                 st2 = (if pn > 0 then parent_close ctx prev pidx st1 else st1);
                 st3 = st2\<lparr>kids := kids st2 @ [kid]\<rparr>
             in bind_run (advance_redir ctx ridx i) (\<lambda>ridx1.
                  exec_loop os ctx n (i + 1) (if pn > 0 then pidx + 1 else pidx) ridx1 st3))"

text \<open>\<open>waitpid\<close> puts the wait status of each child into \<open>ret\<close>; a \<open>ret\<close> of 1 kills the next one.\<close>

fun wait_loop :: "pipe_os \<Rightarrow> nat \<Rightarrow> nat \<Rightarrow> int \<Rightarrow> int" where
  "wait_loop os 0 i ret = ret"
| "wait_loop os (Suc n) i ret = wait_loop os n (i + 1) (wait_status os i (ret = 1))"

definition start_fds :: fdtab where
  "start_fds = [Some (Term 0), Some (Term 1), Some (Term 2)]"

text \<open>
  A call starts from the three descriptors of the terminal: what a failed \<open>fork\<close> of an earlier line
  has left open is not carried over.
\<close>

definition exec_cmd_list :: "pipe_os \<Rightarrow> cmd_ctx \<Rightarrow> (int \<times> pstate) run" where
  "exec_cmd_list os ctx =
     bind_run (exec_loop os ctx (length (cmds ctx)) 0 0 0
                 \<lparr>pfds = start_fds, plist = replicate (2 * pipe_num ctx) (0, 0), kids = []\<rparr>)
       (\<lambda>(wait, ret, st). Done (if wait then wait_loop os (length (kids st)) 0 ret else ret, st))"

section \<open>parse_cmd and the shell\<close>

datatype pipe_act = Pipeline "child list" | Moved string

text \<open>
  One command: \<open>None\<close> when it is refused, so that \<open>ret\<close> keeps its value. Freeing the context
  dereferences every entry of \<open>to_from\<close>.
\<close>

definition run_cmd :: "pipe_os \<Rightarrow> string \<Rightarrow> (int \<times> child list) option run" where
  "run_cmd os cmd =
     bind_run (make_argv cmd) (\<lambda>argv.
       bind_run (build_ctx argv) (\<lambda>c.
         case c of
           None \<Rightarrow> Done None
         | Some ctx \<Rightarrow>
             bind_run (exec_cmd_list os ctx) (\<lambda>(ret, st).
               if None \<in> set (to_from ctx) then Fault NullDeref else Done (Some (ret, kids st)))))"

lemma strtok_words_saved: "snd (strtok_words d s) = []"
proof (induction d s rule: strtok_words.induct)
  case (1 d s)
  obtain x r where n: "strtok_next d s = (x, r)" by (cases "strtok_next d s")
  show ?case
  proof (cases x)
    case None
    then have "r = []" using n by (auto simp: strtok_next_def split: list.splits)
    then show ?thesis using n None by (simp add: strtok_words.simps [of d s])
  next
    case (Some t)
    then have "snd (strtok_words d r) = []" using 1 n by auto
    then show ?thesis using n Some by (cases "strtok_words d r") (simp add: strtok_words.simps [of d s])
  qed
qed

text \<open>
  The loop over a line from the static position \<open>saved\<close>. Splitting a command into words moves
  that position to the end of the command's own copy.
\<close>

function parse_from :: "sh_os \<Rightarrow> pipe_os \<Rightarrow> string \<Rightarrow> int \<Rightarrow> pipe_act list \<Rightarrow> (int \<times> pipe_act list) run" where
  "parse_from os pos saved ret acts =
     (case strtok_next is_delim saved of
        (None, r) \<Rightarrow> Done (ret, acts)
      | (Some tok, saved1) \<Rightarrow>
          let t = dropWhile isspace tok in
          if t = ''exit'' then Done (SH_QUIT, acts)
          else if take 2 t = ''cd'' then
            (let a = cd_arg (drop 2 t) in
             case (if a = [] then home_dir os else Some a) of
               None \<Rightarrow> Done (SH_FAIL, acts)
             | Some d \<Rightarrow>
                 if chdir_ok os d then parse_from os pos saved1 SH_CHDIR (acts @ [Moved d])
                 else parse_from os pos saved1 SH_FAIL acts)
          else
            bind_run (run_cmd pos t) (\<lambda>res.
              let saved2 = snd (strtok_words (\<lambda>c. c = CHR '' '') t) in
              case res of
                None \<Rightarrow>
                  if ret = SH_FAIL then Done (ret, acts) else parse_from os pos saved2 ret acts
              | Some (rt, ks) \<Rightarrow>
                  if rt = SH_FAIL then Done (rt, acts @ [Pipeline ks])
                  else parse_from os pos saved2 rt (acts @ [Pipeline ks])))"
  by pat_completeness auto

termination
  by (relation "measure (\<lambda>(os, pos, saved, ret, acts). length saved)")
    (auto dest: strtok_next_shorter [OF sym] simp: strtok_words_saved)

declare parse_from.simps [simp del]

definition pseudo_bash_pipes :: "sh_os \<Rightarrow> pipe_os \<Rightarrow> string \<Rightarrow> (int \<times> pipe_act list) run" where
  "pseudo_bash_pipes os pos inp =
     (if env_ok os \<and> cwd_ok os then shell_loop (\<lambda>l. parse_from os pos l SH_OK []) inp 1 []
      else Done (1, []))"

end
