(* ===== verification/Pipe_Props.thy ===== *)
theory Pipe_Props
  imports Shell_Pipes
begin

text \<open>
  Properties of the LAB_14 shell: the context of a pipeline, the descriptors with which its
  programs start, and what goes wrong with lists of commands, blank lines and redirections.
\<close>

section \<open>Descriptor tables as maps\<close>

lemma lowest_free_at:
  "fd_at t (lowest_free t) = None" "j < lowest_free t \<Longrightarrow> fd_at t j \<noteq> None"
proof -
  let ?P = "\<lambda>x. x \<noteq> (None :: fdobj option)"
  show "fd_at t (lowest_free t) = None"
    using nth_length_takeWhile [of ?P t] by (auto simp: fd_at_def lowest_free_def)
  show "fd_at t j \<noteq> None" if "j < lowest_free t"
  proof -
    have j: "j < length (takeWhile ?P t)" using that by (simp only: lowest_free_def)
    have "?P (takeWhile ?P t ! j)" using set_takeWhileD [OF nth_mem [OF j]] by blast
    then have "?P (t ! j)" unfolding takeWhile_nth [OF j] .
    moreover have "j < length t" using j length_takeWhile_le [of ?P t] by linarith
    ultimately show ?thesis by (simp add: fd_at_def)
  qed
qed

lemma lowest_free_le: "lowest_free t \<le> length t"
  by (simp add: lowest_free_def length_takeWhile_le)

lemma fd_open_at:
  assumes "fd_open x t = (k, t')"
  shows "fd_at t' = (fd_at t)(k := Some x)" "fd_at t k = None" "j < k \<Longrightarrow> fd_at t j \<noteq> None"
proof -
  have k: "k = lowest_free t" "t' = (if k < length t then t[k := Some x] else t @ [Some x])"
    using assms by (auto simp: fd_open_def Let_def)
  show "fd_at t k = None" "j < k \<Longrightarrow> fd_at t j \<noteq> None" using lowest_free_at k(1) by auto
  have "k \<le> length t" using lowest_free_le k(1) by simp
  then show "fd_at t' = (fd_at t)(k := Some x)"
    using k(2) by (auto simp: fd_at_def fun_eq_iff nth_append nth_list_update)
qed

lemma fd_close_at:
  "fd_at t k \<noteq> None \<Longrightarrow> \<exists>t'. fd_close (int k) t = Some t' \<and> fd_at t' = (fd_at t)(k := None)"
  by (auto simp: fd_close_def fd_at_def fun_eq_iff nth_list_update)

lemma fd_dup2_at:
  "fd_at t k \<noteq> None \<Longrightarrow> \<exists>t'. fd_dup2 (int k) new t = Some t' \<and> fd_at t' = (fd_at t)(new := fd_at t k)"
  by (auto simp: fd_dup2_def fd_at_def fun_eq_iff nth_list_update nth_append)

lemma quiet_close_at: "fd_at t k \<noteq> None \<Longrightarrow> fd_at (quiet_close (int k) t) = (fd_at t)(k := None)"
  using fd_close_at [of t k] by (auto simp: quiet_close_def)

definition tty :: "nat \<Rightarrow> fdobj option" where
  "tty = fd_at start_fds"

lemma tty_simps: "tty 0 = Some (Term 0)" "tty 1 = Some (Term 1)" "tty 2 = Some (Term 2)" "tty (Suc 0) = Some (Term 1)" "3 \<le> k \<Longrightarrow> tty k = None"
  by (auto simp: tty_def start_fds_def fd_at_def)

lemma free_ge_3: "m k = None \<Longrightarrow> m 0 \<noteq> None \<Longrightarrow> m 1 \<noteq> None \<Longrightarrow> m 2 \<noteq> None \<Longrightarrow> 3 \<le> (k :: nat)"
proof -
  assume a: "m k = None" "m 0 \<noteq> None" "m 1 \<noteq> None" "m 2 \<noteq> None"
  have "k \<noteq> 0" "k \<noteq> 1" "k \<noteq> 2" using a by metis+
  then show ?thesis by simp
qed

section \<open>The descriptors of a pipeline\<close>

definition pipe_tab :: "nat \<Rightarrow> nat \<Rightarrow> nat \<Rightarrow> fdobj option" where
  "pipe_tab n i = tty(0 := (if 0 < i then Some (Pipe_read (i - 1)) else tty 0),
                      1 := (if i + 1 < n then Some (Pipe_write i) else tty 1))"

definition pipe_ctx :: "cmd_ctx \<Rightarrow> string list list \<Rightarrow> bool" where
  "pipe_ctx ctx cs \<longleftrightarrow> pipe_num ctx = length cs - 1 \<and> redir_num ctx = 0 \<and> to_from ctx = [] \<and>
     length (cmds ctx) = length cs \<and> (\<forall>i < length cs. \<exists>s. cmds ctx ! i = Some (s, cs ! i))"

lemma pipe_ctx_cmd: "pipe_ctx ctx cs \<Longrightarrow> i < length cs \<Longrightarrow> \<exists>s. cmds ctx ! i = Some (s, cs ! i)"
  by (simp add: pipe_ctx_def)

text \<open>The parent before command \<open>i\<close>: beside the terminal it holds the read end of the last pipe.\<close>

definition between :: "nat \<Rightarrow> nat \<Rightarrow> pstate \<Rightarrow> bool" where
  "between n i st \<longleftrightarrow> length (plist st) = 2 * (n - 1) \<and>
     (if i = 0 \<or> i = n then fd_at (pfds st) = tty
      else \<exists>r. 3 \<le> r \<and> plist st ! (i - 1) = (int r, -1) \<and> fd_at (pfds st) = tty(r := Some (Pipe_read (i - 1))))"

lemma sys_Some [simp]: "sys (Some x) = Go x"
  by (simp add: sys_def)

lemma make_pipe_at:
  assumes "fd_at (pfds st) = m" "m 0 \<noteq> None" "m 1 \<noteq> None" "m 2 \<noteq> None"
  obtains r w where "3 \<le> r" "3 \<le> w" "r \<noteq> w" "m r = None" "m w = None"
    "fd_at (pfds (make_pipe k st)) = m(r := Some (Pipe_read k), w := Some (Pipe_write k))"
    "plist (make_pipe k st) = (plist st)[k := (int r, int w)]" "kids (make_pipe k st) = kids st"
proof -
  obtain r t1 where r: "fd_open (Pipe_read k) (pfds st) = (r, t1)" by (cases "fd_open (Pipe_read k) (pfds st)")
  obtain w t2 where w: "fd_open (Pipe_write k) t1 = (w, t2)" by (cases "fd_open (Pipe_write k) t1")
  note ra = fd_open_at [OF r] and wa = fd_open_at [OF w]
  have mr: "m r = None" using ra(2) assms(1) by simp
  have mw: "m w = None" "r \<noteq> w" using wa(2) ra(1) assms(1) by (auto split: if_splits)
  have "3 \<le> r" "3 \<le> w" using free_ge_3 [of m, OF _ assms(2-4)] mr mw(1) by auto
  then show thesis
    using that [of r w] mr mw ra(1) wa(1) r w assms(1) by (simp add: make_pipe_def)
qed

text \<open>One round of the loop, for a first, a middle and a last command.\<close>

definition child_ok :: "string list list \<Rightarrow> nat \<Rightarrow> child \<Rightarrow> bool" where
  "child_ok cs i c \<longleftrightarrow> (\<exists>t. c = Runs (cs ! i) t \<and> fd_at t = pipe_tab (length cs) i)"

lemma no_redir [simp]: "pipe_ctx ctx cs \<Longrightarrow> redir_for ctx x s = Go None"
  "pipe_ctx ctx cs \<Longrightarrow> advance_redir ctx x i = Done x"
  by (simp_all add: redir_for_def advance_redir_def pipe_ctx_def)

lemma first_child:
  assumes c: "pipe_ctx ctx cs" "2 \<le> length cs"
    and t: "fd_at t = tty(r := Some (Pipe_read 0), w := Some (Pipe_write 0))" "3 \<le> r" "3 \<le> w" "r \<noteq> w"
    and p: "pl ! 0 = (int r, int w)"
  shows "child_ok cs 0 (child_section os ctx pl 0 0 0 0 t)"
proof -
  have pn: "pipe_num ctx > 0" using c by (simp add: pipe_ctx_def)
  obtain s where s: "cmds ctx ! 0 = Some (s, cs ! 0)"
    using c by (fastforce simp: pipe_ctx_def)
  obtain t1 where t1: "fd_dup2 (int w) 1 t = Some t1" "fd_at t1 = (fd_at t)(1 := fd_at t w)"
    using fd_dup2_at [of t w 1] t by auto
  obtain t2 where t2: "fd_close (int w) t1 = Some t2" "fd_at t2 = (fd_at t1)(w := None)"
    using fd_close_at [of t1 w] t1 t by auto
  obtain t3 where t3: "fd_close (int r) t2 = Some t3" "fd_at t3 = (fd_at t2)(r := None)"
    using fd_close_at [of t2 r] t2 t1 t by auto
  have "fd_at t3 = pipe_tab (length cs) 0"
    using t3(2) t2(2) t1(2) t c(2) tty_simps by (auto simp: pipe_tab_def fun_eq_iff)
  moreover have "child_section os ctx pl 0 0 0 0 t = Runs (cs ! 0) t3"
    using pn s p t t1(1) t2(1) t3(1) c(1) by (simp add: child_section_def child_fds_def Let_def)
  ultimately show ?thesis by (auto simp: child_ok_def)
qed

lemma middle_child:
  assumes c: "pipe_ctx ctx cs" "0 < i" "i + 1 < length cs"
    and t: "fd_at t = tty(q := Some (Pipe_read (i - 1)), r := Some (Pipe_read i), w := Some (Pipe_write i))"
      "3 \<le> q" "3 \<le> r" "3 \<le> w" "r \<noteq> w" "q \<noteq> r" "q \<noteq> w"
    and p: "pl ! (i - 1) = (int q, -1)" "pl ! i = (int r, int w)"
  shows "child_ok cs i (child_section os ctx pl (i - 1) i 0 i t)"
proof -
  have pn: "pipe_num ctx > 0" "i < pipe_num ctx" using c by (simp_all add: pipe_ctx_def)
  obtain s where s: "cmds ctx ! i = Some (s, cs ! i)" using pipe_ctx_cmd [OF c(1), of i] c(3) by auto
  obtain t1 where t1: "fd_dup2 (int q) 0 t = Some t1" "fd_at t1 = (fd_at t)(0 := fd_at t q)"
    using fd_dup2_at [of t q 0] t by auto
  obtain t2 where t2: "fd_dup2 (int w) 1 t1 = Some t2" "fd_at t2 = (fd_at t1)(1 := fd_at t1 w)"
    using fd_dup2_at [of t1 w 1] t1 t by auto
  obtain t3 where t3: "fd_close (int q) t2 = Some t3" "fd_at t3 = (fd_at t2)(q := None)"
    using fd_close_at [of t2 q] t2 t1 t by auto
  obtain t4 where t4: "fd_close (int w) t3 = Some t4" "fd_at t4 = (fd_at t3)(w := None)"
    using fd_close_at [of t3 w] t3 t2 t1 t by auto
  obtain t5 where t5: "fd_close (int r) t4 = Some t5" "fd_at t5 = (fd_at t4)(r := None)"
    using fd_close_at [of t4 r] t4 t3 t2 t1 t by auto
  have "fd_at t5 = pipe_tab (length cs) i"
    using t5(2) t4(2) t3(2) t2(2) t1(2) t c(2,3) tty_simps by (auto simp: pipe_tab_def fun_eq_iff)
  moreover have "child_section os ctx pl (i - 1) i 0 i t = Runs (cs ! i) t5"
    using pn s p t t1(1) t2(1) t3(1) t4(1) t5(1) c(1,2)
    by (simp add: child_section_def child_fds_def Let_def)
  ultimately show ?thesis by (auto simp: child_ok_def)
qed

lemma last_child:
  assumes c: "pipe_ctx ctx cs" "0 < i" "i + 1 = length cs"
    and t: "fd_at t = tty(q := Some (Pipe_read (i - 1)))" "3 \<le> q"
    and p: "pl ! (i - 1) = (int q, -1)"
  shows "child_ok cs i (child_section os ctx pl (i - 1) i 0 i t)"
proof -
  have pn: "pipe_num ctx > 0" "i = pipe_num ctx" using c by (simp_all add: pipe_ctx_def)
  obtain s where s: "cmds ctx ! i = Some (s, cs ! i)" using pipe_ctx_cmd [OF c(1), of i] c(3) by auto
  obtain t1 where t1: "fd_dup2 (int q) 0 t = Some t1" "fd_at t1 = (fd_at t)(0 := fd_at t q)"
    using fd_dup2_at [of t q 0] t by auto
  obtain t2 where t2: "fd_close (int q) t1 = Some t2" "fd_at t2 = (fd_at t1)(q := None)"
    using fd_close_at [of t1 q] t1 t by auto
  have "fd_at t2 = pipe_tab (length cs) i"
    using t2(2) t1(2) t c(2,3) tty_simps by (auto simp: pipe_tab_def fun_eq_iff)
  moreover have "child_section os ctx pl (i - 1) i 0 i t = Runs (cs ! i) t2"
    using pn s p t t1(1) t2(1) c(1,2) by (simp add: child_section_def child_fds_def Let_def)
  ultimately show ?thesis by (auto simp: child_ok_def)
qed

definition all_ok :: "pipe_os \<Rightarrow> bool" where
  "all_ok os \<longleftrightarrow> (\<forall>i. pipe_ok os i \<and> pfork_ok os i) \<and> (\<forall>m f. open_ok os m f)"

lemma kids_parent_close [simp]: "kids (parent_close ctx a b s) = kids s"
  by (simp add: parent_close_def Let_def)

lemma exec_step:
  assumes c: "pipe_ctx ctx cs" "2 \<le> length cs" and o: "all_ok os" and i: "i < length cs"
    and b: "between (length cs) i st"
  shows "\<exists>st' k. exec_loop os ctx (Suc n) i i 0 st = exec_loop os ctx n (i + 1) (i + 1) 0 st' \<and>
     between (length cs) (i + 1) st' \<and> kids st' = kids st @ [k] \<and> child_ok cs i k"
proof -
  let ?n = "length cs" and ?p = "pipe_num ctx"
  have pn: "?p = ?n - 1" "?p > 0" using c by (simp_all add: pipe_ctx_def)
  have ok: "pipe_ok os i" "pfork_ok os i" using o by (simp_all add: all_ok_def)
  consider "i = 0" | "0 < i" "i + 1 < ?n" | "0 < i" "i + 1 = ?n" using i by linarith
  then show ?thesis
  proof cases
    case 1
    have m: "fd_at (pfds st) = tty" "length (plist st) = 2 * ?p" using b 1 pn by (simp_all add: between_def)
    obtain r w where rw: "3 \<le> r" "3 \<le> w" "r \<noteq> w"
      "fd_at (pfds (make_pipe 0 st)) = tty(r := Some (Pipe_read 0), w := Some (Pipe_write 0))"
      "plist (make_pipe 0 st) = (plist st)[0 := (int r, int w)]" "kids (make_pipe 0 st) = kids st"
      by (rule make_pipe_at [OF m(1)]) (simp_all add: tty_simps)
    let ?s1 = "make_pipe 0 st"
    have pl0: "plist ?s1 ! 0 = (int r, int w)" using rw(5) m(2) pn by simp
    let ?k = "child_section os ctx (plist ?s1) 0 0 0 0 (pfds ?s1)"
    let ?s2 = "(parent_close ctx 0 0 ?s1)\<lparr>kids := kids st @ [?k]\<rparr>"
    have k: "child_ok cs 0 ?k" by (rule first_child [OF c rw(4,1,2,3) pl0])
    have q: "fd_at (quiet_close (int w) (pfds ?s1)) = tty(r := Some (Pipe_read 0))"
      using quiet_close_at [of "pfds ?s1" w] rw tty_simps(5) [of w] by (auto simp: fun_eq_iff)
    have "between ?n 1 ?s2"
      using q pl0 pn m(2) rw(1,5) c(2) by (auto simp: between_def parent_close_def Let_def)
    moreover have "exec_loop os ctx (Suc n) i i 0 st = exec_loop os ctx n (i + 1) (i + 1) 0 ?s2"
      using 1 pn ok c(1) rw(6) by (simp add: Let_def parent_close_def)
    ultimately show ?thesis using k 1 by (intro exI [of _ ?s2] exI [of _ ?k]) simp
  next
    case 2
    obtain q where q: "3 \<le> q" "plist st ! (i - 1) = (int q, -1)" "fd_at (pfds st) = tty(q := Some (Pipe_read (i - 1)))"
      "length (plist st) = 2 * ?p"
      using b 2 pn by (auto simp: between_def)
    obtain r w where rw: "3 \<le> r" "3 \<le> w" "r \<noteq> w" "(fd_at (pfds st)) r = None" "(fd_at (pfds st)) w = None"
      "fd_at (pfds (make_pipe i st)) = (fd_at (pfds st))(r := Some (Pipe_read i), w := Some (Pipe_write i))"
      "plist (make_pipe i st) = (plist st)[i := (int r, int w)]" "kids (make_pipe i st) = kids st"
      using q(1) by (elim make_pipe_at [OF refl, of st i, rotated 3]) (auto simp: q(3) tty_simps)
    have ne: "q \<noteq> r" "q \<noteq> w" using rw(4,5) q(3) by (auto split: if_splits)
    have ip: "i < ?p" using 2 pn by simp
    let ?s1 = "make_pipe i st"
    have pl: "plist ?s1 ! (i - 1) = (int q, -1)" "plist ?s1 ! i = (int r, int w)"
      using rw(7) q(2,4) pn 2 by simp_all
    have t: "fd_at (pfds ?s1) = tty(q := Some (Pipe_read (i - 1)), r := Some (Pipe_read i), w := Some (Pipe_write i))"
      using rw(6) q(3) by simp
    let ?k = "child_section os ctx (plist ?s1) (i - 1) i 0 i (pfds ?s1)"
    let ?s2 = "(parent_close ctx (i - 1) i ?s1)\<lparr>kids := kids st @ [?k]\<rparr>"
    have k: "child_ok cs i ?k" by (rule middle_child [OF c(1) 2 t q(1) rw(1,2,3) ne pl])
    have q1: "fd_at (quiet_close (int w) (pfds ?s1)) = tty(q := Some (Pipe_read (i - 1)), r := Some (Pipe_read i))"
      using quiet_close_at [of "pfds ?s1" w] t rw(2,3) ne tty_simps(5) [of w] by (auto simp: fun_eq_iff)
    have q2: "fd_at (quiet_close (int q) (quiet_close (int w) (pfds ?s1))) = tty(r := Some (Pipe_read i))"
      using quiet_close_at [of "quiet_close (int w) (pfds ?s1)" q] q1 q(1) ne tty_simps(5) [of q] by (auto simp: fun_eq_iff)
    have "between ?n (i + 1) ?s2"
      using q2 pl pn q(4) rw(1,7) 2 by (auto simp: between_def parent_close_def Let_def)
    moreover have "exec_loop os ctx (Suc n) i i 0 st = exec_loop os ctx n (i + 1) (i + 1) 0 ?s2"
      using 2(1) pn(2) ip ok c(1) rw(8) by (simp add: Let_def)
    ultimately show ?thesis using k by (intro exI [of _ ?s2] exI [of _ ?k]) simp
  next
    case 3
    obtain q where q: "3 \<le> q" "plist st ! (i - 1) = (int q, -1)" "fd_at (pfds st) = tty(q := Some (Pipe_read (i - 1)))"
      "length (plist st) = 2 * ?p"
      using b 3 pn by (auto simp: between_def)
    let ?k = "child_section os ctx (plist st) (i - 1) i 0 i (pfds st)"
    let ?s2 = "(parent_close ctx (i - 1) i st)\<lparr>kids := kids st @ [?k]\<rparr>"
    have k: "child_ok cs i ?k" by (rule last_child [OF c(1) 3 q(3,1,2)])
    have "fd_at (quiet_close (int q) (pfds st)) = tty"
      using quiet_close_at [of "pfds st" q] q(3,1) tty_simps(5) [of q] by (auto simp: fun_eq_iff)
    then have "between ?n (i + 1) ?s2"
      using q(2,4) pn 3 by (auto simp: between_def parent_close_def Let_def)
    moreover have "exec_loop os ctx (Suc n) i i 0 st = exec_loop os ctx n (i + 1) (i + 1) 0 ?s2"
      using 3 pn ok c(1) by (simp add: Let_def parent_close_def)
    ultimately show ?thesis using k by (intro exI [of _ ?s2] exI [of _ ?k]) simp
  qed
qed

lemma exec_steps:
  assumes c: "pipe_ctx ctx cs" "2 \<le> length cs" and o: "all_ok os"
  shows "i + n = length cs \<Longrightarrow> between (length cs) i st \<Longrightarrow> length (kids st) = i \<Longrightarrow>
    \<forall>j < i. child_ok cs j (kids st ! j) \<Longrightarrow>
    \<exists>st'. exec_loop os ctx n i i 0 st = Done (True, 0, st') \<and> fd_at (pfds st') = tty \<and>
      length (kids st') = length cs \<and> (\<forall>j < length cs. child_ok cs j (kids st' ! j))"
proof (induction n arbitrary: i st)
  case 0
  then show ?case by (auto simp: between_def split: if_splits)
next
  case (Suc n)
  have "i < length cs" using Suc.prems(1) by simp
  from exec_step [OF c o this Suc.prems(2), of n] obtain st1 k where
    s: "exec_loop os ctx (Suc n) i i 0 st = exec_loop os ctx n (i + 1) (i + 1) 0 st1"
      "between (length cs) (i + 1) st1" "kids st1 = kids st @ [k]" "child_ok cs i k" by blast
  have "\<forall>j < i + 1. child_ok cs j (kids st1 ! j)"
    using Suc.prems(3,4) s(3,4) by (auto simp: nth_append less_Suc_eq)
  from Suc.IH [OF _ s(2) _ this] Suc.prems(1,3) s(1,3) show ?case by simp
qed

section \<open>The context of a pipeline\<close>

fun pipe_words :: "string list list \<Rightarrow> string list" where
  "pipe_words [] = []"
| "pipe_words [c] = c"
| "pipe_words (c # d # cs) = c @ ''|'' # pipe_words (d # cs)"

definition pword :: "string \<Rightarrow> bool" where
  "pword w \<longleftrightarrow> sword w \<and> \<not> is_pipe w \<and> \<not> is_redir w"

definition pipe_line_ok :: "string list list \<Rightarrow> bool" where
  "pipe_line_ok cs \<longleftrightarrow> cs \<noteq> [] \<and> (\<forall>c \<in> set cs. c \<noteq> [] \<and> (\<forall>w \<in> set c. pword w))"

fun cmds_at :: "nat \<Rightarrow> string list list \<Rightarrow> (nat \<times> string list) option list" where
  "cmds_at nx [] = []"
| "cmds_at nx (c # cs) = Some (nx, c) # cmds_at (nx + length c + 1) cs"

lemma bar: "is_pipe ''|''" "\<not> is_redir ''|''" "sword ''|''"
  by (simp_all add: is_pipe_def is_redir_def sword_def isspace_def is_delim_def)

lemma pipe_words_sword: "\<forall>c \<in> set cs. \<forall>w \<in> set c. pword w \<Longrightarrow> \<forall>w \<in> set (pipe_words cs). sword w"
  by (induction cs rule: pipe_words.induct) (auto simp: pword_def bar)

lemma pipe_words_ne: "pipe_line_ok cs \<Longrightarrow> pipe_words cs \<noteq> []"
  by (cases cs rule: pipe_words.cases) (auto simp: pipe_line_ok_def)

lemma strtok_words_all: "fst (strtok_words d s) = strtok_all d s"
proof (induction d s rule: strtok_words.induct)
  case (1 d s)
  show ?case
  proof (cases "dropWhile d s")
    case Nil
    then have "strtok_next d s = (None, [])" by (simp only: strtok_next_def list.case)
    moreover have "strtok_all d s = []" by (subst strtok_all.simps) (simp only: Nil list.case)
    ultimately show ?thesis by (simp add: strtok_words.simps [of d s])
  next
    case (Cons c r)
    then have nd: "\<not> d c" by (simp add: dropWhile_eq_Cons_conv)
    let ?t = "c # takeWhile (\<lambda>x. \<not> d x) r" and ?r = "dropWhile (\<lambda>x. \<not> d x) r"
    have n: "strtok_next d s = (Some ?t, tl ?r)" using Cons by (simp add: strtok_next_def)
    have "strtok_all d ?r = strtok_all d (tl ?r)"
    proof (cases ?r)
      case Nil
      then show ?thesis by (simp only: list.sel(2))
    next
      case (Cons e x)
      then have "d e" by (simp add: dropWhile_eq_Cons_conv)
      then show ?thesis unfolding Cons by (simp add: strtok_all_Cons)
    qed
    moreover have "strtok_all d s = ?t # strtok_all d ?r"
      by (subst strtok_all.simps) (simp add: Cons nd)
    moreover have "fst (strtok_words d (tl ?r)) = strtok_all d (tl ?r)"
      using "1.IH" [OF n [symmetric] refl] by simp
    ultimately show ?thesis using n by (cases "strtok_words d (tl ?r)") (simp add: strtok_words.simps [of d s])
  qed
qed

lemma make_argv_words:
  assumes "ws \<noteq> []" "\<forall>w \<in> set ws. sword w"
  shows "make_argv (unwords ws) = Done ws"
  using smart_space_cnt_unwords [OF assms] unwords_words [OF assms] assms(1)
  by (cases ws) (simp_all add: make_argv_def strtok_words_all arg_count_def)

lemma takeWhile_cmd:
  "\<forall>w \<in> set c. pword w \<Longrightarrow> takeWhile (\<lambda>w. \<not> is_pipe w \<and> \<not> is_redir w) (c @ ''|'' # r) = c"
  "\<forall>w \<in> set c. pword w \<Longrightarrow> takeWhile (\<lambda>w. \<not> is_pipe w \<and> \<not> is_redir w) c = c"
  by (induction c) (auto simp: pword_def bar)

lemma build_cmds_pipe:
  "pipe_line_ok cs \<Longrightarrow> drop nx argv = pipe_words cs \<Longrightarrow> build_cmds argv (length cs) nx = Done (cmds_at nx cs, [])"
proof (induction cs arbitrary: nx rule: pipe_words.induct)
  case (2 c)
  then have c: "takeWhile (\<lambda>w. \<not> is_pipe w \<and> \<not> is_redir w) (drop nx argv) = c" "c \<noteq> []"
    using takeWhile_cmd(2) [of c] by (simp_all add: pipe_line_ok_def)
  have "nx + length c = length argv" using arg_cong [OF 2(2), of length] c(2) by (cases c) auto
  then show ?case using c by simp
next
  case (3 c d cs)
  have c: "takeWhile (\<lambda>w. \<not> is_pipe w \<and> \<not> is_redir w) (drop nx argv) = c" "c \<noteq> []"
    using 3(2,3) takeWhile_cmd(1) [of c] by (simp_all add: pipe_line_ok_def)
  have d: "drop nx argv = c @ ''|'' # pipe_words (d # cs)" using 3(3) by simp
  have j: "nx + length c < length argv" using arg_cong [OF d, of length] by simp
  have "drop (length c) (drop nx argv) = ''|'' # pipe_words (d # cs)" using d by simp
  then have d2: "drop (nx + length c) argv = ''|'' # pipe_words (d # cs)" by (simp add: add.commute)
  then have bar_at: "argv ! (nx + length c) = ''|''" using j by (simp add: nth_via_drop)
  have "drop (nx + length c + 1) argv = pipe_words (d # cs)"
    using arg_cong [OF d2, of tl] by (simp add: tl_drop drop_Suc)
  moreover have "pipe_line_ok (d # cs)" using 3(2) by (simp add: pipe_line_ok_def)
  ultimately have "build_cmds argv (length (d # cs)) (nx + length c + 1) = Done (cmds_at (nx + length c + 1) (d # cs), [])"
    by (rule 3(1) [rotated])
  moreover define n where "n = length (d # cs)"
  ultimately have "build_cmds argv n (nx + length c + 1) = Done (cmds_at (nx + length c + 1) (d # cs), [])" by simp
  moreover have "build_redirs argv (nx + length c) = Done ([], nx + length c)"
    using bar_at bar(2) by (subst build_redirs.simps) simp
  ultimately have "build_cmds argv (Suc n) nx = Done (Some (nx, c) # cmds_at (nx + length c + 1) (d # cs), [])"
    using c j by (simp add: Let_def del: cmds_at.simps)
  then show ?case by (simp add: n_def)
qed (simp add: pipe_line_ok_def)

lemma filter_pipe_words:
  "pipe_line_ok cs \<Longrightarrow> length (filter is_pipe (pipe_words cs)) = length cs - 1"
  "pipe_line_ok cs \<Longrightarrow> filter (\<lambda>w. \<not> is_pipe w \<and> is_redir w) (pipe_words cs) = []"
  by (induction cs rule: pipe_words.induct) (auto simp: pipe_line_ok_def pword_def bar filter_empty_conv)

lemma last_idx_None: "filter P ws = [] \<Longrightarrow> last_idx P ws i r = r"
  by (induction ws arbitrary: i) (auto split: if_splits)

lemma last_idx_append: "last_idx P (xs @ ys) i r = last_idx P ys (i + length xs) (last_idx P xs i r)"
  by (induction xs arbitrary: i r) simp_all

lemma last_pipe_inside:
  "pipe_line_ok cs \<Longrightarrow> r = None \<or> (\<exists>k. r = Some k \<and> 0 < k \<and> k < i) \<Longrightarrow>
   (case last_idx is_pipe (pipe_words cs) i r of None \<Rightarrow> True | Some k \<Rightarrow> 0 < k \<and> k < i + length (pipe_words cs) - 1)
   \<or> last_idx is_pipe (pipe_words cs) i r = r"
proof (induction cs arbitrary: i r rule: pipe_words.induct)
  case (2 c)
  then have "filter is_pipe c = []" by (auto simp: pipe_line_ok_def pword_def filter_empty_conv)
  then show ?case by (simp add: last_idx_None)
next
  case (3 c d cs)
  have c: "filter is_pipe c = []" "0 < length c" using 3(2) by (auto simp: pipe_line_ok_def pword_def filter_empty_conv)
  have ok: "pipe_line_ok (d # cs)" using 3(2) by (simp add: pipe_line_ok_def)
  have e: "last_idx is_pipe (pipe_words (c # d # cs)) i r =
      last_idx is_pipe (pipe_words (d # cs)) (i + length c + 1) (Some (i + length c))"
    by (simp add: last_idx_append last_idx_None [OF c(1)] bar)
  have "0 < length (pipe_words (d # cs))" using pipe_words_ne [OF ok] by simp
  then show ?case
    using 3(1) [OF ok, of "Some (i + length c)" "i + length c + 1"] c(2)
    unfolding e by (auto split: option.splits)
qed (simp add: pipe_line_ok_def)

lemma build_ctx_pipe:
  assumes "pipe_line_ok cs"
  shows "build_ctx (pipe_words cs) =
     Done (Some \<lparr>cmds = cmds_at 0 cs, to_from = [], pipe_num = length cs - 1, redir_num = 0\<rparr>)"
proof -
  note f = filter_pipe_words [OF assms]
  have l: "0 < length cs" using assms by (simp add: pipe_line_ok_def)
  have "build_cmds (pipe_words cs) (length cs - 1 + 1) 0 = Done (cmds_at 0 cs, [])"
    using build_cmds_pipe [OF assms, of 0 "pipe_words cs"] l by simp
  moreover have "last_idx is_pipe (pipe_words cs) 0 None \<noteq> Some 0"
    "last_idx is_pipe (pipe_words cs) 0 None \<noteq> Some (length (pipe_words cs) - 1)"
    using last_pipe_inside [OF assms, of None 0] by (auto split: option.splits)
  ultimately show ?thesis
    using f last_idx_None [OF f(2), of 0 None] by (simp add: build_ctx_def Let_def)
qed

lemma cmds_at_nth: "i < length cs \<Longrightarrow> \<exists>s. cmds_at nx cs ! i = Some (s, cs ! i)"
proof (induction cs arbitrary: nx i)
  case (Cons c cs)
  then show ?case by (cases i) auto
qed simp

lemma length_cmds_at [simp]: "length (cmds_at nx cs) = length cs"
  by (induction cs arbitrary: nx) simp_all

section \<open>Properties\<close>

text \<open>
  the text of a pipeline, its commands written with "|" between them, is parsed into exactly
  those commands, with one pipe less than commands and no redirections.
\<close>

theorem pipeline_context:
  assumes "pipe_line_ok cs"
  shows "bind_run (make_argv (unwords (pipe_words cs))) build_ctx =
     Done (Some \<lparr>cmds = cmds_at 0 cs, to_from = [], pipe_num = length cs - 1, redir_num = 0\<rparr>)"
proof -
  have "\<forall>w \<in> set (pipe_words cs). sword w" using assms by (intro pipe_words_sword) (simp add: pipe_line_ok_def)
  from make_argv_words [OF pipe_words_ne [OF assms] this] build_ctx_pipe [OF assms] show ?thesis by simp
qed

definition three_cmds :: "string list list" where
  "three_cmds = [[''ls'', ''-l''], [''head''], [''nl'']]"

lemma three_cmds_ok: "pipe_line_ok three_cmds"
  by (simp add: pipe_line_ok_def three_cmds_def pword_def sword_def is_pipe_def is_redir_def isspace_def is_delim_def)

theorem pipeline_context_witness:
  "bind_run (make_argv ''ls -l | head | nl'') build_ctx =
     Done (Some \<lparr>cmds = [Some (0, [''ls'', ''-l'']), Some (3, [''head'']), Some (5, [''nl''])], to_from = [],
       pipe_num = 2, redir_num = 0\<rparr>)"
  using pipeline_context [OF three_cmds_ok] by (simp add: three_cmds_def eval_nat_numeral)

text \<open>
  C3: when every system call succeeds, command \<open>i\<close> of a pipeline starts with the read end of pipe
  \<open>i - 1\<close> as its standard input, the write end of pipe \<open>i\<close> as its standard output (the terminal at
  the two ends), and no other descriptor: no child keeps an end of a pipe open that would hide
  the end of file. The parent is left with the terminal only.
\<close>

theorem pipeline_wiring:
  assumes "pipe_line_ok cs" "2 \<le> length cs" "all_ok os"
  shows "\<exists>st. exec_cmd_list os \<lparr>cmds = cmds_at 0 cs, to_from = [], pipe_num = length cs - 1, redir_num = 0\<rparr>
       = Done (wait_loop os (length cs) 0 0, st) \<and>
     fd_at (pfds st) = fd_at start_fds \<and> length (kids st) = length cs \<and>
     (\<forall>i < length cs. \<exists>t. kids st ! i = Runs (cs ! i) t \<and> fd_at t = (fd_at start_fds)
        (0 := (if 0 < i then Some (Pipe_read (i - 1)) else Some (Term 0)),
         1 := (if i + 1 < length cs then Some (Pipe_write i) else Some (Term 1))))"
proof -
  let ?ctx = "\<lparr>cmds = cmds_at 0 cs, to_from = [], pipe_num = length cs - 1, redir_num = 0\<rparr>"
  let ?st = "\<lparr>pfds = start_fds, plist = replicate (2 * (length cs - 1)) (0, 0), kids = []\<rparr>"
  have c: "pipe_ctx ?ctx cs" using cmds_at_nth by (simp add: pipe_ctx_def)
  have b: "between (length cs) 0 ?st" by (simp add: between_def tty_def)
  obtain st where st: "exec_loop os ?ctx (length cs) 0 0 0 ?st = Done (True, 0, st)" "fd_at (pfds st) = tty"
    "length (kids st) = length cs" "\<forall>j < length cs. child_ok cs j (kids st ! j)"
    using exec_steps [OF c assms(2,3) _ b] by auto
  have t: "tty 0 = Some (Term 0)" "tty 1 = Some (Term 1)" by (simp_all add: tty_def start_fds_def fd_at_def)
  have e: "exec_cmd_list os ?ctx = Done (wait_loop os (length cs) 0 0, st)"
    using st(1,3) by (simp add: exec_cmd_list_def)
  show ?thesis
    using e st(2,3) st(4) [unfolded child_ok_def pipe_tab_def t, unfolded tty_def] st(2) [unfolded tty_def] by blast
qed

definition good_pipe_os :: pipe_os where
  "good_pipe_os = \<lparr>pipe_ok = (\<lambda>i. True), pfork_ok = (\<lambda>i. True), open_ok = (\<lambda>m f. True), wait_status = (\<lambda>i k. 0)\<rparr>"

theorem pipeline_wiring_witness:
  "\<exists>st t. exec_cmd_list good_pipe_os \<lparr>cmds = cmds_at 0 three_cmds, to_from = [], pipe_num = 2, redir_num = 0\<rparr> = Done (0, st) \<and>
     kids st ! 1 = Runs [''head''] t \<and> fd_at t = (fd_at start_fds)(0 := Some (Pipe_read 0), 1 := Some (Pipe_write 1))"
proof -
  have n: "length three_cmds = 3" "three_cmds ! 1 = [''head'']" by (simp_all add: three_cmds_def)
  obtain st where st: "exec_cmd_list good_pipe_os \<lparr>cmds = cmds_at 0 three_cmds, to_from = [],
        pipe_num = length three_cmds - 1, redir_num = 0\<rparr> = Done (wait_loop good_pipe_os (length three_cmds) 0 0, st)"
    "\<forall>i < length three_cmds. \<exists>t. kids st ! i = Runs (three_cmds ! i) t \<and> fd_at t = (fd_at start_fds)
        (0 := (if 0 < i then Some (Pipe_read (i - 1)) else Some (Term 0)),
         1 := (if i + 1 < length three_cmds then Some (Pipe_write i) else Some (Term 1)))"
    using pipeline_wiring [OF three_cmds_ok _ , of good_pipe_os] by (auto simp: n all_ok_def good_pipe_os_def)
  moreover have "wait_loop good_pipe_os 3 0 0 = 0" by (simp add: numeral_3_eq_3 good_pipe_os_def)
  ultimately show ?thesis using spec [OF st(2), of 1] unfolding n by auto
qed

text \<open>
  splitting the first command of a line into words moves the one position of \<open>strtok\<close> to the
  end of that command, so of "ls; pwd" only "ls" is run: nothing behind the delimiter matters.
  (The shell of LAB_12 splits in the child and runs both.)
\<close>

theorem only_first_command_runs:
  assumes "plain_command ws"
  shows "parse_from os pos (unwords ws @ CHR '';'' # rest) ret acts = parse_from os pos (unwords ws) ret acts"
proof -
  have p: "\<forall>w \<in> set ws. sword w" "ws \<noteq> []" using assms by (auto simp: plain_command_def)
  have nd: "\<forall>c \<in> set (unwords ws). \<not> is_delim c" using unwords_no_delim [OF p(1)] by blast
  obtain c r where c: "unwords ws = c # r" using unwords_ne [OF p(2,1)] by (cases "unwords ws") auto
  have t: "takeWhile (\<lambda>x. \<not> is_delim x) (r @ CHR '';'' # rest) = r" "dropWhile (\<lambda>x. \<not> is_delim x) (r @ CHR '';'' # rest) = CHR '';'' # rest"
    "takeWhile (\<lambda>x. \<not> is_delim x) r = r" "dropWhile (\<lambda>x. \<not> is_delim x) r = []"
    using nd c by (simp_all add: takeWhile_append2 dropWhile_append2 takeWhile_eq_all_conv dropWhile_eq_Nil_conv)
  have s: "strtok_next is_delim (unwords ws @ CHR '';'' # rest) = (Some (unwords ws), rest)"
    "strtok_next is_delim (unwords ws) = (Some (unwords ws), [])"
    using nd c by (simp_all add: strtok_next_def t)
  have tr: "dropWhile isspace (unwords ws) = unwords ws" by (rule trim_plain [OF assms])
  have ne: "unwords ws \<noteq> ''exit''" "take 2 (unwords ws) \<noteq> ''cd''" using assms by (simp_all add: plain_command_def)
  show ?thesis
    unfolding parse_from.simps [of os pos "unwords ws @ CHR '';'' # rest"] parse_from.simps [of os pos "unwords ws"] s
      option.case prod.case Let_def tr if_not_P [OF ne(1)] if_not_P [OF ne(2)] ..
qed

theorem only_first_command_witness:
  "parse_from good_os good_pipe_os ''pwd; ls'' SH_OK [] = parse_from good_os good_pipe_os ''pwd'' SH_OK []"
  using only_first_command_runs [OF plain_ls(2), of good_os good_pipe_os "'' ls''" SH_OK "[]"] by simp

text \<open>
  a line that holds blanks only makes the shell dereference a null pointer: the blank command
  has one entry in \<open>argv\<close>, which no word fills.
\<close>

theorem blank_line_crashes:
  assumes "env_ok os" "cwd_ok os" "n + 2 \<le> SH_BUFSIZ"
  shows "pseudo_bash_pipes os pos (replicate (Suc n) CHR '' '' @ NL # rest) = Fault NullDeref"
proof -
  let ?b = "replicate (Suc n) CHR '' ''"
  have f: "fgets (SH_BUFSIZ + 1) (?b @ NL # rest) = Some (?b @ [NL], rest)"
    using assms(3) by (intro fgets_line) auto
  have c: "cstr (?b @ [NL]) = ?b @ [NL]" by (auto simp: cstr_def takeWhile_eq_all_conv)
  have tw: "takeWhile (\<lambda>c. c \<noteq> NL) (?b @ [NL]) = ?b" by (induction n) auto
  have nd: "\<forall>c \<in> set ?b. \<not> is_delim c" by auto
  have "takeWhile (\<lambda>x. \<not> is_delim x) (replicate n CHR '' '') = replicate n CHR '' ''"
    by (auto simp: takeWhile_eq_all_conv)
  then have s: "fst (strtok_next is_delim ?b) = Some ?b" by (simp add: strtok_next_def)
  obtain sv where s': "strtok_next is_delim ?b = (Some ?b, sv)" using s by (cases "strtok_next is_delim ?b") auto
  have d: "dropWhile isspace ?b = []" by (auto simp: dropWhile_eq_Nil_conv)
  have "strtok_words (\<lambda>c. c = CHR '' '') [] = ([], [])" by (subst strtok_words.simps) (simp add: strtok_next_def)
  then have "make_argv [] = Fault NullDeref"
    by (simp add: make_argv_def)
  then have "run_cmd pos [] = Fault NullDeref" by (simp add: run_cmd_def)
  then have "parse_from os pos ?b SH_OK [] = Fault NullDeref"
    unfolding parse_from.simps [of os pos ?b] s' using d by (simp add: Let_def del: replicate_Suc)
  then show ?thesis
    using assms(1,2) f c tw unfolding pseudo_bash_pipes_def by (subst shell_loop.simps) simp
qed

theorem blank_line_witness:
  "pseudo_bash_pipes good_os good_pipe_os (replicate (Suc 2) CHR '' '' @ NL # []) = Fault NullDeref"
  by (rule blank_line_crashes) (simp_all add: good_os_def)

text \<open>
  the second redirection of a command is always opened for writing and truncated, even when
  it is an input: "a > f < g" gives \<open>a\<close> the truncated, write-only file \<open>g\<close> as its standard input.
\<close>

theorem second_redirection_truncates:
  assumes "pword a" "pword f" "pword g" "all_ok os"
  shows "\<exists>t. run_cmd os (unwords [a, ''>'', f, ''<'', g]) = Done (Some (wait_status os 0 False, [Runs [a] t])) \<and>
     fd_at t 0 = Some (File_out g) \<and> fd_at t 1 = Some (File_out f)"
proof -
  let ?ws = "[a, ''>'', f, ''<'', g]"
  have op: "sword ''>''" "sword ''<''" "is_redir ''>''" "is_redir ''<''" "\<not> is_pipe ''>''" "\<not> is_pipe ''<''"
    by (simp_all add: sword_def is_redir_def is_pipe_def isspace_def is_delim_def)
  have w: "\<not> is_pipe a" "\<not> is_redir a" "\<not> is_pipe f" "\<not> is_redir f" "\<not> is_pipe g" "\<not> is_redir g"
    using assms by (simp_all add: pword_def)
  have m: "make_argv (unwords ?ws) = Done ?ws"
    using assms op by (intro make_argv_words) (simp_all add: pword_def)
  let ?r1 = "\<lparr>direct = WR, file_name = f, rcmd = 0\<rparr>" and ?r2 = "\<lparr>direct = RD, file_name = g, rcmd = 0\<rparr>"
  have r5: "build_redirs ?ws 5 = Done ([], 5)" by (subst build_redirs.simps) simp
  have bp: "back_to_pipe ?ws 1 = 0" "back_to_pipe ?ws 3 = 0"
    using w op by (simp_all add: numeral_eq_Suc)
  have r3: "build_redirs ?ws 3 = Done ([?r2], 5)"
    using w op r5 bp by (subst build_redirs.simps) (simp add: Let_def)
  have r3s: "build_redirs ?ws (Suc (Suc (Suc 0))) = Done ([?r2], 5)" using r3 by (simp only: numeral_3_eq_3)
  have r1: "build_redirs ?ws 1 = Done ([?r1, ?r2], 5)"
    using w op r3s bp by (subst build_redirs.simps) (simp add: Let_def)
  have "build_ctx ?ws = Done (Some \<lparr>cmds = [Some (0, [a])], to_from = [Some ?r1, Some ?r2], pipe_num = 0, redir_num = 2\<rparr>)"
    using w op r1 by (simp add: build_ctx_def Let_def)
  then show ?thesis
    using m assms(4)
    by (simp add: run_cmd_def exec_cmd_list_def Let_def child_section_def child_fds_def redir_for_def child_file_def
        all_ok_def start_fds_def fd_open_def lowest_free_def fd_dup2_def fd_at_def advance_redir_def)
qed

theorem second_redirection_witness:
  "\<exists>t. run_cmd good_pipe_os ''sort > out < in'' = Done (Some (0, [Runs [''sort''] t])) \<and>
     fd_at t 0 = Some (File_out ''in'') \<and> fd_at t 1 = Some (File_out ''out'')"
  using second_redirection_truncates [of "''sort''" "''out''" "''in''" good_pipe_os]
  by (simp add: good_pipe_os_def all_ok_def pword_def sword_def is_pipe_def is_redir_def isspace_def is_delim_def)

end
