(* ===== verification/Step_System.thy ===== *)
theory Step_System
  imports Main
begin

text \<open>
  What the concurrent programs of LAB_13 and LAB_16 share: reachability of a step relation, and
  the locking discipline. A program that takes a lock only while it is free and gives back only
  what it holds is a \<open>lock_discipline\<close>; mutual exclusion is proved once, for all of them.
\<close>

section \<open>Reachable states\<close>

inductive reach :: "('s \<Rightarrow> bool) \<Rightarrow> ('s \<Rightarrow> 's \<Rightarrow> bool) \<Rightarrow> 's \<Rightarrow> bool" for start step where
  reach_start: "start s \<Longrightarrow> reach start step s"
| reach_step: "reach start step s \<Longrightarrow> step s t \<Longrightarrow> reach start step t"

lemma reach_invariant [consumes 1, case_names start step]:
  assumes "reach start step s"
    and "\<And>s. start s \<Longrightarrow> I s"
    and "\<And>s t. reach start step s \<Longrightarrow> I s \<Longrightarrow> step s t \<Longrightarrow> I t"
  shows "I s"
  using assms(1)
proof (induction rule: reach.induct)
  case (reach_start s)
  then show ?case by (rule assms(2))
next
  case (reach_step s t)
  then show ?case using assms(3) by blast
qed

section \<open>Runs that come to an end\<close>

text \<open>
  \<open>run\<close> is a part of the steps, for example those without a failing call; a weight that it lowers
  bounds the length of its runs.
\<close>

lemma no_endless_run:
  fixes w :: "'s \<Rightarrow> nat"
  assumes less: "\<And>s t. reach start step s \<Longrightarrow> run s t \<Longrightarrow> step s t \<and> w t < w s"
    and r: "reach start step s"
  shows "\<not> (\<exists>f. f 0 = s \<and> (\<forall>k. run (f k) (f (Suc k))))"
proof
  assume "\<exists>f. f 0 = s \<and> (\<forall>k. run (f k) (f (Suc k)))"
  then obtain f where f: "f 0 = s" "\<And>k. run (f k) (f (Suc k))" by blast
  have k: "reach start step (f k) \<and> w (f k) + k \<le> w (f 0)" for k
  proof (induction k)
    case 0
    show ?case using r f(1) by simp
  next
    case (Suc k)
    then show ?case using less [of "f k" "f (Suc k)"] f(2) [of k] reach_step by fastforce
  qed
  from k [of "Suc (w (f 0))"] show False by simp
qed

lemma runs_to_the_end:
  fixes w :: "'s \<Rightarrow> nat"
  assumes less: "\<And>s t. reach start step s \<Longrightarrow> run s t \<Longrightarrow> step s t \<and> w t < w s"
    and r: "reach start step s"
  shows "\<exists>h. run\<^sup>*\<^sup>* s h \<and> reach start step h \<and> (\<nexists>t. run h t)"
  using r
proof (induction "w s" arbitrary: s rule: less_induct)
  case less
  show ?case
  proof (cases "\<exists>t. run s t")
    case True
    then obtain t where t: "run s t" by blast
    note st = assms(1) [OF less.prems t]
    obtain h where "run\<^sup>*\<^sup>* t h" "reach start step h" "\<nexists>u. run h u"
      using less.hyps [of t] st reach_step [OF less.prems] by blast
    then show ?thesis using t by (meson converse_rtranclp_into_rtranclp)
  next
    case False
    then show ?thesis using less.prems by blast
  qed
qed

section \<open>Locks\<close>

text \<open>
  \<open>free s l\<close> is the value of the semaphore of \<open>l\<close> (1 or 0 for a mutex); \<open>holds s p l\<close> says
  that \<open>p\<close> has taken \<open>l\<close> and not given it back.
\<close>

definition takes :: "('l \<Rightarrow> nat) \<Rightarrow> ('p \<Rightarrow> 'l \<Rightarrow> bool) \<Rightarrow> 'p \<Rightarrow> 'l \<Rightarrow> ('l \<Rightarrow> nat) \<Rightarrow> ('p \<Rightarrow> 'l \<Rightarrow> bool) \<Rightarrow> bool" where
  "takes f h p l f' h' \<longleftrightarrow>
     \<not> h p l \<and> 0 < f l \<and> f' = f(l := f l - 1) \<and> h' = h(p := (h p)(l := True))"

definition gives :: "('l \<Rightarrow> nat) \<Rightarrow> ('p \<Rightarrow> 'l \<Rightarrow> bool) \<Rightarrow> 'p \<Rightarrow> 'l \<Rightarrow> ('l \<Rightarrow> nat) \<Rightarrow> ('p \<Rightarrow> 'l \<Rightarrow> bool) \<Rightarrow> bool" where
  "gives f h p l f' h' \<longleftrightarrow> h p l \<and> f' = f(l := f l + 1) \<and> h' = h(p := (h p)(l := False))"

text \<open>A step of one thread \<open>p\<close> that changes no lock, takes one or gives one back.\<close>

definition thread_move :: "('l \<Rightarrow> nat) \<Rightarrow> ('p \<Rightarrow> 'l \<Rightarrow> bool) \<Rightarrow> 'p \<Rightarrow> ('l \<Rightarrow> nat) \<Rightarrow> ('p \<Rightarrow> 'l \<Rightarrow> bool) \<Rightarrow> bool" where
  "thread_move f h p f' h' \<longleftrightarrow> (\<forall>q. q \<noteq> p \<longrightarrow> h' q = h q) \<and>
     (f' = f \<and> h' p = h p \<or>
      (\<exists>l. \<not> h p l \<and> 0 < f l \<and> f' = f(l := f l - 1) \<and> h' p = (h p)(l := True)) \<or>
      (\<exists>l. h p l \<and> f' = f(l := f l + 1) \<and> h' p = (h p)(l := False)))"

lemma thread_move_discipline:
  assumes "thread_move f h p f' h'"
  shows "f' = f \<and> h' = h \<or> (\<exists>p l. takes f h p l f' h') \<or> (\<exists>p l. gives f h p l f' h')"
proof -
  have h: "h' = h(p := x)" if "h' p = x" for x
    using assms that by (auto simp: thread_move_def fun_eq_iff)
  from assms consider
      (same) "f' = f" "h' p = h p"
    | (taking) l where "\<not> h p l" "0 < f l" "f' = f(l := f l - 1)" "h' p = (h p)(l := True)"
    | (giving) l where "h p l" "f' = f(l := f l + 1)" "h' p = (h p)(l := False)"
    unfolding thread_move_def by blast
  then show ?thesis
  proof cases
    case same
    then show ?thesis using h [OF same(2)] by simp
  next
    case (taking l)
    then show ?thesis using h [OF taking(4)] by (auto simp: takes_def)
  next
    case (giving l)
    then show ?thesis using h [OF giving(3)] by (auto simp: gives_def)
  qed
qed

locale lock_discipline =
  fixes start :: "'s \<Rightarrow> bool"
    and step :: "'s \<Rightarrow> 's \<Rightarrow> bool"
    and free :: "'s \<Rightarrow> 'l \<Rightarrow> nat"
    and holds :: "'s \<Rightarrow> 'p \<Rightarrow> 'l \<Rightarrow> bool"
  assumes start_free: "start s \<Longrightarrow> free s l = 1"
    and start_holds: "start s \<Longrightarrow> \<not> holds s p l"
    and discipline: "reach start step s \<Longrightarrow> step s t \<Longrightarrow>
      free t = free s \<and> holds t = holds s \<or>
      (\<exists>p l. takes (free s) (holds s) p l (free t) (holds t)) \<or>
      (\<exists>p l. gives (free s) (holds s) p l (free t) (holds t))"
begin

definition exclusive :: "'s \<Rightarrow> bool" where
  "exclusive s \<longleftrightarrow> (\<forall>l. (free s l = 1 \<and> (\<forall>p. \<not> holds s p l)) \<or>
                       (free s l = 0 \<and> (\<exists>p. \<forall>q. holds s q l \<longleftrightarrow> q = p)))"

lemma exclusive_takes:
  assumes "exclusive s" and t: "takes (free s) (holds s) p l (free t) (holds t)"
  shows "exclusive t"
  unfolding exclusive_def
proof
  fix m
  show "free t m = 1 \<and> (\<forall>q. \<not> holds t q m) \<or> free t m = 0 \<and> (\<exists>p. \<forall>q. holds t q m = (q = p))"
  proof (cases "m = l")
    case True
    with assms have "free s l = 1 \<and> (\<forall>q. \<not> holds s q l)"
      unfolding exclusive_def takes_def by (metis less_numeral_extra(3))
    with t True show ?thesis by (auto simp: takes_def)
  next
    case False
    then have "free t m = free s m" "\<And>q. holds t q m = holds s q m" using t by (auto simp: takes_def)
    then show ?thesis using assms(1) unfolding exclusive_def by metis
  qed
qed

lemma exclusive_gives:
  assumes "exclusive s" and g: "gives (free s) (holds s) p l (free t) (holds t)"
  shows "exclusive t"
  unfolding exclusive_def
proof
  fix m
  show "free t m = 1 \<and> (\<forall>q. \<not> holds t q m) \<or> free t m = 0 \<and> (\<exists>p. \<forall>q. holds t q m = (q = p))"
  proof (cases "m = l")
    case True
    with assms have "free s l = 0" "\<And>q. holds s q l \<longleftrightarrow> q = p"
      unfolding exclusive_def gives_def by metis+
    with g True show ?thesis by (auto simp: gives_def)
  next
    case False
    then have "free t m = free s m" "\<And>q. holds t q m = holds s q m" using g by (auto simp: gives_def)
    then show ?thesis using assms(1) unfolding exclusive_def by metis
  qed
qed

lemma exclusive_same: "exclusive s \<Longrightarrow> free t = free s \<Longrightarrow> holds t = holds s \<Longrightarrow> exclusive t"
  unfolding exclusive_def by simp

lemma exclusive_step: "reach start step s \<Longrightarrow> exclusive s \<Longrightarrow> step s t \<Longrightarrow> exclusive t"
  using discipline exclusive_same exclusive_takes exclusive_gives by blast

lemma exclusive_reach: "reach start step s \<Longrightarrow> exclusive s"
proof (induction rule: reach_invariant)
  case (start s)
  then show ?case using start_free start_holds by (auto simp: exclusive_def)
next
  case (step s t)
  then show ?case by (blast intro: exclusive_step)
qed

lemma mutual_exclusion: "reach start step s \<Longrightarrow> holds s p l \<Longrightarrow> holds s q l \<Longrightarrow> p = q"
  using exclusive_reach [of s] unfolding exclusive_def by metis

lemma held_not_free: "reach start step s \<Longrightarrow> holds s p l \<Longrightarrow> free s l = 0"
  using exclusive_reach [of s] unfolding exclusive_def by metis

lemma taken_is_held: "reach start step s \<Longrightarrow> free s l = 0 \<Longrightarrow> \<exists>p. holds s p l"
  using exclusive_reach [of s] unfolding exclusive_def by (metis zero_neq_one)

lemma free_le_1: "reach start step s \<Longrightarrow> free s l \<le> 1"
  using exclusive_reach [of s] unfolding exclusive_def by (metis le_numeral_extra(4) zero_le)

end

text \<open>
  A system that takes back the locks of a process that ends, as the kernel does for semaphore
  operations with \<open>SEM_UNDO\<close>: what is taken is held by a process that goes on.
\<close>

locale undo_discipline = lock_discipline start step free holds
  for start :: "'s \<Rightarrow> bool" and step :: "'s \<Rightarrow> 's \<Rightarrow> bool" and free :: "'s \<Rightarrow> 'l \<Rightarrow> nat"
    and holds :: "'s \<Rightarrow> 'p \<Rightarrow> 'l \<Rightarrow> bool" +
  fixes ended :: "'s \<Rightarrow> 'p \<Rightarrow> bool"
  assumes ended_gives_back: "reach start step s \<Longrightarrow> ended s p \<Longrightarrow> \<not> holds s p l"
begin

lemma holder_goes_on: "reach start step s \<Longrightarrow> free s l = 0 \<Longrightarrow> \<exists>p. holds s p l \<and> \<not> ended s p"
  using taken_is_held ended_gives_back by blast

end

section \<open>Sums over processes\<close>

lemma sum_upd:
  fixes f :: "nat \<Rightarrow> 'a :: ab_group_add"
  assumes "c < C"
  shows "(\<Sum>d<C. (f(c := x)) d) = (\<Sum>d<C. f d) + (x - f c)"
proof -
  have "(\<Sum>d\<in>{..<C} - {c}. (f(c := x)) d) = (\<Sum>d\<in>{..<C} - {c}. f d)" by (intro sum.cong) auto
  then show ?thesis using assms by (simp add: sum.remove [of "{..<C}" c])
qed

end
