(* ===== verification/Market.thy ===== *)
theory Market
  imports Step_System Lab_Prelude
begin

text \<open>
  LAB_16/task_posix_semaphores_2: consumers take goods from suppliers through shared memory, each
  supplier guarded by a semaphore, the number of open jobs by another one. A process is a program
  counter; a step of \<open>consume\<close> or \<open>supply\<close> is one access to shared memory or one semaphore call.
  Each semaphore call may also fail. Printing and sleeping are not steps.
\<close>

section \<open>Shared memory and semaphores\<close>

datatype lock = Shelf nat | Jobs

text \<open>
  The shared memory segment: the demands of the consumers, the stocks of the suppliers and the
  number of jobs. \<open>restocks i\<close> counts the lines "Restocking the supplies" of supplier \<open>i\<close>.
\<close>

record shop =
  sem :: "lock \<Rightarrow> nat"
  dem :: "nat \<Rightarrow> int"
  stock :: "nat \<Rightarrow> int"
  jobs :: int
  restocks :: "nat \<Rightarrow> nat"

text \<open>\<open>sem_wait\<close> blocks (\<open>None\<close>) while the value is 0.\<close>

definition sem_wait :: "lock \<Rightarrow> shop \<Rightarrow> shop option" where
  "sem_wait l sh = (if sem sh l = 0 then None else Some (sh\<lparr>sem := (sem sh)(l := sem sh l - 1)\<rparr>))"

definition sem_post :: "lock \<Rightarrow> shop \<Rightarrow> shop" where
  "sem_post l sh = sh\<lparr>sem := (sem sh)(l := sem sh l + 1)\<rparr>"

abbreviation INT_MAX :: int where "INT_MAX \<equiv> 2 ^ 31 - 1"

section \<open>consume\<close>

datatype again = Again | Leave

text \<open>
  What a consumer does next. \<open>C_take\<close> knows the local \<open>take\<close>; \<open>C_store\<close> also the new stock it
  has computed from the old one. \<open>C_fail\<close> is the exit after a failed call, with the semaphore
  that could not be posted; \<open>C_dead\<close> a process killed where it was.
\<close>

datatype cpc =
    C_none | C_pick | C_wait nat | C_look nat | C_take nat int | C_load nat int
  | C_store nat int int | C_test nat | C_post nat again
  | C_jwait | C_jload | C_jstore int | C_jpost
  | C_exit | C_fail "lock option" | C_dead cpc

inductive consume_step :: "nat \<Rightarrow> nat \<Rightarrow> cpc \<times> shop \<Rightarrow> cpc \<times> shop \<Rightarrow> bool" for sup_num c where
  pick: "j < sup_num \<Longrightarrow> consume_step sup_num c (C_pick, sh) (C_wait j, sh)"
| wait: "sem_wait (Shelf j) sh = Some sh' \<Longrightarrow> consume_step sup_num c (C_wait j, sh) (C_look j, sh')"
| wait_fail: "consume_step sup_num c (C_wait j, sh) (C_fail None, sh)"
| empty: "stock sh j \<le> 0 \<Longrightarrow> consume_step sup_num c (C_look j, sh) (C_post j Again, sh)"
| look: "0 < stock sh j \<Longrightarrow> k = (if dem sh c < stock sh j then dem sh c else stock sh j) \<Longrightarrow>
    consume_step sup_num c (C_look j, sh) (C_take j k, sh)"
| take: "consume_step sup_num c (C_take j k, sh) (C_load j k, sh\<lparr>dem := (dem sh)(c := dem sh c - k)\<rparr>)"
| load: "consume_step sup_num c (C_load j k, sh) (C_store j k (stock sh j - k), sh)"
| store: "consume_step sup_num c (C_store j k v, sh) (C_test j, sh\<lparr>stock := (stock sh)(j := v)\<rparr>)"
| test: "consume_step sup_num c (C_test j, sh) (C_post j (if dem sh c \<le> 0 then Leave else Again), sh)"
| post_again: "consume_step sup_num c (C_post j Again, sh) (C_pick, sem_post (Shelf j) sh)"
| post_leave: "consume_step sup_num c (C_post j Leave, sh) (C_jwait, sem_post (Shelf j) sh)"
| post_fail: "consume_step sup_num c (C_post j b, sh) (C_fail (Some (Shelf j)), sh)"
| jwait: "sem_wait Jobs sh = Some sh' \<Longrightarrow> consume_step sup_num c (C_jwait, sh) (C_jload, sh')"
| jwait_fail: "consume_step sup_num c (C_jwait, sh) (C_fail None, sh)"
| jload: "consume_step sup_num c (C_jload, sh) (C_jstore (jobs sh - 1), sh)"
| jstore: "consume_step sup_num c (C_jstore v, sh) (C_jpost, sh\<lparr>jobs := v\<rparr>)"
| jpost: "consume_step sup_num c (C_jpost, sh) (C_exit, sem_post Jobs sh)"
| jpost_fail: "consume_step sup_num c (C_jpost, sh) (C_fail (Some Jobs), sh)"

section \<open>supply\<close>

text \<open>
  Adding the restock amount to a stock that is too large is an overflow of \<open>int\<close>, undefined in
  C; the model stops the process at \<open>S_overflow\<close>.
\<close>

datatype spc =
    S_none | S_wait | S_load | S_store int | S_post | S_jwait | S_jtest | S_jpost bool
  | S_exit | S_fail "lock option" | S_overflow | S_dead spc

inductive supply_step :: "nat \<Rightarrow> int \<Rightarrow> spc \<times> shop \<Rightarrow> spc \<times> shop \<Rightarrow> bool" for i amount where
  wait: "sem_wait (Shelf i) sh = Some sh' \<Longrightarrow> supply_step i amount (S_wait, sh) (S_load, sh')"
| wait_fail: "supply_step i amount (S_wait, sh) (S_fail None, sh)"
| load: "stock sh i + amount \<le> INT_MAX \<Longrightarrow>
    supply_step i amount (S_load, sh) (S_store (stock sh i + amount), sh)"
| overflow: "stock sh i + amount > INT_MAX \<Longrightarrow> supply_step i amount (S_load, sh) (S_overflow, sh)"
| store: "supply_step i amount (S_store v, sh)
    (S_post, sh\<lparr>stock := (stock sh)(i := v), restocks := (restocks sh)(i := restocks sh i + 1)\<rparr>)"
| post: "supply_step i amount (S_post, sh) (S_jwait, sem_post (Shelf i) sh)"
| post_fail: "supply_step i amount (S_post, sh) (S_fail (Some (Shelf i)), sh)"
| jwait: "sem_wait Jobs sh = Some sh' \<Longrightarrow> supply_step i amount (S_jwait, sh) (S_jtest, sh')"
| jwait_fail: "supply_step i amount (S_jwait, sh) (S_fail None, sh)"
| jtest: "supply_step i amount (S_jtest, sh) (S_jpost (jobs sh \<le> 0), sh)"
| jpost_again: "supply_step i amount (S_jpost False, sh) (S_wait, sem_post Jobs sh)"
| jpost_leave: "supply_step i amount (S_jpost True, sh) (S_exit, sem_post Jobs sh)"
| jpost_fail: "supply_step i amount (S_jpost b, sh) (S_fail (Some Jobs), sh)"

section \<open>The parent\<close>

text \<open>
  \<open>P_fork k\<close>: \<open>k\<close> children have been started, the consumers first. \<open>P_end k b\<close>: the loop at the
  label \<open>end\<close> is at child \<open>k\<close>; \<open>b\<close> says that \<open>status\<close> is \<open>EXIT_FAILURE\<close>, so that it kills before it
  waits. \<open>P_done False\<close> has printed "Every consumer has been satisfied".
\<close>

datatype ppc = P_fork nat | P_end nat bool | P_done bool

record market =
  cpcs :: "nat \<Rightarrow> cpc"
  spcs :: "nat \<Rightarrow> spc"
  parent :: ppc
  mem :: shop

fun c_over :: "cpc \<Rightarrow> bool" where
  "c_over C_exit = True" | "c_over (C_fail l) = True" | "c_over (C_dead p) = True" | "c_over p = False"

fun s_over :: "spc \<Rightarrow> bool" where
  "s_over S_exit = True" | "s_over (S_fail l) = True" | "s_over S_overflow = True"
| "s_over (S_dead p) = True" | "s_over p = False"

inductive market_step :: "nat \<Rightarrow> nat \<Rightarrow> int \<Rightarrow> market \<Rightarrow> market \<Rightarrow> bool" for cons_num sup_num unit where
  consumer: "consume_step sup_num c (cpcs m c, mem m) (p, sh) \<Longrightarrow>
    market_step cons_num sup_num unit m (m\<lparr>cpcs := (cpcs m)(c := p), mem := sh\<rparr>)"
| supplier: "supply_step i unit (spcs m i, mem m) (p, sh) \<Longrightarrow>
    market_step cons_num sup_num unit m (m\<lparr>spcs := (spcs m)(i := p), mem := sh\<rparr>)"
| fork_consumer: "parent m = P_fork k \<Longrightarrow> k < cons_num \<Longrightarrow>
    market_step cons_num sup_num unit m (m\<lparr>cpcs := (cpcs m)(k := C_pick), parent := P_fork (k + 1)\<rparr>)"
| fork_supplier: "parent m = P_fork k \<Longrightarrow> cons_num \<le> k \<Longrightarrow> k < cons_num + sup_num \<Longrightarrow>
    market_step cons_num sup_num unit m (m\<lparr>spcs := (spcs m)(k - cons_num := S_wait), parent := P_fork (k + 1)\<rparr>)"
| fork_fail: "parent m = P_fork k \<Longrightarrow> k < cons_num + sup_num \<Longrightarrow>
    market_step cons_num sup_num unit m (m\<lparr>parent := P_end 0 True\<rparr>)"
| forked: "parent m = P_fork (cons_num + sup_num) \<Longrightarrow>
    market_step cons_num sup_num unit m (m\<lparr>parent := P_end 0 False\<rparr>)"
| kill_consumer: "parent m = P_end k True \<Longrightarrow> k < cons_num \<Longrightarrow> cpcs m k \<noteq> C_none \<Longrightarrow> \<not> c_over (cpcs m k) \<Longrightarrow>
    market_step cons_num sup_num unit m (m\<lparr>cpcs := (cpcs m)(k := C_dead (cpcs m k))\<rparr>)"
| kill_supplier: "parent m = P_end k True \<Longrightarrow> cons_num \<le> k \<Longrightarrow> k < cons_num + sup_num \<Longrightarrow>
    spcs m (k - cons_num) \<noteq> S_none \<Longrightarrow> \<not> s_over (spcs m (k - cons_num)) \<Longrightarrow>
    market_step cons_num sup_num unit m (m\<lparr>spcs := (spcs m)(k - cons_num := S_dead (spcs m (k - cons_num)))\<rparr>)"
| reap_consumer: "parent m = P_end k b \<Longrightarrow> k < cons_num \<Longrightarrow> cpcs m k = C_none \<or> c_over (cpcs m k) \<Longrightarrow>
    market_step cons_num sup_num unit m (m\<lparr>parent := P_end (k + 1) b\<rparr>)"
| reap_supplier: "parent m = P_end k b \<Longrightarrow> cons_num \<le> k \<Longrightarrow> k < cons_num + sup_num \<Longrightarrow>
    spcs m (k - cons_num) = S_none \<or> s_over (spcs m (k - cons_num)) \<Longrightarrow>
    market_step cons_num sup_num unit m (m\<lparr>parent := P_end (k + 1) b\<rparr>)"
| all_reaped: "parent m = P_end (cons_num + sup_num) b \<Longrightarrow>
    market_step cons_num sup_num unit m (m\<lparr>parent := P_done b\<rparr>)"

text \<open>The state after the shared memory and the semaphores have been set up.\<close>

definition start_shop :: "nat \<Rightarrow> int \<Rightarrow> int \<Rightarrow> shop" where
  "start_shop cons_num demand unit =
     \<lparr>sem = (\<lambda>l. 1), dem = (\<lambda>c. demand), stock = (\<lambda>i. unit), jobs = int cons_num, restocks = (\<lambda>i. 0)\<rparr>"

definition start_market :: "nat \<Rightarrow> int \<Rightarrow> int \<Rightarrow> market" where
  "start_market cons_num demand unit =
     \<lparr>cpcs = (\<lambda>c. C_none), spcs = (\<lambda>i. S_none), parent = P_fork 0, mem = start_shop cons_num demand unit\<rparr>"

abbreviation market_reach :: "nat \<Rightarrow> nat \<Rightarrow> int \<Rightarrow> int \<Rightarrow> market \<Rightarrow> bool" where
  "market_reach cons_num sup_num demand unit \<equiv>
     reach (\<lambda>m. m = start_market cons_num demand unit) (market_step cons_num sup_num unit)"

section \<open>The locking discipline\<close>

datatype pid = Consumer nat | Supplier nat

fun c_lock :: "cpc \<Rightarrow> lock option" where
  "c_lock (C_look j) = Some (Shelf j)" | "c_lock (C_take j k) = Some (Shelf j)"
| "c_lock (C_load j k) = Some (Shelf j)" | "c_lock (C_store j k v) = Some (Shelf j)"
| "c_lock (C_test j) = Some (Shelf j)" | "c_lock (C_post j b) = Some (Shelf j)"
| "c_lock C_jload = Some Jobs" | "c_lock (C_jstore v) = Some Jobs" | "c_lock C_jpost = Some Jobs"
| "c_lock (C_fail l) = l" | "c_lock (C_dead p) = c_lock p" | "c_lock p = None"

fun s_lock :: "nat \<Rightarrow> spc \<Rightarrow> lock option" where
  "s_lock i S_load = Some (Shelf i)" | "s_lock i (S_store v) = Some (Shelf i)"
| "s_lock i S_post = Some (Shelf i)" | "s_lock i S_jtest = Some Jobs" | "s_lock i (S_jpost b) = Some Jobs"
| "s_lock i (S_fail l) = l" | "s_lock i S_overflow = Some (Shelf i)" | "s_lock i (S_dead p) = s_lock i p"
| "s_lock i p = None"

fun holds_lock :: "market \<Rightarrow> pid \<Rightarrow> lock \<Rightarrow> bool" where
  "holds_lock m (Consumer c) l \<longleftrightarrow> c_lock (cpcs m c) = Some l"
| "holds_lock m (Supplier i) l \<longleftrightarrow> s_lock i (spcs m i) = Some l"

text \<open>One step of a process: its lock stays, or it takes one while it has none, or gives it back.\<close>

definition lock_move :: "shop \<Rightarrow> lock option \<Rightarrow> shop \<Rightarrow> lock option \<Rightarrow> bool" where
  "lock_move sh a sh' b \<longleftrightarrow>
     sem sh' = sem sh \<and> b = a \<or>
     (\<exists>l. a = None \<and> b = Some l \<and> 0 < sem sh l \<and> sem sh' = (sem sh)(l := sem sh l - 1)) \<or>
     (\<exists>l. a = Some l \<and> b = None \<and> sem sh' = (sem sh)(l := sem sh l + 1))"

lemmas sem_defs = sem_wait_def sem_post_def

lemma consume_locks: "consume_step n c (p, sh) (q, sh') \<Longrightarrow> lock_move sh (c_lock p) sh' (c_lock q)"
  by (cases rule: consume_step.cases) (auto simp: lock_move_def sem_defs split: if_splits)

lemma supply_locks: "supply_step i u (p, sh) (q, sh') \<Longrightarrow> lock_move sh (s_lock i p) sh' (s_lock i q)"
  by (cases rule: supply_step.cases) (auto simp: lock_move_def sem_defs split: if_splits)

end
