(* ===== verification/Market_Inv.thy ===== *)
theory Market_Inv
  imports Market
begin

text \<open>
  The invariants of the LAB_16 market. Each process guarantees that it touches a stock or the job
  counter only while it holds the semaphore of it, and relies on the others for the same; the
  locking discipline turns that into an invariant of the whole market.
\<close>

section \<open>The market keeps the locking discipline\<close>

lemma lock_move_discipline:
  assumes "lock_move sh a sh' b" "\<And>l. h p l \<longleftrightarrow> a = Some l" and h: "h' = h(p := (\<lambda>l. b = Some l))"
  shows "sem sh' = sem sh \<and> h' = h \<or>
    (\<exists>p l. takes (sem sh) h p l (sem sh') h') \<or> (\<exists>p l. gives (sem sh) h p l (sem sh') h')"
proof -
  from assms(1) consider "sem sh' = sem sh" "b = a"
    | l where "a = None" "b = Some l" "0 < sem sh l" "sem sh' = (sem sh)(l := sem sh l - 1)"
    | l where "a = Some l" "b = None" "sem sh' = (sem sh)(l := sem sh l + 1)"
    unfolding lock_move_def by blast
  then show ?thesis
  proof cases
    case 1
    then show ?thesis using assms(2) h by (auto simp: fun_eq_iff)
  next
    case (2 l)
    then have "takes (sem sh) h p l (sem sh') h'"
      using assms(2) h by (auto simp: takes_def fun_eq_iff)
    then show ?thesis by blast
  next
    case (3 l)
    then have "gives (sem sh) h p l (sem sh') h'"
      using assms(2) h by (auto simp: gives_def fun_eq_iff)
    then show ?thesis by blast
  qed
qed

lemma move_discipline:
  assumes "lock_move (mem m) a (mem t) b"
    and "\<And>l. holds_lock m p l \<longleftrightarrow> a = Some l" "\<And>l. holds_lock t p l \<longleftrightarrow> b = Some l"
    and "\<And>q. q \<noteq> p \<Longrightarrow> holds_lock t q = holds_lock m q"
  shows "sem (mem t) = sem (mem m) \<and> holds_lock t = holds_lock m \<or>
    (\<exists>p l. takes (sem (mem m)) (holds_lock m) p l (sem (mem t)) (holds_lock t)) \<or>
    (\<exists>p l. gives (sem (mem m)) (holds_lock m) p l (sem (mem t)) (holds_lock t))"
  using assms by (intro lock_move_discipline [of _ a _ b _ p]) (auto simp: fun_eq_iff)

lemma lock_move_refl: "lock_move sh a sh a"
  by (simp add: lock_move_def)

definition unforked :: "nat \<Rightarrow> nat \<Rightarrow> market \<Rightarrow> bool" where
  "unforked C n m \<longleftrightarrow>
     (\<forall>c. (case parent m of P_fork k \<Rightarrow> k | _ \<Rightarrow> C) \<le> c \<or> C \<le> c \<longrightarrow> cpcs m c = C_none) \<and>
     (\<forall>i. (case parent m of P_fork k \<Rightarrow> k | _ \<Rightarrow> C + n) \<le> C + i \<or> n \<le> i \<longrightarrow> spcs m i = S_none)"

inductive_simps consume_none [simp]: "consume_step n c (C_none, sh) x"
inductive_simps supply_none [simp]: "supply_step i u (S_none, sh) x"

lemma unforked_step:
  assumes "market_step C n u m t" "unforked C n m"
  shows "unforked C n t"
  using assms
proof (cases rule: market_step.cases)
  case (consumer c p sh)
  then show ?thesis using assms(2) by (auto simp: unforked_def)
next
  case (supplier i p sh)
  then show ?thesis using assms(2) by (auto simp: unforked_def)
qed (auto simp: unforked_def split: ppc.splits)

lemma unforked_reach: "market_reach C n D u m \<Longrightarrow> unforked C n m"
proof (induction rule: reach_invariant)
  case (start s)
  then show ?case by (auto simp: unforked_def start_market_def)
next
  case (step s t)
  then show ?case by (blast intro: unforked_step)
qed

lemma market_moves:
  assumes "market_step C n u m t" and "unforked C n m"
  shows "(\<exists>c. lock_move (mem m) (c_lock (cpcs m c)) (mem t) (c_lock (cpcs t c)) \<and>
            (\<forall>d. d \<noteq> c \<longrightarrow> cpcs t d = cpcs m d) \<and> spcs t = spcs m) \<or>
         (\<exists>i. lock_move (mem m) (s_lock i (spcs m i)) (mem t) (s_lock i (spcs t i)) \<and>
            (\<forall>d. d \<noteq> i \<longrightarrow> spcs t d = spcs m d) \<and> cpcs t = cpcs m)"
  using assms
proof (cases rule: market_step.cases)
  case (consumer c p sh)
  then show ?thesis by (intro disjI1 exI [of _ c]) (auto dest: consume_locks)
next
  case (supplier i p sh)
  then show ?thesis by (intro disjI2 exI [of _ i]) (auto dest: supply_locks)
next
  case (fork_consumer k)
  then show ?thesis using assms(2) by (intro disjI1 exI [of _ k]) (auto simp: lock_move_refl unforked_def)
next
  case (fork_supplier k)
  then show ?thesis using assms(2) by (intro disjI2 exI [of _ "k - C"]) (auto simp: lock_move_refl unforked_def)
next
  case (kill_consumer k)
  then show ?thesis by (intro disjI1 exI [of _ k]) (auto simp: lock_move_refl)
next
  case (kill_supplier k)
  then show ?thesis by (intro disjI2 exI [of _ "k - C"]) (auto simp: lock_move_refl)
qed (auto simp: lock_move_refl)

lemma market_discipline:
  assumes "market_step C n u m t" "unforked C n m"
  shows "sem (mem t) = sem (mem m) \<and> holds_lock t = holds_lock m \<or>
    (\<exists>p l. takes (sem (mem m)) (holds_lock m) p l (sem (mem t)) (holds_lock t)) \<or>
    (\<exists>p l. gives (sem (mem m)) (holds_lock m) p l (sem (mem t)) (holds_lock t))"
  using market_moves [OF assms]
proof (elim disjE exE conjE)
  fix c
  assume a: "lock_move (mem m) (c_lock (cpcs m c)) (mem t) (c_lock (cpcs t c))"
    "\<forall>d. d \<noteq> c \<longrightarrow> cpcs t d = cpcs m d" "spcs t = spcs m"
  have "holds_lock t q = holds_lock m q" if "q \<noteq> Consumer c" for q
    using a(2,3) that by (cases q) (auto simp: fun_eq_iff)
  then show ?thesis by (intro move_discipline [OF a(1), of "Consumer c"]) simp_all
next
  fix i
  assume a: "lock_move (mem m) (s_lock i (spcs m i)) (mem t) (s_lock i (spcs t i))"
    "\<forall>d. d \<noteq> i \<longrightarrow> spcs t d = spcs m d" "cpcs t = cpcs m"
  have "holds_lock t q = holds_lock m q" if "q \<noteq> Supplier i" for q
    using a(2,3) that by (cases q) (auto simp: fun_eq_iff)
  then show ?thesis by (intro move_discipline [OF a(1), of "Supplier i"]) simp_all
qed

interpretation mk: lock_discipline "\<lambda>m. m = start_market C D u" "market_step C n u" "\<lambda>m. sem (mem m)" holds_lock
  for C n D u
proof
  fix s l assume "s = start_market C D u"
  then show "sem (mem s) l = 1" by (simp add: start_market_def start_shop_def)
next
  fix s p l assume "s = start_market C D u"
  then show "\<not> holds_lock s p l" by (cases p) (simp_all add: start_market_def)
next
  fix s t assume "market_reach C n D u s" "market_step C n u s t"
  then show "sem (mem t) = sem (mem s) \<and> holds_lock t = holds_lock s \<or>
    (\<exists>p l. takes (sem (mem s)) (holds_lock s) p l (sem (mem t)) (holds_lock t)) \<or>
    (\<exists>p l. gives (sem (mem s)) (holds_lock s) p l (sem (mem t)) (holds_lock t))"
    by (rule market_discipline [OF _ unforked_reach, rotated])
qed

end
