(* ===== verification/Market_Data.thy ===== *)
theory Market_Data
  imports Market_Inv
begin

text \<open>
  What the processes of the LAB_16 market know about shared memory at each of their program
  points, and the quantities the market conserves.
\<close>

section \<open>Assertions at the program points\<close>

fun c_ok :: "nat \<Rightarrow> shop \<Rightarrow> nat \<Rightarrow> cpc \<Rightarrow> bool" where
  "c_ok n sh c (C_wait j) \<longleftrightarrow> j < n \<and> 0 < dem sh c"
| "c_ok n sh c (C_look j) \<longleftrightarrow> j < n \<and> 0 < dem sh c"
| "c_ok n sh c (C_take j k) \<longleftrightarrow> j < n \<and> 0 < k \<and> k \<le> dem sh c \<and> k \<le> stock sh j"
| "c_ok n sh c (C_load j k) \<longleftrightarrow> j < n \<and> 0 < k \<and> 0 \<le> dem sh c \<and> k \<le> stock sh j"
| "c_ok n sh c (C_store j k v) \<longleftrightarrow> j < n \<and> 0 < k \<and> 0 \<le> dem sh c \<and> 0 \<le> v \<and> v = stock sh j - k"
| "c_ok n sh c (C_test j) \<longleftrightarrow> j < n \<and> 0 \<le> dem sh c"
| "c_ok n sh c (C_post j Again) \<longleftrightarrow> j < n \<and> 0 < dem sh c"
| "c_ok n sh c (C_post j Leave) \<longleftrightarrow> j < n \<and> dem sh c = 0"
| "c_ok n sh c (C_jstore v) \<longleftrightarrow> dem sh c = 0 \<and> v = jobs sh - 1"
| "c_ok n sh c (C_fail l) \<longleftrightarrow> 0 \<le> dem sh c \<and> (l = Some Jobs \<longrightarrow> dem sh c = 0)"
| "c_ok n sh c (C_dead p) \<longleftrightarrow> c_ok n sh c p"
| "c_ok n sh c C_none \<longleftrightarrow> 0 < dem sh c"
| "c_ok n sh c C_pick \<longleftrightarrow> 0 < dem sh c"
| "c_ok n sh c p \<longleftrightarrow> dem sh c = 0"

fun s_ok :: "int \<Rightarrow> shop \<Rightarrow> nat \<Rightarrow> spc \<Rightarrow> bool" where
  "s_ok u sh i (S_store v) \<longleftrightarrow> v = stock sh i + u \<and> v \<le> INT_MAX"
| "s_ok u sh i (S_jpost b) \<longleftrightarrow> (b \<longrightarrow> jobs sh \<le> 0)"
| "s_ok u sh i S_exit \<longleftrightarrow> jobs sh \<le> 0"
| "s_ok u sh i (S_dead p) \<longleftrightarrow> s_ok u sh i p"
| "s_ok u sh i p \<longleftrightarrow> True"

text \<open>Has the consumer taken itself off the list of jobs? What has it taken but not yet booked?\<close>

fun signed_off :: "cpc \<Rightarrow> bool" where
  "signed_off C_jpost = True" | "signed_off C_exit = True" | "signed_off (C_fail l) = (l = Some Jobs)"
| "signed_off (C_dead p) = signed_off p" | "signed_off p = False"

fun inflight :: "cpc \<Rightarrow> int" where
  "inflight (C_load j k) = k" | "inflight (C_store j k v) = k" | "inflight (C_dead p) = inflight p"
| "inflight p = 0"

lemma c_ok_dem: "c_ok n sh c p \<Longrightarrow> 0 \<le> dem sh c"
  by (induction n sh c p rule: c_ok.induct) auto

lemma c_ok_signed: "c_ok n sh c p \<Longrightarrow> signed_off p \<Longrightarrow> dem sh c = 0"
  by (induction n sh c p rule: c_ok.induct) auto

lemma inflight_ge_0: "c_ok n sh c p \<Longrightarrow> 0 \<le> inflight p"
  by (induction n sh c p rule: c_ok.induct) auto

text \<open>What a process knows survives the steps of the others.\<close>

lemma c_ok_frame:
  assumes "c_ok n sh c p" "dem sh' c = dem sh c"
    and "\<And>j. c_lock p = Some (Shelf j) \<Longrightarrow> stock sh' j = stock sh j"
    and "c_lock p = Some Jobs \<Longrightarrow> jobs sh' = jobs sh"
  shows "c_ok n sh' c p"
  using assms by (induction n sh c p rule: c_ok.induct) auto

lemma s_ok_frame:
  assumes "s_ok u sh i p" "jobs sh' \<le> jobs sh"
    and "s_lock i p = Some (Shelf i) \<Longrightarrow> stock sh' i = stock sh i"
  shows "s_ok u sh' i p"
  using assms by (induction u sh i p rule: s_ok.induct) auto

definition stocks_ok :: "shop \<Rightarrow> bool" where
  "stocks_ok sh \<longleftrightarrow> (\<forall>j. 0 \<le> stock sh j \<and> stock sh j \<le> INT_MAX)"

lemma sem_mem [simp]:
  "sem_wait l sh = Some sh' \<Longrightarrow> dem sh' = dem sh" "sem_wait l sh = Some sh' \<Longrightarrow> stock sh' = stock sh"
  "sem_wait l sh = Some sh' \<Longrightarrow> jobs sh' = jobs sh" "sem_wait l sh = Some sh' \<Longrightarrow> restocks sh' = restocks sh"
  "dem (sem_post l sh) = dem sh" "stock (sem_post l sh) = stock sh" "jobs (sem_post l sh) = jobs sh"
  "restocks (sem_post l sh) = restocks sh"
  by (auto simp: sem_defs split: if_splits)

section \<open>What a step guarantees\<close>

lemma consume_ok:
  assumes "consume_step n c (p, sh) (q, sh')" "c_ok n sh c p" "stocks_ok sh"
  shows "c_ok n sh' c q"
  using assms c_ok_dem [OF assms(2)] by (cases rule: consume_step.cases) (auto split: again.splits)

definition c_guar :: "nat \<Rightarrow> nat \<Rightarrow> shop \<Rightarrow> cpc \<Rightarrow> shop \<Rightarrow> cpc \<Rightarrow> bool" where
  "c_guar n c sh p sh' q \<longleftrightarrow>
     stocks_ok sh' \<and> restocks sh' = restocks sh \<and> (\<forall>d. d \<noteq> c \<longrightarrow> dem sh' d = dem sh d) \<and>
     (\<forall>j. c_lock p \<noteq> Some (Shelf j) \<longrightarrow> stock sh' j = stock sh j) \<and>
     (c_lock p \<noteq> Some Jobs \<longrightarrow> jobs sh' = jobs sh) \<and>
     (signed_off p \<longrightarrow> signed_off q) \<and> jobs sh' = jobs sh - (if signed_off q \<and> \<not> signed_off p then 1 else 0) \<and>
     (stock sh' = stock sh \<and> inflight q - inflight p = dem sh c - dem sh' c \<or>
      (\<exists>j. j < n \<and> stock sh' = (stock sh)(j := stock sh j - inflight p) \<and> inflight q = 0 \<and> dem sh' c = dem sh c))"

lemma consume_guarantee:
  assumes "consume_step n c (p, sh) (q, sh')" "c_ok n sh c p" "stocks_ok sh"
  shows "c_guar n c sh p sh' q"
  using assms(1)
proof (cases rule: consume_step.cases)
  case (store j k v)
  moreover have "stock sh j \<le> INT_MAX" using assms(3) unfolding stocks_ok_def by blast
  then have "stock sh j - k \<le> INT_MAX" using assms(2) store(1) by simp
  ultimately show ?thesis using assms(2,3) by (auto simp: c_guar_def stocks_ok_def)
next
  case (jstore v)
  then show ?thesis using assms(2,3) by (simp add: c_guar_def stocks_ok_def)
qed (use assms(2,3) in \<open>auto simp: c_guar_def stocks_ok_def\<close>)

lemma supply_ok:
  assumes "supply_step i u (p, sh) (q, sh')" "s_ok u sh i p"
  shows "s_ok u sh' i q"
  using assms by (cases rule: supply_step.cases) auto

definition s_guar :: "nat \<Rightarrow> int \<Rightarrow> shop \<Rightarrow> spc \<Rightarrow> shop \<Rightarrow> bool" where
  "s_guar i u sh p sh' \<longleftrightarrow>
     stocks_ok sh' \<and> dem sh' = dem sh \<and> jobs sh' = jobs sh \<and>
     (\<forall>j. s_lock i p \<noteq> Some (Shelf j) \<longrightarrow> stock sh' j = stock sh j) \<and>
     (stock sh' = stock sh \<and> restocks sh' = restocks sh \<or>
      stock sh' = (stock sh)(i := stock sh i + u) \<and> restocks sh' = (restocks sh)(i := restocks sh i + 1))"

lemma supply_guarantee:
  assumes "supply_step i u (p, sh) (q, sh')" "s_ok u sh i p" "stocks_ok sh" "0 \<le> u"
  shows "s_guar i u sh p sh'"
  using assms by (cases rule: supply_step.cases) (auto simp: s_guar_def stocks_ok_def)

section \<open>The invariant of the market\<close>

definition market_inv :: "nat \<Rightarrow> nat \<Rightarrow> int \<Rightarrow> int \<Rightarrow> market \<Rightarrow> bool" where
  "market_inv C n D u m \<longleftrightarrow>
     (\<forall>c. c_ok n (mem m) c (cpcs m c)) \<and> (\<forall>i. s_ok u (mem m) i (spcs m i)) \<and> stocks_ok (mem m) \<and>
     jobs (mem m) = int (card {c \<in> {..<C}. \<not> signed_off (cpcs m c)}) \<and>
     (\<Sum>j<n. stock (mem m) j) + (\<Sum>c<C. D - dem (mem m) c) =
       u * int (n + (\<Sum>i<n. restocks (mem m) i)) + (\<Sum>c<C. inflight (cpcs m c))"

lemma signed_off_update:
  fixes C c :: nat
  assumes "c < C" "signed_off (f c) \<longrightarrow> signed_off q"
  shows "int (card {d \<in> {..<C}. \<not> signed_off ((f(c := q)) d)}) =
    int (card {d \<in> {..<C}. \<not> signed_off (f d)}) - (if signed_off q \<and> \<not> signed_off (f c) then 1 else 0)"
proof (cases "signed_off q \<and> \<not> signed_off (f c)")
  case True
  then have e: "{d \<in> {..<C}. \<not> signed_off ((f(c := q)) d)} = {d \<in> {..<C}. \<not> signed_off (f d)} - {c}" by auto
  have "c \<in> {d \<in> {..<C}. \<not> signed_off (f d)}" using True assms(1) by simp
  moreover have "finite {d \<in> {..<C}. \<not> signed_off (f d)}" by (rule finite_subset [of _ "{..<C}"]) auto
  moreover from calculation have "0 < card {d \<in> {..<C}. \<not> signed_off (f d)}" by (metis card_gt_0_iff empty_iff)
  ultimately show ?thesis using True unfolding e by (simp add: card_Diff_singleton of_nat_diff)
next
  case False
  then have "{d \<in> {..<C}. \<not> signed_off ((f(c := q)) d)} = {d \<in> {..<C}. \<not> signed_off (f d)}" using assms(2) by auto
  then show ?thesis using False by simp
qed

lemma lock_alone:
  assumes "market_reach C n D u m" "holds_lock m p l" "p \<noteq> q"
  shows "\<not> holds_lock m q l"
  using mk.mutual_exclusion [OF assms(1,2)] assms(3) by blast

text \<open>
  A process that has ended after a failed call relies on nothing that a lock protects, so the
  invariant is kept also when the lock that it held is given to others.
\<close>

fun has_failed :: "market \<Rightarrow> pid \<Rightarrow> bool" where
  "has_failed m (Consumer c) \<longleftrightarrow> (\<exists>l. cpcs m c = C_fail l)"
| "has_failed m (Supplier i) \<longleftrightarrow> (\<exists>l. spcs m i = S_fail l) \<or> spcs m i = S_overflow"

definition undisturbed :: "market \<Rightarrow> pid \<Rightarrow> bool" where
  "undisturbed m p \<longleftrightarrow> (\<forall>q l. q \<noteq> p \<and> holds_lock m q l \<and> \<not> has_failed m q \<longrightarrow> \<not> holds_lock m p l)"

lemma undisturbedD: "undisturbed m p \<Longrightarrow> q \<noteq> p \<Longrightarrow> holds_lock m q l \<Longrightarrow> \<not> has_failed m q \<Longrightarrow> \<not> holds_lock m p l"
  by (simp add: undisturbed_def)

lemma reach_undisturbed: "market_reach C n D u m \<Longrightarrow> undisturbed m p"
  unfolding undisturbed_def using lock_alone by blast

lemma consumer_frame:
  assumes "c_ok n (mem m) d (cpcs m d)" "dem sh' d = dem (mem m) d"
    and "\<And>j. holds_lock m (Consumer d) (Shelf j) \<Longrightarrow> \<not> has_failed m (Consumer d) \<Longrightarrow> stock sh' j = stock (mem m) j"
    and "holds_lock m (Consumer d) Jobs \<Longrightarrow> \<not> has_failed m (Consumer d) \<Longrightarrow> jobs sh' = jobs (mem m)"
  shows "c_ok n sh' d (cpcs m d)"
proof (cases "\<exists>l. cpcs m d = C_fail l")
  case True
  then show ?thesis using assms(1,2) by auto
next
  case False
  then show ?thesis using assms(3,4) by (intro c_ok_frame [OF assms(1,2)]) auto
qed

lemma supplier_frame:
  assumes "s_ok u (mem m) i (spcs m i)" "jobs sh' \<le> jobs (mem m)"
    and "holds_lock m (Supplier i) (Shelf i) \<Longrightarrow> \<not> has_failed m (Supplier i) \<Longrightarrow> stock sh' i = stock (mem m) i"
  shows "s_ok u sh' i (spcs m i)"
proof (cases "(\<exists>l. spcs m i = S_fail l) \<or> spcs m i = S_overflow")
  case True
  then show ?thesis by auto
next
  case False
  then show ?thesis using assms(3) by (intro s_ok_frame [OF assms(1,2)]) auto
qed

lemma c_guarD:
  assumes "c_guar n c sh p sh' q"
  shows "stocks_ok sh'" "restocks sh' = restocks sh" "d \<noteq> c \<Longrightarrow> dem sh' d = dem sh d"
    "c_lock p \<noteq> Some (Shelf j) \<Longrightarrow> stock sh' j = stock sh j" "c_lock p \<noteq> Some Jobs \<Longrightarrow> jobs sh' = jobs sh"
    "signed_off p \<longrightarrow> signed_off q" "jobs sh' = jobs sh - (if signed_off q \<and> \<not> signed_off p then 1 else 0)"
    "stock sh' = stock sh \<and> inflight q - inflight p = dem sh c - dem sh' c \<or>
      (\<exists>j. j < n \<and> stock sh' = (stock sh)(j := stock sh j - inflight p) \<and> inflight q = 0 \<and> dem sh' c = dem sh c)"
  using assms unfolding c_guar_def by blast+

lemma s_guarD:
  assumes "s_guar i u sh p sh'"
  shows "stocks_ok sh'" "dem sh' = dem sh" "jobs sh' = jobs sh"
    "s_lock i p \<noteq> Some (Shelf j) \<Longrightarrow> stock sh' j = stock sh j"
    "stock sh' = stock sh \<and> restocks sh' = restocks sh \<or>
     stock sh' = (stock sh)(i := stock sh i + u) \<and> restocks sh' = (restocks sh)(i := restocks sh i + 1)"
  using assms unfolding s_guar_def by blast+

lemma market_invD:
  assumes "market_inv C n D u m"
  shows "c_ok n (mem m) c (cpcs m c)" "s_ok u (mem m) i (spcs m i)" "stocks_ok (mem m)"
    "jobs (mem m) = int (card {c \<in> {..<C}. \<not> signed_off (cpcs m c)})"
    "(\<Sum>j<n. stock (mem m) j) + (\<Sum>c<C. D - dem (mem m) c) =
       u * int (n + (\<Sum>i<n. restocks (mem m) i)) + (\<Sum>c<C. inflight (cpcs m c))"
  using assms unfolding market_inv_def by blast+

lemma inv_consumer:
  assumes r: "undisturbed m (Consumer c)" and inv: "market_inv C n D u m" and c: "c < C"
    and st: "consume_step n c (cpcs m c, mem m) (q, sh')"
  shows "market_inv C n D u (m\<lparr>cpcs := (cpcs m)(c := q), mem := sh'\<rparr>)"
proof -
  let ?f = "(cpcs m)(c := q)"
  note i = market_invD [OF inv]
  have g: "c_guar n c (mem m) (cpcs m c) sh' q" by (rule consume_guarantee [OF st i(1,3)])
  note g = c_guarD [OF g]
  have other: "c_lock (cpcs m c) \<noteq> Some l" if "holds_lock m p l" "\<not> has_failed m p" "p \<noteq> Consumer c" for l p
    using undisturbedD [OF r that(3,1,2)] by simp
  have "c_ok n sh' d (?f d)" for d
  proof (cases "d = c")
    case True
    then show ?thesis using consume_ok [OF st i(1,3)] by simp
  next
    case False
    have "c_ok n sh' d (cpcs m d)"
      using False by (intro consumer_frame [OF i(1)] g(3-5) other [of "Consumer d"]) auto
    then show ?thesis using False by simp
  qed
  moreover have "s_ok u sh' i (spcs m i)" for i
    using g(7) by (intro supplier_frame [OF i(2)] g(4) other [of "Supplier i"]) auto
  moreover have "jobs sh' = int (card {d \<in> {..<C}. \<not> signed_off (?f d)})"
    using signed_off_update [of c C "cpcs m" q, OF c g(6)] g(7) i(4) by simp
  moreover have "(\<Sum>j<n. stock sh' j) + (\<Sum>d<C. D - dem sh' d) =
      u * int (n + (\<Sum>i<n. restocks sh' i)) + (\<Sum>d<C. inflight (?f d))"
  proof -
    have "(\<Sum>d<C. D - dem sh' d) = (\<Sum>d<C. ((\<lambda>d. D - dem (mem m) d)(c := D - dem sh' c)) d)"
      using g(3) by (intro sum.cong) auto
    then have d: "(\<Sum>d<C. D - dem sh' d) = (\<Sum>d<C. D - dem (mem m) d) + (dem (mem m) c - dem sh' c)"
      unfolding sum_upd [OF c] by simp
    have "(\<Sum>d<C. inflight (?f d)) = (\<Sum>d<C. ((\<lambda>d. inflight (cpcs m d))(c := inflight q)) d)"
      by (intro sum.cong) auto
    then have f: "(\<Sum>d<C. inflight (?f d)) = (\<Sum>d<C. inflight (cpcs m d)) + (inflight q - inflight (cpcs m c))"
      unfolding sum_upd [OF c] .
    have "(\<Sum>j<n. stock sh' j) = (\<Sum>j<n. stock (mem m) j) +
        (inflight q - inflight (cpcs m c) - (dem (mem m) c - dem sh' c))"
      using g(8)
    proof (elim disjE exE conjE)
      fix j assume "j < n" "stock sh' = (stock (mem m))(j := stock (mem m) j - inflight (cpcs m c))"
        "inflight q = 0" "dem sh' c = dem (mem m) c"
      then show ?thesis using sum_upd [of j n "stock (mem m)"] by (simp del: fun_upd_apply)
    qed simp
    then show ?thesis using d f i(5) g(2) by simp
  qed
  ultimately show ?thesis using g(1) by (simp add: market_inv_def del: fun_upd_apply)
qed

lemma inv_supplier:
  assumes r: "undisturbed m (Supplier i)" and inv: "market_inv C n D u m" and i: "i < n" and "0 \<le> u"
    and st: "supply_step i u (spcs m i, mem m) (q, sh')"
  shows "market_inv C n D u (m\<lparr>spcs := (spcs m)(i := q), mem := sh'\<rparr>)"
proof -
  note v = market_invD [OF inv]
  have g: "s_guar i u (mem m) (spcs m i) sh'" by (rule supply_guarantee [OF st v(2,3) assms(4)])
  note g = s_guarD [OF g]
  have other: "s_lock i (spcs m i) \<noteq> Some l" if "holds_lock m p l" "\<not> has_failed m p" "p \<noteq> Supplier i" for l p
    using undisturbedD [OF r that(3,1,2)] by simp
  have "c_ok n sh' c (cpcs m c)" for c
    using g(2,3) by (intro consumer_frame [OF v(1)] g(4) other [of "Consumer c"]) auto
  moreover have "s_ok u sh' d (((spcs m)(i := q)) d)" for d
  proof (cases "d = i")
    case True
    then show ?thesis using supply_ok [OF st v(2)] by simp
  next
    case False
    have "s_ok u sh' d (spcs m d)"
      using g(3) False by (intro supplier_frame [OF v(2)] g(4) other [of "Supplier d"]) auto
    then show ?thesis using False by simp
  qed
  moreover have "(\<Sum>j<n. stock sh' j) + (\<Sum>d<C. D - dem sh' d) =
      u * int (n + (\<Sum>i<n. restocks sh' i)) + (\<Sum>d<C. inflight (cpcs m d))"
    using g(5)
  proof (elim disjE conjE)
    assume a: "stock sh' = (stock (mem m))(i := stock (mem m) i + u)"
      "restocks sh' = (restocks (mem m))(i := restocks (mem m) i + 1)"
    have "(\<Sum>j<n. stock sh' j) = (\<Sum>j<n. stock (mem m) j) + u"
      unfolding a(1) sum_upd [OF i] by simp
    moreover have "int (\<Sum>j<n. restocks sh' j) = (\<Sum>j<n. ((\<lambda>j. int (restocks (mem m) j))(i := int (restocks (mem m) i) + 1)) j)"
      unfolding a(2) of_nat_sum by (intro sum.cong) auto
    then have "int (\<Sum>j<n. restocks sh' j) = int (\<Sum>j<n. restocks (mem m) j) + 1"
      unfolding sum_upd [OF i] by simp
    then have "u * int (n + (\<Sum>j<n. restocks sh' j)) = u * int (n + (\<Sum>j<n. restocks (mem m) j)) + u"
      by (simp add: algebra_simps)
    ultimately show ?thesis using v(5) g(2) by simp
  qed (use v(5) g(2) in simp)
  ultimately show ?thesis using g(1,3) v(4) by (simp add: market_inv_def del: fun_upd_apply)
qed

lemma market_inv_start:
  assumes "0 < D" "0 \<le> u" "u \<le> INT_MAX"
  shows "market_inv C n D u (start_market C D u)"
  using assms by (simp add: market_inv_def start_market_def start_shop_def stocks_ok_def)

text \<open>Starting, killing and reaping a child changes its program counter only.\<close>

lemma inv_parent:
  assumes inv: "market_inv C n D u m"
    and "mem t = mem m" "\<And>c. c_ok n (mem m) c (cpcs m c) \<Longrightarrow> c_ok n (mem m) c (cpcs t c)"
    "\<And>i. s_ok u (mem m) i (spcs m i) \<Longrightarrow> s_ok u (mem m) i (spcs t i)"
    "\<And>c. signed_off (cpcs t c) = signed_off (cpcs m c)" "\<And>c. inflight (cpcs t c) = inflight (cpcs m c)"
  shows "market_inv C n D u t"
  using market_invD [OF inv] assms(2-) by (simp add: market_inv_def)

lemma market_inv_step:
  assumes r: "market_reach C n D u m" and inv: "market_inv C n D u m" and u: "0 \<le> u"
    and st: "market_step C n u m t"
  shows "market_inv C n D u t"
proof -
  have un: "unforked C n m" by (rule unforked_reach [OF r])
  from st show ?thesis
  proof (cases rule: market_step.cases)
    case (consumer c p sh)
    then have "c < C" using un by (cases "c < C") (auto simp: unforked_def)
    then show ?thesis using inv_consumer [OF reach_undisturbed [OF r] inv] consumer by blast
  next
    case (supplier i p sh)
    then have "i < n" using un by (cases "i < n") (auto simp: unforked_def)
    then show ?thesis using inv_supplier [OF reach_undisturbed [OF r] inv _ u] supplier by blast
  next
    case (fork_consumer k)
    then have "cpcs m k = C_none" using un by (simp add: unforked_def)
    then show ?thesis using fork_consumer by (intro inv_parent [OF inv]) auto
  next
    case (fork_supplier k)
    then have "spcs m (k - C) = S_none" using un by (simp add: unforked_def)
    then show ?thesis using fork_supplier by (intro inv_parent [OF inv]) auto
  qed (auto intro!: inv_parent [OF inv] split: if_splits)
qed

lemma market_inv_reach:
  assumes "market_reach C n D u m" "0 < D" "0 \<le> u" "u \<le> INT_MAX"
  shows "market_inv C n D u m"
  using assms(1)
proof (induction rule: reach_invariant)
  case (start s)
  then show ?case using market_inv_start assms(2-4) by simp
next
  case (step s t)
  then show ?case using market_inv_step assms(3) by blast
qed

end
