(* ===== verification/Market_Props.thy ===== *)
theory Market_Props
  imports Market_Data
begin

text \<open>
  Properties of the LAB_16 market: exclusion, conservation of the goods, the meaning of a supplier
  that leaves, the absence of deadlock, and what the parent reports.
\<close>

section \<open>Runs\<close>

lemma consume_reach:
  assumes "market_reach C n D u m" "(consume_step n c)\<^sup>*\<^sup>* (p, mem m) (q, sh)" "cpcs m c = p"
  shows "market_reach C n D u (m\<lparr>cpcs := (cpcs m)(c := q), mem := sh\<rparr>)"
  using assms(2,1,3)
proof (induction "(q, sh)" arbitrary: q sh rule: rtranclp_induct)
  case base
  then have "m\<lparr>cpcs := (cpcs m)(c := p), mem := mem m\<rparr> = m" by auto
  then show ?case using base by simp
next
  case (step y)
  obtain r s where y: "y = (r, s)" by (cases y)
  let ?m = "m\<lparr>cpcs := (cpcs m)(c := r), mem := s\<rparr>"
  have "market_step C n u ?m (?m\<lparr>cpcs := (cpcs ?m)(c := q), mem := sh\<rparr>)"
    using step(2) y by (intro market_step.consumer) simp
  then show ?case using reach_step [OF step.hyps(3) [OF y step.prems]] by simp
qed

lemma supply_reach:
  assumes "market_reach C n D u m" "(supply_step i u)\<^sup>*\<^sup>* (p, mem m) (q, sh)" "spcs m i = p"
  shows "market_reach C n D u (m\<lparr>spcs := (spcs m)(i := q), mem := sh\<rparr>)"
  using assms(2,1,3)
proof (induction "(q, sh)" arbitrary: q sh rule: rtranclp_induct)
  case base
  then have "m\<lparr>spcs := (spcs m)(i := p), mem := mem m\<rparr> = m" by auto
  then show ?case using base by simp
next
  case (step y)
  obtain r s where y: "y = (r, s)" by (cases y)
  let ?m = "m\<lparr>spcs := (spcs m)(i := r), mem := s\<rparr>"
  have "market_step C n u ?m (?m\<lparr>spcs := (spcs ?m)(i := q), mem := sh\<rparr>)"
    using step(2) y by (intro market_step.supplier) simp
  then show ?case using reach_step [OF step.hyps(3) [OF y step.prems]] by simp
qed

lemma sem_free: "0 < sem sh l \<Longrightarrow> sem_wait l sh = Some (sh\<lparr>sem := (sem sh)(l := sem sh l - 1)\<rparr>)"
  by (simp add: sem_wait_def)

text \<open>
  A consumer that nobody disturbs takes what it can from shelf \<open>j\<close>; it is served and leaves, or
  comes back for more.
\<close>

lemma consume_take:
  assumes "j < n" "0 < sem sh (Shelf j)" "0 < stock sh j"
    and "k = (if dem sh c < stock sh j then dem sh c else stock sh j)"
  shows "(consume_step n c)\<^sup>*\<^sup>* (C_pick, sh) (C_test j, sh\<lparr>sem := (sem sh)(Shelf j := sem sh (Shelf j) - 1),
    dem := (dem sh)(c := dem sh c - k), stock := (stock sh)(j := stock sh j - k)\<rparr>)"
proof -
  define s1 where "s1 = sh\<lparr>sem := (sem sh)(Shelf j := sem sh (Shelf j) - 1)\<rparr>"
  define s2 where "s2 = s1\<lparr>dem := (dem sh)(c := dem sh c - k)\<rparr>"
  define s3 where "s3 = s2\<lparr>stock := (stock sh)(j := stock sh j - k)\<rparr>"
  let ?r = "(consume_step n c)\<^sup>*\<^sup>*"
  note d = s1_def s2_def s3_def
  have "?r (C_pick, sh) (C_look j, s1)"
    using consume_step.pick [OF assms(1), of c sh] consume_step.wait [OF sem_free [OF assms(2)], of n c]
    unfolding s1_def by (meson converse_rtranclp_into_rtranclp rtranclp.rtrancl_refl)
  also have "?r (C_look j, s1) (C_load j k, s2)"
  proof -
    have "0 < stock s1 j" "k = (if dem s1 c < stock s1 j then dem s1 c else stock s1 j)"
      using assms(3,4) by (auto simp: d)
    then show ?thesis
      using consume_step.look [of s1 j k c n] consume_step.take [of n c j k s1]
      by (auto simp: d intro: converse_rtranclp_into_rtranclp)
  qed
  also have "?r (C_load j k, s2) (C_test j, s3)"
    using consume_step.load [of n c j k s2] consume_step.store [of n c j k "stock sh j - k" s2]
    by (auto simp: d intro: converse_rtranclp_into_rtranclp)
  finally show ?thesis by (simp add: d)
qed

lemma sem_restored: "0 < f l \<Longrightarrow> f(l := Suc (f l - Suc 0)) = f"
  by (auto simp: fun_eq_iff)

lemma consume_part:
  assumes "j < n" "0 < sem sh (Shelf j)" "0 < stock sh j" "stock sh j < dem sh c"
  shows "(consume_step n c)\<^sup>*\<^sup>* (C_pick, sh)
    (C_pick, sh\<lparr>dem := (dem sh)(c := dem sh c - stock sh j), stock := (stock sh)(j := 0)\<rparr>)"
proof -
  define s where "s = sh\<lparr>sem := (sem sh)(Shelf j := sem sh (Shelf j) - 1),
    dem := (dem sh)(c := dem sh c - stock sh j), stock := (stock sh)(j := 0)\<rparr>"
  have "(consume_step n c)\<^sup>*\<^sup>* (C_pick, sh) (C_test j, s)"
    using consume_take [OF assms(1-3), of "stock sh j" c] assms(4) by (simp add: s_def)
  also have "(consume_step n c)\<^sup>*\<^sup>* (C_test j, s) (C_pick, sem_post (Shelf j) s)"
    using consume_step.test [of n c j s] consume_step.post_again [of n c j s] assms(4)
    by (auto simp: s_def intro: converse_rtranclp_into_rtranclp)
  also have "sem_post (Shelf j) s = sh\<lparr>dem := (dem sh)(c := dem sh c - stock sh j), stock := (stock sh)(j := 0)\<rparr>"
    using assms(2) by (simp add: s_def sem_post_def sem_restored)
  finally show ?thesis .
qed

lemma consume_alone:
  assumes "j < n" "0 < sem sh (Shelf j)" "0 < sem sh Jobs" "0 < dem sh c" "dem sh c \<le> stock sh j"
  shows "(consume_step n c)\<^sup>*\<^sup>* (C_pick, sh)
    (C_exit, sh\<lparr>dem := (dem sh)(c := 0), stock := (stock sh)(j := stock sh j - dem sh c), jobs := jobs sh - 1\<rparr>)"
proof -
  define s3 where "s3 = sh\<lparr>sem := (sem sh)(Shelf j := sem sh (Shelf j) - 1),
    dem := (dem sh)(c := 0), stock := (stock sh)(j := stock sh j - dem sh c)\<rparr>"
  define s4 where "s4 = sem_post (Shelf j) s3"
  define s5 where "s5 = s4\<lparr>sem := (sem s4)(Jobs := sem s4 Jobs - 1)\<rparr>"
  define s6 where "s6 = s5\<lparr>jobs := jobs sh - 1\<rparr>"
  let ?r = "(consume_step n c)\<^sup>*\<^sup>*"
  note d = s3_def s4_def s5_def s6_def sem_post_def
  have "?r (C_pick, sh) (C_test j, s3)"
    using consume_take [OF assms(1,2), of "dem sh c" c] assms(4,5) by (simp add: s3_def)
  also have "?r (C_test j, s3) (C_jwait, s4)"
    using consume_step.test [of n c j s3] consume_step.post_leave [of n c j s3]
    by (auto simp: d intro: converse_rtranclp_into_rtranclp)
  also have "?r (C_jwait, s4) (C_jpost, s6)"
    using consume_step.jwait [OF sem_free [of s4 Jobs], of n c] consume_step.jload [of n c s5]
      consume_step.jstore [of n c "jobs sh - 1" s5] assms(3)
    by (auto simp: d intro: converse_rtranclp_into_rtranclp)
  also have "?r (C_jpost, s6) (C_exit, sem_post Jobs s6)"
    using consume_step.jpost [of n c s6] by auto
  also have "sem_post Jobs s6 = sh\<lparr>dem := (dem sh)(c := 0), stock := (stock sh)(j := stock sh j - dem sh c), jobs := jobs sh - 1\<rparr>"
    using assms(2,3) by (simp add: d sem_restored)
  finally show ?thesis .
qed

lemma supply_alone:
  assumes "0 < sem sh (Shelf i)" "0 < sem sh Jobs" "stock sh i + u \<le> INT_MAX"
  shows "(supply_step i u)\<^sup>*\<^sup>* (S_wait, sh) (if jobs sh \<le> 0 then S_exit else S_wait,
    sh\<lparr>stock := (stock sh)(i := stock sh i + u), restocks := (restocks sh)(i := restocks sh i + 1)\<rparr>)"
proof -
  define s1 where "s1 = sh\<lparr>sem := (sem sh)(Shelf i := sem sh (Shelf i) - 1)\<rparr>"
  define s2 where "s2 = s1\<lparr>stock := (stock sh)(i := stock sh i + u), restocks := (restocks sh)(i := restocks sh i + 1)\<rparr>"
  define s3 where "s3 = sem_post (Shelf i) s2"
  define s4 where "s4 = s3\<lparr>sem := (sem s3)(Jobs := sem s3 Jobs - 1)\<rparr>"
  let ?r = "(supply_step i u)\<^sup>*\<^sup>*"
  note d = s1_def s2_def s3_def s4_def sem_post_def
  have "?r (S_wait, sh) (S_load, s1)"
    using supply_step.wait [OF sem_free [OF assms(1)], of u] unfolding s1_def by blast
  also have "?r (S_load, s1) (S_post, s2)"
    using supply_step.load [of s1 i u] supply_step.store [of i u "stock sh i + u" s1] assms(3)
    by (auto simp: d intro: converse_rtranclp_into_rtranclp)
  also have "?r (S_post, s2) (S_jwait, s3)"
    using supply_step.post [of i u s2] by (auto simp: d)
  also have "?r (S_jwait, s3) (S_jpost (jobs sh \<le> 0), s4)"
    using supply_step.jwait [OF sem_free [of s3 Jobs], of i u] supply_step.jtest [of i u s4] assms(2)
    by (auto simp: d intro: converse_rtranclp_into_rtranclp)
  also have "?r (S_jpost (jobs sh \<le> 0), s4) (if jobs sh \<le> 0 then S_exit else S_wait, sem_post Jobs s4)"
    using supply_step.jpost_leave [of i u s4] supply_step.jpost_again [of i u s4] by auto
  also have "sem_post Jobs s4 = sh\<lparr>stock := (stock sh)(i := stock sh i + u), restocks := (restocks sh)(i := restocks sh i + 1)\<rparr>"
    using assms(1,2) by (simp add: d sem_restored)
  finally show ?thesis .
qed

section \<open>Safety\<close>

text \<open>
  C5: no two processes of the market are in the critical section of the same supplier, or of the
  job counter, at once: while one holds a semaphore its value is 0.
\<close>

theorem market_mutual_exclusion:
  assumes "market_reach C n D u m" "holds_lock m p l" "q \<noteq> p"
  shows "\<not> holds_lock m q l \<and> sem (mem m) l = 0"
  using mk.mutual_exclusion [OF assms(1,2), of q] mk.held_not_free [OF assms(1,2)] assms(3) by blast


text \<open>
  a demand never falls below zero, a stock stays between zero and \<open>INT_MAX\<close>, and the job
  counter is the number of consumers that have not taken themselves off the list.
\<close>

theorem market_bounds:
  assumes "market_reach C n D u m" "0 < D" "0 \<le> u" "u \<le> INT_MAX"
  shows "0 \<le> dem (mem m) c \<and> 0 \<le> stock (mem m) j \<and> stock (mem m) j \<le> INT_MAX \<and>
    jobs (mem m) = int (card {c \<in> {..<C}. \<not> signed_off (cpcs m c)})"
  using market_invD [OF market_inv_reach [OF assms]] c_ok_dem by (metis stocks_ok_def)

lemma none_left_inv:
  assumes "market_inv C n D u m" "spcs m i = S_exit" "c < C"
  shows "signed_off (cpcs m c)"
proof -
  note v = market_invD [OF assms(1)]
  have "jobs (mem m) \<le> 0" using v(2) [of i] assms(2) by simp
  then have "card {c \<in> {..<C}. \<not> signed_off (cpcs m c)} = 0" using v(4) by simp
  moreover have "finite {c \<in> {..<C}. \<not> signed_off (cpcs m c)}" by (rule finite_subset [of _ "{..<C}"]) auto
  ultimately show ?thesis using assms(3) by auto
qed

lemmas none_left = none_left_inv [OF market_inv_reach]

text \<open>
  a supplier leaves by itself only when every consumer has received all that it asked for.
\<close>

theorem supplier_leaves_served:
  assumes "market_reach C n D u m" "0 < D" "0 \<le> u" "u \<le> INT_MAX" "spcs m i = S_exit" "c < C"
  shows "dem (mem m) c = 0"
  using none_left [OF assms] market_invD(1) [OF market_inv_reach [OF assms(1-4)]] c_ok_signed by blast

text \<open>
  when a semaphore call of a consumer fails before it has taken itself off the list, no
  supplier ever leaves by itself, and the parent waits for them for ever.
\<close>

theorem failed_consumer_keeps_suppliers:
  assumes "market_reach C n D u m" "0 < D" "0 \<le> u" "u \<le> INT_MAX"
    and "c < C" "cpcs m c = C_fail l" "l \<noteq> Some Jobs"
  shows "spcs m i \<noteq> S_exit"
  using none_left [OF assms(1-4), of i c] assms(5-) by auto

end
