(* ===== verification/Market_Live.thy ===== *)
theory Market_Live
  imports Market_Props
begin

text \<open>
  The LAB_16 market gets on: as long as no call fails it is never stuck before the parent is done,
  and a run to the end exists.
\<close>

section \<open>No deadlock\<close>

fun c_sound :: "cpc \<Rightarrow> bool" where
  "c_sound (C_fail l) = False" | "c_sound (C_dead p) = False" | "c_sound p = True"

fun s_sound :: "spc \<Rightarrow> bool" where
  "s_sound (S_fail l) = False" | "s_sound S_overflow = False" | "s_sound (S_dead p) = False" | "s_sound p = True"

text \<open>No call has failed, and no process has been killed or has overflowed its stock.\<close>

definition sound :: "market \<Rightarrow> bool" where
  "sound m \<longleftrightarrow> (\<forall>c. c_sound (cpcs m c)) \<and> (\<forall>i. s_sound (spcs m i)) \<and>
     (\<forall>k. parent m \<noteq> P_end k True) \<and> parent m \<noteq> P_done True"

text \<open>A process that is not waiting for a semaphore can move.\<close>

lemma consume_moves:
  assumes "c_sound p" "\<not> c_over p" "p \<noteq> C_none" "0 < n"
    and "\<And>l. (\<exists>j. p = C_wait j \<and> l = Shelf j) \<or> (p = C_jwait \<and> l = Jobs) \<Longrightarrow> 0 < sem sh l"
  shows "\<exists>q sh'. consume_step n c (p, sh) (q, sh') \<and> c_sound q"
proof (cases p)
  case (C_wait j)
  then show ?thesis using assms(5) consume_step.wait [OF sem_free] by (metis c_sound.simps(6))
next
  case C_jwait
  then show ?thesis using assms(5) consume_step.jwait [OF sem_free] by (metis c_sound.simps(13))
next
  case C_pick
  then show ?thesis using assms(4) consume_step.pick by (metis c_sound.simps(5))
next
  case (C_look j)
  then show ?thesis
    using consume_step.empty [of sh j n c] consume_step.look [of sh j _ c n] by (cases "stock sh j \<le> 0") fastforce+
next
  case (C_post j b)
  then show ?thesis
    using consume_step.post_again [of n c j sh] consume_step.post_leave [of n c j sh] by (cases b) fastforce+
qed (use assms(1-3) in \<open>fastforce intro: consume_step.intros\<close>)+

lemma supply_moves:
  assumes "s_sound p" "\<not> s_over p" "p \<noteq> S_none" "stock sh i + u \<le> INT_MAX"
    and "\<And>l. (p = S_wait \<and> l = Shelf i) \<or> (p = S_jwait \<and> l = Jobs) \<Longrightarrow> 0 < sem sh l"
  shows "\<exists>q sh'. supply_step i u (p, sh) (q, sh') \<and> s_sound q"
proof (cases p)
  case S_wait
  then show ?thesis using assms(5) supply_step.wait [OF sem_free] by (metis s_sound.simps(6))
next
  case S_jwait
  then show ?thesis using assms(5) supply_step.jwait [OF sem_free] by (metis s_sound.simps(10))
next
  case (S_jpost b)
  then show ?thesis
    using supply_step.jpost_again [of i u sh] supply_step.jpost_leave [of i u sh] by (cases b) fastforce+
qed (use assms(1-4) in \<open>fastforce intro: supply_step.intros\<close>)+

lemma sound_consumer:
  assumes "sound m" "consume_step n c (cpcs m c, mem m) (q, sh)" "c_sound q"
  shows "\<exists>t. market_step C n u m t \<and> sound t"
proof -
  have "sound (m\<lparr>cpcs := (cpcs m)(c := q), mem := sh\<rparr>)" using assms(1,3) by (simp add: sound_def)
  then show ?thesis using market_step.consumer [OF assms(2)] by blast
qed

lemma sound_supplier:
  assumes "sound m" "supply_step i u (spcs m i, mem m) (q, sh)" "s_sound q"
  shows "\<exists>t. market_step C n u m t \<and> sound t"
proof -
  have "sound (m\<lparr>spcs := (spcs m)(i := q), mem := sh\<rparr>)" using assms(1,3) by (simp add: sound_def)
  then show ?thesis using market_step.supplier [OF assms(2)] by blast
qed

lemma holder_moves:
  assumes s: "sound m" and h: "holds_lock m p l" and "0 < n" "\<And>j. stock (mem m) j + u \<le> INT_MAX"
  shows "\<exists>t. market_step C n u m t \<and> sound t"
proof (cases p)
  case (Consumer c)
  then have l: "c_lock (cpcs m c) = Some l" and q: "c_sound (cpcs m c)" using h s by (auto simp: sound_def)
  then have "\<not> c_over (cpcs m c)" "cpcs m c \<noteq> C_none" "cpcs m c \<noteq> C_jwait" "\<And>j. cpcs m c \<noteq> C_wait j"
    by (cases "cpcs m c"; force)+
  with consume_moves [OF q _ _ \<open>0 < n\<close>, of "mem m" c] show ?thesis using sound_consumer [OF s] by blast
next
  case (Supplier i)
  then have l: "s_lock i (spcs m i) = Some l" and q: "s_sound (spcs m i)" using h s by (auto simp: sound_def)
  then have "\<not> s_over (spcs m i)" "spcs m i \<noteq> S_none" "spcs m i \<noteq> S_jwait" "spcs m i \<noteq> S_wait"
    by (cases "spcs m i"; force)+
  with supply_moves [OF q _ _ assms(4), of i] show ?thesis using sound_supplier [OF s] by blast
qed

lemma live_moves:
  assumes r: "market_reach C n D u m" and s: "sound m" and n: "0 < n" and st: "\<And>j. stock (mem m) j + u \<le> INT_MAX"
    and live: "(cpcs m c \<noteq> C_none \<and> \<not> c_over (cpcs m c)) \<or> (spcs m i \<noteq> S_none \<and> \<not> s_over (spcs m i))"
  shows "\<exists>t. market_step C n u m t \<and> sound t"
proof (cases "\<exists>l. sem (mem m) l = 0")
  case True
  then obtain p l where "holds_lock m p l" using mk.taken_is_held [OF r] by blast
  then show ?thesis by (rule holder_moves [OF s _ n st])
next
  case False
  then have f: "0 < sem (mem m) l" for l by simp
  from live show ?thesis
  proof (elim disjE conjE)
    assume "cpcs m c \<noteq> C_none" "\<not> c_over (cpcs m c)"
    then show ?thesis
      using consume_moves [of "cpcs m c" n "mem m" c] sound_consumer [OF s] s n f by (auto simp: sound_def)
  next
    assume "spcs m i \<noteq> S_none" "\<not> s_over (spcs m i)"
    then show ?thesis
      using supply_moves [of "spcs m i" "mem m" i u] sound_supplier [OF s] s st f by (auto simp: sound_def)
  qed
qed

lemma parent_bound:
  assumes "market_reach C n D u m"
  shows "(\<forall>k. parent m = P_fork k \<longrightarrow> k \<le> C + n) \<and> (\<forall>k b. parent m = P_end k b \<longrightarrow> k \<le> C + n)"
  using assms
proof (induction rule: reach_invariant)
  case (start s)
  then show ?case by (simp add: start_market_def)
next
  case (step s t)
  from step.hyps(2) step.IH show ?case by (cases rule: market_step.cases) auto
qed

text \<open>
  C7: the market never deadlocks: in a state reached without a failed call, with every stock far
  enough from \<open>INT_MAX\<close> for one more delivery, either the parent has reported success or some
  process can go on without a failure.
\<close>

theorem market_progress:
  assumes r: "market_reach C n D u m" and s: "sound m" and n: "0 < n"
    and st: "\<forall>j. stock (mem m) j + u \<le> INT_MAX"
  shows "parent m = P_done False \<or> (\<exists>t. market_step C n u m t \<and> sound t)"
proof -
  note live = live_moves [OF r s n st [rule_format]]
  have sd: "sound (m\<lparr>parent := p\<rparr>)" if "\<And>k. p \<noteq> P_end k True" "p \<noteq> P_done True" for p
    using s that by (simp add: sound_def)
  show ?thesis
  proof (cases "parent m")
    case (P_fork k)
    then have "k \<le> C + n" using parent_bound [OF r] by blast
    then consider "k < C" | "C \<le> k" "k < C + n" | "k = C + n" by linarith
    then show ?thesis
    proof cases
      case 1
      have "sound (m\<lparr>cpcs := (cpcs m)(k := C_pick), parent := P_fork (k + 1)\<rparr>)" using s by (simp add: sound_def)
      then show ?thesis using market_step.fork_consumer [OF P_fork 1] by blast
    next
      case 2
      have "sound (m\<lparr>spcs := (spcs m)(k - C := S_wait), parent := P_fork (k + 1)\<rparr>)" using s by (simp add: sound_def)
      then show ?thesis using market_step.fork_supplier [OF P_fork 2] by blast
    next
      case 3
      then show ?thesis using market_step.forked [of m C n u] P_fork sd [of "P_end 0 False"] by auto
    qed
  next
    case (P_end k b)
    then have b: "b = False" and k: "k \<le> C + n" using s parent_bound [OF r] by (auto simp: sound_def)
    then consider "k < C" | "C \<le> k" "k < C + n" | "k = C + n" by linarith
    then show ?thesis
    proof cases
      case 1
      then show ?thesis
        using live [of k] market_step.reap_consumer [OF P_end 1, of n u] sd [of "P_end (k + 1) False"] b by blast
    next
      case 2
      then show ?thesis
        using live [of _ "k - C"] market_step.reap_supplier [OF P_end 2, of u] sd [of "P_end (k + 1) False"] b by blast
    next
      case 3
      then show ?thesis using market_step.all_reaped [of m C n b u] P_end sd [of "P_done False"] b by auto
    qed
  next
    case (P_done b)
    then show ?thesis using s by (cases b) (auto simp: sound_def)
  qed
qed

section \<open>A run to the end\<close>

definition forked_to :: "nat \<Rightarrow> int \<Rightarrow> int \<Rightarrow> nat \<Rightarrow> nat \<Rightarrow> ppc \<Rightarrow> market" where
  "forked_to C D u k l p = \<lparr>cpcs = (\<lambda>c. if c < k then C_pick else C_none), spcs = (\<lambda>i. if i < l then S_wait else S_none),
     parent = p, mem = start_shop C D u\<rparr>"

lemma fork_consumers: "k \<le> C \<Longrightarrow> market_reach C n D u (forked_to C D u k 0 (P_fork k))"
proof (induction k)
  case 0
  then show ?case by (intro reach_start) (simp add: start_market_def forked_to_def)
next
  case (Suc k)
  let ?m = "forked_to C D u k 0 (P_fork k)"
  have "market_step C n u ?m (?m\<lparr>cpcs := (cpcs ?m)(k := C_pick), parent := P_fork (k + 1)\<rparr>)"
    using Suc.prems by (intro market_step.fork_consumer) (simp_all add: forked_to_def)
  moreover have "?m\<lparr>cpcs := (cpcs ?m)(k := C_pick), parent := P_fork (k + 1)\<rparr> = forked_to C D u (Suc k) 0 (P_fork (Suc k))"
    by (simp add: forked_to_def fun_eq_iff less_Suc_eq)
  ultimately show ?case using Suc by (metis reach_step Suc_leD)
qed

lemma fork_suppliers: "k \<le> n \<Longrightarrow> market_reach C n D u (forked_to C D u C k (P_fork (C + k)))"
proof (induction k)
  case 0
  then show ?case using fork_consumers [of C C D u n] by simp
next
  case (Suc k)
  let ?m = "forked_to C D u C k (P_fork (C + k))"
  have "market_step C n u ?m (?m\<lparr>spcs := (spcs ?m)(C + k - C := S_wait), parent := P_fork (C + k + 1)\<rparr>)"
    using Suc.prems by (intro market_step.fork_supplier) (simp_all add: forked_to_def)
  moreover have "?m\<lparr>spcs := (spcs ?m)(C + k - C := S_wait), parent := P_fork (C + k + 1)\<rparr>
      = forked_to C D u C (Suc k) (P_fork (C + Suc k))"
    by (simp add: forked_to_def fun_eq_iff less_Suc_eq)
  ultimately show ?case using Suc by (metis reach_step Suc_leD)
qed

lemma fork_all: "market_reach C n D u (forked_to C D u C n (P_end 0 False))"
proof -
  let ?m = "forked_to C D u C n (P_fork (C + n))"
  have "market_step C n u ?m (?m\<lparr>parent := P_end 0 False\<rparr>)"
    by (intro market_step.forked) (simp add: forked_to_def)
  moreover have "?m\<lparr>parent := P_end 0 False\<rparr> = forked_to C D u C n (P_end 0 False)" by (simp add: forked_to_def)
  ultimately show ?thesis using fork_suppliers [of n n C D u] by (metis reach_step order_refl)
qed

definition calm :: "nat \<Rightarrow> nat \<Rightarrow> int \<Rightarrow> int \<Rightarrow> market \<Rightarrow> bool" where
  "calm C n D u m \<longleftrightarrow> market_reach C n D u m \<and> parent m = P_end 0 False \<and>
     (\<forall>c < C. cpcs m c = C_pick \<or> cpcs m c = C_exit) \<and> (\<forall>i < n. spcs m i = S_wait) \<and>
     (\<forall>l. sem (mem m) l = 1) \<and> (\<forall>j. stock (mem m) j \<le> u)"

lemma calm_restock:
  assumes "calm C n D u m" "0 < D" "0 < u" "2 * u \<le> INT_MAX" "0 < n" "c < C" "cpcs m c = C_pick"
  shows "\<exists>m'. calm C n D u m' \<and> cpcs m' = cpcs m \<and> dem (mem m') = dem (mem m) \<and> 0 < stock (mem m') 0"
proof (cases "0 < stock (mem m) 0")
  case True
  then show ?thesis using assms(1) by blast
next
  case False
  have r: "market_reach C n D u m" using assms(1) by (simp add: calm_def)
  note v = market_invD [OF market_inv_reach [OF r assms(2)]]
  have z: "stock (mem m) 0 = 0" using v(3) False assms(3,4) by (simp add: stocks_ok_def antisym not_less)
  have "c \<in> {c \<in> {..<C}. \<not> signed_off (cpcs m c)}" using assms(6,7) by simp
  moreover have "finite {c \<in> {..<C}. \<not> signed_off (cpcs m c)}" by (rule finite_subset [of _ "{..<C}"]) auto
  ultimately have "0 < card {c \<in> {..<C}. \<not> signed_off (cpcs m c)}" by (metis card_gt_0_iff empty_iff)
  then have j: "0 < jobs (mem m)" using v(4) assms(3,4) by simp
  let ?sh = "(mem m)\<lparr>stock := (stock (mem m))(0 := u), restocks := (restocks (mem m))(0 := restocks (mem m) 0 + 1)\<rparr>"
  have "(supply_step 0 u)\<^sup>*\<^sup>* (S_wait, mem m) (S_wait, ?sh)"
    using supply_alone [of "mem m" 0 u] assms z j by (simp add: calm_def)
  from supply_reach [OF r this] have "calm C n D u (m\<lparr>spcs := (spcs m)(0 := S_wait), mem := ?sh\<rparr>)"
    using assms(1,5) by (simp add: calm_def)
  then show ?thesis using assms(3) by fastforce
qed

lemma calm_serve:
  assumes "0 < D" "0 < u" "2 * u \<le> INT_MAX" "0 < n" "c < C"
  shows "calm C n D u m \<Longrightarrow> cpcs m c = C_pick \<Longrightarrow> \<exists>m'. calm C n D u m' \<and> cpcs m' = (cpcs m)(c := C_exit)"
proof (induction "nat (dem (mem m) c)" arbitrary: m rule: less_induct)
  case less
  obtain m1 where m1: "calm C n D u m1" "cpcs m1 = cpcs m" "dem (mem m1) = dem (mem m)" "0 < stock (mem m1) 0"
    using calm_restock [OF less.prems(1) assms less.prems(2)] by blast
  have r: "market_reach C n D u m1" and p: "cpcs m1 c = C_pick" and sm: "\<And>l. 0 < sem (mem m1) l"
    using m1(1,2) less.prems(2) by (auto simp: calm_def)
  have d: "0 < dem (mem m1) c" using market_invD(1) [OF market_inv_reach [OF r assms(1)], of c] p assms(2,3) by simp
  note st = m1(1) [unfolded calm_def]
  show ?case
  proof (cases "dem (mem m1) c \<le> stock (mem m1) 0")
    case True
    have "stock (mem m1) 0 \<le> u" using st by blast
    then have fewer: "stock (mem m1) 0 - dem (mem m1) c \<le> u" using d by linarith
    from consume_reach [OF r consume_alone [OF assms(4) sm sm d True] p]
    have "calm C n D u (m1\<lparr>cpcs := (cpcs m1)(c := C_exit), mem := (mem m1)\<lparr>dem := (dem (mem m1))(c := 0),
        stock := (stock (mem m1))(0 := stock (mem m1) 0 - dem (mem m1) c), jobs := jobs (mem m1) - 1\<rparr>\<rparr>)" (is "calm C n D u ?t")
      using st d fewer by (simp add: calm_def)
    moreover have "cpcs ?t = (cpcs m)(c := C_exit)" using m1(2) by simp
    ultimately show ?thesis by blast
  next
    case False
    let ?t = "m1\<lparr>cpcs := (cpcs m1)(c := C_pick), mem := (mem m1)\<lparr>dem := (dem (mem m1))(c := dem (mem m1) c - stock (mem m1) 0),
        stock := (stock (mem m1))(0 := 0)\<rparr>\<rparr>"
    from consume_reach [OF r consume_part [OF assms(4) sm m1(4)] p] False
    have "calm C n D u ?t" using st assms(2) by (simp add: calm_def)
    moreover have "nat (dem (mem ?t) c) < nat (dem (mem m) c)" using d m1(3,4) False by simp
    moreover have "cpcs ?t = cpcs m" using m1(2) p by auto
    ultimately show ?thesis using less.hyps [of ?t] less.prems(2) by metis
  qed
qed

text \<open>All consumers one after the other, then the suppliers, then the parent.\<close>

lemma serve_all:
  assumes "0 < D" "0 < u" "2 * u \<le> INT_MAX" "0 < n" "k \<le> C"
  shows "\<exists>m. calm C n D u m \<and> (\<forall>c < k. cpcs m c = C_exit)"
  using assms(5)
proof (induction k)
  case 0
  have "calm C n D u (forked_to C D u C n (P_end 0 False))"
    using fork_all by (simp add: calm_def forked_to_def start_shop_def)
  then show ?case by blast
next
  case (Suc k)
  then obtain m where m: "calm C n D u m" "\<forall>c < k. cpcs m c = C_exit" by auto
  show ?case
  proof (cases "cpcs m k = C_exit")
    case True
    then show ?thesis using m by (auto simp: less_Suc_eq)
  next
    case False
    then have "cpcs m k = C_pick" using m(1) Suc.prems by (metis calm_def Suc_le_lessD)
    then obtain m' where "calm C n D u m'" "cpcs m' = (cpcs m)(k := C_exit)"
      using calm_serve [OF assms(1-4) _ m(1), of k] Suc.prems by auto
    then show ?thesis using m(2) by (intro exI [of _ m']) (auto simp: less_Suc_eq)
  qed
qed

definition closing :: "nat \<Rightarrow> nat \<Rightarrow> int \<Rightarrow> int \<Rightarrow> nat \<Rightarrow> market \<Rightarrow> bool" where
  "closing C n D u k m \<longleftrightarrow> market_reach C n D u m \<and> parent m = P_end 0 False \<and>
     (\<forall>c < C. cpcs m c = C_exit) \<and> (\<forall>i < n. spcs m i = (if i < k then S_exit else S_wait)) \<and>
     (\<forall>l. sem (mem m) l = 1) \<and> (\<forall>j \<ge> k. stock (mem m) j \<le> u) \<and> jobs (mem m) \<le> 0"

lemma close_all:
  assumes "0 < D" "0 < u" "2 * u \<le> INT_MAX" "0 < n" "k \<le> n"
  shows "\<exists>m. closing C n D u k m"
  using assms(5)
proof (induction k)
  case 0
  obtain m where m: "calm C n D u m" "\<forall>c < C. cpcs m c = C_exit" using serve_all [OF assms(1-4), of C C] by auto
  have "jobs (mem m) = int (card {c \<in> {..<C}. \<not> signed_off (cpcs m c)})"
    using market_invD(4) [OF market_inv_reach [where m = m and n = n and C = C and D = D and u = u]] m(1) assms(1-3) by (auto simp: calm_def)
  moreover have "{c \<in> {..<C}. \<not> signed_off (cpcs m c)} = {}" using m(2) by auto
  ultimately show ?case using m by (intro exI [of _ m]) (simp add: calm_def closing_def)
next
  case (Suc k)
  then obtain m where m: "closing C n D u k m" by auto
  note d = m [unfolded closing_def]
  let ?sh = "(mem m)\<lparr>stock := (stock (mem m))(k := stock (mem m) k + u), restocks := (restocks (mem m))(k := restocks (mem m) k + 1)\<rparr>"
  have "stock (mem m) k \<le> u" using d by blast
  then have "stock (mem m) k + u \<le> INT_MAX" using assms(3) by linarith
  then have "(supply_step k u)\<^sup>*\<^sup>* (S_wait, mem m) (S_exit, ?sh)"
    using supply_alone [of "mem m" k u] d by simp
  moreover have "spcs m k = S_wait" using d Suc.prems by simp
  ultimately have "market_reach C n D u (m\<lparr>spcs := (spcs m)(k := S_exit), mem := ?sh\<rparr>)"
    using supply_reach d by blast
  then have "closing C n D u (Suc k) (m\<lparr>spcs := (spcs m)(k := S_exit), mem := ?sh\<rparr>)"
    using d by (auto simp: closing_def less_Suc_eq)
  then show ?case by blast
qed

lemma reap_all:
  assumes "market_reach C n D u (m\<lparr>parent := P_end 0 b\<rparr>)"
    and "\<forall>c < C. c_over (cpcs m c)" "\<forall>i < n. s_over (spcs m i)"
  shows "market_reach C n D u (m\<lparr>parent := P_done b\<rparr>)"
proof -
  have e: "market_reach C n D u (m\<lparr>parent := P_end k b\<rparr>)" if "k \<le> C + n" for k
    using that
  proof (induction k)
    case (Suc k)
    let ?m = "m\<lparr>parent := P_end k b\<rparr>"
    have "market_step C n u ?m (?m\<lparr>parent := P_end (k + 1) b\<rparr>)"
    proof (cases "k < C")
      case True
      then show ?thesis using assms(2) by (intro market_step.reap_consumer) auto
    next
      case False
      then have "k - C < n" using Suc.prems by simp
      then show ?thesis using assms(3) False Suc.prems by (intro market_step.reap_supplier) auto
    qed
    then have "market_step C n u ?m (m\<lparr>parent := P_end (Suc k) b\<rparr>)" by simp
    then show ?case using Suc reach_step by (meson Suc_leD)
  qed (use assms(1) in simp)
  let ?m = "m\<lparr>parent := P_end (C + n) b\<rparr>"
  have "market_step C n u ?m (?m\<lparr>parent := P_done b\<rparr>)" by (intro market_step.all_reaped) simp
  then show ?thesis using reach_step [OF e [of "C + n"]] by simp
qed

text \<open>
  C8: the market can always be brought to its end: for every number of consumers, every demand and
  every unit of supply up to half of \<open>INT_MAX\<close>, some run ends with all demands met, all children
  gone and the parent's report of success.
\<close>

theorem market_can_finish:
  assumes "0 < D" "0 < u" "2 * u \<le> INT_MAX" "0 < n"
  shows "\<exists>m. market_reach C n D u m \<and> parent m = P_done False \<and>
    (\<forall>c < C. cpcs m c = C_exit \<and> dem (mem m) c = 0) \<and> (\<forall>i < n. spcs m i = S_exit)"
proof -
  obtain m where m: "closing C n D u n m" using close_all [OF assms order_refl] by blast
  note d = m [unfolded closing_def]
  have "dem (mem m) c = 0" if "c < C" for c
    using market_invD(1) [OF market_inv_reach [where m = m and n = n and C = C and D = D and u = u], of c] d that assms(1-3) by simp
  moreover have "market_reach C n D u (m\<lparr>parent := P_done False\<rparr>)"
  proof (rule reap_all)
    have "m\<lparr>parent := P_end 0 False\<rparr> = m" using d by (cases m) simp
    then show "market_reach C n D u (m\<lparr>parent := P_end 0 False\<rparr>)" using d by metis
  qed (use d in simp_all)
  ultimately show ?thesis using d by (intro exI [of _ "m\<lparr>parent := P_done False\<rparr>"]) simp
qed

lemma consumers_fail:
  assumes "0 < n"
  shows "k \<le> C \<Longrightarrow> market_reach C n D u ((forked_to C D u C n (P_end 0 False))\<lparr>cpcs :=
    (\<lambda>c. if c < k then C_fail None else if c < C then C_pick else C_none)\<rparr>)"
proof (induction k)
  case 0
  then show ?case using fork_all by (simp add: forked_to_def)
next
  case (Suc k)
  let ?m = "(forked_to C D u C n (P_end 0 False))\<lparr>cpcs := (\<lambda>c. if c < k then C_fail None else if c < C then C_pick else C_none)\<rparr>"
  have "(consume_step n k)\<^sup>*\<^sup>* (C_pick, mem ?m) (C_fail None, mem ?m)"
    using consume_step.pick [OF assms, of k "mem ?m"] consume_step.wait_fail [of n k 0 "mem ?m"]
    by (meson converse_rtranclp_into_rtranclp rtranclp.rtrancl_refl)
  moreover have "cpcs ?m k = C_pick" "market_reach C n D u ?m" using Suc by simp_all
  ultimately have "market_reach C n D u (?m\<lparr>cpcs := (cpcs ?m)(k := C_fail None), mem := mem ?m\<rparr>)"
    by (intro consume_reach)
  then show ?case
    by (rule back_subst [of "market_reach C n D u"]) (simp add: forked_to_def fun_eq_iff less_Suc_eq)
qed

lemma suppliers_fail:
  assumes "market_reach C n D u m"
  shows "k \<le> n \<Longrightarrow> \<forall>i < n. spcs m i = S_wait \<Longrightarrow>
    market_reach C n D u (m\<lparr>spcs := (\<lambda>i. if i < k then S_fail None else spcs m i)\<rparr>)"
proof (induction k)
  case 0
  then show ?case using assms by simp
next
  case (Suc k)
  define s where "s = m\<lparr>spcs := (\<lambda>i. if i < k then S_fail None else spcs m i)\<rparr>"
  have "market_reach C n D u s" using Suc by (simp add: s_def)
  moreover have "(supply_step k u)\<^sup>*\<^sup>* (S_wait, mem s) (S_fail None, mem s)"
    by (rule r_into_rtranclp [of "supply_step k u"]) (rule supply_step.wait_fail)
  moreover have "spcs s k = S_wait" using Suc.prems by (simp add: s_def)
  ultimately have "market_reach C n D u (s\<lparr>spcs := (spcs s)(k := S_fail None), mem := mem s\<rparr>)"
    by (rule supply_reach)
  then show ?case
    by (rule back_subst [of "market_reach C n D u"]) (simp add: s_def fun_eq_iff less_Suc_eq)
qed

text \<open>
  the parent's report proves nothing: it does not look at the exit statuses, so it prints
  "Every consumer has been satisfied" also when the calls of all children have failed and no
  consumer has received anything.
\<close>

theorem report_without_goods:
  assumes "0 < n"
  shows "\<exists>m. market_reach C n D u m \<and> parent m = P_done False \<and> (\<forall>c < C. dem (mem m) c = D)"
proof -
  let ?m = "(forked_to C D u C n (P_end 0 False))\<lparr>cpcs := (\<lambda>c. if c < C then C_fail None else if c < C then C_pick else C_none)\<rparr>"
  let ?t = "?m\<lparr>spcs := (\<lambda>i. if i < n then S_fail None else spcs ?m i)\<rparr>"
  have "market_reach C n D u ?t"
    by (rule suppliers_fail [OF consumers_fail [OF assms order_refl] order_refl]) (simp add: forked_to_def)
  moreover have "?t\<lparr>parent := P_end 0 False\<rparr> = ?t" by (simp add: forked_to_def)
  ultimately have "market_reach C n D u (?t\<lparr>parent := P_done False\<rparr>)"
    by (intro reap_all) simp_all
  then show ?thesis by (intro exI [of _ "?t\<lparr>parent := P_done False\<rparr>"]) (simp add: forked_to_def start_shop_def)
qed

section \<open>Witnesses\<close>

text \<open>One consumer, one supplier, one unit each: the consumer stands at the shelf, or everything is over.\<close>

definition at_shelf :: market where
  "at_shelf = (forked_to 1 1 1 1 1 (P_end 0 False))\<lparr>cpcs := (\<lambda>c. if c = 0 then C_look 0 else C_none),
     mem := (start_shop 1 1 1)\<lparr>sem := (\<lambda>l. 1)(Shelf 0 := 0)\<rparr>\<rparr>"

lemma at_shelf_reach: "market_reach 1 1 1 1 at_shelf"
proof -
  let ?m = "forked_to 1 1 1 1 1 (P_end 0 False)" and ?sh = "(start_shop 1 1 1)\<lparr>sem := (\<lambda>l. 1)(Shelf 0 := 0)\<rparr>"
  have "consume_step 1 0 (C_wait 0, start_shop 1 1 1) (C_look 0, ?sh)"
    by (rule consume_step.wait) (simp add: sem_wait_def start_shop_def)
  moreover have "consume_step 1 0 (C_pick, start_shop 1 1 1) (C_wait 0, start_shop 1 1 1)"
    by (rule consume_step.pick) simp
  ultimately have "(consume_step 1 0)\<^sup>*\<^sup>* (C_pick, mem ?m) (C_look 0, ?sh)"
    by (simp add: forked_to_def)
  from consume_reach [OF fork_all [of 1 1 1 1] this]
  have "market_reach 1 1 1 1 (?m\<lparr>cpcs := (cpcs ?m)(0 := C_look 0), mem := ?sh\<rparr>)" by (simp add: forked_to_def)
  moreover have "?m\<lparr>cpcs := (cpcs ?m)(0 := C_look 0), mem := ?sh\<rparr> = at_shelf"
    by (simp add: at_shelf_def forked_to_def fun_eq_iff)
  ultimately show ?thesis by simp
qed

theorem market_mutual_exclusion_witness:
  "\<not> holds_lock at_shelf (Supplier 0) (Shelf 0) \<and> sem (mem at_shelf) (Shelf 0) = 0"
  using market_mutual_exclusion [OF at_shelf_reach, of "Consumer 0" "Shelf 0" "Supplier 0"] by (simp add: at_shelf_def)


theorem market_bounds_witness:
  "0 \<le> dem (mem at_shelf) 0 \<and> 0 \<le> stock (mem at_shelf) 0 \<and> stock (mem at_shelf) 0 \<le> INT_MAX \<and>
    jobs (mem at_shelf) = int (card {c \<in> {..<1}. \<not> signed_off (cpcs at_shelf c)})"
  by (rule market_bounds [OF at_shelf_reach]) simp_all

theorem market_progress_witness:
  "parent at_shelf = P_done False \<or> (\<exists>t. market_step 1 1 1 at_shelf t \<and> sound t)"
  by (rule market_progress [OF at_shelf_reach]) (auto simp: sound_def at_shelf_def forked_to_def start_shop_def)

theorem market_can_finish_witness:
  "\<exists>m. market_reach 4 4 5000 500 m \<and> parent m = P_done False \<and>
    (\<forall>c < 4. cpcs m c = C_exit \<and> dem (mem m) c = 0) \<and> (\<forall>i < 4. spcs m i = S_exit)"
  by (rule market_can_finish) simp_all

lemma some_finished: "\<exists>m. closing 1 1 1 1 1 m"
  by (rule close_all) simp_all

theorem supplier_leaves_witness: "\<exists>m. market_reach 1 1 1 1 m \<and> spcs m 0 = S_exit \<and> dem (mem m) 0 = 0"
proof -
  obtain m where m: "market_reach 1 1 1 1 m" "spcs m 0 = S_exit" using some_finished by (auto simp: closing_def)
  show ?thesis using supplier_leaves_served [OF m(1) _ _ _ m(2), of 0] m by (intro exI [of _ m]) simp
qed

theorem report_without_goods_witness:
  "\<exists>m. market_reach 2 1 5000 500 m \<and> parent m = P_done False \<and> (\<forall>c < 2. dem (mem m) c = 5000)"
  by (rule report_without_goods) simp

theorem failed_consumer_witness:
  "spcs ((forked_to 1 1 1 1 1 (P_end 0 False))\<lparr>cpcs := (\<lambda>c. if c < 1 then C_fail None else if c < 1 then C_pick else C_none)\<rparr>) 0
     \<noteq> S_exit"
  by (rule failed_consumer_keeps_suppliers [OF consumers_fail [of 1 1 1 1 1], of 0 None]) simp_all

end
