(* ===== verification/Getopt.thy ===== *)
theory Getopt
  imports Lab_Prelude
begin

text \<open>
  The functions of the C library with which the programs read their command line:
  \<open>getopt\<close> for an option string that begins with a colon, and \<open>strtol\<close> in base 10.
\<close>

section \<open>getopt\<close>

text \<open>
  One successful call of \<open>getopt\<close>: an option with its argument, an option without one, the
  result \<open>':'\<close> for a missing argument, the result \<open>'?'\<close> for an unknown letter, each with the
  letter that is in \<open>optopt\<close>.
\<close>

datatype opt_call = Opt_arg char string | Opt_flag char | Opt_missing char | Opt_unknown char

text \<open>
  One word behind its dash: \<open>with_arg\<close> and \<open>flags\<close> are the letters of the option string. The
  argument of an option is the rest of the word, or else the next word, whatever it is.
\<close>

fun opt_word :: "string \<Rightarrow> string \<Rightarrow> string \<Rightarrow> string list \<Rightarrow> opt_call list \<times> string list" where
  "opt_word with_arg flags [] ws = ([], ws)"
| "opt_word with_arg flags (c # cs) ws =
     (if c \<in> set with_arg then
        (if cs \<noteq> [] then ([Opt_arg c cs], ws)
         else case ws of [] \<Rightarrow> ([Opt_missing c], []) | w # ws' \<Rightarrow> ([Opt_arg c w], ws'))
      else let (es, r) = opt_word with_arg flags cs ws in
        ((if c \<in> set flags then Opt_flag c else Opt_unknown c) # es, r))"

lemma opt_word_length: "length (snd (opt_word a f cs ws)) \<le> length ws"
  by (induction a f cs ws rule: opt_word.induct) (auto split: list.splits prod.splits)

text \<open>
  The calls up to the result \<open>-1\<close>: words that are no options are stepped over, \<open>--\<close> ends the
  options. The programs leave their loop at the first call they do not accept, so the calls
  behind it are not made.
\<close>

function getopt :: "string \<Rightarrow> string \<Rightarrow> string list \<Rightarrow> opt_call list" where
  "getopt with_arg flags [] = []"
| "getopt with_arg flags (w # ws) =
     (if w = ''--'' then []
      else if 1 < length w \<and> hd w = CHR ''-''
      then fst (opt_word with_arg flags (tl w) ws) @ getopt with_arg flags (snd (opt_word with_arg flags (tl w) ws))
      else getopt with_arg flags ws)"
  by pat_completeness auto
termination
  by (relation "measure (\<lambda>(a, f, ws). length ws)") (auto simp: opt_word_length less_Suc_eq_le)

declare getopt.simps [simp del]

lemma getopt_Nil [simp]: "getopt a f [] = []"
  by (simp add: getopt.simps)

lemma getopt_arg: "c \<in> set a \<Longrightarrow> c \<noteq> CHR ''-'' \<Longrightarrow> getopt a f ([CHR ''-'', c] # w # ws) = Opt_arg c w # getopt a f ws"
  by (subst getopt.simps) simp

section \<open>strtol\<close>

text \<open>
  \<open>strtol(s, NULL, 10)\<close> on a 64-bit \<open>long\<close>: the number and whether \<open>errno\<close> is set to
  \<open>ERANGE\<close>. Without a digit it is 0 and \<open>errno\<close> is left alone.
\<close>

definition strtol :: "string \<Rightarrow> int \<times> bool" where
  "strtol s =
     (case scan_num s of
        ScanNum neg n r \<Rightarrow> (strtol64 neg n, if neg then 2 ^ 63 < n else 2 ^ 63 \<le> n)
      | _ \<Rightarrow> (0, False))"

lemma strtol_range: "strtol s = (n, e) \<Longrightarrow> - (2 ^ 63) \<le> n \<and> n < 2 ^ 63"
  by (auto simp: strtol_def strtol64_def split: scan.splits)

text \<open>The conversion of a \<open>long\<close> to \<open>int\<close> keeps its low 32 bits.\<close>

definition int_of_long :: "int \<Rightarrow> int" where
  "int_of_long n = (n + 2 ^ 31) mod 2 ^ 32 - 2 ^ 31"

lemma int_of_long_id: "- (2 ^ 31) \<le> n \<Longrightarrow> n < 2 ^ 31 \<Longrightarrow> int_of_long n = n"
  by (simp add: int_of_long_def)

lemma int_of_long_range: "- (2 ^ 31) \<le> int_of_long n \<and> int_of_long n < 2 ^ 31"
  using pos_mod_bound [of "2 ^ 32" "n + 2 ^ 31"] pos_mod_sign [of "2 ^ 32" "n + 2 ^ 31"]
  by (simp add: int_of_long_def)

lemma int_of_long_signed: "int_of_long n = sint (word_of_int n :: 32 word)"
  by (simp add: int_of_long_def sint_sbintrunc' signed_take_bit_eq_take_bit_shift take_bit_eq_mod)

lemma int_of_long_high: "2 ^ 31 \<le> n \<Longrightarrow> n < 2 ^ 32 \<Longrightarrow> int_of_long n = n - 2 ^ 32"
proof -
  assume a: "2 ^ 31 \<le> n" "n < (2 ^ 32 :: int)"
  have "(n + 2 ^ 31) mod 2 ^ 32 = (n + 2 ^ 31 - 2 ^ 32) mod 2 ^ 32" by (rule minus_mod_self2 [symmetric])
  also have "\<dots> = n + 2 ^ 31 - 2 ^ 32" using a by (intro mod_pos_pos_trivial) simp_all
  finally show ?thesis by (simp add: int_of_long_def)
qed

section \<open>The number of an option\<close>

text \<open>
  The programs of LAB_16 read the number of an option in the same way: an argument that begins with
  a dash is taken for bundled options.
\<close>

definition options_bundled :: "char \<Rightarrow> string option \<Rightarrow> bool" where
  "options_bundled opt optarg =
     (case optarg of None \<Rightarrow> False | Some s \<Rightarrow> opt \<noteq> NUL \<and> s \<noteq> [] \<and> hd s = CHR ''-'')"

text \<open>
  The number of an option. \<open>Inl b\<close> is \<open>goto print\<close>, where \<open>b\<close> says that \<open>status\<close> is
  \<open>EXIT_FAILURE\<close>; the number itself is cut to an \<open>int\<close>.
\<close>

definition opt_number :: "char \<Rightarrow> string \<Rightarrow> bool + int" where
  "opt_number opt optarg =
     (if options_bundled opt (Some optarg) then Inl False
      else let (num, range) = strtol optarg in
        if range then Inl True
        else if num \<le> 0 then Inl False
        else Inr (int_of_long num))"

lemma opt_number_Inr:
  assumes "strtol a = (n, False)" "0 < n" "hd a \<noteq> CHR ''-''"
  shows "opt_number c a = Inr (int_of_long n)"
  using assms by (simp add: opt_number_def options_bundled_def)

end
