(* ===== verification/Market_Main.thy ===== *)
theory Market_Main
  imports Getopt Market
begin

text \<open>
  The parent of LAB_16/task_posix_semaphores_2 outside its loops of \<open>fork\<close> and \<open>waitpid\<close>: the
  command line, the creation of the shared memory object, of the semaphores and of the tables
  that name them, and the section at the label \<open>end\<close> that gives all of it back. The state is
  what the process holds, which objects exist under a name in the system, and the local
  variables the cleanup looks at.
\<close>

section \<open>The command line\<close>

record settings =
  cons_num :: int
  sup_num :: int
  demand_unit :: int
  supply_unit :: int

definition no_settings :: settings where
  "no_settings = \<lparr>cons_num = 0, sup_num = 0, demand_unit = 0, supply_unit = 0\<rparr>"

fun options :: "opt_call list \<Rightarrow> settings \<Rightarrow> bool + settings" where
  "options [] st = Inr st"
| "options (Opt_arg c optarg # es) st =
     (case opt_number c optarg of
        Inl b \<Rightarrow> Inl b
      | Inr n \<Rightarrow> options es
          (if c = CHR ''c'' then st\<lparr>cons_num := n\<rparr>
           else if c = CHR ''s'' then st\<lparr>sup_num := n\<rparr>
           else if c = CHR ''D'' then st\<lparr>demand_unit := n\<rparr>
           else st\<lparr>supply_unit := n\<rparr>))"
| "options (Opt_flag c # es) st = Inl False"
| "options (Opt_missing c # es) st = Inl False"
| "options (Opt_unknown c # es) st = Inl False"

definition defaults :: "settings \<Rightarrow> bool + settings" where
  "defaults st =
     (if cons_num st = 0 then Inl False
      else if sup_num st = 0 then Inl False
      else Inr (st\<lparr>demand_unit := (if demand_unit st = 0 then 5000 else demand_unit st),
                 supply_unit := (if supply_unit st = 0 then 500 else supply_unit st)\<rparr>))"

definition command_line :: "string list \<Rightarrow> bool + settings" where
  "command_line args =
     (case options (getopt ''scDS'' ''h'' args) no_settings of Inl b \<Rightarrow> Inl b | Inr st \<Rightarrow> defaults st)"

section \<open>What the process holds and what exists under a name\<close>

datatype ipc = Shm_obj | Sem_obj nat | Jobs_obj

datatype res = Pids | Shm_fd | Segment | Names | Name nat | Handles | Handle nat | Jobs_handle

datatype map_ptr = Null | Map_failed | Mapped

record owner =
  held :: "res set"
  objs :: "ipc set"
  pid_list :: bool
  shm_name :: bool
  shmfd :: bool
  memseg :: map_ptr
  sem_name :: "(nat \<Rightarrow> bool) option"
  smphr :: "(nat \<Rightarrow> bool) option"
  sem_jobs_name :: bool
  jobs_smphr :: bool

definition fresh_owner :: "ipc set \<Rightarrow> owner" where
  "fresh_owner os = \<lparr>held = {}, objs = os, pid_list = False, shm_name = False, shmfd = False,
     memseg = Null, sem_name = None, smphr = None, sem_jobs_name = False, jobs_smphr = False\<rparr>"

text \<open>
  The answers of the system: whether each call of \<open>calloc\<close>, \<open>shm_open\<close>, \<open>ftruncate\<close>, \<open>mmap\<close>,
  \<open>sem_open\<close> and \<open>munmap\<close> can succeed. A call with \<open>O_CREAT | O_EXCL\<close> fails in any case when
  the object exists.
\<close>

record sys =
  can_pids :: bool
  can_shm :: bool
  can_truncate :: bool
  can_map :: bool
  can_names :: bool
  can_name :: "nat \<Rightarrow> bool"
  can_handles :: bool
  can_sem :: "nat \<Rightarrow> bool"
  can_jobs :: bool
  can_unmap :: bool

text \<open>A part of the preparation returns the new state and whether to go on; else it is at \<open>end\<close>.\<close>

definition and_then :: "(owner \<times> bool) run \<Rightarrow> (owner \<Rightarrow> (owner \<times> bool) run) \<Rightarrow> (owner \<times> bool) run" where
  "and_then m k = bind_run m (\<lambda>(s, ok). if ok then k s else Done (s, False))"

definition acquire :: "bool \<Rightarrow> res \<Rightarrow> (owner \<Rightarrow> owner) \<Rightarrow> owner \<Rightarrow> (owner \<times> bool) run" where
  "acquire can r f s = Done (if can then (f (s\<lparr>held := insert r (held s)\<rparr>), True) else (s, False))"

section \<open>The shared memory segment\<close>

text \<open>
  The segment as \<open>int\<close> cells: \<open>memseg_size\<close> is computed in \<open>size_t\<close>; the consumers come first,
  then the suppliers, then the number of jobs. A store outside is a fault.
\<close>

definition memseg_size :: "settings \<Rightarrow> int" where
  "memseg_size st = (cons_num st * 4 + sup_num st * 4 + 4) mod 2 ^ 64"

definition store_cell :: "int \<Rightarrow> int \<Rightarrow> int list \<Rightarrow> int list run" where
  "store_cell k v seg = (if 0 \<le> k \<and> k < int (length seg) then Done (seg[nat k := v]) else Fault OutOfBounds)"

fun store_cells :: "int \<Rightarrow> int \<Rightarrow> nat list \<Rightarrow> int list \<Rightarrow> int list run" where
  "store_cells base v [] seg = Done seg"
| "store_cells base v (i # is) seg = bind_run (store_cell (base + int i) v seg) (store_cells base v is)"

definition init_segment :: "settings \<Rightarrow> int list run" where
  "init_segment st =
     bind_run (store_cells 0 (demand_unit st) [0..<nat (cons_num st)]
       (replicate (nat (memseg_size st div 4)) 0)) (\<lambda>seg.
     bind_run (store_cells (cons_num st) (supply_unit st) [0..<nat (sup_num st)] seg) (\<lambda>seg.
     store_cell (cons_num st + sup_num st) (cons_num st) seg))"

section \<open>The preparation\<close>

fun alloc_names :: "sys \<Rightarrow> nat list \<Rightarrow> owner \<Rightarrow> (owner \<times> bool) run" where
  "alloc_names sys [] s = Done (s, True)"
| "alloc_names sys (i # is) s =
     and_then (acquire (can_name sys i) (Name i) (\<lambda>s. s\<lparr>sem_name := map_option (\<lambda>f. f(i := True)) (sem_name s)\<rparr>) s)
       (alloc_names sys is)"

fun open_sems :: "sys \<Rightarrow> nat list \<Rightarrow> owner \<Rightarrow> (owner \<times> bool) run" where
  "open_sems sys [] s = Done (s, True)"
| "open_sems sys (i # is) s =
     and_then (acquire (can_sem sys i \<and> Sem_obj i \<notin> objs s) (Handle i)
         (\<lambda>s. s\<lparr>objs := insert (Sem_obj i) (objs s), smphr := map_option (\<lambda>f. f(i := True)) (smphr s)\<rparr>) s)
       (open_sems sys is)"

definition open_segment :: "sys \<Rightarrow> settings \<Rightarrow> owner \<Rightarrow> (owner \<times> bool) run" where
  "open_segment sys st s =
     and_then (acquire (can_shm sys \<and> Shm_obj \<notin> objs s) Shm_fd
         (\<lambda>s. s\<lparr>objs := insert Shm_obj (objs s), shmfd := True\<rparr>) s) (\<lambda>s.
     and_then (Done (s, can_truncate sys)) (\<lambda>s.
     if can_map sys
     then Done (s\<lparr>held := insert Segment (held s) - {Shm_fd}, memseg := Mapped, shmfd := False\<rparr>, True)
     else Done (s\<lparr>memseg := Map_failed\<rparr>, False)))"

definition set_up :: "sys \<Rightarrow> settings \<Rightarrow> owner \<Rightarrow> (owner \<times> bool) run" where
  "set_up sys st s =
     (let n = [0..<nat (sup_num st)] in
     if 2 ^ 31 \<le> cons_num st + sup_num st \<or> cons_num st + sup_num st < - (2 ^ 31) then Fault IntOverflow
     else
     and_then (acquire (can_pids sys) Pids (\<lambda>s. s\<lparr>pid_list := True\<rparr>) s) (\<lambda>s.
     and_then (open_segment sys st (s\<lparr>shm_name := True\<rparr>)) (\<lambda>s.
     bind_run (init_segment st) (\<lambda>seg.
     and_then (acquire (can_names sys) Names (\<lambda>s. s\<lparr>sem_name := Some (\<lambda>i. False)\<rparr>) s) (\<lambda>s.
     and_then (alloc_names sys n s) (\<lambda>s.
     and_then (acquire (can_handles sys) Handles (\<lambda>s. s\<lparr>smphr := Some (\<lambda>i. False)\<rparr>) s) (\<lambda>s.
     and_then (open_sems sys n s) (\<lambda>s.
     acquire (can_jobs sys \<and> Jobs_obj \<notin> objs s) Jobs_handle
       (\<lambda>s. s\<lparr>objs := insert Jobs_obj (objs s), jobs_smphr := True\<rparr>)
       (s\<lparr>sem_jobs_name := True\<rparr>)))))))))"

section \<open>The section at end\<close>

text \<open>Giving back what is not held is a double free.\<close>

definition release :: "res \<Rightarrow> owner \<Rightarrow> owner run" where
  "release r s = (if r \<in> held s then Done (s\<lparr>held := held s - {r}\<rparr>) else Fault UseAfterFree)"

definition unlink_obj :: "ipc \<Rightarrow> owner \<Rightarrow> owner" where
  "unlink_obj ob s = s\<lparr>objs := objs s - {ob}\<rparr>"

definition release_if :: "bool \<Rightarrow> res \<Rightarrow> owner \<Rightarrow> owner run" where
  "release_if b r s = (if b then release r s else Done s)"

fun unlink_names :: "(nat \<Rightarrow> bool) \<Rightarrow> nat list \<Rightarrow> owner \<Rightarrow> owner run" where
  "unlink_names f [] s = Done s"
| "unlink_names f (i # is) s =
     bind_run (if f i then release (Name i) (unlink_obj (Sem_obj i) s) else Done s) (unlink_names f is)"

fun close_sems :: "(nat \<Rightarrow> bool) \<Rightarrow> nat list \<Rightarrow> owner \<Rightarrow> owner run" where
  "close_sems f [] s = Done s"
| "close_sems f (i # is) s = bind_run (release_if (f i) (Handle i) s) (close_sems f is)"

text \<open>\<open>munmap\<close> refuses the pointer of a failed \<open>mmap\<close>; the result says that it has failed.\<close>

definition unmap :: "sys \<Rightarrow> owner \<Rightarrow> (owner \<times> bool) run" where
  "unmap sys s =
     (case memseg s of
        Null \<Rightarrow> Done (s, False)
      | Map_failed \<Rightarrow> Done (s, True)
      | Mapped \<Rightarrow> if can_unmap sys then bind_run (release Segment s) (\<lambda>s. Done (s, False)) else Done (s, True))"

definition clean_up :: "sys \<Rightarrow> settings \<Rightarrow> bool \<Rightarrow> owner \<Rightarrow> (owner \<times> bool) run" where
  "clean_up sys st failed s =
     (let n = [0..<nat (sup_num st)] in
     bind_run (release_if (pid_list s) Pids s) (\<lambda>s.
     bind_run (unmap sys s) (\<lambda>(s, bad).
     bind_run (release_if (shmfd s) Shm_fd s) (\<lambda>s.
     let s = (if shm_name s then unlink_obj Shm_obj s else s) in
     bind_run (case sem_name s of None \<Rightarrow> Done s
               | Some f \<Rightarrow> bind_run (unlink_names f n s) (release Names)) (\<lambda>s.
     bind_run (case smphr s of None \<Rightarrow> Done s
               | Some f \<Rightarrow> bind_run (close_sems f n s) (release Handles)) (\<lambda>s.
     bind_run (release_if (jobs_smphr s) Jobs_handle s) (\<lambda>s.
     Done (if sem_jobs_name s then unlink_obj Jobs_obj s else s, failed \<or> bad))))))))"

section \<open>The program\<close>

text \<open>
  \<open>market sys args os b\<close>: \<open>b\<close> says whether the loops of \<open>fork\<close> and \<open>waitpid\<close>, entered when
  everything is set up, leave \<open>status\<close> at \<open>EXIT_FAILURE\<close>. \<open>Usage\<close> and \<open>Ended\<close> carry whether the
  exit status is a failure.
\<close>

datatype ending = Usage bool | Ended owner bool

definition market_main :: "sys \<Rightarrow> string list \<Rightarrow> ipc set \<Rightarrow> bool \<Rightarrow> ending run" where
  "market_main sys args os b =
     (case command_line args of
        Inl failed \<Rightarrow> Done (Usage failed)
      | Inr st \<Rightarrow>
          bind_run (set_up sys st (fresh_owner os)) (\<lambda>(s, ok).
          bind_run (clean_up sys st (\<not> ok \<or> b) s) (\<lambda>(s, failed). Done (Ended s failed))))"

end
