(* ===== verification/Market_Owner.thy ===== *)
theory Market_Owner
  imports Market_Main
begin

text \<open>
  The parent of the market gives back what it takes, on every path; what it does to the objects of
  another instance; and what happens to numbers that are no \<open>int\<close>.
\<close>

section \<open>What is held is what the variables say\<close>

fun has :: "nat \<Rightarrow> owner \<Rightarrow> res \<Rightarrow> bool" where
  "has n s Pids = pid_list s"
| "has n s Shm_fd = shmfd s"
| "has n s Segment = (memseg s = Mapped)"
| "has n s Names = (sem_name s \<noteq> None)"
| "has n s (Name i) = (i < n \<and> (\<exists>f. sem_name s = Some f \<and> f i))"
| "has n s Handles = (smphr s \<noteq> None)"
| "has n s (Handle i) = (i < n \<and> (\<exists>f. smphr s = Some f \<and> f i))"
| "has n s Jobs_handle = jobs_smphr s"

fun has_name :: "nat \<Rightarrow> owner \<Rightarrow> ipc \<Rightarrow> bool" where
  "has_name n s Shm_obj = shm_name s"
| "has_name n s (Sem_obj i) = has n s (Name i)"
| "has_name n s Jobs_obj = sem_jobs_name s"

definition owned :: "nat \<Rightarrow> ipc set \<Rightarrow> owner \<Rightarrow> bool" where
  "owned n os s \<longleftrightarrow> held s = {r. has n s r} \<and> (\<forall>ob \<in> objs s. ob \<in> os \<or> has_name n s ob)"

lemma all_res: "(\<forall>r. P r) \<longleftrightarrow> P Pids \<and> P Shm_fd \<and> P Segment \<and> P Names \<and> (\<forall>i. P (Name i)) \<and>
  P Handles \<and> (\<forall>i. P (Handle i)) \<and> P Jobs_handle"
  by (metis res.exhaust)

lemma all_ipc: "(\<forall>ob. P ob) \<longleftrightarrow> P Shm_obj \<and> (\<forall>i. P (Sem_obj i)) \<and> P Jobs_obj"
  by (metis ipc.exhaust)

lemma owned_iff: "owned n os s \<longleftrightarrow>
  (\<forall>r. r \<in> held s \<longleftrightarrow> has n s r) \<and> (\<forall>ob. ob \<in> objs s \<longrightarrow> ob \<in> os \<or> has_name n s ob)"
  by (auto simp: owned_def)

lemmas owned_each = owned_iff all_res all_ipc

section \<open>The preparation keeps it\<close>

text \<open>
  \<open>prepares m E Q\<close>: the part \<open>m\<close> has no undefined behaviour, establishes \<open>E\<close>, and \<open>Q\<close> as well
  when it goes on.
\<close>

definition prepares :: "(owner \<times> bool) run \<Rightarrow> (owner \<Rightarrow> bool) \<Rightarrow> (owner \<Rightarrow> bool) \<Rightarrow> bool" where
  "prepares m E Q = (case m of Done (s, ok) \<Rightarrow> E s \<and> (ok \<longrightarrow> Q s) | _ \<Rightarrow> False)"

lemma prepares_Done: "E s \<Longrightarrow> (ok \<Longrightarrow> Q s) \<Longrightarrow> prepares (Done (s, ok)) E Q"
  by (simp add: prepares_def)

lemma prepares_and_then:
  assumes "prepares m E P" "\<And>s. E s \<Longrightarrow> P s \<Longrightarrow> prepares (k s) E Q"
  shows "prepares (and_then m k) E Q"
proof -
  obtain s ok where m: "m = Done (s, ok)" "E s" "ok \<longrightarrow> P s"
    using assms(1) by (auto simp: prepares_def split: run.splits)
  then show ?thesis using assms(2) [of s] by (cases ok) (simp_all add: and_then_def prepares_def)
qed

lemma prepares_acquire:
  assumes "E s" "can \<Longrightarrow> E (f (s\<lparr>held := insert r (held s)\<rparr>)) \<and> Q (f (s\<lparr>held := insert r (held s)\<rparr>))"
  shows "prepares (acquire can r f s) E Q"
  using assms by (cases can) (simp_all add: acquire_def prepares_def)

lemma owned_name:
  assumes "owned n os s" "i < n" "sem_name s = Some f"
  shows "owned n os (s\<lparr>held := insert (Name i) (held s), sem_name := Some (f(i := True))\<rparr>)"
  using assms by (auto simp: owned_each)

lemma owned_sem:
  assumes "owned n os s" "i < n" "smphr s = Some f" "sem_name s = Some g" "g i"
  shows "owned n os (s\<lparr>held := insert (Handle i) (held s), objs := insert (Sem_obj i) (objs s), smphr := Some (f(i := True))\<rparr>)"
  using assms by (auto simp: owned_each)

definition names_to :: "nat set \<Rightarrow> owner \<Rightarrow> bool" where
  "names_to A s \<longleftrightarrow> (\<exists>f. sem_name s = Some f \<and> (\<forall>i \<in> A. f i))"

lemma alloc_names_prepares:
  "owned n os s \<Longrightarrow> set is \<subseteq> {..<n} \<Longrightarrow> names_to A s \<Longrightarrow> smphr s = None \<Longrightarrow>
   prepares (alloc_names sys is s) (owned n os) (\<lambda>t. names_to (A \<union> set is) t \<and> smphr t = None)"
proof (induction "is" arbitrary: s A)
  case Nil
  then show ?case by (simp add: prepares_def)
next
  case (Cons i "is")
  obtain f where f: "sem_name s = Some f" "\<forall>i \<in> A. f i" using Cons.prems(3) by (auto simp: names_to_def)
  show ?case unfolding alloc_names.simps
  proof (rule prepares_and_then)
    show "prepares (acquire (can_name sys i) (Name i) (\<lambda>s. s\<lparr>sem_name := map_option (\<lambda>f. f(i := True)) (sem_name s)\<rparr>) s)
      (owned n os) (\<lambda>t. names_to (insert i A) t \<and> smphr t = None)"
      using Cons.prems f owned_name [of n os s i f]
      by (intro prepares_acquire) (auto simp: names_to_def)
    fix t
    assume "owned n os t" "names_to (insert i A) t \<and> smphr t = None"
    then show "prepares (alloc_names sys is t) (owned n os) (\<lambda>t. names_to (A \<union> set (i # is)) t \<and> smphr t = None)"
      using Cons.IH [of t "insert i A"] Cons.prems by simp
  qed
qed

lemma open_sems_prepares:
  "owned n os s \<Longrightarrow> set is \<subseteq> {..<n} \<Longrightarrow> names_to {..<n} s \<Longrightarrow> smphr s \<noteq> None \<Longrightarrow>
   prepares (open_sems sys is s) (owned n os) (\<lambda>t. True)"
proof (induction "is" arbitrary: s)
  case Nil
  then show ?case by (simp add: prepares_def)
next
  case (Cons i "is")
  obtain f where f: "sem_name s = Some f" "\<forall>i < n. f i" using Cons.prems(3) by (auto simp: names_to_def)
  obtain g where g: "smphr s = Some g" using Cons.prems(4) by blast
  show ?case unfolding open_sems.simps
  proof (rule prepares_and_then)
    show "prepares (acquire (can_sem sys i \<and> Sem_obj i \<notin> objs s) (Handle i)
         (\<lambda>s. s\<lparr>objs := insert (Sem_obj i) (objs s), smphr := map_option (\<lambda>f. f(i := True)) (smphr s)\<rparr>) s)
      (owned n os) (\<lambda>t. names_to {..<n} t \<and> smphr t \<noteq> None)"
      using Cons.prems f g owned_sem [of n os s i g f]
      by (intro prepares_acquire) (auto simp: names_to_def)
    fix t
    assume "owned n os t" "names_to {..<n} t \<and> smphr t \<noteq> None"
    then show "prepares (open_sems sys is t) (owned n os) (\<lambda>t. True)"
      using Cons.IH [of t] Cons.prems by simp
  qed
qed

section \<open>The shared memory segment\<close>

lemma store_cells_append:
  "store_cells b v (is @ js) seg = bind_run (store_cells b v is seg) (store_cells b v js)"
  by (induction "is" arbitrary: seg) (simp_all add: bind_run_assoc cong: bind_run_cong)

lemma store_cells_fill:
  "k \<le> length ys \<Longrightarrow>
   store_cells (int (length xs)) v [0..<k] (xs @ ys) = Done (xs @ replicate k v @ drop k ys)"
proof (induction k)
  case 0
  then show ?case by simp
next
  case (Suc k)
  then obtain y zs where d: "drop k ys = y # zs" by (metis Suc_le_eq drop_eq_Nil linorder_not_less list.exhaust)
  then have "drop (Suc k) ys = zs" by (metis drop_Suc list.sel(3) tl_drop)
  then show ?case using Suc d
    by (simp add: store_cells_append store_cell_def nat_add_distrib list_update_append replicate_append_same)
qed

text \<open>
  For positive numbers of consumers and suppliers whose sum is an \<open>int\<close>, the loops that fill
  the shared memory write every cell of the segment once and nothing outside it: all demands,
  then all stocks, then the number of jobs.
\<close>

lemma init_segment_fills:
  assumes "0 < cons_num st" "0 < sup_num st" "cons_num st + sup_num st < 2 ^ 31"
  shows "init_segment st = Done (replicate (nat (cons_num st)) (demand_unit st) @
    replicate (nat (sup_num st)) (supply_unit st) @ [cons_num st])"
proof -
  define c where "c = nat (cons_num st)"
  define n where "n = nat (sup_num st)"
  have e: "cons_num st = int c" "sup_num st = int n" using assms by (simp_all add: c_def n_def)
  have "memseg_size st = (int c + int n + 1) * 4"
    using assms(3) by (simp add: memseg_size_def e)
  then have k: "nat (memseg_size st div 4) = Suc (c + n)" by simp
  have 1: "store_cells 0 d [0..<c] (replicate (Suc (c + n)) 0) = Done (replicate c d @ replicate (Suc n) 0)" for d
    using store_cells_fill [of c "replicate (Suc (c + n)) 0" "[]" d] by (simp add: Suc_diff_le del: replicate_Suc)
  have 2: "store_cells (int c) u [0..<n] (replicate c d @ replicate (Suc n) 0) = Done (replicate c d @ replicate n u @ [0])" for d u
    using store_cells_fill [of n "replicate (Suc n) 0" "replicate c d" u]
    by (simp add: Suc_diff_le del: replicate_Suc) simp
  have 3: "store_cell (int c + int n) (int c) (replicate c d @ replicate n u @ [0]) = Done (replicate c d @ replicate n u @ [int c])" for d u
    by (simp add: store_cell_def list_update_append flip: of_nat_add)
  show ?thesis unfolding init_segment_def k e nat_int 1 bind_run.simps 2 3 by simp
qed

section \<open>The whole preparation\<close>

lemma owned_fresh: "owned n os (fresh_owner os)"
  by (simp add: owned_each fresh_owner_def)

definition bare :: "owner \<Rightarrow> bool" where
  "bare s \<longleftrightarrow> sem_name s = None \<and> smphr s = None"

lemma open_segment_prepares:
  assumes "owned n os s" "bare s" "shm_name s" "\<not> shmfd s" "memseg s = Null"
  shows "prepares (open_segment sys st s) (owned n os) bare"
  unfolding open_segment_def
proof (rule prepares_and_then)
  show "prepares (acquire (can_shm sys \<and> Shm_obj \<notin> objs s) Shm_fd
    (\<lambda>s. s\<lparr>objs := insert Shm_obj (objs s), shmfd := True\<rparr>) s) (owned n os) (\<lambda>t. bare t \<and> memseg t = Null)"
    using assms by (intro prepares_acquire) (auto simp: owned_each bare_def)
  fix t
  assume "owned n os t" "bare t \<and> memseg t = Null"
  then show "prepares (and_then (Done (t, can_truncate sys)) (\<lambda>s.
     if can_map sys
     then Done (s\<lparr>held := insert Segment (held s) - {Shm_fd}, memseg := Mapped, shmfd := False\<rparr>, True)
     else Done (s\<lparr>memseg := Map_failed\<rparr>, False))) (owned n os) bare"
    by (auto simp: and_then_def prepares_def owned_each bare_def)
qed

lemma prepares_name_jobs:
  "owned n os s \<Longrightarrow> prepares (acquire can Jobs_handle
     (\<lambda>s. s\<lparr>objs := insert Jobs_obj (objs s), jobs_smphr := True\<rparr>) (s\<lparr>sem_jobs_name := True\<rparr>))
     (owned n os) (\<lambda>t. True)"
  by (intro prepares_acquire) (auto simp: owned_each)

lemma set_up_prepares:
  assumes "0 < cons_num st" "0 < sup_num st" "cons_num st + sup_num st < 2 ^ 31"
  shows "prepares (set_up sys st (fresh_owner os)) (owned (nat (sup_num st)) os) (\<lambda>t. True)"
proof -
  define n where "n = nat (sup_num st)"
  obtain seg where seg: "init_segment st = Done seg" using init_segment_fills [OF assms] by blast
  have fits: "\<not> (2 ^ 31 \<le> cons_num st + sup_num st \<or> cons_num st + sup_num st < - (2 ^ 31))"
    using assms by simp
  have 1: "prepares (acquire (can_pids sys) Pids (\<lambda>s. s\<lparr>pid_list := True\<rparr>) (fresh_owner os)) (owned n os)
      (\<lambda>s. bare s \<and> \<not> shmfd s \<and> memseg s = Null)"
    by (intro prepares_acquire owned_fresh) (simp add: owned_each fresh_owner_def bare_def)
  have 2: "prepares (open_segment sys st (s\<lparr>shm_name := True\<rparr>)) (owned n os) bare"
    if "owned n os s" "bare s \<and> \<not> shmfd s \<and> memseg s = Null" for s
    using that by (intro open_segment_prepares) (auto simp: owned_each bare_def)
  have 3: "prepares (acquire (can_names sys) Names (\<lambda>s. s\<lparr>sem_name := Some (\<lambda>i. False)\<rparr>) s) (owned n os)
      (\<lambda>t. names_to {} t \<and> smphr t = None)" if "owned n os s" "bare s" for s
    using that by (intro prepares_acquire) (auto simp: owned_each bare_def names_to_def)
  have 4: "prepares (alloc_names sys [0..<n] s) (owned n os) (\<lambda>t. names_to {..<n} t \<and> smphr t = None)"
    if "owned n os s" "names_to {} s \<and> smphr s = None" for s
    using alloc_names_prepares [of n os s "[0..<n]" "{}" sys] that by (auto simp: lessThan_atLeast0)
  have 5: "prepares (acquire (can_handles sys) Handles (\<lambda>s. s\<lparr>smphr := Some (\<lambda>i. False)\<rparr>) s) (owned n os)
      (\<lambda>t. names_to {..<n} t \<and> smphr t \<noteq> None)" if "owned n os s" "names_to {..<n} s \<and> smphr s = None" for s
    using that by (intro prepares_acquire) (auto simp: owned_each names_to_def)
  have 6: "prepares (open_sems sys [0..<n] s) (owned n os) (\<lambda>t. True)"
    if "owned n os s" "names_to {..<n} s \<and> smphr s \<noteq> None" for s
    using that by (intro open_sems_prepares) auto
  show ?thesis
    unfolding set_up_def Let_def seg bind_run.simps if_not_P [OF fits] n_def [symmetric]
    by (rule prepares_and_then [OF 1], erule (1) prepares_and_then [OF 2], erule (1) prepares_and_then [OF 3],
      erule (1) prepares_and_then [OF 4], erule (1) prepares_and_then [OF 5], erule (1) prepares_and_then [OF 6],
      erule prepares_name_jobs)
qed

section \<open>The section at end gives everything back\<close>

lemma release_if_Done: "(b \<Longrightarrow> r \<in> held s) \<Longrightarrow> release_if b r s = Done (if b then s\<lparr>held := held s - {r}\<rparr> else s)"
  by (simp add: release_if_def release_def)

lemma unlink_names_Done:
  "distinct is \<Longrightarrow> (\<And>i. i \<in> set is \<Longrightarrow> f i \<Longrightarrow> Name i \<in> held s) \<Longrightarrow>
   unlink_names f is s = Done (s\<lparr>held := held s - {Name i |i. i \<in> set is \<and> f i},
     objs := objs s - {Sem_obj i |i. i \<in> set is \<and> f i}\<rparr>)"
proof (induction "is" arbitrary: s)
  case Nil
  then show ?case by simp
next
  case (Cons i "is")
  have e: "{Name j |j. j \<in> set (i # is) \<and> f j} = {Name j |j. j \<in> set is \<and> f j} \<union> (if f i then {Name i} else {})"
    "{Sem_obj j |j. j \<in> set (i # is) \<and> f j} = {Sem_obj j |j. j \<in> set is \<and> f j} \<union> (if f i then {Sem_obj i} else {})"
    by auto
  let ?s = "if f i then (unlink_obj (Sem_obj i) s)\<lparr>held := held s - {Name i}\<rparr> else s"
  have "unlink_names f is ?s = Done (?s\<lparr>held := held ?s - {Name i |i. i \<in> set is \<and> f i},
     objs := objs ?s - {Sem_obj i |i. i \<in> set is \<and> f i}\<rparr>)"
    using Cons.prems by (intro Cons.IH) auto
  moreover have "f i \<Longrightarrow> Name i \<in> held s" using Cons.prems by simp
  ultimately show ?case unfolding e
    by (cases "f i") (simp_all add: release_def unlink_obj_def Diff_insert2 [symmetric])
qed

lemma close_sems_Done:
  "distinct is \<Longrightarrow> (\<And>i. i \<in> set is \<Longrightarrow> f i \<Longrightarrow> Handle i \<in> held s) \<Longrightarrow>
   close_sems f is s = Done (s\<lparr>held := held s - {Handle i |i. i \<in> set is \<and> f i}\<rparr>)"
proof (induction "is" arbitrary: s)
  case Nil
  then show ?case by simp
next
  case (Cons i "is")
  have e: "{Handle j |j. j \<in> set (i # is) \<and> f j} = {Handle j |j. j \<in> set is \<and> f j} \<union> (if f i then {Handle i} else {})"
    by auto
  let ?s = "if f i then s\<lparr>held := held s - {Handle i}\<rparr> else s"
  have "close_sems f is ?s = Done (?s\<lparr>held := held ?s - {Handle i |i. i \<in> set is \<and> f i}\<rparr>)"
    using Cons.prems by (intro Cons.IH) auto
  moreover have "f i \<Longrightarrow> Handle i \<in> held s" using Cons.prems by simp
  ultimately show ?case unfolding e
    by (cases "f i") (simp_all add: release_if_def release_def Diff_insert2 [symmetric])
qed

lemma release_has: "(b \<longleftrightarrow> r \<in> held s) \<Longrightarrow> release_if b r s = Done (s\<lparr>held := held s - {r}\<rparr>)"
  by (simp add: release_if_Done)

lemma names_released:
  assumes "\<And>i. Name i \<in> held s \<longleftrightarrow> has n s (Name i)" "Names \<in> held s \<longleftrightarrow> has n s Names"
  shows "(case sem_name s of None \<Rightarrow> Done s | Some f \<Rightarrow> bind_run (unlink_names f [0..<n] s) (release Names)) =
    Done (s\<lparr>held := held s - insert Names (range Name), objs := objs s - Sem_obj ` {i. has n s (Name i)}\<rparr>)"
proof (cases "sem_name s")
  case None
  then have "held s - insert Names (range Name) = held s" using assms by auto
  then show ?thesis using None by simp
next
  case (Some f)
  have e: "{Sem_obj i |i. i \<in> set [0..<n] \<and> f i} = Sem_obj ` {i. has n s (Name i)}" using Some by auto
  have h: "held s - {Name i |i. i \<in> set [0..<n] \<and> f i} = held s - range Name" using assms Some by auto
  have u: "unlink_names f [0..<n] s = Done (s\<lparr>held := held s - range Name, objs := objs s - Sem_obj ` {i. has n s (Name i)}\<rparr>)"
    unfolding e [symmetric] h [symmetric] using assms Some by (intro unlink_names_Done) auto
  have "Names \<in> held s - range Name" using assms Some by auto
  then show ?thesis using Some by (simp add: u release_def Diff_insert [symmetric])
qed

lemma handles_released:
  assumes "\<And>i. Handle i \<in> held s \<longleftrightarrow> has n s (Handle i)" "Handles \<in> held s \<longleftrightarrow> has n s Handles"
  shows "(case smphr s of None \<Rightarrow> Done s | Some f \<Rightarrow> bind_run (close_sems f [0..<n] s) (release Handles)) =
    Done (s\<lparr>held := held s - insert Handles (range Handle)\<rparr>)"
proof (cases "smphr s")
  case None
  then have "held s - insert Handles (range Handle) = held s" using assms by auto
  then show ?thesis using None by simp
next
  case (Some f)
  have h: "held s - {Handle i |i. i \<in> set [0..<n] \<and> f i} = held s - range Handle" using assms Some by auto
  have u: "close_sems f [0..<n] s = Done (s\<lparr>held := held s - range Handle\<rparr>)"
    unfolding h [symmetric] using assms Some by (intro close_sems_Done) auto
  have "Handles \<in> held s - range Handle" using assms Some by auto
  then show ?thesis using Some by (simp add: u release_def Diff_insert [symmetric])
qed

lemma unmap_has:
  assumes "Segment \<in> held s \<longleftrightarrow> memseg s = Mapped"
  shows "unmap sys s = Done (s\<lparr>held := held s - (if can_unmap sys then {Segment} else {})\<rparr>,
    memseg s = Map_failed \<or> memseg s = Mapped \<and> \<not> can_unmap sys)"
  using assms by (cases "memseg s") (auto simp: unmap_def release_def)

lemma clean_up_releases:
  assumes "owned n os s" "n = nat (sup_num st)"
  obtains t where
    "clean_up sys st failed s = Done (t, failed \<or> memseg s = Map_failed \<or> memseg s = Mapped \<and> \<not> can_unmap sys)"
    "held t \<subseteq> (if can_unmap sys then {} else {Segment})" "objs t = objs s - {ob. has_name n s ob}"
proof -
  have h: "r \<in> held s \<longleftrightarrow> has n s r" for r using assms by (simp add: owned_iff)
  define s1 where "s1 = s\<lparr>held := held s - {Pids}\<rparr>"
  define s2 where "s2 = s1\<lparr>held := held s1 - (if can_unmap sys then {Segment} else {})\<rparr>"
  define s3 where "s3 = s2\<lparr>held := held s2 - {Shm_fd}\<rparr>"
  define s4 where "s4 = (if shm_name s3 then unlink_obj Shm_obj s3 else s3)"
  define s5 where "s5 = s4\<lparr>held := held s4 - insert Names (range Name), objs := objs s4 - Sem_obj ` {i. has n s4 (Name i)}\<rparr>"
  define s6 where "s6 = s5\<lparr>held := held s5 - insert Handles (range Handle)\<rparr>"
  define s7 where "s7 = s6\<lparr>held := held s6 - {Jobs_handle}\<rparr>"
  define s8 where "s8 = (if sem_jobs_name s7 then unlink_obj Jobs_obj s7 else s7)"
  note d = s1_def s2_def s3_def s4_def s5_def s6_def s7_def s8_def unlink_obj_def
  have 1: "release_if (pid_list s) Pids s = Done s1" unfolding s1_def by (rule release_has) (simp add: h)
  have 2: "unmap sys s1 = Done (s2, memseg s = Map_failed \<or> memseg s = Mapped \<and> \<not> can_unmap sys)"
    unfolding s2_def by (subst unmap_has) (simp_all add: s1_def h)
  have 3: "release_if (shmfd s2) Shm_fd s2 = Done s3" unfolding s3_def by (rule release_has) (simp add: d h)
  have 5: "(case sem_name s4 of None \<Rightarrow> Done s4 | Some f \<Rightarrow> bind_run (unlink_names f [0..<n] s4) (release Names)) = Done s5"
    unfolding s5_def by (rule names_released) (auto simp: d h)
  have 6: "(case smphr s5 of None \<Rightarrow> Done s5 | Some f \<Rightarrow> bind_run (close_sems f [0..<n] s5) (release Handles)) = Done s6"
    unfolding s6_def by (rule handles_released) (auto simp: d h)
  have 7: "release_if (jobs_smphr s6) Jobs_handle s6 = Done s7" unfolding s7_def by (rule release_has) (auto simp: d h)
  have "clean_up sys st failed s = Done (s8, failed \<or> memseg s = Map_failed \<or> memseg s = Mapped \<and> \<not> can_unmap sys)"
    unfolding clean_up_def Let_def assms(2) [symmetric]
    by (simp only: 1 2 3 s4_def [symmetric] 5 6 7 s8_def [symmetric] bind_run.simps prod.case)
  moreover have "held s8 \<subseteq> (if can_unmap sys then {} else {Segment})"
  proof
    fix r
    assume "r \<in> held s8"
    then show "r \<in> (if can_unmap sys then {} else {Segment})" by (cases r) (auto simp: d split: if_splits)
  qed
  moreover have "objs s8 = objs s - {ob. has_name n s ob}"
  proof (rule set_eqI)
    fix ob
    show "ob \<in> objs s8 \<longleftrightarrow> ob \<in> objs s - {ob. has_name n s ob}" by (cases ob) (auto simp: d)
  qed
  ultimately show thesis by (rule that)
qed

section \<open>Properties\<close>

text \<open>
  C9: with numbers of consumers and suppliers whose sum is an \<open>int\<close>, and whatever calls fail, the
  parent reaches its end, frees nothing twice and gives back all it holds (the segment stays only
  when \<open>munmap\<close> fails), and of the named objects that it has created none is left behind.
\<close>

theorem market_main_releases:
  assumes "command_line args = Inr st" "0 < cons_num st" "0 < sup_num st" "cons_num st + sup_num st < 2 ^ 31"
  shows "\<exists>s failed. market_main sys args os b = Done (Ended s failed) \<and>
    held s \<subseteq> (if can_unmap sys then {} else {Segment}) \<and> objs s \<subseteq> os"
proof -
  obtain s ok where s: "set_up sys st (fresh_owner os) = Done (s, ok)" "owned (nat (sup_num st)) os s"
    using set_up_prepares [OF assms(2-4), of sys os] by (auto simp: prepares_def split: run.splits)
  obtain t bad where "clean_up sys st (\<not> ok \<or> b) s = Done (t, bad)"
    "held t \<subseteq> (if can_unmap sys then {} else {Segment})" "objs t = objs s - {ob. has_name (nat (sup_num st)) s ob}"
    by (rule clean_up_releases [OF s(2) refl, of sys "\<not> ok \<or> b"])
  moreover have "objs s - {ob. has_name (nat (sup_num st)) s ob} \<subseteq> os" using s(2) by (auto simp: owned_def)
  ultimately show ?thesis using assms(1) s(1) by (auto simp: market_main_def)
qed

lemma command_line_two:
  assumes "opt_number CHR ''c'' a = Inr c" "opt_number CHR ''s'' t = Inr n"
  shows "options (getopt ''scDS'' ''h'' [''-c'', a, ''-s'', t]) no_settings =
    Inr (no_settings\<lparr>cons_num := c, sup_num := n\<rparr>)"
  using assms by (simp add: getopt_arg)

text \<open>
  a second instance that starts while the first one runs fails at \<open>shm_open\<close>, and its cleanup
  removes the name of the shared memory object of the first one all the same.
\<close>

theorem second_instance_unlinks:
  assumes "command_line args = Inr st" "0 < cons_num st" "0 < sup_num st" "cons_num st + sup_num st < 2 ^ 31"
    and "can_pids sys" "Shm_obj \<in> os"
  shows "\<exists>s. market_main sys args os b = Done (Ended s True) \<and> objs s = os - {Shm_obj}"
proof -
  let ?s = "(fresh_owner os)\<lparr>held := {Pids}, pid_list := True, shm_name := True\<rparr>"
  have "set_up sys st (fresh_owner os) = Done (?s, False)"
    using assms by (simp add: set_up_def acquire_def and_then_def open_segment_def fresh_owner_def)
  moreover have "owned (nat (sup_num st)) os ?s" by (simp add: owned_each fresh_owner_def)
  then obtain t where "clean_up sys st True ?s =
      Done (t, True \<or> memseg ?s = Map_failed \<or> memseg ?s = Mapped \<and> \<not> can_unmap sys)"
    "held t \<subseteq> (if can_unmap sys then {} else {Segment})"
    "objs t = objs ?s - {ob. has_name (nat (sup_num st)) ?s ob}"
    by (rule clean_up_releases [OF _ refl, of _ _ _ sys True])
  moreover have "{ob. has_name (nat (sup_num st)) ?s ob} = {Shm_obj}"
  proof (rule set_eqI)
    fix ob
    show "ob \<in> {ob. has_name (nat (sup_num st)) ?s ob} \<longleftrightarrow> ob \<in> {Shm_obj}" by (cases ob) (simp_all add: fresh_owner_def)
  qed
  ultimately show ?thesis using assms(1) by (simp add: market_main_def fresh_owner_def)
qed

text \<open>
  a number of consumers between \<open>2 ^ 31\<close> and \<open>2 ^ 32\<close> passes the test for being positive and
  becomes negative as an \<open>int\<close>; the suppliers then lie before the segment, and setting their
  stock writes outside it.
\<close>

theorem large_count_writes_outside:
  assumes "strtol a = (n, False)" "2 ^ 31 \<le> n" "n < 2 ^ 32" "hd a \<noteq> CHR ''-''"
    and "strtol t = (m, False)" "0 < m" "m < 2 ^ 31" "hd t \<noteq> CHR ''-''"
    and "can_pids sys" "can_shm sys" "can_truncate sys" "can_map sys" "Shm_obj \<notin> os"
  shows "market_main sys [''-c'', a, ''-s'', t] os b = Fault OutOfBounds"
proof -
  let ?st = "\<lparr>cons_num = n - 2 ^ 32, sup_num = m, demand_unit = 5000, supply_unit = 500\<rparr>"
  have "opt_number CHR ''c'' a = Inr (n - 2 ^ 32)" "opt_number CHR ''s'' t = Inr m"
    using opt_number_Inr [OF assms(1) _ assms(4)] opt_number_Inr [OF assms(5) assms(6) assms(8)]
      int_of_long_high [OF assms(2,3)] int_of_long_id [of m] assms(2,6,7) by simp_all
  then have cl: "command_line [''-c'', a, ''-s'', t] = Inr ?st"
    using command_line_two assms(3,6) by (simp add: command_line_def defaults_def no_settings_def)
  have "[0..<nat m] = 0 # [1..<nat m]" using assms(6) by (simp add: upt_rec)
  moreover have "[0..<nat (n - 2 ^ 32)] = []" using assms(3) by simp
  ultimately have "init_segment ?st = Fault OutOfBounds"
    using assms(3) by (simp add: init_segment_def store_cell_def)
  then have "set_up sys ?st (fresh_owner os) = Fault OutOfBounds"
    using assms by (simp add: set_up_def acquire_def and_then_def open_segment_def fresh_owner_def)
  then show ?thesis by (simp add: market_main_def cl)
qed

section \<open>Instances\<close>

definition willing :: sys where
  "willing = \<lparr>can_pids = True, can_shm = True, can_truncate = True, can_map = True, can_names = True,
     can_name = (\<lambda>i. True), can_handles = True, can_sem = (\<lambda>i. True), can_jobs = False, can_unmap = True\<rparr>"

lemma digits [simp]: "isdigit CHR ''0''" "isdigit CHR ''1''" "isdigit CHR ''2''" "isdigit CHR ''4''"
  "isdigit CHR ''5''" "isdigit CHR ''6''" "isdigit CHR ''7''" "isdigit CHR ''9''"
  by (simp_all add: isdigit_def)

lemma strtol_examples: "strtol ''2'' = (2, False)" "strtol ''1'' = (1, False)" "strtol ''4294967295'' = (4294967295, False)"
  by (simp_all add: strtol_def scan_num_def isspace_def strtol64_def dec_val_def digit_val_def Let_def)

lemma command_line_example: "command_line [''-c'', ''2'', ''-s'', ''1''] =
    Inr \<lparr>cons_num = 2, sup_num = 1, demand_unit = 5000, supply_unit = 500\<rparr>"
  using command_line_two [OF opt_number_Inr [OF strtol_examples(1)] opt_number_Inr [OF strtol_examples(2)]]
  by (simp add: command_line_def defaults_def no_settings_def int_of_long_id)

lemma init_segment_example:
  "init_segment \<lparr>cons_num = 2, sup_num = 1, demand_unit = 5000, supply_unit = 500\<rparr> = Done [5000, 5000, 500, 2]"
  by (subst init_segment_fills) (simp_all add: eval_nat_numeral)

theorem market_main_witness:
  "\<exists>s failed. market_main willing [''-c'', ''2'', ''-s'', ''1''] {} False = Done (Ended s failed) \<and> held s \<subseteq> {} \<and> objs s \<subseteq> {}"
  using market_main_releases [OF command_line_example, of willing "{}" False] by (simp add: willing_def)

theorem second_instance_witness:
  "\<exists>s. market_main willing [''-c'', ''2'', ''-s'', ''1''] {Shm_obj} False = Done (Ended s True) \<and> objs s = {Shm_obj} - {Shm_obj}"
  by (rule second_instance_unlinks [OF command_line_example]) (simp_all add: willing_def)

theorem large_count_witness:
  "market_main willing [''-c'', ''4294967295'', ''-s'', ''2''] {} False = Fault OutOfBounds"
  by (rule large_count_writes_outside [OF strtol_examples(3) _ _ _ strtol_examples(1)]) (simp_all add: willing_def)

end
