(* ===== verification/Gas_Station.thy ===== *)
theory Gas_Station
  imports Step_System
begin

text \<open>
  LAB_13/task_cond_wait: one thread refills a gas station, the others fuel their cars, with a mutex
  and condition variables. \<open>G1\<close> to \<open>G5\<close> are cond_wait_signal_1.c to cond_wait_signal_5.c. The first
  three have one car; in \<open>G1\<close> all wait on one condition variable, in the others the refiller and
  the cars have one each; \<open>G5\<close> wakes all waiting cars, the others one. A step is one access to the
  shared variables or one call of the thread library, a wait on a condition variable is two: it
  gives the mutex back and blocks, and, once woken, takes the mutex again. \<open>sp\<close> allows waits that
  wake up by themselves, \<open>er\<close> allows calls that return an error.
\<close>

section \<open>The threads\<close>

datatype gas_ed = G1 | G2 | G3 | G4 | G5

text \<open>The programs with one car.\<close>

fun pair :: "gas_ed \<Rightarrow> bool" where
  "pair G1 = True" | "pair G2 = True" | "pair G3 = True" | "pair ed = False"

definition cars_ok :: "gas_ed \<Rightarrow> nat \<Rightarrow> bool" where
  "cars_ok ed n \<longleftrightarrow> (pair ed \<longrightarrow> n = 1)"

text \<open>
  \<open>refill\<close>: \<open>R_early\<close> and \<open>R_late\<close> test whether the car of \<open>G1\<close> to \<open>G3\<close> is full, before and behind
  the inner loop, \<open>R_check\<close> asks for all cars. \<open>R_while d\<close> is the head of the inner loop with the
  local \<open>do_refill\<close> of \<open>G4\<close> and \<open>G5\<close>. \<open>R_bye\<close> is the signal before it leaves. \<open>R_bare\<close> is behind a
  failed wait: the inner loop is left, but the mutex has already been given back, and at
  \<open>R_undefined\<close> it is given back once more.
\<close>

datatype refill_pc =
    R_lock | R_early | R_check | R_while bool | R_wait | R_blocked | R_wake | R_late | R_fill | R_cast
  | R_unlock | R_bye | R_leave | R_exit | R_bare | R_bare_cast | R_undefined

text \<open>\<open>purchase\<close>: \<open>P_signal b\<close> and \<open>P_unlock b\<close> know whether the tank is full.\<close>

datatype car_pc =
    P_lock | P_while | P_wait | P_blocked | P_wake | P_add | P_zero | P_test | P_signal bool
  | P_unlock bool | P_exit

text \<open>\<open>mtx\<close> is 1 while the mutex is free and 0 while it is taken.\<close>

record gas =
  rp :: refill_pc
  pp :: "nat \<Rightarrow> car_pc"
  mtx :: nat
  fuel :: int
  tank :: "nat \<Rightarrow> int"

definition is_refill_needed :: "nat \<Rightarrow> (nat \<Rightarrow> int) \<Rightarrow> bool" where
  "is_refill_needed n cars = list_ex (\<lambda>i. cars i < 75) [0..<n]"

definition broadcast_empty :: "nat \<Rightarrow> (nat \<Rightarrow> car_pc) \<Rightarrow> (nat \<Rightarrow> car_pc)" where
  "broadcast_empty n p = (\<lambda>i. if i < n \<and> p i = P_blocked then P_wake else p i)"

definition signal_full :: "refill_pc \<Rightarrow> refill_pc" where
  "signal_full r = (if r = R_blocked then R_wake else r)"

text \<open>
  \<open>pthread_cond_signal\<close> wakes one thread that waits on the condition variable: on the one of the cars,
  or on the one on which all wait.
\<close>

definition signal_empty :: "nat \<Rightarrow> (nat \<Rightarrow> car_pc) \<Rightarrow> (nat \<Rightarrow> car_pc) \<Rightarrow> bool" where
  "signal_empty n p q \<longleftrightarrow> (\<exists>i < n. p i = P_blocked \<and> q = p(i := P_wake)) \<or>
     (\<forall>i < n. p i \<noteq> P_blocked) \<and> q = p"

definition signal_any :: "nat \<Rightarrow> refill_pc \<times> (nat \<Rightarrow> car_pc) \<Rightarrow> refill_pc \<times> (nat \<Rightarrow> car_pc) \<Rightarrow> bool" where
  "signal_any n x y \<longleftrightarrow>
     fst x = R_blocked \<and> y = (R_wake, snd x) \<or>
     (\<exists>i < n. snd x i = P_blocked \<and> y = (fst x, (snd x)(i := P_wake))) \<or>
     fst x \<noteq> R_blocked \<and> (\<forall>i < n. snd x i \<noteq> P_blocked) \<and> y = x"

definition to_cars :: "gas_ed \<Rightarrow> nat \<Rightarrow> refill_pc \<times> (nat \<Rightarrow> car_pc) \<Rightarrow> refill_pc \<times> (nat \<Rightarrow> car_pc) \<Rightarrow> bool" where
  "to_cars ed n x y = (case ed of
     G1 \<Rightarrow> signal_any n x y
   | G5 \<Rightarrow> y = (fst x, broadcast_empty n (snd x))
   | _ \<Rightarrow> fst y = fst x \<and> signal_empty n (snd x) (snd y))"

definition to_refiller :: "gas_ed \<Rightarrow> nat \<Rightarrow> refill_pc \<times> (nat \<Rightarrow> car_pc) \<Rightarrow> refill_pc \<times> (nat \<Rightarrow> car_pc) \<Rightarrow> bool" where
  "to_refiller ed n x y = (case ed of
     G1 \<Rightarrow> signal_any n x y
   | _ \<Rightarrow> y = (signal_full (fst x), snd x))"

text \<open>Where the refiller goes behind the lock, the condition of the inner loop, and where it goes then.\<close>

definition behind_lock :: "gas_ed \<Rightarrow> refill_pc" where
  "behind_lock ed = (case ed of G1 \<Rightarrow> R_early | G2 \<Rightarrow> R_early | G3 \<Rightarrow> R_while True | _ \<Rightarrow> R_check)"

definition stays :: "gas_ed \<Rightarrow> bool \<Rightarrow> gas \<Rightarrow> bool" where
  "stays ed d g = (35 \<le> fuel g \<and>
     (case ed of G1 \<Rightarrow> True | G2 \<Rightarrow> True | G3 \<Rightarrow> tank g 0 < 75 | _ \<Rightarrow> d))"

definition behind_loop :: "gas_ed \<Rightarrow> bool \<Rightarrow> refill_pc" where
  "behind_loop ed d = (case ed of
     G4 \<Rightarrow> if d then R_fill else R_bye
   | G5 \<Rightarrow> if d then R_fill else R_leave
   | _ \<Rightarrow> R_late)"

inductive refill_step :: "gas_ed \<Rightarrow> bool \<Rightarrow> bool \<Rightarrow> nat \<Rightarrow> gas \<Rightarrow> gas \<Rightarrow> bool" for ed sp er n where
  lock: "rp g = R_lock \<Longrightarrow> 0 < mtx g \<Longrightarrow>
    refill_step ed sp er n g (g\<lparr>rp := behind_lock ed, mtx := mtx g - 1\<rparr>)"
| lock_fail: "er \<Longrightarrow> rp g = R_lock \<Longrightarrow> refill_step ed sp er n g (g\<lparr>rp := R_exit\<rparr>)"
| early: "rp g = R_early \<Longrightarrow>
    refill_step ed sp er n g (g\<lparr>rp := (if 75 \<le> tank g 0 then R_bye else R_while True)\<rparr>)"
| check: "rp g = R_check \<Longrightarrow> refill_step ed sp er n g (g\<lparr>rp := R_while (is_refill_needed n (tank g))\<rparr>)"
| enough: "rp g = R_while d \<Longrightarrow> stays ed d g \<Longrightarrow> refill_step ed sp er n g (g\<lparr>rp := R_wait\<rparr>)"
| go_on: "rp g = R_while d \<Longrightarrow> \<not> stays ed d g \<Longrightarrow> refill_step ed sp er n g (g\<lparr>rp := behind_loop ed d\<rparr>)"
| wait: "rp g = R_wait \<Longrightarrow> refill_step ed sp er n g (g\<lparr>rp := R_blocked, mtx := mtx g + 1\<rparr>)"
| wait_fail: "er \<Longrightarrow> rp g = R_wait \<Longrightarrow> refill_step ed sp er n g (g\<lparr>rp := R_bare, mtx := mtx g + 1\<rparr>)"
| spurious: "sp \<Longrightarrow> rp g = R_blocked \<Longrightarrow> refill_step ed sp er n g (g\<lparr>rp := R_wake\<rparr>)"
| wake: "rp g = R_wake \<Longrightarrow> 0 < mtx g \<Longrightarrow>
    refill_step ed sp er n g (g\<lparr>rp := R_while True, mtx := mtx g - 1\<rparr>)"
| late: "rp g = R_late \<Longrightarrow>
    refill_step ed sp er n g (g\<lparr>rp := (if 75 \<le> tank g 0 then R_bye else R_fill)\<rparr>)"
| fill: "rp g = R_fill \<Longrightarrow> refill_step ed sp er n g (g\<lparr>rp := R_cast, fuel := 35\<rparr>)"
| cast: "rp g = R_cast \<Longrightarrow> to_cars ed n (R_unlock, pp g) (r, p) \<Longrightarrow>
    refill_step ed sp er n g (g\<lparr>rp := r, pp := p\<rparr>)"
| unlock: "rp g = R_unlock \<Longrightarrow> refill_step ed sp er n g (g\<lparr>rp := R_lock, mtx := mtx g + 1\<rparr>)"
| unlock_fail: "er \<Longrightarrow> rp g = R_unlock \<Longrightarrow> refill_step ed sp er n g (g\<lparr>rp := R_exit\<rparr>)"
| bye: "rp g = R_bye \<Longrightarrow> to_cars ed n (R_leave, pp g) (r, p) \<Longrightarrow>
    refill_step ed sp er n g (g\<lparr>rp := r, pp := p\<rparr>)"
| leave: "rp g = R_leave \<Longrightarrow> refill_step ed sp er n g (g\<lparr>rp := R_exit, mtx := mtx g + 1\<rparr>)"
| bare: "rp g = R_bare \<Longrightarrow>
    refill_step ed sp er n g (g\<lparr>rp := R_bare_cast, fuel := (if pair ed \<and> 75 \<le> tank g 0 then fuel g else 35)\<rparr>)"
| bare_cast: "rp g = R_bare_cast \<Longrightarrow> to_cars ed n (R_undefined, pp g) (r, p) \<Longrightarrow>
    refill_step ed sp er n g (g\<lparr>rp := r, pp := p\<rparr>)"

inductive purchase_step :: "gas_ed \<Rightarrow> bool \<Rightarrow> bool \<Rightarrow> nat \<Rightarrow> nat \<Rightarrow> gas \<Rightarrow> gas \<Rightarrow> bool" for ed sp er n i where
  lock: "pp g i = P_lock \<Longrightarrow> 0 < mtx g \<Longrightarrow>
    purchase_step ed sp er n i g (g\<lparr>pp := (pp g)(i := P_while), mtx := mtx g - 1\<rparr>)"
| lock_fail: "er \<Longrightarrow> pp g i = P_lock \<Longrightarrow> purchase_step ed sp er n i g (g\<lparr>pp := (pp g)(i := P_exit)\<rparr>)"
| while: "pp g i = P_while \<Longrightarrow>
    purchase_step ed sp er n i g (g\<lparr>pp := (pp g)(i := if fuel g = 0 then P_wait else P_add)\<rparr>)"
| wait: "pp g i = P_wait \<Longrightarrow>
    purchase_step ed sp er n i g (g\<lparr>pp := (pp g)(i := P_blocked), mtx := mtx g + 1\<rparr>)"
| wait_fail: "er \<Longrightarrow> pp g i = P_wait \<Longrightarrow>
    purchase_step ed sp er n i g (g\<lparr>pp := (pp g)(i := P_exit), mtx := mtx g + 1\<rparr>)"
| spurious: "sp \<Longrightarrow> pp g i = P_blocked \<Longrightarrow> purchase_step ed sp er n i g (g\<lparr>pp := (pp g)(i := P_wake)\<rparr>)"
| wake: "pp g i = P_wake \<Longrightarrow> 0 < mtx g \<Longrightarrow>
    purchase_step ed sp er n i g (g\<lparr>pp := (pp g)(i := P_while), mtx := mtx g - 1\<rparr>)"
| add: "pp g i = P_add \<Longrightarrow>
    purchase_step ed sp er n i g (g\<lparr>pp := (pp g)(i := P_zero), tank := (tank g)(i := tank g i + fuel g)\<rparr>)"
| zero: "pp g i = P_zero \<Longrightarrow> purchase_step ed sp er n i g (g\<lparr>pp := (pp g)(i := P_test), fuel := 0\<rparr>)"
| test: "pp g i = P_test \<Longrightarrow>
    purchase_step ed sp er n i g (g\<lparr>pp := (pp g)(i := P_signal (tank g i \<ge> 75))\<rparr>)"
| signal: "pp g i = P_signal b \<Longrightarrow> to_refiller ed n (rp g, (pp g)(i := P_unlock b)) (r, p) \<Longrightarrow>
    purchase_step ed sp er n i g (g\<lparr>rp := r, pp := p\<rparr>)"
| unlock: "pp g i = P_unlock b \<Longrightarrow>
    purchase_step ed sp er n i g (g\<lparr>pp := (pp g)(i := if b then P_exit else P_lock), mtx := mtx g + 1\<rparr>)"
| unlock_fail: "er \<Longrightarrow> pp g i = P_unlock False \<Longrightarrow>
    purchase_step ed sp er n i g (g\<lparr>pp := (pp g)(i := P_lock)\<rparr>)"

inductive gas_step :: "gas_ed \<Rightarrow> bool \<Rightarrow> bool \<Rightarrow> nat \<Rightarrow> gas \<Rightarrow> gas \<Rightarrow> bool" for ed sp er n where
  refiller: "refill_step ed sp er n g h \<Longrightarrow> gas_step ed sp er n g h"
| customer: "i < n \<Longrightarrow> purchase_step ed sp er n i g h \<Longrightarrow> gas_step ed sp er n g h"

text \<open>The programs of the five files.\<close>

definition refill_1 :: "bool \<Rightarrow> bool \<Rightarrow> gas \<Rightarrow> gas \<Rightarrow> bool" where
  "refill_1 sp er = refill_step G1 sp er 1"
definition purchase_1 :: "bool \<Rightarrow> bool \<Rightarrow> gas \<Rightarrow> gas \<Rightarrow> bool" where
  "purchase_1 sp er = purchase_step G1 sp er 1 0"
definition cond_wait_1 :: "bool \<Rightarrow> bool \<Rightarrow> gas \<Rightarrow> gas \<Rightarrow> bool" where
  "cond_wait_1 sp er = gas_step G1 sp er 1"
definition refill_2 :: "bool \<Rightarrow> bool \<Rightarrow> gas \<Rightarrow> gas \<Rightarrow> bool" where
  "refill_2 sp er = refill_step G2 sp er 1"
definition purchase_2 :: "bool \<Rightarrow> bool \<Rightarrow> gas \<Rightarrow> gas \<Rightarrow> bool" where
  "purchase_2 sp er = purchase_step G2 sp er 1 0"
definition cond_wait_2 :: "bool \<Rightarrow> bool \<Rightarrow> gas \<Rightarrow> gas \<Rightarrow> bool" where
  "cond_wait_2 sp er = gas_step G2 sp er 1"
definition refill_3 :: "bool \<Rightarrow> bool \<Rightarrow> gas \<Rightarrow> gas \<Rightarrow> bool" where
  "refill_3 sp er = refill_step G3 sp er 1"
definition purchase_3 :: "bool \<Rightarrow> bool \<Rightarrow> gas \<Rightarrow> gas \<Rightarrow> bool" where
  "purchase_3 sp er = purchase_step G3 sp er 1 0"
definition cond_wait_3 :: "bool \<Rightarrow> bool \<Rightarrow> gas \<Rightarrow> gas \<Rightarrow> bool" where
  "cond_wait_3 sp er = gas_step G3 sp er 1"
definition refill_4 :: "bool \<Rightarrow> bool \<Rightarrow> gas \<Rightarrow> gas \<Rightarrow> bool" where
  "refill_4 sp er = refill_step G4 sp er 2"
definition purchase_4 :: "bool \<Rightarrow> bool \<Rightarrow> nat \<Rightarrow> gas \<Rightarrow> gas \<Rightarrow> bool" where
  "purchase_4 sp er i = purchase_step G4 sp er 2 i"
definition cond_wait_4 :: "bool \<Rightarrow> bool \<Rightarrow> gas \<Rightarrow> gas \<Rightarrow> bool" where
  "cond_wait_4 sp er = gas_step G4 sp er 2"
definition refill_5 :: "bool \<Rightarrow> bool \<Rightarrow> gas \<Rightarrow> gas \<Rightarrow> bool" where
  "refill_5 sp er = refill_step G5 sp er 2"
definition purchase_5 :: "bool \<Rightarrow> bool \<Rightarrow> nat \<Rightarrow> gas \<Rightarrow> gas \<Rightarrow> bool" where
  "purchase_5 sp er i = purchase_step G5 sp er 2 i"
definition cond_wait_5 :: "bool \<Rightarrow> bool \<Rightarrow> gas \<Rightarrow> gas \<Rightarrow> bool" where
  "cond_wait_5 sp er = gas_step G5 sp er 2"

lemmas cond_wait_defs = refill_1_def purchase_1_def cond_wait_1_def refill_2_def purchase_2_def
  cond_wait_2_def refill_3_def purchase_3_def cond_wait_3_def refill_4_def purchase_4_def
  cond_wait_4_def refill_5_def purchase_5_def cond_wait_5_def

text \<open>
  \<open>main\<close> starts all threads; a thread that has not been created yet is one that has not taken its
  first step. It returns when all have ended.
\<close>

definition gas_start :: "gas_ed \<Rightarrow> gas" where
  "gas_start ed = \<lparr>rp = R_lock, pp = (\<lambda>i. P_lock), mtx = 1, fuel = (if pair ed then 35 else 0), tank = (\<lambda>i. 0)\<rparr>"

definition gas_over :: "nat \<Rightarrow> gas \<Rightarrow> bool" where
  "gas_over n g \<longleftrightarrow> rp g = R_exit \<and> list_all (\<lambda>i. pp g i = P_exit) [0..<n]"

abbreviation gas_reach :: "gas_ed \<Rightarrow> bool \<Rightarrow> bool \<Rightarrow> nat \<Rightarrow> gas \<Rightarrow> bool" where
  "gas_reach ed sp er n \<equiv> reach (\<lambda>g. g = gas_start ed) (gas_step ed sp er n)"

section \<open>Signals\<close>

text \<open>
  \<open>woken n p q\<close>: some cars have been woken, and at least one if there are any that wait.
\<close>

definition woken :: "nat \<Rightarrow> (nat \<Rightarrow> car_pc) \<Rightarrow> (nat \<Rightarrow> car_pc) \<Rightarrow> bool" where
  "woken n p q \<longleftrightarrow> (\<forall>i. q i = p i \<or> p i = P_blocked \<and> q i = P_wake) \<and> (\<forall>i \<ge> n. q i = p i) \<and>
     (\<forall>i < n. q i = P_blocked \<longrightarrow> (\<exists>k < n. q k = P_wake))"

lemma to_cars_woken:
  assumes "to_cars ed n (r, p) (r', q)" "r \<noteq> R_blocked"
  shows "r' = r \<and> woken n p q"
proof -
  have "woken n p (broadcast_empty n p)" by (auto simp: woken_def broadcast_empty_def)
  moreover have "woken n p (p(i := P_wake))" if "i < n" "p i = P_blocked" for i
    using that by (auto simp: woken_def)
  moreover have "woken n p p" if "\<forall>i < n. p i \<noteq> P_blocked" using that by (auto simp: woken_def)
  ultimately show ?thesis using assms
    by (cases ed) (auto simp: to_cars_def signal_any_def signal_empty_def)
qed

lemma to_cars_ex: "\<exists>r q. to_cars ed n (r0, p) (r, q)"
proof (cases "\<exists>i < n. p i = P_blocked")
  case True
  then obtain i where "i < n" "p i = P_blocked" by blast
  then have "to_cars ed n (r0, p) (r0, p(i := P_wake)) \<or> to_cars ed n (r0, p) (r0, broadcast_empty n p)"
    by (cases ed) (auto simp: to_cars_def signal_any_def signal_empty_def)
  then show ?thesis by blast
next
  case False
  then have "to_cars ed n (r0, p) (r0, p) \<or> to_cars ed n (r0, p) (R_wake, p) \<or>
      to_cars ed n (r0, p) (r0, broadcast_empty n p)"
    by (cases ed) (auto simp: to_cars_def signal_any_def signal_empty_def)
  then show ?thesis by blast
qed

text \<open>
  With one car, the condition variable on which all wait does what one for each side does: the
  thread that signals does not wait.
\<close>

lemma to_refiller_full:
  assumes "cars_ok ed n" "i < n" "p i \<noteq> P_blocked"
  shows "to_refiller ed n (r, p) y \<longleftrightarrow> y = (signal_full r, p)"
proof -
  have "i = 0 \<and> n = 1" if "ed = G1" using that assms by (simp add: cars_ok_def)
  then show ?thesis using assms
    by (cases ed) (auto simp: to_refiller_def signal_any_def signal_full_def)
qed

lemma one_condition:
  assumes "p 0 \<noteq> P_blocked"
  shows "to_refiller G1 1 (r, p) y = to_refiller G2 1 (r, p) y"
  using assms by (simp add: to_refiller_full [of _ 1 0] cars_ok_def del: One_nat_def)

lemma one_condition_cars:
  assumes "r \<noteq> R_blocked"
  shows "to_cars G1 1 (r, p) y = to_cars G2 1 (r, p) y"
  using assms by (cases y) (auto simp: to_cars_def signal_any_def signal_empty_def)

lemma to_refiller_two [simp]: "to_refiller G5 n x y \<longleftrightarrow> y = (signal_full (fst x), snd x)"
  by (simp add: to_refiller_def)

lemma purchase_signal:
  assumes "cars_ok ed n" "i < n" "cars_ok ed' n" "purchase_step ed sp er n i g h"
  shows "purchase_step ed' sp er n i g h"
  using assms(4)
proof cases
  case (signal b r p)
  have "to_refiller ed' n (rp g, (pp g)(i := P_unlock b)) (r, p)"
    using signal(3) to_refiller_full [OF assms(1,2), of "(pp g)(i := P_unlock b)"]
      to_refiller_full [OF assms(3,2), of "(pp g)(i := P_unlock b)"] by simp
  then show ?thesis using signal purchase_step.signal by blast
qed (simp_all add: purchase_step.intros del: One_nat_def)

lemma purchase_any:
  assumes "cars_ok ed n" "i < n"
  shows "purchase_step ed sp er n i g h \<longleftrightarrow> purchase_step G5 sp er n i g h"
  using purchase_signal [OF assms] purchase_signal [OF _ assms(2) assms(1), of G5]
  by (auto simp: cars_ok_def)

section \<open>The mutex\<close>

datatype driver = Refiller | Car nat

fun r_in :: "refill_pc \<Rightarrow> bool" where
  "r_in R_early = True" | "r_in R_check = True" | "r_in (R_while d) = True" | "r_in R_wait = True"
| "r_in R_late = True" | "r_in R_fill = True" | "r_in R_cast = True" | "r_in R_unlock = True"
| "r_in R_bye = True" | "r_in R_leave = True" | "r_in r = False"

fun p_in :: "car_pc \<Rightarrow> bool" where
  "p_in P_while = True" | "p_in P_wait = True" | "p_in P_add = True" | "p_in P_zero = True"
| "p_in P_test = True" | "p_in (P_signal b) = True" | "p_in (P_unlock b) = True" | "p_in p = False"

fun gas_holds :: "gas \<Rightarrow> driver \<Rightarrow> unit \<Rightarrow> bool" where
  "gas_holds g Refiller u = r_in (rp g)"
| "gas_holds g (Car i) u = p_in (pp g i)"

definition gas_free :: "gas \<Rightarrow> unit \<Rightarrow> nat" where
  "gas_free g u = mtx g"

lemma in_woken:
  assumes "woken n p q"
  shows "p_in (q i) = p_in (p i)"
proof -
  have "q i = p i \<or> p i = P_blocked \<and> q i = P_wake" using assms by (simp add: woken_def)
  then show ?thesis by auto
qed

lemma in_signal [simp]: "r_in (signal_full r) = r_in r"
  by (simp add: signal_full_def)

lemma in_behind [simp]: "r_in (behind_lock ed)" "r_in (behind_loop ed d)"
  by (simp_all add: behind_lock_def behind_loop_def split: gas_ed.splits)

lemma all_driver: "(\<forall>q. P q) \<longleftrightarrow> P Refiller \<and> (\<forall>i. P (Car i))"
  by (metis driver.exhaust)

lemmas gas_moves_simps = thread_move_def all_driver gas_free_def fun_eq_iff

lemma in_to_cars:
  assumes "to_cars ed n (r, p) (r', q)" "r \<noteq> R_blocked"
  shows "r' = r" "p_in (q i) = p_in (p i)"
  using to_cars_woken [OF assms] in_woken by blast+

lemma in_to_refiller:
  assumes "to_refiller ed n (r, p) (r', q)"
  shows "r_in r' = r_in r" "p_in (q i) = p_in (p i)"
proof -
  from assms have c: "r' = signal_full r \<and> q = p \<or> r = R_blocked \<and> r' = R_wake \<and> q = p \<or>
      (\<exists>k. p k = P_blocked \<and> r' = r \<and> q = p(k := P_wake)) \<or> r' = r \<and> q = p"
    by (cases ed) (auto simp: to_refiller_def signal_any_def)
  then show "r_in r' = r_in r" by (elim disjE conjE exE) simp_all
  from c show "p_in (q i) = p_in (p i)" by (elim disjE conjE exE) simp_all
qed

lemma refill_move:
  assumes "refill_step ed sp False n g h"
  shows "thread_move (gas_free g) (gas_holds g) Refiller (gas_free h) (gas_holds h)"
  using assms
proof cases
  case (cast r p)
  then show ?thesis using in_to_cars [OF cast(3)] by (simp add: gas_moves_simps)
next
  case (bye r p)
  then show ?thesis using in_to_cars [OF bye(3)] by (simp add: gas_moves_simps)
next
  case (bare_cast r p)
  then show ?thesis using in_to_cars [OF bare_cast(3)] by (simp add: gas_moves_simps)
qed (simp_all add: gas_moves_simps)

lemma purchase_move:
  assumes "purchase_step ed sp False n i g h"
  shows "thread_move (gas_free g) (gas_holds g) (Car i) (gas_free h) (gas_holds h)"
  using assms
proof cases
  case (signal b r p)
  then show ?thesis using in_to_refiller [OF signal(3)] by (simp add: gas_moves_simps)
qed (simp_all add: gas_moves_simps)

lemma gas_discipline:
  assumes "gas_step ed sp False n g h"
  shows "gas_free h = gas_free g \<and> gas_holds h = gas_holds g \<or>
    (\<exists>p l. takes (gas_free g) (gas_holds g) p l (gas_free h) (gas_holds h)) \<or>
    (\<exists>p l. gives (gas_free g) (gas_holds g) p l (gas_free h) (gas_holds h))"
  using assms by (cases rule: gas_step.cases) (blast dest: refill_move purchase_move thread_move_discipline)+

interpretation gs: lock_discipline "\<lambda>g. g = gas_start ed" "gas_step ed sp False n" gas_free gas_holds
  for ed sp n
proof unfold_locales
  show "\<And>s l. s = gas_start ed \<Longrightarrow> gas_free s l = 1" by (simp add: gas_free_def gas_start_def)
  show "\<And>s p l. s = gas_start ed \<Longrightarrow> \<not> gas_holds s p l"
    by (auto simp: gas_start_def elim!: gas_holds.elims)
qed (rule gas_discipline)

end
