(* ===== verification/Gas_Props.thy ===== *)
theory Gas_Props
  imports Gas_Station
begin

text \<open>
  What holds of the gas station in every state reached without a failing call, how far it gets
  from every such state, and that it comes to its end.
\<close>

section \<open>The invariant\<close>

text \<open>
  What a customer at a program counter relies on: \<open>f\<close> is the fuel of the station, \<open>t\<close> the
  customer's tank.
\<close>

fun p_ok :: "int \<Rightarrow> int \<Rightarrow> car_pc \<Rightarrow> bool" where
  "p_ok f t P_lock = (t < 75)"
| "p_ok f t P_while = (t < 75)"
| "p_ok f t P_wait = (t < 75 \<and> f = 0)"
| "p_ok f t P_blocked = (t < 75)"
| "p_ok f t P_wake = (t < 75)"
| "p_ok f t P_add = (t < 75 \<and> f = 35)"
| "p_ok f t P_zero = (t > 0 \<and> f = 35)"
| "p_ok f t P_test = (f = 0)"
| "p_ok f t (P_signal b) = (f = 0 \<and> b = (t \<ge> 75))"
| "p_ok f t (P_unlock b) = (f = 0 \<and> b = (t \<ge> 75))"
| "p_ok f t P_exit = (t \<ge> 75)"

text \<open>
  While there is fuel and the refiller has told so, a customer who waits is not alone: another one
  is on his way to the fuel.
\<close>

fun awake :: "car_pc \<Rightarrow> bool" where
  "awake P_lock = True" | "awake P_while = True" | "awake P_wake = True" | "awake P_add = True"
| "awake P_zero = True" | "awake p = False"

definition fed :: "nat \<Rightarrow> gas \<Rightarrow> bool" where
  "fed n g \<longleftrightarrow> (fuel g = 35 \<and> rp g \<noteq> R_cast \<and> (\<exists>i < n. pp g i = P_blocked) \<longrightarrow> (\<exists>k < n. awake (pp g k)))"

definition emptying :: "nat \<Rightarrow> gas \<Rightarrow> bool" where
  "emptying n g \<longleftrightarrow> (\<exists>i < n. pp g i = P_zero)"

definition signalling :: "nat \<Rightarrow> gas \<Rightarrow> bool" where
  "signalling n g \<longleftrightarrow> (\<exists>i < n. pp g i = P_test \<or> (\<exists>b. pp g i = P_signal b))"

definition needy :: "nat \<Rightarrow> gas \<Rightarrow> bool" where
  "needy n g \<longleftrightarrow> (\<exists>i < n. tank g i < 75)"

definition pending :: "nat \<Rightarrow> gas \<Rightarrow> bool" where
  "pending n g \<longleftrightarrow> (fuel g = 35 \<and> \<not> emptying n g \<longrightarrow> needy n g)"

fun r_ok :: "gas_ed \<Rightarrow> nat \<Rightarrow> gas \<Rightarrow> refill_pc \<Rightarrow> bool" where
  "r_ok ed n g R_lock = True"
| "r_ok ed n g R_early = pair ed"
| "r_ok ed n g R_check = (\<not> pair ed)"
| "r_ok ed n g (R_while d) = ((pair ed \<longrightarrow> d) \<and> (ed = G3 \<or> (if d then pending n g else \<not> needy n g)))"
| "r_ok ed n g R_wait = (fuel g = 35 \<and> pending n g)"
| "r_ok ed n g R_blocked = (pending n g \<and> (fuel g = 35 \<or> signalling n g))"
| "r_ok ed n g R_wake = pending n g"
| "r_ok ed n g R_late = (pair ed \<and> (fuel g = 0 \<or> \<not> needy n g))"
| "r_ok ed n g R_fill = (fuel g = 0)"
| "r_ok ed n g R_cast = (fuel g = 35)"
| "r_ok ed n g R_unlock = (fuel g = 35)"
| "r_ok ed n g R_bye = (\<not> needy n g)"
| "r_ok ed n g R_leave = (\<not> needy n g)"
| "r_ok ed n g R_exit = (\<not> needy n g)"
| "r_ok ed n g r = False"

definition gas_inv :: "gas_ed \<Rightarrow> nat \<Rightarrow> gas \<Rightarrow> bool" where
  "gas_inv ed n g \<longleftrightarrow> (fuel g = 0 \<or> fuel g = 35) \<and> r_ok ed n g (rp g) \<and> fed n g \<and>
     (\<forall>i < n. p_ok (fuel g) (tank g i) (pp g i) \<and> tank g i \<in> {0, 35, 70, 105})"

lemma is_refill_needed_needy: "is_refill_needed n (tank g) = needy n g"
  by (auto simp: is_refill_needed_def needy_def list_ex_iff)

lemma pair_needy: "pair ed \<Longrightarrow> cars_ok ed n \<Longrightarrow> needy n g \<longleftrightarrow> tank g 0 < 75"
  by (simp add: cars_ok_def needy_def)

lemma gas_inv_start: "gas_inv ed n (gas_start ed)"
  by (simp add: gas_inv_def gas_start_def fed_def)

lemma p_ok_out: "p_ok f t p \<Longrightarrow> \<not> p_in p \<Longrightarrow> p_ok f' t p"
  by (cases p) auto

lemma p_ok_woken:
  assumes "woken n p q" "p_ok f t (p i)"
  shows "p_ok f t (q i)"
proof -
  have "q i = p i \<or> p i = P_blocked \<and> q i = P_wake" using assms(1) by (simp add: woken_def)
  then show ?thesis using assms(2) by auto
qed

lemma fed_woken: "woken n p (pp h) \<Longrightarrow> fed n h"
  unfolding woken_def fed_def by (metis awake.simps(3))

lemma woken_iff:
  assumes "woken n p q"
  shows "q i = P_zero \<longleftrightarrow> p i = P_zero" "q i = P_test \<longleftrightarrow> p i = P_test"
    "q i = P_signal b \<longleftrightarrow> p i = P_signal b"
proof -
  have "q i = p i \<or> p i = P_blocked \<and> q i = P_wake" using assms by (simp add: woken_def)
  then show "q i = P_zero \<longleftrightarrow> p i = P_zero" "q i = P_test \<longleftrightarrow> p i = P_test"
    "q i = P_signal b \<longleftrightarrow> p i = P_signal b" by auto
qed

lemma fed_pp: "fed n g \<Longrightarrow> pp h = pp g \<Longrightarrow> fuel h = fuel g \<Longrightarrow> rp g \<noteq> R_cast \<Longrightarrow> fed n h"
  by (simp add: fed_def)

lemma refill_inv:
  assumes "refill_step ed sp False n g h" "gas_inv ed n g" and c: "cars_ok ed n"
    and out: "r_in (rp g) \<or> 0 < mtx g \<Longrightarrow> \<forall>i < n. \<not> p_in (pp g i)"
  shows "gas_inv ed n h"
  using assms(1)
proof cases
  case fill
  then have "\<forall>i < n. \<not> p_in (pp g i)" using out by simp
  then have "p_ok 35 (tank g i) (pp g i)" if "i < n" for i
    using assms(2) that by (auto simp: gas_inv_def intro: p_ok_out)
  then show ?thesis using fill assms(2) by (simp add: gas_inv_def fed_def)
next
  case (cast r p)
  then have w: "r = R_unlock" "woken n (pp g) p" using to_cars_woken by blast+
  have "fed n h" using fed_woken [of n "pp g" h] w cast by simp
  moreover have "p_ok (fuel g) (tank g i) (p i)" if "i < n" for i
    using p_ok_woken [OF w(2)] assms(2) that by (simp add: gas_inv_def)
  ultimately show ?thesis using cast w(1) assms(2) by (auto simp: gas_inv_def)
next
  case (bye r p)
  then have w: "r = R_leave" "woken n (pp g) p" using to_cars_woken by blast+
  have "fed n h" using fed_woken [of n "pp g" h] w bye by simp
  moreover have "p_ok (fuel g) (tank g i) (p i)" if "i < n" for i
    using p_ok_woken [OF w(2)] assms(2) that by (simp add: gas_inv_def)
  ultimately show ?thesis using bye w(1) assms(2) by (auto simp: gas_inv_def needy_def)
next
  case lock
  then show ?thesis using assms(2)
    by (cases ed) (auto simp: gas_inv_def behind_lock_def fed_def)
next
  case early
  then show ?thesis using assms(2) pair_needy [OF _ c]
    by (auto simp: gas_inv_def fed_def needy_def pending_def)
next
  case (enough d)
  then have "needy n g" if "ed = G3" using that pair_needy [OF _ c, of g] by (simp add: stays_def)
  then show ?thesis using enough assms(2)
    by (cases ed) (auto simp: gas_inv_def fed_def stays_def pending_def emptying_def needy_def)
next
  case (go_on d)
  then have "fuel g = 0 \<or> \<not> needy n g" if "ed = G3"
    using that pair_needy [OF _ c, of g] assms(2) by (auto simp: stays_def gas_inv_def)
  then show ?thesis using go_on assms(2)
    by (cases ed) (auto simp: gas_inv_def fed_def stays_def behind_loop_def needy_def)
next
  case late
  then have "needy n g \<longleftrightarrow> tank g 0 < 75" using pair_needy [OF _ c] assms(2) by (simp add: gas_inv_def)
  then show ?thesis using late assms(2) by (auto simp: gas_inv_def fed_def needy_def)
qed (use assms(2) in \<open>auto simp: gas_inv_def fed_def is_refill_needed_needy pending_def emptying_def needy_def signalling_def\<close>)

text \<open>A customer inside changes nothing that the others outside rely on.\<close>

definition alone :: "gas \<Rightarrow> nat \<Rightarrow> bool" where
  "alone g i \<longleftrightarrow> \<not> r_in (rp g) \<and> (\<forall>k. k \<noteq> i \<longrightarrow> \<not> p_in (pp g k))"

lemma emptying_alone:
  "alone g i \<Longrightarrow> pp h = (pp g)(i := x) \<Longrightarrow> i < n \<Longrightarrow> emptying n h \<longleftrightarrow> x = P_zero"
  by (auto simp: alone_def emptying_def)

lemma signalling_alone:
  "alone g i \<Longrightarrow> pp h = (pp g)(i := x) \<Longrightarrow> i < n \<Longrightarrow> signalling n h \<longleftrightarrow> x = P_test \<or> (\<exists>b. x = P_signal b)"
  by (auto simp: alone_def signalling_def)

lemma r_ok_same:
  assumes "fuel h = fuel g" "emptying n h = emptying n g" "signalling n h = signalling n g" "needy n h = needy n g"
  shows "r_ok ed n h r = r_ok ed n g r"
  using assms by (cases r) (simp_all add: pending_def)

lemma r_ok_out: "\<not> r_in r \<Longrightarrow> r_ok ed n g r \<longleftrightarrow> r = R_lock \<or> r = R_blocked \<and> pending n g \<and> (fuel g = 35 \<or> signalling n g) \<or>
    r = R_wake \<and> pending n g \<or> r = R_exit \<and> \<not> needy n g"
  by (cases r) auto

fun silent :: "car_pc \<Rightarrow> bool" where
  "silent P_zero = False" | "silent P_test = False" | "silent (P_signal b) = False" | "silent p = True"

lemma silent_same:
  assumes "silent (pp g i)" "silent x" "pp h = (pp g)(i := x)"
  shows "emptying n h = emptying n g" "signalling n h = signalling n g"
  using assms by (auto simp: emptying_def signalling_def)

lemma needy_same: "tank h = tank g \<Longrightarrow> needy n h = needy n g"
  by (simp add: needy_def)

lemma silent_step:
  assumes "pp h = (pp g)(i := pp h i)" "silent (pp g i)" "silent (pp h i)"
    and "tank h = tank g" "fuel h = fuel g" "rp h = rp g" "r_ok ed n g (rp g)"
  shows "r_ok ed n h (rp h)"
  using r_ok_same [OF assms(5) silent_same [OF assms(2,3,1)] needy_same [OF assms(4)]] assms(6,7) by simp

lemma purchase_r_ok:
  assumes "purchase_step G5 sp False n i g h" "r_ok ed n g (rp g)" "i < n"
    and al: "p_in (pp g i) \<Longrightarrow> alone g i"
    and p: "p_ok (fuel g) (tank g i) (pp g i)"
  shows "r_ok ed n h (rp h)"
  using assms(1)
proof cases
  case lock
  then show ?thesis using assms(2) by (intro silent_step [of h g i]) simp_all
next
  case while
  then show ?thesis using assms(2) by (intro silent_step [of h g i]) simp_all
next
  case wait
  then show ?thesis using assms(2) by (intro silent_step [of h g i]) simp_all
next
  case spurious
  then show ?thesis using assms(2) by (intro silent_step [of h g i]) simp_all
next
  case wake
  then show ?thesis using assms(2) by (intro silent_step [of h g i]) simp_all
next
  case add
  then have "alone g i" "\<not> r_in (rp g)" using al by (auto simp: alone_def)
  moreover have "needy n g" using add p assms(3) by (auto simp: needy_def)
  moreover have "emptying n h" using add assms(3) by (auto simp: emptying_def)
  ultimately show ?thesis using add assms(2) p by (auto simp: r_ok_out pending_def)
next
  case zero
  then have "\<not> r_in (rp g)" using al by (auto simp: alone_def)
  moreover have "signalling n h" using zero assms(3) by (auto simp: signalling_def)
  moreover have "needy n h = needy n g" using zero by (simp add: needy_def)
  ultimately show ?thesis using zero assms(2) by (auto simp: r_ok_out pending_def)
next
  case test
  then have "\<not> r_in (rp g)" using al by (auto simp: alone_def)
  moreover have "signalling n h" using test assms(3) by (auto simp: signalling_def)
  moreover have "needy n h = needy n g" using test by (simp add: needy_def)
  ultimately show ?thesis using test assms(2) p by (auto simp: r_ok_out pending_def)
next
  case (signal b r p)
  then have "\<not> r_in (rp g)" using al by (auto simp: alone_def)
  moreover have "needy n h = needy n g" using signal by (simp add: needy_def)
  ultimately show ?thesis using signal assms(2) p by (auto simp: r_ok_out pending_def signal_full_def)
next
  case (unlock b)
  then have a: "alone g i" "\<not> r_in (rp g)" using al by (auto simp: alone_def)
  have "\<not> signalling n g" using signalling_alone [OF a(1) fun_upd_triv [symmetric] assms(3)] unlock by simp
  moreover have "needy n h = needy n g" using unlock by (simp add: needy_def)
  ultimately show ?thesis using unlock a assms(2) p by (auto simp: r_ok_out pending_def)
qed simp_all

lemma purchase_fed:
  assumes "purchase_step G5 sp False n i g h" "fed n g" "i < n" "p_ok (fuel g) (tank g i) (pp g i)"
    and f: "fuel g = 0 \<or> fuel g = 35"
  shows "fed n h"
proof -
  have e: "\<And>k. k \<noteq> i \<Longrightarrow> pp h k = pp g k" and c: "(rp h = R_cast) = (rp g = R_cast)"
    using assms(1) by (cases; simp add: signal_full_def)+
  have "awake (pp h i) \<or> fuel h = 0"
    using assms(1,4) f by cases auto
  then show ?thesis using assms(3) by (auto simp: fed_def)
qed

lemma purchase_inv:
  assumes "purchase_step G5 sp False n i g h" "gas_inv ed n g" "i < n"
    and al: "p_in (pp g i) \<Longrightarrow> alone g i"
  shows "gas_inv ed n h"
proof -
  note inv = assms(2) [unfolded gas_inv_def]
  have p: "p_ok (fuel g) (tank g i) (pp g i)" "tank g i \<in> {0, 35, 70, 105}" using inv assms(3) by auto
  have r: "r_ok ed n h (rp h)" using purchase_r_ok [OF assms(1) _ assms(3) al p(1)] inv by blast
  have d: "fed n h" using purchase_fed [OF assms(1) _ assms(3) p(1)] inv by blast
  have f: "fuel h = 0 \<or> fuel h = 35" using assms(1) inv by cases auto
  have i: "p_ok (fuel h) (tank h i) (pp h i) \<and> tank h i \<in> {0, 35, 70, 105}"
    using assms(1) p f inv by cases auto
  have o: "p_ok (fuel h) (tank h k) (pp h k) \<and> tank h k \<in> {0, 35, 70, 105}" if k: "k < n" "k \<noteq> i" for k
  proof -
    have e: "tank h k = tank g k" "pp h k = pp g k" using assms(1) k by (cases; simp)+
    have ok: "p_ok (fuel g) (tank g k) (pp g k)" "tank g k \<in> {0, 35, 70, 105}" using inv k by auto
    have "fuel h = fuel g \<or> fuel h = 0 \<and> pp g i = P_zero" using assms(1) by cases auto
    then show ?thesis
    proof
      assume "fuel h = fuel g"
      then show ?thesis using e ok by simp
    next
      assume z: "fuel h = 0 \<and> pp g i = P_zero"
      then have "alone g i" using al by simp
      then have "\<not> p_in (pp g k)" using k by (auto simp: alone_def)
      then show ?thesis using p_ok_out [OF ok(1)] e ok z by simp
    qed
  qed
  show ?thesis unfolding gas_inv_def using r d f i o by blast
qed

lemma gas_cars_exclusive:
  assumes "gas_reach ed sp False n g" "p_in (pp g i)"
  shows "\<not> r_in (rp g)" "p_in (pp g k) \<Longrightarrow> k = i" "mtx g = 0"
  using gs.mutual_exclusion [OF assms(1), of "Car i" "()" Refiller]
    gs.mutual_exclusion [OF assms(1), of "Car i" "()" "Car k"]
    gs.held_not_free [OF assms(1), of "Car i" "()"] assms(2)
  by (auto simp: gas_free_def)

lemma gas_alone: "gas_reach ed sp False n g \<Longrightarrow> p_in (pp g i) \<Longrightarrow> alone g i"
  unfolding alone_def by (blast dest: gas_cars_exclusive)

lemma gas_inv_reach: "gas_reach ed sp False n g \<Longrightarrow> cars_ok ed n \<Longrightarrow> gas_inv ed n g"
proof (induction rule: reach_invariant)
  case (start g)
  then show ?case by (simp add: gas_inv_start)
next
  case (step g h)
  have out: "\<forall>i < n. \<not> p_in (pp g i)" if "r_in (rp g) \<or> 0 < mtx g"
    using that gas_cars_exclusive(1,3) [OF step.hyps(1)] by auto
  note inv = step.IH [OF step.prems]
  from step.hyps(2) show ?case
  proof cases
    case refiller
    then show ?thesis using refill_inv [OF _ inv step.prems out] by blast
  next
    case (customer i)
    then have "purchase_step G5 sp False n i g h" using purchase_any [OF step.prems] by blast
    then show ?thesis using purchase_inv [OF _ inv customer(1) gas_alone [OF step.hyps(1)]] by blast
  qed
qed

section \<open>No deadlock\<close>

lemma idle_reach: "gas_reach ed sp er n g \<Longrightarrow> cars_ok ed n \<Longrightarrow> n \<le> i \<Longrightarrow> pp g i = P_lock"
proof (induction rule: reach_invariant)
  case (start g)
  then show ?case by (simp add: gas_start_def)
next
  case (step g h)
  note i = step.IH [OF step.prems]
  from step.hyps(2) show ?case
  proof cases
    case refiller
    have w: "p i = pp g i" if "to_cars ed n (r0, pp g) (r, p)" "r0 \<noteq> R_blocked" for r0 r p
      using to_cars_woken [OF that] step.prems(2) by (simp add: woken_def)
    from refiller show ?thesis using i w by cases auto
  next
    case (customer k)
    then have "purchase_step G5 sp er n k g h" using purchase_any [OF step.prems(1)] by blast
    then show ?thesis using customer(1) i step.prems(2) by cases auto
  qed
qed

lemma refill_moves:
  assumes "r_in (rp g)"
  shows "\<exists>h. refill_step ed False False n g h"
proof (cases "rp g")
  case (R_while d)
  then show ?thesis
    using refill_step.enough [OF R_while, of ed False False n]
      refill_step.go_on [OF R_while, of ed False False n] by blast
next
  case R_cast
  obtain r p where "to_cars ed n (R_unlock, pp g) (r, p)" using to_cars_ex by blast
  then show ?thesis using refill_step.cast [OF R_cast] by blast
next
  case R_bye
  obtain r p where "to_cars ed n (R_leave, pp g) (r, p)" using to_cars_ex by blast
  then show ?thesis using refill_step.bye [OF R_bye] by blast
qed (use assms in \<open>auto intro: refill_step.intros\<close>)

lemma purchase_moves:
  assumes "p_in (pp g i)" "cars_ok ed n" "i < n"
  shows "\<exists>h. purchase_step ed False False n i g h"
proof -
  have "\<exists>h. purchase_step G5 False False n i g h"
  proof (cases "pp g i")
    case (P_signal b)
    then show ?thesis using purchase_step.signal [OF P_signal, of G5 n] by auto
  qed (use assms(1) in \<open>auto intro: purchase_step.intros\<close>)
  then show ?thesis using purchase_any [OF assms(2,3)] by blast
qed

lemma stuck_over:
  assumes inv: "gas_inv ed n g" and out: "\<not> r_in (rp g)" "\<forall>i < n. \<not> p_in (pp g i)"
    and r: "rp g \<noteq> R_lock" "rp g \<noteq> R_wake" and p: "\<forall>i < n. pp g i \<noteq> P_lock \<and> pp g i \<noteq> P_wake"
  shows "gas_over n g"
proof -
  have a: "\<not> awake (pp g i)" if "i < n" for i using that out(2) p by (cases "pp g i") auto
  have "rp g \<noteq> R_cast" using out(1) by auto
  then have f: "fuel g = 0" if "i < n" "pp g i = P_blocked" for i
    using inv that a unfolding gas_inv_def fed_def by blast
  have pp: "pp g i = P_blocked \<and> tank g i < 75 \<and> fuel g = 0 \<or> pp g i = P_exit \<and> tank g i \<ge> 75" if "i < n" for i
    using that inv out p f [OF that] by (cases "pp g i") (force simp: gas_inv_def)+
  have q: "\<not> emptying n g" "\<not> signalling n g" using out(2) by (auto simp: emptying_def signalling_def)
  have "rp g = R_exit \<and> \<not> needy n g"
    using inv r pp q unfolding gas_inv_def r_ok_out [OF out(1)] pending_def by (auto simp: needy_def)
  then show ?thesis using pp by (auto simp: gas_over_def needy_def list_all_iff)
qed

lemma gas_moves:
  assumes "gas_reach ed sp False n g" and c: "cars_ok ed n"
  shows "gas_over n g \<or> (\<exists>h. gas_step ed False False n g h)"
proof (cases "mtx g = 0")
  case True
  then obtain p where p: "gas_holds g p ()" using gs.taken_is_held [OF assms(1), of "()"] by (auto simp: gas_free_def)
  show ?thesis
  proof (cases p)
    case Refiller
    then have "r_in (rp g)" using p by simp
    from refill_moves [OF this] show ?thesis by (blast intro: gas_step.refiller)
  next
    case (Car i)
    then have i: "p_in (pp g i)" using p by simp
    then have "i < n" using idle_reach [OF assms(1) c, of i] by (cases "i < n") auto
    then show ?thesis using purchase_moves [OF i c] by (blast intro: gas_step.customer)
  qed
next
  case False
  then have f: "0 < mtx g" by simp
  have r: "\<not> r_in (rp g)" using gs.held_not_free [OF assms(1), of Refiller "()"] f by (auto simp: gas_free_def)
  have p: "\<forall>i < n. \<not> p_in (pp g i)" using gas_cars_exclusive(3) [OF assms(1)] f by auto
  show ?thesis
  proof (cases "(rp g = R_lock \<or> rp g = R_wake) \<or> (\<exists>i < n. pp g i = P_lock \<or> pp g i = P_wake)")
    case True
    then show ?thesis using f
      by (blast intro: gas_step.intros refill_step.lock refill_step.wake purchase_step.lock purchase_step.wake)
  next
    case False
    then show ?thesis using stuck_over [OF gas_inv_reach [OF assms] r p] by blast
  qed
qed

text \<open>
  C11: none of the five gas stations ever deadlocks: as long as a thread is still running, some
  thread can take a step, without a failing call and without a wait that wakes up by itself. No
  signal is lost, also where all threads wait on one condition variable or a signal wakes one car only.
\<close>

theorem gas_progress:
  assumes "gas_reach ed sp False n g" "cars_ok ed n"
  shows "gas_over n g \<or> (\<exists>h. gas_step ed False False n g h)"
  by (rule gas_moves [OF assms])

section \<open>Termination\<close>

fun r_weight :: "nat \<Rightarrow> refill_pc \<Rightarrow> int" where
  "r_weight n R_lock = 9" | "r_weight n R_early = 8" | "r_weight n R_check = 8" | "r_weight n (R_while d) = 7"
| "r_weight n R_wait = 1" | "r_weight n R_wake = 8" | "r_weight n R_late = 3" | "r_weight n R_fill = 1"
| "r_weight n R_cast = 11 + 4 * int n" | "r_weight n R_unlock = 10" | "r_weight n R_bye = 2"
| "r_weight n R_leave = 1" | "r_weight n r = 0"

fun p_weight :: "car_pc \<Rightarrow> int" where
  "p_weight P_lock = 3" | "p_weight P_while = 2" | "p_weight P_wait = 1" | "p_weight P_blocked = 0"
| "p_weight P_wake = 3" | "p_weight P_add = 1" | "p_weight P_zero = 15" | "p_weight P_test = 14"
| "p_weight (P_signal b) = 13" | "p_weight (P_unlock b) = 4" | "p_weight P_exit = 0"

definition missing :: "nat \<Rightarrow> gas \<Rightarrow> int" where
  "missing n g = 2 * (\<Sum>i<n. (105 - tank g i) div 35) + (if fuel g = 0 \<or> emptying n g then 1 else 0)"

definition weight :: "nat \<Rightarrow> gas \<Rightarrow> int" where
  "weight n g = (20 + 4 * int n) * missing n g + r_weight n (rp g) + (\<Sum>i<n. p_weight (pp g i))"

lemma weights_ge_0: "0 \<le> r_weight n r" "0 \<le> p_weight p"
  by (cases r; simp) (cases p; simp)

lemma weight_ge_0: "gas_inv ed n g \<Longrightarrow> 0 \<le> weight n g"
proof -
  assume inv: "gas_inv ed n g"
  have "0 \<le> (105 - tank g i) div 35" if "i < n" for i
    using that inv by (auto simp: gas_inv_def)
  then have "0 \<le> (\<Sum>i<n. (105 - tank g i) div 35)" by (intro sum_nonneg) simp
  then have "0 \<le> missing n g" by (simp add: missing_def)
  then show ?thesis by (simp add: weight_def weights_ge_0 sum_nonneg)
qed

lemma missing_same:
  "tank h = tank g \<Longrightarrow> fuel h = fuel g \<Longrightarrow> emptying n h = emptying n g \<Longrightarrow> missing n h = missing n g"
  by (simp add: missing_def)

lemma weight_less_missing:
  assumes "missing n h + 1 = missing n g"
    and "r_weight n (rp h) + (\<Sum>i<n. p_weight (pp h i)) < r_weight n (rp g) + (\<Sum>i<n. p_weight (pp g i)) + 20 + 4 * int n"
  shows "weight n h < weight n g"
proof -
  have "(20 + 4 * int n) * missing n g = (20 + 4 * int n) * missing n h + (20 + 4 * int n)"
    unfolding assms(1) [symmetric] by (simp add: algebra_simps)
  then show ?thesis using assms(2) by (simp add: weight_def)
qed

lemma weight_less_same:
  assumes "missing n h = missing n g"
    and "r_weight n (rp h) + (\<Sum>i<n. p_weight (pp h i)) < r_weight n (rp g) + (\<Sum>i<n. p_weight (pp g i))"
  shows "weight n h < weight n g"
  using assms by (simp add: weight_def)

lemma woken_weight:
  assumes "woken n p q"
  shows "(\<Sum>i<n. p_weight (q i)) \<le> (\<Sum>i<n. p_weight (p i)) + 3 * int n"
proof -
  have "p_weight (q i) \<le> p_weight (p i) + 3" for i
  proof -
    have "q i = p i \<or> p i = P_blocked \<and> q i = P_wake" using assms by (simp add: woken_def)
    then show ?thesis by auto
  qed
  then have "(\<Sum>i<n. p_weight (q i)) \<le> (\<Sum>i<n. p_weight (p i) + 3)" by (intro sum_mono) simp
  then show ?thesis by (simp add: sum.distrib)
qed

lemma woken_nobody:
  assumes "woken n p q" "\<And>i. i < n \<Longrightarrow> p i \<noteq> P_blocked"
  shows "q = p"
proof
  fix i
  show "q i = p i" using assms by (cases "i < n") (auto simp: woken_def)
qed

lemma refill_quiet:
  assumes "tank h = tank g" "fuel h = fuel g" "pp h = pp g" "r_weight n (rp h) < r_weight n (rp g)"
  shows "weight n h < weight n g"
  using assms by (intro weight_less_same missing_same) (simp_all add: emptying_def)

lemma refill_weight:
  assumes "refill_step ed False False n g h" "gas_inv ed n g" and out: "r_in (rp g) \<Longrightarrow> \<not> emptying n g"
  shows "weight n h < weight n g"
  using assms(1)
proof cases
  case fill
  then have "\<not> emptying n g" "fuel g = 0" using out assms(2) by (simp_all add: gas_inv_def)
  then have "missing n h + 1 = missing n g" using fill by (simp add: missing_def emptying_def)
  then show ?thesis using fill by (intro weight_less_missing) simp_all
next
  case (cast r p)
  then have w: "r = R_unlock" "woken n (pp g) p" using to_cars_woken by blast+
  have "emptying n h = emptying n g" using cast woken_iff(1) [OF w(2)] by (simp add: emptying_def)
  then have "missing n h = missing n g" using cast by (intro missing_same) simp_all
  then show ?thesis using cast w(1) woken_weight [OF w(2)] by (intro weight_less_same) simp_all
next
  case (bye r p)
  then have w: "r = R_leave" "woken n (pp g) p" using to_cars_woken by blast+
  have "pp g i \<noteq> P_blocked" if "i < n" for i
  proof
    assume "pp g i = P_blocked"
    then have "tank g i < 75" using assms(2) that unfolding gas_inv_def by (metis p_ok.simps(4))
    then show False using assms(2) bye(2) that by (simp add: gas_inv_def needy_def)
  qed
  then have "p = pp g" by (rule woken_nobody [OF w(2)])
  then show ?thesis using bye w(1) by (intro refill_quiet) simp_all
next
  case bare
  then show ?thesis using assms(2) by (simp add: gas_inv_def)
next
  case bare_cast
  then show ?thesis using assms(2) by (simp add: gas_inv_def)
next
  case lock
  then show ?thesis by (intro refill_quiet) (simp_all add: behind_lock_def split: gas_ed.splits)
next
  case (go_on d)
  then show ?thesis by (intro refill_quiet) (simp_all add: behind_loop_def split: gas_ed.splits)
qed (intro refill_quiet; simp)+

lemma p_sum:
  assumes "i < n" "pp h = (pp g)(i := pp h i)"
  shows "(\<Sum>k<n. p_weight (pp h k)) = (\<Sum>k<n. p_weight (pp g k)) + (p_weight (pp h i) - p_weight (pp g i))"
proof -
  have "(\<lambda>k. p_weight (pp h k)) = (\<lambda>k. p_weight (pp g k))(i := p_weight (pp h i))"
    by (subst assms(2)) (simp add: fun_eq_iff)
  then show ?thesis by (simp only: sum_upd [OF assms(1)])
qed

lemma missing_add:
  assumes "i < n" "fuel g = 35" "\<not> emptying n g" "tank h = (tank g)(i := tank g i + 35)" "emptying n h"
  shows "missing n h + 1 = missing n g"
proof -
  have "(\<lambda>k. (105 - tank h k) div 35) = (\<lambda>k. (105 - tank g k) div 35)(i := (105 - tank g i) div 35 - 1)"
    using assms(4) by (auto simp: fun_eq_iff)
  then have "(\<Sum>k<n. (105 - tank h k) div 35) = (\<Sum>k<n. (105 - tank g k) div 35) - 1"
    by (simp only: sum_upd [OF assms(1)])
  then show ?thesis using assms by (simp add: missing_def)
qed

lemma emptying_same:
  assumes "pp h = (pp g)(i := pp h i)" "pp g i \<noteq> P_zero" "pp h i \<noteq> P_zero"
  shows "emptying n h = emptying n g"
proof -
  have "pp h k = P_zero \<longleftrightarrow> pp g k = P_zero" for k
    using assms by (cases "k = i") (simp, metis fun_upd_other)
  then show ?thesis by (simp add: emptying_def)
qed

lemma purchase_weight:
  assumes "purchase_step G5 False False n i g h" "gas_inv ed n g" "i < n" and al: "p_in (pp g i) \<Longrightarrow> alone g i"
  shows "weight n h < weight n g"
proof -
  have p: "p_ok (fuel g) (tank g i) (pp g i)" using assms(2,3) by (simp add: gas_inv_def)
  have u: "pp h = (pp g)(i := pp h i)" using assms(1) by cases simp_all
  note sum = p_sum [OF assms(3) u]
  show ?thesis using assms(1)
  proof cases
    case add
    then have a: "\<not> emptying n g" using emptying_alone [OF al fun_upd_triv [symmetric] assms(3)] by simp
    have "emptying n h" using add assms(3) by (auto simp: emptying_def)
    then have "missing n h + 1 = missing n g" using add p a by (intro missing_add [OF assms(3)]) simp_all
    then show ?thesis using sum add by (intro weight_less_missing) simp_all
  next
    case zero
    then have "emptying n g" using assms(3) by (auto simp: emptying_def)
    then have "missing n h = missing n g" using zero by (simp add: missing_def)
    then show ?thesis using sum zero by (intro weight_less_same) simp_all
  next
    case (signal b r p)
    then have "missing n h = missing n g"
      using emptying_same [OF u, of n] by (intro missing_same) simp_all
    moreover have "r_weight n (signal_full (rp g)) \<le> r_weight n (rp g) + 8" by (simp add: signal_full_def)
    ultimately show ?thesis using sum signal by (intro weight_less_same) simp_all
  next
    case test
    then have "missing n h = missing n g"
      using emptying_same [OF u, of n] by (intro missing_same) simp_all
    then show ?thesis using sum test by (intro weight_less_same) simp_all
  next
    case (unlock b)
    have "missing n h = missing n g"
      using emptying_same [OF u, of n] unlock by (intro missing_same) simp_all
    then show ?thesis using sum unlock by (intro weight_less_same) simp_all
  next
    case lock
    have "missing n h = missing n g"
      using emptying_same [OF u, of n] lock by (intro missing_same) simp_all
    then show ?thesis using sum lock by (intro weight_less_same) simp_all
  next
    case while
    have "missing n h = missing n g"
      using emptying_same [OF u, of n] while by (intro missing_same) simp_all
    then show ?thesis using sum while by (intro weight_less_same) simp_all
  next
    case wait
    have "missing n h = missing n g"
      using emptying_same [OF u, of n] wait by (intro missing_same) simp_all
    then show ?thesis using sum wait by (intro weight_less_same) simp_all
  next
    case wake
    have "missing n h = missing n g"
      using emptying_same [OF u, of n] wake by (intro missing_same) simp_all
    then show ?thesis using sum wake by (intro weight_less_same) simp_all
  qed simp_all
qed

lemma refill_step_mono: "refill_step ed False False n g h \<Longrightarrow> refill_step ed sp False n g h"
  by (erule refill_step.cases) (simp_all add: refill_step.intros del: One_nat_def)

lemma purchase_step_mono: "purchase_step ed False False n i g h \<Longrightarrow> purchase_step ed sp False n i g h"
  by (erule purchase_step.cases) (simp_all add: purchase_step.intros del: One_nat_def)

lemma gas_step_mono: "gas_step ed False False n g h \<Longrightarrow> gas_step ed sp False n g h"
  by (erule gas_step.cases) (auto intro: gas_step.intros refill_step_mono purchase_step_mono)

lemma gas_weight:
  assumes "gas_reach ed sp False n g" "cars_ok ed n" "gas_step ed False False n g h"
  shows "gas_step ed sp False n g h \<and> nat (weight n h) < nat (weight n g)"
proof -
  note inv = gas_inv_reach [OF assms(1,2)]
  have "weight n h < weight n g" using assms(3)
  proof cases
    case refiller
    have "\<not> emptying n g" if "r_in (rp g)"
      using gas_cars_exclusive(1) [OF assms(1)] that unfolding emptying_def by (metis p_in.simps(4))
    then show ?thesis using refill_weight [OF refiller inv] by blast
  next
    case (customer i)
    then have "purchase_step G5 False False n i g h" using purchase_any [OF assms(2)] by blast
    then show ?thesis using purchase_weight [OF _ inv customer(1) gas_alone [OF assms(1)]] by blast
  qed
  moreover have "0 \<le> weight n h"
    by (rule weight_ge_0 [OF gas_inv_reach [OF reach_step [OF assms(1) gas_step_mono [OF assms(3)]] assms(2)]])
  ultimately show ?thesis using gas_step_mono [OF assms(3)] by simp
qed

lemma gas_reach_mono:
  assumes "(gas_step ed False False n)\<^sup>*\<^sup>* g h" "gas_reach ed sp False n g"
  shows "gas_reach ed sp False n h"
  using assms by (induction rule: rtranclp_induct) (auto intro: reach_step gas_step_mono)

lemma gas_completes:
  assumes "gas_reach ed sp False n g" "cars_ok ed n"
  shows "\<exists>h. (gas_step ed False False n)\<^sup>*\<^sup>* g h \<and> gas_over n h"
  using runs_to_the_end [OF gas_weight [OF _ assms(2)] assms(1)] gas_moves [OF _ assms(2)] by blast

text \<open>
  C10: take any state of a gas station that is reached without a failing call, whatever order the threads run in and
  with waits that wake up by themselves or not. From there no run without further such wake-ups and without failing
  calls goes on for ever, and there is one that ends all threads. (A wait that wakes up by itself again and again
  makes a run without an end.)
\<close>

theorem gas_terminates:
  assumes "gas_reach ed sp False n g" "cars_ok ed n"
  shows "\<not> (\<exists>f. f 0 = g \<and> (\<forall>k. gas_step ed False False n (f k) (f (Suc k)))) \<and>
    (\<exists>h. (gas_step ed False False n)\<^sup>*\<^sup>* g h \<and> gas_over n h)"
  using no_endless_run [OF gas_weight [OF _ assms(2)] assms(1)] gas_completes [OF assms] by blast

text \<open>
  the station holds 0 or 35 at any time, a car leaves with three fillings of 35, above its
  capacity of 75, and the refiller leaves only when no car needs it any more.
\<close>

theorem gas_full_tanks:
  assumes "gas_reach ed sp False n g" "cars_ok ed n" "i < n"
  shows "(fuel g = 0 \<or> fuel g = 35) \<and> (pp g i = P_exit \<longrightarrow> tank g i = 105) \<and>
    (rp g = R_exit \<longrightarrow> 75 \<le> tank g i)"
proof -
  note inv = gas_inv_reach [OF assms(1,2)]
  have "rp g = R_exit \<Longrightarrow> \<not> needy n g" using inv by (simp add: gas_inv_def)
  then have "rp g = R_exit \<Longrightarrow> 75 \<le> tank g i" using assms(3) unfolding needy_def by (metis not_less)
  moreover have "pp g i = P_exit \<Longrightarrow> tank g i = 105" using inv assms(3) by (auto simp: gas_inv_def)
  ultimately show ?thesis using inv by (auto simp: gas_inv_def)
qed

lemma refill_reach: "gas_reach ed sp er n g \<Longrightarrow> refill_step ed sp er n g h \<Longrightarrow> gas_reach ed sp er n h"
  by (rule reach_step, assumption, rule gas_step.refiller)

definition waiting_room :: "refill_pc \<Rightarrow> nat \<Rightarrow> int \<Rightarrow> gas" where
  "waiting_room r m f = \<lparr>rp = r, pp = (\<lambda>i. P_lock), mtx = m, fuel = f, tank = (\<lambda>i. 0)\<rparr>"

text \<open>The refiller is the first to take the mutex.\<close>

lemma refiller_first:
  assumes "0 < n" "cars_ok ed n"
  shows "gas_reach ed sp er n (waiting_room R_wait 0 35)"
proof -
  have needed: "is_refill_needed n (\<lambda>i. 0)" using assms(1) by (auto simp: is_refill_needed_def list_ex_iff)
  have b: "to_cars ed n (R_unlock, \<lambda>i. P_lock) (R_unlock, \<lambda>i. P_lock)"
    by (cases ed) (simp_all add: to_cars_def signal_any_def signal_empty_def broadcast_empty_def)
  note step = refill_reach [of ed sp er n]
  note room = waiting_room_def stays_def behind_loop_def behind_lock_def
  have full: "gas_reach ed sp er n (waiting_room R_lock 1 35)"
  proof (cases "pair ed")
    case True
    then show ?thesis by (intro reach_start) (simp add: waiting_room_def gas_start_def)
  next
    case False
    then have ed: "ed = G4 \<or> ed = G5" by (cases ed) simp_all
    have "gas_reach ed sp er n (waiting_room R_lock 1 0)"
      using False by (intro reach_start) (simp add: waiting_room_def gas_start_def)
    then have "gas_reach ed sp er n (waiting_room R_check 0 0)"
      by (rule step) (use refill_step.lock [of "waiting_room R_lock 1 0" ed] ed in \<open>auto simp: room\<close>)
    then have "gas_reach ed sp er n (waiting_room (R_while True) 0 0)"
      by (rule step) (use refill_step.check [of "waiting_room R_check 0 0" ed sp er n] needed in \<open>simp add: room\<close>)
    then have "gas_reach ed sp er n (waiting_room R_fill 0 0)"
      by (rule step) (use refill_step.go_on [of "waiting_room (R_while True) 0 0" True ed] ed in \<open>auto simp: room\<close>)
    then have "gas_reach ed sp er n (waiting_room R_cast 0 35)"
      by (rule step) (use refill_step.fill [of "waiting_room R_fill 0 0"] in \<open>simp add: room\<close>)
    then have "gas_reach ed sp er n (waiting_room R_unlock 0 35)"
      by (rule step) (use refill_step.cast [of "waiting_room R_cast 0 35"] b in \<open>simp add: room\<close>)
    then show ?thesis
      by (rule step) (use refill_step.unlock [of "waiting_room R_unlock 0 35"] in \<open>simp add: room\<close>)
  qed
  then have l: "gas_reach ed sp er n (waiting_room (behind_lock ed) 0 35)"
    by (rule step) (use refill_step.lock [of "waiting_room R_lock 1 35"] in \<open>simp add: waiting_room_def\<close>)
  have "gas_reach ed sp er n (waiting_room (R_while True) 0 35)"
  proof -
    consider "behind_lock ed = R_while True" | "behind_lock ed = R_check" | "behind_lock ed = R_early"
      by (cases ed) (simp_all add: behind_lock_def)
    then show ?thesis
    proof cases
      case 1
      then show ?thesis using l by simp
    next
      case 2
      show ?thesis using l
        by (rule step) (use refill_step.check [of "waiting_room R_check 0 35" ed sp er n] needed 2 in \<open>simp add: waiting_room_def\<close>)
    next
      case 3
      show ?thesis using l
        by (rule step) (use refill_step.early [of "waiting_room R_early 0 35"] 3 in \<open>simp add: waiting_room_def\<close>)
    qed
  qed
  moreover have "stays ed True (waiting_room (R_while True) 0 35)" by (cases ed) (simp_all add: room)
  then have "refill_step ed sp er n (waiting_room (R_while True) 0 35) (waiting_room R_wait 0 35)"
    using refill_step.enough [of "waiting_room (R_while True) 0 35" True ed sp er n]
    by (simp add: waiting_room_def)
  ultimately show ?thesis by (rule step)
qed

text \<open>
  an error of \<open>pthread_cond_wait\<close> in \<open>refill\<close> breaks the mutual exclusion, in all five programs: the
  mutex is given back and only the inner loop is left, so the refiller goes on to fill the station
  while a customer is in its critical section.
\<close>

theorem gas_wait_failure:
  assumes "0 < n" "cars_ok ed n"
  shows "\<exists>g. gas_reach ed False True n g \<and> rp g = R_bare \<and> p_in (pp g 0)"
proof -
  have "gas_reach ed False True n (waiting_room R_bare 1 35)"
    by (rule refill_reach [OF refiller_first [OF assms]])
      (use refill_step.wait_fail [of True "waiting_room R_wait 0 35"] in \<open>simp add: waiting_room_def\<close>)
  from reach_step [OF this gas_step.customer [OF assms(1) purchase_step.lock]]
  have "gas_reach ed False True n ((waiting_room R_bare 1 35)\<lparr>pp := (pp (waiting_room R_bare 1 35))(0 := P_while),
    mtx := mtx (waiting_room R_bare 1 35) - 1\<rparr>)" by (simp add: waiting_room_def)
  then show ?thesis by (intro exI conjI) (assumption, simp_all add: waiting_room_def)
qed

section \<open>Instances\<close>

lemma waiting_reach: "gas_reach G4 True False 2 (waiting_room R_wait 0 35)" "cars_ok G4 2"
  by (rule refiller_first) (simp_all add: cars_ok_def)

theorem gas_progress_witness:
  "gas_over 2 (waiting_room R_wait 0 35) \<or> (\<exists>h. gas_step G4 False False 2 (waiting_room R_wait 0 35) h)"
  by (rule gas_progress [OF waiting_reach])

theorem gas_terminates_witness:
  "\<not> (\<exists>f. f 0 = waiting_room R_wait 0 35 \<and> (\<forall>k. gas_step G4 False False 2 (f k) (f (Suc k)))) \<and>
    (\<exists>h. (gas_step G4 False False 2)\<^sup>*\<^sup>* (waiting_room R_wait 0 35) h \<and> gas_over 2 h)"
  by (rule gas_terminates [OF waiting_reach])

theorem gas_full_tanks_witness: "\<exists>h. gas_reach G4 True False 2 h \<and> pp h 1 = P_exit \<and> tank h 1 = 105"
proof -
  obtain h where h: "(gas_step G4 False False 2)\<^sup>*\<^sup>* (waiting_room R_wait 0 35) h" "gas_over 2 h"
    using gas_completes [OF waiting_reach] by blast
  have r: "gas_reach G4 True False 2 h" by (rule gas_reach_mono [OF h(1) waiting_reach(1)])
  have "pp h 1 = P_exit" using h(2) by (simp add: gas_over_def list_all_iff)
  then show ?thesis using gas_full_tanks [OF r waiting_reach(2), of 1] r by auto
qed

theorem gas_wait_failure_witness: "\<exists>g. gas_reach G1 False True 1 g \<and> rp g = R_bare \<and> p_in (pp g 0)"
  by (rule gas_wait_failure) (simp_all add: cars_ok_def)

section \<open>The programs\<close>

text \<open>
  The five programs for their numbers of cars; the first two do the same steps, so that the second
  condition variable changes nothing.
\<close>

lemma cond_wait_programs:
  "cond_wait_1 sp er g h \<longleftrightarrow> refill_1 sp er g h \<or> purchase_1 sp er g h"
  "cond_wait_2 sp er g h \<longleftrightarrow> refill_2 sp er g h \<or> purchase_2 sp er g h"
  "cond_wait_3 sp er g h \<longleftrightarrow> refill_3 sp er g h \<or> purchase_3 sp er g h"
  "cond_wait_4 sp er g h \<longleftrightarrow> refill_4 sp er g h \<or> (\<exists>i < 2. purchase_4 sp er i g h)"
  "cond_wait_5 sp er g h \<longleftrightarrow> refill_5 sp er g h \<or> (\<exists>i < 2. purchase_5 sp er i g h)"
  unfolding cond_wait_defs by (auto elim!: gas_step.cases intro: gas_step.intros)

theorem one_condition_enough: "cond_wait_1 sp er = cond_wait_2 sp er"
proof -
  have "refill_step G1 sp er 1 g h \<longleftrightarrow> refill_step G2 sp er 1 g h" for g h
  proof -
    have e: "behind_lock G1 = behind_lock G2" "stays G1 = stays G2" "behind_loop G1 = behind_loop G2"
      "pair G1 = pair G2"
      by (simp_all add: behind_lock_def stays_def behind_loop_def fun_eq_iff)
    have c: "to_cars G1 1 (R_unlock, p) = to_cars G2 1 (R_unlock, p)"
      "to_cars G1 1 (R_leave, p) = to_cars G2 1 (R_leave, p)"
      "to_cars G1 1 (R_undefined, p) = to_cars G2 1 (R_undefined, p)" for p
      using one_condition_cars by (simp_all add: fun_eq_iff del: One_nat_def)
    show ?thesis unfolding refill_step.simps e c ..
  qed
  moreover have "purchase_step G1 sp er 1 0 g h \<longleftrightarrow> purchase_step G2 sp er 1 0 g h" for g h
    using purchase_any [of G1 1 0] purchase_any [of G2 1 0] by (simp add: cars_ok_def)
  ultimately show ?thesis
    by (auto simp: fun_eq_iff cond_wait_programs refill_1_def refill_2_def purchase_1_def purchase_2_def)
qed

end
