(* ===== verification/Matrix_Threads.thy ===== *)
theory Matrix_Threads
  imports Getopt
begin

text \<open>
  LAB_13/task_matrix: the product of two random matrices, one thread for each row of the result.
  The threads are program counters that run in the order of a schedule, a list of thread numbers,
  one pass of an inner loop at a time; the theorems hold for every schedule.
\<close>

section \<open>The threads\<close>

definition cell_at :: "int list list \<Rightarrow> nat \<Rightarrow> nat \<Rightarrow> int run" where
  "cell_at m r c = (if r < length m \<and> c < length (m ! r) then Done (m ! r ! c) else Fault OutOfBounds)"

definition set_cell :: "int list list \<Rightarrow> nat \<Rightarrow> nat \<Rightarrow> int \<Rightarrow> int list list run" where
  "set_cell m r c v = (if r < length m \<and> c < length (m ! r) then Done (m[r := (m ! r)[c := v]]) else Fault OutOfBounds)"

text \<open>
  \<open>T_next i\<close> is the head of the outer loop, \<open>T_sum i j cum\<close> that of the inner one. \<open>cum\<close>, the
  cells and their products are of type \<open>int\<close>: a product or a sum that leaves its 32 bits is a fault.
\<close>

datatype mul_pc = T_next nat | T_sum nat nat int | T_done

record product =
  mat_a :: "int list list"
  mat_b :: "int list list"
  cols_a :: nat
  cols_c :: nat

fun multiply_func :: "product \<Rightarrow> nat \<Rightarrow> mul_pc \<Rightarrow> int list list \<Rightarrow> (mul_pc \<times> int list list) run" where
  "multiply_func p idx (T_next i) c = Done (if i < cols_c p then T_sum i 0 0 else T_done, c)"
| "multiply_func p idx (T_sum i j cum) c =
     (if j < cols_a p then
        bind_run (cell_at (mat_a p) idx j) (\<lambda>x.
        bind_run (cell_at (mat_b p) j i) (\<lambda>y.
        bind_run (c_int (x * y)) (\<lambda>xy.
        bind_run (c_int (cum + xy)) (\<lambda>cum'.
        Done (T_sum i (j + 1) cum', c)))))
      else bind_run (set_cell c idx i cum) (\<lambda>c'. Done (T_next (i + 1), c')))"
| "multiply_func p idx T_done c = Done (T_done, c)"

text \<open>\<open>n\<close> threads have been created; a schedule may name only them.\<close>

fun run_threads :: "product \<Rightarrow> nat \<Rightarrow> nat list \<Rightarrow> (nat \<Rightarrow> mul_pc) \<Rightarrow> int list list \<Rightarrow>
    ((nat \<Rightarrow> mul_pc) \<times> int list list) run" where
  "run_threads p n [] pcs c = Done (pcs, c)"
| "run_threads p n (t # ts) pcs c =
     (if t < n then bind_run (multiply_func p t (pcs t) c) (\<lambda>(pc, c'). run_threads p n ts (pcs(t := pc)) c')
      else run_threads p n ts pcs c)"

definition joined :: "nat \<Rightarrow> (nat \<Rightarrow> mul_pc) \<Rightarrow> bool" where
  "joined n pcs = list_all (\<lambda>t. pcs t = T_done) [0..<n]"

section \<open>Allocation\<close>

text \<open>
  A matrix is a null pointer or an array of rows, each a null pointer or an array of cells.
  \<open>mem\<close> counts the calls of \<open>calloc\<close> that still succeed, \<open>rand\<close> those of \<open>rand\<close> made so far.
\<close>

type_synonym matrix_ptr = "int list option list option"

fun alloc_rows :: "(nat \<Rightarrow> nat) \<Rightarrow> bool \<Rightarrow> nat \<Rightarrow> nat \<Rightarrow> nat \<Rightarrow> nat \<Rightarrow> int list option list \<times> nat \<times> nat \<times> bool" where
  "alloc_rows rnd fill cols 0 mem rand = ([], mem, rand, True)"
| "alloc_rows rnd fill cols (Suc k) mem rand =
     (if mem = 0 then (replicate (Suc k) None, mem, rand, False)
      else
        let row = (if fill then map (\<lambda>l. int (rnd (rand + l) mod 6)) [0..<cols] else replicate cols 0);
            (rest, mem', rand', ok) = alloc_rows rnd fill cols k (mem - 1) (if fill then rand + cols else rand)
        in (Some row # rest, mem', rand', ok))"

definition alloc_matrix :: "(nat \<Rightarrow> nat) \<Rightarrow> bool \<Rightarrow> nat \<Rightarrow> nat \<Rightarrow> nat \<Rightarrow> nat \<Rightarrow> matrix_ptr \<times> nat \<times> nat \<times> bool" where
  "alloc_matrix rnd fill rows cols mem rand =
     (if mem = 0 then (None, mem, rand, False)
      else let (rs, r) = alloc_rows rnd fill cols rows (mem - 1) rand in (Some rs, r))"

fun alloc_matrices :: "(nat \<Rightarrow> nat) \<Rightarrow> (bool \<times> nat \<times> nat) list \<Rightarrow> nat \<Rightarrow> nat \<Rightarrow> matrix_ptr list \<times> nat \<times> bool" where
  "alloc_matrices rnd [] mem rand = ([], mem, True)"
| "alloc_matrices rnd ((fill, rows, cols) # ds) mem rand =
     (let (m, mem', rand', ok) = alloc_matrix rnd fill rows cols mem rand in
      if ok then let (ms, r) = alloc_matrices rnd ds mem' rand' in (m # ms, r)
      else (m # replicate (length ds) None, mem', False))"

text \<open>The cells of a matrix that has been allocated without a failure.\<close>

definition cells :: "matrix_ptr \<Rightarrow> int list list" where
  "cells m = map the (the m)"

text \<open>
  The loops that free the matrices. Each pointer that is not null is freed once; the number of
  live blocks goes down by one.
\<close>

fun free_rows :: "int list option list \<Rightarrow> nat \<Rightarrow> nat" where
  "free_rows [] live = live"
| "free_rows (r # rs) live = free_rows rs (if r = None then live else live - 1)"

fun free_matrices :: "matrix_ptr list \<Rightarrow> nat \<Rightarrow> nat" where
  "free_matrices [] live = live"
| "free_matrices (m # ms) live =
     free_matrices ms (case m of None \<Rightarrow> live | Some rs \<Rightarrow> free_rows rs live - 1)"

section \<open>The program\<close>

text \<open>
  \<open>memory\<close> calls of \<open>calloc\<close> and \<open>creates\<close> calls of \<open>pthread_create\<close> succeed; \<open>order\<close> is the
  schedule of the threads.
\<close>

record machine =
  memory :: nat
  creates :: nat
  rand_of :: "nat \<Rightarrow> nat"
  order :: "nat list"

text \<open>
  \<open>Returned ret live shown\<close>: the return value, the blocks that are still allocated and the matrices
  displayed; \<open>Waiting\<close>: at the end of the schedule a thread to be joined is still running.
\<close>

datatype mres = Returned int nat "(char \<times> int list list) list" | Waiting

text \<open>\<open>atoi\<close> of a number that is no \<open>int\<close> is undefined in C; this is what glibc does.\<close>

definition atoi :: "string \<Rightarrow> int" where
  "atoi s = int_of_long (fst (strtol s))"

definition matrix_start :: "machine \<Rightarrow> string \<Rightarrow> string \<Rightarrow> string \<Rightarrow> string \<Rightarrow> mres run" where
  "matrix_start w a0 a1 a2 a3 =
     (let r0 = atoi a0; c0 = atoi a1; r1 = atoi a2; c1 = atoi a3 in
      if r0 \<le> 0 \<or> r1 \<le> 0 \<or> c0 \<le> 0 \<or> c1 \<le> 0 then Done (Returned 1 0 [])
      else if c0 \<noteq> r1 then Done (Returned 1 0 [])
      else
        let n = nat r0;
            (ms, mem, ok) = alloc_matrices (rand_of w) [(True, nat r0, nat c0), (True, nat r1, nat c1), (False, nat r0, nat c1)]
              (memory w) 0;
            live = memory w - mem
        in
          if \<not> ok then Done (Returned 1 (free_matrices ms live) [])
          else if mem = 0 then Done (Returned 1 (free_matrices ms live) [])
          else
            let k = (if creates w < n then creates w else n);
                p = \<lparr>mat_a = cells (ms ! 0), mat_b = cells (ms ! 1), cols_a = nat c0, cols_c = nat c1\<rparr>
            in bind_run (run_threads p k (order w) (\<lambda>t. T_next 0) (cells (ms ! 2))) (\<lambda>(pcs, c).
              if \<not> joined k pcs then Done Waiting
              else if k < n then Done (Returned (if k = 0 then 1 else 0) (free_matrices ms live) [])
              else Done (Returned 0 (free_matrices ms live)
                [(CHR ''A'', mat_a p), (CHR ''B'', mat_b p), (CHR ''C'', c)])))"

definition matrix_main :: "machine \<Rightarrow> string list \<Rightarrow> mres run" where
  "matrix_main w args =
     (case args of a0 # a1 # a2 # a3 # rest \<Rightarrow> matrix_start w a0 a1 a2 a3 | _ \<Rightarrow> Done (Returned 1 0 []))"

end
