(* ===== verification/Matrix_Product.thy ===== *)
theory Matrix_Product
  imports Matrix_Threads
begin

text \<open>
  The threads of the matrix program compute the product in every order, what has been allocated is
  freed on every path, and what a failed creation of a thread does to the exit status.
\<close>

section \<open>Allocation and freeing\<close>

definition row_blocks :: "int list option list \<Rightarrow> nat" where
  "row_blocks rs = length (filter (\<lambda>r. r \<noteq> None) rs)"

definition blocks :: "matrix_ptr \<Rightarrow> nat" where
  "blocks m = (case m of None \<Rightarrow> 0 | Some rs \<Rightarrow> Suc (row_blocks rs))"

definition shape :: "nat \<Rightarrow> nat \<Rightarrow> int list list \<Rightarrow> bool" where
  "shape n m a \<longleftrightarrow> length a = n \<and> (\<forall>r \<in> set a. length r = m)"

lemma shape_nth: "shape n m a \<Longrightarrow> i < n \<Longrightarrow> length (a ! i) = m"
  by (simp add: shape_def)

lemma free_rows_blocks: "free_rows rs live = live - row_blocks rs"
  by (induction rs live rule: free_rows.induct) (auto simp: row_blocks_def)

lemma free_matrices_blocks: "free_matrices ms live = live - sum_list (map blocks ms)"
  by (induction ms live rule: free_matrices.induct)
    (auto simp: blocks_def free_rows_blocks split: option.splits)

lemma blocks_replicate_None [simp]: "row_blocks (replicate k None) = 0"
  by (simp add: row_blocks_def)

lemma row_blocks_Some [simp]: "row_blocks (Some r # rs) = Suc (row_blocks rs)"
  by (simp add: row_blocks_def)

text \<open>The cells of a fresh row: random digits below 6, or zeros.\<close>

definition small_cells :: "int list list \<Rightarrow> bool" where
  "small_cells a \<longleftrightarrow> (\<forall>r \<in> set a. \<forall>x \<in> set r. 0 \<le> x \<and> x \<le> 5)"

lemma alloc_rows_spec:
  "alloc_rows rnd fill cols k mem rand = (rs, mem', rand', ok) \<Longrightarrow>
   mem' + row_blocks rs = mem \<and> ok = (k \<le> mem) \<and>
   (ok \<longrightarrow> mem' + k = mem \<and> shape k cols (map the rs) \<and> small_cells (map the rs))"
proof (induction k arbitrary: mem rand rs mem' rand' ok)
  case 0
  then show ?case by (simp add: shape_def row_blocks_def small_cells_def)
next
  case (Suc k)
  show ?case
  proof (cases "mem = 0")
    case True
    then show ?thesis using Suc.prems by (auto simp: row_blocks_def)
  next
    case False
    define row where "row = (if fill then map (\<lambda>l. int (rnd (rand + l) mod 6)) [0..<cols] else replicate cols 0)"
    obtain rest m1 r1 o1 where rest: "alloc_rows rnd fill cols k (mem - 1) (if fill then rand + cols else rand) = (rest, m1, r1, o1)"
      by (metis prod_cases4)
    have e: "rs = Some row # rest" "mem' = m1" "rand' = r1" "ok = o1"
      using Suc.prems False rest by (auto simp: Let_def row_def)
    have row: "length row = cols" "\<forall>x \<in> set row. 0 \<le> x \<and> x \<le> 5"
      by (auto simp: row_def split: if_splits)
    show ?thesis using Suc.IH [OF rest] row False unfolding e by (auto simp: shape_def small_cells_def)
  qed
qed

lemma alloc_matrix_spec:
  assumes "alloc_matrix rnd fill n cols mem rand = (m, mem', rand', ok)"
  shows "mem' + blocks m = mem \<and> ok = (Suc n \<le> mem) \<and>
    (ok \<longrightarrow> mem' + Suc n = mem \<and> shape n cols (cells m) \<and> small_cells (cells m))"
proof (cases "mem = 0")
  case True
  then show ?thesis using assms by (auto simp: alloc_matrix_def blocks_def)
next
  case False
  obtain rs m1 r1 o1 where r: "alloc_rows rnd fill cols n (mem - 1) rand = (rs, m1, r1, o1)"
    by (metis prod_cases4)
  then have "m = Some rs" "mem' = m1" "ok = o1" using assms False by (auto simp: alloc_matrix_def)
  then show ?thesis using alloc_rows_spec [OF r] False by (auto simp: blocks_def cells_def)
qed

lemma alloc_matrices_blocks:
  "alloc_matrices rnd ds mem rand = (ms, mem', ok) \<Longrightarrow> mem' + sum_list (map blocks ms) = mem"
proof (induction ds arbitrary: mem rand ms mem' ok)
  case Nil
  then show ?case by simp
next
  case (Cons d ds)
  obtain fill n cols where d: "d = (fill, n, cols)" by (metis prod_cases3)
  obtain m m1 r1 o1 where a: "alloc_matrix rnd fill n cols mem rand = (m, m1, r1, o1)" by (metis prod_cases4)
  note a' = conjunct1 [OF alloc_matrix_spec [OF a]]
  show ?case
  proof (cases o1)
    case True
    obtain rest m2 o2 where r: "alloc_matrices rnd ds m1 r1 = (rest, m2, o2)" by (metis prod_cases3)
    then have "m2 + sum_list (map blocks rest) = m1" using Cons.IH by blast
    moreover have "ms = m # rest" "mem' = m2" using Cons.prems a r True by (auto simp: d)
    ultimately show ?thesis using a' by simp
  next
    case False
    then have "ms = m # replicate (length ds) None" "mem' = m1" using Cons.prems a by (simp_all add: d)
    then show ?thesis using a' by (simp add: sum_list_replicate blocks_def)
  qed
qed

lemma alloc_matrices_ok:
  assumes "(\<Sum>(fill, n, cols) \<leftarrow> ds. Suc n) \<le> mem"
  shows "\<exists>ms. alloc_matrices rnd ds mem rand = (ms, mem - (\<Sum>(fill, n, cols) \<leftarrow> ds. Suc n), True) \<and>
    list_all2 (\<lambda>(fill, n, cols) m. shape n cols (cells m) \<and> small_cells (cells m)) ds ms"
  using assms
proof (induction ds arbitrary: mem rand)
  case Nil
  then show ?case by simp
next
  case (Cons d ds)
  obtain fill n cols where d: "d = (fill, n, cols)" by (metis prod_cases3)
  obtain m m1 r1 o1 where a: "alloc_matrix rnd fill n cols mem rand = (m, m1, r1, o1)" by (metis prod_cases4)
  then have o: "o1" "m1 + Suc n = mem" "shape n cols (cells m)" "small_cells (cells m)"
    using alloc_matrix_spec [OF a] Cons.prems by (auto simp: d)
  then obtain ms where "alloc_matrices rnd ds m1 r1 = (ms, m1 - (\<Sum>(fill, n, cols) \<leftarrow> ds. Suc n), True)"
    "list_all2 (\<lambda>(fill, n, cols) m. shape n cols (cells m) \<and> small_cells (cells m)) ds ms"
    using Cons.IH [of m1 r1] Cons.prems by (auto simp: d)
  then show ?case using a o by (auto simp: d)
qed

section \<open>The product\<close>

definition dot :: "product \<Rightarrow> nat \<Rightarrow> nat \<Rightarrow> nat \<Rightarrow> int" where
  "dot p r c j = (\<Sum>k<j. mat_a p ! r ! k * mat_b p ! k ! c)"

definition product_ok :: "product \<Rightarrow> nat \<Rightarrow> bool" where
  "product_ok p n \<longleftrightarrow> shape n (cols_a p) (mat_a p) \<and> shape (cols_a p) (cols_c p) (mat_b p) \<and>
     small_cells (mat_a p) \<and> small_cells (mat_b p) \<and> 25 * int (cols_a p) < 2 ^ 31"

lemma cell_range:
  assumes "shape n m a" "small_cells a" "r < n" "c < m"
  shows "0 \<le> a ! r ! c \<and> a ! r ! c \<le> 5"
proof -
  have "a ! r \<in> set a" "a ! r ! c \<in> set (a ! r)" using assms by (simp_all add: shape_def)
  then show ?thesis using assms(2) unfolding small_cells_def by blast
qed

text \<open>
  A sum is at most 25 for each column of the first matrix, so an \<open>int\<close> holds it up to 85899345 columns.
\<close>

lemma summand_range:
  assumes "product_ok p n" "r < n" "c < cols_c p" "j < cols_a p"
  shows "0 \<le> mat_a p ! r ! j * mat_b p ! j ! c \<and> mat_a p ! r ! j * mat_b p ! j ! c \<le> 25"
proof -
  have x: "0 \<le> mat_a p ! r ! j" "mat_a p ! r ! j \<le> 5" "0 \<le> mat_b p ! j ! c" "mat_b p ! j ! c \<le> 5"
    using cell_range [of n "cols_a p" "mat_a p" r j] cell_range [of "cols_a p" "cols_c p" "mat_b p" j c]
      assms by (simp_all add: product_ok_def)
  then have "mat_a p ! r ! j * mat_b p ! j ! c \<le> 5 * 5" by (intro mult_mono) simp_all
  then show ?thesis using x by simp
qed

lemma dot_range:
  assumes "product_ok p n" "r < n" "c < cols_c p"
  shows "j \<le> cols_a p \<Longrightarrow> 0 \<le> dot p r c j \<and> dot p r c j \<le> 25 * int j"
proof (induction j)
  case 0
  then show ?case by (simp add: dot_def)
next
  case (Suc j)
  then show ?case using summand_range [OF assms, of j] by (simp add: dot_def)
qed

fun thread_ok :: "product \<Rightarrow> nat \<Rightarrow> int list \<Rightarrow> mul_pc \<Rightarrow> bool" where
  "thread_ok p t row (T_next i) = (i \<le> cols_c p \<and> (\<forall>k < i. row ! k = dot p t k (cols_a p)))"
| "thread_ok p t row (T_sum i j cum) = (i < cols_c p \<and> j \<le> cols_a p \<and> cum = dot p t i j \<and>
     (\<forall>k < i. row ! k = dot p t k (cols_a p)))"
| "thread_ok p t row T_done = (\<forall>k < cols_c p. row ! k = dot p t k (cols_a p))"

definition threads_ok :: "product \<Rightarrow> nat \<Rightarrow> (nat \<Rightarrow> mul_pc) \<Rightarrow> int list list \<Rightarrow> bool" where
  "threads_ok p n pcs c \<longleftrightarrow> shape n (cols_c p) c \<and> (\<forall>t < n. thread_ok p t (c ! t) (pcs t))"

fun steps_left :: "product \<Rightarrow> mul_pc \<Rightarrow> nat" where
  "steps_left p (T_next i) = (cols_c p - i) * (cols_a p + 2) + 1"
| "steps_left p (T_sum i j cum) = (cols_c p - i - 1) * (cols_a p + 2) + (cols_a p - j) + 2"
| "steps_left p T_done = 0"

lemma shape_upd: "shape n m c \<Longrightarrow> length r = m \<Longrightarrow> shape n m (c[t := r])"
  by (auto simp: shape_def dest: set_update_subset_insert [THEN subsetD])

text \<open>A step of thread \<open>t\<close> stays inside the matrices, changes its own row only and comes nearer to the end.\<close>

lemma multiply_step:
  assumes "product_ok p n" "t < n" "shape n (cols_c p) c" "thread_ok p t (c ! t) pc"
  shows "\<exists>pc' row. multiply_func p t pc c = Done (pc', c[t := row]) \<and> length row = cols_c p \<and>
    thread_ok p t row pc' \<and> steps_left p pc' = steps_left p pc - 1"
proof (cases pc)
  case (T_next i)
  have "c[t := c ! t] = c" "length (c ! t) = cols_c p" using assms(2,3) by (auto simp: shape_def)
  moreover have "i < cols_c p \<Longrightarrow> (cols_c p - i) * (cols_a p + 2) = (cols_c p - i - 1) * (cols_a p + 2) + (cols_a p + 2)"
    by (cases "cols_c p - i") simp_all
  ultimately show ?thesis using T_next assms(4) 
    by (intro exI [of _ "if i < cols_c p then T_sum i 0 0 else T_done"] exI [of _ "c ! t"]) (auto simp: dot_def)
next
  case (T_sum i j cum)
  have l: "length c = n" "length (c ! t) = cols_c p" "c[t := c ! t] = c" using assms(2,3) by (auto simp: shape_def)
  show ?thesis
  proof (cases "j < cols_a p")
    case True
    have "t < length (mat_a p)" "j < length (mat_a p ! t)" "j < length (mat_b p)" "i < length (mat_b p ! j)"
      using assms(1,2,4) True T_sum by (auto simp: product_ok_def shape_def)
    moreover have "0 \<le> mat_a p ! t ! j * mat_b p ! j ! i" "mat_a p ! t ! j * mat_b p ! j ! i \<le> 25"
      "0 \<le> cum" "cum \<le> 25 * int j" "25 * int (cols_a p) < 2 ^ 31"
      using summand_range [OF assms(1,2), of i j] dot_range [OF assms(1,2), of i j] assms(1,4) T_sum True
      by (simp_all add: product_ok_def)
    ultimately show ?thesis using T_sum True assms(4) l
      by (intro exI [of _ "T_sum i (j + 1) (cum + mat_a p ! t ! j * mat_b p ! j ! i)"] exI [of _ "c ! t"])
        (auto simp: cell_at_def dot_def)
  next
    case False
    then have "multiply_func p t pc c = Done (T_next (i + 1), c[t := (c ! t)[i := cum]])"
      using T_sum assms(2,4) l by (simp add: set_cell_def)
    moreover have "thread_ok p t ((c ! t)[i := cum]) (T_next (i + 1))"
      using T_sum assms(4) False l by (auto simp: nth_list_update less_Suc_eq)
    ultimately show ?thesis using T_sum assms(4) False l by (intro exI conjI) (assumption, simp_all)
  qed
next
  case T_done
  have "c[t := c ! t] = c" "length (c ! t) = cols_c p" using assms(2,3) by (auto simp: shape_def)
  then show ?thesis using T_done assms(4) by (intro exI [of _ T_done] exI [of _ "c ! t"]) simp
qed

text \<open>Whatever the order, the threads keep the invariant, and each step of a thread counts.\<close>

lemma run_threads_ok:
  "product_ok p n \<Longrightarrow> k \<le> n \<Longrightarrow> threads_ok p n pcs c \<Longrightarrow>
   \<exists>pcs' c'. run_threads p k ts pcs c = Done (pcs', c') \<and> threads_ok p n pcs' c' \<and>
     (\<forall>t < k. steps_left p (pcs' t) = steps_left p (pcs t) - count_list ts t)"
proof (induction ts arbitrary: pcs c)
  case Nil
  then show ?case by simp
next
  case (Cons t ts)
  show ?case
  proof (cases "t < k")
    case False
    then have "\<forall>u < k. count_list (t # ts) u = count_list ts u" by auto
    then show ?thesis using Cons.IH [OF Cons.prems] False by simp
  next
    case True
    have t: "t < n" "shape n (cols_c p) c" "thread_ok p t (c ! t) (pcs t)" "length c = n"
      using Cons.prems(2,3) True by (auto simp: threads_ok_def shape_def)
    obtain pc row where s: "multiply_func p t (pcs t) c = Done (pc, c[t := row])" "length row = cols_c p"
      "thread_ok p t row pc" "steps_left p pc = steps_left p (pcs t) - 1"
      using multiply_step [OF Cons.prems(1) t(1-3)] by blast
    have "threads_ok p n (pcs(t := pc)) (c[t := row])"
      using Cons.prems(3) s t by (auto simp: threads_ok_def shape_upd nth_list_update)
    from Cons.IH [OF Cons.prems(1,2) this] obtain pcs' c' where
      r: "run_threads p k ts (pcs(t := pc)) (c[t := row]) = Done (pcs', c')" "threads_ok p n pcs' c'"
        "\<forall>u < k. steps_left p (pcs' u) = steps_left p ((pcs(t := pc)) u) - count_list ts u" by blast
    have "\<forall>u < k. steps_left p (pcs' u) = steps_left p (pcs u) - count_list (t # ts) u"
      using r(3) s(4) by auto
    then show ?thesis using r s(1) True by simp
  qed
qed

text \<open>The matrix that the program is to compute.\<close>

definition mat_mul :: "nat \<Rightarrow> nat \<Rightarrow> nat \<Rightarrow> int list list \<Rightarrow> int list list \<Rightarrow> int list list" where
  "mat_mul n m l a b = map (\<lambda>r. map (\<lambda>c. \<Sum>k<m. a ! r ! k * b ! k ! c) [0..<l]) [0..<n]"

lemma joined_product:
  assumes "threads_ok p n pcs c" "joined n pcs"
  shows "c = mat_mul n (cols_a p) (cols_c p) (mat_a p) (mat_b p)"
proof (rule nth_equalityI)
  show "length c = length (mat_mul n (cols_a p) (cols_c p) (mat_a p) (mat_b p))"
    using assms(1) by (simp add: threads_ok_def shape_def mat_mul_def)
  fix t
  assume "t < length c"
  then have t: "t < n" "length (c ! t) = cols_c p" "thread_ok p t (c ! t) T_done"
    using assms by (auto simp: threads_ok_def shape_def joined_def list_all_iff)
  then show "c ! t = mat_mul n (cols_a p) (cols_c p) (mat_a p) (mat_b p) ! t"
    by (intro nth_equalityI) (simp_all add: mat_mul_def dot_def)
qed

lemma start_threads_ok: "shape n (cols_c p) c \<Longrightarrow> threads_ok p n (\<lambda>t. T_next 0) c"
  by (simp add: threads_ok_def)

lemma alloc_three:
  assumes "2 * n + m + 3 \<le> mem"
  shows "\<exists>x y z. alloc_matrices rnd [(True, n, m), (True, m, l), (False, n, l)] mem 0 =
      ([x, y, z], mem - (2 * n + m + 3), True) \<and>
    shape n m (cells x) \<and> small_cells (cells x) \<and> shape m l (cells y) \<and> small_cells (cells y) \<and> shape n l (cells z)"
  using alloc_matrices_ok [of "[(True, n, m), (True, m, l), (False, n, l)]" mem rnd 0] assms
  by (auto simp: list_all2_Cons1 algebra_simps)

lemma freed_all:
  "alloc_matrices rnd ds mem 0 = (ms, mem', ok) \<Longrightarrow> free_matrices ms (mem - mem') = 0"
  using alloc_matrices_blocks [of rnd ds mem 0 ms mem' ok] by (simp add: free_matrices_blocks)

section \<open>The program\<close>

lemma matrix_start_runs:
  assumes d: "atoi a0 = int n" "atoi a1 = int m" "atoi a2 = int m" "atoi a3 = int l" "0 < n" "0 < m" "0 < l"
    and int: "25 * int m < 2 ^ 31" and mem: "2 * n + m + 4 \<le> memory w" and k: "k = (if creates w < n then creates w else n)"
  obtains a b pcs c where "shape n m a" "small_cells a" "shape m l b" "small_cells b"
    "threads_ok \<lparr>mat_a = a, mat_b = b, cols_a = m, cols_c = l\<rparr> n pcs c"
    "\<forall>t < k. steps_left \<lparr>mat_a = a, mat_b = b, cols_a = m, cols_c = l\<rparr> (pcs t) = l * (m + 2) + 1 - count_list (order w) t"
    "matrix_start w a0 a1 a2 a3 = Done (if \<not> joined k pcs then Waiting
       else if k < n then Returned (if k = 0 then 1 else 0) 0 []
       else Returned 0 0 [(CHR ''A'', a), (CHR ''B'', b), (CHR ''C'', c)])"
proof -
  obtain x y z where a: "alloc_matrices (rand_of w) [(True, n, m), (True, m, l), (False, n, l)] (memory w) 0 =
      ([x, y, z], memory w - (2 * n + m + 3), True)"
    "shape n m (cells x)" "small_cells (cells x)" "shape m l (cells y)" "small_cells (cells y)" "shape n l (cells z)"
    using alloc_three [of n m "memory w" "rand_of w" l] mem by auto
  define p where "p = \<lparr>mat_a = cells x, mat_b = cells y, cols_a = m, cols_c = l\<rparr>"
  have ok: "product_ok p n" "threads_ok p n (\<lambda>t. T_next 0) (cells z)"
    using a int by (simp_all add: p_def product_ok_def start_threads_ok)
  have kn: "k \<le> n" using k by simp
  have s0: "steps_left p (T_next 0) = l * (m + 2) + 1" by (simp add: p_def)
  obtain pcs c where r: "run_threads p k (order w) (\<lambda>t. T_next 0) (cells z) = Done (pcs, c)" "threads_ok p n pcs c"
    "\<forall>t < k. steps_left p (pcs t) = l * (m + 2) + 1 - count_list (order w) t"
    using run_threads_ok [OF ok(1) kn ok(2), of "order w"] unfolding s0 by blast
  have f: "free_matrices [x, y, z] (memory w - (memory w - (2 * n + m + 3))) = 0" by (rule freed_all [OF a(1)])
  have "memory w - (2 * n + m + 3) \<noteq> 0" using mem by simp
  then have "matrix_start w a0 a1 a2 a3 = Done (if \<not> joined k pcs then Waiting
       else if k < n then Returned (if k = 0 then 1 else 0) 0 []
       else Returned 0 0 [(CHR ''A'', mat_a p), (CHR ''B'', mat_b p), (CHR ''C'', c)])"
    using d r(1) f
    by (simp add: matrix_start_def Let_def a(1) p_def k [symmetric] del: alloc_matrices.simps free_matrices.simps)
  then show thesis using that [of "cells x" "cells y" pcs c] a(2-5) r(2,3) unfolding p_def by simp
qed

lemma steps_done: "steps_left p pc = 0 \<Longrightarrow> pc = T_done"
  by (cases pc) auto

text \<open>
  C14: for matching dimensions, at most 85899345 columns of the first matrix (so that no sum leaves
  an \<open>int\<close>), enough memory and threads, and in every order in which the threads
  run, the program either still waits for a thread or has displayed two matrices of digits below 6
  and their product, with nothing left allocated; and it no longer waits when every thread has been
  given \<open>l * (m + 2) + 1\<close> steps.
\<close>

theorem matrix_main_product:
  assumes "atoi a0 = int n" "atoi a1 = int m" "atoi a2 = int m" "atoi a3 = int l" "0 < n" "0 < m" "0 < l"
    and "25 * int m < 2 ^ 31" "2 * n + m + 4 \<le> memory w" "n \<le> creates w"
  shows "\<exists>a b. shape n m a \<and> small_cells a \<and> shape m l b \<and> small_cells b \<and>
    (let r = Returned 0 0 [(CHR ''A'', a), (CHR ''B'', b), (CHR ''C'', mat_mul n m l a b)] in
     matrix_main w [a0, a1, a2, a3] \<in> {Done Waiting, Done r} \<and>
     ((\<forall>t < n. l * (m + 2) + 1 \<le> count_list (order w) t) \<longrightarrow> matrix_main w [a0, a1, a2, a3] = Done r))"
proof -
  have n: "n = (if creates w < n then creates w else n)" using assms(10) by simp
  from matrix_start_runs [OF assms(1-9) n]
  obtain a b pcs c where r: "shape n m a" "small_cells a" "shape m l b" "small_cells b"
    "threads_ok \<lparr>mat_a = a, mat_b = b, cols_a = m, cols_c = l\<rparr> n pcs c"
    "\<forall>t < n. steps_left \<lparr>mat_a = a, mat_b = b, cols_a = m, cols_c = l\<rparr> (pcs t) = l * (m + 2) + 1 - count_list (order w) t"
    "matrix_start w a0 a1 a2 a3 = Done (if \<not> joined n pcs then Waiting
       else if n < n then Returned (if n = 0 then 1 else 0) 0 []
       else Returned 0 0 [(CHR ''A'', a), (CHR ''B'', b), (CHR ''C'', c)])" by metis
  have c: "joined n pcs \<Longrightarrow> c = mat_mul n m l a b" using joined_product [OF r(5)] by simp
  have "joined n pcs" if "\<forall>t < n. l * (m + 2) + 1 \<le> count_list (order w) t"
    using r(6) that steps_done unfolding joined_def list_all_iff by (metis atLeastLessThan_iff diff_is_0_eq set_upt)
  then show ?thesis using r(1-4,7) c by (intro exI [of _ a] exI [of _ b]) (auto simp: Let_def matrix_main_def)
qed

text \<open>
  On every path on which the program returns, also when \<open>calloc\<close> or \<open>pthread_create\<close> fails,
  everything that was allocated has been freed.
\<close>

lemma matrix_main_frees:
  assumes "matrix_main w args = Done (Returned ret live shown)"
  shows "live = 0"
proof -
  have "live = 0" if r: "matrix_start w a0 a1 a2 a3 = Done (Returned ret live shown)" for a0 a1 a2 a3
  proof -
    obtain ms mem' ok where a: "alloc_matrices (rand_of w) [(True, nat (atoi a0), nat (atoi a1)),
      (True, nat (atoi a2), nat (atoi a3)), (False, nat (atoi a0), nat (atoi a3))] (memory w) 0 = (ms, mem', ok)"
      by (metis prod_cases3)
    show ?thesis using r freed_all [OF a] unfolding matrix_start_def Let_def a
      by (auto split: if_splits prod.splits run.splits)
  qed
  then show ?thesis using assms by (auto simp: matrix_main_def split: list.splits)
qed

text \<open>
  when a thread cannot be created but earlier ones have been, \<open>EXIT_FAILURE\<close> is overwritten by
  the result of joining those: the program displays nothing and exits with success.
\<close>

theorem failed_create_exits_success:
  assumes "atoi a0 = int n" "atoi a1 = int m" "atoi a2 = int m" "atoi a3 = int l" "0 < n" "0 < m" "0 < l"
    and "25 * int m < 2 ^ 31" "2 * n + m + 4 \<le> memory w" "0 < creates w" "creates w < n"
    and "\<forall>t < creates w. l * (m + 2) + 1 \<le> count_list (order w) t"
  shows "matrix_main w [a0, a1, a2, a3] = Done (Returned 0 0 [])"
proof -
  have k: "creates w = (if creates w < n then creates w else n)" using assms(11) by simp
  from matrix_start_runs [OF assms(1-9) k]
  obtain a b pcs c where r: "\<forall>t < creates w. steps_left \<lparr>mat_a = a, mat_b = b, cols_a = m, cols_c = l\<rparr> (pcs t) =
      l * (m + 2) + 1 - count_list (order w) t"
    "matrix_start w a0 a1 a2 a3 = Done (if \<not> joined (creates w) pcs then Waiting
       else if creates w < n then Returned (if creates w = 0 then 1 else 0) 0 []
       else Returned 0 0 [(CHR ''A'', a), (CHR ''B'', b), (CHR ''C'', c)])" by metis
  have "joined (creates w) pcs"
    using r(1) assms(12) steps_done unfolding joined_def list_all_iff by (metis atLeastLessThan_iff diff_is_0_eq set_upt)
  then show ?thesis using r(2) assms(10,11) by (simp add: matrix_main_def)
qed

section \<open>Instances\<close>

definition small_machine :: "nat \<Rightarrow> machine" where
  "small_machine k = \<lparr>memory = 9, creates = k, rand_of = (\<lambda>i. i), order = replicate 4 0 @ replicate 4 1\<rparr>"

lemma atoi_examples: "atoi ''2'' = int 2" "atoi ''1'' = int 1"
  by (simp_all add: atoi_def strtol_def scan_num_def isspace_def isdigit_def strtol64_def dec_val_def digit_val_def
    int_of_long_def)

theorem matrix_main_product_witness:
  "\<exists>a b. shape 2 1 a \<and> small_cells a \<and> shape 1 1 b \<and> small_cells b \<and>
     matrix_main (small_machine 2) [''2'', ''1'', ''1'', ''1''] =
       Done (Returned 0 0 [(CHR ''A'', a), (CHR ''B'', b), (CHR ''C'', mat_mul 2 1 1 a b)])"
proof -
  have "\<forall>t < 2. 1 * (1 + 2) + 1 \<le> count_list (order (small_machine 2)) t"
    by (auto simp: small_machine_def eval_nat_numeral less_Suc_eq)
  then show ?thesis
    using matrix_main_product [OF atoi_examples(1,2,2,2), of "small_machine 2"]
    by (fastforce simp: small_machine_def Let_def)
qed

theorem failed_create_witness:
  "matrix_main (small_machine 1) [''2'', ''1'', ''1'', ''1''] = Done (Returned 0 0 [])"
  by (rule failed_create_exits_success [OF atoi_examples(1,2,2,2)]) (simp_all add: small_machine_def eval_nat_numeral)

theorem matrix_main_frees_witness:
  "\<exists>live. matrix_main ((small_machine 2)\<lparr>memory := 0\<rparr>) [''2'', ''1'', ''1'', ''1''] = Done (Returned 1 live []) \<and> live = 0"
proof -
  have "matrix_main ((small_machine 2)\<lparr>memory := 0\<rparr>) [''2'', ''1'', ''1'', ''1''] = Done (Returned 1 0 [])"
    by (simp add: matrix_main_def matrix_start_def atoi_examples small_machine_def alloc_matrix_def eval_nat_numeral)
  then show ?thesis using matrix_main_frees by blast
qed

end
