(* ===== verification/Counters.thy ===== *)
theory Counters
  imports Step_System
begin

text \<open>
  LAB_13/task_mutex_no_mutex: threads that add to one shared number, with and without a mutex. What
  a thread does is a list of instructions, each at most one access to the shared number; the
  programs differ in that list only.
\<close>

section \<open>Instructions\<close>

text \<open>
  \<open>Fetch\<close> and \<open>Bump\<close> are the two halves of \<open>(*tmp_ptr)++\<close>, \<open>Fetch\<close> and \<open>Merge\<close> those of
  \<open>*tmp_ptr += tmp\<close>; \<open>Load\<close> is \<open>tmp = *tmp_ptr\<close>, \<open>Inc\<close> is \<open>tmp++\<close> and \<open>Store\<close> is \<open>*tmp_ptr = tmp\<close>.
\<close>

datatype instr = Lock | Unlock | Fetch | Bump | Merge | Load | Inc | Store

definition repeat :: "nat \<Rightarrow> instr list \<Rightarrow> instr list" where
  "repeat n xs = concat (replicate n xs)"

text \<open>The functions \<open>thread_increment\<close> of the programs, with \<open>INCR_MAX\<close> as an argument.\<close>

definition coarse_grained :: "nat \<Rightarrow> instr list" where
  "coarse_grained incr_max = [Lock] @ repeat incr_max [Fetch, Bump] @ [Unlock]"

definition fine_grained :: "nat \<Rightarrow> instr list" where
  "fine_grained incr_max = repeat incr_max [Lock, Fetch, Bump, Unlock]"

definition local_accum :: "nat \<Rightarrow> instr list" where
  "local_accum incr_max = repeat incr_max [Inc] @ [Lock, Fetch, Merge, Unlock]"

definition partial_overwrite :: "nat \<Rightarrow> instr list" where
  "partial_overwrite incr_max = repeat incr_max [Load, Inc, Store]"

definition total_overwrite :: "nat \<Rightarrow> instr list" where
  "total_overwrite incr_max = [Load] @ repeat incr_max [Inc, Store]"

section \<open>Threads\<close>

text \<open>A thread: what it still has to do, its local \<open>tmp\<close> and what it has fetched.\<close>

record thread =
  todo :: "instr list"
  tmp :: int
  reg :: int

record counter =
  threads :: "nat \<Rightarrow> thread"
  mtx :: nat
  num :: int

fun exec_instr :: "instr \<Rightarrow> thread \<Rightarrow> nat \<Rightarrow> int \<Rightarrow> (thread \<times> nat \<times> int) option" where
  "exec_instr Lock t m a = (if m = 0 then None else Some (t, m - 1, a))"
| "exec_instr Unlock t m a = Some (t, m + 1, a)"
| "exec_instr Fetch t m a = Some (t\<lparr>reg := a\<rparr>, m, a)"
| "exec_instr Bump t m a = Some (t, m, reg t + 1)"
| "exec_instr Merge t m a = Some (t, m, reg t + tmp t)"
| "exec_instr Load t m a = Some (t\<lparr>tmp := a\<rparr>, m, a)"
| "exec_instr Inc t m a = Some (t\<lparr>tmp := tmp t + 1\<rparr>, m, a)"
| "exec_instr Store t m a = Some (t, m, tmp t)"

text \<open>\<open>main\<close> creates the threads with the address of the number, and joins them all.\<close>

inductive count_step :: "nat \<Rightarrow> counter \<Rightarrow> counter \<Rightarrow> bool" for thread_num where
  "i < thread_num \<Longrightarrow> todo (threads s i) = x # xs \<Longrightarrow> exec_instr x (threads s i) (mtx s) (num s) = Some (t, m, a) \<Longrightarrow>
   count_step thread_num s (s\<lparr>threads := (threads s)(i := t\<lparr>todo := xs\<rparr>), mtx := m, num := a\<rparr>)"

definition count_start :: "instr list \<Rightarrow> counter" where
  "count_start p = \<lparr>threads = (\<lambda>i. \<lparr>todo = p, tmp = 0, reg = 0\<rparr>), mtx = 1, num = 0\<rparr>"

definition all_joined :: "nat \<Rightarrow> counter \<Rightarrow> bool" where
  "all_joined thread_num s = list_all (\<lambda>i. todo (threads s i) = []) [0..<thread_num]"

section \<open>Programs that keep to the mutex\<close>

text \<open>\<open>locked h xs\<close>: the rest \<open>xs\<close> of a program, begun with the mutex held or not, keeps to it.\<close>

fun locked :: "bool \<Rightarrow> instr list \<Rightarrow> bool" where
  "locked h [] = (\<not> h)"
| "locked h (Lock # xs) = (\<not> h \<and> locked True xs)"
| "locked h (Unlock # xs) = (h \<and> locked False xs)"
| "locked h (Inc # xs) = locked h xs"
| "locked h (Fetch # x # xs) = (h \<and> (x = Bump \<or> x = Merge) \<and> locked True xs)"
| "locked h xs = False"

fun inside :: "instr list \<Rightarrow> bool" where
  "inside [] = False"
| "inside (Lock # xs) = False"
| "inside (Unlock # xs) = True"
| "inside (x # xs) = inside xs"

text \<open>What the rest of a program adds to the number.\<close>

fun gain :: "instr list \<Rightarrow> int \<Rightarrow> int" where
  "gain [] k = 0"
| "gain (Bump # xs) k = 1 + gain xs k"
| "gain (Merge # xs) k = k + gain xs k"
| "gain (Inc # xs) k = gain xs (k + 1)"
| "gain (x # xs) k = gain xs k"

definition shaped :: "instr list \<Rightarrow> bool" where
  "shaped xs = (case xs of [] \<Rightarrow> True
     | x # ys \<Rightarrow> if x = Bump \<or> x = Merge then locked True ys else locked (inside xs) xs)"

lemma locked_inside: "locked h xs \<Longrightarrow> inside xs = h"
proof (induction h xs rule: locked.induct)
  case (5 h x xs)
  then show ?case by (cases x) simp_all
qed simp_all

lemma locked_shaped: "locked h xs \<Longrightarrow> shaped xs"
  using locked_inside [of h xs] by (cases xs; cases "hd xs") (auto simp: shaped_def)

lemma shaped_simps [simp]:
  "shaped []" "shaped (Lock # xs) = locked True xs" "shaped (Unlock # xs) = locked False xs"
  "shaped (Bump # xs) = locked True xs" "shaped (Merge # xs) = locked True xs"
  "shaped (Inc # xs) = locked (inside xs) xs" "shaped (Load # xs) = False" "shaped (Store # xs) = False"
  by (simp_all add: shaped_def)

lemma shaped_Fetch:
  "shaped (Fetch # xs) \<longleftrightarrow> (\<exists>y ys. xs = y # ys \<and> (y = Bump \<or> y = Merge) \<and> locked True ys)"
proof (cases xs)
  case (Cons y ys)
  then show ?thesis using locked_inside [of True ys] by (cases y) (auto simp: shaped_def)
qed (simp add: shaped_def)

lemma shaped_tl: "shaped (x # xs) \<Longrightarrow> shaped xs"
  by (cases x) (auto simp: shaped_Fetch intro: locked_shaped)

lemma shaped_inside:
  assumes "shaped (x # xs)"
  shows "x = Lock \<Longrightarrow> inside xs" and "x = Unlock \<Longrightarrow> \<not> inside xs"
    and "x \<noteq> Lock \<Longrightarrow> x \<noteq> Unlock \<Longrightarrow> inside (x # xs) = inside xs"
    and "x = Bump \<or> x = Merge \<Longrightarrow> inside xs"
  using assms locked_inside [of True xs] locked_inside [of False xs] by (cases x; simp)+

text \<open>A thread between the two halves of an addition has fetched the number as it is.\<close>

definition fresh_reg :: "int \<Rightarrow> thread \<Rightarrow> bool" where
  "fresh_reg a t \<longleftrightarrow> (\<forall>x xs. todo t = x # xs \<and> (x = Bump \<or> x = Merge) \<longrightarrow> reg t = a)"

definition launched :: "instr list \<Rightarrow> counter \<Rightarrow> bool" where
  "launched p s \<longleftrightarrow> locked False p \<and> s = count_start p"

lemma shaped_reach: "reach (launched p) (count_step n) s \<Longrightarrow> shaped (todo (threads s i))"
proof (induction arbitrary: i rule: reach_invariant)
  case (start s)
  then show ?case using locked_shaped by (auto simp: launched_def count_start_def)
next
  case (step s t)
  from step.hyps(2) show ?case
  proof cases
    case (1 j x xs th m a)
    have "shaped xs" using step.IH [of j] 1(3) shaped_tl by metis
    then show ?thesis using 1 step.IH [of i] by (cases "i = j") simp_all
  qed
qed

fun count_holds :: "counter \<Rightarrow> nat \<Rightarrow> unit \<Rightarrow> bool" where
  "count_holds s i u = inside (todo (threads s i))"

definition count_free :: "counter \<Rightarrow> unit \<Rightarrow> nat" where
  "count_free s u = mtx s"

lemma count_discipline:
  assumes "reach (launched p) (count_step n) s" "count_step n s t"
  shows "count_free t = count_free s \<and> count_holds t = count_holds s \<or>
    (\<exists>i l. takes (count_free s) (count_holds s) i l (count_free t) (count_holds t)) \<or>
    (\<exists>i l. gives (count_free s) (count_holds s) i l (count_free t) (count_holds t))"
  using assms(2)
proof cases
  case (1 i x xs th m a)
  have sh: "shaped (x # xs)" using shaped_reach [OF assms(1), of i] 1(3) by simp
  note c = shaped_inside [OF sh]
  consider (lock) "x = Lock" | (unlock) "x = Unlock" | (other) "x \<noteq> Lock" "x \<noteq> Unlock" by blast
  then show ?thesis
  proof cases
    case lock
    then have "takes (count_free s) (count_holds s) i () (count_free t) (count_holds t)"
      using 1 c(1) by (auto simp: takes_def count_free_def fun_eq_iff split: if_splits)
    then show ?thesis by blast
  next
    case unlock
    then have "gives (count_free s) (count_holds s) i () (count_free t) (count_holds t)"
      using 1 c(2) by (auto simp: gives_def count_free_def fun_eq_iff)
    then show ?thesis by blast
  next
    case other
    then have "m = mtx s" using 1(4) by (cases x) auto
    then show ?thesis using 1 c(3) other by (auto simp: count_free_def fun_eq_iff)
  qed
qed

interpretation ct: lock_discipline "launched p" "count_step n" count_free count_holds for p n
proof unfold_locales
  show "launched p s \<Longrightarrow> count_free s l = 1" for s l by (simp add: launched_def count_start_def count_free_def)
  show "launched p s \<Longrightarrow> \<not> count_holds s i l" for s i l
    using locked_inside [of False p] by (simp add: launched_def count_start_def)
qed (rule count_discipline)

section \<open>The exact total\<close>

definition count_inv :: "nat \<Rightarrow> int \<Rightarrow> counter \<Rightarrow> bool" where
  "count_inv n tot s \<longleftrightarrow> (\<forall>i. fresh_reg (num s) (threads s i)) \<and>
     num s + (\<Sum>i<n. gain (todo (threads s i)) (tmp (threads s i))) = tot"

lemma shaped_second: "shaped (x # y # ys) \<Longrightarrow> y = Bump \<or> y = Merge \<Longrightarrow> x = Fetch"
  by (cases x) auto

lemma exec_gain:
  assumes "exec_instr x t m a = Some (t', m', a')" "shaped (x # xs)" "x = Bump \<or> x = Merge \<Longrightarrow> reg t = a"
  shows "a' + gain xs (tmp t') = a + gain (x # xs) (tmp t)"
  using assms by (cases x) (auto split: if_splits)

lemma exec_fresh:
  assumes "exec_instr x t m a = Some (t', m', a')" "shaped (x # xs)"
  shows "fresh_reg a' (t'\<lparr>todo := xs\<rparr>)"
  unfolding fresh_reg_def
proof (intro allI impI)
  fix y ys
  assume "todo (t'\<lparr>todo := xs\<rparr>) = y # ys \<and> (y = Bump \<or> y = Merge)"
  then have "x = Fetch" using assms(2) shaped_second by (cases xs) auto
  then show "reg (t'\<lparr>todo := xs\<rparr>) = a'" using assms(1) by auto
qed

lemma exec_same: "exec_instr x t m a = Some (t', m', a') \<Longrightarrow> shaped (x # xs) \<Longrightarrow> x \<noteq> Bump \<Longrightarrow> x \<noteq> Merge \<Longrightarrow> a' = a"
  by (cases x) (auto split: if_splits)

lemma count_inv_step:
  assumes r: "reach (launched p) (count_step n) s" and inv: "count_inv n tot s" and "count_step n s u"
  shows "count_inv n tot u"
  using assms(3)
proof cases
  case (1 i x xs t m a)
  note sh = shaped_reach [OF r]
  have x: "shaped (x # xs)" using sh [of i] 1(3) by simp
  have fr: "fresh_reg (num s) (threads s k)" for k using inv by (simp add: count_inv_def)
  have reg: "x = Bump \<or> x = Merge \<Longrightarrow> reg (threads s i) = num s"
    using fr [of i] 1(3) by (auto simp: fresh_reg_def)
  have others: "fresh_reg a (threads s k)" if k: "k \<noteq> i" for k
  proof (cases "x = Bump \<or> x = Merge")
    case True
    then have "inside (todo (threads s i))" using shaped_inside(3,4) [OF x] 1(3) by auto
    then have "\<not> inside (todo (threads s k))" using ct.mutual_exclusion [OF r, of i "()" k] k by auto
    moreover have "inside (todo (threads s k))" if "todo (threads s k) = y # ys" "y = Bump \<or> y = Merge" for y ys
      using shaped_inside(3,4) [of y ys] sh [of k] that by auto
    ultimately show ?thesis by (auto simp: fresh_reg_def)
  next
    case False
    then show ?thesis using exec_same [OF 1(4) x] fr by simp
  qed
  let ?g = "\<lambda>k. gain (todo (threads s k)) (tmp (threads s k))"
  have "(\<lambda>k. gain (todo (threads u k)) (tmp (threads u k))) = ?g(i := gain xs (tmp t))"
    using 1(1) by (auto simp: fun_eq_iff)
  then have "(\<Sum>k<n. gain (todo (threads u k)) (tmp (threads u k))) = (\<Sum>k<n. ?g k) + (gain xs (tmp t) - ?g i)"
    by (simp only: sum_upd [OF 1(2)])
  moreover have "a + gain xs (tmp t) = num s + ?g i" using exec_gain [OF 1(4) x reg] 1(3) by simp
  ultimately have "num u + (\<Sum>k<n. gain (todo (threads u k)) (tmp (threads u k))) = tot"
    using inv 1(1) by (simp add: count_inv_def)
  moreover have "fresh_reg (num u) (threads u k)" for k
    using 1(1) others exec_fresh [OF 1(4) x] by (cases "k = i") simp_all
  ultimately show ?thesis by (simp add: count_inv_def)
qed

lemma count_inv_reach: "reach (launched p) (count_step n) s \<Longrightarrow> count_inv n (int n * gain p 0) s"
proof (induction rule: reach_invariant)
  case (start s)
  have "\<not> (\<exists>x xs. p = x # xs \<and> (x = Bump \<or> x = Merge))" if "locked False p" using that by auto
  then show ?case using start by (auto simp: launched_def count_inv_def count_start_def fresh_reg_def)
next
  case (step s t)
  show ?case by (rule count_inv_step [OF step.hyps(1) step.IH step.hyps(2)])
qed

lemma idle_threads: "reach (launched p) (count_step n) s \<Longrightarrow> n \<le> i \<Longrightarrow> todo (threads s i) = p \<and> locked False p"
proof (induction rule: reach_invariant)
  case (start s)
  then show ?case by (simp add: launched_def count_start_def)
next
  case (step s t)
  from step.hyps(2) show ?case using step.IH step.prems by cases auto
qed

lemma exec_moves: "0 < m \<or> x \<noteq> Lock \<Longrightarrow> \<exists>r. exec_instr x t m a = Some r"
  by (cases x) auto

lemma count_moves:
  assumes "i < n" "todo (threads s i) = x # xs" "0 < mtx s \<or> x \<noteq> Lock"
  shows "\<exists>t. count_step n s t"
proof -
  obtain t m a where "exec_instr x (threads s i) (mtx s) (num s) = Some (t, m, a)"
    using exec_moves [OF assms(3), of "threads s i" "num s"] by auto
  then show ?thesis using count_step.intros [OF assms(1,2)] by blast
qed

lemma inside_Cons: "inside xs \<Longrightarrow> \<exists>x ys. xs = x # ys \<and> x \<noteq> Lock"
  by (cases xs rule: inside.cases) auto

lemma count_progress:
  assumes "reach (launched p) (count_step n) s"
  shows "all_joined n s \<or> (\<exists>t. count_step n s t)"
proof (cases "mtx s = 0")
  case True
  then obtain k where k: "inside (todo (threads s k))"
    using ct.taken_is_held [OF assms, of "()"] by (auto simp: count_free_def)
  have "k < n"
  proof (rule ccontr)
    assume "\<not> k < n"
    then show False using idle_threads [OF assms, of k] locked_inside [of False p] k by simp
  qed
  moreover obtain x xs where "todo (threads s k) = x # xs" "x \<noteq> Lock"
    using inside_Cons [OF k] by blast
  ultimately show ?thesis using count_moves by blast
next
  case False
  show ?thesis
  proof (cases "all_joined n s")
    case j: False
    then obtain i where "i < n" "todo (threads s i) \<noteq> []" by (auto simp: all_joined_def list_all_iff)
    then show ?thesis using False count_moves [of i n s] by (cases "todo (threads s i)") auto
  qed simp
qed

lemma count_length:
  assumes "count_step n s t"
  shows "(\<Sum>i<n. int (length (todo (threads t i)))) < (\<Sum>i<n. int (length (todo (threads s i))))"
  using assms
proof cases
  case (1 i x xs th m a)
  have "(\<lambda>k. int (length (todo (threads t k)))) = (\<lambda>k. int (length (todo (threads s k))))(i := int (length xs))"
    using 1(1) by (auto simp: fun_eq_iff)
  then show ?thesis using 1(3) by (simp only: sum_upd [OF 1(2)]) simp
qed

lemma count_completes:
  assumes "reach (launched p) (count_step n) s"
  shows "\<exists>t. (count_step n)\<^sup>*\<^sup>* s t \<and> reach (launched p) (count_step n) t \<and> all_joined n t"
  using assms
proof (induction "nat (\<Sum>i<n. int (length (todo (threads s i))))" arbitrary: s rule: less_induct)
  case less
  consider "all_joined n s" | t where "count_step n s t" using count_progress [OF less.prems] by blast
  then show ?case
  proof cases
    case 2
    have "0 \<le> (\<Sum>i<n. int (length (todo (threads t i))))" by (simp add: sum_nonneg)
    then have "nat (\<Sum>i<n. int (length (todo (threads t i)))) < nat (\<Sum>i<n. int (length (todo (threads s i))))"
      using count_length [OF 2] by simp
    from less.hyps [OF this reach_step [OF less.prems 2]] 2 show ?thesis
      by (blast intro: converse_rtranclp_into_rtranclp)
  qed (use less.prems in blast)
qed

section \<open>The programs with a mutex\<close>

lemma repeat_simps [simp]: "repeat 0 xs = []" "repeat (Suc n) xs = xs @ repeat n xs"
  by (simp_all add: repeat_def)

lemma coarse_ok: "locked True (repeat m [Fetch, Bump] @ [Unlock]) \<and> gain (repeat m [Fetch, Bump] @ [Unlock]) 0 = int m"
  by (induction m) simp_all

lemma fine_ok: "locked False (repeat m [Lock, Fetch, Bump, Unlock]) \<and> gain (repeat m [Lock, Fetch, Bump, Unlock]) 0 = int m"
  by (induction m) simp_all

lemma accum_ok: "locked False (repeat m [Inc] @ [Lock, Fetch, Merge, Unlock]) \<and>
    gain (repeat m [Inc] @ [Lock, Fetch, Merge, Unlock]) k = k + int m"
  by (induction m arbitrary: k) simp_all

lemma mutex_programs:
  assumes "p \<in> {coarse_grained m, fine_grained m, local_accum m}"
  shows "locked False p \<and> gain p 0 = int m"
  using assms coarse_ok [of m] fine_ok [of m] accum_ok [of m 0]
  by (auto simp: coarse_grained_def fine_grained_def local_accum_def)

text \<open>
  C15: with the mutex, locked once, locked for each increment or locked to add a local sum, the
  result is the number of threads times the number of increments, in every order in which the
  threads run; and from every reachable state the threads can run to their end.
\<close>

theorem mutex_counter_exact:
  assumes "p \<in> {coarse_grained m, fine_grained m, local_accum m}"
    and "reach (\<lambda>s. s = count_start p) (count_step n) s"
  shows "(all_joined n s \<longrightarrow> num s = int n * int m) \<and>
    (\<exists>t. (count_step n)\<^sup>*\<^sup>* s t \<and> all_joined n t)"
proof -
  note p = mutex_programs [OF assms(1)]
  have "launched p = (\<lambda>s. s = count_start p)" using p by (auto simp: launched_def fun_eq_iff)
  then have r: "reach (launched p) (count_step n) s" using assms(2) by simp
  have "num s = int n * int m" if "all_joined n s"
    using count_inv_reach [OF r] that p by (simp add: count_inv_def all_joined_def list_all_iff)
  then show ?thesis using count_completes [OF r] by blast
qed

section \<open>The programs without a mutex\<close>

text \<open>Two threads of a program, the others not started.\<close>

definition duo :: "instr list \<Rightarrow> instr list \<Rightarrow> instr list \<Rightarrow> int \<Rightarrow> int \<Rightarrow> int \<Rightarrow> counter" where
  "duo p xs ys k l a = \<lparr>threads = (\<lambda>i. if i = 0 then \<lparr>todo = xs, tmp = k, reg = 0\<rparr>
     else if i = 1 then \<lparr>todo = ys, tmp = l, reg = 0\<rparr> else \<lparr>todo = p, tmp = 0, reg = 0\<rparr>), mtx = 1, num = a\<rparr>"

lemma duo_start: "duo p p p 0 0 0 = count_start p"
  by (simp add: duo_def count_start_def fun_eq_iff)

lemma duo_0:
  assumes "exec_instr x \<lparr>todo = x # xs, tmp = k, reg = 0\<rparr> 1 a = Some (\<lparr>todo = x # xs, tmp = k', reg = 0\<rparr>, 1, a')"
  shows "count_step 2 (duo p (x # xs) ys k l a) (duo p xs ys k' l a')"
  using count_step.intros [of 0 2 "duo p (x # xs) ys k l a" x xs "\<lparr>todo = x # xs, tmp = k', reg = 0\<rparr>" 1 a'] assms
  by (simp add: duo_def fun_upd_def cong: if_cong)

lemma duo_1:
  assumes "exec_instr x \<lparr>todo = x # ys, tmp = l, reg = 0\<rparr> 1 a = Some (\<lparr>todo = x # ys, tmp = l', reg = 0\<rparr>, 1, a')"
  shows "count_step 2 (duo p xs (x # ys) k l a) (duo p xs ys k l' a')"
proof -
  let ?t = "\<lparr>todo = x # ys, tmp = l', reg = 0\<rparr>"
  have "count_step 2 (duo p xs (x # ys) k l a)
    ((duo p xs (x # ys) k l a)\<lparr>threads := (threads (duo p xs (x # ys) k l a))(1 := ?t\<lparr>todo := ys\<rparr>), mtx := 1, num := a'\<rparr>)"
    using assms by (intro count_step.intros) (simp_all add: duo_def)
  also have "\<dots> = duo p xs ys k l' a'" by (simp add: duo_def fun_eq_iff)
  finally show ?thesis .
qed

lemma lose_round:
  "(count_step 2)\<^sup>*\<^sup>* (duo p ([Load, Inc, Store] @ xs) ([Load, Inc, Store] @ ys) k l a) (duo p xs ys (a + 1) (a + 1) (a + 1))"
proof -
  have "count_step 2 (duo p ([Load, Inc, Store] @ xs) ([Load, Inc, Store] @ ys) k l a)
      (duo p ([Inc, Store] @ xs) ([Load, Inc, Store] @ ys) a l a)" by (simp add: duo_0)
  moreover have "count_step 2 (duo p ([Inc, Store] @ xs) ([Load, Inc, Store] @ ys) a l a)
      (duo p ([Inc, Store] @ xs) ([Inc, Store] @ ys) a a a)" by (simp add: duo_1)
  moreover have "count_step 2 (duo p ([Inc, Store] @ xs) ([Inc, Store] @ ys) a a a)
      (duo p ([Store] @ xs) ([Inc, Store] @ ys) (a + 1) a a)" by (simp add: duo_0)
  moreover have "count_step 2 (duo p ([Store] @ xs) ([Inc, Store] @ ys) (a + 1) a a)
      (duo p ([Store] @ xs) ([Store] @ ys) (a + 1) (a + 1) a)" by (simp add: duo_1)
  moreover have "count_step 2 (duo p ([Store] @ xs) ([Store] @ ys) (a + 1) (a + 1) a)
      (duo p xs ([Store] @ ys) (a + 1) (a + 1) (a + 1))" by (simp add: duo_0)
  moreover have "count_step 2 (duo p xs ([Store] @ ys) (a + 1) (a + 1) (a + 1))
      (duo p xs ys (a + 1) (a + 1) (a + 1))" by (simp add: duo_1)
  ultimately show ?thesis by (meson converse_rtranclp_into_rtranclp rtranclp.rtrancl_refl)
qed

lemma lose_rounds:
  "\<exists>k' l'. (count_step 2)\<^sup>*\<^sup>* (duo p (repeat m [Load, Inc, Store]) (repeat m [Load, Inc, Store]) k l a) (duo p [] [] k' l' (a + int m))"
proof (induction m arbitrary: k l a)
  case 0
  then show ?case by auto
next
  case (Suc m)
  from Suc [of "a + 1" "a + 1" "a + 1"] obtain k' l' where
    "(count_step 2)\<^sup>*\<^sup>* (duo p (repeat m [Load, Inc, Store]) (repeat m [Load, Inc, Store]) (a + 1) (a + 1) (a + 1)) (duo p [] [] k' l' (a + 1 + int m))" by blast
  with lose_round [of p "repeat m [Load, Inc, Store]" "repeat m [Load, Inc, Store]" k l a] show ?case
    by (intro exI [of _ k'] exI [of _ l']) (simp add: add.assoc)
qed

lemma own_rounds_0:
  "(count_step 2)\<^sup>*\<^sup>* (duo p (repeat m [Inc, Store]) ys k l k) (duo p [] ys (k + int m) l (k + int m))"
proof (induction m arbitrary: k)
  case (Suc m)
  have "count_step 2 (duo p ([Inc, Store] @ repeat m [Inc, Store]) ys k l k) (duo p ([Store] @ repeat m [Inc, Store]) ys (k + 1) l k)"
    "count_step 2 (duo p ([Store] @ repeat m [Inc, Store]) ys (k + 1) l k) (duo p (repeat m [Inc, Store]) ys (k + 1) l (k + 1))"
    by (simp_all add: duo_0)
  with Suc [of "k + 1"] show ?case by (simp add: add.assoc)
qed simp

lemma own_rounds_1:
  "(count_step 2)\<^sup>*\<^sup>* (duo p xs (repeat m [Inc, Store]) k l a) (duo p xs [] k (l + int m) (if m = 0 then a else l + int m))"
proof (induction m arbitrary: l a)
  case (Suc m)
  have 1: "count_step 2 (duo p xs ([Inc, Store] @ repeat m [Inc, Store]) k l a) (duo p xs ([Store] @ repeat m [Inc, Store]) k (l + 1) a)"
    and 2: "count_step 2 (duo p xs ([Store] @ repeat m [Inc, Store]) k (l + 1) a) (duo p xs (repeat m [Inc, Store]) k (l + 1) (l + 1))"
    by (simp_all add: duo_1)
  have "(if m = 0 then l + 1 else l + 1 + int m) = l + int (Suc m)" "l + 1 + int m = l + int (Suc m)" by simp_all
  then show ?case
    using converse_rtranclp_into_rtranclp [OF 1 converse_rtranclp_into_rtranclp [OF 2 Suc [of "l + 1" "l + 1"]]] by (simp add: add.assoc)
qed simp

lemma reach_star: "step\<^sup>*\<^sup>* s t \<Longrightarrow> reach start step s \<Longrightarrow> reach start step t"
  by (induction rule: rtranclp_induct) (auto intro: reach_step)

lemma duo_joined: "all_joined 2 (duo p [] [] k l a)"
  by (simp add: all_joined_def duo_def list_all_iff)

text \<open>
  without the mutex, whether each thread loads the number for every increment or once at the
  start, two threads can end with the increments of one of them only.
\<close>

theorem unprotected_counter_loses:
  assumes "p \<in> {partial_overwrite m, total_overwrite m}" "0 < m"
  shows "\<exists>s. reach (\<lambda>s. s = count_start p) (count_step 2) s \<and> all_joined 2 s \<and> num s = int m"
proof -
  have "\<exists>k l. (count_step 2)\<^sup>*\<^sup>* (duo p p p 0 0 0) (duo p [] [] k l (int m))"
  proof (cases "p = partial_overwrite m")
    case True
    then show ?thesis using lose_rounds [of p m 0 0 0] by (simp add: partial_overwrite_def)
  next
    case False
    then have p: "p = Load # repeat m [Inc, Store]" using assms(1) by (simp add: total_overwrite_def)
    let ?r = "repeat m [Inc, Store]"
    have "(count_step 2)\<^sup>*\<^sup>* (duo p (Load # ?r) (Load # ?r) 0 0 0) (duo p ?r ?r 0 0 0)"
      using duo_0 [of Load ?r 0 0 0 0 p "Load # ?r" 0] duo_1 [of Load ?r 0 0 0 0 p ?r 0] by simp
    also have "(count_step 2)\<^sup>*\<^sup>* (duo p ?r ?r 0 0 0) (duo p [] ?r (int m) 0 (int m))"
      using own_rounds_0 [of p m ?r 0 0] by simp
    also have "(count_step 2)\<^sup>*\<^sup>* (duo p [] ?r (int m) 0 (int m)) (duo p [] [] (int m) (int m) (int m))"
      using own_rounds_1 [of p "[]" m "int m" 0 "int m"] assms(2) by simp
    finally show ?thesis using p by auto
  qed
  then obtain k l where "(count_step 2)\<^sup>*\<^sup>* (count_start p) (duo p [] [] k l (int m))" by (auto simp: duo_start)
  then have "reach (\<lambda>s. s = count_start p) (count_step 2) (duo p [] [] k l (int m))"
    by (rule reach_star) (simp add: reach_start)
  then show ?thesis using duo_joined by (intro exI conjI) (assumption, simp_all add: duo_def all_joined_def list_all_iff)
qed

section \<open>Instances\<close>

theorem mutex_counter_witness:
  "\<exists>t. (count_step 2)\<^sup>*\<^sup>* (count_start (fine_grained 3)) t \<and> all_joined 2 t \<and> num t = 6"
proof -
  let ?p = "fine_grained 3"
  let ?start = "\<lambda>s. s = count_start ?p"
  have s: "reach ?start (count_step 2) (count_start ?p)" by (simp add: reach_start)
  obtain t where t: "(count_step 2)\<^sup>*\<^sup>* (count_start ?p) t" "all_joined 2 t"
    using mutex_counter_exact [of ?p 3, OF _ s] by blast
  then show ?thesis using mutex_counter_exact [of ?p 3, OF _ reach_star [OF t(1) s]] by auto
qed

theorem unprotected_counter_witness:
  "\<exists>s. reach (\<lambda>s. s = count_start (partial_overwrite 100)) (count_step 2) s \<and> all_joined 2 s \<and> num s = int 100"
  by (rule unprotected_counter_loses) simp_all

end
