(* ===== verification/Get_Line.thy ===== *)
theory Get_Line
  imports Lab_Prelude
begin

text \<open>
  LAB_10/task_get_line: read a line, write it to a file, read it back and print it from the end,
  with the functions of \<open>stdio\<close> (\<open>fopen.c\<close>) or with system calls (\<open>open.c\<close>).
\<close>

abbreviation LINE_ERR :: int where "LINE_ERR \<equiv> -1"
abbreviation LINE_OK :: int where "LINE_OK \<equiv> 0"

section \<open>get\_line.c\<close>

text \<open>
  \<open>err\<close> says whether the input ends with a read error instead of the end of the file. A result
  \<open>NULL\<close> of \<open>fgets\<close> without an error leaves the buffer as it was, empty or with a newline only,
  and the loop goes on for ever. A line that the error cuts short is a result \<open>NULL\<close> too.
\<close>

function get_line :: "nat \<Rightarrow> bool \<Rightarrow> string \<Rightarrow> (int \<times> string \<times> string) run" where
  "get_line bufsize err inp =
     (if bufsize < 2 then Done (LINE_ERR, [], inp)
      else case fgets bufsize inp of
        None \<Rightarrow> if err then Done (LINE_ERR, [], []) else Diverge
      | Some (l, r) \<Rightarrow>
          let buf = cstr l in
          if err \<and> r = [] \<and> length l < bufsize - 1 \<and> last l \<noteq> NL then Done (LINE_ERR, [], [])
          else if buf = [] \<or> hd buf = NL then get_line bufsize err r
          else Done (LINE_OK, takeWhile (\<lambda>c. c \<noteq> NL) buf, r))"
  by pat_completeness auto
termination by (relation "measure (\<lambda>(n, e, i). length i)") (auto dest!: fgets_shorter)

declare get_line.simps [simp del]

section \<open>fopen.c and open.c\<close>

text \<open>
  The answers of the system: whether the file can be opened, how many bytes a write takes (\<open>None\<close>
  is an error), whether \<open>fsync\<close> succeeds.
\<close>

record file_sys =
  can_open :: bool
  can_write :: "nat option"
  can_sync :: bool

text \<open>Reading \<open>n\<close> bytes of a regular file at an offset moves the offset.\<close>

definition read_at :: "bytes \<Rightarrow> nat \<Rightarrow> nat \<Rightarrow> bytes \<times> nat" where
  "read_at content n off = (let bs = take n (drop off content) in (bs, off + length bs))"

text \<open>The loop that prints the buffer from \<open>buf[i]\<close> down to \<open>buf[0]\<close>.\<close>

fun print_back :: "bytes \<Rightarrow> nat \<Rightarrow> bytes" where
  "print_back buf 0 = [buf ! 0]"
| "print_back buf (Suc i) = buf ! Suc i # print_back buf i"

abbreviation BUF_LINE :: nat where "BUF_LINE \<equiv> 256"

definition refill_buf :: "bytes \<Rightarrow> bytes" where
  "refill_buf bs = bs @ zeros (BUF_LINE - length bs)"

definition reversed_text :: "bytes \<Rightarrow> bytes" where
  "reversed_text buf = ''reversed string: '' @ print_back buf (length (cstr buf)) @ [NL]"

definition fopen_mode :: "file_sys \<Rightarrow> bool \<Rightarrow> string \<Rightarrow> (int \<times> bytes) run" where
  "fopen_mode sys err inp =
     bind_run (get_line BUF_LINE err inp) (\<lambda>(status, buf, rest).
       if status = LINE_ERR then Done (status, [])
       else if \<not> can_open sys then Done (LINE_ERR, [])
       else if can_write sys \<noteq> Some (length buf + 1) then Done (LINE_ERR, [])
       else if \<not> can_sync sys then Done (LINE_ERR, [])
       else
         let (bs, off) = read_at (buf @ [NUL]) (length buf + 1) 0 in
         if length bs < 1 then Done (LINE_ERR, [])
         else Done (status, reversed_text (refill_buf bs)))"

text \<open>\<open>open_mode\<close> calls \<open>read\<close> twice; the second result is the one it tests.\<close>

definition open_mode :: "file_sys \<Rightarrow> bool \<Rightarrow> string \<Rightarrow> (int \<times> bytes) run" where
  "open_mode sys err inp =
     bind_run (get_line BUF_LINE err inp) (\<lambda>(status, buf, rest).
       if status = LINE_ERR then Done (status, [])
       else if \<not> can_open sys then Done (LINE_ERR, [])
       else case can_write sys of
         None \<Rightarrow> Done (LINE_ERR, [])
       | Some nbytes \<Rightarrow>
           if \<not> can_sync sys then Done (LINE_ERR, [])
           else
             let content = take nbytes (buf @ [NUL]);
                 (bs, off) = read_at content nbytes 0;
                 (bs2, off2) = read_at content nbytes off
             in if bs2 = [] then Done (LINE_ERR, [])
                else Done (LINE_OK, reversed_text (refill_buf (bs2 @ drop (length bs2) bs))))"

section \<open>main.c\<close>

text \<open>
  \<open>getopt_long\<close> for "fo" and the long options \<open>--fopen\<close> and \<open>--open\<close>, which may be shortened to
  any prefix that fits one name only: the letters it returns, \<open>?\<close> for an unknown option.
\<close>

definition is_prefix_of :: "string \<Rightarrow> string \<Rightarrow> bool" where
  "is_prefix_of s t = (take (length s) t = s)"

definition long_option :: "string \<Rightarrow> char" where
  "long_option s =
     (if is_prefix_of s ''fopen'' then CHR ''f''
      else if is_prefix_of s ''open'' then CHR ''o'' else CHR ''?'')"

fun options_long :: "string list \<Rightarrow> char list" where
  "options_long [] = []"
| "options_long (w # ws) =
     (if w = ''--'' then []
      else if take 2 w = ''--'' then long_option (drop 2 w) # options_long ws
      else if 1 < length w \<and> hd w = CHR ''-''
      then map (\<lambda>c. if c = CHR ''f'' \<or> c = CHR ''o'' then c else CHR ''?'') (tl w) @ options_long ws
      else options_long ws)"

fun select_mode :: "char list \<Rightarrow> char option \<Rightarrow> char option option" where
  "select_mode [] mode = Some mode"
| "select_mode (c # cs) mode =
     (if c = CHR ''f'' \<or> c = CHR ''o'' then select_mode cs (Some c)
      else if c = CHR ''?'' then None else select_mode cs mode)"

definition print_main :: "file_sys \<Rightarrow> bool \<Rightarrow> string list \<Rightarrow> string \<Rightarrow> (int \<times> bytes) run" where
  "print_main sys err args inp =
     (case select_mode (options_long args) None of
        None \<Rightarrow> Done (LINE_ERR, [])
      | Some mode \<Rightarrow> if mode = Some (CHR ''o'') then open_mode sys err inp else fopen_mode sys err inp)"

section \<open>What is read\<close>

text \<open>Lines with nothing before their newline are skipped.\<close>

lemma get_line_blank: "2 \<le> n \<Longrightarrow> get_line n err (NL # r) = get_line n err r"
  by (subst get_line.simps, cases "n - 1") (auto simp: fgets_def cstr_def)

lemma get_line_blanks: "2 \<le> n \<Longrightarrow> get_line n err (replicate k NL @ r) = get_line n err r"
  by (induction k) (simp_all add: get_line_blank)

lemma fgets_upto_short: "length s < k \<Longrightarrow> NL \<notin> set s \<Longrightarrow> fgets_upto k (s @ NL # r) = (s @ [NL], r)"
  by (rule fgets_upto_line)

lemma fgets_upto_long: "k \<le> length s \<Longrightarrow> NL \<notin> set s \<Longrightarrow> fgets_upto k (s @ r) = (take k s, drop k s @ r)"
proof (induction k arbitrary: s)
  case (Suc k)
  then show ?case by (cases s) auto
qed simp

text \<open>
  \<open>get_line\<close> skips empty lines and returns the first other line without its newline, cut to what
  the buffer holds; the rest of a line that is too long is left for the next call.
\<close>

lemma get_line_first:
  assumes "2 \<le> n" "s \<noteq> []" "NL \<notin> set s" "NUL \<notin> set s"
  shows "get_line n err (replicate k NL @ s @ NL # r) =
    Done (LINE_OK, take (n - 1) s, if length s + 1 < n then r else drop (n - 1) s @ NL # r)"
proof -
  have l: "fgets n (s @ NL # r) = Some (if length s + 1 < n then (s @ [NL], r) else (take (n - 1) s, drop (n - 1) s @ NL # r))"
    using assms fgets_upto_short [of s "n - 1" r] fgets_upto_long [of "n - 1" s "NL # r"] by (auto simp: fgets_def)
  have t: "takeWhile (\<lambda>c. c \<noteq> x) s = s" "cstr s = s" if "x \<notin> set s" for x
    using that assms(4) by (auto simp: takeWhile_eq_all_conv cstr_def)
  have c: "cstr (s @ [NL]) = s @ [NL]" "cstr (take (n - 1) s) = take (n - 1) s"
    using assms(3,4) by (auto simp: cstr_def takeWhile_eq_all_conv dest: in_set_takeD)
  have h: "hd (s @ [NL]) \<noteq> NL" "take (n - 1) s \<noteq> []" "hd (take (n - 1) s) \<noteq> NL"
    using assms by (cases s; cases "n - 1"; auto)+
  have "takeWhile (\<lambda>c. c \<noteq> NL) (s @ [NL]) = s" using assms(3) by (induction s) auto
  moreover have "takeWhile (\<lambda>c. c \<noteq> NL) (take (n - 1) s) = take (n - 1) s"
    using assms(3) by (auto simp: takeWhile_eq_all_conv dest: in_set_takeD)
  ultimately have w: "takeWhile (\<lambda>c. c \<noteq> NL) (s @ [NL]) = s"
    "takeWhile (\<lambda>c. c \<noteq> NL) (take (n - 1) s) = take (n - 1) s" by blast+
  have "get_line n err (s @ NL # r) =
    Done (LINE_OK, take (n - 1) s, if length s + 1 < n then r else drop (n - 1) s @ NL # r)"
    using assms(1) l c h w by (subst get_line.simps) (simp split: if_splits)
  then show ?thesis using get_line_blanks [OF assms(1), of err k] by simp
qed

text \<open>At the end of the input, without a read error, \<open>get_line\<close> never returns.\<close>

lemma get_line_diverges: "2 \<le> n \<Longrightarrow> get_line n False (replicate k NL) = Diverge"
  using get_line_blanks [of n False k "[]"] by (simp add: get_line.simps [of n False "[]"] fgets_def)

section \<open>What is printed\<close>

lemma print_back_rev: "i < length b \<Longrightarrow> print_back b i = rev (take (Suc i) b)"
  by (induction i) (simp_all add: take_Suc_conv_app_nth)

lemma fopen_mode_reverses:
  assumes "s \<noteq> []" "NL \<notin> set s" "NUL \<notin> set s" "length s < 255"
    and "can_open sys" "can_write sys = Some (length s + 1)" "can_sync sys"
  shows "fopen_mode sys err (replicate k NL @ s @ NL # r) =
    Done (LINE_OK, ''reversed string: '' @ NUL # rev s @ [NL])"
proof -
  have g: "get_line BUF_LINE err (replicate k NL @ s @ NL # r) = Done (LINE_OK, s, r)"
    using get_line_first [of BUF_LINE s err k r] assms(1-4) by simp
  have c: "cstr (refill_buf (s @ [NUL])) = s" using assms(3) by (simp add: refill_buf_def cstr_append_NUL)
  have "print_back (refill_buf (s @ [NUL])) (length s) = rev (s @ [NUL])"
    by (subst print_back_rev) (simp_all add: refill_buf_def)
  then show ?thesis using g c assms(5-) by (simp add: fopen_mode_def read_at_def reversed_text_def)
qed

text \<open>
  with system calls, the program never prints the line: it reads the file twice, and the second
  call is at the end of the file, so that every run that ends fails.
\<close>

theorem open_mode_fails:
  assumes "open_mode sys err inp = Done (st, out)"
  shows "st = LINE_ERR \<and> out = []"
proof -
  have "read_at (take n b) n (snd (read_at (take n b) n 0)) = ([], length (take n b))" for n and b :: bytes
    by (simp add: read_at_def)
  then show ?thesis using assms
    by (auto simp: open_mode_def read_at_def Let_def split: if_splits option.splits prod.splits)
qed

lemma options_long_letters: "set (options_long args) \<subseteq> {CHR ''f'', CHR ''o'', CHR ''?''}"
  by (induction args) (auto simp: long_option_def)

lemma select_last:
  "set cs \<subseteq> {CHR ''f'', CHR ''o''} \<Longrightarrow> select_mode cs m = (if cs = [] then Some m else Some (Some (last cs)))"
  by (induction cs arbitrary: m) auto

text \<open>
  when the options hold no unknown one and the last of them, if there is one, is \<open>-f\<close> or
  \<open>--fopen\<close>, the program prints the first line of the input that is not empty from its end to its
  start, behind the NUL that ends it in the buffer, and reports success.
\<close>

theorem print_main_reverses:
  assumes "CHR ''?'' \<notin> set (options_long args)"
    and "options_long args = [] \<or> last (options_long args) = CHR ''f''"
    and "s \<noteq> []" "NL \<notin> set s" "NUL \<notin> set s" "length s < 255"
    and "can_open sys" "can_write sys = Some (length s + 1)" "can_sync sys"
  shows "print_main sys err args (replicate k NL @ s @ NL # r) =
    Done (LINE_OK, ''reversed string: '' @ NUL # rev s @ [NL])"
proof -
  have "set (options_long args) \<subseteq> {CHR ''f'', CHR ''o''}" using options_long_letters [of args] assms(1) by auto
  then have "select_mode (options_long args) None = Some None \<or>
      select_mode (options_long args) None = Some (Some (CHR ''f''))"
    using assms(2) by (auto simp: select_last)
  moreover have "fopen_mode sys err (replicate k NL @ s @ NL # r) =
      Done (LINE_OK, ''reversed string: '' @ NUL # rev s @ [NL])"
    using assms(3-) by (intro fopen_mode_reverses)
  ultimately show ?thesis by (auto simp: print_main_def)
qed

section \<open>Instances\<close>

definition good_files :: "nat \<Rightarrow> file_sys" where
  "good_files n = \<lparr>can_open = True, can_write = Some n, can_sync = True\<rparr>"

lemma get_line_cuts:
  "get_line 4 False (replicate 1 NL @ ''abcd'' @ NL # []) = Done (LINE_OK, ''abc'', ''d'' @ [NL])"
  by (subst get_line_first) simp_all

theorem print_main_witness:
  "print_main (good_files 4) False [''--open'', ''-f''] (replicate 1 NL @ ''abc'' @ NL # []) =
    Done (LINE_OK, ''reversed string: '' @ NUL # rev ''abc'' @ [NL])"
  by (rule print_main_reverses) (simp_all add: good_files_def long_option_def is_prefix_of_def)

theorem open_mode_witness: "\<exists>st out. open_mode (good_files 4) False (''abc'' @ [NL]) = Done (st, out) \<and> st = LINE_ERR \<and> out = []"
proof -
  have "get_line BUF_LINE False (replicate 0 NL @ ''abc'' @ NL # []) = Done (LINE_OK, ''abc'', [])"
    using get_line_first [of BUF_LINE "''abc''" False 0 "[]"] by simp
  then have "\<exists>st out. open_mode (good_files 4) False (''abc'' @ [NL]) = Done (st, out)"
    by (simp add: open_mode_def good_files_def read_at_def Let_def)
  then show ?thesis using open_mode_fails by blast
qed

end
