(* ===== verification/Incr_Sem.thy ===== *)
theory Incr_Sem
  imports Step_System Lab_Prelude
begin

text \<open>
  LAB_16/task_system_v_semaphores_1 and task_posix_semaphores_1: processes that increment a number
  in shared memory up to a cap, guarded by one semaphore. The loop is the same in both programs;
  they differ in what opens the shared memory and the semaphore, and in \<open>SEM_UNDO\<close>: with it the
  kernel takes back the semaphore operations of a process that ends.
\<close>

section \<open>Shared memory and the semaphore\<close>

text \<open>
  \<open>val\<close> and \<open>cap\<close> are the two cells of the segment; \<open>adj c\<close> is the value \<open>semadj\<close> the kernel keeps
  for process \<open>c\<close>.
\<close>

record incr_mem =
  semval :: nat
  adj :: "nat \<Rightarrow> int"
  val :: int
  cap :: int

text \<open>\<open>down\<close> and \<open>up\<close> are \<open>semop\<close> with -1 and 1, or \<open>sem_wait\<close> and \<open>sem_post\<close>; \<open>leave\<close> is the end of a process.\<close>

definition book_undo :: "bool \<Rightarrow> nat \<Rightarrow> int \<Rightarrow> incr_mem \<Rightarrow> incr_mem" where
  "book_undo undo c d s = (if undo then s\<lparr>adj := (adj s)(c := adj s c + d)\<rparr> else s)"

definition down :: "bool \<Rightarrow> nat \<Rightarrow> incr_mem \<Rightarrow> incr_mem option" where
  "down undo c s = (if semval s = 0 then None else Some (book_undo undo c 1 (s\<lparr>semval := semval s - 1\<rparr>)))"

definition up :: "bool \<Rightarrow> nat \<Rightarrow> incr_mem \<Rightarrow> incr_mem" where
  "up undo c s = book_undo undo c (-1) (s\<lparr>semval := semval s + 1\<rparr>)"

definition leave :: "nat \<Rightarrow> incr_mem \<Rightarrow> incr_mem" where
  "leave c s = s\<lparr>semval := nat (int (semval s) + adj s c), adj := (adj s)(c := 0)\<rparr>"

section \<open>incr\_subroutine\<close>

text \<open>
  \<open>I_open k\<close> has \<open>k\<close> opening calls to go: \<open>shmat\<close> in the one program, \<open>shm_open\<close>, \<open>mmap\<close> and
  \<open>sem_open\<close> in the other. \<open>I_fail b\<close> and \<open>I_dead b\<close> are a process that has exited after a failed
  call and one that has been killed; \<open>b\<close> says that it has kept the semaphore.
\<close>

datatype incr_pc =
    I_none | I_open nat | I_wait | I_test | I_load | I_store int | I_check | I_post bool
  | I_exit | I_fail bool | I_dead bool

text \<open>\<open>fails\<close> says whether calls may fail.\<close>

inductive incr_step :: "bool \<Rightarrow> bool \<Rightarrow> nat \<Rightarrow> incr_pc \<times> incr_mem \<Rightarrow> incr_pc \<times> incr_mem \<Rightarrow> bool"
  for undo fails c where
  opened: "incr_step undo fails c (I_open (Suc k), s) (I_open k, s)"
| open_fail: "fails \<Longrightarrow> incr_step undo fails c (I_open (Suc k), s) (I_fail False, leave c s)"
| ready: "incr_step undo fails c (I_open 0, s) (I_wait, s)"
| wait: "down undo c s = Some s' \<Longrightarrow> incr_step undo fails c (I_wait, s) (I_test, s')"
| wait_fail: "fails \<Longrightarrow> incr_step undo fails c (I_wait, s) (I_fail False, leave c s)"
| test: "incr_step undo fails c (I_test, s) (if val s < cap s then I_load else I_check, s)"
| load: "incr_step undo fails c (I_load, s) (I_store (val s + 1), s)"
| store: "incr_step undo fails c (I_store v, s) (I_check, s\<lparr>val := v\<rparr>)"
| check: "incr_step undo fails c (I_check, s) (I_post (cap s \<le> val s), s)"
| post_again: "incr_step undo fails c (I_post False, s) (I_wait, up undo c s)"
| post_leave: "incr_step undo fails c (I_post True, s) (I_exit, leave c (up undo c s))"
| post_fail: "fails \<Longrightarrow> incr_step undo fails c (I_post b, s) (I_fail (\<not> undo), leave c s)"

section \<open>The parent\<close>

text \<open>
  \<open>I_fork k\<close>: \<open>k\<close> children have been started. \<open>I_end k b\<close>: the loop at the label \<open>end\<close> is at child
  \<open>k\<close>; \<open>b\<close> says that \<open>status\<close> is \<open>EXIT_FAILURE\<close>, so that it kills before it waits. \<open>I_done\<close>: the
  loop is over and the value is printed.
\<close>

datatype incr_parent = I_fork nat | I_end nat bool | I_done bool

record incr_sys =
  pcs :: "nat \<Rightarrow> incr_pc"
  par :: incr_parent
  shared :: incr_mem

fun i_over :: "incr_pc \<Rightarrow> bool" where
  "i_over I_exit = True" | "i_over (I_fail b) = True" | "i_over (I_dead b) = True" | "i_over p = False"

fun i_holds :: "incr_pc \<Rightarrow> bool" where
  "i_holds I_test = True" | "i_holds I_load = True" | "i_holds (I_store v) = True"
| "i_holds I_check = True" | "i_holds (I_post b) = True" | "i_holds (I_fail b) = b"
| "i_holds (I_dead b) = b" | "i_holds p = False"

inductive incr_sys_step :: "bool \<Rightarrow> nat \<Rightarrow> bool \<Rightarrow> nat \<Rightarrow> incr_sys \<Rightarrow> incr_sys \<Rightarrow> bool"
  for undo opens fails n where
  child: "incr_step undo fails c (pcs m c, shared m) (p, s) \<Longrightarrow>
    incr_sys_step undo opens fails n m (m\<lparr>pcs := (pcs m)(c := p), shared := s\<rparr>)"
| forks: "par m = I_fork k \<Longrightarrow> k < n \<Longrightarrow>
    incr_sys_step undo opens fails n m (m\<lparr>pcs := (pcs m)(k := I_open opens), par := I_fork (k + 1)\<rparr>)"
| fork_fail: "fails \<Longrightarrow> par m = I_fork k \<Longrightarrow> k < n \<Longrightarrow>
    incr_sys_step undo opens fails n m (m\<lparr>par := I_end 0 True\<rparr>)"
| forked: "par m = I_fork n \<Longrightarrow> incr_sys_step undo opens fails n m (m\<lparr>par := I_end 0 False\<rparr>)"
| kills: "par m = I_end k True \<Longrightarrow> k < n \<Longrightarrow> pcs m k \<noteq> I_none \<Longrightarrow> \<not> i_over (pcs m k) \<Longrightarrow>
    incr_sys_step undo opens fails n m
      (m\<lparr>pcs := (pcs m)(k := I_dead (\<not> undo \<and> i_holds (pcs m k))), shared := leave k (shared m)\<rparr>)"
| reap: "par m = I_end k b \<Longrightarrow> k < n \<Longrightarrow> pcs m k = I_none \<or> i_over (pcs m k) \<Longrightarrow>
    incr_sys_step undo opens fails n m (m\<lparr>par := I_end (k + 1) b\<rparr>)"
| reaped: "par m = I_end n b \<Longrightarrow> incr_sys_step undo opens fails n m (m\<lparr>par := I_done b\<rparr>)"

definition incr_start :: "int \<Rightarrow> incr_sys" where
  "incr_start incr_num =
     \<lparr>pcs = (\<lambda>c. I_none), par = I_fork 0, shared = \<lparr>semval = 1, adj = (\<lambda>c. 0), val = 0, cap = incr_num\<rparr>\<rparr>"

text \<open>The two programs.\<close>

definition sysv_incr_step :: "bool \<Rightarrow> nat \<Rightarrow> incr_sys \<Rightarrow> incr_sys \<Rightarrow> bool" where
  "sysv_incr_step = incr_sys_step True 1"

definition posix_incr_step :: "bool \<Rightarrow> nat \<Rightarrow> incr_sys \<Rightarrow> incr_sys \<Rightarrow> bool" where
  "posix_incr_step = incr_sys_step False 3"

abbreviation incr_reach :: "bool \<Rightarrow> nat \<Rightarrow> nat \<Rightarrow> int \<Rightarrow> incr_sys \<Rightarrow> bool" where
  "incr_reach undo opens n incr_num \<equiv> reach (\<lambda>m. m = incr_start incr_num) (incr_sys_step undo opens True n)"

section \<open>The locking discipline\<close>

lemmas sem_op_defs = down_def up_def leave_def book_undo_def

text \<open>What the kernel has booked for a process is what the process holds.\<close>

definition booked :: "bool \<Rightarrow> (nat \<Rightarrow> incr_pc) \<Rightarrow> incr_mem \<Rightarrow> bool" where
  "booked undo ps s \<longleftrightarrow> (\<forall>c. adj s c = (if undo \<and> i_holds (ps c) then 1 else 0))"

definition sem_move :: "nat \<Rightarrow> bool \<Rightarrow> nat \<Rightarrow> bool \<Rightarrow> bool" where
  "sem_move v a v' b \<longleftrightarrow> v' = v \<and> b = a \<or> 0 < v \<and> \<not> a \<and> b \<and> v' = v - 1 \<or> a \<and> \<not> b \<and> v' = v + 1"

lemma incr_locks:
  assumes "incr_step undo fails c (p, s) (q, s')" "adj s c = (if undo \<and> i_holds p then 1 else 0)"
  shows "sem_move (semval s) (i_holds p) (semval s') (i_holds q) \<and>
    adj s' c = (if undo \<and> i_holds q then 1 else 0) \<and> (\<forall>d. d \<noteq> c \<longrightarrow> adj s' d = adj s d)"
  using assms by (cases rule: incr_step.cases) (auto simp: sem_move_def sem_op_defs nat_add_distrib split: if_splits)

definition unstarted :: "nat \<Rightarrow> incr_sys \<Rightarrow> bool" where
  "unstarted n m \<longleftrightarrow> (\<forall>c. (case par m of I_fork k \<Rightarrow> k | _ \<Rightarrow> n) \<le> c \<or> n \<le> c \<longrightarrow> pcs m c = I_none)"

inductive_simps incr_none [simp]: "incr_step undo fails c (I_none, s) x"

lemma incr_moves:
  assumes "incr_sys_step undo opens fails n m t" "unstarted n m" "booked undo (pcs m) (shared m)"
  shows "(\<exists>c. sem_move (semval (shared m)) (i_holds (pcs m c)) (semval (shared t)) (i_holds (pcs t c)) \<and>
    (\<forall>d. d \<noteq> c \<longrightarrow> pcs t d = pcs m d)) \<and> unstarted n t \<and> booked undo (pcs t) (shared t)"
  using assms
proof (cases rule: incr_sys_step.cases)
  case (child c p s)
  have c: "pcs m c \<noteq> I_none" using child(2) by auto
  have "sem_move (semval (shared m)) (i_holds (pcs m c)) (semval s) (i_holds p) \<and>
    adj s c = (if undo \<and> i_holds p then 1 else 0) \<and> (\<forall>d. d \<noteq> c \<longrightarrow> adj s d = adj (shared m) d)"
    using assms(3) by (intro incr_locks [OF child(2)]) (simp add: booked_def)
  then show ?thesis using assms(2,3) child(1) c
    by (intro conjI exI [of _ c]) (auto simp: booked_def unstarted_def)
next
  case (forks k)
  then have "pcs m k = I_none" using assms(2) by (simp add: unstarted_def)
  then show ?thesis using forks assms(2,3)
    by (intro conjI exI [of _ k]) (auto simp: sem_move_def unstarted_def booked_def)
next
  case (kills k)
  then show ?thesis using assms(2,3)
    by (intro conjI exI [of _ k]) (auto simp: sem_move_def leave_def unstarted_def booked_def nat_add_distrib)
qed (auto simp: sem_move_def unstarted_def booked_def intro: exI [of _ 0])

lemma incr_booked: "incr_reach undo opens n k m \<Longrightarrow> unstarted n m \<and> booked undo (pcs m) (shared m)"
proof (induction rule: reach_invariant)
  case (start s)
  then show ?case by (simp add: incr_start_def unstarted_def booked_def)
next
  case (step s t)
  then show ?case using incr_moves by blast
qed

interpretation inc: lock_discipline "\<lambda>m. m = incr_start k" "incr_sys_step undo opens True n"
  "\<lambda>m l. semval (shared m)" "\<lambda>m c (l :: unit). i_holds (pcs m c)" for undo opens n k
proof
  fix s t assume a: "incr_reach undo opens n k s" "incr_sys_step undo opens True n s t"
  obtain c where c: "sem_move (semval (shared s)) (i_holds (pcs s c)) (semval (shared t)) (i_holds (pcs t c))"
    "\<And>d. d \<noteq> c \<Longrightarrow> pcs t d = pcs s d"
    using incr_moves [OF a(2)] incr_booked [OF a(1)] by blast
  let ?f = "\<lambda>m (l :: unit). semval (shared m)" and ?h = "\<lambda>m c (l :: unit). i_holds (pcs m c)"
  have h: "?h t = (?h s)(c := \<lambda>l. i_holds (pcs t c))" using c(2) by (auto simp: fun_eq_iff)
  from c(1) consider "?f t = ?f s" "i_holds (pcs t c) = i_holds (pcs s c)" | "takes (?f s) (?h s) c () (?f t) (?h t)"
    | "gives (?f s) (?h s) c () (?f t) (?h t)"
    unfolding h by (auto simp: sem_move_def takes_def gives_def fun_eq_iff)
  then show "?f t = ?f s \<and> ?h t = ?h s \<or> (\<exists>p l. takes (?f s) (?h s) p l (?f t) (?h t)) \<or>
    (\<exists>p l. gives (?f s) (?h s) p l (?f t) (?h t))"
    by cases (auto simp: h fun_eq_iff)
qed (simp_all add: incr_start_def)

lemma incr_undone: "incr_reach True opens n k m \<Longrightarrow> i_over (pcs m c) \<Longrightarrow> \<not> i_holds (pcs m c)"
proof (induction arbitrary: c rule: reach_invariant)
  case (start s)
  then show ?case by (simp add: incr_start_def)
next
  case (step s t)
  from step.hyps(2) step.IH step.prems show ?case
  proof (cases rule: incr_sys_step.cases)
    case (child d p s')
    then show ?thesis using step.IH [of c] step.prems
      by (cases "c = d") (auto elim!: incr_step.cases split: if_splits)
  qed (auto split: if_splits)
qed

interpretation inc_undo: undo_discipline "\<lambda>m. m = incr_start k" "incr_sys_step True opens True n"
  "\<lambda>m l. semval (shared m)" "\<lambda>m c (l :: unit). i_holds (pcs m c)" "\<lambda>m c. i_over (pcs m c)" for opens n k
  by unfold_locales (rule incr_undone)

end
