(* ===== verification/Incr_Main.thy ===== *)
theory Incr_Main
  imports Getopt Incr_Sem
begin

text \<open>
  The parents of the two incrementing programs of LAB_16 outside the loops of \<open>fork\<close> and \<open>waitpid\<close>:
  the command line, the creation of the shared memory and of the semaphore, and the section at
  the label \<open>end\<close>.
\<close>

section \<open>The command line\<close>

record incr_opts =
  opt_file :: "string option"
  incr_num :: int
  proc_num :: int

text \<open>
  \<open>fl\<close> is the letter of the file option, \<open>m\<close> or \<open>f\<close>, and \<open>name_ok\<close> the test of its argument.
  \<open>Inl b\<close> is the label \<open>print\<close>, where \<open>b\<close> says that \<open>status\<close> is \<open>EXIT_FAILURE\<close>.
\<close>

fun incr_options :: "char \<Rightarrow> (string \<Rightarrow> bool) \<Rightarrow> opt_call list \<Rightarrow> incr_opts \<Rightarrow> bool + incr_opts" where
  "incr_options fl name_ok [] st = Inr st"
| "incr_options fl name_ok (Opt_arg c optarg # es) st =
     (if c = fl then
        (if options_bundled c (Some optarg) then Inl False
         else if \<not> name_ok optarg then Inl False
         else incr_options fl name_ok es (st\<lparr>opt_file := Some optarg\<rparr>))
      else case opt_number c optarg of
        Inl b \<Rightarrow> Inl b
      | Inr n \<Rightarrow> incr_options fl name_ok es (if c = CHR ''i'' then st\<lparr>incr_num := n\<rparr> else st\<lparr>proc_num := n\<rparr>))"
| "incr_options fl name_ok (Opt_flag c # es) st = Inl False"
| "incr_options fl name_ok (Opt_missing c # es) st = Inl False"
| "incr_options fl name_ok (Opt_unknown c # es) st = Inl False"

definition incr_defaults :: "incr_opts \<Rightarrow> incr_opts" where
  "incr_defaults st = st\<lparr>incr_num := (if incr_num st = 0 then 20 else incr_num st),
     proc_num := (if proc_num st = 0 then 2 else proc_num st)\<rparr>"

definition no_opts :: incr_opts where
  "no_opts = \<lparr>opt_file = None, incr_num = 0, proc_num = 0\<rparr>"

definition sysv_incr_line :: "string list \<Rightarrow> bool + incr_opts" where
  "sysv_incr_line args =
     (case incr_options (CHR ''m'') (\<lambda>s. True) (getopt ''mip'' ''h'' args) no_opts of
        Inl b \<Rightarrow> Inl b
      | Inr st \<Rightarrow> if opt_file st = None then Inl False else Inr (incr_defaults st))"

definition name_fits :: "string \<Rightarrow> bool" where
  "name_fits s \<longleftrightarrow> length s \<le> 255 - 4 - 4"

definition posix_incr_line :: "string list \<Rightarrow> bool + incr_opts" where
  "posix_incr_line args =
     (case incr_options (CHR ''f'') name_fits (getopt ''fip'' ''h'' args) no_opts of
        Inl b \<Rightarrow> Inl b
      | Inr st \<Rightarrow>
          (case opt_file st of
             None \<Rightarrow> Inl False
           | Some s \<Rightarrow> if s = [] \<or> hd s \<noteq> CHR ''/'' then Inl False else Inr (incr_defaults st)))"

section \<open>System V objects\<close>

text \<open>
  What exists under the two keys: \<open>None\<close> is nothing. \<open>shmget\<close> and \<open>semget\<close> are called with
  \<open>IPC_CREAT | IPC_EXCL\<close> and fail when the object exists. The identifiers \<open>shmid\<close> and \<open>semid\<close> are -1
  (\<open>False\<close>) unless the call has succeeded.
\<close>

datatype attach = Detached | Attach_failed | Attached

record sv_state =
  shm_seg :: "(int \<times> int) option"
  sem_set :: "int option"
  pids :: bool
  shmid :: bool
  semid :: bool
  seg_ptr :: attach

record sv_sys =
  can_stat :: bool
  can_ftok :: bool
  can_pid_list :: bool
  can_shmget :: bool
  can_semget :: bool
  can_shmat :: bool
  can_setval :: bool
  can_shmdt :: bool
  can_rm_shm :: bool
  can_rm_sem :: bool

definition sv_fresh :: "(int \<times> int) option \<Rightarrow> int option \<Rightarrow> sv_state" where
  "sv_fresh seg sems = \<lparr>shm_seg = seg, sem_set = sems, pids = False, shmid = False, semid = False, seg_ptr = Detached\<rparr>"

text \<open>The calls up to the first \<open>fork\<close>: the state, and whether the loop of \<open>fork\<close> is reached.\<close>

definition sv_set_up :: "sv_sys \<Rightarrow> incr_opts \<Rightarrow> sv_state \<Rightarrow> sv_state \<times> bool" where
  "sv_set_up sys st s =
     (if \<not> can_stat sys \<or> \<not> can_ftok sys then (s, False)
      else if \<not> can_pid_list sys \<or> proc_num st < 0 then (s, False)
      else let s = s\<lparr>pids := True\<rparr> in
      if \<not> can_shmget sys \<or> shm_seg s \<noteq> None then (s, False)
      else let s = s\<lparr>shm_seg := Some (0, 0), shmid := True\<rparr> in
      if \<not> can_semget sys \<or> sem_set s \<noteq> None then (s, False)
      else let s = s\<lparr>sem_set := Some 0, semid := True\<rparr> in
      if \<not> can_shmat sys then (s\<lparr>seg_ptr := Attach_failed\<rparr>, False)
      else let s = s\<lparr>seg_ptr := Attached, shm_seg := Some (0, incr_num st)\<rparr> in
      if \<not> can_setval sys then (s, False)
      else (s\<lparr>sem_set := Some 1\<rparr>, True))"

text \<open>
  The section at \<open>end\<close>. \<open>shmdt\<close> refuses the pointer of a failed \<open>shmat\<close>; a segment is removed from
  the system when its last process has let go of it, so the order of the two calls does not matter.
\<close>

definition sv_clean_up :: "sv_sys \<Rightarrow> bool \<Rightarrow> sv_state \<Rightarrow> sv_state \<times> bool" where
  "sv_clean_up sys failed s =
     (let s = s\<lparr>pids := False\<rparr>;
          (s, failed) =
            (case seg_ptr s of
               Detached \<Rightarrow> (s, failed)
             | Attach_failed \<Rightarrow> (s, True)
             | Attached \<Rightarrow> if can_shmdt sys then (s\<lparr>seg_ptr := Detached\<rparr>, failed) else (s, True));
          (s, failed) =
            (if shmid s then (if can_rm_shm sys then (s\<lparr>shm_seg := None\<rparr>, failed) else (s, True)) else (s, failed))
      in if semid s then (if can_rm_sem sys then (s\<lparr>sem_set := None\<rparr>, failed) else (s, True)) else (s, failed))"

text \<open>\<open>b\<close>: do the loops of \<open>fork\<close> and \<open>waitpid\<close> leave \<open>status\<close> at \<open>EXIT_FAILURE\<close>?\<close>

datatype 's incr_ending = Incr_usage bool | Incr_ended 's bool

definition sysv_incr_main ::
    "sv_sys \<Rightarrow> string list \<Rightarrow> (int \<times> int) option \<Rightarrow> int option \<Rightarrow> bool \<Rightarrow> sv_state incr_ending" where
  "sysv_incr_main sys args seg sems b =
     (case sysv_incr_line args of
        Inl failed \<Rightarrow> Incr_usage failed
      | Inr st \<Rightarrow>
          (let (s, ok) = sv_set_up sys st (sv_fresh seg sems);
               (s, failed) = sv_clean_up sys (\<not> ok \<or> b) s
           in Incr_ended s failed))"

section \<open>POSIX objects\<close>

text \<open>
  What exists under the two names. \<open>shm_open\<close> is called with \<open>O_CREAT | O_TRUNC\<close> and without
  \<open>O_EXCL\<close>: an object that exists loses its contents. \<open>sem_open\<close> is called with \<open>O_EXCL\<close>. A failed
  \<open>sem_open\<close> returns \<open>SEM_FAILED\<close>, the null pointer.
\<close>

record px_state =
  px_shm :: "(int \<times> int) option"
  px_sem :: "int option"
  px_pids :: bool
  px_shm_name :: bool
  px_fd :: bool
  px_seg :: attach
  px_sem_name :: bool
  px_handle :: bool

record px_sys =
  can_calloc :: bool
  can_shm_open :: bool
  can_ftruncate :: bool
  can_mmap :: bool
  can_sem_open :: bool
  can_munmap :: bool

definition px_fresh :: "(int \<times> int) option \<Rightarrow> int option \<Rightarrow> px_state" where
  "px_fresh seg sems = \<lparr>px_shm = seg, px_sem = sems, px_pids = False, px_shm_name = False, px_fd = False,
     px_seg = Detached, px_sem_name = False, px_handle = False\<rparr>"

definition px_set_up :: "px_sys \<Rightarrow> incr_opts \<Rightarrow> px_state \<Rightarrow> px_state \<times> bool" where
  "px_set_up sys st s =
     (if \<not> can_calloc sys \<or> proc_num st < 0 then (s, False)
      else let s = s\<lparr>px_pids := True, px_shm_name := True\<rparr> in
      if \<not> can_shm_open sys then (s, False)
      else let s = s\<lparr>px_shm := Some (0, 0), px_fd := True\<rparr> in
      if \<not> can_ftruncate sys then (s, False)
      else if \<not> can_mmap sys then (s\<lparr>px_seg := Attach_failed\<rparr>, False)
      else let s = s\<lparr>px_seg := Attached, px_fd := False, px_shm := Some (0, incr_num st), px_sem_name := True\<rparr> in
      if \<not> can_sem_open sys \<or> px_sem s \<noteq> None then (s, False)
      else (s\<lparr>px_sem := Some 1, px_handle := True\<rparr>, True))"

definition px_clean_up :: "px_sys \<Rightarrow> bool \<Rightarrow> px_state \<Rightarrow> px_state \<times> bool" where
  "px_clean_up sys failed s =
     (let s = s\<lparr>px_pids := False\<rparr>;
          (s, failed) =
            (case px_seg s of
               Detached \<Rightarrow> (s, failed)
             | Attach_failed \<Rightarrow> (s, True)
             | Attached \<Rightarrow> if can_munmap sys then (s\<lparr>px_seg := Detached\<rparr>, failed) else (s, True));
          s = s\<lparr>px_fd := False\<rparr>;
          s = (if px_shm_name s then s\<lparr>px_shm := None\<rparr> else s);
          s = s\<lparr>px_handle := False\<rparr>;
          s = (if px_sem_name s then s\<lparr>px_sem := None\<rparr> else s)
      in (s, failed))"

definition posix_incr_main ::
    "px_sys \<Rightarrow> string list \<Rightarrow> (int \<times> int) option \<Rightarrow> int option \<Rightarrow> bool \<Rightarrow> px_state incr_ending" where
  "posix_incr_main sys args seg sems b =
     (case posix_incr_line args of
        Inl failed \<Rightarrow> Incr_usage failed
      | Inr st \<Rightarrow>
          (let (s, ok) = px_set_up sys st (px_fresh seg sems);
               (s, failed) = px_clean_up sys (\<not> ok \<or> b) s
           in Incr_ended s failed))"

end
