(* ===== verification/Incr_Props.thy ===== *)
theory Incr_Props
  imports Incr_Sem
begin

text \<open>
  The incrementing processes of LAB_16: the number stays within its cap and is the cap when nothing
  has failed; every run ends; and only the program with \<open>SEM_UNDO\<close> survives a process that ends
  with the semaphore taken.
\<close>

section \<open>The number\<close>

fun i_ok :: "incr_mem \<Rightarrow> incr_pc \<Rightarrow> bool" where
  "i_ok s I_load \<longleftrightarrow> val s < cap s"
| "i_ok s (I_store v) \<longleftrightarrow> v = val s + 1 \<and> val s < cap s"
| "i_ok s (I_post b) \<longleftrightarrow> b = (cap s \<le> val s)"
| "i_ok s I_exit \<longleftrightarrow> val s = cap s"
| "i_ok s p \<longleftrightarrow> True"

definition incr_inv :: "int \<Rightarrow> incr_sys \<Rightarrow> bool" where
  "incr_inv k m \<longleftrightarrow> cap (shared m) = k \<and> 0 \<le> val (shared m) \<and> val (shared m) \<le> k \<and>
     (\<forall>c. i_ok (shared m) (pcs m c))"

lemma down_cells [dest]: "down undo c s = Some s' \<Longrightarrow> val s' = val s \<and> cap s' = cap s"
  by (auto simp: sem_op_defs split: if_splits)

lemma cells [simp]:
  "val (up undo c s) = val s" "cap (up undo c s) = cap s" "val (leave c s) = val s" "cap (leave c s) = cap s"
  by (auto simp: sem_op_defs split: if_splits)

lemma i_ok_frame:
  assumes "i_ok s p" "cap s' = cap s" "val s \<le> val s'" "val s' \<le> cap s'" "i_holds p \<Longrightarrow> val s' = val s"
  shows "i_ok s' p"
  using assms by (cases p) auto

lemma incr_step_ok:
  assumes "incr_step undo fails c (p, s) (q, s')" "i_ok s p" "val s \<le> cap s"
  shows "i_ok s' q \<and> cap s' = cap s \<and> val s \<le> val s' \<and> val s' \<le> cap s' \<and> (\<not> i_holds p \<longrightarrow> val s' = val s)"
  using assms by (cases rule: incr_step.cases) auto

lemma incr_inv_child:
  assumes r: "incr_reach undo opens n k m" and inv: "incr_inv k m"
    and st: "incr_step undo fails c (pcs m c, shared m) (p, s)"
  shows "incr_inv k (m\<lparr>pcs := (pcs m)(c := p), shared := s\<rparr>)"
proof -
  have i: "cap (shared m) = k" "0 \<le> val (shared m)" "val (shared m) \<le> k" "\<And>d. i_ok (shared m) (pcs m d)"
    using inv by (simp_all add: incr_inv_def)
  have s: "i_ok s p" "cap s = k" "val (shared m) \<le> val s" "val s \<le> k"
    "\<not> i_holds (pcs m c) \<longrightarrow> val s = val (shared m)"
    using incr_step_ok [OF st i(4)] i by simp_all
  have "i_ok s (pcs m d)" if "d \<noteq> c" for d
    using i s that inc.mutual_exclusion [OF r, of d c] by (intro i_ok_frame [OF i(4)]) auto
  then show ?thesis using i s by (simp add: incr_inv_def)
qed

lemma incr_inv_step:
  assumes r: "incr_reach undo opens n k m" and inv: "incr_inv k m" and st: "incr_sys_step undo opens fails n m t"
  shows "incr_inv k t"
  using st
proof (cases rule: incr_sys_step.cases)
  case (child c p s)
  then show ?thesis using incr_inv_child [OF r inv] by simp
next
  case (kills j)
  have "i_ok (leave j (shared m)) (pcs m c)" for c
    by (rule i_ok_frame [of "shared m"]) (use inv in \<open>simp_all add: incr_inv_def\<close>)
  then show ?thesis using inv kills by (simp add: incr_inv_def)
qed (use inv in \<open>simp_all add: incr_inv_def\<close>)

lemma incr_inv_reach: "incr_reach undo opens n k m \<Longrightarrow> 0 \<le> k \<Longrightarrow> incr_inv k m"
proof (induction rule: reach_invariant)
  case (start s)
  then show ?case by (simp add: incr_start_def incr_inv_def)
next
  case (step s t)
  then show ?case using incr_inv_step by blast
qed

text \<open>While \<open>status\<close> is a success every child has been started, and the loop has seen it end by itself.\<close>

fun unkilled :: "incr_pc \<Rightarrow> bool" where
  "unkilled (I_dead b) = False" | "unkilled p = True"

definition orderly :: "nat \<Rightarrow> incr_sys \<Rightarrow> bool" where
  "orderly n m \<longleftrightarrow> (case par m of
     I_fork k \<Rightarrow> k \<le> n \<and> (\<forall>c < k. pcs m c \<noteq> I_none) \<and> (\<forall>c. unkilled (pcs m c))
   | I_end k b \<Rightarrow> k \<le> n \<and> (\<not> b \<longrightarrow> (\<forall>c < n. pcs m c \<noteq> I_none) \<and> (\<forall>c. unkilled (pcs m c)) \<and> (\<forall>c < k. i_over (pcs m c)))
   | I_done b \<Rightarrow> (\<not> b \<longrightarrow> (\<forall>c < n. pcs m c \<noteq> I_none \<and> i_over (pcs m c) \<and> unkilled (pcs m c))))"

lemma incr_step_alive: "incr_step undo fails c (p, s) (q, s') \<Longrightarrow> p \<noteq> I_none \<and> q \<noteq> I_none \<and> \<not> i_over p \<and> unkilled q"
  by (erule incr_step.cases) (auto split: if_splits)

lemma orderly_reach: "incr_reach undo opens n k m \<Longrightarrow> orderly n m"
proof (induction rule: reach_invariant)
  case (start s)
  then show ?case by (simp add: incr_start_def orderly_def)
next
  case (step s t)
  from step.hyps(2) show ?case
  proof (cases rule: incr_sys_step.cases)
    case (child c p s')
    then show ?thesis using step.IH incr_step_alive [OF child(2)]
      by (auto simp: orderly_def split: incr_parent.splits)
  next
    case (reap j b)
    then show ?thesis using step.IH by (auto simp: orderly_def less_Suc_eq)
  next
    case (forks j)
    then show ?thesis using step.IH by (auto simp: orderly_def less_Suc_eq)
  qed (use step.IH in \<open>auto simp: orderly_def\<close>)
qed

section \<open>Progress\<close>

lemma incr_child_moves:
  assumes "p \<noteq> I_none" "\<not> i_over p" "p = I_wait \<Longrightarrow> 0 < semval s"
  shows "\<exists>x. incr_step undo fails c (p, s) x"
proof (cases p)
  case I_wait
  then show ?thesis using assms(3) incr_step.wait [of undo c s] by (auto simp: down_def)
next
  case (I_open j)
  then show ?thesis by (cases j) (auto intro: incr_step.intros)
next
  case (I_post b)
  then show ?thesis by (cases b) (auto intro: incr_step.intros)
qed (use assms(1,2) in \<open>auto intro: incr_step.intros\<close>)

lemma incr_holder_moves:
  assumes "i_holds (pcs m c)" "\<not> i_over (pcs m c)"
  shows "\<exists>t. incr_sys_step undo opens fails n m t"
proof -
  have "pcs m c \<noteq> I_none" "pcs m c \<noteq> I_wait" using assms(1) by auto
  then obtain p s where "incr_step undo fails c (pcs m c, shared m) (p, s)"
    using incr_child_moves [OF _ assms(2), of "shared m" undo fails c] by auto
  then show ?thesis using incr_sys_step.child by blast
qed

lemma incr_live_moves:
  assumes r: "incr_reach undo opens n k m" and h: "\<And>d. i_holds (pcs m d) \<Longrightarrow> \<not> i_over (pcs m d)"
    and c: "pcs m c \<noteq> I_none" "\<not> i_over (pcs m c)"
  shows "\<exists>t. incr_sys_step undo opens fails n m t"
proof (cases "semval (shared m) = 0")
  case True
  then obtain d where "i_holds (pcs m d)" "\<not> i_over (pcs m d)"
    using inc.taken_is_held [OF r] h by blast
  then show ?thesis by (rule incr_holder_moves)
next
  case False
  then obtain p s where "incr_step undo fails c (pcs m c, shared m) (p, s)"
    using incr_child_moves [OF c, of "shared m" undo fails c] by auto
  then show ?thesis using incr_sys_step.child by blast
qed

lemma incr_sys_moves:
  assumes r: "incr_reach undo opens n k m" and h: "\<And>d. i_holds (pcs m d) \<Longrightarrow> \<not> i_over (pcs m d)"
  shows "(\<exists>b. par m = I_done b) \<or> (\<exists>t. incr_sys_step undo opens False n m t)"
proof (cases "par m")
  case (I_fork j)
  then have "j \<le> n" using orderly_reach [OF r] by (simp add: orderly_def)
  then consider "j < n" | "j = n" by linarith
  then show "(\<exists>b. par m = I_done b) \<or> (\<exists>t. incr_sys_step undo opens False n m t)"
    using I_fork incr_sys_step.forks [OF I_fork] incr_sys_step.forked [of m n] by cases blast+
next
  case (I_end j b)
  then have "j \<le> n" using orderly_reach [OF r] by (simp add: orderly_def)
  then consider "j < n" | "j = n" by linarith
  then show "(\<exists>b. par m = I_done b) \<or> (\<exists>t. incr_sys_step undo opens False n m t)"
  proof cases
    case 1
    then show ?thesis using incr_sys_step.reap [OF I_end 1] incr_live_moves [OF r h, of j] by blast
  next
    case 2
    then show ?thesis using incr_sys_step.reaped [of m n b] I_end by blast
  qed
qed blast

text \<open>
  the System V program never gets stuck, whatever calls have failed and whatever processes have
  been killed before: until the parent is done, some process can move without a further failure.
\<close>

theorem sysv_incr_progress:
  assumes r: "incr_reach True 1 n k m"
  shows "(\<exists>b. par m = I_done b) \<or> (\<exists>t. sysv_incr_step False n m t)"
  unfolding sysv_incr_step_def using incr_sys_moves [OF r] inc_undo.ended_gives_back [OF r] by blast

section \<open>Every run ends\<close>

text \<open>A weight that each step lowers: what is missing to the cap counts for more than a turn of the loop.\<close>

fun i_rank :: "bool \<Rightarrow> incr_pc \<Rightarrow> nat" where
  "i_rank g (I_open j) = 8 + j" | "i_rank g I_wait = 7" | "i_rank g I_test = 6" | "i_rank g I_load = 5"
| "i_rank g (I_store v) = 4" | "i_rank g I_check = (if g then 9 else 3)"
| "i_rank g (I_post b) = (if b then 2 else 8)" | "i_rank g p = 0"

fun p_rank :: "nat \<Rightarrow> nat \<Rightarrow> incr_parent \<Rightarrow> nat" where
  "p_rank opens n (I_fork j) = (n - j) * (opens + 9) + n + 2"
| "p_rank opens n (I_end j b) = (n - j) + 1"
| "p_rank opens n (I_done b) = 0"

definition gap :: "incr_mem \<Rightarrow> nat" where
  "gap s = nat (cap s - val s)"

definition incr_weight :: "nat \<Rightarrow> nat \<Rightarrow> incr_sys \<Rightarrow> nat" where
  "incr_weight opens n m = 10 * gap (shared m) + (\<Sum>c<n. i_rank (0 < gap (shared m)) (pcs m c)) + p_rank opens n (par m)"

lemma i_rank_mono: "(a \<longrightarrow> b) \<Longrightarrow> i_rank a p \<le> i_rank b p"
  by (cases p) auto

lemma i_rank_over: "p \<noteq> I_none \<Longrightarrow> \<not> i_over p \<Longrightarrow> 0 < i_rank a p"
  by (cases p) auto

lemma sum_nat_upd:
  fixes f :: "nat \<Rightarrow> nat"
  assumes "c < n"
  shows "(\<Sum>d<n. f d) = (\<Sum>d\<in>{..<n} - {c}. f d) + f c"
  using assms by (simp add: sum.remove [of "{..<n}" c])

lemma incr_step_weight:
  assumes "incr_step undo fails c (p, s) (q, s')" "i_ok s p" "val s \<le> cap s"
  shows "10 * gap s' + i_rank (0 < gap s') q < 10 * gap s + i_rank (0 < gap s) p \<and> gap s' \<le> gap s"
  using assms by (cases rule: incr_step.cases) (auto simp: gap_def)

lemma sum_ranks:
  fixes c n :: nat
  assumes "c < n" "\<And>d. d \<noteq> c \<Longrightarrow> ps' d = ps d" "a' \<longrightarrow> a"
    "x' + i_rank a' (ps' c) < x + i_rank a (ps c)"
  shows "x' + (\<Sum>d<n. i_rank a' (ps' d)) < x + (\<Sum>d<n. i_rank a (ps d))"
proof -
  have "(\<Sum>d\<in>{..<n} - {c}. i_rank a' (ps' d)) \<le> (\<Sum>d\<in>{..<n} - {c}. i_rank a (ps d))"
    using assms(2,3) by (intro sum_mono) (simp add: i_rank_mono)
  then show ?thesis using assms(4) sum_nat_upd [OF assms(1), of "\<lambda>d. i_rank a' (ps' d)"]
      sum_nat_upd [OF assms(1), of "\<lambda>d. i_rank a (ps d)"] by linarith
qed

lemma incr_weight_step:
  assumes r: "incr_reach undo opens n k m" and k: "0 \<le> k" and st: "incr_sys_step undo opens fails n m t"
  shows "incr_weight opens n t < incr_weight opens n m"
proof -
  have inv: "cap (shared m) = k" "val (shared m) \<le> k" "\<And>d. i_ok (shared m) (pcs m d)"
    using incr_inv_reach [OF r k] by (simp_all add: incr_inv_def)
  have un: "unstarted n m" using incr_booked [OF r] by blast
  have le: "j \<le> n" if "par m = I_fork j" for j using orderly_reach [OF r] that by (simp add: orderly_def)
  from st show ?thesis
  proof (cases rule: incr_sys_step.cases)
    case (child c p s)
    have "c < n" using child(2) un by (cases "c < n") (auto simp: unstarted_def)
    moreover have "10 * gap s + i_rank (0 < gap s) p < 10 * gap (shared m) + i_rank (0 < gap (shared m)) (pcs m c) \<and> gap s \<le> gap (shared m)"
      using inv by (intro incr_step_weight [OF child(2)]) simp_all
    ultimately have "10 * gap s + (\<Sum>d<n. i_rank (0 < gap s) (((pcs m)(c := p)) d)) <
        10 * gap (shared m) + (\<Sum>d<n. i_rank (0 < gap (shared m)) (pcs m d))"
      by (intro sum_ranks [of c]) auto
    then show ?thesis using child(1) by (simp add: incr_weight_def)
  next
    case (forks j)
    have "pcs m j = I_none" using un forks by (simp add: unstarted_def)
    then have "(\<Sum>d<n. i_rank (0 < gap (shared m)) (((pcs m)(j := I_open opens)) d)) =
        (\<Sum>d<n. i_rank (0 < gap (shared m)) (pcs m d)) + 8 + opens"
      using sum_nat_upd [OF forks(3), of "\<lambda>d. i_rank (0 < gap (shared m)) (((pcs m)(j := I_open opens)) d)"]
        sum_nat_upd [OF forks(3), of "\<lambda>d. i_rank (0 < gap (shared m)) (pcs m d)"] by simp
    moreover have "(n - j) * (opens + 9) = (n - Suc j) * (opens + 9) + (opens + 9)"
      using forks(3) by (metis Suc_diff_Suc mult_Suc add.commute)
    ultimately show ?thesis using forks by (simp add: incr_weight_def)
  next
    case (kills j)
    have g: "gap (leave j (shared m)) = gap (shared m)" by (simp add: gap_def)
    have "0 < i_rank (0 < gap (shared m)) (pcs m j)" using kills(4,5) by (rule i_rank_over)
    then have "0 + (\<Sum>d<n. i_rank (0 < gap (shared m)) (((pcs m)(j := I_dead (\<not> undo \<and> i_holds (pcs m j)))) d)) <
        0 + (\<Sum>d<n. i_rank (0 < gap (shared m)) (pcs m d))"
      using kills(3) by (intro sum_ranks [of j]) simp_all
    then show ?thesis using kills(1) g by (simp add: incr_weight_def)
  next
    case (fork_fail j)
    then show ?thesis using le [of j] by (simp add: incr_weight_def)
  qed (use le in \<open>auto simp: incr_weight_def\<close>)
qed

lemma incr_step_mono: "incr_step undo False c x y \<Longrightarrow> incr_step undo fails c x y"
  by (induction rule: incr_step.induct) (blast intro: incr_step.intros)+

lemma incr_sys_step_mono: "incr_sys_step undo opens False n m t \<Longrightarrow> incr_sys_step undo opens fails n m t"
  by (induction rule: incr_sys_step.induct) (blast intro: incr_sys_step.intros incr_step_mono)+

text \<open>
  C19: no run of the incrementing processes goes on for ever, whatever the scheduler does and
  whatever calls fail; and the System V program, from any state that it reaches, comes to the end of
  its parent when no more calls fail.
\<close>

theorem incr_terminates:
  assumes "0 \<le> k"
  shows "(incr_reach undo opens n k m \<longrightarrow> \<not> (\<exists>f. f 0 = m \<and> (\<forall>i. incr_sys_step undo opens True n (f i) (f (Suc i))))) \<and>
    (incr_reach True 1 n k m \<longrightarrow> (\<exists>h b. (sysv_incr_step False n)\<^sup>*\<^sup>* m h \<and> par h = I_done b))"
proof (intro conjI impI)
  assume r: "incr_reach undo opens n k m"
  show "\<not> (\<exists>f. f 0 = m \<and> (\<forall>i. incr_sys_step undo opens True n (f i) (f (Suc i))))"
    by (rule no_endless_run [OF _ r, where w = "incr_weight opens n"]) (use incr_weight_step assms in blast)
next
  assume r: "incr_reach True 1 n k m"
  obtain h where "(incr_sys_step True 1 False n)\<^sup>*\<^sup>* m h" "incr_reach True 1 n k h" "\<nexists>t. incr_sys_step True 1 False n h t"
    using runs_to_the_end [OF _ r, where w = "incr_weight 1 n" and run = "incr_sys_step True 1 False n"]
      incr_weight_step assms incr_sys_step_mono by blast
  then show "\<exists>h b. (sysv_incr_step False n)\<^sup>*\<^sup>* m h \<and> par h = I_done b"
    using sysv_incr_progress unfolding sysv_incr_step_def by blast
qed

text \<open>
  The number never exceeds its cap, a process that leaves by itself without a failure has
  seen the cap reached, and when the parent ends with a success and one of its children has not
  failed the number is the cap, however many processes there are and in whatever order they run.
\<close>

lemma incr_exact:
  assumes "incr_reach undo opens n k m" "0 \<le> k"
  shows "0 \<le> val (shared m) \<and> val (shared m) \<le> k \<and> (pcs m c = I_exit \<longrightarrow> val (shared m) = k) \<and>
    (par m = I_done False \<and> c < n \<and> (\<forall>b. pcs m c \<noteq> I_fail b) \<longrightarrow> val (shared m) = k)"
proof -
  have inv: "cap (shared m) = k" "0 \<le> val (shared m)" "val (shared m) \<le> k" "i_ok (shared m) (pcs m c)"
    using incr_inv_reach [OF assms] by (simp_all add: incr_inv_def)
  moreover have "pcs m c = I_exit" if "par m = I_done False" "c < n" "\<And>b. pcs m c \<noteq> I_fail b"
  proof -
    have "i_over (pcs m c)" "unkilled (pcs m c)" using orderly_reach [OF assms(1)] that by (auto simp: orderly_def)
    then show ?thesis using that(3) by (cases "pcs m c") auto
  qed
  ultimately show ?thesis by (metis i_ok.simps(4))
qed

text \<open>Without failing calls no process fails and none is killed.\<close>

definition sound_sys :: "incr_sys \<Rightarrow> bool" where
  "sound_sys m \<longleftrightarrow> (\<forall>c b. pcs m c \<noteq> I_fail b \<and> pcs m c \<noteq> I_dead b) \<and> (\<forall>k. par m \<noteq> I_end k True) \<and> par m \<noteq> I_done True"

lemma sound_sys_step: "incr_sys_step undo opens False n m t \<Longrightarrow> sound_sys m \<Longrightarrow> sound_sys t"
proof (induction rule: incr_sys_step.induct)
  case (child m c p s)
  from child.hyps have "p \<noteq> I_fail b \<and> p \<noteq> I_dead b" for b by (cases rule: incr_step.cases) auto
  then show ?case using child.prems by (simp add: sound_sys_def)
qed (auto simp: sound_sys_def)

lemma sound_run:
  assumes "(incr_sys_step undo opens False n)\<^sup>*\<^sup>* (incr_start k) h"
  shows "incr_reach undo opens n k h \<and> sound_sys h"
  using assms
proof (induction rule: rtranclp_induct)
  case base
  show ?case by (auto intro: reach_start simp: sound_sys_def incr_start_def)
next
  case (step m t)
  then show ?case using sound_sys_step reach_step incr_sys_step_mono by metis
qed

text \<open>
  C18: in both programs, for any number of processes and in every order in which they run, a run
  without failing calls comes to its end, and the parent then finds the number at its cap.
\<close>

theorem incr_counts:
  assumes k: "0 \<le> k" and n: "0 < n"
  shows "(\<exists>h. (incr_sys_step undo opens False n)\<^sup>*\<^sup>* (incr_start k) h \<and> (\<nexists>t. incr_sys_step undo opens False n h t)) \<and>
    (\<forall>h. (incr_sys_step undo opens False n)\<^sup>*\<^sup>* (incr_start k) h \<and> (\<nexists>t. incr_sys_step undo opens False n h t) \<longrightarrow>
      par h = I_done False \<and> val (shared h) = k)"
proof (intro conjI allI impI)
  have r: "incr_reach undo opens n k (incr_start k)" by (rule reach_start) simp
  obtain h where "(incr_sys_step undo opens False n)\<^sup>*\<^sup>* (incr_start k) h" "\<nexists>t. incr_sys_step undo opens False n h t"
    using runs_to_the_end [OF _ r, where w = "incr_weight opens n" and run = "incr_sys_step undo opens False n"]
      incr_weight_step k incr_sys_step_mono by blast
  then show "\<exists>h. (incr_sys_step undo opens False n)\<^sup>*\<^sup>* (incr_start k) h \<and> (\<nexists>t. incr_sys_step undo opens False n h t)"
    by blast
next
  fix h assume h: "(incr_sys_step undo opens False n)\<^sup>*\<^sup>* (incr_start k) h \<and> (\<nexists>t. incr_sys_step undo opens False n h t)"
  then have r: "incr_reach undo opens n k h" and s: "sound_sys h" using sound_run by blast+
  have "\<not> i_over (pcs h d)" if "i_holds (pcs h d)" for d using s that by (cases "pcs h d") (auto simp: sound_sys_def)
  then obtain b where "par h = I_done b" using incr_sys_moves [OF r] h by blast
  moreover have "par h \<noteq> I_done True" using s unfolding sound_sys_def by blast
  ultimately show p: "par h = I_done False" by (cases b) simp_all
  show "val (shared h) = k" using incr_exact [OF r k, of 0] p n s unfolding sound_sys_def by blast
qed

end
