(* ===== verification/Incr_Owner.thy ===== *)
theory Incr_Owner
  imports Incr_Main Incr_Props
begin

text \<open>
  What the parents of the incrementing programs leave behind, what a second instance does to the
  first one, and the semaphore that a failed process of the POSIX program never gives back.
\<close>

section \<open>Objects of the system\<close>

lemma sv_set_up_objects:
  assumes "sv_set_up sys st (sv_fresh seg sems) = (s, ok)"
  shows "(if shmid s then seg = None else shm_seg s = seg) \<and> (if semid s then sems = None else sem_set s = sems)"
  using assms by (cases seg; cases sems) (auto simp: sv_set_up_def sv_fresh_def Let_def split: if_splits)

text \<open>The loop of \<open>fork\<close> begins in the start state of the step relation.\<close>

lemma sv_set_up_start:
  assumes "sv_set_up sys st s0 = (s, True)"
  defines "m \<equiv> shared (incr_start (incr_num st))"
  shows "shm_seg s = Some (val m, cap m) \<and> sem_set s = Some (int (semval m))"
  using assms(1) by (auto simp: m_def incr_start_def sv_set_up_def Let_def split: if_splits)

text \<open>
  whatever calls fail before, the System V program leaves the two objects of the system as it
  has found them when they can be removed: its own are gone, those of another instance are
  untouched; the list of processes is freed, and the segment is attached no more.
\<close>

theorem sysv_incr_restores:
  assumes "sysv_incr_line args = Inr st" "can_rm_shm sys" "can_rm_sem sys"
  shows "\<exists>s failed. sysv_incr_main sys args seg sems b = Incr_ended s failed \<and>
    shm_seg s = seg \<and> sem_set s = sems \<and> \<not> pids s \<and> (can_shmdt sys \<longrightarrow> seg_ptr s \<noteq> Attached)"
proof -
  obtain s ok where s: "sv_set_up sys st (sv_fresh seg sems) = (s, ok)"
    "if shmid s then seg = None else shm_seg s = seg" "if semid s then sems = None else sem_set s = sems"
    using sv_set_up_objects [of sys st seg sems] by (cases "sv_set_up sys st (sv_fresh seg sems)") blast
  obtain t failed where t: "sv_clean_up sys (\<not> ok \<or> b) s = (t, failed)" by (cases "sv_clean_up sys (\<not> ok \<or> b) s")
  have "shm_seg t = seg \<and> sem_set t = sems \<and> \<not> pids t \<and> (can_shmdt sys \<longrightarrow> seg_ptr t \<noteq> Attached)"
    using t s(2,3) assms(2,3) by (auto simp: sv_clean_up_def Let_def split: attach.splits if_splits)
  then show ?thesis using s(1) t assms(1) by (simp add: sysv_incr_main_def)
qed

text \<open>
  a second instance of the POSIX program under the same name resets the number of the first one
  to 0 and replaces its cap before it fails at \<open>sem_open\<close>, and then removes the names of the shared
  memory and of the semaphore of the first one.
\<close>

theorem posix_second_instance:
  assumes "posix_incr_line args = Inr st" "0 \<le> proc_num st"
    and "can_calloc sys" "can_shm_open sys" "can_ftruncate sys" "can_mmap sys"
  shows "px_shm (fst (px_set_up sys st (px_fresh (Some c) (Some v)))) = Some (0, incr_num st) \<and>
    (\<exists>t. posix_incr_main sys args (Some c) (Some v) b = Incr_ended t True \<and> px_shm t = None \<and> px_sem t = None)"
  using assms by (simp add: px_set_up_def px_fresh_def posix_incr_main_def px_clean_up_def Let_def)

section \<open>The lost semaphore\<close>

definition lost :: "nat \<Rightarrow> incr_mem \<Rightarrow> (nat \<Rightarrow> incr_pc) \<Rightarrow> incr_sys \<Rightarrow> bool" where
  "lost c s ps m \<longleftrightarrow> pcs m c = I_fail True \<and> val (shared m) = val s \<and> (\<forall>d. pcs m d = I_exit \<longrightarrow> ps d = I_exit)"

lemma lost_step:
  assumes r: "incr_reach False opens n k m" and l: "lost c s ps m" and st: "incr_sys_step False opens True n m t"
  shows "lost c s ps t"
proof -
  have h: "i_holds (pcs m c)" using l by (simp add: lost_def)
  have o: "\<not> i_holds (pcs m d)" if "d \<noteq> c" for d using inc.mutual_exclusion [OF r h, of d] that by blast
  from st show ?thesis
  proof (cases rule: incr_sys_step.cases)
    case (child d p s')
    have d: "d \<noteq> c" using l child(2) by (auto simp: lost_def elim: incr_step.cases)
    from child(2) have "val s' = val (shared m) \<and> p \<noteq> I_exit"
      using o [OF d] by (cases rule: incr_step.cases) (auto split: if_splits)
    then show ?thesis using l d child(1) by (auto simp: lost_def)
  next
    case (forks j)
    then have "pcs m j = I_none" using incr_booked [OF r] by (simp add: unstarted_def)
    then show ?thesis using forks l by (auto simp: lost_def)
  next
    case (kills j)
    then show ?thesis using l by (auto simp: lost_def)
  qed (use l in \<open>auto simp: lost_def\<close>)
qed

text \<open>
  C20: when a process of the POSIX program exits after a failed \<open>sem_post\<close> it keeps the semaphore for
  ever: from then on the number is never incremented again, and no process leaves by itself.
\<close>

theorem posix_lost_semaphore:
  assumes "incr_reach False 3 n k m" "pcs m c = I_fail True" "(posix_incr_step True n)\<^sup>*\<^sup>* m t"
  shows "val (shared t) = val (shared m) \<and> (pcs t d = I_exit \<longrightarrow> pcs m d = I_exit)"
proof -
  have "incr_reach False 3 n k t \<and> lost c (shared m) (pcs m) t"
    using assms(3)
  proof (induction rule: rtranclp_induct)
    case base
    then show ?case using assms(1,2) by (simp add: lost_def)
  next
    case (step u w)
    then show ?case unfolding posix_incr_step_def using lost_step reach_step by metis
  qed
  then show ?thesis by (simp add: lost_def)
qed

section \<open>Instances\<close>

text \<open>A run of one process is a run of the system.\<close>

lemma incr_child_reach:
  assumes "incr_reach undo opens n k m" "(incr_step undo True c)\<^sup>*\<^sup>* (p, shared m) (q, s)" "pcs m c = p"
  shows "incr_reach undo opens n k (m\<lparr>pcs := (pcs m)(c := q), shared := s\<rparr>)"
  using assms(2,1,3)
proof (induction "(q, s)" arbitrary: q s rule: rtranclp_induct)
  case base
  then have "m\<lparr>pcs := (pcs m)(c := p), shared := shared m\<rparr> = m" by auto
  then show ?case using base by simp
next
  case (step y)
  obtain r s' where y: "y = (r, s')" by (cases y)
  let ?m = "m\<lparr>pcs := (pcs m)(c := r), shared := s'\<rparr>"
  have "incr_sys_step undo opens True n ?m (?m\<lparr>pcs := (pcs ?m)(c := q), shared := s\<rparr>)"
    using step(2) y by (intro incr_sys_step.child) simp
  then show ?case using reach_step [OF step.hyps(3) [OF y step.prems]] by simp
qed

text \<open>One process of the POSIX program increments the number once and fails at \<open>sem_post\<close>.\<close>

definition after_fail :: incr_mem where
  "after_fail = \<lparr>semval = 0, adj = (\<lambda>c. 0), val = 1, cap = 20\<rparr>"

lemma incr_once_fail: "(incr_step False True c)\<^sup>*\<^sup>* (I_open 3, shared (incr_start 20)) (I_fail True, after_fail)"
proof -
  let ?r = "(incr_step False True c)\<^sup>*\<^sup>*"
  define s0 where "s0 = shared (incr_start 20)"
  define s1 where "s1 = s0\<lparr>semval := 0\<rparr>"
  have e: "after_fail = leave c (s1\<lparr>val := 1\<rparr>)"
    by (simp add: after_fail_def leave_def s1_def s0_def incr_start_def fun_eq_iff)
  have "?r (I_open 3, s0) (I_wait, s0)"
    unfolding numeral_3_eq_3 by (meson incr_step.opened incr_step.ready converse_rtranclp_into_rtranclp rtranclp.rtrancl_refl)
  also have "?r (I_wait, s0) (I_test, s1)"
    using incr_step.wait [of False c s0 s1 True] by (auto simp: s1_def s0_def incr_start_def down_def book_undo_def)
  also have "?r (I_test, s1) (I_load, s1)"
    using incr_step.test [of False True c s1] by (auto simp: s1_def s0_def incr_start_def)
  also have "?r (I_load, s1) (I_check, s1\<lparr>val := 1\<rparr>)"
    using incr_step.load [of False True c s1] incr_step.store [of False True c 1 s1]
    by (auto simp: s1_def s0_def incr_start_def intro: converse_rtranclp_into_rtranclp)
  also have "?r (I_check, s1\<lparr>val := 1\<rparr>) (I_fail True, after_fail)"
    using incr_step.check [of False True c "s1\<lparr>val := 1\<rparr>"] incr_step.post_fail [of True False c _ "s1\<lparr>val := 1\<rparr>"]
    unfolding e by (auto intro: converse_rtranclp_into_rtranclp)
  finally show ?thesis by (simp add: s0_def)
qed

lemma incr_first_fork:
  assumes "0 < n"
  shows "incr_reach undo opens n k ((incr_start k)\<lparr>pcs := (\<lambda>c. I_none)(0 := I_open opens), par := I_fork 1\<rparr>)"
proof (rule reach_step [where s = "incr_start k"])
  show "incr_reach undo opens n k (incr_start k)" by (rule reach_start) simp
  have "par (incr_start k) = I_fork 0" "pcs (incr_start k) = (\<lambda>c. I_none)" by (simp_all add: incr_start_def)
  then show "incr_sys_step undo opens True n (incr_start k)
      ((incr_start k)\<lparr>pcs := (\<lambda>c. I_none)(0 := I_open opens), par := I_fork 1\<rparr>)"
    using incr_sys_step.forks [of "incr_start k" 0 n undo opens True] assms by simp
qed

definition failed_once :: incr_sys where
  "failed_once = \<lparr>pcs = (\<lambda>c. I_none)(0 := I_fail True), par = I_fork 1, shared = after_fail\<rparr>"

lemma failed_once_reach: "incr_reach False 3 2 20 failed_once"
proof -
  let ?m = "(incr_start 20)\<lparr>pcs := (\<lambda>c. I_none)(0 := I_open 3), par := I_fork 1\<rparr>"
  have "incr_reach False 3 2 20 (?m\<lparr>pcs := (pcs ?m)(0 := I_fail True), shared := after_fail\<rparr>)"
    by (intro incr_child_reach [OF incr_first_fork]) (use incr_once_fail [of 0] in simp_all)
  then show ?thesis by (simp add: failed_once_def incr_start_def)
qed

theorem posix_lost_witness: "\<exists>t. (posix_incr_step True 2)\<^sup>*\<^sup>* failed_once t \<and> par t = I_end 0 False \<and>
  val (shared t) = 1 \<and> pcs t 1 \<noteq> I_exit"
proof -
  let ?t = "failed_once\<lparr>pcs := (pcs failed_once)(1 := I_open 3), par := I_fork (1 + 1)\<rparr>"
  have "posix_incr_step True 2 failed_once ?t" "posix_incr_step True 2 ?t (?t\<lparr>par := I_end 0 False\<rparr>)"
    using incr_sys_step.forks [of failed_once 1 2 False 3 True] incr_sys_step.forked [of ?t 2 False 3 True]
    by (simp_all add: posix_incr_step_def failed_once_def)
  then have r: "(posix_incr_step True 2)\<^sup>*\<^sup>* failed_once (?t\<lparr>par := I_end 0 False\<rparr>)"
    by (meson converse_rtranclp_into_rtranclp rtranclp.rtrancl_refl)
  have f: "pcs failed_once 0 = I_fail True" "val (shared failed_once) = 1" "pcs failed_once 1 = I_none"
    by (simp_all add: failed_once_def after_fail_def)
  show ?thesis
    using r posix_lost_semaphore [OF failed_once_reach f(1) r, of 1] f by (intro exI [of _ "?t\<lparr>par := I_end 0 False\<rparr>"]) simp
qed

theorem sysv_incr_progress_witness: "(\<exists>b. par (incr_start 5) = I_done b) \<or> (\<exists>t. sysv_incr_step False 2 (incr_start 5) t)"
  by (rule sysv_incr_progress [where k = 5]) (rule reach_start, simp)

theorem incr_terminates_witness: "\<exists>h b. (sysv_incr_step False 2)\<^sup>*\<^sup>* (incr_start 5) h \<and> par h = I_done b"
  using incr_terminates [of 5 True 1 2 "incr_start 5"] by (simp add: reach_start)

theorem incr_counts_witness:
  "\<exists>h. (incr_sys_step False 3 False 2)\<^sup>*\<^sup>* (incr_start 20) h \<and> par h = I_done False \<and> val (shared h) = 20"
  using incr_counts [of 20 2 False 3] by auto

lemma incr_line_example: "sysv_incr_line [''-m'', ''x''] = Inr \<lparr>opt_file = Some ''x'', incr_num = 20, proc_num = 2\<rparr>"
  by (simp add: sysv_incr_line_def getopt_arg options_bundled_def no_opts_def incr_defaults_def)

definition sv_willing :: sv_sys where
  "sv_willing = \<lparr>can_stat = True, can_ftok = True, can_pid_list = True, can_shmget = True, can_semget = True,
     can_shmat = False, can_setval = True, can_shmdt = True, can_rm_shm = True, can_rm_sem = True\<rparr>"

theorem sysv_incr_restores_witness:
  "\<exists>s failed. sysv_incr_main sv_willing [''-m'', ''x''] None None False = Incr_ended s failed \<and>
    shm_seg s = None \<and> sem_set s = None \<and> \<not> pids s \<and> seg_ptr s \<noteq> Attached"
  using sysv_incr_restores [OF incr_line_example, of sv_willing None None False] by (simp add: sv_willing_def)

lemma posix_line_example: "posix_incr_line [''-f'', ''/x''] = Inr \<lparr>opt_file = Some ''/x'', incr_num = 20, proc_num = 2\<rparr>"
  by (simp add: posix_incr_line_def getopt_arg options_bundled_def no_opts_def incr_defaults_def name_fits_def)

theorem posix_second_witness:
  "\<exists>t. posix_incr_main \<lparr>can_calloc = True, can_shm_open = True, can_ftruncate = True, can_mmap = True,
     can_sem_open = True, can_munmap = True\<rparr> [''-f'', ''/x''] (Some (7, 9)) (Some 1) False = Incr_ended t True \<and>
     px_shm t = None \<and> px_sem t = None"
  by (rule conjunct2 [OF posix_second_instance [OF posix_line_example]]) simp_all

end
