(* ===== verification/Sysv_Market.thy ===== *)
theory Sysv_Market
  imports Market
begin

text \<open>
  LAB_16/task_system_v_semaphores_2: the consumers and suppliers with System V shared memory and
  semaphores. A process attaches the segment by itself, and every operation on a semaphore has
  \<open>SEM_UNDO\<close>: the kernel keeps the adjustment \<open>semadj\<close> of a process and applies it when the
  process ends. The loops of \<open>consume\<close> and \<open>supply\<close> are those of the POSIX program, with \<open>semop\<close>
  in place of \<open>sem_wait\<close> and \<open>sem_post\<close>.
\<close>

section \<open>A process with SEM\_UNDO\<close>

text \<open>\<open>V_gone p\<close> is a process that has ended at \<open>p\<close>.\<close>

datatype 'p vproc = V_none | V_attach | V_run 'p | V_gone 'p

type_synonym semadj = "lock \<Rightarrow> int"

text \<open>\<open>semop\<close> subtracts what it adds to a semaphore from \<open>semadj\<close>.\<close>

definition adjust :: "semadj \<Rightarrow> shop \<Rightarrow> shop \<Rightarrow> semadj" where
  "adjust a sh sh' = (\<lambda>l. a l + int (sem sh l) - int (sem sh' l))"

definition undo_sems :: "semadj \<Rightarrow> shop \<Rightarrow> shop" where
  "undo_sems a sh = sh\<lparr>sem := (\<lambda>l. nat (int (sem sh l) + a l))\<rparr>"

text \<open>
  \<open>first\<close> is the head of the loop, \<open>refused\<close> the end of a process that cannot attach the segment,
  \<open>body\<close> the steps of the loop, \<open>over\<close> its ends and \<open>well\<close> the end without a failed call.
\<close>

inductive sv_proc :: "bool \<Rightarrow> 'p \<Rightarrow> 'p \<Rightarrow> ('p \<times> shop \<Rightarrow> 'p \<times> shop \<Rightarrow> bool) \<Rightarrow> ('p \<Rightarrow> bool) \<Rightarrow> 'p \<Rightarrow>
    'p vproc \<times> semadj \<times> shop \<Rightarrow> 'p vproc \<times> semadj \<times> shop \<Rightarrow> bool"
  for fails first refused body over well where
  attach: "sv_proc fails first refused body over well (V_attach, a, sh) (V_run first, a, sh)"
| attach_fail: "fails \<Longrightarrow> sv_proc fails first refused body over well (V_attach, a, sh) (V_gone refused, \<lambda>l. 0, undo_sems a sh)"
| run: "body (p, sh) (q, sh') \<Longrightarrow> \<not> over q \<Longrightarrow>
    sv_proc fails first refused body over well (V_run p, a, sh) (V_run q, adjust a sh sh', sh')"
| ends: "body (p, sh) (q, sh') \<Longrightarrow> over q \<Longrightarrow> fails \<or> q = well \<Longrightarrow>
    sv_proc fails first refused body over well (V_run p, a, sh) (V_gone q, \<lambda>l. 0, undo_sems (adjust a sh sh') sh')"

definition sv_consume ::
    "bool \<Rightarrow> nat \<Rightarrow> nat \<Rightarrow> cpc vproc \<times> semadj \<times> shop \<Rightarrow> cpc vproc \<times> semadj \<times> shop \<Rightarrow> bool" where
  "sv_consume fails sup_num c = sv_proc fails C_pick (C_fail None) (consume_step sup_num c) c_over C_exit"

definition sv_supply ::
    "bool \<Rightarrow> nat \<Rightarrow> int \<Rightarrow> spc vproc \<times> semadj \<times> shop \<Rightarrow> spc vproc \<times> semadj \<times> shop \<Rightarrow> bool" where
  "sv_supply fails i amount = sv_proc fails S_wait (S_fail None) (supply_step i amount) s_over S_exit"

section \<open>The parent\<close>

record sv_market =
  vcons :: "nat \<Rightarrow> cpc vproc"
  vsups :: "nat \<Rightarrow> spc vproc"
  cadj :: "nat \<Rightarrow> semadj"
  sadj :: "nat \<Rightarrow> semadj"
  vpar :: ppc
  vmem :: shop

fun gone :: "'p vproc \<Rightarrow> bool" where
  "gone (V_gone p) = True" | "gone x = False"

text \<open>Where a process is; one that has not attached the segment is before \<open>first\<close>.\<close>

fun at_pc :: "'p \<Rightarrow> 'p \<Rightarrow> 'p vproc \<Rightarrow> 'p" where
  "at_pc none first V_none = none" | "at_pc none first V_attach = first"
| "at_pc none first (V_run p) = p" | "at_pc none first (V_gone p) = p"

inductive sv_market_step :: "bool \<Rightarrow> nat \<Rightarrow> nat \<Rightarrow> int \<Rightarrow> sv_market \<Rightarrow> sv_market \<Rightarrow> bool"
  for fails cons_num sup_num unit where
  consumer: "sv_consume fails sup_num c (vcons m c, cadj m c, vmem m) (x, a, sh) \<Longrightarrow>
    sv_market_step fails cons_num sup_num unit m (m\<lparr>vcons := (vcons m)(c := x), cadj := (cadj m)(c := a), vmem := sh\<rparr>)"
| supplier: "sv_supply fails i unit (vsups m i, sadj m i, vmem m) (x, a, sh) \<Longrightarrow>
    sv_market_step fails cons_num sup_num unit m (m\<lparr>vsups := (vsups m)(i := x), sadj := (sadj m)(i := a), vmem := sh\<rparr>)"
| fork_consumer: "vpar m = P_fork k \<Longrightarrow> k < cons_num \<Longrightarrow>
    sv_market_step fails cons_num sup_num unit m (m\<lparr>vcons := (vcons m)(k := V_attach), vpar := P_fork (k + 1)\<rparr>)"
| fork_supplier: "vpar m = P_fork k \<Longrightarrow> cons_num \<le> k \<Longrightarrow> k < cons_num + sup_num \<Longrightarrow>
    sv_market_step fails cons_num sup_num unit m (m\<lparr>vsups := (vsups m)(k - cons_num := V_attach), vpar := P_fork (k + 1)\<rparr>)"
| fork_fail: "fails \<Longrightarrow> vpar m = P_fork k \<Longrightarrow> k < cons_num + sup_num \<Longrightarrow>
    sv_market_step fails cons_num sup_num unit m (m\<lparr>vpar := P_end 0 True\<rparr>)"
| forked: "vpar m = P_fork (cons_num + sup_num) \<Longrightarrow>
    sv_market_step fails cons_num sup_num unit m (m\<lparr>vpar := P_end 0 False\<rparr>)"
| kill_consumer: "vpar m = P_end k True \<Longrightarrow> k < cons_num \<Longrightarrow> vcons m k \<noteq> V_none \<Longrightarrow> \<not> gone (vcons m k) \<Longrightarrow>
    sv_market_step fails cons_num sup_num unit m
      (m\<lparr>vcons := (vcons m)(k := V_gone (C_dead (at_pc C_none C_pick (vcons m k)))), cadj := (cadj m)(k := (\<lambda>l. 0)),
         vmem := undo_sems (cadj m k) (vmem m)\<rparr>)"
| kill_supplier: "vpar m = P_end k True \<Longrightarrow> cons_num \<le> k \<Longrightarrow> k < cons_num + sup_num \<Longrightarrow>
    vsups m (k - cons_num) \<noteq> V_none \<Longrightarrow> \<not> gone (vsups m (k - cons_num)) \<Longrightarrow>
    sv_market_step fails cons_num sup_num unit m
      (m\<lparr>vsups := (vsups m)(k - cons_num := V_gone (S_dead (at_pc S_none S_wait (vsups m (k - cons_num))))),
         sadj := (sadj m)(k - cons_num := (\<lambda>l. 0)), vmem := undo_sems (sadj m (k - cons_num)) (vmem m)\<rparr>)"
| reap_consumer: "vpar m = P_end k b \<Longrightarrow> k < cons_num \<Longrightarrow> vcons m k = V_none \<or> gone (vcons m k) \<Longrightarrow>
    sv_market_step fails cons_num sup_num unit m (m\<lparr>vpar := P_end (k + 1) b\<rparr>)"
| reap_supplier: "vpar m = P_end k b \<Longrightarrow> cons_num \<le> k \<Longrightarrow> k < cons_num + sup_num \<Longrightarrow>
    vsups m (k - cons_num) = V_none \<or> gone (vsups m (k - cons_num)) \<Longrightarrow>
    sv_market_step fails cons_num sup_num unit m (m\<lparr>vpar := P_end (k + 1) b\<rparr>)"
| all_reaped: "vpar m = P_end (cons_num + sup_num) b \<Longrightarrow>
    sv_market_step fails cons_num sup_num unit m (m\<lparr>vpar := P_done b\<rparr>)"

definition sv_start_market :: "nat \<Rightarrow> int \<Rightarrow> int \<Rightarrow> sv_market" where
  "sv_start_market cons_num demand unit =
     \<lparr>vcons = (\<lambda>c. V_none), vsups = (\<lambda>i. V_none), cadj = (\<lambda>c l. 0), sadj = (\<lambda>i l. 0), vpar = P_fork 0,
      vmem = start_shop cons_num demand unit\<rparr>"

abbreviation sv_reach :: "nat \<Rightarrow> nat \<Rightarrow> int \<Rightarrow> int \<Rightarrow> sv_market \<Rightarrow> bool" where
  "sv_reach cons_num sup_num demand unit \<equiv>
     reach (\<lambda>m. m = sv_start_market cons_num demand unit) (sv_market_step True cons_num sup_num unit)"

section \<open>The locking discipline\<close>

text \<open>The lock that a process holds, and the adjustment the kernel has booked for it.\<close>

fun vlock :: "('p \<Rightarrow> lock option) \<Rightarrow> 'p vproc \<Rightarrow> lock option" where
  "vlock lk (V_run p) = lk p" | "vlock lk x = None"

definition adj_for :: "lock option \<Rightarrow> semadj" where
  "adj_for w = (\<lambda>l. if w = Some l then 1 else 0)"

lemma adjust_move:
  assumes "lock_move sh w sh' w'"
  shows "adjust (adj_for w) sh sh' = adj_for w'"
  using assms unfolding lock_move_def
  by (elim disjE exE conjE) (simp_all add: adjust_def adj_for_def fun_eq_iff of_nat_diff)

lemma undo_one: "sem (undo_sems (adj_for w) sh) =
    (case w of None \<Rightarrow> sem sh | Some l \<Rightarrow> (sem sh)(l := sem sh l + 1))"
  by (cases w) (simp_all add: undo_sems_def adj_for_def fun_eq_iff nat_add_distrib)

lemma undo_move:
  assumes "lock_move sh w sh' w'"
  shows "lock_move sh w (undo_sems (adj_for w') sh') None"
  using assms unfolding lock_move_def undo_one
  by (elim disjE exE conjE) (auto split: option.splits)

lemma lock_move_same: "lock_move sh w sh w"
  by (simp add: lock_move_def)

lemma sv_proc_locks:
  assumes "sv_proc fails first refused body over well (x, a, sh) (y, b, sh')"
    and "\<And>p q sh sh'. body (p, sh) (q, sh') \<Longrightarrow> lock_move sh (lk p) sh' (lk q)"
    and "lk first = None" "a = adj_for (vlock lk x)"
  shows "b = adj_for (vlock lk y) \<and> lock_move sh (vlock lk x) sh' (vlock lk y)"
  using assms(1)
proof (cases rule: sv_proc.cases)
  case attach
  then show ?thesis using assms(3,4) by (simp add: lock_move_def)
next
  case attach_fail
  then show ?thesis using assms(4) undo_move [OF lock_move_same, of sh None] by (simp add: adj_for_def)
next
  case (run p q)
  then show ?thesis using assms(2) [OF run(4)] assms(4) adjust_move by simp
next
  case (ends p q s)
  have m: "lock_move sh (lk p) s (lk q)" using assms(2) [OF ends(5)] .
  then show ?thesis using ends assms(4) adjust_move [OF m] undo_move [OF m] by (simp add: adj_for_def)
qed

end
