(* ===== verification/Sysv_Props.thy ===== *)
theory Sysv_Props
  imports Sysv_Market Market_Live
begin

text \<open>
  The System V market: the locking discipline with locks that are given back at the end of a process,
  the absence of deadlock whatever has failed, and the data while no process has been killed.
\<close>

section \<open>The locking discipline\<close>

fun sv_holds :: "sv_market \<Rightarrow> pid \<Rightarrow> lock \<Rightarrow> bool" where
  "sv_holds m (Consumer c) l \<longleftrightarrow> vlock c_lock (vcons m c) = Some l"
| "sv_holds m (Supplier i) l \<longleftrightarrow> vlock (s_lock i) (vsups m i) = Some l"

fun sv_ended :: "sv_market \<Rightarrow> pid \<Rightarrow> bool" where
  "sv_ended m (Consumer c) \<longleftrightarrow> gone (vcons m c)"
| "sv_ended m (Supplier i) \<longleftrightarrow> gone (vsups m i)"

definition sv_booked :: "sv_market \<Rightarrow> bool" where
  "sv_booked m \<longleftrightarrow> (\<forall>c. cadj m c = adj_for (vlock c_lock (vcons m c))) \<and>
     (\<forall>i. sadj m i = adj_for (vlock (s_lock i) (vsups m i)))"

definition sv_unforked :: "nat \<Rightarrow> nat \<Rightarrow> sv_market \<Rightarrow> bool" where
  "sv_unforked C n m \<longleftrightarrow>
     (\<forall>c. (case vpar m of P_fork k \<Rightarrow> k | _ \<Rightarrow> C) \<le> c \<or> C \<le> c \<longrightarrow> vcons m c = V_none) \<and>
     (\<forall>i. (case vpar m of P_fork k \<Rightarrow> k | _ \<Rightarrow> C + n) \<le> C + i \<or> n \<le> i \<longrightarrow> vsups m i = V_none)"

inductive_simps sv_none [simp]: "sv_proc fails first refused body over well (V_none, a, sh) x"

lemma sv_consume_none [simp]: "\<not> sv_consume fails n c (V_none, a, sh) x"
  by (simp add: sv_consume_def)

lemma sv_supply_none [simp]: "\<not> sv_supply fails i u (V_none, a, sh) x"
  by (simp add: sv_supply_def)

lemma sv_consume_locks:
  assumes "sv_consume fails n c (x, a, sh) (y, b, sh')" "a = adj_for (vlock c_lock x)"
  shows "b = adj_for (vlock c_lock y) \<and> lock_move sh (vlock c_lock x) sh' (vlock c_lock y)"
  using assms(1) unfolding sv_consume_def
  by (rule sv_proc_locks [OF _ _ _ assms(2)]) (simp_all add: consume_locks)

lemma sv_supply_locks:
  assumes "sv_supply fails i u (x, a, sh) (y, b, sh')" "a = adj_for (vlock (s_lock i) x)"
  shows "b = adj_for (vlock (s_lock i) y) \<and> lock_move sh (vlock (s_lock i) x) sh' (vlock (s_lock i) y)"
  using assms(1) unfolding sv_supply_def
  by (rule sv_proc_locks [OF _ _ _ assms(2)]) (simp_all add: supply_locks)

lemma vlock_idle: "x = V_none \<or> x = V_attach \<Longrightarrow> vlock lk x = None"
  by auto

text \<open>Each step moves the lock of one process.\<close>

lemma sv_moves:
  assumes "sv_market_step fails C n u m t" "sv_unforked C n m" "sv_booked m"
  shows "((\<exists>c. lock_move (vmem m) (vlock c_lock (vcons m c)) (vmem t) (vlock c_lock (vcons t c)) \<and>
            (\<forall>d. d \<noteq> c \<longrightarrow> vcons t d = vcons m d) \<and> vsups t = vsups m) \<or>
         (\<exists>i. lock_move (vmem m) (vlock (s_lock i) (vsups m i)) (vmem t) (vlock (s_lock i) (vsups t i)) \<and>
            (\<forall>d. d \<noteq> i \<longrightarrow> vsups t d = vsups m d) \<and> vcons t = vcons m)) \<and> sv_booked t"
  using assms
proof (cases rule: sv_market_step.cases)
  case (consumer c x a sh)
  then have "a = adj_for (vlock c_lock x) \<and> lock_move (vmem m) (vlock c_lock (vcons m c)) sh (vlock c_lock x)"
    using assms(3) by (intro sv_consume_locks) (auto simp: sv_booked_def)
  then show ?thesis using consumer assms(3) by (auto simp: sv_booked_def)
next
  case (supplier i x a sh)
  then have "a = adj_for (vlock (s_lock i) x) \<and> lock_move (vmem m) (vlock (s_lock i) (vsups m i)) sh (vlock (s_lock i) x)"
    using assms(3) by (intro sv_supply_locks) (auto simp: sv_booked_def)
  then show ?thesis using supplier assms(3) by (auto simp: sv_booked_def)
next
  case (fork_consumer k)
  then have "vcons m k = V_none" using assms(2) by (simp add: sv_unforked_def)
  then show ?thesis using fork_consumer assms(3)
    by (intro conjI disjI1 exI [of _ k]) (auto simp: lock_move_same sv_booked_def)
next
  case (fork_supplier k)
  then have "vsups m (k - C) = V_none" using assms(2) by (simp add: sv_unforked_def)
  then show ?thesis using fork_supplier assms(3)
    by (intro conjI disjI2 exI [of _ "k - C"]) (auto simp: lock_move_same sv_booked_def)
next
  case (kill_consumer k)
  have e: "adj_for None = (\<lambda>l. 0)" by (simp add: adj_for_def)
  show ?thesis using kill_consumer assms(3) undo_move [OF lock_move_same]
    by (intro conjI disjI1 exI [of _ k]) (auto simp: sv_booked_def e)
next
  case (kill_supplier k)
  have e: "adj_for None = (\<lambda>l. 0)" by (simp add: adj_for_def)
  show ?thesis using kill_supplier assms(3) undo_move [OF lock_move_same]
    by (intro conjI disjI2 exI [of _ "k - C"]) (auto simp: sv_booked_def e)
qed (use assms(3) in \<open>auto simp: lock_move_same sv_booked_def\<close>)

lemma sv_unforked_step:
  assumes "sv_market_step fails C n u m t" "sv_unforked C n m"
  shows "sv_unforked C n t"
  using assms
proof (cases rule: sv_market_step.cases)
  case (consumer c p sh)
  then show ?thesis using assms(2) by (auto simp: sv_unforked_def)
next
  case (supplier i p sh)
  then show ?thesis using assms(2) by (auto simp: sv_unforked_def)
qed (auto simp: sv_unforked_def split: ppc.splits)

lemma sv_booked_reach: "sv_reach C n D u m \<Longrightarrow> sv_unforked C n m \<and> sv_booked m"
proof (induction rule: reach_invariant)
  case (start s)
  then show ?case by (simp add: sv_start_market_def sv_unforked_def sv_booked_def adj_for_def)
next
  case (step s t)
  then show ?case using sv_unforked_step sv_moves by blast
qed

lemma sv_discipline:
  assumes "sv_market_step fails C n u m t" "sv_unforked C n m" "sv_booked m"
  shows "sem (vmem t) = sem (vmem m) \<and> sv_holds t = sv_holds m \<or>
    (\<exists>p l. takes (sem (vmem m)) (sv_holds m) p l (sem (vmem t)) (sv_holds t)) \<or>
    (\<exists>p l. gives (sem (vmem m)) (sv_holds m) p l (sem (vmem t)) (sv_holds t))"
  using sv_moves [OF assms, THEN conjunct1]
proof (elim disjE exE conjE)
  fix c
  assume a: "lock_move (vmem m) (vlock c_lock (vcons m c)) (vmem t) (vlock c_lock (vcons t c))"
    "\<forall>d. d \<noteq> c \<longrightarrow> vcons t d = vcons m d" "vsups t = vsups m"
  have "sv_holds t q l = ((sv_holds m)(Consumer c := \<lambda>l. vlock c_lock (vcons t c) = Some l)) q l" for q l
    using a(2,3) by (cases q) auto
  then show ?thesis by (intro lock_move_discipline [OF a(1), of _ "Consumer c"]) (auto simp: fun_eq_iff)
next
  fix i
  assume a: "lock_move (vmem m) (vlock (s_lock i) (vsups m i)) (vmem t) (vlock (s_lock i) (vsups t i))"
    "\<forall>d. d \<noteq> i \<longrightarrow> vsups t d = vsups m d" "vcons t = vcons m"
  have "sv_holds t q l = ((sv_holds m)(Supplier i := \<lambda>l. vlock (s_lock i) (vsups t i) = Some l)) q l" for q l
    using a(2,3) by (cases q) auto
  then show ?thesis by (intro lock_move_discipline [OF a(1), of _ "Supplier i"]) (auto simp: fun_eq_iff)
qed

interpretation sv: undo_discipline "\<lambda>m. m = sv_start_market C D u" "sv_market_step True C n u"
  "\<lambda>m. sem (vmem m)" sv_holds sv_ended for C n D u
proof
  fix s l assume "s = sv_start_market C D u"
  then show "sem (vmem s) l = 1" by (simp add: sv_start_market_def start_shop_def)
next
  fix s p l assume "s = sv_start_market C D u"
  then show "\<not> sv_holds s p l" by (cases p) (simp_all add: sv_start_market_def)
next
  fix s t assume "sv_reach C n D u s" "sv_market_step True C n u s t"
  then show "sem (vmem t) = sem (vmem s) \<and> sv_holds t = sv_holds s \<or>
    (\<exists>p l. takes (sem (vmem s)) (sv_holds s) p l (sem (vmem t)) (sv_holds t)) \<or>
    (\<exists>p l. gives (sem (vmem s)) (sv_holds s) p l (sem (vmem t)) (sv_holds t))"
    using sv_discipline sv_booked_reach by blast
next
  fix s p l assume "sv_ended s p"
  then show "\<not> sv_holds s p l" by (cases p) (auto elim: gone.elims)
qed

section \<open>Progress\<close>

definition sv_running :: "sv_market \<Rightarrow> bool" where
  "sv_running m \<longleftrightarrow> (\<forall>c p. vcons m c = V_run p \<longrightarrow> \<not> c_over p \<and> p \<noteq> C_none) \<and>
     (\<forall>i p. vsups m i = V_run p \<longrightarrow> \<not> s_over p \<and> p \<noteq> S_none)"

lemma consume_not_none: "consume_step n c (p, sh) (q, sh') \<Longrightarrow> q \<noteq> C_none \<and> p \<noteq> C_none"
  by (erule consume_step.cases) auto

lemma supply_not_none: "supply_step i u (p, sh) (q, sh') \<Longrightarrow> q \<noteq> S_none \<and> p \<noteq> S_none"
  by (erule supply_step.cases) auto

lemma sv_consume_running:
  assumes "sv_consume fails n c (x, a, sh) (V_run q, b, sh')"
  shows "\<not> c_over q \<and> q \<noteq> C_none"
  using assms unfolding sv_consume_def by (cases rule: sv_proc.cases) (auto dest: consume_not_none)

lemma sv_supply_running:
  assumes "sv_supply fails i u (x, a, sh) (V_run q, b, sh')"
  shows "\<not> s_over q \<and> q \<noteq> S_none"
  using assms unfolding sv_supply_def by (cases rule: sv_proc.cases) (auto dest: supply_not_none)

lemma sv_running_step: "sv_market_step fails C n u m t \<Longrightarrow> sv_running m \<Longrightarrow> sv_running t"
proof (induction rule: sv_market_step.induct)
  case (consumer c m x a sh)
  then show ?case by (auto simp: sv_running_def dest: sv_consume_running split: if_splits)
next
  case (supplier i m x a sh)
  then show ?case by (auto simp: sv_running_def dest: sv_supply_running split: if_splits)
qed (auto simp: sv_running_def)

lemma sv_running_reach: "sv_reach C n D u m \<Longrightarrow> sv_running m"
proof (induction rule: reach_invariant)
  case (start s)
  then show ?case by (simp add: sv_start_market_def sv_running_def)
next
  case (step s t)
  then show ?case using sv_running_step by blast
qed

lemma c_sound_over: "\<not> c_over p \<Longrightarrow> c_sound p" "c_sound p \<Longrightarrow> c_over p \<Longrightarrow> p = C_exit"
  by (cases p; simp)+

lemma s_sound_over: "\<not> s_over p \<Longrightarrow> s_sound p" "s_sound p \<Longrightarrow> s_over p \<Longrightarrow> p = S_exit"
  by (cases p; simp)+

lemma sv_consume_moves:
  assumes "\<not> c_over p" "p \<noteq> C_none" "0 < n"
    and "\<And>l. (\<exists>j. p = C_wait j \<and> l = Shelf j) \<or> (p = C_jwait \<and> l = Jobs) \<Longrightarrow> 0 < sem sh l"
  shows "\<exists>x b sh'. sv_consume fails n c (V_run p, a, sh) (x, b, sh')"
proof -
  obtain q sh' where q: "consume_step n c (p, sh) (q, sh')" "c_sound q"
    using consume_moves [OF c_sound_over(1) [OF assms(1)] assms] by blast
  then show ?thesis unfolding sv_consume_def
    using sv_proc.run [of "consume_step n c", OF q(1), of c_over] sv_proc.ends [of "consume_step n c", OF q(1), of c_over]
      c_sound_over(2) [OF q(2)] by blast
qed

lemma sv_supply_moves:
  assumes "\<not> s_over p" "p \<noteq> S_none" "stock sh i + u \<le> INT_MAX"
    and "\<And>l. (p = S_wait \<and> l = Shelf i) \<or> (p = S_jwait \<and> l = Jobs) \<Longrightarrow> 0 < sem sh l"
  shows "\<exists>x b sh'. sv_supply fails i u (V_run p, a, sh) (x, b, sh')"
proof -
  obtain q sh' where q: "supply_step i u (p, sh) (q, sh')" "s_sound q"
    using supply_moves [OF s_sound_over(1) [OF assms(1)] assms] by blast
  then show ?thesis unfolding sv_supply_def
    using sv_proc.run [of "supply_step i u", OF q(1), of s_over] sv_proc.ends [of "supply_step i u", OF q(1), of s_over]
      s_sound_over(2) [OF q(2)] by blast
qed

lemma sv_consumer_moves:
  assumes "sv_running m" "0 < n" "vcons m c \<noteq> V_none" "\<not> gone (vcons m c)"
    and "\<And>l. vcons m c = V_run C_jwait \<and> l = Jobs \<or> (\<exists>j. vcons m c = V_run (C_wait j) \<and> l = Shelf j) \<Longrightarrow> 0 < sem (vmem m) l"
  shows "\<exists>t. sv_market_step fails C n u m t"
proof (cases "vcons m c")
  case V_attach
  then have "sv_consume fails n c (vcons m c, cadj m c, vmem m) (V_run C_pick, cadj m c, vmem m)"
    by (simp add: sv_consume_def sv_proc.attach)
  then show ?thesis using sv_market_step.consumer by blast
next
  case (V_run p)
  then have "\<not> c_over p" "p \<noteq> C_none" using assms(1) by (auto simp: sv_running_def)
  then obtain x b sh where "sv_consume fails n c (V_run p, cadj m c, vmem m) (x, b, sh)"
    using sv_consume_moves [of p n "vmem m" fails c "cadj m c"] assms(2,5) V_run by blast
  then show ?thesis using sv_market_step.consumer [of fails n c m] V_run by metis
qed (use assms(3,4) in auto)

lemma sv_supplier_moves:
  assumes "sv_running m" "stock (vmem m) i + u \<le> INT_MAX" "vsups m i \<noteq> V_none" "\<not> gone (vsups m i)"
    and "\<And>l. vsups m i = V_run S_jwait \<and> l = Jobs \<or> vsups m i = V_run S_wait \<and> l = Shelf i \<Longrightarrow> 0 < sem (vmem m) l"
  shows "\<exists>t. sv_market_step fails C n u m t"
proof (cases "vsups m i")
  case V_attach
  then have "sv_supply fails i u (vsups m i, sadj m i, vmem m) (V_run S_wait, sadj m i, vmem m)"
    by (simp add: sv_supply_def sv_proc.attach)
  then show ?thesis using sv_market_step.supplier by blast
next
  case (V_run p)
  then have "\<not> s_over p" "p \<noteq> S_none" using assms(1) by (auto simp: sv_running_def)
  then obtain x b sh where "sv_supply fails i u (V_run p, sadj m i, vmem m) (x, b, sh)"
    using sv_supply_moves [of p "vmem m" i u fails "sadj m i"] assms(2,5) V_run by blast
  then show ?thesis using sv_market_step.supplier [of fails i u m] V_run by metis
qed (use assms(3,4) in auto)

lemma sv_live_moves:
  assumes r: "sv_reach C n D u m" and n: "0 < n" and st: "\<And>j. stock (vmem m) j + u \<le> INT_MAX"
    and live: "(vcons m c \<noteq> V_none \<and> \<not> gone (vcons m c)) \<or> (vsups m i \<noteq> V_none \<and> \<not> gone (vsups m i))"
  shows "\<exists>t. sv_market_step fails C n u m t"
proof (cases "\<exists>l. sem (vmem m) l = 0")
  case True
  then obtain l p where h: "sv_holds m p l" "\<not> sv_ended m p" using sv.holder_goes_on [OF r] by blast
  show ?thesis
  proof (cases p)
    case (Consumer d)
    with h show ?thesis by (intro sv_consumer_moves [OF sv_running_reach [OF r] n, of d]) auto
  next
    case (Supplier d)
    with h show ?thesis by (intro sv_supplier_moves [OF sv_running_reach [OF r] st, of d]) auto
  qed
next
  case False
  then have f: "0 < sem (vmem m) l" for l by simp
  from live show ?thesis
    using sv_consumer_moves [OF sv_running_reach [OF r] n, of c] sv_supplier_moves [OF sv_running_reach [OF r] st, of i] f
    by blast
qed

lemma sv_parent_bound:
  assumes "sv_reach C n D u m"
  shows "(\<forall>k. vpar m = P_fork k \<longrightarrow> k \<le> C + n) \<and> (\<forall>k b. vpar m = P_end k b \<longrightarrow> k \<le> C + n)"
  using assms
proof (induction rule: reach_invariant)
  case (start s)
  then show ?case by (simp add: sv_start_market_def)
next
  case (step s t)
  from step.hyps(2) step.IH show ?case by (cases rule: sv_market_step.cases) auto
qed

text \<open>
  C16: the System V market never deadlocks, whatever calls have failed and whatever processes have
  been killed, also inside a critical section: until the parent is done some process can go on
  without a failure, when every stock is far enough from \<open>INT_MAX\<close> for one more delivery.
\<close>

theorem sysv_market_progress:
  assumes r: "sv_reach C n D u m" and n: "0 < n" and st: "\<forall>j. stock (vmem m) j + u \<le> INT_MAX"
  shows "(\<exists>b. vpar m = P_done b) \<or> (\<exists>t. sv_market_step False C n u m t)"
proof (cases "vpar m")
  case (P_fork k)
  then have "k \<le> C + n" using sv_parent_bound [OF r] by blast
  then consider "k < C" | "C \<le> k" "k < C + n" | "k = C + n" by linarith
  then show ?thesis using P_fork sv_market_step.fork_consumer [OF P_fork] sv_market_step.fork_supplier [OF P_fork]
      sv_market_step.forked [of m C n False u] by cases blast+
next
  case (P_end k b)
  note live = sv_live_moves [OF r n st [rule_format]]
  from P_end have "k \<le> C + n" using sv_parent_bound [OF r] by blast
  then consider "k < C" | "C \<le> k" "k < C + n" | "k = C + n" by linarith
  then show ?thesis
  proof cases
    case 1
    then show ?thesis using live [of k] sv_market_step.reap_consumer [OF P_end 1] by blast
  next
    case 2
    then show ?thesis using live [of _ "k - C"] sv_market_step.reap_supplier [OF P_end 2] by blast
  next
    case 3
    then show ?thesis using sv_market_step.all_reaped [of m C n b False u] P_end by blast
  qed
qed blast

section \<open>The data\<close>

text \<open>
  The System V market seen as a market of the POSIX program: only the values of the semaphores
  differ, since a process that has failed keeps its semaphore there.
\<close>

definition market_view :: "sv_market \<Rightarrow> market" where
  "market_view m = \<lparr>cpcs = (\<lambda>c. at_pc C_none C_pick (vcons m c)), spcs = (\<lambda>i. at_pc S_none S_wait (vsups m i)),
     parent = vpar m, mem = vmem m\<rparr>"

definition no_kill :: "sv_market \<Rightarrow> bool" where
  "no_kill m \<longleftrightarrow> (\<forall>k. vpar m \<noteq> P_end k True) \<and> vpar m \<noteq> P_done True"

definition sv_ends :: "sv_market \<Rightarrow> bool" where
  "sv_ends m \<longleftrightarrow> (\<forall>c p. vcons m c = V_gone p \<longrightarrow> p = C_exit \<or> (\<exists>l. p = C_fail l)) \<and>
     (\<forall>i p. vsups m i = V_gone p \<longrightarrow> p = S_exit \<or> (\<exists>l. p = S_fail l) \<or> p = S_overflow)"

lemma no_kill_back: "sv_market_step fails C n u m t \<Longrightarrow> no_kill t \<Longrightarrow> no_kill m"
  by (induction rule: sv_market_step.induct) (auto simp: no_kill_def)

lemma consume_ends: "consume_step n c (p, sh) (q, sh') \<Longrightarrow> c_over q \<Longrightarrow> q = C_exit \<or> (\<exists>l. q = C_fail l)"
  by (erule consume_step.cases) auto

lemma supply_ends: "supply_step i u (p, sh) (q, sh') \<Longrightarrow> s_over q \<Longrightarrow> q = S_exit \<or> (\<exists>l. q = S_fail l) \<or> q = S_overflow"
  by (erule supply_step.cases) auto

lemma sv_consume_ends:
  assumes "sv_consume fails n c (x, a, sh) (V_gone q, b, sh')"
  shows "q = C_exit \<or> (\<exists>l. q = C_fail l)"
  using assms unfolding sv_consume_def by (cases rule: sv_proc.cases) (auto dest: consume_ends)

lemma sv_supply_ends:
  assumes "sv_supply fails i u (x, a, sh) (V_gone q, b, sh')"
  shows "q = S_exit \<or> (\<exists>l. q = S_fail l) \<or> q = S_overflow"
  using assms unfolding sv_supply_def by (cases rule: sv_proc.cases) (auto dest: supply_ends)

lemma sv_ends_step: "sv_market_step fails C n u m t \<Longrightarrow> sv_ends m \<Longrightarrow> no_kill m \<Longrightarrow> sv_ends t"
proof (induction rule: sv_market_step.induct)
  case (consumer c m x a sh)
  then show ?case by (auto simp: sv_ends_def dest: sv_consume_ends split: if_splits)
next
  case (supplier i m x a sh)
  then show ?case by (auto simp: sv_ends_def dest: sv_supply_ends split: if_splits)
qed (auto simp: sv_ends_def no_kill_def)

lemma view_undisturbed:
  assumes r: "sv_reach C n D u m" and e: "sv_ends m" and p: "\<And>l. holds_lock (market_view m) p l \<Longrightarrow> sv_holds m p l"
  shows "undisturbed (market_view m) p"
  unfolding undisturbed_def
proof (intro allI impI, elim conjE)
  fix q l assume q: "q \<noteq> p" "holds_lock (market_view m) q l" "\<not> has_failed (market_view m) q"
  have "sv_holds m q l"
  proof (cases q)
    case (Consumer c)
    have "x = C_exit \<or> (\<exists>l. x = C_fail l)" if "vcons m c = V_gone x" for x using e that by (simp add: sv_ends_def)
    then show ?thesis using q Consumer by (cases "vcons m c") (force simp: market_view_def)+
  next
    case (Supplier i)
    have "x = S_exit \<or> (\<exists>l. x = S_fail l) \<or> x = S_overflow" if "vsups m i = V_gone x" for x
      using e that by (simp add: sv_ends_def)
    then show ?thesis using q Supplier by (cases "vsups m i") (force simp: market_view_def)+
  qed
  then show "\<not> holds_lock (market_view m) p l" using sv.mutual_exclusion [OF r, of q l p] p q(1) by blast
qed

lemma market_inv_undo:
  assumes "market_inv C n D u m"
  shows "market_inv C n D u (m\<lparr>mem := undo_sems a (mem m)\<rparr>)"
proof -
  let ?sh = "undo_sems a (mem m)"
  note v = market_invD [OF assms]
  have e: "dem ?sh = dem (mem m)" "stock ?sh = stock (mem m)" "jobs ?sh = jobs (mem m)" "restocks ?sh = restocks (mem m)"
    by (simp_all add: undo_sems_def)
  have "c_ok n ?sh c (cpcs m c)" for c by (rule c_ok_frame [OF v(1)]) (simp_all add: e)
  moreover have "s_ok u ?sh i (spcs m i)" for i by (rule s_ok_frame [OF v(2)]) (simp_all add: e)
  ultimately show ?thesis using v by (simp add: market_inv_def stocks_ok_def e)
qed

lemma view_consumer:
  assumes r: "sv_reach C n D u m" and e: "sv_ends m" and inv: "market_inv C n D u (market_view m)" and c: "c < C"
    and st: "sv_consume fails n c (vcons m c, a, vmem m) (x, b, sh)"
  shows "market_inv C n D u (market_view (m\<lparr>vcons := (vcons m)(c := x), cadj := ca, vmem := sh\<rparr>))"
proof -
  have w: "market_view (m\<lparr>vcons := (vcons m)(c := x), cadj := ca, vmem := sh\<rparr>) =
      (market_view m)\<lparr>cpcs := (cpcs (market_view m))(c := at_pc C_none C_pick x), mem := sh\<rparr>" for x sh
    by (simp add: market_view_def fun_eq_iff)
  have body: "market_inv C n D u ((market_view m)\<lparr>cpcs := (cpcs (market_view m))(c := q), mem := sh\<rparr>)"
    if "vcons m c = V_run p" "consume_step n c (p, vmem m) (q, sh)" for p q sh
  proof (rule inv_consumer [OF _ inv c])
    show "undisturbed (market_view m) (Consumer c)"
      using that(1) by (intro view_undisturbed [OF r e]) (simp add: market_view_def)
  qed (use that in \<open>simp add: market_view_def\<close>)
  from st show ?thesis
    unfolding sv_consume_def w
  proof (cases rule: sv_proc.cases)
    case attach
    then show "market_inv C n D u ((market_view m)\<lparr>cpcs := (cpcs (market_view m))(c := at_pc C_none C_pick x), mem := sh\<rparr>)"
      using inv by (intro inv_parent [OF inv]) (auto simp: market_view_def)
  next
    case attach_fail
    have "market_inv C n D u ((market_view m)\<lparr>cpcs := (cpcs (market_view m))(c := C_fail None)\<rparr>)"
      using attach_fail inv by (intro inv_parent [OF inv]) (auto simp: market_view_def)
    from market_inv_undo [OF this, of a]
    show "market_inv C n D u ((market_view m)\<lparr>cpcs := (cpcs (market_view m))(c := at_pc C_none C_pick x), mem := sh\<rparr>)"
      using attach_fail by (simp add: market_view_def)
  next
    case (run p q)
    then show "market_inv C n D u ((market_view m)\<lparr>cpcs := (cpcs (market_view m))(c := at_pc C_none C_pick x), mem := sh\<rparr>)"
      using body by simp
  next
    case (ends p q s)
    from market_inv_undo [OF body [OF ends(1,5)], of "adjust a (vmem m) s"]
    show "market_inv C n D u ((market_view m)\<lparr>cpcs := (cpcs (market_view m))(c := at_pc C_none C_pick x), mem := sh\<rparr>)"
      using ends by (simp add: market_view_def)
  qed
qed

lemma view_supplier:
  assumes r: "sv_reach C n D u m" and e: "sv_ends m" and inv: "market_inv C n D u (market_view m)" and i: "i < n" and u: "0 \<le> u"
    and st: "sv_supply fails i u (vsups m i, a, vmem m) (x, b, sh)"
  shows "market_inv C n D u (market_view (m\<lparr>vsups := (vsups m)(i := x), sadj := sa, vmem := sh\<rparr>))"
proof -
  have w: "market_view (m\<lparr>vsups := (vsups m)(i := x), sadj := sa, vmem := sh\<rparr>) =
      (market_view m)\<lparr>spcs := (spcs (market_view m))(i := at_pc S_none S_wait x), mem := sh\<rparr>" for x sh
    by (simp add: market_view_def fun_eq_iff)
  have body: "market_inv C n D u ((market_view m)\<lparr>spcs := (spcs (market_view m))(i := q), mem := sh\<rparr>)"
    if "vsups m i = V_run p" "supply_step i u (p, vmem m) (q, sh)" for p q sh
  proof (rule inv_supplier [OF _ inv i u])
    show "undisturbed (market_view m) (Supplier i)"
      using that(1) by (intro view_undisturbed [OF r e]) (simp add: market_view_def)
  qed (use that in \<open>simp add: market_view_def\<close>)
  from st show ?thesis
    unfolding sv_supply_def w
  proof (cases rule: sv_proc.cases)
    case attach
    then show "market_inv C n D u ((market_view m)\<lparr>spcs := (spcs (market_view m))(i := at_pc S_none S_wait x), mem := sh\<rparr>)"
      using inv by (intro inv_parent [OF inv]) (auto simp: market_view_def)
  next
    case attach_fail
    have "market_inv C n D u ((market_view m)\<lparr>spcs := (spcs (market_view m))(i := S_fail None)\<rparr>)"
      using attach_fail inv by (intro inv_parent [OF inv]) (auto simp: market_view_def)
    from market_inv_undo [OF this, of a]
    show "market_inv C n D u ((market_view m)\<lparr>spcs := (spcs (market_view m))(i := at_pc S_none S_wait x), mem := sh\<rparr>)"
      using attach_fail by (simp add: market_view_def)
  next
    case (run p q)
    then show "market_inv C n D u ((market_view m)\<lparr>spcs := (spcs (market_view m))(i := at_pc S_none S_wait x), mem := sh\<rparr>)"
      using body by simp
  next
    case (ends p q s)
    from market_inv_undo [OF body [OF ends(1,5)], of "adjust a (vmem m) s"]
    show "market_inv C n D u ((market_view m)\<lparr>spcs := (spcs (market_view m))(i := at_pc S_none S_wait x), mem := sh\<rparr>)"
      using ends by (simp add: market_view_def)
  qed
qed

lemma view_step:
  assumes r: "sv_reach C n D u m" and e: "sv_ends m" and inv: "market_inv C n D u (market_view m)" and u: "0 \<le> u"
    and k: "no_kill m" and st: "sv_market_step fails C n u m t"
  shows "market_inv C n D u (market_view t)"
proof -
  have un: "sv_unforked C n m" using sv_booked_reach [OF r] by blast
  from st show ?thesis
  proof (cases rule: sv_market_step.cases)
    case (consumer c x a sh)
    then have "c < C" using un by (cases "c < C") (auto simp: sv_unforked_def)
    then show ?thesis using view_consumer [OF r e inv] consumer by blast
  next
    case (supplier i x a sh)
    then have "i < n" using un by (cases "i < n") (auto simp: sv_unforked_def)
    then show ?thesis using view_supplier [OF r e inv _ u] supplier by blast
  next
    case (fork_consumer j)
    then have "vcons m j = V_none" using un by (simp add: sv_unforked_def)
    then show ?thesis using fork_consumer by (intro inv_parent [OF inv]) (auto simp: market_view_def)
  next
    case (fork_supplier j)
    then have "vsups m (j - C) = V_none" using un by (simp add: sv_unforked_def)
    then show ?thesis using fork_supplier by (intro inv_parent [OF inv]) (auto simp: market_view_def)
  qed (use k in \<open>auto simp: market_view_def no_kill_def intro!: inv_parent [OF inv]\<close>)
qed

lemma view_reach:
  assumes "sv_reach C n D u m" "0 < D" "0 \<le> u" "u \<le> INT_MAX"
  shows "no_kill m \<longrightarrow> sv_ends m \<and> market_inv C n D u (market_view m)"
  using assms(1)
proof (induction rule: reach_invariant)
  case (start s)
  have "market_view (sv_start_market C D u) = start_market C D u"
    by (simp add: market_view_def sv_start_market_def start_market_def)
  then show ?case using start market_inv_start [OF assms(2-4), of C n] by (simp add: sv_ends_def sv_start_market_def)
next
  case (step s t)
  then show ?case using no_kill_back [OF step.hyps(2)] sv_ends_step [OF step.hyps(2)] view_step [OF _ _ _ assms(3)] by blast
qed

lemma sysv_supplier_leaves:
  assumes "sv_reach C n D u m" "0 < D" "0 \<le> u" "u \<le> INT_MAX" "no_kill m" "vsups m i = V_gone S_exit" "c < C"
  shows "dem (vmem m) c = 0"
proof -
  have inv: "market_inv C n D u (market_view m)" using view_reach [OF assms(1-4)] assms(5) by blast
  show ?thesis using none_left_inv [OF inv, of i c] assms(6,7) market_invD(1) [OF inv, of c] c_ok_signed
    by (fastforce simp: market_view_def)
qed

text \<open>
  C17: as long as the parent has not begun to kill its children, also when calls of the children have
  failed, no goods are lost in the System V market, demands and stocks stay in range, and the job
  counter is the number of consumers that have not taken themselves off.
\<close>

theorem sysv_market_goods:
  assumes "sv_reach C n D u m" "0 < D" "0 \<le> u" "u \<le> INT_MAX" "no_kill m"
  shows "(\<Sum>j<n. stock (vmem m) j) + (\<Sum>c<C. D - dem (vmem m) c) =
      u * int (n + (\<Sum>i<n. restocks (vmem m) i)) + (\<Sum>c<C. inflight (cpcs (market_view m) c)) \<and>
    0 \<le> dem (vmem m) c \<and> 0 \<le> stock (vmem m) j \<and> stock (vmem m) j \<le> INT_MAX \<and>
    jobs (vmem m) = int (card {c \<in> {..<C}. \<not> signed_off (cpcs (market_view m) c)})"
proof -
  have inv: "market_inv C n D u (market_view m)" using view_reach [OF assms(1-4)] assms(5) by blast
  note v = market_invD [OF inv]
  have e: "mem (market_view m) = vmem m" by (simp add: market_view_def)
  have "0 \<le> dem (vmem m) c" using c_ok_dem [OF v(1), of c] e by simp
  moreover have "0 \<le> stock (vmem m) j \<and> stock (vmem m) j \<le> INT_MAX" using v(3) e by (simp add: stocks_ok_def)
  ultimately show ?thesis using v(4,5) e by simp
qed

section \<open>Instances\<close>

text \<open>The market after its first \<open>fork\<close>.\<close>

definition one_started :: sv_market where
  "one_started = (sv_start_market 1 5000 500)\<lparr>vcons := (\<lambda>c. V_none)(0 := V_attach), vpar := P_fork 1\<rparr>"

lemma one_started_reach: "sv_reach 1 1 5000 500 one_started"
proof (rule reach_step [where s = "sv_start_market 1 5000 500"])
  show "sv_reach 1 1 5000 500 (sv_start_market 1 5000 500)" by (rule reach_start) simp
  show "sv_market_step True 1 1 500 (sv_start_market 1 5000 500) one_started"
    using sv_market_step.fork_consumer [of "sv_start_market 1 5000 500" 0 1 True 1 500]
    by (simp add: one_started_def sv_start_market_def)
qed

theorem sysv_market_progress_witness: "\<exists>t. sv_market_step False 1 1 500 one_started t"
  using sysv_market_progress [OF one_started_reach] by (simp add: one_started_def sv_start_market_def start_shop_def)

theorem sysv_market_goods_witness:
  "(\<Sum>j<1. stock (vmem one_started) j) + (\<Sum>c<1. 5000 - dem (vmem one_started) c) = 500 * int (1 + (\<Sum>i<1. restocks (vmem one_started) i)) +
    (\<Sum>c<1. inflight (cpcs (market_view one_started) c)) \<and> jobs (vmem one_started) = 1"
proof -
  have "no_kill one_started" by (simp add: no_kill_def one_started_def)
  from sysv_market_goods [OF one_started_reach _ _ _ this, of 0 0] show ?thesis
    by (simp add: one_started_def sv_start_market_def start_shop_def)
qed

end
