(* ===== verification/Sysv_Main.thy ===== *)
theory Sysv_Main
  imports Market_Owner Incr_Main
begin

text \<open>
  The parent of LAB_16/task_system_v_semaphores_2 outside the loops of \<open>fork\<close> and \<open>waitpid\<close>. Its
  command line and the arithmetic of its segment are those of the POSIX program.
\<close>

section \<open>System V objects\<close>

text \<open>
  What exists under the three keys (\<open>None\<close> is nothing), and the local variables: an identifier is
  -1 (\<open>False\<close>) until its call has succeeded. The calls that create have \<open>IPC_EXCL\<close>.
\<close>

record vm_state =
  vm_seg :: "int list option"
  vm_sems :: "int list option"
  vm_jobs :: "int option"
  vm_pids :: bool
  vm_shmid :: bool
  vm_semid :: bool
  vm_jobs_semid :: bool
  vm_ptr :: attach

record vm_sys =
  ok_stat :: bool
  ok_ftok :: bool
  ok_calloc :: bool
  ok_shmget :: bool
  ok_semget :: bool
  ok_jobs_semget :: bool
  ok_setval :: "nat \<Rightarrow> bool"
  ok_jobs_setval :: bool
  ok_shmat :: bool
  ok_shmdt :: bool
  ok_rm_shm :: bool
  ok_rm_sem :: bool
  ok_rm_jobs :: bool

definition vm_fresh :: "int list option \<Rightarrow> int list option \<Rightarrow> int option \<Rightarrow> vm_state" where
  "vm_fresh seg sems jb = \<lparr>vm_seg = seg, vm_sems = sems, vm_jobs = jb, vm_pids = False,
     vm_shmid = False, vm_semid = False, vm_jobs_semid = False, vm_ptr = Detached\<rparr>"

definition sv_command_line :: "string list \<Rightarrow> bool + settings" where
  "sv_command_line = command_line"

text \<open>The loop of \<open>semctl(semid, i, SETVAL, arg)\<close>.\<close>

fun vm_set_vals :: "vm_sys \<Rightarrow> nat list \<Rightarrow> int list \<Rightarrow> int list \<times> bool" where
  "vm_set_vals sys [] vs = (vs, True)"
| "vm_set_vals sys (i # is) vs = (if ok_setval sys i then vm_set_vals sys is (vs[i := 1]) else (vs, False))"

section \<open>The calls up to the first fork\<close>

definition vm_set_up :: "vm_sys \<Rightarrow> settings \<Rightarrow> vm_state \<Rightarrow> (vm_state \<times> bool) run" where
  "vm_set_up sys st s =
     (let procs = cons_num st + sup_num st in
      if \<not> ok_stat sys then Done (s, False)
      else if 2 ^ 31 \<le> procs \<or> procs < - (2 ^ 31) then Fault IntOverflow
      else if \<not> ok_calloc sys \<or> procs < 0 then Done (s, False)
      else let s = s\<lparr>vm_pids := True\<rparr> in
      if \<not> ok_ftok sys then Done (s, False)
      else if \<not> ok_shmget sys \<or> vm_seg s \<noteq> None then Done (s, False)
      else let s = s\<lparr>vm_seg := Some (replicate (nat (memseg_size st div 4)) 0), vm_shmid := True\<rparr> in
      if \<not> ok_semget sys \<or> sup_num st < 0 \<or> vm_sems s \<noteq> None then Done (s, False)
      else let s = s\<lparr>vm_sems := Some (replicate (nat (sup_num st)) 0), vm_semid := True\<rparr> in
      if \<not> ok_jobs_semget sys \<or> vm_jobs s \<noteq> None then Done (s, False)
      else let s = s\<lparr>vm_jobs := Some 0, vm_jobs_semid := True\<rparr>;
               (vs, set) = vm_set_vals sys [0..<nat (sup_num st)] (replicate (nat (sup_num st)) 0);
               s = s\<lparr>vm_sems := Some vs\<rparr> in
      if \<not> set then Done (s, False)
      else if \<not> ok_jobs_setval sys then Done (s, False)
      else let s = s\<lparr>vm_jobs := Some 1\<rparr> in
      if \<not> ok_shmat sys then Done (s\<lparr>vm_ptr := Attach_failed\<rparr>, False)
      else bind_run (init_segment st) (\<lambda>seg. Done (s\<lparr>vm_ptr := Attached, vm_seg := Some seg\<rparr>, True)))"

section \<open>The section at end\<close>

definition vm_clean_up :: "vm_sys \<Rightarrow> bool \<Rightarrow> vm_state \<Rightarrow> vm_state \<times> bool" where
  "vm_clean_up sys failed s =
     (let s = s\<lparr>vm_pids := False\<rparr>;
          (s, failed) =
            (case vm_ptr s of
               Detached \<Rightarrow> (s, failed)
             | Attach_failed \<Rightarrow> (s, True)
             | Attached \<Rightarrow> if ok_shmdt sys then (s\<lparr>vm_ptr := Detached\<rparr>, failed) else (s, True));
          (s, failed) =
            (if vm_shmid s then (if ok_rm_shm sys then (s\<lparr>vm_seg := None\<rparr>, failed) else (s, True)) else (s, failed));
          (s, failed) =
            (if vm_semid s then (if ok_rm_sem sys then (s\<lparr>vm_sems := None\<rparr>, failed) else (s, True)) else (s, failed))
      in if vm_jobs_semid s then (if ok_rm_jobs sys then (s\<lparr>vm_jobs := None\<rparr>, failed) else (s, True)) else (s, failed))"

datatype vm_ending = Vm_usage bool | Vm_ended vm_state bool

text \<open>\<open>b\<close>: do the loops of \<open>fork\<close> and \<open>waitpid\<close> leave \<open>status\<close> at \<open>EXIT_FAILURE\<close>?\<close>

definition sysv_market_main :: "vm_sys \<Rightarrow> string list \<Rightarrow> vm_state \<Rightarrow> bool \<Rightarrow> vm_ending run" where
  "sysv_market_main sys args s b =
     (case sv_command_line args of
        Inl failed \<Rightarrow> Done (Vm_usage failed)
      | Inr st \<Rightarrow>
          bind_run (vm_set_up sys st s) (\<lambda>(s, ok).
            let (s, failed) = vm_clean_up sys (\<not> ok \<or> b) s in Done (Vm_ended s failed)))"

section \<open>What is left behind\<close>

lemma vm_set_vals_all: "(\<forall>i \<in> set is. ok_setval sys i) \<Longrightarrow> distinct is \<Longrightarrow> \<forall>i \<in> set is. i < length vs \<Longrightarrow>
  \<exists>ws. vm_set_vals sys is vs = (ws, True) \<and> length ws = length vs \<and>
    (\<forall>i < length vs. ws ! i = (if i \<in> set is then 1 else vs ! i))"
proof (induction "is" arbitrary: vs)
  case (Cons j "is")
  then have "\<exists>ws. vm_set_vals sys is (vs[j := 1]) = (ws, True) \<and> length ws = length (vs[j := 1]) \<and>
    (\<forall>i < length (vs[j := 1]). ws ! i = (if i \<in> set is then 1 else (vs[j := 1]) ! i))"
    by (intro Cons.IH) auto
  then show ?case using Cons.prems by (auto simp: nth_list_update)
qed simp

definition vm_clean :: "int list option \<Rightarrow> int list option \<Rightarrow> int option \<Rightarrow> vm_state \<Rightarrow> bool" where
  "vm_clean seg sems jb s \<longleftrightarrow> (if vm_shmid s then seg = None else vm_seg s = seg) \<and>
     (if vm_semid s then sems = None else vm_sems s = sems) \<and> (if vm_jobs_semid s then jb = None else vm_jobs s = jb)"

lemma vm_set_up_objects:
  assumes "vm_set_up sys st (vm_fresh seg sems jb) = Done (s, ok)"
  shows "vm_clean seg sems jb s"
  using assms by (auto simp: vm_set_up_def vm_fresh_def vm_clean_def Let_def split: if_splits prod.splits)

lemma vm_set_up_returns:
  assumes "0 < cons_num st" "0 < sup_num st" "cons_num st + sup_num st < 2 ^ 31"
  shows "\<exists>s ok. vm_set_up sys st s0 = Done (s, ok)"
proof -
  obtain seg where "init_segment st = Done seg" using init_segment_fills [OF assms] by blast
  then have "is_done (vm_set_up sys st s0)" using assms by (simp add: vm_set_up_def Let_def split: prod.split)
  then obtain x where "vm_set_up sys st s0 = Done x" unfolding is_done_iff by blast
  then show ?thesis by (cases x) blast
qed

lemma vm_clean_up_restores:
  assumes "vm_clean seg sems jb s" "ok_rm_shm sys" "ok_rm_sem sys" "ok_rm_jobs sys" "vm_clean_up sys failed s = (t, bad)"
  shows "vm_seg t = seg \<and> vm_sems t = sems \<and> vm_jobs t = jb \<and> \<not> vm_pids t \<and> (ok_shmdt sys \<longrightarrow> vm_ptr t \<noteq> Attached)"
  using assms by (auto simp: vm_clean_up_def vm_clean_def Let_def split: attach.splits if_splits)

text \<open>
  the parent of the System V market, whatever calls fail before, leaves the three objects of the
  system as it has found them when they can be removed: its own are gone, and those of another
  instance that runs already are untouched; nothing stays allocated or attached.
\<close>

theorem sysv_market_restores:
  assumes "sv_command_line args = Inr st" "0 < cons_num st" "0 < sup_num st" "cons_num st + sup_num st < 2 ^ 31"
    and "ok_rm_shm sys" "ok_rm_sem sys" "ok_rm_jobs sys"
  shows "\<exists>s failed. sysv_market_main sys args (vm_fresh seg sems jb) b = Done (Vm_ended s failed) \<and>
    vm_seg s = seg \<and> vm_sems s = sems \<and> vm_jobs s = jb \<and> \<not> vm_pids s \<and> (ok_shmdt sys \<longrightarrow> vm_ptr s \<noteq> Attached)"
proof -
  obtain s ok where s: "vm_set_up sys st (vm_fresh seg sems jb) = Done (s, ok)"
    using vm_set_up_returns [OF assms(2-4)] by blast
  obtain t bad where t: "vm_clean_up sys (\<not> ok \<or> b) s = (t, bad)" by (cases "vm_clean_up sys (\<not> ok \<or> b) s")
  show ?thesis using vm_clean_up_restores [OF vm_set_up_objects [OF s] assms(5-7) t] s t assms(1)
    by (simp add: sysv_market_main_def)
qed

section \<open>Instances\<close>

definition vm_willing :: vm_sys where
  "vm_willing = \<lparr>ok_stat = True, ok_ftok = True, ok_calloc = True, ok_shmget = True, ok_semget = True,
     ok_jobs_semget = True, ok_setval = (\<lambda>i. True), ok_jobs_setval = True, ok_shmat = False, ok_shmdt = True,
     ok_rm_shm = True, ok_rm_sem = True, ok_rm_jobs = True\<rparr>"

theorem sysv_market_restores_witness:
  "\<exists>s failed. sysv_market_main vm_willing [''-c'', ''2'', ''-s'', ''1''] (vm_fresh None None (Some 1)) False = Done (Vm_ended s failed) \<and>
    vm_seg s = None \<and> vm_sems s = None \<and> vm_jobs s = Some 1 \<and> \<not> vm_pids s \<and> vm_ptr s \<noteq> Attached"
proof -
  have "sv_command_line [''-c'', ''2'', ''-s'', ''1''] = Inr \<lparr>cons_num = 2, sup_num = 1, demand_unit = 5000, supply_unit = 500\<rparr>"
    by (simp add: sv_command_line_def command_line_example)
  from sysv_market_restores [OF this, of vm_willing None None "Some 1" False] show ?thesis by (simp add: vm_willing_def)
qed

end
