(* ===== verification/Msg_Queue.thy ===== *)
theory Msg_Queue
  imports Lab_Prelude
begin

text \<open>
  The message queues on which the programs of LAB_15 rest: what a queue of each kind holds, what
  the calls do with it, and the contract that both kinds keep (\<open>mailbox\<close>): messages leave in the
  order of their ranks, and in the order of their arrival within a rank.
\<close>

section \<open>The order of delivery\<close>

text \<open>A message goes behind all those whose rank is not above its own.\<close>

fun enqueue :: "('m \<Rightarrow> int) \<Rightarrow> 'm \<Rightarrow> 'm list \<Rightarrow> 'm list" where
  "enqueue rank m [] = [m]"
| "enqueue rank m (x # xs) = (if rank x \<le> rank m then x # enqueue rank m xs else m # x # xs)"

lemma enqueue_length [simp]: "length (enqueue rank m xs) = Suc (length xs)"
  by (induction xs) auto

lemma enqueue_set [simp]: "set (enqueue rank m xs) = insert m (set xs)"
  by (induction xs) auto

lemma enqueue_sorted [simp]: "sorted (map rank (enqueue rank m xs)) = sorted (map rank xs)"
  by (induction xs) auto

lemma enqueue_last: "\<forall>x \<in> set xs. rank x \<le> rank m \<Longrightarrow> enqueue rank m xs = xs @ [m]"
  by (induction xs) auto

lemma enqueue_insort: "sorted (map rank xs) \<Longrightarrow>
    enqueue rank m (insort_key rank x xs) = insort_key rank x (enqueue rank m xs)"
  by (induction xs) auto

lemma enqueue_sort: "enqueue rank m (sort_key rank xs) = sort_key rank (xs @ [m])"
proof (induction xs)
  case (Cons x xs)
  then show ?case using enqueue_insort [of rank "sort_key rank xs" m x] by simp
qed simp

lemma enqueue_all: "fold (enqueue rank) ms (sort_key rank xs) = sort_key rank (xs @ ms)"
  by (induction ms arbitrary: xs) (simp_all add: enqueue_sort)

section \<open>The contract of a queue\<close>

text \<open>Taking messages out until there are \<open>n\<close> of them, or none is left.\<close>

fun drain :: "('q \<Rightarrow> ('m \<times> 'q) option) \<Rightarrow> nat \<Rightarrow> 'q \<Rightarrow> 'm list \<times> 'q" where
  "drain get 0 q = ([], q)"
| "drain get (Suc n) q =
     (case get q of
        None \<Rightarrow> ([], q)
      | Some (m, q') \<Rightarrow> let (ms, r) = drain get n q' in (m # ms, r))"

locale mailbox =
  fixes rank :: "'m \<Rightarrow> int" and wanted :: "'m \<Rightarrow> bool" and pending :: "'q \<Rightarrow> 'm list"
    and put :: "'m \<Rightarrow> 'q \<Rightarrow> 'q" and get :: "'q \<Rightarrow> ('m \<times> 'q) option"
  assumes pending_put: "pending (put m q) = (if wanted m then enqueue rank m (pending q) else pending q)"
    and get_None: "get q = None \<Longrightarrow> pending q = []"
    and get_Some: "get q = Some (m, q') \<Longrightarrow> pending q = m # pending q'"
begin

lemma pending_puts: "pending (fold put ms q) = fold (enqueue rank) (filter wanted ms) (pending q)"
  by (induction ms arbitrary: q) (simp_all add: pending_put)

lemma drain_pending: "fst (drain get n q) = take n (pending q) \<and> pending (snd (drain get n q)) = drop n (pending q)"
proof (induction n arbitrary: q)
  case (Suc n)
  show ?case
  proof (cases "get q")
    case None
    then show ?thesis using get_None [OF None] by simp
  next
    case (Some a)
    obtain m r where a: "a = (m, r)" by (cases a)
    show ?thesis using get_Some [OF Some [unfolded a]] Suc.IH [of r] Some a by (simp add: Let_def split_beta)
  qed
qed simp

text \<open>What is put into an empty queue comes out sorted, in the order of arrival where the ranks agree.\<close>

lemma delivery:
  assumes "pending q = []"
  shows "fst (drain get n (fold put ms q)) = take n (sort_key rank (filter wanted ms))"
proof -
  have "pending (fold put ms q) = sort_key rank (filter wanted ms)"
    using pending_puts [of ms q] enqueue_all [of rank "filter wanted ms" "[]"] assms by simp
  then show ?thesis using drain_pending [of n "fold put ms q"] by simp
qed

end

section \<open>POSIX queues\<close>

type_synonym message = "int \<times> bytes"

text \<open>
  What a call answers: it fails, it waits for another process, or it is granted. \<open>ok\<close> says whether
  the call fails for a reason that lies outside of the queue.
\<close>

datatype 'a reply = Refused | Waits | Granted 'a

record mqueue =
  mq_maxmsg :: nat
  mq_msgsize :: nat
  mq_held :: "message list"

definition MSG_MAX_SIZE :: nat where "MSG_MAX_SIZE = 8192"
definition MSG_MAX_NUM :: nat where "MSG_MAX_NUM = 8"
definition MQ_PRIO_MAX :: int where "MQ_PRIO_MAX = 32768"

text \<open>\<open>mq_open\<close> with \<open>O_CREAT\<close>: the attributes count only when the queue does not exist.\<close>

definition mq_open :: "bool \<Rightarrow> mqueue option \<Rightarrow> mqueue option" where
  "mq_open ok q =
     (if \<not> ok then None
      else case q of
        None \<Rightarrow> Some \<lparr>mq_maxmsg = MSG_MAX_NUM, mq_msgsize = MSG_MAX_SIZE, mq_held = []\<rparr>
      | Some r \<Rightarrow> Some r)"

text \<open>The message of the highest priority is the first to leave.\<close>

abbreviation prio_rank :: "message \<Rightarrow> int" where "prio_rank m \<equiv> - fst m"

definition mq_send :: "bool \<Rightarrow> int \<Rightarrow> bytes \<Rightarrow> mqueue \<Rightarrow> mqueue reply" where
  "mq_send ok prio b q =
     (if \<not> ok \<or> prio < 0 \<or> MQ_PRIO_MAX \<le> prio \<or> mq_msgsize q < length b then Refused
      else if mq_maxmsg q \<le> length (mq_held q) then Waits
      else Granted (q\<lparr>mq_held := enqueue prio_rank (prio, b) (mq_held q)\<rparr>))"

definition mq_receive :: "bool \<Rightarrow> nat \<Rightarrow> mqueue \<Rightarrow> (message \<times> mqueue) reply" where
  "mq_receive ok room q =
     (if \<not> ok \<or> room < mq_msgsize q then Refused
      else case mq_held q of [] \<Rightarrow> Waits | m # ms \<Rightarrow> Granted (m, q\<lparr>mq_held := ms\<rparr>))"

abbreviation mq_get :: "mqueue \<Rightarrow> (message \<times> mqueue) option" where
  "mq_get q \<equiv> (case mq_held q of [] \<Rightarrow> None | m # ms \<Rightarrow> Some (m, q\<lparr>mq_held := ms\<rparr>))"

interpretation posix: mailbox prio_rank "\<lambda>m. True" mq_held
  "\<lambda>m q. q\<lparr>mq_held := enqueue prio_rank m (mq_held q)\<rparr>" mq_get
  by unfold_locales (auto split: list.splits)

text \<open>What every queue keeps.\<close>

definition mq_wf :: "mqueue \<Rightarrow> bool" where
  "mq_wf q \<longleftrightarrow> sorted (map prio_rank (mq_held q)) \<and> length (mq_held q) \<le> mq_maxmsg q \<and>
     (\<forall>(p, b) \<in> set (mq_held q). 0 \<le> p \<and> p < MQ_PRIO_MAX \<and> length b \<le> mq_msgsize q)"

lemma mq_open_wf: "mq_open ok q = Some r \<Longrightarrow> (\<And>s. q = Some s \<Longrightarrow> mq_wf s) \<Longrightarrow> mq_wf r"
  by (auto simp: mq_open_def mq_wf_def split: if_splits option.splits)

lemma mq_send_wf: "mq_send ok prio b q = Granted r \<Longrightarrow> mq_wf q \<Longrightarrow> mq_wf r"
  by (auto simp: mq_send_def mq_wf_def split: if_splits)

lemma mq_receive_wf: "mq_receive ok room q = Granted (m, r) \<Longrightarrow> mq_wf q \<Longrightarrow> mq_wf r"
  by (auto simp: mq_receive_def mq_wf_def split: if_splits list.splits)

section \<open>System V queues\<close>

record svqueue =
  msg_qbytes :: nat
  msg_max :: nat
  sv_held :: "message list"

definition msg_cbytes :: "svqueue \<Rightarrow> nat" where
  "msg_cbytes q = sum_list (map (length \<circ> snd) (sv_held q))"

text \<open>\<open>msgget\<close> with \<open>IPC_CREAT\<close>; \<open>lim\<close> are the limits of the system.\<close>

definition msgget :: "bool \<Rightarrow> nat \<times> nat \<Rightarrow> svqueue option \<Rightarrow> svqueue option" where
  "msgget ok lim q =
     (if \<not> ok then None
      else case q of
        None \<Rightarrow> Some \<lparr>msg_qbytes = fst lim, msg_max = snd lim, sv_held = []\<rparr>
      | Some r \<Rightarrow> Some r)"

definition msgsnd :: "bool \<Rightarrow> int \<Rightarrow> bytes \<Rightarrow> svqueue \<Rightarrow> svqueue reply" where
  "msgsnd ok mtype b q =
     (if \<not> ok \<or> mtype \<le> 0 \<or> msg_max q < length b then Refused
      else if msg_qbytes q < msg_cbytes q + length b \<or> msg_qbytes q < length (sv_held q) + 1 then Waits
      else Granted (q\<lparr>sv_held := sv_held q @ [(mtype, b)]\<rparr>))"

text \<open>
  \<open>msgtyp\<close>: 0 is the first message, a positive number the first one of that type, a negative one the
  first of the lowest type up to its absolute value.
\<close>

fun take_first :: "('m \<Rightarrow> bool) \<Rightarrow> 'm list \<Rightarrow> ('m \<times> 'm list) option" where
  "take_first P [] = None"
| "take_first P (x # xs) =
     (if P x then Some (x, xs)
      else case take_first P xs of None \<Rightarrow> None | Some (y, ys) \<Rightarrow> Some (y, x # ys))"

definition pick :: "int \<Rightarrow> message list \<Rightarrow> (message \<times> message list) option" where
  "pick msgtyp ms =
     (if msgtyp = 0 then take_first (\<lambda>m. True) ms
      else if 0 < msgtyp then take_first (\<lambda>m. fst m = msgtyp) ms
      else take_first (\<lambda>m. fst m \<le> - msgtyp \<and> (\<forall>x \<in> set ms. fst m \<le> fst x)) ms)"

text \<open>\<open>msgrcv\<close> with \<open>IPC_NOWAIT\<close>: \<open>Waits\<close> stands for \<open>ENOMSG\<close>.\<close>

definition msgrcv :: "bool \<Rightarrow> nat \<Rightarrow> int \<Rightarrow> svqueue \<Rightarrow> (message \<times> svqueue) reply" where
  "msgrcv ok room msgtyp q =
     (if \<not> ok then Refused
      else case pick msgtyp (sv_held q) of
        None \<Rightarrow> Waits
      | Some (m, ms) \<Rightarrow> if room < length (snd m) then Refused else Granted (m, q\<lparr>sv_held := ms\<rparr>))"

lemma take_first_Some:
  "take_first P xs = Some (y, ys) \<Longrightarrow> \<exists>as bs. xs = as @ y # bs \<and> ys = as @ bs \<and> P y \<and> (\<forall>x \<in> set as. \<not> P x)"
proof (induction xs arbitrary: ys)
  case (Cons x xs)
  show ?case
  proof (cases "P x")
    case True
    then show ?thesis using Cons.prems by (intro exI [of _ "[]"] exI [of _ xs]) simp
  next
    case False
    then obtain zs where z: "take_first P xs = Some (y, zs)" "ys = x # zs"
      using Cons.prems by (auto split: option.splits prod.splits)
    obtain as bs where "xs = as @ y # bs" "zs = as @ bs" "P y" "\<forall>x \<in> set as. \<not> P x"
      using Cons.IH [OF z(1)] by blast
    then show ?thesis using False z(2) by (intro exI [of _ "x # as"] exI [of _ bs]) simp
  qed
qed simp

lemma take_first_None: "take_first P xs = None \<longleftrightarrow> (\<forall>x \<in> set xs. \<not> P x)"
  by (induction xs) (auto split: option.splits)

lemma sort_key_first:
  "\<forall>x \<in> set as. f y < f x \<Longrightarrow> \<forall>x \<in> set bs. f y \<le> f x \<Longrightarrow> sort_key f (as @ y # bs) = y # sort_key f (as @ bs)"
  by (induction as) (auto simp: insort_is_Cons)

text \<open>With \<open>msgtyp = - b\<close> a queue is a mailbox of the messages whose type is at most \<open>b\<close>.\<close>

lemma pick_Some:
  assumes "pick (- b) ms = Some (m, r)" "0 < b"
  shows "sort_key fst (filter (\<lambda>m. fst m \<le> b) ms) = m # sort_key fst (filter (\<lambda>m. fst m \<le> b) r)"
proof -
  obtain as bs where s: "ms = as @ m # bs" "r = as @ bs" "fst m \<le> b" "\<forall>x \<in> set ms. fst m \<le> fst x"
    "\<forall>x \<in> set as. \<not> (fst x \<le> b \<and> (\<forall>y \<in> set ms. fst x \<le> fst y))"
    using assms by (auto simp: pick_def dest!: take_first_Some)
  have "fst m < fst x" if x: "x \<in> set (filter (\<lambda>m. fst m \<le> b) as)" for x
  proof -
    obtain y where "y \<in> set ms" "fst y < fst x" using s(5) x by force
    then show ?thesis using s(4) by force
  qed
  then show ?thesis using s sort_key_first [of "filter (\<lambda>m. fst m \<le> b) as" fst m "filter (\<lambda>m. fst m \<le> b) bs"] by simp
qed

lemma pick_None:
  assumes "pick (- b) ms = None" "0 < b"
  shows "filter (\<lambda>m. fst m \<le> b) ms = []"
proof (rule ccontr)
  assume n: "filter (\<lambda>m. fst m \<le> b) ms \<noteq> []"
  then have ms: "ms \<noteq> []" by auto
  obtain x where x: "x \<in> set ms" "fst x = Min (fst ` set ms)"
    using Min_in [of "fst ` set ms"] ms by fastforce
  then have least: "\<forall>y \<in> set ms. fst x \<le> fst y" by simp
  obtain z where "z \<in> set ms" "fst z \<le> b" using n by (auto simp: filter_empty_conv)
  then have "fst x \<le> b" using least by (meson order_trans)
  then show False using assms least x(1) by (auto simp: pick_def take_first_None)
qed

abbreviation sv_get :: "nat \<Rightarrow> svqueue \<Rightarrow> (message \<times> svqueue) option" where
  "sv_get b q \<equiv> (case pick (- int (Suc b)) (sv_held q) of
     None \<Rightarrow> None | Some (m, ms) \<Rightarrow> Some (m, q\<lparr>sv_held := ms\<rparr>))"

interpretation sysv: mailbox fst "\<lambda>m. fst m \<le> int (Suc b)"
  "\<lambda>q. sort_key fst (filter (\<lambda>m. fst m \<le> int (Suc b)) (sv_held q))"
  "\<lambda>m q. q\<lparr>sv_held := sv_held q @ [m]\<rparr>" "sv_get b" for b
proof
  fix q :: svqueue and m r
  show "sort_key fst (filter (\<lambda>m. fst m \<le> int (Suc b)) (sv_held q)) = []" if "sv_get b q = None"
  proof -
    have "pick (- int (Suc b)) (sv_held q) = None" using that by (auto split: option.splits)
    then have "filter (\<lambda>m. fst m \<le> int (Suc b)) (sv_held q) = []" by (rule pick_None) simp
    then show ?thesis by simp
  qed
  show "sort_key fst (filter (\<lambda>m. fst m \<le> int (Suc b)) (sv_held q)) =
      m # sort_key fst (filter (\<lambda>m. fst m \<le> int (Suc b)) (sv_held r))" if g: "sv_get b q = Some (m, r)"
  proof -
    obtain ms where "pick (- int (Suc b)) (sv_held q) = Some (m, ms)" "r = q\<lparr>sv_held := ms\<rparr>"
      using g by (cases "pick (- int (Suc b)) (sv_held q)") (auto simp del: of_nat_Suc)
    then show ?thesis using pick_Some [of "int (Suc b)" "sv_held q" m ms] by simp
  qed
qed (simp add: enqueue_sort)

end
