(* ===== verification/Disk_File.thy ===== *)
theory Disk_File
  imports Lab_Prelude
begin

text \<open>The files that the programs of LAB_15 and LAB_16 send, and strings in zeroed buffers.\<close>

datatype ftype = S_IFREG | S_IFDIR | S_IFIFO | S_IFBLK | S_IFSOCK | S_IFCHR | S_IFLNK

text \<open>
  A file that is there: \<open>st_mode\<close> and \<open>st_size\<close> are what \<open>stat\<close> answers, \<open>contents\<close> is what \<open>read\<close>
  delivers; the two need not agree. \<open>can_read k\<close>: does the \<open>k\<close>-th call of \<open>read\<close> succeed?
\<close>

record disk_file =
  st_mode :: ftype
  st_size :: nat
  contents :: bytes
  can_open :: bool
  can_read :: "nat \<Rightarrow> bool"

lemma cstr_append_zeros [simp]: "cstr (b @ zeros n) = cstr b"
  by (induction b) (simp_all add: cstr_def zeros_def)

end
