(* ===== verification/Posix_Queues.thy ===== *)
theory Posix_Queues
  imports Msg_Queue Getopt Disk_File
begin

text \<open>
  LAB_15/task_posix_queues_1 to 3: programs that send files through a POSIX message queue and
  programs that print what they receive. No other process uses the queue while one of them runs;
  a call that waits ends the model of the run.
\<close>

section \<open>Files, calls and endings\<close>

text \<open>Which calls succeed, the calls of one function numbered from 0.\<close>

record mq_env =
  opens :: bool
  attrs :: "nat \<Rightarrow> bool"
  callocs :: "nat \<Rightarrow> bool"
  sends :: "nat \<Rightarrow> bool"
  receives :: "nat \<Rightarrow> bool"
  unlinks :: bool

datatype mq_output = Message string | No_payload | Count nat | Totals nat int

text \<open>The queue under the name, what has been printed, and whether the program exits with a failure.\<close>

datatype 'q mq_end = Waiting "'q option" "mq_output list" | Ended "'q option" "mq_output list" bool

fun end_queue :: "'q mq_end \<Rightarrow> 'q option" where
  "end_queue (Waiting q out) = q" | "end_queue (Ended q out failed) = q"

text \<open>\<open>printf("%s")\<close> of a buffer of \<open>n\<close> zeros into which a message has been received.\<close>

definition shown_text :: "nat \<Rightarrow> bytes \<Rightarrow> mq_output" where
  "shown_text n b = (if b = [] then No_payload else Message (cstr (b @ zeros (n - length b))))"

lemma shown_text_eq: "shown_text n b = (if b = [] then No_payload else Message (cstr b))"
  by (simp add: shown_text_def)

text \<open>\<open>mq_unlink\<close>: its answer is not looked at.\<close>

definition unlinked :: "mq_env \<Rightarrow> 'q \<Rightarrow> 'q option" where
  "unlinked env q = (if unlinks env then None else Some q)"

section \<open>One message\<close>

definition mq1_send :: "mq_env \<Rightarrow> disk_file option \<Rightarrow> mqueue option \<Rightarrow> mqueue mq_end" where
  "mq1_send env file q =
     (case mq_open (opens env) q of
        None \<Rightarrow> Ended q [] True
      | Some qd \<Rightarrow>
         (case file of
            None \<Rightarrow> Ended (Some qd) [] True
          | Some f \<Rightarrow>
              if st_mode f \<noteq> S_IFREG then Ended (Some qd) [] False
              else if MSG_MAX_SIZE < st_size f then Ended (Some qd) [] True
              else if \<not> callocs env 0 then Ended (Some qd) [] True
              else if \<not> can_open f then Ended (Some qd) [] True
              else if \<not> can_read f 0 then Ended (Some qd) [] True
              else case mq_send (sends env 0) 7 (take (st_size f) (contents f)) qd of
                Refused \<Rightarrow> Ended (Some qd) [] True
              | Waits \<Rightarrow> Waiting (Some qd) []
              | Granted r \<Rightarrow> Ended (Some r) [] False))"

definition mq1_receive :: "mq_env \<Rightarrow> mqueue option \<Rightarrow> mqueue mq_end" where
  "mq1_receive env q =
     (case mq_open (opens env) q of
        None \<Rightarrow> Ended q [] True
      | Some qd \<Rightarrow>
          let curmsgs = length (mq_held qd); payload_size = mq_msgsize qd in
          if \<not> attrs env 0 then Ended (Some qd) [] True
          else if curmsgs = 0 then Ended (Some qd) [] False
          else if \<not> callocs env 0 then Ended (Some qd) [] True
          else case mq_receive (receives env 0) payload_size qd of
            Refused \<Rightarrow> Ended (Some qd) [] True
          | Waits \<Rightarrow> Waiting (Some qd) []
          | Granted ((prio, b), r) \<Rightarrow>
              Ended (if curmsgs = 1 then unlinked env r else Some r) [shown_text (payload_size + 1) b] False)"

section \<open>Two messages\<close>

text \<open>The loop of the sender: message \<open>i\<close> has the priority \<open>i + 1\<close>; \<open>failed\<close> is \<open>ret\<close>, \<open>n\<close> is \<open>msg_sent\<close>.\<close>

fun mq2_send_loop :: "mq_env \<Rightarrow> nat \<Rightarrow> disk_file option list \<Rightarrow> mqueue \<Rightarrow> bool \<Rightarrow> nat \<Rightarrow> mqueue mq_end" where
  "mq2_send_loop env i [] qd failed n = Ended (Some qd) [Count n] failed"
| "mq2_send_loop env i (None # files) qd failed n = mq2_send_loop env (i + 1) files qd True n"
| "mq2_send_loop env i (Some f # files) qd failed n =
     (if st_mode f \<noteq> S_IFREG \<or> MSG_MAX_SIZE < st_size f then mq2_send_loop env (i + 1) files qd failed n
      else if \<not> callocs env i then Ended (Some qd) [Count n] True
      else if \<not> can_open f \<or> \<not> can_read f 0 then mq2_send_loop env (i + 1) files qd True n
      else case mq_send (sends env i) (int i + 1) (take (st_size f) (contents f)) qd of
        Refused \<Rightarrow> mq2_send_loop env (i + 1) files qd True n
      | Waits \<Rightarrow> Waiting (Some qd) []
      | Granted r \<Rightarrow> mq2_send_loop env (i + 1) files r failed (n + 1))"

definition mq2_send :: "mq_env \<Rightarrow> disk_file option \<Rightarrow> disk_file option \<Rightarrow> mqueue option \<Rightarrow> mqueue mq_end" where
  "mq2_send env msg msg2 q =
     (case mq_open (opens env) q of
        None \<Rightarrow> Ended q [] True
      | Some qd \<Rightarrow> mq2_send_loop env 0 [msg, msg2] qd False 0)"

text \<open>The loop of the receiver with \<open>msg_num\<close>; \<open>i\<close> messages have been received.\<close>

fun mq2_receive_loop :: "mq_env \<Rightarrow> nat \<Rightarrow> nat \<Rightarrow> nat \<Rightarrow> mqueue \<Rightarrow> mq_output list \<Rightarrow> mqueue mq_end" where
  "mq2_receive_loop env payload_size 0 i qd out = Ended (unlinked env qd) out False"
| "mq2_receive_loop env payload_size (Suc msg_num) i qd out =
     (case mq_receive (receives env i) payload_size qd of
        Refused \<Rightarrow> Ended (Some qd) out True
      | Waits \<Rightarrow> Waiting (Some qd) out
      | Granted ((prio, b), r) \<Rightarrow>
          mq2_receive_loop env payload_size msg_num (i + 1) r (out @ [shown_text (payload_size + 1) b]))"

definition mq2_receive :: "mq_env \<Rightarrow> mqueue option \<Rightarrow> mqueue mq_end" where
  "mq2_receive env q =
     (case mq_open (opens env) q of
        None \<Rightarrow> Ended q [] True
      | Some qd \<Rightarrow>
          if \<not> attrs env 0 then Ended (Some qd) [] True
          else if mq_held qd = [] then Ended (Some qd) [] False
          else if \<not> callocs env 0 then Ended (Some qd) [] True
          else mq2_receive_loop env (mq_msgsize qd) (length (mq_held qd)) 0 qd [])"

section \<open>A file in pieces\<close>

text \<open>
  The options of task_posix_queues_3 and task_sys_v_queues_3: \<open>posix\<close> says which of the two. \<open>Inl b\<close>
  is the label \<open>print\<close>, where \<open>b\<close> says that \<open>ret\<close> is \<open>EXIT_FAILURE\<close>. The POSIX program goes on
  after \<open>-q\<close> without an argument.
\<close>

record mq_opts =
  is_sender :: bool
  is_receiver :: bool
  qname :: "string option"
  file_name :: "string option"
  typ_arg :: int

definition bundled_letters :: "string \<Rightarrow> bool" where
  "bundled_letters optarg \<longleftrightarrow> optarg \<noteq> [] \<and> hd optarg \<in> {CHR ''o'', CHR ''t'', CHR ''q''}"

fun mq_options :: "bool \<Rightarrow> opt_call list \<Rightarrow> mq_opts \<Rightarrow> bool + mq_opts" where
  "mq_options posix [] st = Inr st"
| "mq_options posix (Opt_flag c # es) st =
     (if c = CHR ''s'' then mq_options posix es (st\<lparr>is_sender := True\<rparr>)
      else if c = CHR ''r'' then mq_options posix es (st\<lparr>is_receiver := True\<rparr>)
      else Inl False)"
| "mq_options posix (Opt_arg c optarg # es) st =
     (if bundled_letters optarg then Inl False
      else if c = CHR ''q'' then
        (if posix \<and> (optarg = [] \<or> hd optarg \<noteq> CHR ''/'') then Inl False
         else mq_options posix es (st\<lparr>qname := Some optarg\<rparr>))
      else if c = CHR ''o'' then mq_options posix es (st\<lparr>file_name := Some optarg\<rparr>)
      else let (num, range) = strtol optarg in
        if range then Inl True
        else if num \<le> 0 then Inl False
        else mq_options posix es (st\<lparr>typ_arg := (if posix then num mod 2 ^ 32 else num)\<rparr>))"
| "mq_options posix (Opt_missing c # es) st =
     (if posix \<and> c = CHR ''q'' then mq_options posix es st else Inl False)"
| "mq_options posix (Opt_unknown c # es) st = Inl False"

definition mq_line :: "bool \<Rightarrow> string list \<Rightarrow> bool + mq_opts" where
  "mq_line posix args =
     (case mq_options posix (getopt ''toq'' ''hsr'' args)
         \<lparr>is_sender = False, is_receiver = False, qname = None, file_name = None, typ_arg = 1\<rparr> of
        Inl b \<Rightarrow> Inl b
      | Inr st \<Rightarrow>
          if \<not> is_sender st \<and> \<not> is_receiver st then Inl False
          else if is_sender st \<and> is_receiver st then Inl False
          else if is_sender st \<and> file_name st = None then Inl False
          else if qname st = None then Inl False
          else Inr st)"

text \<open>
  The loop of \<open>read\<close> and \<open>mq_send\<close>: \<open>i\<close> is \<open>msg_sent\<close>, \<open>rest\<close> what has not been read. All of the
  buffer is sent, also when \<open>read\<close> has filled a part of it only.
\<close>

function mq3_send_loop :: "mq_env \<Rightarrow> (nat \<Rightarrow> bool) \<Rightarrow> int \<Rightarrow> nat \<Rightarrow> nat \<Rightarrow> bytes \<Rightarrow> int \<Rightarrow> mqueue \<Rightarrow> mqueue mq_end" where
  "mq3_send_loop env rd prio payload_size i rest nbytes qd =
     (let piece = take payload_size rest in
      if \<not> rd i then Ended (Some qd) [] True
      else if 0 < i \<and> piece = [] then Ended (Some qd) [Totals i nbytes] False
      else case mq_send (sends env i) prio (piece @ zeros (payload_size - length piece)) qd of
        Refused \<Rightarrow> Ended (Some qd) [] True
      | Waits \<Rightarrow> Waiting (Some qd) []
      | Granted r \<Rightarrow>
          mq3_send_loop env rd prio payload_size (i + 1) (drop payload_size rest) (nbytes + int (length piece)) r)"
  by pat_completeness auto
termination
  by (relation "measure (\<lambda>(env, rd, prio, n, i, rest, nbytes, qd). length rest + (if i = 0 then 1 else 0))") auto

declare mq3_send_loop.simps [simp del]

definition mq3_send :: "mq_env \<Rightarrow> int \<Rightarrow> disk_file option \<Rightarrow> mqueue option \<Rightarrow> mqueue mq_end" where
  "mq3_send env prio file q =
     (case file of
        None \<Rightarrow> Ended q [] True
      | Some f \<Rightarrow>
          if st_mode f \<noteq> S_IFREG then Ended q [] False
          else case mq_open (opens env) q of
            None \<Rightarrow> Ended q [] True
          | Some qd \<Rightarrow>
              let payload_size = min (st_size f) MSG_MAX_SIZE in
              if \<not> callocs env 0 \<or> \<not> can_open f then Ended (Some qd) [] True
              else mq3_send_loop env (can_read f) prio payload_size 0 (contents f) (-1) qd)"

text \<open>
  One round of the receiver, up to \<open>msg_num\<close> messages: \<open>i\<close> counts the calls of \<open>mq_receive\<close>, \<open>n\<close> is
  \<open>msg_read\<close>. The first result is \<open>msg_num\<close> behind the loop.
\<close>

datatype round = Round_waits mqueue "mq_output list" | Round_over nat nat mqueue int nat "mq_output list"

fun mq3_round :: "mq_env \<Rightarrow> nat \<Rightarrow> nat \<Rightarrow> nat \<Rightarrow> mqueue \<Rightarrow> int \<Rightarrow> nat \<Rightarrow> mq_output list \<Rightarrow> round" where
  "mq3_round env payload_size 0 i qd nbytes n out = Round_over 0 i qd nbytes n out"
| "mq3_round env payload_size (Suc msg_num) i qd nbytes n out =
     (case mq_receive (receives env i) payload_size qd of
        Refused \<Rightarrow> Round_over (Suc msg_num) (i + 1) qd nbytes n out
      | Waits \<Rightarrow> Round_waits qd out
      | Granted ((prio, b), r) \<Rightarrow>
          mq3_round env payload_size msg_num (i + 1) r (nbytes + int (length b)) (n + 1)
            (out @ [shown_text (payload_size + 1) b]))"

definition mq3_over :: "mq_env \<Rightarrow> nat \<Rightarrow> mqueue \<Rightarrow> int \<Rightarrow> nat \<Rightarrow> mq_output list \<Rightarrow> bool \<Rightarrow> mqueue mq_end" where
  "mq3_over env msg_num qd nbytes n out failed =
     Ended (if 0 \<le> nbytes \<and> msg_num = 0 then unlinked env qd else Some qd) (out @ [Totals n nbytes]) failed"

text \<open>The jump back to \<open>again\<close>: \<open>j\<close> counts the calls of \<open>mq_getattr\<close>. \<open>None\<close> is a run without an end.\<close>

partial_function (option) mq3_again ::
    "mq_env \<Rightarrow> nat \<Rightarrow> nat \<Rightarrow> nat \<Rightarrow> nat \<Rightarrow> mqueue \<Rightarrow> int \<Rightarrow> nat \<Rightarrow> mq_output list \<Rightarrow> mqueue mq_end option" where
  "mq3_again env payload_size curmsgs i j qd nbytes n out =
     (case mq3_round env payload_size curmsgs i qd nbytes n out of
        Round_waits qd out \<Rightarrow> Some (Waiting (Some qd) out)
      | Round_over msg_num i qd nbytes n out \<Rightarrow>
          if \<not> attrs env j then Some (mq3_over env msg_num qd nbytes n out True)
          else if mq_held qd \<noteq> [] then mq3_again env payload_size (length (mq_held qd)) i (j + 1) qd nbytes n out
          else Some (mq3_over env 0 qd nbytes n out False))"

definition mq3_receive :: "mq_env \<Rightarrow> mqueue option \<Rightarrow> mqueue mq_end option" where
  "mq3_receive env q =
     (case mq_open (opens env) q of
        None \<Rightarrow> Some (Ended q [] True)
      | Some qd \<Rightarrow>
          if \<not> attrs env 0 then Some (Ended (Some qd) [] True)
          else if mq_held qd = [] then Some (Ended (Some qd) [] False)
          else if \<not> callocs env 0 then Some (Ended (Some qd) [] True)
          else mq3_again env (mq_msgsize qd) (length (mq_held qd)) 0 1 qd (-1) 0 [])"

text \<open>The program: \<open>files\<close> are the files by name, \<open>qs\<close> the queues.\<close>

datatype 'q mq_run = Mq_usage bool | Mq_sent "'q mq_end" | Mq_received "'q mq_end option"

definition mq3_main ::
    "mq_env \<Rightarrow> string list \<Rightarrow> (string \<Rightarrow> disk_file option) \<Rightarrow> (string \<Rightarrow> mqueue option) \<Rightarrow> mqueue mq_run" where
  "mq3_main env args files qs =
     (case mq_line True args of
        Inl b \<Rightarrow> Mq_usage b
      | Inr st \<Rightarrow>
          if is_sender st then Mq_sent (mq3_send env (typ_arg st) (files (the (file_name st))) (qs (the (qname st))))
          else Mq_received (mq3_receive env (qs (the (qname st)))))"

end
