(* ===== verification/Posix_Queue_Props.thy ===== *)
theory Posix_Queue_Props
  imports Posix_Queues "HOL-Library.Multiset"
begin

text \<open>
  What the POSIX message programs deliver: the round trips of one message and of a file in pieces,
  the order of the priorities, the shape of a queue that every program keeps, and when the receiver
  of the third task comes to an end.
\<close>

section \<open>The queue keeps its shape\<close>

definition wf_opt :: "mqueue option \<Rightarrow> bool" where
  "wf_opt q \<longleftrightarrow> (\<forall>r. q = Some r \<longrightarrow> mq_wf r)"

lemma wf_opt_simps [simp]: "wf_opt None" "wf_opt (Some r) = mq_wf r" "mq_wf r \<Longrightarrow> wf_opt (unlinked env r)"
  by (simp_all add: wf_opt_def unlinked_def)

lemma open_wf [dest]: "mq_open ok q = Some r \<Longrightarrow> wf_opt q \<Longrightarrow> mq_wf r"
  using mq_open_wf by (auto simp: wf_opt_def)

lemmas wf_calls [dest] = mq_send_wf mq_receive_wf

lemma mq2_send_loop_wf: "mq_wf qd \<Longrightarrow> wf_opt (end_queue (mq2_send_loop env i files qd failed n))"
  by (induction env i files qd failed n rule: mq2_send_loop.induct) (auto split: reply.splits)

lemma mq2_receive_loop_wf: "mq_wf qd \<Longrightarrow> wf_opt (end_queue (mq2_receive_loop env room n i qd out))"
  by (induction env room n i qd out rule: mq2_receive_loop.induct) (simp, fastforce split: reply.splits)

lemma mq3_send_loop_wf: "mq_wf qd \<Longrightarrow> wf_opt (end_queue (mq3_send_loop env rd prio room i rest nbytes qd))"
proof (induction env rd prio room i rest nbytes qd rule: mq3_send_loop.induct)
  case (1 env rd prio room i rest nbytes qd)
  then show ?case
    by (subst mq3_send_loop.simps) (auto simp: Let_def split: reply.splits)
qed

lemma mq3_round_wf:
  assumes "mq_wf qd"
  shows "case mq3_round env room m i qd nbytes n out of
    Round_waits r out \<Rightarrow> mq_wf r | Round_over m i r nbytes n out \<Rightarrow> mq_wf r"
  using assms by (induction env room m i qd nbytes n out rule: mq3_round.induct) (simp, fastforce split: reply.splits)

lemma mq3_over_wf [simp]: "mq_wf qd \<Longrightarrow> wf_opt (end_queue (mq3_over env m qd nbytes n out failed))"
  by (simp add: mq3_over_def)

lemma mq3_again_wf:
  assumes "mq3_again env room m i j qd nbytes n out = Some r"
  shows "mq_wf qd \<longrightarrow> wf_opt (end_queue r)"
proof (rule mq3_again.raw_induct [where P = "\<lambda>env room m i j qd nbytes n out r. mq_wf qd \<longrightarrow> wf_opt (end_queue r)", OF _ assms])
  fix again :: "mq_env \<Rightarrow> nat \<Rightarrow> nat \<Rightarrow> nat \<Rightarrow> nat \<Rightarrow> mqueue \<Rightarrow> int \<Rightarrow> nat \<Rightarrow> mq_output list \<Rightarrow> mqueue mq_end option"
    and env room m i j qd nbytes n out r
  assume IH: "\<And>env room m i j qd nbytes n out r. again env room m i j qd nbytes n out = Some r \<Longrightarrow>
      mq_wf qd \<longrightarrow> wf_opt (end_queue r)"
    and eq: "(case mq3_round env room m i qd nbytes n out of
        Round_waits qd out \<Rightarrow> Some (Waiting (Some qd) out)
      | Round_over msg_num i qd nbytes n out \<Rightarrow>
          if \<not> attrs env j then Some (mq3_over env msg_num qd nbytes n out True)
          else if mq_held qd \<noteq> [] then again env room (length (mq_held qd)) i (j + 1) qd nbytes n out
          else Some (mq3_over env 0 qd nbytes n out False)) = Some r"
  show "mq_wf qd \<longrightarrow> wf_opt (end_queue r)"
    using mq3_round_wf [of qd env room m i nbytes n out] eq IH
    by (auto split: round.splits if_splits)
qed

text \<open>
  every sender and every receiver of the three POSIX tasks keeps the queue well formed,
  whatever calls fail and whatever the files are: the messages are ordered by falling priority,
  there are at most \<open>mq_maxmsg\<close> of them, no longer than \<open>mq_msgsize\<close>, with priorities below
  \<open>MQ_PRIO_MAX\<close>.
\<close>

theorem mq_programs_wf:
  assumes "wf_opt q"
  shows "wf_opt (end_queue (mq1_send env file q)) \<and> wf_opt (end_queue (mq1_receive env q)) \<and>
    wf_opt (end_queue (mq2_send env file file2 q)) \<and> wf_opt (end_queue (mq2_receive env q)) \<and>
    wf_opt (end_queue (mq3_send env prio file q)) \<and> (mq3_receive env q = Some r \<longrightarrow> wf_opt (end_queue r))"
proof (intro conjI impI)
  show "wf_opt (end_queue (mq1_send env file q))" "wf_opt (end_queue (mq1_receive env q))"
    using assms by (auto simp: mq1_send_def mq1_receive_def Let_def split: option.splits reply.splits)
  show "wf_opt (end_queue (mq2_send env file file2 q))" "wf_opt (end_queue (mq2_receive env q))"
    using assms mq2_send_loop_wf mq2_receive_loop_wf
    by (auto simp: mq2_send_def mq2_receive_def split: option.splits)
  show "wf_opt (end_queue (mq3_send env prio file q))"
    using assms mq3_send_loop_wf by (auto simp: mq3_send_def Let_def split: option.splits)
  show "wf_opt (end_queue r)" if "mq3_receive env q = Some r"
    using that assms mq3_again_wf by (auto simp: mq3_receive_def split: option.splits if_splits)
qed

section \<open>Calls that succeed\<close>

definition willing :: "mq_env \<Rightarrow> bool" where
  "willing env \<longleftrightarrow> opens env \<and> (\<forall>i. attrs env i) \<and> (\<forall>i. callocs env i) \<and> (\<forall>i. sends env i) \<and>
     (\<forall>i. receives env i) \<and> unlinks env"

text \<open>A regular file that can be read.\<close>

definition plain :: "disk_file \<Rightarrow> bool" where
  "plain f \<longleftrightarrow> st_mode f = S_IFREG \<and> st_size f = length (contents f) \<and> can_open f \<and> (\<forall>i. can_read f i)"

lemmas willing_simps = willing_def plain_def mq_open_def MSG_MAX_SIZE_def MSG_MAX_NUM_def MQ_PRIO_MAX_def

text \<open>
  a regular file of at most 8192 bytes that the first sender puts into a new queue is printed by
  the receiver up to its first NUL, and the queue is gone again.
\<close>

theorem mq1_roundtrip:
  assumes "willing env" "plain f" "length (contents f) \<le> MSG_MAX_SIZE"
  shows "mq1_receive env (end_queue (mq1_send env (Some f) None)) =
    Ended None [if contents f = [] then No_payload else Message (cstr (contents f))] False"
  using assms by (simp add: willing_simps mq1_send_def mq1_receive_def mq_send_def mq_receive_def Let_def shown_text_eq unlinked_def)

section \<open>The order of the priorities\<close>

lemma mq2_receive_loop_drain:
  assumes "\<And>k. receives env k" "mq_msgsize qd \<le> room" "n \<le> length (mq_held qd)"
  shows "mq2_receive_loop env room n i qd out =
    Ended (unlinked env (snd (drain mq_get n qd))) (out @ map (shown_text (room + 1) \<circ> snd) (fst (drain mq_get n qd))) False"
  using assms
proof (induction n arbitrary: i qd out)
  case (Suc n)
  obtain p b ms where h: "mq_held qd = (p, b) # ms" using Suc.prems(3) by (cases "mq_held qd") auto
  define r where "r = qd\<lparr>mq_held := ms\<rparr>"
  have "mq_receive (receives env i) room qd = Granted ((p, b), r)"
    using Suc.prems h by (simp add: mq_receive_def r_def)
  moreover have "mq_get qd = Some ((p, b), r)" using h by (simp add: r_def)
  moreover have "mq2_receive_loop env room n (i + 1) r (out @ [shown_text (room + 1) b]) =
      Ended (unlinked env (snd (drain mq_get n r)))
        ((out @ [shown_text (room + 1) b]) @ map (shown_text (room + 1) \<circ> snd) (fst (drain mq_get n r))) False"
    using Suc.prems h by (intro Suc.IH) (simp_all add: r_def)
  ultimately show ?case by (simp add: Let_def split_beta)
qed simp

lemma mq2_receive_all:
  assumes "willing env" "mq_held q \<noteq> []"
  shows "mq2_receive env (Some q) = Ended None (map (shown_text (mq_msgsize q + 1) \<circ> snd) (mq_held q)) False"
  using assms mq2_receive_loop_drain [of env q "mq_msgsize q" "length (mq_held q)" 0 "[]"]
    posix.drain_pending [of "length (mq_held q)" q]
  by (simp add: willing_def mq2_receive_def mq_open_def unlinked_def)

text \<open>
  C31: whatever messages a queue holds already, after the second sender has added its two files the
  receiver prints all the messages by falling priority, those of one priority in the order of
  their arrival, so that the second file comes before the first; and it removes the queue.
\<close>

theorem mq2_delivers_by_priority:
  assumes "willing env" "mq_wf q" "length (mq_held q) + 2 \<le> mq_maxmsg q"
    and "plain f" "length (contents f) \<le> min MSG_MAX_SIZE (mq_msgsize q)"
    and "plain g" "length (contents g) \<le> min MSG_MAX_SIZE (mq_msgsize q)"
  shows "mq2_receive env (end_queue (mq2_send env (Some f) (Some g) (Some q))) =
    Ended None (map (shown_text (mq_msgsize q + 1) \<circ> snd)
      (sort_key prio_rank (mq_held q @ [(1, contents f), (2, contents g)]))) False"
proof -
  let ?ms = "[(1, contents f), (2, contents g)]"
  define r where "r = q\<lparr>mq_held := fold (enqueue prio_rank) ?ms (mq_held q)\<rparr>"
  have "end_queue (mq2_send env (Some f) (Some g) (Some q)) = Some r"
    using assms by (simp add: mq2_send_def mq_send_def willing_simps r_def)
  moreover have "mq_held r = sort_key prio_rank (mq_held q @ ?ms)"
    using assms(2) enqueue_all [of prio_rank ?ms "mq_held q"]
    by (simp add: r_def mq_wf_def sort_key_id_if_sorted del: fold_simps)
  moreover have "sort_key prio_rank (mq_held q @ ?ms) \<noteq> []"
    using length_sort [of prio_rank "mq_held q @ ?ms"] by (auto simp del: length_sort)
  ultimately show ?thesis using mq2_receive_all [OF assms(1), of r] by (simp add: r_def)
qed

end
