(* ===== verification/Queue_Pieces.thy ===== *)
theory Queue_Pieces
  imports Posix_Queue_Props
begin

text \<open>
  LAB_15/task_posix_queues_3: a file that is longer than a message travels in pieces. The sender
  and the receiver are followed through their loops; the receiver ends when its calls do not fail
  for ever.
\<close>

section \<open>Pieces\<close>

function pieces :: "nat \<Rightarrow> 'a list \<Rightarrow> 'a list list" where
  "pieces n xs = (if n = 0 \<or> xs = [] then [] else take n xs # pieces n (drop n xs))"
  by pat_completeness auto
termination by (relation "measure (length \<circ> snd)") auto

declare pieces.simps [simp del]

lemma pieces_simps [simp]:
  "pieces n [] = []" "0 < n \<Longrightarrow> xs \<noteq> [] \<Longrightarrow> pieces n xs = take n xs # pieces n (drop n xs)"
  by (subst pieces.simps, simp)+




section \<open>The sender\<close>

definition padded :: "nat \<Rightarrow> bytes \<Rightarrow> bytes" where
  "padded n p = p @ zeros (n - length p)"

lemma padded_length [simp]: "length p \<le> n \<Longrightarrow> length (padded n p) = n"
  by (simp add: padded_def)

text \<open>What the queue holds after the pieces that find room, when no message of a lower priority is in it.\<close>

definition with_pieces :: "int \<Rightarrow> nat \<Rightarrow> bytes list \<Rightarrow> mqueue \<Rightarrow> mqueue" where
  "with_pieces prio n ps qd = qd\<lparr>mq_held := mq_held qd @ map (\<lambda>p. (prio, padded n p)) ps\<rparr>"

lemma with_pieces_simps [simp]:
  "with_pieces prio n [] qd = qd"
  "with_pieces prio n ps (with_pieces prio n [p] qd) = with_pieces prio n (p # ps) qd"
  "mq_maxmsg (with_pieces prio n ps qd) = mq_maxmsg qd" "mq_msgsize (with_pieces prio n ps qd) = mq_msgsize qd"
  "mq_held (with_pieces prio n ps qd) = mq_held qd @ map (\<lambda>p. (prio, padded n p)) ps"
  by (simp_all add: with_pieces_def)



section \<open>The receiver\<close>




section \<open>When the receiver returns\<close>

lemma mq3_round_progress:
  assumes "mq3_round env n m i qd nbytes rd out = Round_over m' i' r nbytes' rd' out'" "mq_msgsize qd \<le> n"
  shows "mq_msgsize r = mq_msgsize qd \<and> length (mq_held r) + m = length (mq_held qd) + m' \<and>
    (m' = 0 \<or> i < i' \<and> \<not> receives env (i' - 1))"
  using assms
proof (induction env n m i qd nbytes rd out rule: mq3_round.induct)
  case (2 env n m i qd nbytes rd out)
  show ?case
  proof (cases "mq_receive (receives env i) n qd")
    case Refused
    then show ?thesis using 2(2,3) by (auto simp: mq_receive_def split: if_splits list.splits)
  next
    case Waits
    then show ?thesis using 2(2) by simp
  next
    case (Granted a)
    obtain p b s where a: "a = ((p, b), s)" by (metis surj_pair)
    have s: "mq_msgsize s = mq_msgsize qd" "length (mq_held qd) = Suc (length (mq_held s))"
      using Granted a by (auto simp: mq_receive_def split: if_splits list.splits)
    show ?thesis using 2(1) [OF Granted a [symmetric] refl] 2(2,3) Granted a s by auto
  qed
qed simp

lemma mq3_again_returns:
  assumes "\<And>k. K \<le> k \<Longrightarrow> receives env k" "mq_msgsize qd \<le> n" "m = length (mq_held qd)"
  shows "\<exists>e. mq3_again env n m i j qd nbytes rd out = Some e"
  using assms(2,3)
proof (induction "K - i" arbitrary: m i j qd nbytes rd out rule: less_induct)
  case less
  show ?case
  proof (cases "mq3_round env n m i qd nbytes rd out")
    case Round_waits
    then show ?thesis by (simp add: mq3_again.simps)
  next
    case (Round_over m' i' r nbytes' rd' out')
    note p = mq3_round_progress [OF Round_over less.prems(1)]
    have "\<exists>e. mq3_again env n (length (mq_held r)) i' (j + 1) r nbytes' rd' out' = Some e" if "mq_held r \<noteq> []"
    proof (rule less.hyps)
      have "i < i'" "\<not> receives env (i' - 1)" using p less.prems(2) that by auto
      then have "i' - 1 < K" using assms(1) by (meson linorder_not_less)
      then show "K - i' < K - i" using \<open>i < i'\<close> by linarith
    qed (use p less.prems(1) in simp_all)
    then show ?thesis using Round_over by (subst mq3_again.simps) auto
  qed
qed

lemma mq3_again_endless:
  assumes "\<And>k. \<not> receives env k" "\<And>k. attrs env k" "mq_held qd \<noteq> []" "0 < m"
  shows "mq3_again env n m i j qd nbytes rd out = None"
proof (rule ccontr)
  let ?P = "\<lambda>e n m i j qd nbytes rd out (r :: mqueue mq_end). e = env \<longrightarrow> mq_held qd \<noteq> [] \<longrightarrow> 0 < m \<longrightarrow> False"
  assume "mq3_again env n m i j qd nbytes rd out \<noteq> None"
  then obtain r where ret: "mq3_again env n m i j qd nbytes rd out = Some r" by blast
  have "?P env n m i j qd nbytes rd out r"
  proof (rule mq3_again.raw_induct [where P = ?P, OF _ ret])
    fix again :: "mq_env \<Rightarrow> nat \<Rightarrow> nat \<Rightarrow> nat \<Rightarrow> nat \<Rightarrow> mqueue \<Rightarrow> int \<Rightarrow> nat \<Rightarrow> mq_output list \<Rightarrow> mqueue mq_end option"
      and e n m i j qd nbytes rd out and r :: "mqueue mq_end"
    assume IH: "\<And>e n m i j qd nbytes rd out r. again e n m i j qd nbytes rd out = Some r \<Longrightarrow> ?P e n m i j qd nbytes rd out r"
      and eq: "(case mq3_round e n m i qd nbytes rd out of
        Round_waits qd out \<Rightarrow> Some (Waiting (Some qd) out)
      | Round_over msg_num i qd nbytes rd out \<Rightarrow>
          if \<not> attrs e j then Some (mq3_over e msg_num qd nbytes rd out True)
          else if mq_held qd \<noteq> [] then again e n (length (mq_held qd)) i (j + 1) qd nbytes rd out
          else Some (mq3_over e 0 qd nbytes rd out False)) = Some r"
    show "?P e n m i j qd nbytes rd out r"
    proof (intro impI)
      assume e: "e = env" and h: "mq_held qd \<noteq> []" "0 < m"
      obtain k where k: "m = Suc k" using h(2) by (cases m) auto
      have "again e n (length (mq_held qd)) (i + 1) (j + 1) qd nbytes rd out = Some r"
        using eq e h(1) assms(1,2) by (simp add: k mq_receive_def)
      from IH [OF this] show False using e h(1) by simp
    qed
  qed
  then show False using assms(3,4) by simp
qed

text \<open>
  C33: the receiver of the third task returns when its calls of \<open>mq_receive\<close> do not fail for ever;
  when they all fail while messages are there it never does, although it reports the errors.
\<close>

theorem mq3_receive_returns:
  shows "((\<exists>K. \<forall>k \<ge> K. receives env k) \<longrightarrow> (\<exists>e. mq3_receive env q = Some e)) \<and>
    (opens env \<and> (\<forall>k. attrs env k) \<and> callocs env 0 \<and> (\<forall>k. \<not> receives env k) \<and>
     (\<exists>r. q = Some r \<and> mq_held r \<noteq> []) \<longrightarrow> mq3_receive env q = None)"
proof (intro conjI impI)
  assume "\<exists>K. \<forall>k \<ge> K. receives env k"
  then obtain K where "\<And>k. K \<le> k \<Longrightarrow> receives env k" by blast
  then show "\<exists>e. mq3_receive env q = Some e"
    using mq3_again_returns [of K env] by (auto simp: mq3_receive_def split: option.splits)
next
  assume "opens env \<and> (\<forall>k. attrs env k) \<and> callocs env 0 \<and> (\<forall>k. \<not> receives env k) \<and> (\<exists>r. q = Some r \<and> mq_held r \<noteq> [])"
  then show "mq3_receive env q = None"
    using mq3_again_endless [of env] by (auto simp: mq3_receive_def mq_open_def)
qed

section \<open>Instances\<close>

definition all_calls :: mq_env where
  "all_calls = \<lparr>opens = True, attrs = (\<lambda>k. True), callocs = (\<lambda>k. True), sends = (\<lambda>k. True),
     receives = (\<lambda>k. True), unlinks = True\<rparr>"

definition file_of :: "string \<Rightarrow> disk_file" where
  "file_of s = \<lparr>st_mode = S_IFREG, st_size = length s, contents = s, can_open = True, can_read = (\<lambda>k. True)\<rparr>"

lemma samples [simp]: "willing all_calls" "plain (file_of s)" "contents (file_of s) = s"
  by (simp_all add: willing_def plain_def all_calls_def file_of_def)

definition one_waiting :: mqueue where
  "one_waiting = \<lparr>mq_maxmsg = 8, mq_msgsize = 8192, mq_held = [(1, ''old'')]\<rparr>"

lemma one_waiting_wf: "mq_wf one_waiting"
  by (simp add: mq_wf_def one_waiting_def MQ_PRIO_MAX_def)

theorem mq_programs_wf_witness: "wf_opt (end_queue (mq1_send all_calls (Some (file_of ''a'')) (Some one_waiting)))"
  using mq_programs_wf [of "Some one_waiting" all_calls "Some (file_of ''a'')"] one_waiting_wf by simp

theorem mq1_roundtrip_witness:
  "mq1_receive all_calls (end_queue (mq1_send all_calls (Some (file_of ''hello'')) None)) = Ended None [Message ''hello''] False"
  using mq1_roundtrip [of all_calls "file_of ''hello''"] by (simp add: MSG_MAX_SIZE_def cstr_def)

theorem mq2_delivers_witness:
  "mq2_receive all_calls (end_queue (mq2_send all_calls (Some (file_of ''a'')) (Some (file_of ''b'')) (Some one_waiting))) =
    Ended None [Message ''b'', Message ''old'', Message ''a''] False"
  using mq2_delivers_by_priority [of all_calls one_waiting "file_of ''a''" "file_of ''b''"] one_waiting_wf
  by (simp add: one_waiting_def MSG_MAX_SIZE_def shown_text_eq cstr_def)


theorem mq3_receive_returns_witness:
  "(\<exists>e. mq3_receive all_calls None = Some e) \<and> mq3_receive (all_calls\<lparr>receives := (\<lambda>k. False)\<rparr>) (Some one_waiting) = None"
  using mq3_receive_returns [of all_calls None] mq3_receive_returns [of "all_calls\<lparr>receives := (\<lambda>k. False)\<rparr>" "Some one_waiting"]
  by (simp add: all_calls_def one_waiting_def)

end
