(* ===== verification/Sysv_Queues.thy ===== *)
theory Sysv_Queues
  imports Posix_Queue_Props
begin

text \<open>
  LAB_15/task_sys_v_queues_1 to 3: the same programs over System V message queues, where a receiver
  chooses the type of the message it wants and never waits for one.
\<close>

section \<open>Calls\<close>

text \<open>Which calls succeed; \<open>limits\<close> are the limits of a new queue.\<close>

record sv_env =
  key_ok :: bool
  get_ok :: bool
  snd_ok :: "nat \<Rightarrow> bool"
  rcv_ok :: "nat \<Rightarrow> bool"
  stat_ok :: bool
  last_stat_ok :: bool
  alloc_ok :: bool
  rmid_ok :: bool
  limits :: "nat \<times> nat"

definition MSG_SIZE :: nat where "MSG_SIZE = 2048"

text \<open>\<open>msgctl\<close> with \<open>IPC_RMID\<close>: its answer is not looked at.\<close>

definition removed :: "sv_env \<Rightarrow> svqueue \<Rightarrow> svqueue option" where
  "removed env qd = (if rmid_ok env then None else Some qd)"

definition readable :: "disk_file option \<Rightarrow> bool" where
  "readable file \<longleftrightarrow> (case file of None \<Rightarrow> False | Some f \<Rightarrow> can_open f \<and> can_read f 0)"

definition first_bytes :: "nat \<Rightarrow> disk_file option \<Rightarrow> bytes" where
  "first_bytes n file = (case file of None \<Rightarrow> [] | Some f \<Rightarrow> take n (contents f))"

section \<open>One message\<close>

definition sv1_send :: "sv_env \<Rightarrow> disk_file option \<Rightarrow> svqueue option \<Rightarrow> svqueue mq_end" where
  "sv1_send env file q =
     (if \<not> readable file then Ended q [] True
      else if \<not> key_ok env then Ended q [] True
      else case msgget (get_ok env) (limits env) q of
        None \<Rightarrow> Ended q [] True
      | Some qd \<Rightarrow>
          (case msgsnd (snd_ok env 0) 1 (first_bytes MSG_SIZE file) qd of
             Refused \<Rightarrow> Ended (Some qd) [] True
           | Waits \<Rightarrow> Waiting (Some qd) []
           | Granted r \<Rightarrow> Ended (Some r) [] False))"

definition sv1_receive :: "sv_env \<Rightarrow> svqueue option \<Rightarrow> svqueue mq_end" where
  "sv1_receive env q =
     (if \<not> key_ok env then Ended q [] True
      else case msgget (get_ok env) (limits env) q of
        None \<Rightarrow> Ended q [] True
      | Some qd \<Rightarrow>
          (case msgrcv (rcv_ok env 0) MSG_SIZE 1 qd of
             Refused \<Rightarrow> Ended (removed env qd) [] True
           | Waits \<Rightarrow> Ended (Some qd) [] False
           | Granted ((typ, b), r) \<Rightarrow> Ended (removed env r) [Message (cstr (b @ zeros (MSG_SIZE + 1 - length b)))] False))"

section \<open>Two messages\<close>

text \<open>The key and the queue are asked for in the first round only: \<open>opened\<close> is \<open>quid \<noteq> -1\<close>.\<close>

fun sv2_send_loop :: "sv_env \<Rightarrow> nat \<Rightarrow> disk_file option list \<Rightarrow> bool \<Rightarrow> svqueue option \<Rightarrow> nat \<Rightarrow> bool \<Rightarrow> svqueue mq_end" where
  "sv2_send_loop env i [] opened q n failed = Ended q [Count n] failed"
| "sv2_send_loop env i (file # files) opened q n failed =
     (if \<not> readable file then Ended q [] True
      else if \<not> opened \<and> \<not> key_ok env then Ended q [] True
      else case (if opened then q else msgget (get_ok env) (limits env) q) of
        None \<Rightarrow> Ended q [] True
      | Some qd \<Rightarrow>
          (case msgsnd (snd_ok env i) (int i + 1) (first_bytes MSG_SIZE file) qd of
             Refused \<Rightarrow> sv2_send_loop env (i + 1) files True (Some qd) n True
           | Waits \<Rightarrow> Waiting (Some qd) []
           | Granted r \<Rightarrow> sv2_send_loop env (i + 1) files True (Some r) (n + 1) failed))"

definition sv2_send :: "sv_env \<Rightarrow> disk_file option \<Rightarrow> disk_file option \<Rightarrow> svqueue option \<Rightarrow> svqueue mq_end" where
  "sv2_send env file file2 q = sv2_send_loop env 0 [file, file2] False q 0 False"

text \<open>The loop of the receiver, with \<open>k\<close> rounds to go; a missing message is no error.\<close>

fun sv2_receive_loop :: "sv_env \<Rightarrow> nat \<Rightarrow> nat \<Rightarrow> svqueue \<Rightarrow> nat \<Rightarrow> mq_output list \<Rightarrow> svqueue mq_end" where
  "sv2_receive_loop env 0 i qd n out = Ended (if 0 < n then removed env qd else Some qd) (out @ [Count n]) False"
| "sv2_receive_loop env (Suc k) i qd n out =
     (case msgrcv (rcv_ok env i) MSG_SIZE (-2) qd of
        Refused \<Rightarrow> Ended (removed env qd) out True
      | Waits \<Rightarrow> sv2_receive_loop env k (i + 1) qd n out
      | Granted ((typ, b), r) \<Rightarrow>
          sv2_receive_loop env k (i + 1) r (n + 1) (out @ [Message (cstr (b @ zeros (MSG_SIZE + 1 - length b)))]))"

definition sv2_receive :: "sv_env \<Rightarrow> svqueue option \<Rightarrow> svqueue mq_end" where
  "sv2_receive env q =
     (if \<not> key_ok env then Ended q [] True
      else case msgget (get_ok env) (limits env) q of
        None \<Rightarrow> Ended q [] True
      | Some qd \<Rightarrow> sv2_receive_loop env 2 0 qd 0 [])"

section \<open>A message of any size\<close>

definition sv3_send :: "sv_env \<Rightarrow> bool \<Rightarrow> int \<Rightarrow> disk_file option \<Rightarrow> svqueue option \<Rightarrow> svqueue mq_end" where
  "sv3_send env queue_file mtype file q =
     (if \<not> queue_file then Ended q [] True
      else case file of
        None \<Rightarrow> Ended q [] True
      | Some f \<Rightarrow>
          if st_mode f \<noteq> S_IFREG then Ended q [] False
          else if \<not> key_ok env then Ended q [] True
          else case msgget (get_ok env) (limits env) q of
            None \<Rightarrow> Ended q [] True
          | Some qd \<Rightarrow>
              let payload_size = st_size f; b = take payload_size (contents f) in
              if \<not> alloc_ok env \<or> \<not> can_open f \<or> \<not> can_read f 0 then Ended (Some qd) [] True
              else case msgsnd (snd_ok env 0) mtype (b @ zeros (payload_size - length b)) qd of
                Refused \<Rightarrow> Ended (Some qd) [] True
              | Waits \<Rightarrow> Waiting (Some qd) []
              | Granted r \<Rightarrow> Ended (Some r) [] False)"

text \<open>
  The receiver behind the label \<open>end\<close>: \<open>msgctl\<close> with \<open>IPC_STAT\<close> overwrites \<open>ret\<close>, so that an earlier
  failure is forgotten. \<open>got\<close> is \<open>nbytes \<ge> 0\<close>. Before \<open>msgget\<close> the identifier is 0, which may be
  the queue of another program.
\<close>

definition sv3_over :: "sv_env \<Rightarrow> svqueue option \<Rightarrow> bool \<Rightarrow> mq_output list \<Rightarrow> svqueue mq_end" where
  "sv3_over env q got out =
     (if \<not> last_stat_ok env then Ended q out True
      else case q of
        Some qd \<Rightarrow> Ended (if got \<and> sv_held qd = [] then removed env qd else Some qd) out False
      | None \<Rightarrow> Ended None out False)"

definition sv3_receive :: "sv_env \<Rightarrow> bool \<Rightarrow> int \<Rightarrow> svqueue option \<Rightarrow> svqueue mq_end" where
  "sv3_receive env queue_file mtype q =
     (if \<not> queue_file \<or> \<not> key_ok env then sv3_over env q False []
      else case msgget (get_ok env) (limits env) q of
        None \<Rightarrow> Ended q [] True
      | Some qd \<Rightarrow>
          if \<not> stat_ok env then sv3_over env (Some qd) False []
          else if sv_held qd = [] then sv3_over env (Some qd) False []
          else if \<not> alloc_ok env then sv3_over env (Some qd) False []
          else case msgrcv (rcv_ok env 0) (msg_cbytes qd) mtype qd of
            Refused \<Rightarrow> sv3_over env (Some qd) False []
          | Waits \<Rightarrow> sv3_over env (Some qd) False []
          | Granted ((typ, b), r) \<Rightarrow> sv3_over env (Some r) True [Message (cstr (b @ zeros (msg_cbytes qd + 1 - length b)))])"

definition sv3_main ::
    "sv_env \<Rightarrow> string list \<Rightarrow> (string \<Rightarrow> disk_file option) \<Rightarrow> (string \<Rightarrow> svqueue option) \<Rightarrow> svqueue mq_run" where
  "sv3_main env args files qs =
     (case mq_line False args of
        Inl b \<Rightarrow> Mq_usage b
      | Inr st \<Rightarrow>
          let queue_pname = the (qname st); queue_file = files queue_pname \<noteq> None in
          if is_sender st then Mq_sent (sv3_send env queue_file (typ_arg st) (files (the (file_name st))) (qs queue_pname))
          else Mq_received (Some (sv3_receive env queue_file (typ_arg st) (qs queue_pname))))"

section \<open>What arrives\<close>

definition all_ok :: "sv_env \<Rightarrow> bool" where
  "all_ok env \<longleftrightarrow> key_ok env \<and> get_ok env \<and> (\<forall>i. snd_ok env i) \<and> (\<forall>i. rcv_ok env i) \<and> stat_ok env \<and>
     last_stat_ok env \<and> alloc_ok env \<and> rmid_ok env"

text \<open>Room for messages of all in all \<open>n\<close> bytes.\<close>

definition has_room :: "nat \<Rightarrow> nat \<Rightarrow> svqueue \<Rightarrow> bool" where
  "has_room k n q \<longleftrightarrow> msg_cbytes q + n \<le> msg_qbytes q \<and> length (sv_held q) + k \<le> msg_qbytes q \<and> MSG_SIZE \<le> msg_max q"

text \<open>
  the first file that is sent is printed up to its first NUL; but the receiver then removes the
  queue with all the messages that have been sent after it, and exits with a success.
\<close>

theorem sv1_keeps_first_only:
  assumes "all_ok env" "readable (Some f)" "length (contents f) \<le> MSG_SIZE"
    and "q = \<lparr>msg_qbytes = fst (limits env), msg_max = snd (limits env), sv_held = []\<rparr>" "has_room 1 (length (contents f)) q"
  shows "end_queue (sv1_send env (Some f) None) = Some (q\<lparr>sv_held := [(1, contents f)]\<rparr>) \<and>
    sv1_receive env (Some (q\<lparr>sv_held := (1, contents f) # later\<rparr>)) = Ended None [Message (cstr (contents f))] False"
  using assms by (simp add: sv1_send_def sv1_receive_def all_ok_def msgget_def msgsnd_def msgrcv_def first_bytes_def
      has_room_def pick_def removed_def msg_cbytes_def)

lemma msgrcv_get:
  assumes "\<forall>m \<in> set (sv_held q). length (snd m) \<le> MSG_SIZE"
  shows "msgrcv True MSG_SIZE (-2) q = (case sv_get 1 q of None \<Rightarrow> Waits | Some x \<Rightarrow> Granted x)"
proof (cases "pick (-2) (sv_held q)")
  case (Some a)
  obtain m ms where a: "a = (m, ms)" by (cases a)
  then have "take_first (\<lambda>m. fst m \<le> 2 \<and> (\<forall>x \<in> set (sv_held q). fst m \<le> fst x)) (sv_held q) = Some (m, ms)"
    using Some by (simp add: pick_def)
  then have "m \<in> set (sv_held q)" by (auto dest!: take_first_Some)
  then have "\<not> MSG_SIZE < length (snd m)" using assms by force
  then show ?thesis using Some a by (simp add: msgrcv_def)
qed (simp add: msgrcv_def)

lemma sv_get_held: "sv_get 1 q = Some (m, r) \<Longrightarrow> set (sv_held r) \<subseteq> set (sv_held q)"
  by (auto simp: pick_def split: option.splits dest!: take_first_Some)

lemma sv2_receive_drain:
  assumes "all_ok env" "\<forall>m \<in> set (sv_held q). length (snd m) \<le> MSG_SIZE"
  shows "sv2_receive_loop env k i q n out =
    (let (ms, r) = drain (sv_get 1) k q in
      Ended (if 0 < n + length ms then None else Some r) (out @ map (Message \<circ> cstr \<circ> snd) ms @ [Count (n + length ms)]) False)"
  using assms
proof (induction k arbitrary: i q n out)
  case (Suc k)
  have rcv: "msgrcv (rcv_ok env i) MSG_SIZE (-2) q = (case sv_get 1 q of None \<Rightarrow> Waits | Some x \<Rightarrow> Granted x)"
    using msgrcv_get [OF Suc.prems(2)] Suc.prems(1) by (simp add: all_ok_def)
  show ?case
  proof (cases "sv_get 1 q")
    case None
    then have "drain (sv_get 1) k q = ([], q)" by (cases k) simp_all
    then show ?thesis using rcv None Suc.IH [OF Suc.prems] by simp
  next
    case (Some a)
    obtain t b r where a: "a = ((t, b), r)" by (metis surj_pair)
    have "\<forall>m \<in> set (sv_held r). length (snd m) \<le> MSG_SIZE" using sv_get_held [OF Some [unfolded a]] Suc.prems(2) by blast
    then show ?thesis using rcv Some a Suc.IH [OF Suc.prems(1)] by (simp add: Let_def split_beta)
  qed
qed (simp add: removed_def all_ok_def)

text \<open>
  the second receiver prints the two messages of the lowest types up to 2, the older first
  within a type, whatever the queue holds: after the second sender has put its files into an
  empty queue, the first file and then the second. It removes the queue with all that is left in it.
\<close>

theorem sv2_delivers_by_type:
  assumes "all_ok env" "\<forall>m \<in> set (sv_held q). length (snd m) \<le> MSG_SIZE"
    and "readable (Some f)" "readable (Some g)" "length (contents f) \<le> MSG_SIZE" "length (contents g) \<le> MSG_SIZE"
    and "has_room 2 (length (contents f) + length (contents g)) q"
  shows "sv2_receive env (end_queue (sv2_send env (Some f) (Some g) (Some q))) =
    Ended None (map (Message \<circ> cstr \<circ> snd) (take 2 (sort_key fst
      (filter (\<lambda>m. fst m \<le> 2) (sv_held q @ [(1, contents f), (2, contents g)])))) @ [Count 2]) False"
proof -
  let ?ms = "[(1, contents f), (2, contents g)] :: message list"
  define r where "r = q\<lparr>sv_held := sv_held q @ ?ms\<rparr>"
  have "end_queue (sv2_send env (Some f) (Some g) (Some q)) = Some r"
    using assms by (simp add: sv2_send_def all_ok_def msgget_def msgsnd_def first_bytes_def has_room_def msg_cbytes_def r_def)
  moreover have "fst (drain (sv_get 1) 2 r) = take 2 (sort_key fst (filter (\<lambda>m. fst m \<le> 2) (sv_held q @ ?ms)))"
    using sysv.drain_pending [of 1 2 r] by (simp add: r_def)
  moreover have "sv2_receive_loop env 2 0 r 0 [] = (let (ms, s) = drain (sv_get 1) 2 r in
      Ended (if 0 < 0 + length ms then None else Some s) ([] @ map (Message \<circ> cstr \<circ> snd) ms @ [Count (0 + length ms)]) False)"
    using assms(2,5,6) by (intro sv2_receive_drain [OF assms(1)]) (auto simp: r_def)
  moreover have "sort_key fst (filter (\<lambda>m. fst m \<le> 2) (sv_held q) @ ?ms) \<noteq> []"
    using length_sort [of fst "filter (\<lambda>m. fst m \<le> 2) (sv_held q) @ ?ms"] by (auto simp del: length_sort)
  ultimately show ?thesis using assms(1)
    by (simp add: sv2_receive_def all_ok_def msgget_def split_beta Let_def del: sort_key_simps)
qed

text \<open>
  the receiver of the third task exits with a success after a queue file that is missing, after a
  failed key, \<open>msgctl\<close>, allocation or \<open>msgrcv\<close>: with a failure it ends only when \<open>msgget\<close> fails or the
  last \<open>msgctl\<close>.
\<close>

theorem sv3_failures_forgotten:
  shows "(\<exists>r out. sv3_receive env queue_file mtype q = Ended r out True) \<longleftrightarrow>
    (if queue_file \<and> key_ok env \<and> \<not> get_ok env then True else \<not> last_stat_ok env)"
  by (auto simp: sv3_receive_def sv3_over_def msgget_def split: option.splits reply.splits if_splits)

text \<open>
  a file that its sender can read is printed by the receiver of the third task up to its first NUL
  when it asks for the same type, and the queue is removed once it is empty.
\<close>

theorem sv3_roundtrip:
  assumes "all_ok env" "plain f" "contents f \<noteq> []" "0 < typ" "has_room 1 (length (contents f)) q" "sv_held q = []"
    and "length (contents f) \<le> msg_max q"
  shows "sv3_receive env True typ (end_queue (sv3_send env True typ (Some f) (Some q))) =
    Ended None [Message (cstr (contents f))] False"
  using assms by (simp add: sv3_send_def sv3_receive_def sv3_over_def plain_def all_ok_def msgget_def msgsnd_def msgrcv_def
      has_room_def pick_def removed_def msg_cbytes_def Let_def)

section \<open>Instances\<close>

definition sv_calls :: sv_env where
  "sv_calls = \<lparr>key_ok = True, get_ok = True, snd_ok = (\<lambda>k. True), rcv_ok = (\<lambda>k. True), stat_ok = True,
     last_stat_ok = True, alloc_ok = True, rmid_ok = True, limits = (16384, 8192)\<rparr>"

definition sv_sample :: "message list \<Rightarrow> svqueue" where
  "sv_sample ms = \<lparr>msg_qbytes = 16384, msg_max = 8192, sv_held = ms\<rparr>"

definition text_file :: "string \<Rightarrow> disk_file" where
  "text_file s = \<lparr>st_mode = S_IFREG, st_size = length s, contents = s, can_open = True, can_read = (\<lambda>k. True)\<rparr>"

lemma sv_samples [simp]: "all_ok sv_calls" "readable (Some (text_file s))" "plain (text_file s)"
    "contents (text_file s) = s" "sv_held (sv_sample ms) = ms" "limits sv_calls = (16384, 8192)"
    "has_room k n (sv_sample []) \<longleftrightarrow> n \<le> 16384 \<and> k \<le> 16384" "msg_max (sv_sample ms) = 8192"
  by (simp_all add: all_ok_def sv_calls_def readable_def text_file_def plain_def sv_sample_def has_room_def msg_cbytes_def
      MSG_SIZE_def)

theorem sv1_keeps_first_only_witness:
  "sv1_receive sv_calls (Some ((sv_sample [])\<lparr>sv_held := [(1, ''a''), (1, ''b'')]\<rparr>)) = Ended None [Message ''a''] False"
  using sv1_keeps_first_only [of sv_calls "text_file ''a''" "sv_sample []" "[(1, ''b'')]"]
  by (simp add: MSG_SIZE_def cstr_def sv_sample_def has_room_def msg_cbytes_def)

theorem sv2_delivers_witness:
  "sv2_receive sv_calls (end_queue (sv2_send sv_calls (Some (text_file ''a'')) (Some (text_file ''b'')) (Some (sv_sample [])))) =
    Ended None [Message ''a'', Message ''b'', Count 2] False"
  using sv2_delivers_by_type [of sv_calls "sv_sample []" "text_file ''a''" "text_file ''b''"]
  by (simp add: MSG_SIZE_def cstr_def numeral_2_eq_2)

theorem sv3_roundtrip_witness:
  "sv3_receive sv_calls True 4 (end_queue (sv3_send sv_calls True 4 (Some (text_file ''a'')) (Some (sv_sample [])))) =
    Ended None [Message ''a''] False"
  using sv3_roundtrip [of sv_calls "text_file ''a''" 4 "sv_sample []"] by (simp add: cstr_def)

end
