(* ===== verification/Pipe_Tasks.thy ===== *)
theory Pipe_Tasks
  imports Shell_Pipes
begin

text \<open>
  LAB_14/task_pipe1 to task_pipe6, the steps on the way to the shell of task_pipe7: two processes
  with one pipe, commands given as arguments, any number of pipes, and redirections. The context
  of a pipeline, the descriptor tables and the children are those of \<open>Shell_Pipes\<close>; memory
  is taken to be available.
\<close>

section \<open>pipe1: a word for the child\<close>

text \<open>Which of their calls succeed: for the child \<open>close\<close>, \<open>read\<close>, \<open>close\<close>, \<open>write\<close>, for the parent \<open>close\<close>, \<open>write\<close>, \<open>close\<close>.\<close>

record word_os =
  word_pipe :: bool
  word_fork :: bool
  child_call :: "nat \<Rightarrow> bool"
  parent_call :: "nat \<Rightarrow> bool"

definition ARR_SIZE :: nat where "ARR_SIZE = 100"

text \<open>
  The newline goes where \<open>strlen\<close> ends; \<open>strlen\<close> runs out of the buffer when there is no zero in
  it, before or behind the new character. \<open>None\<close> is an exit with a failure.
\<close>

definition word_child :: "word_os \<Rightarrow> bytes \<Rightarrow> string option run" where
  "word_child os sent =
     (if \<not> child_call os 0 \<or> \<not> child_call os 1 \<or> \<not> child_call os 2 then Done None
      else let got = take ARR_SIZE sent; buf = got @ zeros (ARR_SIZE - length got); n = length (cstr buf) in
        if n = ARR_SIZE then Fault OutOfBounds
        else let buf2 = buf[n := NL]; m = length (cstr buf2) in
          if m = ARR_SIZE then Fault OutOfBounds
          else if child_call os 3 then Done (Some (take m buf2)) else Done None)"

text \<open>Where \<open>read\<close> waits until the parent has written or has no descriptor left. The second part says whether the parent fails.\<close>

definition proc_exchange :: "word_os \<Rightarrow> string \<Rightarrow> string option run option \<times> bool" where
  "proc_exchange os arg =
     (if \<not> word_pipe os \<or> \<not> word_fork os then (None, True)
      else let written = parent_call os 0 \<and> parent_call os 1 in
        (Some (word_child os (if written then arg else [])), \<not> (written \<and> parent_call os 2)))"

definition pipe1_main :: "word_os \<Rightarrow> string list \<Rightarrow> string option run option \<times> bool" where
  "pipe1_main os args = (case args of [] \<Rightarrow> (None, True) | a # as \<Rightarrow> proc_exchange os a)"

section \<open>Commands as arguments\<close>

text \<open>One command up to the next bar; \<open>n\<close> commands are left.\<close>

fun split_cmds :: "nat \<Rightarrow> string list \<Rightarrow> string list list" where
  "split_cmds 0 ws = []"
| "split_cmds (Suc n) ws = takeWhile (\<lambda>w. \<not> is_pipe w) ws # split_cmds n (tl (dropWhile (\<lambda>w. \<not> is_pipe w) ws))"

text \<open>\<open>None\<close>: no arguments, or a bar at an end.\<close>

definition args_cmds :: "string list \<Rightarrow> string list list option" where
  "args_cmds args =
     (let pipe_idx = last_idx is_pipe args 0 None in
      if args = [] \<or> pipe_idx = Some 0 \<or> pipe_idx = Some (length args - 1) then None
      else Some (split_cmds (length (filter is_pipe args) + 1) args))"

text \<open>\<open>execvp\<close> without a program fails.\<close>

definition runs :: "string list \<Rightarrow> fdtab cstep \<Rightarrow> child" where
  "runs argv t =
     (case t of Go t1 \<Rightarrow> if argv = [] then Exits else Runs argv t1 | Exited \<Rightarrow> Exits | Crash \<Rightarrow> Crashes)"

section \<open>pipe2: one pipe for all\<close>

text \<open>
  All children are forked in the first round of the outer loop, when there is one pipe; the array
  \<open>pid\<close> has two entries. The second part of the result is the table of the parent.
\<close>

definition pipe2_child :: "(int \<times> int) \<Rightarrow> nat \<Rightarrow> fdtab \<Rightarrow> fdtab cstep" where
  "pipe2_child pipefd j t =
     (let (pipe_end, fd_num) = (if j mod 2 = 1 then (fst pipefd, 0) else (snd pipefd, 1)) in
      cbind (sys (fd_dup2 pipe_end fd_num t)) (\<lambda>t1.
      cbind (sys (fd_close (snd pipefd) t1)) (\<lambda>t2. sys (fd_close (fst pipefd) t2))))"

fun pipe2_forks :: "pipe_os \<Rightarrow> (int \<times> int) \<Rightarrow> fdtab \<Rightarrow> string list list \<Rightarrow> nat \<Rightarrow> (bool \<times> child list) run" where
  "pipe2_forks os pipefd t [] j = Done (True, [])"
| "pipe2_forks os pipefd t (c # cs) j =
     (if 2 \<le> j then Fault OutOfBounds
      else if \<not> pfork_ok os j then Done (False, [])
      else bind_run (pipe2_forks os pipefd t cs (j + 1)) (\<lambda>(ok, ks). Done (ok, runs c (pipe2_child pipefd j t) # ks)))"

fun wait_all :: "pipe_os \<Rightarrow> nat \<Rightarrow> nat \<Rightarrow> int \<Rightarrow> int" where
  "wait_all os 0 j ret = ret"
| "wait_all os (Suc n) j ret = wait_all os n (j + 1) (wait_status os j False)"

definition my_pipe2 :: "pipe_os \<Rightarrow> string list list \<Rightarrow> (int \<times> child list \<times> fdtab) run" where
  "my_pipe2 os cs =
     (if \<not> pipe_ok os 0 then Done (1, [], start_fds)
      else let (r, t1) = fd_open (Pipe_read 0) start_fds; (w, t2) = fd_open (Pipe_write 0) t1;
               t3 = quiet_close (int w) (quiet_close (int r) t2) in
        bind_run (pipe2_forks os (int r, int w) t2 cs 0) (\<lambda>(ok, ks).
          if ok then Done (wait_all os (length cs) 0 0, ks, t3) else Done (1, ks, t3)))"

definition pipe2_main :: "pipe_os \<Rightarrow> string list \<Rightarrow> (int \<times> child list) run" where
  "pipe2_main os args =
     (if length args \<le> 3 \<or> filter is_pipe args = [] then Done (1, [])
      else case args_cmds args of
        None \<Rightarrow> Done (1, [])
      | Some cs \<Rightarrow> bind_run (my_pipe2 os cs) (\<lambda>(ret, ks, t). Done (ret, ks)))"

section \<open>pipe3: a pipe between every two commands\<close>

definition child_pipes :: "nat \<Rightarrow> (int \<times> int) list \<Rightarrow> nat \<Rightarrow> nat \<Rightarrow> fdtab \<Rightarrow> fdtab cstep" where
  "child_pipes pn pl prev pidx t =
     (let e = (if 0 < pidx then RD else WR) in
      cbind (sys (fd_dup2 (pl_get pl prev e) e t)) (\<lambda>t1.
      cbind (if 0 < pidx \<and> pidx < pn then sys (fd_dup2 (pl_get pl pidx WR) 1 t1) else Go t1) (\<lambda>t2.
      cbind (if pl_get pl prev WR > 0 then sys (fd_close (pl_get pl prev WR) t2) else Go t2) (\<lambda>t3.
      cbind (sys (fd_close (pl_get pl prev RD) t3)) (\<lambda>t4.
      if 0 < pidx \<and> pidx < pn then
        cbind (sys (fd_close (pl_get pl pidx WR) t4)) (\<lambda>t5. sys (fd_close (pl_get pl pidx RD) t5))
      else Go t4)))))"

text \<open>The closing calls of the parent are those of \<open>parent_close\<close> on a context of \<open>pn\<close> pipes.\<close>

definition only_pipes :: "nat \<Rightarrow> cmd_ctx" where
  "only_pipes pn = \<lparr>cmds = [], to_from = [], pipe_num = pn, redir_num = 0\<rparr>"

fun pipe3_loop :: "pipe_os \<Rightarrow> nat \<Rightarrow> string list list \<Rightarrow> nat \<Rightarrow> nat \<Rightarrow> pstate \<Rightarrow> bool \<times> int \<times> pstate" where
  "pipe3_loop os pn [] i pidx st = (True, 0, st)"
| "pipe3_loop os pn (c # cs) i pidx st =
     (let prev = (if 0 < pidx then pidx - 1 else pidx) in
      if 0 < pn \<and> pidx < pn \<and> \<not> pipe_ok os i then (False, 1, st)
      else let st1 = (if 0 < pn \<and> pidx < pn then make_pipe pidx st else st) in
        if \<not> pfork_ok os i then (True, 1, st1)
        else let kid = runs c (if 0 < pn then child_pipes pn (plist st1) prev pidx (pfds st1) else Go (pfds st1));
                 st2 = (if 0 < pn then parent_close (only_pipes pn) prev pidx st1 else st1)
          in pipe3_loop os pn cs (i + 1) (if 0 < pn then pidx + 1 else pidx) (st2\<lparr>kids := kids st2 @ [kid]\<rparr>))"

definition my_pipe3 :: "pipe_os \<Rightarrow> string list list \<Rightarrow> int \<times> pstate" where
  "my_pipe3 os cs =
     (let pn = length cs - 1;
          (wait, ret, st) = pipe3_loop os pn cs 0 0 \<lparr>pfds = start_fds, plist = replicate (2 * pn) (0, 0), kids = []\<rparr>
      in (if wait then wait_loop os (length (kids st)) 0 ret else ret, st))"

definition pipe3_main :: "pipe_os \<Rightarrow> string list \<Rightarrow> int \<times> child list" where
  "pipe3_main os args =
     (case args_cmds args of None \<Rightarrow> (1, []) | Some cs \<Rightarrow> let (ret, st) = my_pipe3 os cs in (ret, kids st))"

section \<open>pipe4, pipe5: redirections\<close>

text \<open>
  The commands of the arguments. An operator ends a command; when there is none, the next one is
  looked for one place further on, unlike in task_pipe7.
\<close>

fun args_build :: "string list \<Rightarrow> nat \<Rightarrow> nat \<Rightarrow> ((nat \<times> string list) option list \<times> redir list) run" where
  "args_build args 0 nx = Done ([], [])"
| "args_build args (Suc n) nx =
     (let ws = takeWhile (\<lambda>w. \<not> is_pipe w \<and> \<not> is_redir w) (drop nx args);
          j = nx + length ws;
          c = (if ws = [] then None else Some (nx, ws))
      in if j < length args then
           bind_run (build_redirs args j) (\<lambda>(rs, j2).
             bind_run (args_build args n (j2 + 1)) (\<lambda>(cs, rs2). Done (c # cs, rs @ rs2)))
         else bind_run (args_build args n (nx + 1)) (\<lambda>(cs, rs2). Done (c # cs, rs2)))"

definition args_ctx :: "string list \<Rightarrow> cmd_ctx option run" where
  "args_ctx args =
     (let redirs = (\<lambda>w. \<not> is_pipe w \<and> is_redir w);
          pn = length (filter is_pipe args);
          rn = length (filter redirs args);
          pipe_idx = last_idx is_pipe args 0 None;
          redir_idx = last_idx redirs args 0 None
      in if args = [] \<or> pipe_idx = Some 0 \<or> pipe_idx = Some (length args - 1) then Done None
         else if redir_idx = Some 0 \<or> redir_idx = Some (length args - 1) then Done None
         else bind_run (args_build args (pn + 1) 0) (\<lambda>(cs, rs).
                Done (Some \<lparr>cmds = cs, to_from = map Some rs @ replicate (rn - length rs) None,
                            pipe_num = pn, redir_num = rn\<rparr>)))"

text \<open>The loop of a child over its redirections: the array \<open>fd\<close> has two entries.\<close>

function redir_fds :: "pipe_os \<Rightarrow> cmd_ctx \<Rightarrow> nat \<Rightarrow> nat \<Rightarrow> nat \<Rightarrow> nat \<Rightarrow> fdtab \<Rightarrow> fdtab cstep" where
  "redir_fds os ctx start i fd_idx l t =
     (if l < redir_num ctx then
        case to_from ctx ! l of
          None \<Rightarrow> Crash
        | Some r \<Rightarrow>
            if rcmd r \<noteq> start then Go t
            else if 2 \<le> fd_idx then Crash
            else case child_file os (direct r) i r t of
              Go t1 \<Rightarrow> redir_fds os ctx start i (fd_idx + 1) (l + 1) t1
            | x \<Rightarrow> x
      else Go t)"
  by pat_completeness auto
termination by (relation "measure (\<lambda>(os, ctx, start, i, fd_idx, l, t). redir_num ctx - l)") auto

declare redir_fds.simps [simp del]

definition child5 :: "pipe_os \<Rightarrow> cmd_ctx \<Rightarrow> (int \<times> int) list \<Rightarrow> nat \<Rightarrow> nat \<Rightarrow> nat \<Rightarrow> bool \<Rightarrow> nat \<Rightarrow> fdtab \<Rightarrow> child" where
  "child5 os ctx pl prev pidx l has i t =
     (case cbind (if 0 < pipe_num ctx then child_pipes (pipe_num ctx) pl prev pidx t else Go t) (\<lambda>t1.
         if has then (case cmds ctx ! i of
             None \<Rightarrow> Crash | Some (start, argv) \<Rightarrow> redir_fds os ctx start i 0 l t1) else Go t1) of
       Go t2 \<Rightarrow> (case cmds ctx ! i of None \<Rightarrow> Crashes | Some (start, argv) \<Rightarrow> Runs argv t2)
     | Exited \<Rightarrow> Exits
     | Crash \<Rightarrow> Crashes)"

text \<open>The test of the parent before it forks; \<open>cmds[i][0]\<close> is read when \<open>l\<close> is in range.\<close>

definition has_redir :: "cmd_ctx \<Rightarrow> nat \<Rightarrow> nat \<Rightarrow> bool run" where
  "has_redir ctx l i =
     (if l < redir_num ctx then
        case (to_from ctx ! l, cmds ctx ! i) of
          (Some r, Some (start, argv)) \<Rightarrow> Done (rcmd r = start)
        | _ \<Rightarrow> Fault NullDeref
      else Done False)"

fun pipe5_loop :: "pipe_os \<Rightarrow> cmd_ctx \<Rightarrow> nat \<Rightarrow> nat \<Rightarrow> nat \<Rightarrow> nat \<Rightarrow> pstate \<Rightarrow> (bool \<times> int \<times> pstate) run" where
  "pipe5_loop os ctx 0 i pidx l st = Done (True, 0, st)"
| "pipe5_loop os ctx (Suc n) i pidx l st =
     (let pn = pipe_num ctx;
          prev = (if 0 < pidx then pidx - 1 else pidx)
      in if 0 < pn \<and> pidx < pn \<and> \<not> pipe_ok os i then Done (False, 1, st)
         else let st1 = (if 0 < pn \<and> pidx < pn then make_pipe pidx st else st) in
           bind_run (has_redir ctx l i) (\<lambda>has.
             if \<not> pfork_ok os i then Done (True, 1, st1)
             else
               let kid = child5 os ctx (plist st1) prev pidx l has i (pfds st1);
                   st2 = (if 0 < pn then parent_close ctx prev pidx st1 else st1)
               in pipe5_loop os ctx n (i + 1) (if 0 < pn then pidx + 1 else pidx) (if has then l + 1 else l)
                    (st2\<lparr>kids := kids st2 @ [kid]\<rparr>)))"

definition my_pipe5 :: "pipe_os \<Rightarrow> cmd_ctx \<Rightarrow> (int \<times> pstate) run" where
  "my_pipe5 os ctx =
     bind_run (pipe5_loop os ctx (length (cmds ctx)) 0 0 0
                 \<lparr>pfds = start_fds, plist = replicate (2 * pipe_num ctx) (0, 0), kids = []\<rparr>)
       (\<lambda>(wait, ret, st). Done (if wait then wait_loop os (length (kids st)) 0 ret else ret, st))"

text \<open>The function of task_pipe4 has the same body; its arrays are its own.\<close>

definition my_pipe4 ::
    "pipe_os \<Rightarrow> (nat \<times> string list) option list \<Rightarrow> nat \<Rightarrow> redir option list \<Rightarrow> (int \<times> pstate) run" where
  "my_pipe4 os cs rn tf =
     my_pipe5 os \<lparr>cmds = cs, to_from = tf, pipe_num = length cs - 1, redir_num = rn\<rparr>"

text \<open>A program around \<open>run\<close>: the entries of \<open>to_from\<close> are read when they are freed.\<close>

definition with_ctx :: "(cmd_ctx \<Rightarrow> (int \<times> pstate) run) \<Rightarrow> string list \<Rightarrow> (int \<times> child list) run" where
  "with_ctx run args =
     bind_run (args_ctx args) (\<lambda>c.
       case c of
         None \<Rightarrow> Done (1, [])
       | Some ctx \<Rightarrow>
           bind_run (run ctx) (\<lambda>(ret, st).
             if None \<in> set (to_from ctx) then Fault NullDeref else Done (ret, kids st)))"

definition pipe4_main :: "pipe_os \<Rightarrow> string list \<Rightarrow> (int \<times> child list) run" where
  "pipe4_main os = with_ctx (\<lambda>ctx. my_pipe4 os (cmds ctx) (redir_num ctx) (to_from ctx))"

definition pipe5_main :: "pipe_os \<Rightarrow> string list \<Rightarrow> (int \<times> child list) run" where
  "pipe5_main os = with_ctx (my_pipe5 os)"

section \<open>pipe6\<close>

text \<open>\<open>exec_cmd_list\<close> of task_pipe6 has the text of the function of task_pipe7.\<close>

definition exec_cmd_list6 :: "pipe_os \<Rightarrow> cmd_ctx \<Rightarrow> (int \<times> pstate) run" where
  "exec_cmd_list6 = exec_cmd_list"

definition pipe6_main :: "pipe_os \<Rightarrow> string list \<Rightarrow> (int \<times> child list) run" where
  "pipe6_main os = with_ctx (exec_cmd_list6 os)"

end
