(* ===== verification/Pipe_Task_Props.thy ===== *)
theory Pipe_Task_Props
  imports Pipe_Tasks Pipe_Props
begin

text \<open>
  What the steps on the way to the pipe shell do: the one word, the one pipe, the wiring of any
  number of commands, which is that of the shell, and how the redirections of two commands get
  into each other's way.
\<close>

section \<open>pipe1\<close>

lemma cstr_argument [simp]: "cstr (b @ zeros n) = cstr b"
  by (induction b) (simp_all add: cstr_def zeros_def)

lemma cstr_word: "NUL \<notin> set s \<Longrightarrow> cstr s = s"
  by (induction s) (auto simp: cstr_def)

text \<open>
  the child prints the word and a newline when the word has at most 98 bytes. With a longer one
  the newline takes the last zero of the buffer, or there was none, and \<open>strlen\<close> reads past its end.
\<close>

theorem pipe1_word:
  assumes "word_pipe os" "word_fork os" "\<forall>k. child_call os k" "\<forall>k. parent_call os k" "NUL \<notin> set a"
  shows "pipe1_main os (a # args) =
    (Some (if length a \<le> 98 then Done (Some (a @ [NL])) else Fault OutOfBounds), False)"
proof -
  let ?g = "take 100 a"
  have g: "cstr ?g = ?g" using assms(5) by (intro cstr_word) (auto dest: in_set_takeD)
  consider "length a \<le> 98" | "length a = 99" | "100 \<le> length a" by linarith
  then show ?thesis
  proof cases
    case 1
    define k where "k = 98 - length a"
    have k: "100 - length a = Suc (Suc k)" using 1 by (simp add: k_def)
    have "(a @ zeros (100 - length a))[length a := NL] = a @ NL # zeros (Suc k)"
      by (simp add: k zeros_def)
    moreover have "cstr (a @ NL # zeros (Suc k)) = a @ [NL]"
      using cstr_append_NUL [of "a @ [NL]" "zeros k"] assms(5) by (simp add: zeros_def)
    ultimately show ?thesis using assms 1 g by (simp add: pipe1_main_def proc_exchange_def word_child_def ARR_SIZE_def Let_def)
  next
    case 2
    have "(a @ zeros (Suc 0))[length a := NL] = a @ [NL]" by (simp add: zeros_def)
    moreover have "cstr (a @ [NL]) = a @ [NL]" using assms(5) by (intro cstr_word) simp
    ultimately show ?thesis using assms 2 g by (simp add: pipe1_main_def proc_exchange_def word_child_def ARR_SIZE_def Let_def)
  next
    case 3
    then show ?thesis using assms g by (simp add: pipe1_main_def proc_exchange_def word_child_def ARR_SIZE_def Let_def)
  qed
qed

section \<open>pipe2\<close>

lemma args_cmds_length: "args_cmds args = Some cs \<Longrightarrow> length cs = length (filter is_pipe args) + 1"
proof -
  have "length (split_cmds n ws) = n" for n ws by (induction n ws rule: split_cmds.induct) simp_all
  then show "args_cmds args = Some cs \<Longrightarrow> length cs = length (filter is_pipe args) + 1"
    by (auto simp: args_cmds_def Let_def split: if_splits)
qed

text \<open>
  of two commands the first gets the write end and the second the read end of the pipe and no other
  descriptor, and the parent keeps none; with a third command the entry behind the end of
  \<open>pid\<close> is written.
\<close>

theorem pipe2_only_two:
  assumes "all_ok os" "args_cmds args = Some cs" "[] \<notin> set cs" "3 < length args"
  shows "(length cs = 2 \<longrightarrow>
      (\<exists>t0 t1. my_pipe2 os cs = Done (wait_status os 1 False, [Runs (cs ! 0) t0, Runs (cs ! 1) t1], start_fds @ [None, None]) \<and>
        pipe2_main os args = Done (wait_status os 1 False, [Runs (cs ! 0) t0, Runs (cs ! 1) t1]) \<and>
        fd_at t0 = (fd_at start_fds)(1 := Some (Pipe_write 0)) \<and> fd_at t1 = (fd_at start_fds)(0 := Some (Pipe_read 0)))) \<and>
    (2 < length cs \<longrightarrow> pipe2_main os args = Fault OutOfBounds)"
proof (intro conjI impI)
  assume "length cs = 2"
  then obtain a b where cs: "cs = [a, b]" by (auto simp: numeral_2_eq_2 length_Suc_conv)
  have p: "filter is_pipe args \<noteq> []" using args_cmds_length [OF assms(2)] cs by auto
  have ne: "a \<noteq> []" "b \<noteq> []" using assms(3) cs by auto
  let ?t0 = "[Some (Term 0), Some (Pipe_write 0), Some (Term 2), None, None]"
  let ?t1 = "[Some (Pipe_read 0), Some (Term 1), Some (Term 2), None, None]"
  have m: "my_pipe2 os cs = Done (wait_status os 1 False, [Runs (cs ! 0) ?t0, Runs (cs ! 1) ?t1], start_fds @ [None, None])"
    using assms(1) ne by (simp add: cs my_pipe2_def all_ok_def start_fds_def fd_open_def lowest_free_def quiet_close_def fd_close_def
        fd_at_def runs_def pipe2_child_def fd_dup2_def sys_def Let_def)
  have "fd_at ?t0 = (fd_at start_fds)(1 := Some (Pipe_write 0))" "fd_at ?t1 = (fd_at start_fds)(0 := Some (Pipe_read 0))"
    by (auto simp: fd_at_def start_fds_def fun_eq_iff less_Suc_eq numeral_eq_Suc)
  then show "\<exists>t0 t1. my_pipe2 os cs = Done (wait_status os 1 False, [Runs (cs ! 0) t0, Runs (cs ! 1) t1], start_fds @ [None, None]) \<and>
        pipe2_main os args = Done (wait_status os 1 False, [Runs (cs ! 0) t0, Runs (cs ! 1) t1]) \<and>
        fd_at t0 = (fd_at start_fds)(1 := Some (Pipe_write 0)) \<and> fd_at t1 = (fd_at start_fds)(0 := Some (Pipe_read 0))"
    using m assms(2,4) p by (intro exI [of _ ?t0] exI [of _ ?t1]) (simp add: pipe2_main_def)
next
  assume "2 < length cs"
  then obtain a b c r where cs: "cs = a # b # c # r" by (cases cs; cases "tl cs"; cases "tl (tl cs)") auto
  then have "filter is_pipe args \<noteq> []" using args_cmds_length [OF assms(2)] by auto
  then show "pipe2_main os args = Fault OutOfBounds"
    using assms(1,2,4) by (simp add: pipe2_main_def my_pipe2_def cs all_ok_def fd_open_def Let_def split: prod.split)
qed

section \<open>pipe3\<close>

text \<open>Descriptors of a pipe are never those of the terminal.\<close>

definition tty_kept :: "fdtab \<Rightarrow> bool" where
  "tty_kept t \<longleftrightarrow> fd_at t 0 \<noteq> None \<and> fd_at t 1 \<noteq> None \<and> fd_at t 2 \<noteq> None"

definition high_or_shut :: "int \<Rightarrow> bool" where
  "high_or_shut fd \<longleftrightarrow> fd = -1 \<or> 3 \<le> fd"

definition loop_inv :: "nat \<Rightarrow> nat \<Rightarrow> pstate \<Rightarrow> bool" where
  "loop_inv pn pidx st \<longleftrightarrow> tty_kept (pfds st) \<and> length (plist st) = 2 * pn \<and>
     (0 < pidx \<and> pidx \<le> pn \<longrightarrow> 3 \<le> fst (plist st ! (pidx - 1)) \<and> snd (plist st ! (pidx - 1)) = -1)"

lemma quiet_close_kept: "high_or_shut fd \<Longrightarrow> tty_kept t \<Longrightarrow> tty_kept (quiet_close fd t)"
  by (auto simp: quiet_close_def fd_close_def tty_kept_def high_or_shut_def fd_at_def nth_list_update split: if_splits)

lemma make_pipe_kept:
  assumes "tty_kept (pfds st)" "k < length (plist st)"
  shows "tty_kept (pfds (make_pipe k st)) \<and> length (plist (make_pipe k st)) = length (plist st) \<and>
    kids (make_pipe k st) = kids st \<and> 3 \<le> fst (plist (make_pipe k st) ! k) \<and> 3 \<le> snd (plist (make_pipe k st) ! k) \<and>
    (\<forall>j. j \<noteq> k \<longrightarrow> plist (make_pipe k st) ! j = plist st ! j)"
proof -
  obtain r w where rw: "3 \<le> r" "3 \<le> w" "r \<noteq> w"
    "fd_at (pfds (make_pipe k st)) = (fd_at (pfds st))(r := Some (Pipe_read k), w := Some (Pipe_write k))"
    "plist (make_pipe k st) = (plist st)[k := (int r, int w)]" "kids (make_pipe k st) = kids st"
    by (rule make_pipe_at [OF refl, of st k]) (use assms(1) in \<open>simp_all add: tty_kept_def\<close>)
  then show ?thesis using assms by (auto simp: tty_kept_def)
qed

lemma child_pipes_fds:
  assumes "0 < pn" "0 < pl_get pl prev (if 0 < pidx then RD else WR)" "pipe_num ctx = pn" "redir_num ctx = 0"
  shows "child_fds os ctx pl prev pidx 0 i s t = child_pipes pn pl prev pidx t"
  using assms by (simp add: child_fds_def child_pipes_def redir_for_def Let_def)

lemma parent_close_only [simp]: "pipe_num ctx = pn \<Longrightarrow> parent_close (only_pipes pn) prev pidx st = parent_close ctx prev pidx st"
  by (simp add: parent_close_def only_pipes_def)

lemma kids_make_pipe [simp]: "kids (make_pipe k st) = kids st"
  by (simp add: make_pipe_def split_beta Let_def)

lemma pipe3_loop_exec:
  assumes "pipe_ctx ctx cs" "[] \<notin> set cs" "i + length ds = length cs" "ds = drop i cs"
    and "pidx = (if 0 < length cs - 1 then i else 0)" "loop_inv (length cs - 1) pidx st"
  shows "exec_loop os ctx (length ds) i pidx 0 st = Done (pipe3_loop os (length cs - 1) ds i pidx st)"
  using assms(3-6)
proof (induction ds arbitrary: i pidx st)
  case (Cons d ds)
  let ?pn = "length cs - 1"
  have pn: "pipe_num ctx = ?pn" "redir_num ctx = 0" using assms(1) by (simp_all add: pipe_ctx_def)
  have i: "i < length cs" "cs ! i = d" "ds = drop (i + 1) cs"
    using Cons.prems(1) nth_via_drop [OF Cons.prems(2) [symmetric]] arg_cong [OF Cons.prems(2), of tl]
    by (simp_all add: tl_drop drop_Suc)
  have "d \<in> set cs" using i(1,2) nth_mem by blast
  then have dne: "d \<noteq> []" using assms(2) by auto
  obtain s where s: "cmds ctx ! i = Some (s, d)" using pipe_ctx_cmd [OF assms(1) i(1)] i(2) by blast
  define prev where "prev = (if 0 < pidx then pidx - 1 else pidx)"
  define st1 where "st1 = (if 0 < ?pn \<and> pidx < ?pn then make_pipe pidx st else st)"
  have pidx: "pidx \<le> ?pn" "0 < ?pn \<Longrightarrow> pidx = i" using Cons.prems(3) i(1) by (simp_all split: if_splits)
  have l: "tty_kept (pfds st)" "length (plist st) = 2 * ?pn"
    "0 < pidx \<Longrightarrow> 3 \<le> fst (plist st ! (pidx - 1)) \<and> snd (plist st ! (pidx - 1)) = -1"
    using Cons.prems(4) pidx(1) by (simp_all add: loop_inv_def)
  have m: "tty_kept (pfds st1)" "length (plist st1) = 2 * ?pn" "kids st1 = kids st"
    "0 < pidx \<Longrightarrow> 3 \<le> fst (plist st1 ! (pidx - 1)) \<and> snd (plist st1 ! (pidx - 1)) = -1"
    "0 < ?pn \<Longrightarrow> pidx < ?pn \<Longrightarrow> 3 \<le> fst (plist st1 ! pidx) \<and> 3 \<le> snd (plist st1 ! pidx)"
    using l make_pipe_kept [OF l(1), of pidx] by (auto simp: st1_def)
  have kid: "child_section os ctx (plist st1) prev pidx 0 i (pfds st1) =
      runs d (if 0 < ?pn then child_pipes ?pn (plist st1) prev pidx (pfds st1) else Go (pfds st1))"
  proof (cases "0 < ?pn")
    case True
    have "0 < pl_get (plist st1) prev (if 0 < pidx then RD else WR)"
      using m(4) m(5) [OF True] True by (cases "pidx = 0") (simp_all add: prev_def)
    from child_pipes_fds [OF True this pn] show ?thesis
      using True pn dne s by (simp add: child_section_def runs_def split: cstep.split)
  next
    case False
    then show ?thesis using pn dne s by (simp add: child_section_def runs_def)
  qed
  define kid' where "kid' = child_section os ctx (plist st1) prev pidx 0 i (pfds st1)"
  define st2 where "st2 = (if 0 < ?pn then parent_close ctx prev pidx st1 else st1)\<lparr>kids := kids st @ [kid']\<rparr>"
  have IH: "exec_loop os ctx (length ds) (i + 1) (if 0 < ?pn then pidx + 1 else pidx) 0 st2 =
      Done (pipe3_loop os ?pn ds (i + 1) (if 0 < ?pn then pidx + 1 else pidx) st2)"
  proof (rule Cons.IH)
    show "i + 1 + length ds = length cs" "ds = drop (i + 1) cs" using Cons.prems(1) i(3) by simp_all
    show "(if 0 < ?pn then pidx + 1 else pidx) = (if 0 < length cs - 1 then i + 1 else 0)"
      using Cons.prems(3) by simp
    show "loop_inv ?pn (if 0 < ?pn then pidx + 1 else pidx) st2"
    proof (cases "0 < ?pn")
      case True
      define c1 where "c1 = (if pidx < ?pn then quiet_close (snd (plist st1 ! pidx)) (pfds st1) else pfds st1)"
      have c1: "tty_kept c1" using m(1) m(5) [OF True] by (auto simp: c1_def high_or_shut_def intro: quiet_close_kept)
      have "tty_kept (quiet_close (fst (plist st1 ! prev)) c1)" if "0 < pidx"
        using m(4) [OF that] c1 that by (intro quiet_close_kept) (auto simp: high_or_shut_def prev_def)
      then show ?thesis using c1 m(2,5) True pidx(1) pn
        by (auto simp: loop_inv_def st2_def parent_close_def prev_def c1_def Let_def)
    next
      case False
      then show ?thesis using m Cons.prems(3) by (simp add: loop_inv_def st2_def)
    qed
  qed
  have "exec_loop os ctx (length (d # ds)) i pidx 0 st =
      (if 0 < ?pn \<and> pidx < ?pn \<and> \<not> pipe_ok os i then Done (False, 1, st)
       else if \<not> pfork_ok os i then Done (True, 1, st1)
       else exec_loop os ctx (length ds) (i + 1) (if 0 < ?pn then pidx + 1 else pidx) 0 st2)"
    using pn assms(1) by (simp add: Let_def st1_def st2_def prev_def kid'_def)
  moreover have "pipe3_loop os ?pn (d # ds) i pidx st =
      (if 0 < ?pn \<and> pidx < ?pn \<and> \<not> pipe_ok os i then (False, 1, st)
       else if \<not> pfork_ok os i then (True, 1, st1)
       else pipe3_loop os ?pn ds (i + 1) (if 0 < ?pn then pidx + 1 else pidx) st2)"
    using pn kid by (simp add: Let_def st1_def st2_def prev_def kid'_def)
  ultimately show ?case using IH by simp
qed simp

text \<open>
  C39: for commands without redirections the function of task_pipe3 does what \<open>exec_cmd_list\<close> of the
  shell does, whatever calls fail: the same result, the same children with the same descriptors,
  the same table of the parent.
\<close>

theorem my_pipe3_exec:
  assumes "cs \<noteq> []" "[] \<notin> set cs"
  shows "exec_cmd_list os \<lparr>cmds = map (\<lambda>c. Some (0, c)) cs, to_from = [], pipe_num = length cs - 1, redir_num = 0\<rparr> =
    Done (my_pipe3 os cs)"
proof -
  let ?ctx = "\<lparr>cmds = map (\<lambda>c. Some (0, c)) cs, to_from = [], pipe_num = length cs - 1, redir_num = 0\<rparr>"
  let ?st = "\<lparr>pfds = start_fds, plist = replicate (2 * (length cs - 1)) (0, 0), kids = []\<rparr>"
  have c: "pipe_ctx ?ctx cs" by (simp add: pipe_ctx_def)
  have "loop_inv (length cs - 1) 0 ?st" by (simp add: loop_inv_def tty_kept_def start_fds_def fd_at_def)
  from pipe3_loop_exec [OF c assms(2) _ _ _ this, of 0 cs] have
    "exec_loop os ?ctx (length cs) 0 0 0 ?st = Done (pipe3_loop os (length cs - 1) cs 0 0 ?st)" by simp
  then show ?thesis by (simp add: exec_cmd_list_def my_pipe3_def split_beta Let_def)
qed

lemma split_pipe_words:
  "pipe_line_ok cs \<Longrightarrow> split_cmds (length cs) (pipe_words cs) = cs"
proof (induction cs rule: pipe_words.induct)
  case (2 c)
  then have "\<forall>w \<in> set c. \<not> is_pipe w" by (auto simp: pipe_line_ok_def pword_def)
  then show ?case by (simp add: takeWhile_eq_all_conv)
next
  case (3 c d cs)
  then have c: "\<forall>w \<in> set c. \<not> is_pipe w" "pipe_line_ok (d # cs)" by (auto simp: pipe_line_ok_def pword_def)
  have "takeWhile (\<lambda>w. \<not> is_pipe w) (c @ ''|'' # r) = c" "dropWhile (\<lambda>w. \<not> is_pipe w) (c @ ''|'' # r) = ''|'' # r" for r
    using c(1) bar(1) by (simp_all add: takeWhile_append2 dropWhile_append2)
  then show ?case using 3(1) [OF c(2)] by simp
qed (simp add: pipe_line_ok_def)

text \<open>
  the program of task_pipe3 on any number of commands with a bar between every two: each command
  runs with the ends of its two neighbouring pipes as its input and output and with no other
  descriptor beside the terminal, and the parent is left with the terminal.
\<close>

theorem pipe3_main_wiring:
  assumes "pipe_line_ok cs" "2 \<le> length cs" "all_ok os"
  shows "\<exists>ks. pipe3_main os (pipe_words cs) = (wait_loop os (length cs) 0 0, ks) \<and> length ks = length cs \<and>
    fd_at (pfds (snd (my_pipe3 os cs))) = fd_at start_fds \<and>
    (\<forall>i < length cs. \<exists>t. ks ! i = Runs (cs ! i) t \<and> fd_at t = (fd_at start_fds)
       (0 := (if 0 < i then Some (Pipe_read (i - 1)) else Some (Term 0)),
        1 := (if i + 1 < length cs then Some (Pipe_write i) else Some (Term 1))))"
proof -
  let ?ctx = "\<lparr>cmds = map (\<lambda>c. Some (0, c)) cs, to_from = [], pipe_num = length cs - 1, redir_num = 0\<rparr>"
  let ?st = "\<lparr>pfds = start_fds, plist = replicate (2 * (length cs - 1)) (0, 0), kids = []\<rparr>"
  have c: "pipe_ctx ?ctx cs" by (simp add: pipe_ctx_def)
  have ne: "cs \<noteq> []" "[] \<notin> set cs" using assms(1) by (auto simp: pipe_line_ok_def)
  have b: "between (length cs) 0 ?st" by (simp add: between_def tty_def)
  have inv: "loop_inv (length cs - 1) 0 ?st" by (simp add: loop_inv_def tty_kept_def start_fds_def fd_at_def)
  obtain st where st: "exec_loop os ?ctx (length cs) 0 0 0 ?st = Done (True, 0, st)" "fd_at (pfds st) = tty"
    "length (kids st) = length cs" "\<forall>j < length cs. child_ok cs j (kids st ! j)"
    using exec_steps [OF c assms(2,3) _ b] by auto
  have "pipe3_loop os (length cs - 1) cs 0 0 ?st = (True, 0, st)"
    using pipe3_loop_exec [OF c ne(2) _ _ _ inv, of 0 cs] st(1) by simp
  then have m: "my_pipe3 os cs = (wait_loop os (length cs) 0 0, st)" using st(3) by (simp add: my_pipe3_def)
  have "last_idx is_pipe (pipe_words cs) 0 None \<noteq> Some 0"
    "last_idx is_pipe (pipe_words cs) 0 None \<noteq> Some (length (pipe_words cs) - 1)"
    using last_pipe_inside [OF assms(1), of None 0] by (auto split: option.splits)
  moreover have "length (filter is_pipe (pipe_words cs)) + 1 = length cs"
    using filter_pipe_words(1) [OF assms(1)] assms(2) by simp
  ultimately have "args_cmds (pipe_words cs) = Some cs"
    using assms(1,2) pipe_words_ne [OF assms(1)] split_pipe_words [OF assms(1)]
    by (simp add: args_cmds_def del: split_cmds.simps)
  then have "pipe3_main os (pipe_words cs) = (wait_loop os (length cs) 0 0, kids st)"
    using m by (simp add: pipe3_main_def)
  moreover have t: "tty 0 = Some (Term 0)" "tty 1 = Some (Term 1)" by (simp_all add: tty_def start_fds_def fd_at_def)
  moreover have "snd (my_pipe3 os cs) = st" using m by simp
  ultimately show ?thesis
    using st(3) st(4) [unfolded child_ok_def pipe_tab_def t, unfolded tty_def] st(2) [unfolded tty_def] by blast
qed

section \<open>Redirections\<close>

text \<open>The context of "a > f < g | b > h".\<close>

definition sevens_ctx :: "string \<Rightarrow> string \<Rightarrow> string \<Rightarrow> string \<Rightarrow> string \<Rightarrow> cmd_ctx" where
  "sevens_ctx a f g b h =
    \<lparr>cmds = [Some (0, [a]), Some (6, [b])],
     to_from = [Some \<lparr>direct = WR, file_name = f, rcmd = 0\<rparr>, Some \<lparr>direct = RD, file_name = g, rcmd = 0\<rparr>,
       Some \<lparr>direct = WR, file_name = h, rcmd = 6\<rparr>], pipe_num = 1, redir_num = 3\<rparr>"

lemma sevens:
  assumes "pword a" "pword f" "pword g" "pword b" "pword h"
  shows "args_ctx [a, ''>'', f, ''<'', g, ''|'', b, ''>'', h] = Done (Some (sevens_ctx a f g b h))"
proof -
  let ?ws = "[a, ''>'', f, ''<'', g, ''|'', b, ''>'', h]"
  have op: "is_redir ''>''" "is_redir ''<''" "\<not> is_pipe ''>''" "\<not> is_pipe ''<''" "is_pipe ''|''" "\<not> is_redir ''|''"
    by (simp_all add: is_redir_def is_pipe_def)
  have w: "\<not> is_pipe x \<and> \<not> is_redir x" if "x \<in> {a, f, g, b, h}" for x using assms that by (auto simp: pword_def)
  have ns: "(5::nat) = Suc (Suc (Suc (Suc (Suc 0))))" "(7::nat) = Suc (Suc (Suc (Suc (Suc (Suc (Suc 0))))))"
    "(9::nat) = Suc (Suc (Suc (Suc (Suc (Suc (Suc (Suc (Suc 0))))))))" "(3::nat) = Suc (Suc (Suc 0))" by simp_all
  have r5: "build_redirs ?ws (Suc (Suc (Suc (Suc (Suc 0))))) = Done ([], Suc (Suc (Suc (Suc (Suc 0)))))"
    using op by (subst build_redirs.simps) simp
  have r3: "build_redirs ?ws (Suc (Suc (Suc 0))) = Done ([\<lparr>direct = RD, file_name = g, rcmd = 0\<rparr>], Suc (Suc (Suc (Suc (Suc 0)))))"
    using op w r5 by (subst build_redirs.simps) (simp add: Let_def)
  have r1: "build_redirs ?ws (Suc 0) = Done ([\<lparr>direct = WR, file_name = f, rcmd = 0\<rparr>, \<lparr>direct = RD, file_name = g, rcmd = 0\<rparr>],
      Suc (Suc (Suc (Suc (Suc 0)))))"
    using op w r3 by (subst build_redirs.simps) (simp add: Let_def)
  have r9: "build_redirs ?ws (Suc (Suc (Suc (Suc (Suc (Suc (Suc (Suc (Suc 0))))))))) =
      Done ([], Suc (Suc (Suc (Suc (Suc (Suc (Suc (Suc (Suc 0)))))))))"
    by (subst build_redirs.simps) simp
  have r7: "build_redirs ?ws (Suc (Suc (Suc (Suc (Suc (Suc (Suc 0))))))) =
      Done ([\<lparr>direct = WR, file_name = h, rcmd = 6\<rparr>], Suc (Suc (Suc (Suc (Suc (Suc (Suc (Suc (Suc 0)))))))))"
    using op w r9 by (subst build_redirs.simps) (simp add: Let_def)
  show ?thesis using op w r1 r7 by (simp add: args_ctx_def sevens_ctx_def Let_def numeral_eq_Suc)
qed

lemmas kid_defs = child_section_def child_fds_def redir_for_def child_file_def start_fds_def fd_open_def lowest_free_def
  fd_dup2_def fd_close_def quiet_close_def fd_at_def advance_redir_def make_pipe_def parent_close_def sys_def

lemma sevens6:
  assumes "all_ok os"
  shows "\<exists>t0 t1 st. exec_cmd_list os (sevens_ctx a f g b h) = Done (wait_status os 1 (wait_status os 0 False = 1), st) \<and>
    kids st = [Runs [a] t0, Runs [b] t1] \<and> fd_at t1 0 = Some (Pipe_read 0) \<and> fd_at t1 1 = Some (Term 1)"
  using assms by (simp add: exec_cmd_list_def sevens_ctx_def Let_def all_ok_def kid_defs eval_nat_numeral)

lemma sevens5:
  assumes "all_ok os"
  shows "\<exists>t0 t1 st. my_pipe5 os (sevens_ctx a f g b h) = Done (wait_status os 1 (wait_status os 0 False = 1), st) \<and>
    kids st = [Runs [a] t0, Runs [b] t1] \<and> fd_at t1 0 = Some (Pipe_read 0) \<and> fd_at t1 1 = Some (Term 1)"
  using assms by (simp add: my_pipe5_def sevens_ctx_def has_redir_def child5_def child_pipes_def redir_fds.simps Let_def
      all_ok_def kid_defs eval_nat_numeral)

text \<open>
  when the first command of a line has two redirections, the second one loses its own, in
  task_pipe4, task_pipe5 and task_pipe6 alike: of "a > f < g | b > h" nothing is written to \<open>h\<close>, and
  the output of \<open>b\<close> goes to the terminal.
\<close>

theorem later_redirection_lost:
  assumes "pword a" "pword f" "pword g" "pword b" "pword h" "all_ok os"
  defines "args \<equiv> [a, ''>'', f, ''<'', g, ''|'', b, ''>'', h]"
  shows "\<exists>ret t0 t1 u0 u1. pipe4_main os args = Done (ret, [Runs [a] t0, Runs [b] t1]) \<and>
    pipe5_main os args = Done (ret, [Runs [a] t0, Runs [b] t1]) \<and> pipe6_main os args = Done (ret, [Runs [a] u0, Runs [b] u1]) \<and>
    fd_at t1 0 = Some (Pipe_read 0) \<and> fd_at t1 1 = Some (Term 1) \<and> fd_at u1 0 = Some (Pipe_read 0) \<and> fd_at u1 1 = Some (Term 1)"
proof -
  let ?ret = "wait_status os 1 (wait_status os 0 False = 1)" and ?ctx = "sevens_ctx a f g b h"
  have c: "args_ctx args = Done (Some ?ctx)" "None \<notin> set (to_from ?ctx)"
    unfolding args_def using sevens [OF assms(1-5)] by (simp_all add: sevens_ctx_def)
  obtain t0 t1 st where s5: "my_pipe5 os ?ctx = Done (?ret, st)" "kids st = [Runs [a] t0, Runs [b] t1]"
    "fd_at t1 0 = Some (Pipe_read 0)" "fd_at t1 1 = Some (Term 1)"
    using sevens5 [OF assms(6), of a f g b h] by blast
  obtain u0 u1 su where s6: "exec_cmd_list os ?ctx = Done (?ret, su)" "kids su = [Runs [a] u0, Runs [b] u1]"
    "fd_at u1 0 = Some (Pipe_read 0)" "fd_at u1 1 = Some (Term 1)"
    using sevens6 [OF assms(6), of a f g b h] by blast
  have "my_pipe4 os (cmds ?ctx) (redir_num ?ctx) (to_from ?ctx) = my_pipe5 os ?ctx"
    by (simp add: my_pipe4_def sevens_ctx_def)
  then show ?thesis using c s5 s6
    by (simp add: pipe4_main_def pipe5_main_def pipe6_main_def with_ctx_def exec_cmd_list6_def)
qed

text \<open>The context of "a | b > f | c".\<close>

definition middle_ctx :: "string \<Rightarrow> string \<Rightarrow> string \<Rightarrow> string \<Rightarrow> cmd_ctx" where
  "middle_ctx a b f c = \<lparr>cmds = [Some (0, [a]), Some (2, [b]), Some (6, [c])],
     to_from = [Some \<lparr>direct = WR, file_name = f, rcmd = 2\<rparr>], pipe_num = 2, redir_num = 1\<rparr>"

lemma middle_args:
  assumes "pword a" "pword b" "pword f" "pword c"
  shows "args_ctx [a, ''|'', b, ''>'', f, ''|'', c] = Done (Some (middle_ctx a b f c))"
proof -
  let ?ws = "[a, ''|'', b, ''>'', f, ''|'', c]"
  have op: "is_redir ''>''" "\<not> is_pipe ''>''" "is_pipe ''|''" "\<not> is_redir ''|''" by (simp_all add: is_redir_def is_pipe_def)
  have w: "\<not> is_pipe x \<and> \<not> is_redir x" if "x \<in> {a, b, f, c}" for x using assms that by (auto simp: pword_def)
  have r1: "build_redirs ?ws (Suc 0) = Done ([], Suc 0)" using op by (subst build_redirs.simps) simp
  have r5: "build_redirs ?ws (Suc (Suc (Suc (Suc (Suc 0))))) = Done ([], Suc (Suc (Suc (Suc (Suc 0)))))"
    using op by (subst build_redirs.simps) simp
  have r3: "build_redirs ?ws (Suc (Suc (Suc 0))) = Done ([\<lparr>direct = WR, file_name = f, rcmd = 2\<rparr>], Suc (Suc (Suc (Suc (Suc 0)))))"
    using op w r5 by (subst build_redirs.simps) (simp add: Let_def)
  show ?thesis using op w r1 r3 by (simp add: args_ctx_def middle_ctx_def Let_def numeral_eq_Suc)
qed

abbreviation tab :: "fdobj list \<Rightarrow> fdtab" where "tab \<equiv> map Some"

lemma redir_fds_one:
  assumes "all_ok os"
  shows "redir_fds os (middle_ctx a b f c) 2 1 0 0 (tab [Pipe_read 0, Pipe_write 1, Term 2] @ [None, None, None]) =
    Go (tab [Pipe_read 0, File_out f, Term 2, File_out f] @ [None, None])"
proof -
  have "redir_fds os (middle_ctx a b f c) 2 1 (Suc 0) (Suc 0) t = Go t" for t
    by (subst redir_fds.simps) (simp add: middle_ctx_def)
  then show ?thesis using assms
    by (subst redir_fds.simps)
      (simp add: middle_ctx_def all_ok_def child_file_def fd_open_def lowest_free_def fd_dup2_def fd_at_def sys_def)
qed

lemma middle5:
  assumes "all_ok os"
  shows "\<exists>ret t0 t1 t2 st. my_pipe5 os (middle_ctx a b f c) = Done (ret, st) \<and>
    kids st = [Runs [a] t0, Runs [b] t1, Runs [c] t2] \<and> fd_at t1 1 = Some (File_out f)"
proof -
  let ?ctx = "middle_ctx a b f c"
  let ?T = "tab [Term 0, Term 1, Term 2]"
  let ?k0 = "Runs [a] (tab [Term 0, Pipe_write 0, Term 2] @ [None, None])"
  let ?k1 = "Runs [b] (tab [Pipe_read 0, File_out f, Term 2, File_out f] @ [None, None])"
  let ?k2 = "Runs [c] (tab [Pipe_read 1, Term 1, Term 2] @ [None, None, None])"
  let ?s0 = "\<lparr>pfds = ?T, plist = replicate 4 (0, 0), kids = []\<rparr>"
  let ?s1 = "\<lparr>pfds = ?T @ [Some (Pipe_read 0), None], plist = [(3, -1), (0, 0), (0, 0), (0, 0)], kids = [?k0]\<rparr>"
  let ?s2 = "\<lparr>pfds = ?T @ [None, Some (Pipe_read 1), None], plist = [(-1, -1), (4, -1), (0, 0), (0, 0)], kids = [?k0, ?k1]\<rparr>"
  let ?s3 = "\<lparr>pfds = ?T @ [None, None, None], plist = [(-1, -1), (-1, -1), (0, 0), (0, 0)], kids = [?k0, ?k1, ?k2]\<rparr>"
  note d = has_redir_def middle_ctx_def Let_def all_ok_def make_pipe_def fd_open_def lowest_free_def parent_close_def
    quiet_close_def fd_close_def fd_at_def child5_def child_pipes_def fd_dup2_def sys_def
  have p: "pipe5_loop os ?ctx (Suc 2) 0 0 0 ?s0 = pipe5_loop os ?ctx 2 1 1 0 ?s1"
    using assms by (subst pipe5_loop.simps) (simp add: d eval_nat_numeral del: pipe5_loop.simps)
  have q: "pipe5_loop os ?ctx (Suc 1) 1 1 0 ?s1 = pipe5_loop os ?ctx 1 2 2 1 ?s2"
    using assms redir_fds_one [OF assms, of a b f c]
    by (subst pipe5_loop.simps) (simp add: d eval_nat_numeral del: pipe5_loop.simps)
  have r: "pipe5_loop os ?ctx (Suc 0) 2 2 1 ?s2 = Done (True, 0, ?s3)"
    using assms by (subst pipe5_loop.simps) (simp add: d eval_nat_numeral)
  have "pipe5_loop os ?ctx 3 0 0 0 ?s0 = Done (True, 0, ?s3)"
    using p q r by (simp only: eval_nat_numeral One_nat_def BitM.simps)
  moreover have "length (cmds ?ctx) = 3" "pipe_num ?ctx = 2" by (simp_all add: middle_ctx_def)
  ultimately show ?thesis by (simp add: my_pipe5_def start_fds_def fd_at_def del: pipe5_loop.simps)
qed

lemma middle6:
  assumes "all_ok os"
  shows "\<exists>ret t0 t1 t2 st. exec_cmd_list os (middle_ctx a b f c) = Done (ret, st) \<and>
    kids st = [Runs [a] t0, Runs [b] t1, Runs [c] t2] \<and> fd_at t1 1 = Some (Pipe_write 1)"
proof -
  let ?ctx = "middle_ctx a b f c"
  let ?T = "tab [Term 0, Term 1, Term 2]"
  let ?k0 = "Runs [a] (tab [Term 0, Pipe_write 0, Term 2] @ [None, None])"
  let ?k1 = "Runs [b] (tab [Pipe_read 0, Pipe_write 1, Term 2] @ [None, None, None, Some (File_out f)])"
  let ?k2 = "Runs [c] (tab [Pipe_read 1, Term 1, Term 2] @ [None, None, None])"
  let ?s0 = "\<lparr>pfds = ?T, plist = replicate 4 (0, 0), kids = []\<rparr>"
  let ?s1 = "\<lparr>pfds = ?T @ [Some (Pipe_read 0), None], plist = [(3, -1), (0, 0), (0, 0), (0, 0)], kids = [?k0]\<rparr>"
  let ?s2 = "\<lparr>pfds = ?T @ [None, Some (Pipe_read 1), None], plist = [(-1, -1), (4, -1), (0, 0), (0, 0)], kids = [?k0, ?k1]\<rparr>"
  let ?s3 = "\<lparr>pfds = ?T @ [None, None, None], plist = [(-1, -1), (-1, -1), (0, 0), (0, 0)], kids = [?k0, ?k1, ?k2]\<rparr>"
  note d = middle_ctx_def Let_def all_ok_def kid_defs
  have p: "exec_loop os ?ctx (Suc 2) 0 0 0 ?s0 = exec_loop os ?ctx 2 1 1 0 ?s1"
    using assms by (subst exec_loop.simps) (simp add: d eval_nat_numeral del: exec_loop.simps)
  have q: "exec_loop os ?ctx (Suc 1) 1 1 0 ?s1 = exec_loop os ?ctx 1 2 2 1 ?s2"
    using assms by (subst exec_loop.simps) (simp add: d eval_nat_numeral del: exec_loop.simps)
  have r: "exec_loop os ?ctx (Suc 0) 2 2 1 ?s2 = Done (True, 0, ?s3)"
    using assms by (subst exec_loop.simps) (simp add: d eval_nat_numeral)
  have "exec_loop os ?ctx 3 0 0 0 ?s0 = Done (True, 0, ?s3)"
    using p q r by (simp only: eval_nat_numeral One_nat_def BitM.simps)
  moreover have "length (cmds ?ctx) = 3" "pipe_num ?ctx = 2" by (simp_all add: middle_ctx_def)
  ultimately show ?thesis by (simp add: exec_cmd_list_def start_fds_def fd_at_def del: exec_loop.simps)
qed

text \<open>
  the output redirection of a command in the middle works in task_pipe5 and is lost in task_pipe6
  and in the shell: of "a | b > f | c" the one writes the output of \<open>b\<close> to \<open>f\<close>, the other
  to the pipe, because the write end of the pipe is put in place after the file.
\<close>

theorem middle_redirection_lost:
  assumes "pword a" "pword b" "pword f" "pword c" "all_ok os"
  shows "\<exists>ret ret' t0 t1 t2 u0 u1 u2.
    pipe5_main os [a, ''|'', b, ''>'', f, ''|'', c] = Done (ret, [Runs [a] t0, Runs [b] t1, Runs [c] t2]) \<and>
    pipe6_main os [a, ''|'', b, ''>'', f, ''|'', c] = Done (ret', [Runs [a] u0, Runs [b] u1, Runs [c] u2]) \<and>
    fd_at t1 1 = Some (File_out f) \<and> fd_at u1 1 = Some (Pipe_write 1)"
proof -
  let ?ctx = "middle_ctx a b f c"
  have n: "args_ctx [a, ''|'', b, ''>'', f, ''|'', c] = Done (Some ?ctx)" "None \<notin> set (to_from ?ctx)"
    using middle_args [OF assms(1-4)] by (simp_all add: middle_ctx_def)
  obtain ret t0 t1 t2 st where m5: "my_pipe5 os ?ctx = Done (ret, st)" "kids st = [Runs [a] t0, Runs [b] t1, Runs [c] t2]"
    "fd_at t1 1 = Some (File_out f)" using middle5 [OF assms(5)] by blast
  obtain ret' u0 u1 u2 su where m6: "exec_cmd_list os ?ctx = Done (ret', su)" "kids su = [Runs [a] u0, Runs [b] u1, Runs [c] u2]"
    "fd_at u1 1 = Some (Pipe_write 1)" using middle6 [OF assms(5)] by blast
  show ?thesis using n m5 m6 by (simp add: pipe5_main_def pipe6_main_def with_ctx_def exec_cmd_list6_def)
qed

section \<open>Instances\<close>

theorem pipe1_word_witness:
  "pipe1_main \<lparr>word_pipe = True, word_fork = True, child_call = (\<lambda>k. True), parent_call = (\<lambda>k. True)\<rparr> [''Hello''] =
    (Some (Done (Some ''Hello
'')), False)"
  using pipe1_word [of "\<lparr>word_pipe = True, word_fork = True, child_call = (\<lambda>k. True), parent_call = (\<lambda>k. True)\<rparr>" "''Hello''" "[]"]
  by simp

lemma good_os_ok: "all_ok good_pipe_os"
  by (simp add: all_ok_def good_pipe_os_def)

theorem pipe2_only_two_witness:
  "pipe2_main good_pipe_os [''ls'', ''|'', ''head'', ''|'', ''nl''] = Fault OutOfBounds"
proof -
  have c: "args_cmds [''ls'', ''|'', ''head'', ''|'', ''nl''] = Some [[''ls''], [''head''], [''nl'']]"
    by (simp add: args_cmds_def is_pipe_def)
  show ?thesis using pipe2_only_two [OF good_os_ok c] by simp
qed

theorem my_pipe3_exec_witness:
  "exec_cmd_list good_pipe_os \<lparr>cmds = [Some (0, [''ls'']), Some (0, [''nl''])], to_from = [], pipe_num = 1, redir_num = 0\<rparr> =
    Done (my_pipe3 good_pipe_os [[''ls''], [''nl'']])"
  using my_pipe3_exec [of "[[''ls''], [''nl'']]" good_pipe_os] by simp

theorem pipe3_main_wiring_witness:
  "\<exists>ks t. pipe3_main good_pipe_os (pipe_words three_cmds) = (0, ks) \<and> ks ! 1 = Runs [''head''] t \<and>
     fd_at t = (fd_at start_fds)(0 := Some (Pipe_read 0), 1 := Some (Pipe_write 1))"
proof -
  have n: "length three_cmds = 3" "three_cmds ! 1 = [''head'']" by (simp_all add: three_cmds_def)
  have w: "wait_loop good_pipe_os (length three_cmds) 0 0 = 0" by (simp add: n numeral_3_eq_3 good_pipe_os_def)
  obtain ks where ks: "pipe3_main good_pipe_os (pipe_words three_cmds) = (0, ks)"
    "\<forall>i < length three_cmds. \<exists>t. ks ! i = Runs (three_cmds ! i) t \<and> fd_at t = (fd_at start_fds)
       (0 := (if 0 < i then Some (Pipe_read (i - 1)) else Some (Term 0)),
        1 := (if i + 1 < length three_cmds then Some (Pipe_write i) else Some (Term 1)))"
    using pipe3_main_wiring [OF three_cmds_ok _ good_os_ok] w by (auto simp: n)
  then show ?thesis using spec [OF ks(2), of 1] n by auto
qed

lemma sample_words: "pword ''sort''" "pword ''out''" "pword ''in''" "pword ''nl''" "pword ''log''"
  by (simp_all add: pword_def sword_def is_pipe_def is_redir_def isspace_def is_delim_def)

theorem later_redirection_lost_witness:
  "\<exists>ret t0 t1. pipe6_main good_pipe_os [''sort'', ''>'', ''out'', ''<'', ''in'', ''|'', ''nl'', ''>'', ''log''] =
      Done (ret, [Runs [''sort''] t0, Runs [''nl''] t1]) \<and> fd_at t1 1 = Some (Term 1)"
  using later_redirection_lost [OF sample_words good_os_ok] by blast

theorem middle_redirection_lost_witness:
  "\<exists>ret t0 t1 t2. pipe6_main good_pipe_os [''sort'', ''|'', ''out'', ''>'', ''in'', ''|'', ''nl''] =
      Done (ret, [Runs [''sort''] t0, Runs [''out''] t1, Runs [''nl''] t2]) \<and> fd_at t1 1 = Some (Pipe_write 1)"
  using middle_redirection_lost [OF sample_words(1-4) good_os_ok] by blast

end
