(* ===== verification/Customers.thy ===== *)
theory Customers
  imports Step_System
begin

text \<open>
  LAB_13/task_customer: customers buy goods in stores that other threads supply, with a mutex per
  store and one for the flag \<open>stores_open\<close>. The three editions of the program differ in what they
  wait for: \<open>Ed1\<close> is customer_store.c, where nobody waits, \<open>Ed2\<close> is customer_store_2.c, where a
  customer waits at an empty store, \<open>Ed3\<close> is customer_store_3.c, where a supplier also waits at a
  full one. A step is one access to the shared variables or one call of the thread library; a
  wait on a condition variable is two, it gives the mutex back and blocks, and, once woken, takes
  the mutex again. \<open>sp\<close> allows waits that wake up by themselves, \<open>er\<close> a failing \<open>pthread_create\<close>.
\<close>

section \<open>The threads\<close>

datatype edition = Ed1 | Ed2 | Ed3

definition store_num :: nat where "store_num = 3"
definition customer_num :: nat where "customer_num = 5"
definition max_demand :: int where "max_demand = 5500"
definition min_supply :: int where "min_supply = 500"

text \<open>
  \<open>purchase_start\<close>; the argument is \<open>num\<close>, the store of the round. \<open>B_store n v\<close> has read the goods
  and writes \<open>v\<close>: \<open>main\<close> may write in between, since it takes no mutex.
\<close>

datatype buyer_pc =
    B_none | B_head | B_lock nat | B_test nat | B_wait nat | B_blocked nat | B_wake nat
  | B_demand nat | B_goods nat | B_store nat int | B_cast nat | B_unlock nat | B_exit

text \<open>
  \<open>supply_start\<close>; the flag of \<open>T_flag\<close>, \<open>T_read\<close> and \<open>T_free\<close> says that the thread looks at
  \<open>stores_open\<close> inside the loop that waits at a full store, and goes on to wait.
\<close>

datatype supplier_pc =
    T_none | T_pick | T_lock nat | T_test nat | T_flag nat bool | T_read nat bool
  | T_free nat bool | T_quit nat | T_leave nat | T_wait nat | T_blocked nat | T_wake nat
  | T_add nat | T_store nat int | T_cast nat | T_unlock nat | T_exit

text \<open>
  \<open>main\<close>: \<open>M_hire k\<close> creates customer \<open>k\<close>, \<open>M_stock i\<close> writes the first goods of store \<open>i\<close> and
  \<open>M_open i\<close> creates its thread. \<open>M_join\<close>, \<open>M_flag\<close>, \<open>M_close\<close>, \<open>M_unflag\<close> are the end of the
  customers and the closing of the stores, \<open>M_shut\<close>, \<open>M_call\<close>, \<open>M_shut_off\<close> the loop that wakes the
  suppliers of \<open>Ed3\<close>, \<open>M_reap\<close> their end. \<open>M_undefined\<close> is a join with the identifier of a thread
  that was never created.
\<close>

datatype mall_pc =
    M_hire nat | M_stock nat | M_open nat | M_join nat | M_flag | M_close | M_unflag
  | M_shut nat | M_call nat | M_shut_off nat | M_reap nat | M_over | M_undefined

record mall =
  buyer :: "nat \<Rightarrow> buyer_pc"
  supplier :: "nat \<Rightarrow> supplier_pc"
  main_pc :: mall_pc
  demand :: "nat \<Rightarrow> int"
  goods :: "nat \<Rightarrow> int"
  mutex :: "nat \<Rightarrow> nat"
  flag_mutex :: nat
  stores_open :: bool

text \<open>\<open>pthread_cond_broadcast\<close> on \<open>cond_store_empty[n]\<close> and on \<open>cond_store_full[n]\<close>.\<close>

definition wake_buyers :: "nat \<Rightarrow> (nat \<Rightarrow> buyer_pc) \<Rightarrow> nat \<Rightarrow> buyer_pc" where
  "wake_buyers n b = (\<lambda>c. if b c = B_blocked n then B_wake n else b c)"

definition wake_suppliers :: "nat \<Rightarrow> (nat \<Rightarrow> supplier_pc) \<Rightarrow> nat \<Rightarrow> supplier_pc" where
  "wake_suppliers n t = (\<lambda>i. if t i = T_blocked n then T_wake n else t i)"

section \<open>purchase\_start\<close>

text \<open>After the lock the first edition buys at once, the others test for goods.\<close>

definition buyer_first :: "edition \<Rightarrow> nat \<Rightarrow> buyer_pc" where
  "buyer_first ed n = (if ed = Ed1 then B_demand n else B_test n)"

definition buyer_last :: "edition \<Rightarrow> nat \<Rightarrow> buyer_pc" where
  "buyer_last ed n = (if ed = Ed3 then B_cast n else B_unlock n)"

definition bought :: "edition \<Rightarrow> int \<Rightarrow> int" where
  "bought ed g = (if ed = Ed1 then g else 500)"

abbreviation at_buyer :: "nat \<Rightarrow> buyer_pc \<Rightarrow> mall \<Rightarrow> mall" where
  "at_buyer c b s \<equiv> s\<lparr>buyer := (buyer s)(c := b)\<rparr>"

abbreviation lock_store :: "nat \<Rightarrow> mall \<Rightarrow> mall" where
  "lock_store n s \<equiv> s\<lparr>mutex := (mutex s)(n := mutex s n - 1)\<rparr>"

abbreviation unlock_store :: "nat \<Rightarrow> mall \<Rightarrow> mall" where
  "unlock_store n s \<equiv> s\<lparr>mutex := (mutex s)(n := mutex s n + 1)\<rparr>"

inductive buyer_step :: "edition \<Rightarrow> bool \<Rightarrow> nat \<Rightarrow> mall \<Rightarrow> mall \<Rightarrow> bool" for ed sp c where
  satisfied: "buyer s c = B_head \<Longrightarrow> demand s c \<le> 0 \<Longrightarrow> buyer_step ed sp c s (at_buyer c B_exit s)"
| choose: "buyer s c = B_head \<Longrightarrow> 0 < demand s c \<Longrightarrow> n < store_num \<Longrightarrow>
    buyer_step ed sp c s (at_buyer c (B_lock n) s)"
| lock: "buyer s c = B_lock n \<Longrightarrow> 0 < mutex s n \<Longrightarrow>
    buyer_step ed sp c s (lock_store n (at_buyer c (buyer_first ed n) s))"
| test: "buyer s c = B_test n \<Longrightarrow>
    buyer_step ed sp c s (at_buyer c (if goods s n \<le> 0 then B_wait n else B_demand n) s)"
| wait: "buyer s c = B_wait n \<Longrightarrow> buyer_step ed sp c s (unlock_store n (at_buyer c (B_blocked n) s))"
| spurious: "sp \<Longrightarrow> buyer s c = B_blocked n \<Longrightarrow> buyer_step ed sp c s (at_buyer c (B_wake n) s)"
| wake: "buyer s c = B_wake n \<Longrightarrow> 0 < mutex s n \<Longrightarrow>
    buyer_step ed sp c s (lock_store n (at_buyer c (B_test n) s))"
| take_demand: "buyer s c = B_demand n \<Longrightarrow> buyer_step ed sp c s
    (at_buyer c (B_goods n) (s\<lparr>demand := (demand s)(c := demand s c - bought ed (goods s n))\<rparr>))"
| take_goods: "buyer s c = B_goods n \<Longrightarrow>
    buyer_step ed sp c s (at_buyer c (B_store n (goods s n - bought ed (goods s n))) s)"
| store: "buyer s c = B_store n v \<Longrightarrow>
    buyer_step ed sp c s (at_buyer c (buyer_last ed n) (s\<lparr>goods := (goods s)(n := v)\<rparr>))"
| cast: "buyer s c = B_cast n \<Longrightarrow> buyer_step ed sp c s (at_buyer c (B_unlock n)
    (if goods s n \<le> 0 then s\<lparr>supplier := wake_suppliers n (supplier s)\<rparr> else s))"
| unlock: "buyer s c = B_unlock n \<Longrightarrow> buyer_step ed sp c s (unlock_store n (at_buyer c B_head s))"

section \<open>supply\_start\<close>

definition supplier_first :: "edition \<Rightarrow> nat \<Rightarrow> supplier_pc" where
  "supplier_first ed n = (case ed of Ed1 \<Rightarrow> T_add n | Ed2 \<Rightarrow> T_flag n False | Ed3 \<Rightarrow> T_test n)"

definition supplier_next :: "edition \<Rightarrow> nat \<Rightarrow> bool \<Rightarrow> supplier_pc" where
  "supplier_next ed n w = (if w then T_wait n else if ed = Ed1 then T_unlock n else T_add n)"

definition supplier_last :: "edition \<Rightarrow> nat \<Rightarrow> supplier_pc" where
  "supplier_last ed n = (if ed = Ed1 then T_flag n False else T_cast n)"

abbreviation at_supplier :: "nat \<Rightarrow> supplier_pc \<Rightarrow> mall \<Rightarrow> mall" where
  "at_supplier i t s \<equiv> s\<lparr>supplier := (supplier s)(i := t)\<rparr>"

inductive supplier_step :: "edition \<Rightarrow> bool \<Rightarrow> nat \<Rightarrow> mall \<Rightarrow> mall \<Rightarrow> bool" for ed sp i where
  choose: "supplier s i = T_pick \<Longrightarrow> n < store_num \<Longrightarrow>
    supplier_step ed sp i s (at_supplier i (T_lock n) s)"
| lock: "supplier s i = T_lock n \<Longrightarrow> 0 < mutex s n \<Longrightarrow>
    supplier_step ed sp i s (lock_store n (at_supplier i (supplier_first ed n) s))"
| test: "supplier s i = T_test n \<Longrightarrow>
    supplier_step ed sp i s (at_supplier i (T_flag n (0 < goods s n)) s)"
| flag: "supplier s i = T_flag n w \<Longrightarrow> 0 < flag_mutex s \<Longrightarrow>
    supplier_step ed sp i s (at_supplier i (T_read n w) (s\<lparr>flag_mutex := flag_mutex s - 1\<rparr>))"
| read: "supplier s i = T_read n w \<Longrightarrow>
    supplier_step ed sp i s (at_supplier i (if stores_open s then T_free n w else T_quit n) s)"
| quit: "supplier s i = T_quit n \<Longrightarrow>
    supplier_step ed sp i s (at_supplier i (T_leave n) (s\<lparr>flag_mutex := flag_mutex s + 1\<rparr>))"
| leave: "supplier s i = T_leave n \<Longrightarrow>
    supplier_step ed sp i s (unlock_store n (at_supplier i T_exit s))"
| free: "supplier s i = T_free n w \<Longrightarrow> supplier_step ed sp i s
    (at_supplier i (supplier_next ed n w) (s\<lparr>flag_mutex := flag_mutex s + 1\<rparr>))"
| wait: "supplier s i = T_wait n \<Longrightarrow>
    supplier_step ed sp i s (unlock_store n (at_supplier i (T_blocked n) s))"
| spurious: "sp \<Longrightarrow> supplier s i = T_blocked n \<Longrightarrow>
    supplier_step ed sp i s (at_supplier i (T_wake n) s)"
| wake: "supplier s i = T_wake n \<Longrightarrow> 0 < mutex s n \<Longrightarrow>
    supplier_step ed sp i s (lock_store n (at_supplier i (T_test n) s))"
| add: "supplier s i = T_add n \<Longrightarrow>
    supplier_step ed sp i s (at_supplier i (T_store n (goods s n + 500)) s)"
| store: "supplier s i = T_store n v \<Longrightarrow>
    supplier_step ed sp i s (at_supplier i (supplier_last ed n) (s\<lparr>goods := (goods s)(n := v)\<rparr>))"
| cast: "supplier s i = T_cast n \<Longrightarrow> supplier_step ed sp i s (at_supplier i (T_unlock n)
    (if 0 < goods s n then s\<lparr>buyer := wake_buyers n (buyer s)\<rparr> else s))"
| unlock: "supplier s i = T_unlock n \<Longrightarrow>
    supplier_step ed sp i s (unlock_store n (at_supplier i T_pick s))"

section \<open>main\<close>

inductive parent_step :: "edition \<Rightarrow> bool \<Rightarrow> mall \<Rightarrow> mall \<Rightarrow> bool" for ed er where
  hire: "main_pc s = M_hire k \<Longrightarrow> k < customer_num \<Longrightarrow> 0 \<le> d \<Longrightarrow> d < max_demand \<Longrightarrow>
    parent_step ed er s (at_buyer k B_head (s\<lparr>main_pc := M_hire (k + 1), demand := (demand s)(k := d)\<rparr>))"
| hire_fail: "er \<Longrightarrow> main_pc s = M_hire k \<Longrightarrow> k < customer_num \<Longrightarrow> 0 \<le> d \<Longrightarrow> d < max_demand \<Longrightarrow>
    parent_step ed er s (s\<lparr>main_pc := M_hire (k + 1), demand := (demand s)(k := d)\<rparr>)"
| hired: "main_pc s = M_hire customer_num \<Longrightarrow> parent_step ed er s (s\<lparr>main_pc := M_stock 0\<rparr>)"
| stock: "main_pc s = M_stock i \<Longrightarrow> i < store_num \<Longrightarrow> 0 \<le> g \<Longrightarrow> g < min_supply \<Longrightarrow>
    parent_step ed er s (s\<lparr>main_pc := M_open i, goods := (goods s)(i := g)\<rparr>)"
| opened: "main_pc s = M_open i \<Longrightarrow>
    parent_step ed er s (at_supplier i T_pick (s\<lparr>main_pc := M_stock (i + 1)\<rparr>))"
| open_fail: "er \<Longrightarrow> main_pc s = M_open i \<Longrightarrow> parent_step ed er s (s\<lparr>main_pc := M_stock (i + 1)\<rparr>)"
| stocked: "main_pc s = M_stock store_num \<Longrightarrow> parent_step ed er s (s\<lparr>main_pc := M_join 0\<rparr>)"
| join: "main_pc s = M_join k \<Longrightarrow> k < customer_num \<Longrightarrow> buyer s k \<in> {B_exit, B_none} \<Longrightarrow>
    parent_step ed er s (s\<lparr>main_pc := (if buyer s k = B_exit then M_join (k + 1) else M_undefined)\<rparr>)"
| joined: "main_pc s = M_join customer_num \<Longrightarrow> parent_step ed er s (s\<lparr>main_pc := M_flag\<rparr>)"
| flag: "main_pc s = M_flag \<Longrightarrow> 0 < flag_mutex s \<Longrightarrow>
    parent_step ed er s (s\<lparr>main_pc := M_close, flag_mutex := flag_mutex s - 1\<rparr>)"
| close: "main_pc s = M_close \<Longrightarrow> parent_step ed er s (s\<lparr>main_pc := M_unflag, stores_open := False\<rparr>)"
| unflag: "main_pc s = M_unflag \<Longrightarrow> parent_step ed er s
    (s\<lparr>main_pc := (if ed = Ed3 then M_shut 0 else M_reap 0), flag_mutex := flag_mutex s + 1\<rparr>)"
| shut: "main_pc s = M_shut i \<Longrightarrow> i < store_num \<Longrightarrow> 0 < mutex s i \<Longrightarrow>
    parent_step ed er s (lock_store i (s\<lparr>main_pc := M_call i\<rparr>))"
| call: "main_pc s = M_call i \<Longrightarrow> parent_step ed er s
    (s\<lparr>main_pc := M_shut_off i, supplier := wake_suppliers i (supplier s)\<rparr>)"
| shut_off: "main_pc s = M_shut_off i \<Longrightarrow>
    parent_step ed er s (unlock_store i (s\<lparr>main_pc := M_shut (i + 1)\<rparr>))"
| all_shut: "main_pc s = M_shut store_num \<Longrightarrow> parent_step ed er s (s\<lparr>main_pc := M_reap 0\<rparr>)"
| reap: "main_pc s = M_reap i \<Longrightarrow> i < store_num \<Longrightarrow> supplier s i \<in> {T_exit, T_none} \<Longrightarrow>
    parent_step ed er s (s\<lparr>main_pc := (if supplier s i = T_exit then M_reap (i + 1) else M_undefined)\<rparr>)"
| reaped: "main_pc s = M_reap store_num \<Longrightarrow> parent_step ed er s (s\<lparr>main_pc := M_over\<rparr>)"

text \<open>The threads of the three files.\<close>

definition purchase_start_1 :: "bool \<Rightarrow> nat \<Rightarrow> mall \<Rightarrow> mall \<Rightarrow> bool" where
  "purchase_start_1 = buyer_step Ed1"
definition purchase_start_2 :: "bool \<Rightarrow> nat \<Rightarrow> mall \<Rightarrow> mall \<Rightarrow> bool" where
  "purchase_start_2 = buyer_step Ed2"
definition purchase_start_3 :: "bool \<Rightarrow> nat \<Rightarrow> mall \<Rightarrow> mall \<Rightarrow> bool" where
  "purchase_start_3 = buyer_step Ed3"
definition supply_start_1 :: "bool \<Rightarrow> nat \<Rightarrow> mall \<Rightarrow> mall \<Rightarrow> bool" where
  "supply_start_1 = supplier_step Ed1"
definition supply_start_2 :: "bool \<Rightarrow> nat \<Rightarrow> mall \<Rightarrow> mall \<Rightarrow> bool" where
  "supply_start_2 = supplier_step Ed2"
definition supply_start_3 :: "bool \<Rightarrow> nat \<Rightarrow> mall \<Rightarrow> mall \<Rightarrow> bool" where
  "supply_start_3 = supplier_step Ed3"
definition customer_main_1 :: "bool \<Rightarrow> mall \<Rightarrow> mall \<Rightarrow> bool" where
  "customer_main_1 = parent_step Ed1"
definition customer_main_2 :: "bool \<Rightarrow> mall \<Rightarrow> mall \<Rightarrow> bool" where
  "customer_main_2 = parent_step Ed2"
definition customer_main_3 :: "bool \<Rightarrow> mall \<Rightarrow> mall \<Rightarrow> bool" where
  "customer_main_3 = parent_step Ed3"

inductive mall_step :: "edition \<Rightarrow> bool \<Rightarrow> bool \<Rightarrow> mall \<Rightarrow> mall \<Rightarrow> bool" for ed sp er where
  customer: "buyer_step ed sp c s t \<Longrightarrow> mall_step ed sp er s t"
| store: "supplier_step ed sp i s t \<Longrightarrow> mall_step ed sp er s t"
| parent: "parent_step ed er s t \<Longrightarrow> mall_step ed sp er s t"

definition mall_start :: mall where
  "mall_start = \<lparr>buyer = (\<lambda>c. B_none), supplier = (\<lambda>i. T_none), main_pc = M_hire 0,
     demand = (\<lambda>c. 0), goods = (\<lambda>n. 0), mutex = (\<lambda>n. 1), flag_mutex = 1, stores_open = True\<rparr>"

abbreviation mall_reach :: "edition \<Rightarrow> bool \<Rightarrow> bool \<Rightarrow> mall \<Rightarrow> bool" where
  "mall_reach ed sp er \<equiv> reach (\<lambda>s. s = mall_start) (mall_step ed sp er)"

section \<open>The mutexes\<close>

datatype mall_lock = Shelf nat | Flag
datatype person = Buyer nat | Supplier nat | Parent

fun b_holds :: "buyer_pc \<Rightarrow> mall_lock \<Rightarrow> bool" where
  "b_holds (B_test n) l = (l = Shelf n)" | "b_holds (B_wait n) l = (l = Shelf n)"
| "b_holds (B_demand n) l = (l = Shelf n)" | "b_holds (B_goods n) l = (l = Shelf n)"
| "b_holds (B_store n v) l = (l = Shelf n)"
| "b_holds (B_cast n) l = (l = Shelf n)" | "b_holds (B_unlock n) l = (l = Shelf n)"
| "b_holds b l = False"

fun t_holds :: "supplier_pc \<Rightarrow> mall_lock \<Rightarrow> bool" where
  "t_holds (T_test n) l = (l = Shelf n)" | "t_holds (T_flag n w) l = (l = Shelf n)"
| "t_holds (T_read n w) l = (l = Shelf n \<or> l = Flag)" | "t_holds (T_free n w) l = (l = Shelf n \<or> l = Flag)"
| "t_holds (T_quit n) l = (l = Shelf n \<or> l = Flag)" | "t_holds (T_leave n) l = (l = Shelf n)"
| "t_holds (T_wait n) l = (l = Shelf n)" | "t_holds (T_add n) l = (l = Shelf n)"
| "t_holds (T_store n v) l = (l = Shelf n)"
| "t_holds (T_cast n) l = (l = Shelf n)" | "t_holds (T_unlock n) l = (l = Shelf n)"
| "t_holds t l = False"

fun m_holds :: "mall_pc \<Rightarrow> mall_lock \<Rightarrow> bool" where
  "m_holds M_close l = (l = Flag)" | "m_holds M_unflag l = (l = Flag)"
| "m_holds (M_call i) l = (l = Shelf i)" | "m_holds (M_shut_off i) l = (l = Shelf i)"
| "m_holds m l = False"

fun mall_holds :: "mall \<Rightarrow> person \<Rightarrow> mall_lock \<Rightarrow> bool" where
  "mall_holds s (Buyer c) l = b_holds (buyer s c) l"
| "mall_holds s (Supplier i) l = t_holds (supplier s i) l"
| "mall_holds s Parent l = m_holds (main_pc s) l"

definition mall_free :: "mall \<Rightarrow> mall_lock \<Rightarrow> nat" where
  "mall_free s l = (case l of Shelf n \<Rightarrow> mutex s n | Flag \<Rightarrow> flag_mutex s)"

text \<open>What a step of one thread does to the mutexes.\<close>

abbreviation mall_move :: "mall \<Rightarrow> person \<Rightarrow> mall \<Rightarrow> bool" where
  "mall_move s p t \<equiv> thread_move (mall_free s) (mall_holds s) p (mall_free t) (mall_holds t)"

lemma ex_lock: "(\<exists>l. P l) \<longleftrightarrow> (\<exists>n. P (Shelf n)) \<or> P Flag"
  by (metis mall_lock.exhaust)

lemma all_lock: "(\<forall>l. P l) \<longleftrightarrow> (\<forall>n. P (Shelf n)) \<and> P Flag"
  by (metis mall_lock.exhaust)

lemma all_person: "(\<forall>q. P q) \<longleftrightarrow> (\<forall>c. P (Buyer c)) \<and> (\<forall>i. P (Supplier i)) \<and> P Parent"
  by (metis person.exhaust)

lemma holds_wake [simp]:
  "b_holds (wake_buyers n b c) = b_holds (b c)" "t_holds (wake_suppliers n q i) = t_holds (q i)"
  by (auto simp: wake_buyers_def wake_suppliers_def fun_eq_iff)

lemmas mall_move_simps = thread_move_def all_person ex_lock all_lock fun_eq_iff mall_free_def
  buyer_first_def buyer_last_def supplier_first_def supplier_next_def supplier_last_def

lemma buyer_move: "buyer_step ed sp c s t \<Longrightarrow> mall_move s (Buyer c) t"
  by (erule buyer_step.cases; auto simp: mall_move_simps)

lemma supplier_move: "supplier_step ed sp i s t \<Longrightarrow> mall_move s (Supplier i) t"
  by (erule supplier_step.cases; auto simp: mall_move_simps split: edition.splits)

text \<open>Threads that have not been created yet hold nothing.\<close>

fun hired :: "mall_pc \<Rightarrow> nat" where
  "hired (M_hire k) = k" | "hired m = customer_num"

fun opened :: "mall_pc \<Rightarrow> nat" where
  "opened (M_hire k) = 0" | "opened (M_stock i) = i" | "opened (M_open i) = i" | "opened m = store_num"

definition staffed :: "bool \<Rightarrow> mall \<Rightarrow> bool" where
  "staffed er s \<longleftrightarrow>
     (\<forall>c. hired (main_pc s) \<le> c \<longrightarrow> buyer s c = B_none) \<and>
     (\<forall>i. opened (main_pc s) \<le> i \<longrightarrow> supplier s i = T_none) \<and>
     hired (main_pc s) \<le> customer_num \<and> opened (main_pc s) \<le> store_num \<and>
     (\<forall>i. main_pc s = M_open i \<longrightarrow> i < store_num) \<and>
     (\<not> er \<longrightarrow> (\<forall>c < hired (main_pc s). buyer s c \<noteq> B_none) \<and>
        (\<forall>i < opened (main_pc s). supplier s i \<noteq> T_none))"

lemma parent_move:
  assumes "parent_step ed er s t" "staffed er s"
  shows "mall_move s Parent t"
  using assms by (cases rule: parent_step.cases) (auto simp: mall_move_simps staffed_def)

text \<open>What the steps of the other threads leave alone.\<close>

lemma none_wake [simp]:
  "wake_buyers n b c = B_none \<longleftrightarrow> b c = B_none" "wake_suppliers n q i = T_none \<longleftrightarrow> q i = T_none"
  by (auto simp: wake_buyers_def wake_suppliers_def)

lemma buyer_frame:
  assumes "buyer_step ed sp c s t"
  shows "main_pc t = main_pc s" "buyer t d = B_none \<longleftrightarrow> buyer s d = B_none"
    "supplier t i = T_none \<longleftrightarrow> supplier s i = T_none" "stores_open t = stores_open s"
  using assms by (cases rule: buyer_step.cases; simp add: buyer_first_def buyer_last_def)+

lemma store_frame:
  assumes "supplier_step ed sp j s t"
  shows "main_pc t = main_pc s" "buyer t d = B_none \<longleftrightarrow> buyer s d = B_none"
    "supplier t i = T_none \<longleftrightarrow> supplier s i = T_none" "stores_open t = stores_open s"
    "demand t = demand s"
  using assms
  by (cases rule: supplier_step.cases;
      simp add: supplier_first_def supplier_last_def supplier_next_def split: edition.splits)+

lemma staffed_step:
  assumes "mall_step ed sp er s t" "staffed er s"
  shows "staffed er t"
  using assms
proof (cases rule: mall_step.cases)
  case (customer c)
  then show ?thesis using assms(2) by (simp add: staffed_def buyer_frame [OF customer])
next
  case (store i)
  then show ?thesis using assms(2) by (simp add: staffed_def store_frame [OF store])
next
  case parent
  then show ?thesis using assms(2)
    by (cases rule: parent_step.cases) (auto simp: staffed_def less_Suc_eq)
qed

lemma staffed_reach: "mall_reach ed sp er s \<Longrightarrow> staffed er s"
proof (induction rule: reach_invariant)
  case (start s)
  then show ?case by (simp add: staffed_def mall_start_def)
next
  case (step s t)
  then show ?case by (blast intro: staffed_step)
qed

lemma mall_discipline:
  assumes "mall_reach ed sp er s" "mall_step ed sp er s t"
  shows "mall_free t = mall_free s \<and> mall_holds t = mall_holds s \<or>
    (\<exists>p l. takes (mall_free s) (mall_holds s) p l (mall_free t) (mall_holds t)) \<or>
    (\<exists>p l. gives (mall_free s) (mall_holds s) p l (mall_free t) (mall_holds t))"
  using assms(2)
proof (cases rule: mall_step.cases)
  case (customer c)
  show ?thesis by (rule thread_move_discipline [OF buyer_move [OF customer]])
next
  case (store i)
  show ?thesis by (rule thread_move_discipline [OF supplier_move [OF store]])
next
  case parent
  show ?thesis by (rule thread_move_discipline [OF parent_move [OF parent staffed_reach [OF assms(1)]]])
qed

interpretation mall: lock_discipline "\<lambda>s. s = mall_start" "mall_step ed sp er" mall_free mall_holds
  for ed sp er
proof unfold_locales
  show "\<And>s l. s = mall_start \<Longrightarrow> mall_free s l = 1"
    by (simp add: mall_free_def mall_start_def split: mall_lock.splits)
  show "\<And>s p l. s = mall_start \<Longrightarrow> \<not> mall_holds s p l"
    by (auto simp: mall_start_def elim!: mall_holds.elims)
qed (rule mall_discipline)

end
