(* ===== verification/Customer_Props.thy ===== *)
theory Customer_Props
  imports Customers
begin

text \<open>
  What holds of the LAB_13 customers and stores: goods and demands stay within bounds, the end of
  \<open>main\<close> finds everybody satisfied and every mutex free, the first two editions never deadlock,
  and the third one can.
\<close>

section \<open>Goods and demands\<close>

text \<open>What a thread inside a critical section knows of the goods it has tested.\<close>

fun b_fit :: "(nat \<Rightarrow> int) \<Rightarrow> buyer_pc \<Rightarrow> bool" where
  "b_fit g (B_demand n) = (0 \<le> g n)" | "b_fit g (B_goods n) = (0 \<le> g n)"
| "b_fit g (B_store n v) = (- 500 \<le> v \<and> v < 1000)" | "b_fit g b = True"

fun t_fit :: "(nat \<Rightarrow> int) \<Rightarrow> supplier_pc \<Rightarrow> bool" where
  "t_fit g (T_flag n w) = (w \<or> g n < 500)" | "t_fit g (T_read n w) = (w \<or> g n < 500)"
| "t_fit g (T_free n w) = (w \<or> g n < 500)" | "t_fit g (T_add n) = (g n < 500)"
| "t_fit g (T_store n v) = (- 500 \<le> v \<and> v < 1000)" | "t_fit g t = True"

lemma b_fit_other: "\<not> b_holds b (Shelf n) \<Longrightarrow> b_fit (g(n := v)) b = b_fit g b"
  by (cases b) auto

lemma t_fit_other: "\<not> t_holds t (Shelf n) \<Longrightarrow> t_fit (g(n := v)) t = t_fit g t"
  by (cases t) auto

lemma b_fit_stock: "b_fit g b \<Longrightarrow> 0 \<le> v \<Longrightarrow> b_fit (g(n := v)) b"
  by (cases b) auto

lemma t_fit_stock: "t_fit g t \<Longrightarrow> v < 500 \<Longrightarrow> t_fit (g(n := v)) t"
  by (cases t) auto

lemma fit_wake [simp]:
  "b_fit g (wake_buyers n b c) = b_fit g (b c)" "t_fit g (wake_suppliers n q i) = t_fit g (q i)"
  by (auto simp: wake_buyers_def wake_suppliers_def)

definition goods_inv :: "mall \<Rightarrow> bool" where
  "goods_inv s \<longleftrightarrow> (\<forall>n. - 500 \<le> goods s n \<and> goods s n < 1000) \<and>
     (\<forall>c. b_fit (goods s) (buyer s c)) \<and> (\<forall>i. t_fit (goods s) (supplier s i))"

lemma alone:
  assumes "mall_reach ed sp er s"
  shows "b_holds (buyer s c) l \<Longrightarrow> d \<noteq> c \<Longrightarrow> \<not> b_holds (buyer s d) l"
    and "b_holds (buyer s c) l \<Longrightarrow> \<not> t_holds (supplier s i) l"
    and "t_holds (supplier s i) l \<Longrightarrow> j \<noteq> i \<Longrightarrow> \<not> t_holds (supplier s j) l"
  using mall.mutual_exclusion [OF assms, of "Buyer c" l "Buyer d"]
    mall.mutual_exclusion [OF assms, of "Buyer c" l "Supplier i"]
    mall.mutual_exclusion [OF assms, of "Supplier i" l "Supplier j"] by auto

lemma buyer_goods:
  assumes "buyer_step Ed3 sp c s t" "goods_inv s" and r: "mall_reach Ed3 sp er s"
  shows "goods_inv t"
  using assms(1)
proof (cases rule: buyer_step.cases)
  case (store n v)
  have "b_fit (goods t) (buyer t d)" for d
    using store assms(2) alone(1) [OF r, of c "Shelf n" d]
    by (cases "d = c") (auto simp: goods_inv_def buyer_last_def b_fit_other)
  moreover have "t_fit (goods t) (supplier t i)" for i
    using store assms(2) alone(2) [OF r, of c "Shelf n" i] by (simp add: goods_inv_def t_fit_other)
  moreover have "- 500 \<le> v \<and> v < 1000"
    using assms(2) store(2) unfolding goods_inv_def by (metis b_fit.simps(3))
  ultimately show ?thesis using store assms(2) by (simp add: goods_inv_def)
next
  case (take_demand n)
  then show ?thesis using assms(2) unfolding goods_inv_def by (simp add: bought_def) (metis b_fit.simps(1))
next
  case (take_goods n)
  then have "0 \<le> goods s n" using assms(2) unfolding goods_inv_def by (metis b_fit.simps(2))
  moreover have "goods s n < 1500" using assms(2) unfolding goods_inv_def by (smt (verit))
  ultimately show ?thesis using take_goods assms(2) by (simp add: goods_inv_def bought_def)
qed (use assms(2) in \<open>auto simp: goods_inv_def buyer_first_def\<close>)

lemma supplier_goods:
  assumes "supplier_step Ed3 sp i s t" "goods_inv s" and r: "mall_reach Ed3 sp er s"
  shows "goods_inv t"
  using assms(1)
proof (cases rule: supplier_step.cases)
  case (store n v)
  have "t_fit (goods t) (supplier t j)" for j
    using store assms(2) alone(3) [OF r, of i "Shelf n" j]
    by (cases "j = i") (auto simp: goods_inv_def supplier_last_def t_fit_other)
  moreover have "b_fit (goods t) (buyer t d)" for d
    using store assms(2) alone(2) [OF r, of d "Shelf n" i]
    by (cases "b_holds (buyer s d) (Shelf n)") (simp_all add: goods_inv_def b_fit_other)
  moreover have "- 500 \<le> v \<and> v < 1000"
    using assms(2) store(2) unfolding goods_inv_def by (metis t_fit.simps(5))
  ultimately show ?thesis using store assms(2) by (simp add: goods_inv_def)
next
  case (add n)
  then have "goods s n < 500" using assms(2) unfolding goods_inv_def by (metis t_fit.simps(4))
  moreover have "- 1000 \<le> goods s n" using assms(2) unfolding goods_inv_def by (smt (verit))
  ultimately show ?thesis using add assms(2) by (simp add: goods_inv_def)
next
  case (flag n w)
  then show ?thesis using assms(2) unfolding goods_inv_def by simp (metis t_fit.simps(1))
next
  case (read n w)
  then show ?thesis using assms(2) unfolding goods_inv_def by simp (metis t_fit.simps(2))
next
  case (free n w)
  then show ?thesis using assms(2) unfolding goods_inv_def
    by (simp add: supplier_next_def) (metis t_fit.simps(3))
qed (use assms(2) in \<open>auto simp: goods_inv_def supplier_first_def\<close>)

lemma goods_reach: "mall_reach Ed3 sp er s \<Longrightarrow> goods_inv s"
proof (induction rule: reach_invariant)
  case (start s)
  then show ?case by (simp add: goods_inv_def mall_start_def)
next
  case (step s t)
  from step(2) show ?case
  proof (cases rule: mall_step.cases)
    case (customer c)
    then show ?thesis using step by (blast intro: buyer_goods)
  next
    case (store i)
    then show ?thesis using step by (blast intro: supplier_goods)
  next
    case parent
    then show ?thesis using step(3)
      by (cases rule: parent_step.cases)
        (auto simp: goods_inv_def min_supply_def intro!: b_fit_stock t_fit_stock)
  qed
qed

text \<open>What a customer knows of his own demand.\<close>

fun b_wants :: "int \<Rightarrow> buyer_pc \<Rightarrow> bool" where
  "b_wants d B_exit = (d \<le> 0)" | "b_wants d B_none = True" | "b_wants d B_head = True"
| "b_wants d (B_goods n) = True" | "b_wants d (B_store n v) = True" | "b_wants d (B_cast n) = True"
| "b_wants d (B_unlock n) = True" | "b_wants d b = (0 < d)"

lemma wants_wake [simp]: "b_wants d (wake_buyers n b c) = b_wants d (b c)"
  by (simp add: wake_buyers_def)

lemma wants_reach: "mall_reach ed sp er s \<Longrightarrow> b_wants (demand s c) (buyer s c)"
proof (induction arbitrary: c rule: reach_invariant)
  case (start s)
  then show ?case by (simp add: mall_start_def)
next
  case (step s t)
  from step(2) show ?case
  proof (cases rule: mall_step.cases)
    case (customer d)
    then show ?thesis using step(3) [of c] step(3) [of d]
      by (cases rule: buyer_step.cases) (auto simp: buyer_first_def buyer_last_def)
  next
    case (store i)
    then show ?thesis using step(3) [of c] by (cases rule: supplier_step.cases) auto
  next
    case parent
    then show ?thesis using step(3) [of c] staffed_reach [OF step(1)]
      by (cases rule: parent_step.cases) (auto simp: staffed_def)
  qed
qed

definition demand_inv :: "mall \<Rightarrow> bool" where
  "demand_inv s \<longleftrightarrow> (\<forall>c. - 500 < demand s c \<and> demand s c < 5500)"

lemma demand_reach: "mall_reach ed sp er s \<Longrightarrow> ed \<noteq> Ed1 \<Longrightarrow> demand_inv s"
proof (induction rule: reach_invariant)
  case (start s)
  then show ?case by (simp add: demand_inv_def mall_start_def)
next
  case (step s t)
  from step(2) show ?case
  proof (cases rule: mall_step.cases)
    case (customer c)
    have "demand s c < 6000" using step(3,4) unfolding demand_inv_def by (smt (verit))
    with customer show ?thesis using step(3,4) wants_reach [OF step(1), of c]
      by (cases rule: buyer_step.cases) (auto simp: demand_inv_def bought_def)
  next
    case (store i)
    then show ?thesis using step(3,4) store_frame(5) [OF store] by (simp add: demand_inv_def)
  next
    case parent
    then show ?thesis using step(3,4)
      by (cases rule: parent_step.cases) (auto simp: demand_inv_def max_demand_def)
  qed
qed

section \<open>The end of main\<close>

fun joined_upto :: "mall_pc \<Rightarrow> nat" where
  "joined_upto (M_hire k) = 0" | "joined_upto (M_stock i) = 0" | "joined_upto (M_open i) = 0" | "joined_upto (M_join k) = k"
| "joined_upto M_undefined = 0" | "joined_upto m = customer_num"

fun reaped :: "mall_pc \<Rightarrow> nat" where
  "reaped (M_reap i) = i" | "reaped M_over = store_num" | "reaped m = 0"

fun closing :: "mall_pc \<Rightarrow> bool" where
  "closing M_unflag = True" | "closing (M_shut i) = True" | "closing (M_call i) = True"
| "closing (M_shut_off i) = True" | "closing (M_reap i) = True" | "closing M_over = True"
| "closing m = False"

fun going :: "supplier_pc \<Rightarrow> bool" where
  "going (T_quit n) = True" | "going (T_leave n) = True" | "going T_exit = True" | "going t = False"

fun in_loop :: "mall_pc \<Rightarrow> bool" where
  "in_loop (M_join k) = (k \<le> customer_num)" | "in_loop (M_shut i) = (i \<le> store_num)"
| "in_loop (M_call i) = (i < store_num)" | "in_loop (M_shut_off i) = (i < store_num)"
| "in_loop (M_reap i) = (i \<le> store_num)" | "in_loop m = True"

definition ends_inv :: "mall \<Rightarrow> bool" where
  "ends_inv s \<longleftrightarrow> in_loop (main_pc s) \<and>
     (\<forall>c < joined_upto (main_pc s). buyer s c = B_exit) \<and> (\<forall>i < reaped (main_pc s). supplier s i = T_exit) \<and>
     (main_pc s \<noteq> M_undefined \<longrightarrow> stores_open s = (\<not> closing (main_pc s))) \<and>
     (\<forall>i. going (supplier s i) \<longrightarrow> \<not> stores_open s)"

lemma exit_wake [simp]:
  "wake_buyers n b c = B_exit \<longleftrightarrow> b c = B_exit" "wake_suppliers n q i = T_exit \<longleftrightarrow> q i = T_exit"
  "going (wake_suppliers n q i) = going (q i)"
  by (auto simp: wake_buyers_def wake_suppliers_def)

lemma exit_stays:
  "buyer_step ed sp c s t \<Longrightarrow> buyer s d = B_exit \<Longrightarrow> buyer t d = B_exit"
  "buyer_step ed sp c s t \<Longrightarrow> supplier s i = T_exit \<Longrightarrow> supplier t i = T_exit"
  "buyer_step ed sp c s t \<Longrightarrow> going (supplier t i) = going (supplier s i)"
  "supplier_step ed sp j s t \<Longrightarrow> buyer s d = B_exit \<Longrightarrow> buyer t d = B_exit"
  "supplier_step ed sp j s t \<Longrightarrow> supplier s i = T_exit \<Longrightarrow> supplier t i = T_exit"
  by (erule buyer_step.cases supplier_step.cases; auto)+

lemma going_step:
  assumes "supplier_step ed sp j s t" "\<And>i. going (supplier s i) \<Longrightarrow> \<not> stores_open s"
    and "going (supplier t i)"
  shows "\<not> stores_open s"
  using assms(1,3) assms(2) [of i] assms(2) [of j]
  by (cases rule: supplier_step.cases)
    (auto simp: supplier_first_def supplier_last_def supplier_next_def
      split: edition.splits if_splits)

lemma ends_reach: "mall_reach ed sp er s \<Longrightarrow> ends_inv s"
proof (induction rule: reach_invariant)
  case (start s)
  then show ?case by (simp add: ends_inv_def mall_start_def)
next
  case (step s t)
  from step(2) show ?case
  proof (cases rule: mall_step.cases)
    case (customer c)
    then show ?thesis using step(3)
      by (simp add: ends_inv_def buyer_frame [OF customer] exit_stays(3) [OF customer])
        (auto dest: exit_stays(1,2))
  next
    case (store i)
    then show ?thesis using step(3) going_step [OF store]
      by (simp add: ends_inv_def store_frame [OF store]) (auto dest: exit_stays(4,5))
  next
    case parent
    then show ?thesis using step(3)
      by (cases rule: parent_step.cases) (auto simp: ends_inv_def less_Suc_eq split: if_splits)
  qed
qed

text \<open>
  When \<open>main\<close> has come to its end, every customer has what he wanted, the stores are closed, their
  threads have ended and nobody holds a mutex.
\<close>

theorem customers_satisfied:
  assumes r: "mall_reach ed sp er s" and m: "main_pc s = M_over"
  shows "(\<forall>c < customer_num. demand s c \<le> 0) \<and> \<not> stores_open s \<and> (\<forall>l. mall_free s l = 1)"
proof (intro conjI allI impI)
  note e = ends_reach [OF r] and h = staffed_reach [OF r]
  have b: "buyer s c = B_exit \<or> buyer s c = B_none" for c
    using e h m by (cases "c < customer_num") (auto simp: ends_inv_def staffed_def)
  have t: "supplier s i = T_exit \<or> supplier s i = T_none" for i
    using e h m by (cases "i < store_num") (auto simp: ends_inv_def staffed_def)
  show "demand s c \<le> 0" if "c < customer_num" for c
    using e m that wants_reach [OF r, of c] by (simp add: ends_inv_def)
  show "\<not> stores_open s" using e m by (simp add: ends_inv_def)
  show "mall_free s l = 1" for l
  proof (rule ccontr)
    assume "mall_free s l \<noteq> 1"
    then obtain p where "mall_holds s p l"
      using mall.free_le_1 [OF r, of l] mall.taken_is_held [OF r, of l] by (auto simp: le_Suc_eq)
    moreover have "\<not> b_holds (buyer s c) l" "\<not> t_holds (supplier s i) l" for c i
      using b [of c] t [of i] by auto
    ultimately show False using m by (cases p) auto
  qed
qed

section \<open>Progress\<close>

text \<open>A thread inside a critical section can always go on, or another one holds the flag.\<close>

lemmas parent_moves = mall_step.parent [OF parent_step.close] mall_step.parent [OF parent_step.unflag]
  mall_step.parent [OF parent_step.call] mall_step.parent [OF parent_step.shut_off]

lemma flag_holder_moves: "mall_holds s p Flag \<Longrightarrow> \<exists>t. mall_step ed sp er s t"
proof (cases p)
  case (Buyer c)
  assume "mall_holds s p Flag"
  then show ?thesis using Buyer by (cases "buyer s c") auto
next
  case (Supplier i)
  assume "mall_holds s p Flag"
  then show ?thesis using Supplier
    by (cases "supplier s i") (auto intro: mall_step.intros supplier_step.intros)
next
  case Parent
  assume "mall_holds s p Flag"
  then show ?thesis using Parent
    by (cases "main_pc s") (simp_all, (blast intro: parent_moves)+)
qed

lemma flag_moves:
  assumes "mall_reach ed sp er s" "flag_mutex s = 0"
  shows "\<exists>t. mall_step ed sp er s t"
proof -
  have "mall_free s Flag = 0" using assms(2) by (simp add: mall_free_def)
  then show ?thesis using mall.taken_is_held [OF assms(1)] flag_holder_moves by blast
qed

lemma mall_holder_moves:
  assumes r: "mall_reach ed sp er s" and "mall_holds s p l"
  shows "\<exists>t. mall_step ed sp er s t"
proof (cases p)
  case (Buyer c)
  then show ?thesis using assms(2)
    by (cases "buyer s c") (auto intro: mall_step.customer buyer_step.intros)
next
  case (Supplier i)
  show ?thesis
  proof (cases "flag_mutex s = 0")
    case True
    then show ?thesis by (rule flag_moves [OF r])
  next
    case False
    then show ?thesis using assms(2) Supplier
      by (cases "supplier s i") (auto intro: mall_step.store supplier_step.intros)
  qed
next
  case Parent
  then show ?thesis using assms(2)
    by (cases "main_pc s") (simp_all, (blast intro: parent_moves)+)
qed

lemma taken_moves:
  assumes "mall_reach ed sp er s" "mall_free s l = 0"
  shows "\<exists>t. mall_step ed sp er s t"
  using mall.taken_is_held [OF assms] mall_holder_moves [OF assms(1)] by blast

fun b_idle :: "buyer_pc \<Rightarrow> bool" where
  "b_idle B_none = True" | "b_idle B_exit = True" | "b_idle (B_blocked n) = True" | "b_idle b = False"

fun t_idle :: "supplier_pc \<Rightarrow> bool" where
  "t_idle T_none = True" | "t_idle T_exit = True" | "t_idle (T_blocked n) = True" | "t_idle t = False"

lemma buyer_moves:
  assumes r: "mall_reach ed sp er s" and b: "\<not> b_idle (buyer s c)"
  shows "\<exists>t. mall_step ed sp er s t"
proof (cases "\<exists>n. mall_free s (Shelf n) = 0")
  case True
  then show ?thesis using taken_moves [OF r] by blast
next
  case False
  then have m: "0 < mutex s n" for n by (simp add: mall_free_def)
  have z: "(0 :: nat) < store_num" by (simp add: store_num_def)
  show ?thesis
  proof (cases "buyer s c")
    case B_head
    then show ?thesis using mall_step.customer buyer_step.satisfied buyer_step.choose [OF _ _ z]
      by (meson linorder_not_less)
  qed (use b in \<open>auto intro: mall_step.customer buyer_step.intros
        mall_step.customer [OF buyer_step.lock [OF _ m]] mall_step.customer [OF buyer_step.wake [OF _ m]]\<close>)
qed

lemma supplier_moves:
  assumes r: "mall_reach ed sp er s" and t: "\<not> t_idle (supplier s i)"
  shows "\<exists>t. mall_step ed sp er s t"
proof (cases "\<exists>l. mall_free s l = 0")
  case True
  then show ?thesis using taken_moves [OF r] by blast
next
  case False
  then have m: "0 < mutex s n" "0 < flag_mutex s" for n by (auto simp: mall_free_def all_lock)
  have z: "(0 :: nat) < store_num" by (simp add: store_num_def)
  show ?thesis
  proof (cases "supplier s i")
    case T_pick
    then show ?thesis using mall_step.store supplier_step.choose [OF _ z] by blast
  qed (use t m(2) in \<open>auto intro: mall_step.store supplier_step.intros
        mall_step.store [OF supplier_step.lock [OF _ m(1)]] mall_step.store [OF supplier_step.wake [OF _ m(1)]]\<close>)
qed

lemma never_undefined: "mall_reach ed sp False s \<Longrightarrow> main_pc s \<noteq> M_undefined"
proof (induction rule: reach_invariant)
  case (start s)
  then show ?case by (simp add: mall_start_def)
next
  case (step s t)
  note h = staffed_reach [OF step(1)]
  from step(2) show ?case
  proof (cases rule: mall_step.cases)
    case (customer c)
    then show ?thesis using step(3) by (simp add: buyer_frame [OF customer])
  next
    case (store i)
    then show ?thesis using step(3) by (simp add: store_frame [OF store])
  next
    case parent
    then show ?thesis using step(3) h by (cases rule: parent_step.cases) (auto simp: staffed_def)
  qed
qed

text \<open>In the first two editions no supplier waits for a store to become empty.\<close>

fun t_plain :: "supplier_pc \<Rightarrow> bool" where
  "t_plain (T_test n) = False" | "t_plain (T_wait n) = False" | "t_plain (T_blocked n) = False"
| "t_plain (T_wake n) = False" | "t_plain (T_flag n w) = (\<not> w)" | "t_plain (T_read n w) = (\<not> w)"
| "t_plain (T_free n w) = (\<not> w)" | "t_plain t = True"

lemma plain_wake [simp]: "t_plain (wake_suppliers n q i) = t_plain (q i)"
  by (simp add: wake_suppliers_def)

lemma plain_reach: "mall_reach ed sp er s \<Longrightarrow> ed \<noteq> Ed3 \<Longrightarrow> t_plain (supplier s i)"
proof (induction arbitrary: i rule: reach_invariant)
  case (start s)
  then show ?case by (simp add: mall_start_def)
next
  case (step s t)
  note p = step(3) [OF step(4)]
  from step(2) show ?case
  proof (cases rule: mall_step.cases)
    case (customer c)
    then show ?thesis using p by (cases rule: buyer_step.cases) auto
  next
    case (store j)
    then show ?thesis using p [of i] p [of j] step(4)
      by (cases rule: supplier_step.cases)
        (auto simp: supplier_first_def supplier_last_def supplier_next_def split: edition.splits)
  next
    case parent
    then show ?thesis using p by (cases rule: parent_step.cases) auto
  qed
qed

lemma main_moves:
  assumes r: "mall_reach ed sp False s"
    and m: "main_pc s \<noteq> M_over" "\<And>k. main_pc s = M_join k \<Longrightarrow> k < customer_num \<Longrightarrow> buyer s k = B_exit"
    "\<And>i. main_pc s = M_reap i \<Longrightarrow> i < store_num \<Longrightarrow> supplier s i = T_exit"
  shows "\<exists>t. mall_step ed sp False s t"
proof (cases "\<exists>l. mall_free s l = 0")
  case True
  then show ?thesis using taken_moves [OF r] by blast
next
  case False
  then have f: "0 < mutex s n" "0 < flag_mutex s" for n by (auto simp: mall_free_def all_lock)
  note h = staffed_reach [OF r] and e = ends_reach [OF r] and u = never_undefined [OF r]
  have z: "(0 :: int) \<le> 0" "(0 :: int) < max_demand" "(0 :: int) < min_supply"
    by (simp_all add: max_demand_def min_supply_def)
  show ?thesis
  proof (cases "main_pc s")
    case (M_hire k)
    then have "k < customer_num \<or> main_pc s = M_hire customer_num"
      using h by (auto simp: staffed_def le_less)
    then show ?thesis using M_hire mall_step.parent parent_step.hire [OF _ _ z(1,2)] parent_step.hired by blast
  next
    case (M_stock i)
    then have "i < store_num \<or> main_pc s = M_stock store_num"
      using h by (auto simp: staffed_def le_less)
    then show ?thesis using M_stock mall_step.parent parent_step.stock [OF _ _ z(1,3)] parent_step.stocked by blast
  next
    case (M_join k)
    then have "k < customer_num \<or> main_pc s = M_join customer_num"
      using e by (auto simp: ends_inv_def le_less)
    then show ?thesis using M_join m(2) mall_step.parent parent_step.join parent_step.joined by blast
  next
    case (M_shut i)
    then have "i < store_num \<or> main_pc s = M_shut store_num"
      using e by (auto simp: ends_inv_def le_less)
    then show ?thesis using M_shut f(1) mall_step.parent parent_step.shut parent_step.all_shut by blast
  next
    case (M_reap i)
    then have "i < store_num \<or> main_pc s = M_reap store_num"
      using e by (auto simp: ends_inv_def le_less)
    then show ?thesis using M_reap m(3) mall_step.parent parent_step.reap parent_step.reaped by blast
  next
    case M_flag
    then show ?thesis using f(2) mall_step.parent parent_step.flag by blast
  qed (use m(1) u in \<open>simp_all, (blast intro: parent_moves mall_step.parent parent_step.opened)+\<close>)
qed

text \<open>In the editions where no supplier waits, some thread can go on until \<open>main\<close> is over, in every
  order of the threads.
\<close>

theorem customers_progress:
  assumes r: "mall_reach ed sp False s" and ed: "ed \<noteq> Ed3" and m: "main_pc s \<noteq> M_over"
  shows "\<exists>t. mall_step ed sp False s t"
proof (cases "(\<exists>c. \<not> b_idle (buyer s c)) \<or> (\<exists>i. \<not> t_idle (supplier s i))")
  case True
  then show ?thesis using buyer_moves [OF r] supplier_moves [OF r] by blast
next
  case False
  note h = staffed_reach [OF r] and e = ends_reach [OF r]
  have t: "supplier s i = T_none \<or> supplier s i = T_exit" for i
  proof -
    have "t_idle (supplier s i)" using False by blast
    then show ?thesis using plain_reach [OF r ed, of i] by (cases "supplier s i") auto
  qed
  have closed: "\<not> stores_open s" if "main_pc s = M_join k" for k
  proof -
    have "supplier s 0 = T_exit" using t [of 0] h that by (auto simp: staffed_def store_num_def)
    then show ?thesis using e unfolding ends_inv_def by (metis going.simps(3))
  qed
  show ?thesis
  proof (rule main_moves [OF r m])
    fix k
    assume "main_pc s = M_join k"
    then show "buyer s k = B_exit" using closed e by (auto simp: ends_inv_def)
  next
    fix i
    assume "main_pc s = M_reap i" "i < store_num"
    then show "supplier s i = T_exit" using t [of i] h by (auto simp: staffed_def)
  qed
qed

section \<open>The deadlock of the third edition\<close>

text \<open>
  Every customer waits at an empty store and every supplier at a full one. A wait that wakes up by
  itself tests again and goes on to wait, so that nothing changes for ever.
\<close>

fun b_stuck :: "(nat \<Rightarrow> int) \<Rightarrow> buyer_pc \<Rightarrow> bool" where
  "b_stuck g B_none = True" | "b_stuck g B_exit = True" | "b_stuck g (B_test n) = (g n \<le> 0)"
| "b_stuck g (B_wait n) = (g n \<le> 0)" | "b_stuck g (B_blocked n) = (g n \<le> 0)"
| "b_stuck g (B_wake n) = (g n \<le> 0)" | "b_stuck g b = False"

fun t_stuck :: "(nat \<Rightarrow> int) \<Rightarrow> supplier_pc \<Rightarrow> bool" where
  "t_stuck g T_none = True" | "t_stuck g T_exit = True" | "t_stuck g (T_test n) = (0 < g n)"
| "t_stuck g (T_flag n w) = (w \<and> 0 < g n)" | "t_stuck g (T_read n w) = (w \<and> 0 < g n)"
| "t_stuck g (T_free n w) = (w \<and> 0 < g n)" | "t_stuck g (T_wait n) = (0 < g n)"
| "t_stuck g (T_blocked n) = (0 < g n)" | "t_stuck g (T_wake n) = (0 < g n)" | "t_stuck g t = False"

definition hopeless :: "mall \<Rightarrow> bool" where
  "hopeless s \<longleftrightarrow> stores_open s \<and> (\<forall>c. b_stuck (goods s) (buyer s c)) \<and>
     (\<forall>i. t_stuck (goods s) (supplier s i)) \<and>
     (\<exists>k < customer_num. main_pc s = M_join k \<and> buyer s k \<notin> {B_exit, B_none})"

lemma hopeless_step:
  assumes "mall_step Ed3 sp er s t" and h: "hopeless s"
  shows "hopeless t"
proof -
  obtain k where k: "k < customer_num" "main_pc s = M_join k" "buyer s k \<noteq> B_exit" "buyer s k \<noteq> B_none"
    using h by (auto simp: hopeless_def)
  have o: "stores_open s" "\<And>c. b_stuck (goods s) (buyer s c)" "\<And>i. t_stuck (goods s) (supplier s i)"
    using h by (auto simp: hopeless_def)
  from assms(1) show ?thesis
  proof (cases rule: mall_step.cases)
    case (customer c)
    then show ?thesis using o k o(2) [of c] unfolding hopeless_def
      by (cases rule: buyer_step.cases) (auto simp: buyer_first_def)
  next
    case (store i)
    then show ?thesis using o k o(3) [of i] unfolding hopeless_def
      by (cases rule: supplier_step.cases)
        (auto simp: supplier_first_def supplier_next_def split: if_splits)
  next
    case parent
    then show ?thesis using k by (cases rule: parent_step.cases) auto
  qed
qed

lemma hopeless_forever: "(mall_step Ed3 sp er)\<^sup>*\<^sup>* s t \<Longrightarrow> hopeless s \<Longrightarrow> main_pc t \<noteq> M_over"
proof -
  assume "(mall_step Ed3 sp er)\<^sup>*\<^sup>* s t" "hopeless s"
  then have "hopeless t" by (induction rule: rtranclp_induct) (auto intro: hopeless_step)
  then show ?thesis by (auto simp: hopeless_def)
qed

text \<open>How such a state is reached, with no failing call and no wake-up by itself.\<close>

abbreviation quiet_run :: "edition \<Rightarrow> mall \<Rightarrow> mall \<Rightarrow> bool" where
  "quiet_run ed \<equiv> (mall_step ed False False)\<^sup>*\<^sup>*"

definition calm :: "mall \<Rightarrow> bool" where
  "calm s \<longleftrightarrow> mutex s = (\<lambda>n. 1) \<and> flag_mutex s = 1 \<and> stores_open s"

lemma quiet_step: "mall_step ed False False s t \<Longrightarrow> quiet_run ed t u \<Longrightarrow> quiet_run ed s u"
  by (rule converse_rtranclp_into_rtranclp)

lemmas buyer_quiet = quiet_step [OF mall_step.customer]
  and supplier_quiet = quiet_step [OF mall_step.store]

lemma supplier_blocks:
  assumes c: "calm s" and s: "supplier s i = T_pick" "0 < goods s n" "n < store_num"
  shows "quiet_run Ed3 s (at_supplier i (T_blocked n) s)"
proof -
  define u where "u p m f = s\<lparr>supplier := (supplier s)(i := p), mutex := (mutex s)(n := m), flag_mutex := f\<rparr>"
    for p m f
  have u: "supplier (u p m f) i = p" "mutex (u p m f) n = m" "flag_mutex (u p m f) = f" for p m f
    by (simp_all add: u_def)
  have o: "stores_open (u p m f)" "0 < goods (u p m f) n" for p m f
    using c s by (simp_all add: calm_def u_def)
  have p: "at_supplier i q (u p m f) = u q m f" for q p m f by (simp add: u_def)
  have m: "(u p m f)\<lparr>mutex := (mutex (u p m f))(n := k)\<rparr> = u p k f" for p m f k by (simp add: u_def)
  have f: "(u p m f)\<lparr>flag_mutex := k\<rparr> = u p m k" for p m f k by (simp add: u_def)
  note d = u o p m f
  have "s = u T_pick 1 1" using c s by (simp add: u_def calm_def fun_upd_idem)
  moreover have "at_supplier i (T_blocked n) s = u (T_blocked n) 1 1"
    using c by (simp add: u_def calm_def fun_upd_idem)
  moreover have 1: "supplier_step Ed3 False i (u T_pick 1 1) (u (T_lock n) 1 1)"
    using supplier_step.choose [of "u T_pick 1 1" i n Ed3 False] s by (simp add: d)
  have 2: "supplier_step Ed3 False i (u (T_lock n) 1 1) (u (T_test n) 0 1)"
    using supplier_step.lock [of "u (T_lock n) 1 1" i n Ed3 False] by (simp add: d supplier_first_def)
  have 3: "supplier_step Ed3 False i (u (T_test n) 0 1) (u (T_flag n True) 0 1)"
    using supplier_step.test [of "u (T_test n) 0 1" i n Ed3 False] by (simp add: d)
  have 4: "supplier_step Ed3 False i (u (T_flag n True) 0 1) (u (T_read n True) 0 0)"
    using supplier_step.flag [of "u (T_flag n True) 0 1" i n True Ed3 False] by (simp add: d)
  have 5: "supplier_step Ed3 False i (u (T_read n True) 0 0) (u (T_free n True) 0 0)"
    using supplier_step.read [of "u (T_read n True) 0 0" i n True Ed3 False] by (simp add: d)
  have 6: "supplier_step Ed3 False i (u (T_free n True) 0 0) (u (T_wait n) 0 1)"
    using supplier_step.free [of "u (T_free n True) 0 0" i n True Ed3 False]
    by (simp add: d supplier_next_def)
  have 7: "supplier_step Ed3 False i (u (T_wait n) 0 1) (u (T_blocked n) 1 1)"
    using supplier_step.wait [of "u (T_wait n) 0 1" i n Ed3 False] by (simp add: d)
  have "quiet_run Ed3 (u T_pick 1 1) (u (T_blocked n) 1 1)"
    by (rule supplier_quiet [OF 1], rule supplier_quiet [OF 2], rule supplier_quiet [OF 3],
      rule supplier_quiet [OF 4], rule supplier_quiet [OF 5], rule supplier_quiet [OF 6],
      rule supplier_quiet [OF 7], rule rtranclp.rtrancl_refl)
  ultimately show ?thesis by simp
qed

lemma buyer_blocks:
  assumes c: "calm s" and s: "buyer s c = B_head" "0 < demand s c" "goods s n \<le> 0" "n < store_num"
  shows "quiet_run Ed3 s (at_buyer c (B_blocked n) s)"
proof -
  have l: "0 < mutex s n" "mutex s n = 1" using c by (simp_all add: calm_def)
  define s1 where "s1 = at_buyer c (B_lock n) s"
  define s2 where "s2 = lock_store n (at_buyer c (B_test n) s1)"
  define s3 where "s3 = at_buyer c (B_wait n) s2"
  define s4 where "s4 = unlock_store n (at_buyer c (B_blocked n) s3)"
  note d = s1_def s2_def s3_def s4_def
  have 1: "buyer_step Ed3 False c s s1" using s by (simp add: s1_def buyer_step.choose)
  have 2: "buyer_step Ed3 False c s1 s2"
    using buyer_step.lock [of s1 c n Ed3 False] l by (simp add: d buyer_first_def)
  have 3: "buyer_step Ed3 False c s2 s3"
    using buyer_step.test [of s2 c n Ed3 False] s by (simp add: d)
  have 4: "buyer_step Ed3 False c s3 s4"
    using buyer_step.wait [of s3 c n Ed3 False] by (simp add: d)
  have e: "s4 = at_buyer c (B_blocked n) s" using l by (simp add: d fun_upd_idem)
  have "quiet_run Ed3 s s4"
    by (rule buyer_quiet [OF 1], rule buyer_quiet [OF 2], rule buyer_quiet [OF 3],
      rule buyer_quiet [OF 4], rule rtranclp.rtrancl_refl)
  with e show ?thesis by simp
qed

text \<open>Five customers with a demand of 1000, 100 goods in the first store and none in the others.\<close>

definition staff :: "nat \<Rightarrow> nat \<Rightarrow> int \<Rightarrow> mall_pc \<Rightarrow> mall" where
  "staff k i g m = \<lparr>buyer = (\<lambda>c. if c < k then B_head else B_none),
     supplier = (\<lambda>j. if j < i then T_pick else T_none), main_pc = m,
     demand = (\<lambda>c. if c < k then 1000 else 0), goods = (\<lambda>n. 0)(0 := g),
     mutex = (\<lambda>n. 1), flag_mutex = 1, stores_open = True\<rparr>"

lemma parent_quiet: "quiet_run ed s t \<Longrightarrow> parent_step ed False t u \<Longrightarrow> quiet_run ed s u"
  by (drule mall_step.parent, rule rtranclp.rtrancl_into_rtrancl)

lemma if_less_Suc: "(\<lambda>j. if j < i then x else y)(i := x) = (\<lambda>j. if j < Suc i then x else y)"
  by auto

lemma quiet_hired: "k \<le> customer_num \<Longrightarrow> quiet_run ed mall_start (staff k 0 0 (M_hire k))"
proof (induction k)
  case 0
  have "mall_start = staff 0 0 0 (M_hire 0)" by (simp add: staff_def mall_start_def fun_eq_iff)
  then show ?case by simp
next
  case (Suc k)
  have "parent_step ed False (staff k 0 0 (M_hire k)) (staff (Suc k) 0 0 (M_hire (Suc k)))"
    using parent_step.hire [of "staff k 0 0 (M_hire k)" k 1000 ed False] Suc.prems
    by (simp add: staff_def max_demand_def if_less_Suc)
  with Suc.IH [OF Suc_leD [OF Suc.prems]] show ?case by (rule parent_quiet)
qed

lemma quiet_stocked:
  "i \<le> store_num \<Longrightarrow> quiet_run ed (staff customer_num 0 0 (M_stock 0))
     (staff customer_num i (if i = 0 then 0 else 100) (M_stock i))"
proof (induction i)
  case (Suc i)
  have 1: "parent_step ed False (staff customer_num i (if i = 0 then 0 else 100) (M_stock i))
      (staff customer_num i 100 (M_open i))"
    using parent_step.stock [of "staff customer_num i (if i = 0 then 0 else 100) (M_stock i)" i
        "if i = 0 then 100 else 0" ed False] Suc.prems
    by (cases "i = 0") (simp_all add: staff_def min_supply_def fun_upd_twist fun_upd_idem)
  have "parent_step ed False (staff customer_num i 100 (M_open i))
      (staff customer_num (Suc i) 100 (M_stock (Suc i)))"
    using parent_step.opened [of "staff customer_num i 100 (M_open i)" i ed False]
    by (simp add: staff_def if_less_Suc)
  with parent_quiet [OF Suc.IH [OF Suc_leD [OF Suc.prems]] 1]
  have "quiet_run ed (staff customer_num 0 0 (M_stock 0)) (staff customer_num (Suc i) 100 (M_stock (Suc i)))"
    by (rule parent_quiet)
  then show ?case by simp
qed simp

lemma quiet_staffed: "quiet_run ed mall_start (staff customer_num store_num 100 (M_join 0))"
proof -
  have "parent_step ed False (staff customer_num 0 0 (M_hire customer_num)) (staff customer_num 0 0 (M_stock 0))"
    using parent_step.hired [of "staff customer_num 0 0 (M_hire customer_num)" ed False] by (simp add: staff_def)
  then have 1: "quiet_run ed mall_start (staff customer_num 0 0 (M_stock 0))"
    by (rule parent_quiet [OF quiet_hired [OF order_refl]])
  have 2: "quiet_run ed (staff customer_num 0 0 (M_stock 0)) (staff customer_num store_num 100 (M_stock store_num))"
    using quiet_stocked [of store_num] by (simp add: store_num_def)
  have "parent_step ed False (staff customer_num store_num 100 (M_stock store_num)) (staff customer_num store_num 100 (M_join 0))"
    using parent_step.stocked [of "staff customer_num store_num 100 (M_stock store_num)" ed False]
    by (simp add: staff_def)
  then show ?thesis by (rule parent_quiet [OF rtranclp_trans [OF 1 2]])
qed

definition blocked_all :: "nat \<Rightarrow> nat \<Rightarrow> mall" where
  "blocked_all i k = (staff customer_num store_num 100 (M_join 0))\<lparr>
     supplier := (\<lambda>j. if j < i then T_blocked 0 else if j < store_num then T_pick else T_none),
     buyer := (\<lambda>c. if c < k then B_blocked 1 else if c < customer_num then B_head else B_none)\<rparr>"

lemma quiet_suppliers: "i \<le> store_num \<Longrightarrow> quiet_run Ed3 (blocked_all 0 0) (blocked_all i 0)"
proof (induction i)
  case (Suc i)
  have "quiet_run Ed3 (blocked_all i 0) (at_supplier i (T_blocked 0) (blocked_all i 0))"
    by (rule supplier_blocks)
      (use Suc.prems in \<open>simp_all add: blocked_all_def staff_def calm_def store_num_def\<close>)
  moreover have "at_supplier i (T_blocked 0) (blocked_all i 0) = blocked_all (Suc i) 0"
    by (simp add: blocked_all_def staff_def fun_eq_iff less_Suc_eq)
  ultimately show ?case using Suc by (metis Suc_leD rtranclp_trans)
qed simp

lemma quiet_buyers: "k \<le> customer_num \<Longrightarrow> quiet_run Ed3 (blocked_all store_num 0) (blocked_all store_num k)"
proof (induction k)
  case (Suc k)
  have "quiet_run Ed3 (blocked_all store_num k) (at_buyer k (B_blocked 1) (blocked_all store_num k))"
    by (rule buyer_blocks)
      (use Suc.prems in \<open>simp_all add: blocked_all_def staff_def calm_def store_num_def\<close>)
  moreover have "at_buyer k (B_blocked 1) (blocked_all store_num k) = blocked_all store_num (Suc k)"
    by (simp add: blocked_all_def staff_def fun_eq_iff less_Suc_eq)
  ultimately show ?case using Suc by (metis Suc_leD rtranclp_trans)
qed simp

lemma quiet_blocked: "quiet_run Ed3 mall_start (blocked_all store_num customer_num)"
proof -
  have "staff customer_num store_num 100 (M_join 0) = blocked_all 0 0"
    by (simp add: blocked_all_def staff_def)
  then show ?thesis using quiet_staffed quiet_suppliers [of store_num] quiet_buyers [of customer_num]
    by (metis order_refl rtranclp_trans)
qed

lemma reach_run: "(mall_step ed sp er)\<^sup>*\<^sup>* mall_start s \<Longrightarrow> mall_reach ed sp er s"
  by (induction rule: rtranclp_induct) (auto intro: reach.intros)

lemma blocked_hopeless: "hopeless (blocked_all store_num customer_num)"
  by (auto simp: hopeless_def blocked_all_def staff_def customer_num_def)

lemma blocked_stuck: "\<not> mall_step Ed3 False False (blocked_all store_num customer_num) t"
proof
  define s where "s = blocked_all store_num customer_num"
  have s: "buyer s c \<in> {B_blocked 1, B_none}" "supplier s i \<in> {T_blocked 0, T_none}"
    "main_pc s = M_join 0" "buyer s 0 = B_blocked 1" for c i
    by (auto simp: s_def blocked_all_def staff_def customer_num_def)
  assume "mall_step Ed3 False False (blocked_all store_num customer_num) t"
  then have "mall_step Ed3 False False s t" by (simp add: s_def)
  then show False
  proof (cases rule: mall_step.cases)
    case (customer c)
    then show ?thesis using s(1) [of c] by (cases rule: buyer_step.cases) auto
  next
    case (store i)
    then show ?thesis using s(2) [of i] by (cases rule: supplier_step.cases) auto
  next
    case parent
    then show ?thesis using s(3,4) by (cases rule: parent_step.cases) (auto simp: customer_num_def)
  qed
qed

text \<open>C13: The third edition can come to a state in which no thread can take a step, although no call has
  failed; waking up by itself does not help a wait, so that the program never ends.
\<close>

theorem customers_deadlock:
  "\<exists>s. mall_reach Ed3 False False s \<and> (\<nexists>t. mall_step Ed3 False False s t) \<and> main_pc s = M_join 0 \<and>
     (\<nexists>t. (mall_step Ed3 True True)\<^sup>*\<^sup>* s t \<and> main_pc t = M_over)"
proof (intro exI conjI)
  let ?s = "blocked_all store_num customer_num"
  show "mall_reach Ed3 False False ?s" by (rule reach_run [OF quiet_blocked])
  show "\<nexists>t. mall_step Ed3 False False ?s t" using blocked_stuck by blast
  show "main_pc ?s = M_join 0" by (simp add: blocked_all_def staff_def)
  show "\<nexists>t. (mall_step Ed3 True True)\<^sup>*\<^sup>* ?s t \<and> main_pc t = M_over"
    using hopeless_forever [OF _ blocked_hopeless] by blast
qed

section \<open>Bounds\<close>

text \<open>
  The numbers of the third edition stay far from the ends of an \<open>int\<close>, also when \<open>main\<close> writes the
  first goods of a store that is already in use; in the other two editions nothing bounds the
  goods from above.
\<close>

theorem customers_bounds:
  assumes "mall_reach Ed3 sp er s"
  shows "- 500 \<le> goods s n \<and> goods s n < 1000 \<and> - 500 < demand s c \<and> demand s c < 5500"
  using goods_reach [OF assms] demand_reach [OF assms] by (simp add: goods_inv_def demand_inv_def)

theorem customers_exclusive:
  assumes "mall_reach ed sp er s" "mall_holds s p l" "mall_holds s q l"
  shows "p = q"
  using assms by (rule mall.mutual_exclusion)

text \<open>The three programs.\<close>

lemma customer_programs:
  "mall_step Ed1 sp er s t \<longleftrightarrow>
     (\<exists>c. purchase_start_1 sp c s t) \<or> (\<exists>i. supply_start_1 sp i s t) \<or> customer_main_1 er s t"
  "mall_step Ed2 sp er s t \<longleftrightarrow>
     (\<exists>c. purchase_start_2 sp c s t) \<or> (\<exists>i. supply_start_2 sp i s t) \<or> customer_main_2 er s t"
  "mall_step Ed3 sp er s t \<longleftrightarrow>
     (\<exists>c. purchase_start_3 sp c s t) \<or> (\<exists>i. supply_start_3 sp i s t) \<or> customer_main_3 er s t"
  unfolding purchase_start_1_def purchase_start_2_def purchase_start_3_def supply_start_1_def
    supply_start_2_def supply_start_3_def customer_main_1_def customer_main_2_def customer_main_3_def
  by (auto elim: mall_step.cases intro: mall_step.intros)

lemma staffed_run: "mall_reach Ed2 False False (staff customer_num store_num 100 (M_join 0))"
  by (rule reach_run [OF quiet_staffed])

theorem customers_progress_witness:
  "\<exists>t. mall_step Ed2 False False (staff customer_num store_num 100 (M_join 0)) t"
  by (rule customers_progress [OF staffed_run]) (simp_all add: staff_def)

end
