(* ===== verification/Customer_Room.thy ===== *)
theory Customer_Room
  imports Customer_Props
begin

text \<open>
  The goods of a store of the second edition of LAB_13/task_customer: they do not fall below one
  purchase under zero, a customer waits only at a store that is nearly empty, and how far they can
  rise while suppliers are about to fill the store.
\<close>

section \<open>From below\<close>

fun b_floor :: "int \<Rightarrow> nat \<Rightarrow> buyer_pc \<Rightarrow> bool" where
  "b_floor g n (B_demand m) = (m = n \<longrightarrow> 0 \<le> g)" | "b_floor g n (B_goods m) = (m = n \<longrightarrow> 0 \<le> g)"
| "b_floor g n (B_store m v) = (- 500 \<le> v)" | "b_floor g n b = True"

fun t_floor :: "supplier_pc \<Rightarrow> bool" where
  "t_floor (T_store n v) = (0 \<le> v)" | "t_floor t = True"

definition floor_inv :: "mall \<Rightarrow> bool" where
  "floor_inv s \<longleftrightarrow> (\<forall>n. - 500 \<le> goods s n) \<and> (\<forall>c n. b_floor (goods s n) n (buyer s c)) \<and> (\<forall>j. t_floor (supplier s j))"

lemma floor_wake [simp]:
  "b_floor g n (wake_buyers m b c) = b_floor g n (b c)" "t_floor (wake_suppliers m q j) = t_floor (q j)"
  by (simp_all add: wake_buyers_def wake_suppliers_def)

lemma b_floor_up: "b_floor g n b \<Longrightarrow> 0 \<le> v \<Longrightarrow> b_floor v n b"
  by (cases b) auto

lemma b_floor_away: "b_floor g n b \<Longrightarrow> \<not> b_holds b (Shelf n) \<Longrightarrow> b_floor v n b"
  by (cases b) auto

lemma floor_reach: "mall_reach ed sp er s \<Longrightarrow> ed \<noteq> Ed1 \<Longrightarrow> floor_inv s"
proof (induction rule: reach_invariant)
  case (start s)
  then show ?case by (simp add: floor_inv_def mall_start_def)
next
  case (step s t)
  note f = step(3) [OF step(4), unfolded floor_inv_def]
  from step(2) show ?case
  proof (cases rule: mall_step.cases)
    case (customer c)
    then show ?thesis
    proof (cases rule: buyer_step.cases)
      case (store n v)
      have v: "- 500 \<le> v" using f store(2) by (metis b_floor.simps(3))
      have "b_floor (goods t m) m (buyer t d)" for d m
        using f store alone(1) [OF step(1), of c "Shelf n" d]
        by (cases "d = c") (auto simp: buyer_last_def intro: b_floor_away)
      then show ?thesis using store f v by (simp add: floor_inv_def)
    next
      case (take_demand n)
      then have "0 \<le> goods s n" using f by (metis b_floor.simps(1))
      then show ?thesis using take_demand f by (simp add: floor_inv_def)
    next
      case (take_goods n)
      then have "0 \<le> goods s n" using f by (metis b_floor.simps(2))
      then show ?thesis using take_goods f step(4) by (simp add: floor_inv_def bought_def)
    qed (use f step(4) in \<open>auto simp: floor_inv_def buyer_first_def\<close>)
  next
    case (store i)
    then show ?thesis
    proof (cases rule: supplier_step.cases)
      case (store n v)
      then have "0 \<le> v" using f by (metis t_floor.simps(1))
      then show ?thesis using store f by (auto simp: floor_inv_def supplier_last_def intro: b_floor_up)
    next
      case (add n)
      have "0 \<le> goods s n + 500" using spec [OF conjunct1 [OF f], of n] by simp
      then show ?thesis using add f by (simp add: floor_inv_def)
    qed (use f in \<open>auto simp: floor_inv_def supplier_first_def supplier_next_def split: edition.splits\<close>)
  next
    case parent
    then show ?thesis using f by (cases rule: parent_step.cases) (auto simp: floor_inv_def intro: b_floor_up)
  qed
qed

section \<open>Where a customer waits\<close>

text \<open>
  A customer that waits at a store has seen it empty; later it may have the first goods that \<open>main\<close> writes,
  or those of a supplier that has still to call.
\<close>

definition nearly_empty :: "mall \<Rightarrow> nat \<Rightarrow> bool" where
  "nearly_empty s n \<longleftrightarrow> goods s n < 500 \<or> (\<exists>j. supplier s j = T_cast n)"

definition waits_low :: "mall \<Rightarrow> bool" where
  "waits_low s \<longleftrightarrow> (\<forall>c n. (buyer s c = B_wait n \<longrightarrow> goods s n < 500) \<and>
     (buyer s c = B_blocked n \<longrightarrow> nearly_empty s n) \<and>
     (\<forall>d v. buyer s c = B_blocked n \<longrightarrow> buyer s d = B_store n v \<longrightarrow> v < 500))"

lemma waits_lowD:
  assumes "waits_low s"
  shows "buyer s c = B_wait n \<Longrightarrow> goods s n < 500" "buyer s c = B_blocked n \<Longrightarrow> nearly_empty s n"
    "buyer s c = B_blocked n \<Longrightarrow> buyer s d = B_store n v \<Longrightarrow> v < 500"
  using assms by (auto simp: waits_low_def)

lemma nearly_empty_buyer:
  assumes "buyer_step ed sp c s t" "nearly_empty s n" "goods t n \<le> goods s n \<or> goods t n < 500"
  shows "nearly_empty t n"
proof -
  have "supplier t j = T_cast n" if "supplier s j = T_cast n" for j
    using assms(1) that by (cases rule: buyer_step.cases) (auto simp: wake_suppliers_def)
  then show ?thesis using assms(2,3) by (auto simp: nearly_empty_def)
qed

lemma nearly_empty_supplier:
  assumes "supplier_step Ed2 sp i s t" "nearly_empty s n" "supplier s i \<noteq> T_cast n"
  shows "nearly_empty t n"
proof -
  have "supplier t j = T_cast n" if "supplier s j = T_cast n" for j
    using assms(1,3) that by (cases rule: supplier_step.cases) auto
  moreover have "goods t n = goods s n \<or> supplier t i = T_cast n"
    using assms(1) by (cases rule: supplier_step.cases) (auto simp: supplier_last_def)
  ultimately show ?thesis using assms(2) by (auto simp: nearly_empty_def)
qed

lemma waits_low_buyer:
  assumes r: "mall_reach Ed2 sp er s" and b: "buyer_step Ed2 sp c s t" and i: "waits_low s"
  shows "waits_low t"
proof -
  note w = waits_lowD [OF i]
  have e: "nearly_empty t n" if "buyer s d = B_blocked n" for d n
  proof (rule nearly_empty_buyer [OF b w(2) [OF that]])
    show "goods t n \<le> goods s n \<or> goods t n < 500"
      using b w(3) [OF that] by (cases rule: buyer_step.cases) auto
  qed
  from b show ?thesis
  proof (cases rule: buyer_step.cases)
    case (wait n)
    have "buyer s d \<noteq> B_store n v" for d v
      using wait alone(1) [OF r, of c "Shelf n" d] by (cases "d = c") auto
    moreover have "nearly_empty t n" using w(1) wait by (simp add: nearly_empty_def)
    ultimately show ?thesis using wait w e by (auto simp: waits_low_def)
  next
    case (take_goods n)
    have "supplier s j \<noteq> T_cast n" for j using take_goods alone(2) [OF r, of c "Shelf n" j] by auto
    then have "buyer s d = B_blocked n \<Longrightarrow> goods s n < 1000" for d using w(2) [of d n] by (auto simp: nearly_empty_def)
    then show ?thesis using take_goods w e by (auto simp: waits_low_def bought_def)
  next
    case (store n v)
    have "buyer s d \<noteq> B_wait n" for d
      using store alone(1) [OF r, of c "Shelf n" d] by (cases "d = c") auto
    then show ?thesis using store w e by (auto simp: waits_low_def buyer_last_def)
  qed (use w e in \<open>auto simp: waits_low_def buyer_first_def\<close>)
qed

lemma waits_low_supplier:
  assumes r: "mall_reach Ed2 sp er s" and b: "supplier_step Ed2 sp i s t" and i: "waits_low s"
  shows "waits_low t"
proof -
  note w = waits_lowD [OF i]
  have e: "nearly_empty t n" if "buyer s d = B_blocked n" "supplier s i \<noteq> T_cast n" for d n
    by (rule nearly_empty_supplier [OF b w(2) [OF that(1)] that(2)])
  from b show ?thesis
  proof (cases rule: supplier_step.cases)
    case (store n v)
    have "buyer s d \<noteq> B_wait n" for d using store alone(2) [OF r, of d "Shelf n" i] by auto
    then show ?thesis using store w e by (auto simp: waits_low_def supplier_last_def)
  next
    case (cast n)
    have g: "nearly_empty t n" if "goods s n \<le> 0" using that cast by (simp add: nearly_empty_def)
    have "nearly_empty t m" if "buyer s d = B_blocked m" "m \<noteq> n" for d m using e [OF that(1)] that(2) cast by simp
    then show ?thesis using cast w g by (auto simp: waits_low_def wake_buyers_def split: if_splits)
  qed (use w e in \<open>auto simp: waits_low_def\<close>)
qed

lemma waits_low_parent:
  assumes p: "parent_step Ed2 er s t" and i: "waits_low s" and h: "staffed er s"
  shows "waits_low t"
proof -
  note w = waits_lowD [OF i]
  have "supplier t j = T_cast n" if "supplier s j = T_cast n" for j n
    using p that h by (cases rule: parent_step.cases) (auto simp: staffed_def wake_suppliers_def)
  moreover have "goods t n = goods s n \<or> goods t n < 500" for n
    using p by (cases rule: parent_step.cases) (auto simp: min_supply_def)
  ultimately have e: "nearly_empty t n" if "nearly_empty s n" for n
    using that unfolding nearly_empty_def by metis
  from p show ?thesis
  proof (cases rule: parent_step.cases)
    case (stock k g)
    then show ?thesis using w e by (auto simp: waits_low_def min_supply_def)
  qed (use w e in \<open>auto simp: waits_low_def\<close>)
qed

lemma waits_low_reach: "mall_reach Ed2 sp er s \<Longrightarrow> waits_low s"
proof (induction rule: reach_invariant)
  case (start s)
  then show ?case by (simp add: waits_low_def mall_start_def)
next
  case (step s t)
  from step(2) show ?case
    by (cases rule: mall_step.cases)
      (blast intro: waits_low_buyer [OF step(1) _ step(3)] waits_low_supplier [OF step(1) _ step(3)]
        waits_low_parent [OF _ step(3) staffed_reach [OF step(1)]])+
qed

section \<open>From above\<close>

text \<open>The deliveries that are on their way to store \<open>n\<close>; a supplier that has still to look at the flag delivers nothing when it is closed.\<close>

fun coming :: "bool \<Rightarrow> nat \<Rightarrow> supplier_pc \<Rightarrow> nat" where
  "coming op n (T_lock m) = (if op \<and> m = n then 1 else 0)"
| "coming op n (T_flag m w) = (if op \<and> m = n then 1 else 0)"
| "coming op n (T_read m w) = (if op \<and> m = n then 1 else 0)"
| "coming op n (T_free m w) = (if m = n then 1 else 0)" | "coming op n (T_add m) = (if m = n then 1 else 0)"
| "coming op n t = 0"

definition deliveries :: "mall \<Rightarrow> nat \<Rightarrow> nat" where
  "deliveries s n = (\<Sum>j < store_num. coming (stores_open s) n (supplier s j))"

lemma coming_le_1: "coming op n t \<le> 1"
  by (cases t) auto

lemma deliveries_le: "deliveries s n \<le> 3"
proof -
  have "deliveries s n \<le> (\<Sum>j < store_num. 1)" unfolding deliveries_def by (rule sum_mono) (rule coming_le_1)
  then show ?thesis by (simp add: store_num_def)
qed

lemma deliveries_mono:
  "(\<And>j. j < store_num \<Longrightarrow> coming (stores_open t) n (supplier t j) \<le> coming (stores_open s) n (supplier s j)) \<Longrightarrow>
   deliveries t n \<le> deliveries s n"
  unfolding deliveries_def by (rule sum_mono) simp

lemma deliveries_one:
  assumes "i < store_num" "\<And>j. j \<noteq> i \<Longrightarrow> supplier t j = supplier s j" "stores_open t = stores_open s"
  shows "deliveries t n + coming (stores_open s) n (supplier s i) =
    deliveries s n + coming (stores_open s) n (supplier t i)"
proof -
  have "(\<Sum>j \<in> {..<store_num} - {i}. coming (stores_open t) n (supplier t j)) =
      (\<Sum>j \<in> {..<store_num} - {i}. coming (stores_open s) n (supplier s j))"
    using assms(2,3) by (intro sum.cong) auto
  then show ?thesis using assms(1,3) by (simp add: deliveries_def sum.remove [of "{..<store_num}" i])
qed

text \<open>No store gets more than \<open>G\<close> goods when the deliveries on their way arrive.\<close>

definition roomy :: "int \<Rightarrow> mall \<Rightarrow> bool" where
  "roomy G s \<longleftrightarrow> (\<forall>n. goods s n + 500 * int (deliveries s n) \<le> G \<and>
     (\<forall>j v. supplier s j = T_store n v \<longrightarrow> v + 500 * int (deliveries s n) \<le> G) \<and>
     (\<forall>c v. buyer s c = B_store n v \<longrightarrow> v + 500 * int (deliveries s n) \<le> G))"

text \<open>A supplier that goes to fill a store in a roomy run goes to a nearly empty one that nobody is about to write.\<close>

definition picks_empty :: "mall \<Rightarrow> mall \<Rightarrow> bool" where
  "picks_empty s t \<longleftrightarrow> (\<forall>j n. supplier s j = T_pick \<longrightarrow> supplier t j = T_lock n \<longrightarrow> stores_open s \<longrightarrow>
     goods s n < 500 \<and> (\<forall>i v. supplier s i \<noteq> T_store n v) \<and> (\<forall>c v. buyer s c \<noteq> B_store n v))"

lemma roomyD:
  assumes "roomy G s"
  shows "goods s n + 500 * int (deliveries s n) \<le> G"
    "supplier s j = T_store n v \<Longrightarrow> v + 500 * int (deliveries s n) \<le> G"
    "buyer s c = B_store n v \<Longrightarrow> v + 500 * int (deliveries s n) \<le> G"
  using assms by (auto simp: roomy_def)

lemma roomyI:
  assumes "\<And>n. goods t n + 500 * int (deliveries s n) \<le> G"
    "\<And>n j v. supplier t j = T_store n v \<Longrightarrow> v + 500 * int (deliveries s n) \<le> G"
    "\<And>n c v. buyer t c = B_store n v \<Longrightarrow> v + 500 * int (deliveries s n) \<le> G"
    "\<And>n. deliveries t n \<le> deliveries s n"
  shows "roomy G t"
  unfolding roomy_def using assms by (smt (verit) of_nat_mono)

lemma roomy_buyer:
  assumes b: "buyer_step Ed2 sp c s t" and r: "roomy G s"
  shows "roomy G t"
proof (rule roomyI [where s = s])
  note w = roomyD [OF r]
  have q: "supplier t j = supplier s j \<or> (\<exists>n. supplier t j = T_wake n)" for j
    using b by (cases rule: buyer_step.cases) (auto simp: wake_suppliers_def)
  have "coming (stores_open t) n (supplier t j) \<le> coming (stores_open s) n (supplier s j)" for n j
    using q [of j] buyer_frame(4) [OF b] by auto
  then show "deliveries t n \<le> deliveries s n" for n by (intro deliveries_mono)
  show "goods t n + 500 * int (deliveries s n) \<le> G" for n
    using b w(1,3) by (cases rule: buyer_step.cases) auto
  show "supplier t j = T_store n v \<Longrightarrow> v + 500 * int (deliveries s n) \<le> G" for j n v
    using q [of j] w(2) by auto
  show "buyer t d = B_store n v \<Longrightarrow> v + 500 * int (deliveries s n) \<le> G" for d n v
    using b w(1) [of n] w(3) [of d n v]
    by (cases rule: buyer_step.cases) (auto simp: bought_def buyer_first_def buyer_last_def split: if_splits)
qed

lemma roomy_supplier:
  assumes b: "supplier_step Ed2 sp i s t" and r: "roomy G s" and g: "2000 \<le> G" and i: "i < store_num"
    and p: "t_plain (supplier s i)" and e: "picks_empty s t"
  shows "roomy G t"
proof -
  note w = roomyD [OF r]
  have q: "supplier t j = supplier s j" if "j \<noteq> i" for j
    using b that by (cases rule: supplier_step.cases) auto
  note d = deliveries_one [OF i q store_frame(4) [OF b]]
  have bt: "buyer t c = buyer s c \<or> (\<exists>n. buyer t c = B_wake n)" for c
    using b by (cases rule: supplier_step.cases) (auto simp: wake_buyers_def)
  have bs: "buyer t c = B_store n v \<Longrightarrow> v + 500 * int (deliveries s n) \<le> G" for c n v
    using bt [of c] w(3) by auto
  show ?thesis
  proof (cases "\<exists>n. supplier s i = T_pick \<and> supplier t i = T_lock n \<and> stores_open s")
    case True
    then obtain n where n: "supplier s i = T_pick" "supplier t i = T_lock n" "stores_open s" by blast
    have t: "t = at_supplier i (T_lock n) s" using b n by (cases rule: supplier_step.cases) auto
    have f: "goods s n < 500" "\<And>j v. supplier s j \<noteq> T_store n v" "\<And>c v. buyer s c \<noteq> B_store n v"
      using e n by (auto simp: picks_empty_def)
    have "deliveries t m = deliveries s m" if "m \<noteq> n" for m using d [of m] n that by auto
    then have m: "deliveries t m = deliveries s m \<or> m = n" for m by blast
    have "goods t m + 500 * int (deliveries t m) \<le> G" for m
      using m [of m] w(1) [of m] f(1) g deliveries_le [of t n] t by auto
    moreover have "v + 500 * int (deliveries t m) \<le> G" if "supplier t j = T_store m v" for j m v
      using m [of m] w(2) [of j m v] f(2) [of j] that t by (auto split: if_splits)
    moreover have "v + 500 * int (deliveries t m) \<le> G" if "buyer t c = B_store m v" for c m v
      using m [of m] w(3) [of c m v] f(3) [of c] that t by auto
    ultimately show ?thesis by (simp add: roomy_def)
  next
    case pick: False
    show ?thesis
    proof (cases "\<exists>n. supplier s i = T_add n")
      case True
      then obtain n where n: "supplier s i = T_add n" by blast
      have t: "t = at_supplier i (T_store n (goods s n + 500)) s" using b n by (cases rule: supplier_step.cases) auto
      have m: "deliveries t m = deliveries s m" if "m \<noteq> n" for m using d [of m] n t that by auto
      have l: "int (deliveries s n) = int (deliveries t n) + 1" using d [of n] n t by auto
      have le: "deliveries t m \<le> deliveries s m" for m using m l by (cases "m = n") auto
      have "v + 500 * int (deliveries t m) \<le> G" if "supplier t j = T_store m v" for j m v
      proof (cases "j = i")
        case True
        then show ?thesis using that t w(1) [of n] l by auto
      next
        case False
        then show ?thesis using that t w(2) [of j m v] le [of m] by auto
      qed
      moreover have "goods t m + 500 * int (deliveries t m) \<le> G" for m using t w(1) [of m] le [of m] by auto
      moreover have "v + 500 * int (deliveries t m) \<le> G" if "buyer t c = B_store m v" for c m v
        using bs [OF that] le [of m] by auto
      ultimately show ?thesis by (simp add: roomy_def)
    next
      case add: False
      show ?thesis
      proof (rule roomyI [where s = s])
        have "coming (stores_open s) n (supplier t i) \<le> coming (stores_open s) n (supplier s i)" for n
          using b p pick
          by (cases rule: supplier_step.cases) (auto simp: supplier_first_def supplier_next_def supplier_last_def)
        then show "deliveries t n \<le> deliveries s n" for n using d [of n] by (metis add_le_cancel_right add_mono_thms_linordered_semiring(2) le_add_same_cancel1 nat_add_left_cancel_le)
        show "goods t n + 500 * int (deliveries s n) \<le> G" for n
          using b w(1,2) by (cases rule: supplier_step.cases) auto
        have "supplier t i \<noteq> T_store n v" for n v
          using b add
          by (cases rule: supplier_step.cases) (auto simp: supplier_first_def supplier_next_def supplier_last_def)
        then show "supplier t j = T_store n v \<Longrightarrow> v + 500 * int (deliveries s n) \<le> G" for j n v
          using q [of j] w(2) [of j n v] by (cases "j = i") auto
      qed (rule bs)
    qed
  qed
qed

lemma roomy_parent:
  assumes b: "parent_step Ed2 er s t" and r: "roomy G s" and g: "2000 \<le> G"
  shows "roomy G t"
proof -
  note w = roomyD [OF r]
  have c: "coming (stores_open t) n (supplier t j) \<le> coming (stores_open s) n (supplier s j)" for n j
    using b by (cases rule: parent_step.cases; cases "supplier s j") (auto simp: wake_suppliers_def)
  have d: "deliveries t n \<le> deliveries s n" for n using c by (intro deliveries_mono)
  have s: "supplier t j = T_store n v \<Longrightarrow> supplier s j = T_store n v" "buyer t k = B_store n v \<Longrightarrow> buyer s k = B_store n v" for j n v k
    using b by (cases rule: parent_step.cases; auto simp: wake_suppliers_def split: if_splits)+
  have e: "goods t n = goods s n \<or> goods t n < 500" for n
    using b by (cases rule: parent_step.cases) (auto simp: min_supply_def)
  have "goods t n + 500 * int (deliveries t n) \<le> G" for n
    using e [of n] w(1) [of n] d [of n] deliveries_le [of t n] g by auto
  moreover have "v + 500 * int (deliveries t n) \<le> G" if "supplier t j = T_store n v" for j n v
    using w(2) [OF s(1) [OF that]] d [of n] by simp
  moreover have "v + 500 * int (deliveries t n) \<le> G" if "buyer t k = B_store n v" for k n v
    using w(3) [OF s(2) [OF that]] d [of n] by simp
  ultimately show ?thesis by (simp add: roomy_def)
qed

text \<open>A run in which every store stays within \<open>G\<close> goods, and the room that it leaves.\<close>

definition stores_within :: "int \<Rightarrow> mall \<Rightarrow> bool" where
  "stores_within G s \<longleftrightarrow> (\<forall>n. - 500 \<le> goods s n \<and> goods s n \<le> G)"

abbreviation mall_run :: "int \<Rightarrow> bool \<Rightarrow> mall \<Rightarrow> mall \<Rightarrow> bool" where
  "mall_run G sp s t \<equiv> mall_step Ed2 sp False s t \<and> stores_within G t"

lemma run_reach: "reach (\<lambda>s. s = mall_start) (mall_run G sp) s \<Longrightarrow> mall_reach Ed2 sp False s"
proof (induction rule: reach_invariant)
  case (start s)
  then show ?case by (rule reach_start)
next
  case (step s t)
  then show ?case by (blast intro: reach_step)
qed

lemma room_reach:
  assumes "reach (\<lambda>s. s = mall_start) (mall_run G sp) s" "0 \<le> G"
  shows "roomy (G + 2000) s"
proof -
  have i: "(\<forall>n. goods s n \<le> G) \<and> (\<forall>j n v. supplier s j = T_store n v \<longrightarrow> v \<le> G + 500) \<and>
      (\<forall>c n v. buyer s c = B_store n v \<longrightarrow> v \<le> G)"
    using assms
  proof (induction rule: reach_invariant)
    case (start s)
    then show ?case by (simp add: mall_start_def)
  next
    case (step s t)
    then have w: "goods s n \<le> G" "supplier s j = T_store n v \<Longrightarrow> v \<le> G + 500"
      "buyer s c = B_store n v \<Longrightarrow> v \<le> G" for j n v c by blast+
    have g: "goods t n \<le> G" for n using step(2) by (simp add: stores_within_def)
    have m: "mall_step Ed2 sp False s t" using step(2) by simp
    have "v \<le> G + 500" if "supplier t j = T_store n v" for j n v
      using m
    proof (cases rule: mall_step.cases)
      case (customer c)
      then show ?thesis using that w(2) by (cases rule: buyer_step.cases) (auto simp: wake_suppliers_def split: if_splits)
    next
      case (store i)
      then show ?thesis using that w(1,2)
        by (cases rule: supplier_step.cases)
          (auto simp: supplier_first_def supplier_last_def supplier_next_def split: if_splits)
    next
      case parent
      then show ?thesis using that w(2)
        by (cases rule: parent_step.cases) (auto simp: wake_suppliers_def split: if_splits)
    qed
    moreover have "v \<le> G" if "buyer t c = B_store n v" for c n v
      using m
    proof (cases rule: mall_step.cases)
      case (customer d)
      then show ?thesis using that w(3) w(1) [of n]
        by (cases rule: buyer_step.cases) (auto simp: buyer_first_def buyer_last_def bought_def split: if_splits)
    next
      case (store i)
      then show ?thesis using that w(3)
        by (cases rule: supplier_step.cases) (auto simp: wake_buyers_def split: if_splits)
    next
      case parent
      then show ?thesis using that w(3) by (cases rule: parent_step.cases) (auto split: if_splits)
    qed
    ultimately show ?case using g by blast
  qed
  have d: "500 * int (deliveries s n) \<le> 1500" for n using deliveries_le [of s n] by simp
  show ?thesis unfolding roomy_def
  proof (intro allI conjI impI)
    show "goods s n + 500 * int (deliveries s n) \<le> G + 2000" for n
    proof -
      have "goods s n \<le> G" using i by blast
      then show ?thesis using d [of n] by simp
    qed
    show "v + 500 * int (deliveries s n) \<le> G + 2000" if "supplier s j = T_store n v" for j n v
    proof -
      have "v \<le> G + 500" using i that by blast
      then show ?thesis using d [of n] by simp
    qed
    show "v + 500 * int (deliveries s n) \<le> G + 2000" if "buyer s c = B_store n v" for c n v
    proof -
      have "v \<le> G" using i that by blast
      then show ?thesis using d [of n] by simp
    qed
  qed
qed

end
