(* ===== verification/Customer_Live.thy ===== *)
theory Customer_Live
  imports Customer_Room
begin

text \<open>
  From every state of the second edition of LAB_13/task_customer there is a way to the end of
  \<open>main\<close>: no customer waits at an empty store for ever, since the supplier that fills it wakes him.
  In every state some thread has a step that helps, one that lowers a tuple of numbers.
\<close>

section \<open>Steps that help\<close>

text \<open>If a step below in a well-founded order is possible wherever the goal is not reached, the goal can be reached.\<close>

lemma helpful_steps:
  assumes wf: "wf r" and moves: "\<And>s. I s \<Longrightarrow> \<not> goal s \<Longrightarrow> \<exists>t. quick s t \<and> I t \<and> (t, s) \<in> r" and s: "I s"
  shows "\<exists>t. quick\<^sup>*\<^sup>* s t \<and> goal t \<and> I t"
  using wf s
proof (induction s rule: wf_induct_rule)
  case (less s)
  show ?case
  proof (cases "goal s")
    case False
    then obtain t where t: "quick s t" "I t" "(t, s) \<in> r" using moves [OF less.prems] by blast
    from less.IH [OF t(3,2)] show ?thesis using t(1) by (meson converse_rtranclp_into_rtranclp)
  qed (use less.prems in blast)
qed

section \<open>Where the threads are\<close>

text \<open>The store of a customer is one of the three.\<close>

fun b_at :: "buyer_pc \<Rightarrow> nat" where
  "b_at (B_lock n) = n" | "b_at (B_test n) = n" | "b_at (B_wait n) = n" | "b_at (B_blocked n) = n"
| "b_at (B_wake n) = n" | "b_at b = 0"

lemma b_at_wake [simp]: "b_at (wake_buyers n b c) = b_at (b c)"
  by (simp add: wake_buyers_def)

lemma b_at_reach: "mall_reach ed sp er s \<Longrightarrow> b_at (buyer s c) < store_num"
proof (induction arbitrary: c rule: reach_invariant)
  case (start s)
  then show ?case by (simp add: mall_start_def store_num_def)
next
  case (step s t)
  have z: "0 < store_num" by (simp add: store_num_def)
  from step(2) show ?case
  proof (cases rule: mall_step.cases)
    case (customer d)
    then show ?thesis using step(3) [of c] step(3) [of d] z
      by (cases rule: buyer_step.cases) (auto simp: buyer_first_def buyer_last_def)
  next
    case (store i)
    then show ?thesis using step(3) [of c] by (cases rule: supplier_step.cases) auto
  next
    case parent
    then show ?thesis using step(3) [of c] z by (cases rule: parent_step.cases) auto
  qed
qed

fun shutting :: "mall_pc \<Rightarrow> bool" where
  "shutting (M_shut i) = True" | "shutting (M_call i) = True" | "shutting (M_shut_off i) = True"
| "shutting m = False"

lemma no_shut: "mall_reach ed sp er s \<Longrightarrow> ed \<noteq> Ed3 \<Longrightarrow> \<not> shutting (main_pc s)"
proof (induction rule: reach_invariant)
  case (start s)
  then show ?case by (simp add: mall_start_def)
next
  case (step s t)
  from step(2) show ?case
  proof (cases rule: mall_step.cases)
    case (customer c)
    then show ?thesis using step(3,4) by (simp add: buyer_frame [OF customer])
  next
    case (store i)
    then show ?thesis using step(3,4) by (simp add: store_frame [OF store])
  next
    case parent
    then show ?thesis using step(3,4) by (cases rule: parent_step.cases) auto
  qed
qed

section \<open>The numbers\<close>

text \<open>How far \<open>main\<close> is from its end.\<close>

fun main_rank :: "mall_pc \<Rightarrow> nat" where
  "main_rank (M_hire k) = 100 - k" | "main_rank (M_stock i) = 80 - 2 * i" | "main_rank (M_open i) = 79 - 2 * i"
| "main_rank (M_join k) = 50 - k" | "main_rank M_flag = 40" | "main_rank M_close = 39" | "main_rank M_unflag = 38"
| "main_rank (M_reap i) = 20 - i" | "main_rank m = 0"

text \<open>How far a customer is from the end of a purchase; one that waits for the goods is nearer than one who has still to.\<close>

fun b_rank :: "(nat \<Rightarrow> int) \<Rightarrow> buyer_pc \<Rightarrow> nat" where
  "b_rank g (B_goods n) = 13" | "b_rank g (B_store n v) = 12" | "b_rank g (B_cast n) = 11"
| "b_rank g (B_unlock n) = 10" | "b_rank g B_head = 9"
| "b_rank g (B_test n) = (if g n \<le> 0 then 8 else 4)" | "b_rank g (B_wait n) = 7" | "b_rank g (B_blocked n) = 6"
| "b_rank g (B_wake n) = 5" | "b_rank g (B_lock n) = 5" | "b_rank g (B_demand n) = 3" | "b_rank g b = 0"

fun b_waits :: "buyer_pc \<Rightarrow> bool" where
  "b_waits (B_lock n) = True" | "b_waits (B_wake n) = True" | "b_waits (B_blocked n) = True" | "b_waits b = False"

text \<open>How far a thread is from giving back the mutexes it holds.\<close>

fun b_inside :: "buyer_pc \<Rightarrow> nat" where
  "b_inside (B_test n) = 6" | "b_inside (B_demand n) = 5" | "b_inside (B_goods n) = 4" | "b_inside (B_store n v) = 3"
| "b_inside (B_cast n) = 2" | "b_inside (B_unlock n) = 1" | "b_inside (B_wait n) = 1" | "b_inside b = 0"

fun t_inside :: "supplier_pc \<Rightarrow> nat" where
  "t_inside (T_flag n w) = 7" | "t_inside (T_read n w) = 6" | "t_inside (T_free n w) = 5" | "t_inside (T_add n) = 4"
| "t_inside (T_store n v) = 3" | "t_inside (T_cast n) = 2" | "t_inside (T_unlock n) = 1" | "t_inside (T_quit n) = 2"
| "t_inside (T_leave n) = 1" | "t_inside t = 0"

text \<open>
  The threads that are in the way of the one \<open>main\<close> waits for: while it joins customer \<open>k\<close>, every other
  customer and the suppliers 1 and 2, since supplier 0 serves him; later, the other suppliers.
\<close>

fun other_buyers :: "mall_pc \<Rightarrow> nat set" where
  "other_buyers (M_join k) = {..<customer_num} - {k}" | "other_buyers m = {}"

fun other_suppliers :: "mall_pc \<Rightarrow> nat set" where
  "other_suppliers (M_join k) = {..<store_num} - {0}" | "other_suppliers (M_reap i) = {..<store_num} - {i}"
| "other_suppliers m = {..<store_num}"

lemma others_finite [simp]: "finite (other_buyers m)" "finite (other_suppliers m)"
  by (cases m; simp)+

definition in_the_way :: "mall \<Rightarrow> nat" where
  "in_the_way s = (\<Sum>c \<in> other_buyers (main_pc s). b_inside (buyer s c)) +
     (\<Sum>j \<in> other_suppliers (main_pc s). t_inside (supplier s j))"

text \<open>The goods of store \<open>n\<close> when supplier 0 has written what it is about to write.\<close>

fun due :: "nat \<Rightarrow> supplier_pc \<Rightarrow> int \<Rightarrow> int" where
  "due n (T_store m v) g = (if m = n then v else g)" | "due n t g = g"

text \<open>
  How far supplier 0 is from supplying store \<open>n\<close>: \<open>lack\<close> says that the goods will not do yet, \<open>wanted\<close> that
  the customer needs a supplier at all, because the goods will not do or because he is to be woken.
\<close>

fun t_rank :: "bool \<Rightarrow> bool \<Rightarrow> nat \<Rightarrow> supplier_pc \<Rightarrow> nat" where
  "t_rank lack wanted n (T_lock m) = (if \<not> wanted then 0 else if m = n then 8 else 20)"
| "t_rank lack wanted n (T_flag m w) = (if m = n then 7 else 19)"
| "t_rank lack wanted n (T_read m w) = (if m = n then 6 else 18)"
| "t_rank lack wanted n (T_free m w) = (if m = n then 5 else 17)"
| "t_rank lack wanted n (T_add m) = (if m = n then 4 else 16)"
| "t_rank lack wanted n (T_store m v) = (if m \<noteq> n then 15 else if lack then 12 else 3)"
| "t_rank lack wanted n (T_cast m) = (if m \<noteq> n then 14 else if lack then 11 else 2)"
| "t_rank lack wanted n (T_unlock m) = (if m \<noteq> n then 13 else if wanted then 10 else 1)"
| "t_rank lack wanted n T_pick = (if wanted then 9 else 0)"
| "t_rank lack wanted n t = 0"

text \<open>How far a supplier is from its end when the stores are closed.\<close>

fun quit_rank :: "supplier_pc \<Rightarrow> nat" where
  "quit_rank (T_free n w) = 12" | "quit_rank (T_add n) = 11" | "quit_rank (T_store n v) = 10"
| "quit_rank (T_cast n) = 9" | "quit_rank (T_unlock n) = 8" | "quit_rank T_pick = 7" | "quit_rank (T_lock n) = 6"
| "quit_rank (T_flag n w) = 5" | "quit_rank (T_read n w) = 4" | "quit_rank (T_quit n) = 3" | "quit_rank (T_leave n) = 2"
| "quit_rank t = 0"

definition join_goods :: "mall \<Rightarrow> nat \<Rightarrow> int" where
  "join_goods s k = due (b_at (buyer s k)) (supplier s 0) (goods s (b_at (buyer s k)))"

definition join_rank :: "mall \<Rightarrow> nat \<Rightarrow> nat" where
  "join_rank s k = t_rank (join_goods s k \<le> 0) (join_goods s k \<le> 0 \<or> buyer s k = B_blocked (b_at (buyer s k)))
     (b_at (buyer s k)) (supplier s 0)"

fun wants_left :: "mall_pc \<Rightarrow> mall \<Rightarrow> nat" where
  "wants_left (M_join k) s = nat (demand s k)" | "wants_left m s = 0"

fun buyer_left :: "mall_pc \<Rightarrow> mall \<Rightarrow> nat" where
  "buyer_left (M_join k) s = b_rank (goods s) (buyer s k)" | "buyer_left m s = 0"

fun goods_left :: "mall_pc \<Rightarrow> mall \<Rightarrow> nat" where
  "goods_left (M_join k) s = nat (1 - join_goods s k)" | "goods_left m s = 0"

fun round_left :: "mall_pc \<Rightarrow> mall \<Rightarrow> nat" where
  "round_left (M_join k) s = join_rank s k" | "round_left (M_reap i) s = quit_rank (supplier s i)"
| "round_left m s = 0"

definition nearer :: "(mall \<times> mall) set" where
  "nearer = measures [\<lambda>s. main_rank (main_pc s), \<lambda>s. wants_left (main_pc s) s, \<lambda>s. buyer_left (main_pc s) s,
     in_the_way, \<lambda>s. goods_left (main_pc s) s, \<lambda>s. round_left (main_pc s) s]"

lemma nearer_wf: "wf nearer"
  by (simp add: nearer_def)

text \<open>The ways in which a step brings the end nearer.\<close>

lemma nearer_main: "main_rank (main_pc t) < main_rank (main_pc s) \<Longrightarrow> (t, s) \<in> nearer"
  by (simp add: nearer_def)

lemma nearer_wants:
  "main_pc t = main_pc s \<Longrightarrow> wants_left (main_pc s) t < wants_left (main_pc s) s \<Longrightarrow> (t, s) \<in> nearer"
  by (simp add: nearer_def)

lemma nearer_buyer:
  "main_pc t = main_pc s \<Longrightarrow> demand t = demand s \<Longrightarrow>
   buyer_left (main_pc s) t < buyer_left (main_pc s) s \<Longrightarrow> (t, s) \<in> nearer"
  by (cases "main_pc s") (simp_all add: nearer_def)

lemma nearer_others:
  assumes "main_pc t = main_pc s" "wants_left (main_pc s) t = wants_left (main_pc s) s"
    "buyer_left (main_pc s) t \<le> buyer_left (main_pc s) s" "in_the_way t < in_the_way s"
  shows "(t, s) \<in> nearer"
  using assms by (auto simp: nearer_def)

lemma nearer_goods:
  assumes "main_pc t = main_pc s" "demand t = demand s"
    "buyer_left (main_pc s) t \<le> buyer_left (main_pc s) s" "in_the_way t = in_the_way s"
    "goods_left (main_pc s) t < goods_left (main_pc s) s \<or>
     goods_left (main_pc s) t = goods_left (main_pc s) s \<and> round_left (main_pc s) t < round_left (main_pc s) s"
  shows "(t, s) \<in> nearer"
proof -
  have "wants_left (main_pc s) t = wants_left (main_pc s) s" using assms(2) by (cases "main_pc s") simp_all
  then show ?thesis using assms by (auto simp: nearer_def)
qed

text \<open>The step also keeps a supplier from going to a store that is already full.\<close>

definition helps :: "mall \<Rightarrow> mall \<Rightarrow> bool" where
  "helps s t \<longleftrightarrow> mall_step Ed2 False False s t \<and> picks_empty s t \<and> (t, s) \<in> nearer"

lemma helps_customer:
  assumes b: "buyer_step Ed2 False c s t" and n: "(t, s) \<in> nearer"
  shows "helps s t"
proof -
  have "supplier s j = T_pick \<Longrightarrow> supplier t j = T_pick" for j
    using b by (cases rule: buyer_step.cases) (auto simp: wake_suppliers_def)
  then show ?thesis using n mall_step.customer [OF b] by (simp add: helps_def picks_empty_def)
qed

lemma helps_store:
  assumes b: "supplier_step Ed2 False i s t" and n: "(t, s) \<in> nearer"
    and p: "supplier s i \<noteq> T_pick \<or> \<not> stores_open s \<or> (\<forall>n. supplier t i = T_lock n \<longrightarrow>
       goods s n < 500 \<and> (\<forall>j v. supplier s j \<noteq> T_store n v) \<and> (\<forall>c v. buyer s c \<noteq> B_store n v))"
  shows "helps s t"
proof -
  have o: "supplier t j = supplier s j" if "j \<noteq> i" for j
    using b that by (cases rule: supplier_step.cases) auto
  have "j = i" if "supplier s j = T_pick" "supplier t j = T_lock n" for j n using o [of j] that by auto
  then have "picks_empty s t" using p unfolding picks_empty_def by blast
  then show ?thesis using n mall_step.store [OF b] by (simp add: helps_def)
qed

lemma helps_parent:
  assumes b: "parent_step Ed2 False s t" and n: "(t, s) \<in> nearer"
  shows "helps s t"
proof -
  have "supplier s j = T_pick \<Longrightarrow> supplier t j = T_pick" for j
    using b by (cases rule: parent_step.cases) (auto simp: wake_suppliers_def)
  then show ?thesis using n mall_step.parent [OF b] by (simp add: helps_def picks_empty_def)
qed

section \<open>The steps of the threads inside\<close>

lemma buyer_inside_moves: "0 < b_inside (buyer s c) \<Longrightarrow> \<exists>t. buyer_step Ed2 False c s t"
  by (cases "buyer s c") (auto intro: buyer_step.intros)

lemma buyer_inside_lowers:
  assumes "buyer_step ed sp c s t" "0 < b_inside (buyer s c)"
  shows "b_inside (buyer t c) < b_inside (buyer s c)" "d \<noteq> c \<Longrightarrow> buyer t d = buyer s d" "main_pc t = main_pc s"
    "d \<noteq> c \<Longrightarrow> demand t d = demand s d" "t_inside (supplier t j) = t_inside (supplier s j)"
  using assms
  by (cases rule: buyer_step.cases; auto simp: buyer_last_def wake_suppliers_def split: if_splits)+

text \<open>A supplier moves unless it waits for the mutex of the flag.\<close>

lemma supplier_inside_moves:
  assumes "0 < t_inside (supplier s j)" "(\<forall>n w. supplier s j \<noteq> T_flag n w) \<or> 0 < flag_mutex s"
  shows "\<exists>t. supplier_step Ed2 False j s t"
  using assms by (cases "supplier s j") (auto intro: supplier_step.intros)

lemma supplier_inside_lowers:
  assumes "supplier_step Ed2 sp j s t" "0 < t_inside (supplier s j)" "t_plain (supplier s j)"
  shows "t_inside (supplier t j) < t_inside (supplier s j)" "i \<noteq> j \<Longrightarrow> supplier t i = supplier s i"
    "main_pc t = main_pc s" "demand t = demand s" "buyer t c = buyer s c \<or> (\<exists>n. buyer s c = B_blocked n \<and> buyer t c = B_wake n)"
  using assms
  by (cases rule: supplier_step.cases;
      auto simp: supplier_last_def supplier_next_def wake_buyers_def split: if_splits)+

lemma sum_lower:
  fixes f g :: "'a \<Rightarrow> nat"
  assumes "finite A" "a \<in> A" "f a < g a" "\<And>x. x \<in> A \<Longrightarrow> x \<noteq> a \<Longrightarrow> f x = g x"
  shows "sum f A < sum g A"
proof -
  have "sum f (A - {a}) = sum g (A - {a})" using assms(4) by (intro sum.cong) auto
  then show ?thesis using assms(1-3) by (simp add: sum.remove [OF assms(1,2)])
qed

lemma b_wake_waits:
  assumes "b_waits b" "b' = b \<or> (\<exists>n. b = B_blocked n \<and> b' = B_wake n)"
  shows "b_rank g' b' \<le> b_rank g b" "b_waits b'"
  using assms by (cases b; auto)+

text \<open>While \<open>main\<close> joins a customer, he waits for the mutex or for the goods of his store.\<close>

definition joins_waiting :: "mall \<Rightarrow> bool" where
  "joins_waiting s \<longleftrightarrow> (\<forall>k. main_pc s = M_join k \<longrightarrow> b_waits (buyer s k))"

lemma other_buyer_helps:
  assumes w: "joins_waiting s" and c: "c \<in> other_buyers (main_pc s)" "0 < b_inside (buyer s c)"
  shows "\<exists>t. helps s t"
proof -
  obtain t where t: "buyer_step Ed2 False c s t" using buyer_inside_moves [OF c(2)] by blast
  note l = buyer_inside_lowers [OF t c(2)]
  obtain k where k: "main_pc s = M_join k" "c \<noteq> k" using c(1) by (cases "main_pc s") auto
  have "(\<Sum>c \<in> other_buyers (main_pc s). b_inside (buyer t c)) < (\<Sum>c \<in> other_buyers (main_pc s). b_inside (buyer s c))"
    by (rule sum_lower [OF _ c(1)]) (use l(1,2) in auto)
  moreover have "(\<Sum>j \<in> other_suppliers (main_pc s). t_inside (supplier t j)) =
      (\<Sum>j \<in> other_suppliers (main_pc s). t_inside (supplier s j))" using l(5) by simp
  ultimately have i: "in_the_way t < in_the_way s" unfolding in_the_way_def l(3) by simp
  have b: "buyer t k = buyer s k" using l(2) k(2) by simp
  have "b_rank (goods t) (buyer t k) \<le> b_rank (goods s) (buyer s k)"
    using b_wake_waits(1) [of "buyer s k" "buyer t k"] w k(1) b by (simp add: joins_waiting_def)
  then have "(t, s) \<in> nearer" using nearer_others [OF l(3) _ _ i] k l(4) [of k] by simp
  then show ?thesis using helps_customer [OF t] by blast
qed

lemma other_supplier_helps:
  assumes w: "joins_waiting s" and p: "t_plain (supplier s j)"
    and c: "j \<in> other_suppliers (main_pc s)" "0 < t_inside (supplier s j)"
    and f: "(\<forall>n w. supplier s j \<noteq> T_flag n w) \<or> 0 < flag_mutex s"
  shows "\<exists>t. helps s t"
proof -
  obtain t where t: "supplier_step Ed2 False j s t" using supplier_inside_moves [OF c(2) f] by blast
  note l = supplier_inside_lowers [OF t c(2) p]
  have "b_inside (buyer t c) = b_inside (buyer s c)" for c using l(5) [of c] by auto
  then have "(\<Sum>c \<in> other_buyers (main_pc s). b_inside (buyer t c)) = (\<Sum>c \<in> other_buyers (main_pc s). b_inside (buyer s c))"
    by simp
  moreover have "(\<Sum>j \<in> other_suppliers (main_pc s). t_inside (supplier t j)) <
      (\<Sum>j \<in> other_suppliers (main_pc s). t_inside (supplier s j))"
    by (rule sum_lower [OF _ c(1)]) (use l(1,2) in auto)
  ultimately have i: "in_the_way t < in_the_way s" unfolding in_the_way_def l(3) by simp
  have "buyer_left (main_pc s) t \<le> buyer_left (main_pc s) s" "wants_left (main_pc s) t = wants_left (main_pc s) s"
    using b_wake_waits(1) l(4,5) w by (cases "main_pc s"; simp add: joins_waiting_def)+
  then have "(t, s) \<in> nearer" using nearer_others [OF l(3) _ _ i] by simp
  moreover have "supplier s j \<noteq> T_pick" using c(2) by auto
  ultimately show ?thesis using helps_store [OF t] by blast
qed

section \<open>The customer that main joins\<close>

lemma joined_moves:
  assumes r: "mall_reach Ed2 sp er s" and m: "main_pc s = M_join k"
    and b: "\<not> b_waits (buyer s k)" "buyer s k \<noteq> B_none" "buyer s k \<noteq> B_exit"
  shows "\<exists>t. helps s t"
proof -
  have z: "0 < store_num" by (simp add: store_num_def)
  have "\<exists>t. buyer_step Ed2 False k s t \<and> (t, s) \<in> nearer"
  proof (cases "buyer s k")
    case B_head
    show ?thesis
    proof (cases "demand s k \<le> 0")
      case True
      then show ?thesis using buyer_step.satisfied [OF B_head, of Ed2 False] B_head m
        by (intro exI conjI) (assumption, rule nearer_buyer, simp_all)
    next
      case False
      then have "buyer_step Ed2 False k s (at_buyer k (B_lock 0) s)" using buyer_step.choose [OF B_head _ z] by simp
      then show ?thesis using B_head m
        by (intro exI conjI) (assumption, rule nearer_buyer, simp_all)
    qed
  next
    case (B_test n)
    show ?thesis
      by (intro exI conjI, rule buyer_step.test [OF B_test], rule nearer_buyer) (simp_all add: B_test m)
  next
    case (B_wait n)
    show ?thesis
      by (intro exI conjI, rule buyer_step.wait [OF B_wait], rule nearer_buyer) (simp_all add: B_wait m)
  next
    case (B_demand n)
    have d: "0 < demand s k" using wants_reach [OF r, of k] B_demand by simp
    show ?thesis
      by (intro exI conjI, rule buyer_step.take_demand [OF B_demand], rule nearer_wants)
        (use d in \<open>simp_all add: m bought_def\<close>)
  next
    case (B_goods n)
    show ?thesis
      by (intro exI conjI, rule buyer_step.take_goods [OF B_goods], rule nearer_buyer) (simp_all add: B_goods m)
  next
    case (B_store n v)
    show ?thesis
      by (intro exI conjI, rule buyer_step.store [OF B_store], rule nearer_buyer)
        (simp_all add: B_store m buyer_last_def)
  next
    case (B_cast n)
    show ?thesis
      by (intro exI conjI, rule buyer_step.cast [OF B_cast], rule nearer_buyer) (simp_all add: B_cast m)
  next
    case (B_unlock n)
    show ?thesis
      by (intro exI conjI, rule buyer_step.unlock [OF B_unlock], rule nearer_buyer) (simp_all add: B_unlock m)
  qed (use b in simp_all)
  then show ?thesis using helps_customer by blast
qed

text \<open>A step of supplier 0 brings him nearer to the customer that waits.\<close>

definition wanted :: "mall \<Rightarrow> nat \<Rightarrow> bool" where
  "wanted s k \<longleftrightarrow> join_goods s k \<le> 0 \<or> buyer s k = B_blocked (b_at (buyer s k))"

lemma zero_nearer:
  assumes m: "main_pc s = M_join k" and w: "b_waits (buyer s k)" and st: "supplier_step Ed2 False 0 s t"
    and o: "stores_open s" and p: "t_plain (supplier s 0)"
    and pick: "supplier s 0 = T_pick \<Longrightarrow> wanted s k \<and> supplier t 0 = T_lock (b_at (buyer s k))"
    and lock: "\<And>l. supplier s 0 = T_lock l \<Longrightarrow> wanted s k"
    and quit: "\<not> going (supplier s 0)"
  shows "(t, s) \<in> nearer"
proof -
  have f: "main_pc t = main_pc s" "demand t = demand s" by (rule store_frame [OF st])+
  have o1: "supplier t j = supplier s j" if "j \<noteq> 0" for j
    using st that by (cases rule: supplier_step.cases) auto
  have bt: "buyer t c = buyer s c \<or> (\<exists>n. buyer s c = B_blocked n \<and> buyer t c = B_wake n)" for c
    using st by (cases rule: supplier_step.cases) (auto simp: wake_buyers_def)
  have bi: "b_inside (buyer t c) = b_inside (buyer s c)" for c using bt [of c] by auto
  have i: "in_the_way t = in_the_way s" unfolding in_the_way_def f(1) m using o1 bi by simp
  have bl: "buyer_left (main_pc s) t \<le> buyer_left (main_pc s) s"
    using b_wake_waits(1) [OF w bt] m by simp
  show ?thesis
  proof (cases "buyer t k = buyer s k")
    case False
    then obtain n where "buyer s k = B_blocked n" "buyer t k = B_wake n" using bt [of k] by blast
    then show ?thesis using nearer_buyer [OF f] m by simp
  next
    case True
    define n where "n = b_at (buyer s k)"
    define blocked where "blocked \<longleftrightarrow> buyer s k = B_blocked n"
    have jg: "join_goods s k = due n (supplier s 0) (goods s n)" "join_goods t k = due n (supplier t 0) (goods t n)"
      using True by (simp_all add: join_goods_def n_def)
    have jr: "join_rank s k = t_rank (join_goods s k \<le> 0) (join_goods s k \<le> 0 \<or> blocked) n (supplier s 0)"
      "join_rank t k = t_rank (join_goods t k \<le> 0) (join_goods t k \<le> 0 \<or> blocked) n (supplier t 0)"
      using True by (simp_all add: join_rank_def n_def blocked_def)
    have wt: "wanted s k \<longleftrightarrow> join_goods s k \<le> 0 \<or> blocked" by (simp add: wanted_def n_def blocked_def)
    let ?g = "\<lambda>u. due n (supplier u 0) (goods u n)"
    let ?r = "\<lambda>u. t_rank (?g u \<le> 0) (?g u \<le> 0 \<or> blocked) n (supplier u 0)"
    have pick': "supplier s 0 = T_pick \<Longrightarrow> (goods s n \<le> 0 \<or> blocked) \<and> supplier t 0 = T_lock n"
      using pick by (auto simp: wt jg n_def [symmetric])
    have lock': "supplier s 0 = T_lock l \<Longrightarrow> goods s n \<le> 0 \<or> blocked" for l
      using lock [of l] by (auto simp: wt jg)
    have "?g s < ?g t \<and> ?g s \<le> 0 \<or> (?g t = ?g s \<or> 0 < ?g s \<and> 0 < ?g t) \<and> ?r t < ?r s"
      using st
    proof (cases rule: supplier_step.cases)
      case (cast l)
      have "\<not> (l = n \<and> 0 < goods s n \<and> blocked)" using cast True by (auto simp: blocked_def wake_buyers_def)
      then show ?thesis using cast by auto
    next
      case (choose l)
      then show ?thesis using pick' by auto
    next
      case (lock l)
      then show ?thesis using lock' [of l] by (auto simp: supplier_first_def)
    qed (use p o quit in \<open>auto simp: supplier_last_def supplier_next_def\<close>)
    then have "join_goods s k < join_goods t k \<and> join_goods s k \<le> 0 \<or>
        (join_goods t k = join_goods s k \<or> 0 < join_goods s k \<and> 0 < join_goods t k) \<and> join_rank t k < join_rank s k"
      unfolding jr jg .
    then have "goods_left (main_pc s) t < goods_left (main_pc s) s \<or>
     goods_left (main_pc s) t = goods_left (main_pc s) s \<and> round_left (main_pc s) t < round_left (main_pc s) s"
      using m by auto
    then show ?thesis using nearer_goods [OF f bl i] by blast
  qed
qed

section \<open>Who is in the way\<close>

lemma holder_inside:
  "t_holds x Flag \<Longrightarrow> 0 < t_inside x \<and> (\<forall>n w. x \<noteq> T_flag n w)"
  "t_holds x (Shelf n) \<Longrightarrow> t_plain x \<Longrightarrow> 0 < t_inside x"
  "b_holds b (Shelf n) \<Longrightarrow> 0 < b_inside b \<and> \<not> b_waits b"
proof -
  show "t_holds x Flag \<Longrightarrow> 0 < t_inside x \<and> (\<forall>n w. x \<noteq> T_flag n w)" by (cases x) auto
  show "t_holds x (Shelf n) \<Longrightarrow> t_plain x \<Longrightarrow> 0 < t_inside x" by (cases x) auto
  show "b_holds b (Shelf n) \<Longrightarrow> 0 < b_inside b \<and> \<not> b_waits b" by (cases b) auto
qed

lemma staffed_holder:
  assumes "mall_reach ed sp er s"
  shows "t_holds (supplier s h) l \<Longrightarrow> h < store_num" "b_holds (buyer s c) l \<Longrightarrow> c < customer_num"
  using staffed_reach [OF assms] unfolding staffed_def by (metis t_holds.simps(12) b_holds.simps(8) not_le le_trans)+

lemma flag_holder:
  assumes r: "mall_reach ed sp er s" and f: "flag_mutex s = 0" and m: "main_pc s \<noteq> M_close" "main_pc s \<noteq> M_unflag"
  obtains h where "h < store_num" "t_holds (supplier s h) Flag"
proof -
  have "mall_free s Flag = 0" using f by (simp add: mall_free_def)
  then obtain p where p: "mall_holds s p Flag" using mall.taken_is_held [OF r] by blast
  have nb: "\<not> b_holds b Flag" for b by (cases b) auto
  have nm: "\<not> m_holds (main_pc s) Flag" using m by (cases "main_pc s") auto
  show thesis
  proof (cases p)
    case (Supplier h)
    then show ?thesis using p staffed_holder(1) [OF r] that by simp
  qed (use p nb nm in simp_all)
qed

lemma shelf_holder:
  assumes r: "mall_reach Ed2 sp er s" and f: "mutex s n = 0"
  shows "(\<exists>c < customer_num. b_holds (buyer s c) (Shelf n)) \<or> (\<exists>j < store_num. t_holds (supplier s j) (Shelf n))"
proof -
  have "mall_free s (Shelf n) = 0" using f by (simp add: mall_free_def)
  then obtain p where p: "mall_holds s p (Shelf n)" using mall.taken_is_held [OF r] by blast
  have "\<not> shutting (main_pc s)" by (rule no_shut [OF r]) simp
  then have nm: "\<not> m_holds (main_pc s) (Shelf n)" by (cases "main_pc s") auto
  show ?thesis
  proof (cases p)
    case (Supplier h)
    then show ?thesis using p staffed_holder(1) [OF r] by auto
  next
    case (Buyer c)
    then show ?thesis using p staffed_holder(2) [OF r] by auto
  qed (use p nm in simp)
qed

definition others_inside :: "mall \<Rightarrow> bool" where
  "others_inside s \<longleftrightarrow> (\<exists>c \<in> other_buyers (main_pc s). 0 < b_inside (buyer s c)) \<or>
     (\<exists>j \<in> other_suppliers (main_pc s). 0 < t_inside (supplier s j))"

text \<open>A thread in the way helps, or it waits for the flag, which the supplier has that is not in the way.\<close>

lemma others_help:
  assumes r: "mall_reach Ed2 sp er s" and w: "joins_waiting s" and m: "main_pc s \<noteq> M_close" "main_pc s \<noteq> M_unflag"
    and o: "others_inside s"
  shows "(\<exists>t. helps s t) \<or>
    (\<exists>h < store_num. h \<notin> other_suppliers (main_pc s) \<and> t_holds (supplier s h) Flag)"
proof -
  have p: "t_plain (supplier s j)" for j by (rule plain_reach [OF r]) simp
  consider (b) c where "c \<in> other_buyers (main_pc s)" "0 < b_inside (buyer s c)"
    | (t) j where "j \<in> other_suppliers (main_pc s)" "0 < t_inside (supplier s j)" using o by (auto simp: others_inside_def)
  then show ?thesis
  proof cases
    case b
    then show ?thesis using other_buyer_helps [OF w] by blast
  next
    case t
    show ?thesis
    proof (cases "0 < flag_mutex s")
      case True
      then show ?thesis using other_supplier_helps [OF w p t] by blast
    next
      case False
      then obtain h where h: "h < store_num" "t_holds (supplier s h) Flag" using flag_holder [OF r _ m] by blast
      show ?thesis
      proof (cases "h \<in> other_suppliers (main_pc s)")
        case True
        have i: "0 < t_inside (supplier s h)" "\<forall>n w. supplier s h \<noteq> T_flag n w" using holder_inside(1) [OF h(2)] by simp_all
        show ?thesis by (rule disjI1, rule other_supplier_helps [OF w p True i(1)]) (rule disjI1 [OF i(2)])
      qed (use h in blast)
    qed
  qed
qed

section \<open>Somebody always helps\<close>

lemma joined_facts:
  assumes r: "mall_reach ed sp False s" and m: "main_pc s = M_join k"
  shows "stores_open s" "\<not> going (supplier s j)" "c < customer_num \<Longrightarrow> buyer s c \<noteq> B_none"
    "j < store_num \<Longrightarrow> supplier s j \<noteq> T_none"
  using ends_reach [OF r] staffed_reach [OF r] m by (auto simp: ends_inv_def staffed_def)

text \<open>Supplier 0 moves when he is inside, or when he is wanted and nobody else is in the way.\<close>

lemma zero_moves:
  assumes r: "mall_reach Ed2 sp False s" and m: "main_pc s = M_join k" and w: "b_waits (buyer s k)"
    and o: "\<not> others_inside s" and z: "wanted s k \<or> 0 < t_inside (supplier s 0)"
  shows "\<exists>t. helps s t"
proof -
  note f = joined_facts [OF r m]
  have p: "t_plain (supplier s j)" for j by (rule plain_reach [OF r]) simp
  have n0: "0 < store_num" by (simp add: store_num_def)
  have ob: "b_inside (buyer s c) = 0" if "c < customer_num" "c \<noteq> k" for c
    using o m that by (auto simp: others_inside_def)
  have os: "t_inside (supplier s j) = 0" if "j < store_num" "j \<noteq> 0" for j
    using o m that by (auto simp: others_inside_def)
  have sh: "0 < mutex s n \<or> t_holds (supplier s 0) (Shelf n)" for n
  proof (rule ccontr)
    assume a: "\<not> (0 < mutex s n \<or> t_holds (supplier s 0) (Shelf n))"
    then consider (b) c where "c < customer_num" "b_holds (buyer s c) (Shelf n)"
      | (t) j where "j < store_num" "t_holds (supplier s j) (Shelf n)" using shelf_holder [OF r, of n] by auto
    then show False
    proof cases
      case b
      then show ?thesis using holder_inside(3) [OF b(2)] ob [OF b(1)] w by (cases "c = k") auto
    next
      case t
      then show ?thesis using holder_inside(2) [OF t(2) p] os [OF t(1)] a by (cases "j = 0") auto
    qed
  qed
  have fl: "0 < flag_mutex s" if h: "\<not> t_holds (supplier s 0) Flag"
  proof (rule ccontr)
    assume "\<not> 0 < flag_mutex s"
    then obtain j where j: "j < store_num" "t_holds (supplier s j) Flag" using flag_holder [OF r] m by auto
    then show False using holder_inside(1) [OF j(2)] os [OF j(1)] h by (cases "j = 0") auto
  qed
  obtain t where t: "supplier_step Ed2 False 0 s t"
    "supplier s 0 = T_pick \<Longrightarrow> wanted s k \<and> supplier t 0 = T_lock (b_at (buyer s k))"
    "\<And>l. supplier s 0 = T_lock l \<Longrightarrow> wanted s k"
  proof (cases "supplier s 0")
    case T_pick
    then show ?thesis
      using that [OF supplier_step.choose [OF T_pick b_at_reach [OF r, of k]]] z by simp
  next
    case (T_lock l)
    then have "0 < mutex s l" using sh [of l] by auto
    then show ?thesis using that [OF supplier_step.lock [OF T_lock]] z T_lock by simp
  next
    case (T_flag n x)
    then have "0 < flag_mutex s" using fl by simp
    then show ?thesis using that [OF supplier_step.flag [OF T_flag]] T_flag by simp
  qed (use f(2,4) [of 0] n0 p [of 0] in \<open>auto intro: that supplier_step.intros\<close>)
  have n: "(t, s) \<in> nearer" by (rule zero_nearer [OF m w t(1) f(1) p t(2,3) f(2)])
  have "goods s n < 500 \<and> (\<forall>j v. supplier s j \<noteq> T_store n v) \<and> (\<forall>c v. buyer s c \<noteq> B_store n v)"
    if z: "supplier s 0 = T_pick" "supplier t 0 = T_lock n" for n
  proof -
    have b: "n = b_at (buyer s k)" "wanted s k" using t(2) z by simp_all
    have q: "t_inside (supplier s j) = 0" for j
      using os [of j] z(1) staffed_reach [OF r] m by (cases "j < store_num"; cases "j = 0") (auto simp: staffed_def)
    have c: "\<not> (\<exists>j. supplier s j = T_cast n)" using q by (metis t_inside.simps(6) zero_neq_numeral)
    have "goods s n < 500"
    proof (cases "join_goods s k \<le> 0")
      case True
      then show ?thesis using b(1) z(1) by (simp add: join_goods_def)
    next
      case False
      then have "buyer s k = B_blocked n" using b by (simp add: wanted_def)
      then show ?thesis using waits_lowD(2) [OF waits_low_reach [OF r]] c by (auto simp: nearly_empty_def)
    qed
    moreover have "supplier s j \<noteq> T_store n v" for j v using q [of j] by auto
    moreover have "buyer s c \<noteq> B_store n v" for c v
      using ob [of c] w staffed_reach [OF r] m by (cases "c < customer_num"; cases "c = k") (auto simp: staffed_def)
    ultimately show ?thesis by blast
  qed
  then show ?thesis using helps_store [OF t(1) n] by blast
qed

text \<open>While \<open>main\<close> joins a customer that is not at his end, somebody helps him.\<close>

lemma join_helps:
  assumes r: "mall_reach Ed2 sp False s" and m: "main_pc s = M_join k" and k: "k < customer_num" "buyer s k \<noteq> B_exit"
  shows "\<exists>t. helps s t"
proof (cases "b_waits (buyer s k)")
  case False
  then show ?thesis using joined_moves [OF r m] joined_facts(3) [OF r m k(1)] k(2) by blast
next
  case True
  note f = joined_facts [OF r m]
  have w: "joins_waiting s" using m True by (simp add: joins_waiting_def)
  have p: "t_plain (supplier s j)" for j by (rule plain_reach [OF r]) simp
  define n where "n = b_at (buyer s k)"
  show ?thesis
  proof (cases "others_inside s")
    case o: True
    show ?thesis
    proof (rule ccontr)
      assume a: "\<not> ?thesis"
      then obtain h where h: "h < store_num" "h \<notin> other_suppliers (main_pc s)" "t_holds (supplier s h) Flag"
        using others_help [OF r w _ _ o] m by auto
      then have h0: "t_holds (supplier s 0) Flag" using m by simp
      note i = holder_inside(1) [OF h0]
      then obtain t where t: "supplier_step Ed2 False 0 s t" using supplier_inside_moves by blast
      have "(t, s) \<in> nearer"
        by (rule zero_nearer [OF m True t f(1) p _ _ f(2)]) (use i in auto)
      then show False using a helps_store [OF t] i by (cases "supplier s 0") auto
    qed
  next
    case o: False
    show ?thesis
    proof (cases "wanted s k \<or> 0 < t_inside (supplier s 0)")
      case True
      then show ?thesis by (rule zero_moves [OF r m \<open>b_waits (buyer s k)\<close> o])
    next
      case z: False
      then have g: "0 < join_goods s k" "buyer s k \<noteq> B_blocked n" by (auto simp: wanted_def n_def)
      have d: "join_goods s k = goods s n"
        using z by (cases "supplier s 0") (auto simp: join_goods_def n_def)
      have "0 < mutex s n"
      proof (rule ccontr)
        assume "\<not> 0 < mutex s n"
        then consider (b) c where "c < customer_num" "b_holds (buyer s c) (Shelf n)"
          | (t) j where "j < store_num" "t_holds (supplier s j) (Shelf n)" using shelf_holder [OF r, of n] by auto
        then show False
        proof cases
          case b
          then show ?thesis using holder_inside(3) [OF b(2)] o m True by (cases "c = k") (auto simp: others_inside_def)
        next
          case t
          then show ?thesis using holder_inside(2) [OF t(2) p] o m z by (cases "j = 0") (auto simp: others_inside_def)
        qed
      qed
      moreover consider "buyer s k = B_lock n" | "buyer s k = B_wake n"
        using True g(2) by (cases "buyer s k") (auto simp: n_def)
      ultimately have "buyer_step Ed2 False k s (lock_store n (at_buyer k (B_test n) s))"
        using buyer_step.lock [of s k n Ed2 False] buyer_step.wake [of s k n Ed2 False] by (auto simp: buyer_first_def)
      moreover have "(lock_store n (at_buyer k (B_test n) s), s) \<in> nearer"
        by (rule nearer_buyer) (use m True g d in \<open>cases "buyer s k"; auto\<close>)+
      ultimately show ?thesis using helps_customer by blast
    qed
  qed
qed

text \<open>While \<open>main\<close> waits for supplier \<open>i\<close>, he goes to his end.\<close>

lemma shelf_or_supplier:
  assumes r: "mall_reach Ed2 sp False s" and b: "\<And>c. c < customer_num \<Longrightarrow> b_inside (buyer s c) = 0"
    and t: "\<And>j. j < store_num \<Longrightarrow> j \<noteq> i \<Longrightarrow> t_inside (supplier s j) = 0" and l: "\<not> t_holds (supplier s i) (Shelf n)"
  shows "0 < mutex s n"
proof (rule ccontr)
  have p: "t_plain (supplier s j)" for j by (rule plain_reach [OF r]) simp
  assume "\<not> 0 < mutex s n"
  then consider (b) c where "c < customer_num" "b_holds (buyer s c) (Shelf n)"
    | (t) j where "j < store_num" "t_holds (supplier s j) (Shelf n)" using shelf_holder [OF r, of n] by auto
  then show False
  proof cases
    case b
    then show ?thesis using holder_inside(3) [OF b(2)] assms(2) [OF b(1)] by simp
  next
    case t
    then show ?thesis using holder_inside(2) [OF t(2) p] assms(3) [OF t(1)] l by (cases "j = i") auto
  qed
qed

lemma reap_helps:
  assumes r: "mall_reach Ed2 sp False s" and m: "main_pc s = M_reap i" and i: "i < store_num" "supplier s i \<noteq> T_exit"
  shows "\<exists>t. helps s t"
proof -
  note e = ends_reach [OF r] and h = staffed_reach [OF r]
  have p: "t_plain (supplier s j)" for j by (rule plain_reach [OF r]) simp
  have n0: "0 < store_num" by (simp add: store_num_def)
  have cl: "\<not> stores_open s" and ti: "supplier s i \<noteq> T_none" using e h m i by (auto simp: ends_inv_def staffed_def)
  have be: "b_inside (buyer s c) = 0" if "c < customer_num" for c using e m that by (simp add: ends_inv_def)
  have w: "joins_waiting s" using m by (simp add: joins_waiting_def)
  have nearer_i: "(t, s) \<in> nearer" if st: "supplier_step Ed2 False i s t" for t
  proof -
    have f: "main_pc t = main_pc s" "demand t = demand s" by (rule store_frame [OF st])+
    have o1: "supplier t j = supplier s j" if "j \<noteq> i" for j
      using st that by (cases rule: supplier_step.cases) auto
    have "in_the_way t = in_the_way s" unfolding in_the_way_def f(1) m using o1 by simp
    moreover have "quit_rank (supplier t i) < quit_rank (supplier s i)"
      using st p [of i] cl
      by (cases rule: supplier_step.cases) (auto simp: supplier_first_def supplier_last_def supplier_next_def)
    ultimately show ?thesis using nearer_goods [OF f] m by simp
  qed
  show ?thesis
  proof (cases "others_inside s")
    case o: True
    show ?thesis
    proof (rule ccontr)
      assume a: "\<not> ?thesis"
      then obtain j where j: "j < store_num" "j \<notin> other_suppliers (main_pc s)" "t_holds (supplier s j) Flag"
        using others_help [OF r w _ _ o] m by auto
      then have "t_holds (supplier s i) Flag" using m by simp
      then obtain t where t: "supplier_step Ed2 False i s t"
        using supplier_inside_moves holder_inside(1) by blast
      show False using a helps_store [OF t nearer_i [OF t]] cl by blast
    qed
  next
    case False
    then have os: "t_inside (supplier s j) = 0" if "j < store_num" "j \<noteq> i" for j
      using m that by (auto simp: others_inside_def)
    have fl: "0 < flag_mutex s" if "\<not> t_holds (supplier s i) Flag"
    proof (rule ccontr)
      assume "\<not> 0 < flag_mutex s"
      then obtain j where j: "j < store_num" "t_holds (supplier s j) Flag" using flag_holder [OF r] m by auto
      then show False using holder_inside(1) [OF j(2)] os [OF j(1)] that by (cases "j = i") auto
    qed
    have sh: "0 < mutex s l" if "\<not> t_holds (supplier s i) (Shelf l)" for l
      by (rule shelf_or_supplier [where i = i, OF r]) (use be os that in auto)
    obtain t where t: "supplier_step Ed2 False i s t"
    proof (cases "supplier s i")
      case T_pick
      then show ?thesis using that [OF supplier_step.choose [OF T_pick n0]] by simp
    next
      case (T_lock l)
      then have "0 < mutex s l" using sh [of l] by auto
      then show ?thesis using that [OF supplier_step.lock [OF T_lock]] by simp
    next
      case (T_flag n x)
      then have "0 < flag_mutex s" using fl by simp
      then show ?thesis using that [OF supplier_step.flag [OF T_flag]] by simp
    qed (use i(2) ti p [of i] in \<open>auto intro: that supplier_step.intros\<close>)
    show ?thesis using helps_store [OF t nearer_i [OF t]] cl by blast
  qed
qed

lemma flag_helps:
  assumes r: "mall_reach Ed2 sp False s" and m: "main_pc s = M_flag"
  shows "\<exists>t. helps s t"
proof (cases "0 < flag_mutex s")
  case True
  show ?thesis
    by (intro exI, rule helps_parent, rule parent_step.flag [OF m True], rule nearer_main) (simp add: m)
next
  case False
  then obtain h where h: "h < store_num" "t_holds (supplier s h) Flag" using flag_holder [OF r] m by auto
  have w: "joins_waiting s" using m by (simp add: joins_waiting_def)
  have p: "t_plain (supplier s h)" by (rule plain_reach [OF r]) simp
  have i: "0 < t_inside (supplier s h)" "\<forall>n w. supplier s h \<noteq> T_flag n w" using holder_inside(1) [OF h(2)] by simp_all
  have o: "h \<in> other_suppliers (main_pc s)" using h(1) m by simp
  show ?thesis by (rule other_supplier_helps [OF w p o i(1)]) (rule disjI1 [OF i(2)])
qed

text \<open>A step of \<open>main\<close> alone brings the end nearer.\<close>

lemma parent_helps:
  assumes "parent_step Ed2 False s t" "main_rank (main_pc t) < main_rank (main_pc s)"
  shows "\<exists>t. helps s t"
  using helps_parent [OF assms(1)] nearer_main [OF assms(2)] by blast

lemma somebody_helps:
  assumes r: "mall_reach Ed2 sp False s" and o: "main_pc s \<noteq> M_over"
  shows "\<exists>t. helps s t"
proof (cases "main_pc s")
  case (M_hire k)
  have z: "(0 :: int) \<le> 0" "(0 :: int) < max_demand" by (simp_all add: max_demand_def)
  have "k \<le> customer_num" using staffed_reach [OF r] M_hire by (simp add: staffed_def)
  then consider "k < customer_num" | "k = customer_num" by linarith
  then show ?thesis
    using parent_helps [OF parent_step.hire [OF M_hire _ z]] parent_helps [OF parent_step.hired] M_hire
    by cases (simp_all add: customer_num_def)
next
  case (M_stock i)
  have z: "(0 :: int) \<le> 0" "(0 :: int) < min_supply" by (simp_all add: min_supply_def)
  have "i \<le> store_num" using staffed_reach [OF r] M_stock by (simp add: staffed_def)
  then consider "i < store_num" | "i = store_num" by linarith
  then show ?thesis
    using parent_helps [OF parent_step.stock [OF M_stock _ z]] parent_helps [OF parent_step.stocked] M_stock
    by cases (simp_all add: store_num_def)
next
  case (M_open i)
  have "i < store_num" using staffed_reach [OF r] M_open by (simp add: staffed_def)
  then show ?thesis using parent_helps [OF parent_step.opened [OF M_open]] M_open by (simp add: store_num_def)
next
  case (M_join k)
  have "k \<le> customer_num" using ends_reach [OF r] M_join by (simp add: ends_inv_def)
  then consider "k < customer_num" "buyer s k = B_exit" | "k < customer_num" "buyer s k \<noteq> B_exit" | "k = customer_num"
    by linarith
  then show ?thesis
  proof cases
    case 1
    then show ?thesis using parent_helps [OF parent_step.join [OF M_join]] M_join by (simp add: customer_num_def)
  next
    case 2
    then show ?thesis by (rule join_helps [OF r M_join])
  next
    case 3
    then show ?thesis using parent_helps [OF parent_step.joined] M_join by (simp add: customer_num_def)
  qed
next
  case M_flag
  then show ?thesis by (rule flag_helps [OF r])
next
  case M_close
  then show ?thesis using parent_helps [OF parent_step.close] by simp
next
  case M_unflag
  then show ?thesis using parent_helps [OF parent_step.unflag] by simp
next
  case (M_reap i)
  have "i \<le> store_num" using ends_reach [OF r] M_reap by (simp add: ends_inv_def)
  then consider "i < store_num" "supplier s i = T_exit" | "i < store_num" "supplier s i \<noteq> T_exit" | "i = store_num"
    by linarith
  then show ?thesis
  proof cases
    case 1
    then show ?thesis using parent_helps [OF parent_step.reap [OF M_reap]] M_reap by (simp add: store_num_def)
  next
    case 2
    then show ?thesis by (rule reap_helps [OF r M_reap])
  next
    case 3
    then show ?thesis using parent_helps [OF parent_step.reaped] M_reap by (simp add: store_num_def)
  qed
qed (use o no_shut [OF r] never_undefined [OF r] in simp_all)

lemma calm_buyer: "buyer_step ed False c s t \<Longrightarrow> buyer_step ed sp c s t"
proof (induction rule: buyer_step.induct)
qed (rule buyer_step.intros; assumption | simp)+

lemma calm_supplier: "supplier_step ed False i s t \<Longrightarrow> supplier_step ed sp i s t"
proof (induction rule: supplier_step.induct)
qed (rule supplier_step.intros; assumption | simp)+

lemma calm_step: "mall_step ed False er s t \<Longrightarrow> mall_step ed sp er s t"
  by (induction rule: mall_step.induct) (blast intro: mall_step.intros calm_buyer calm_supplier)+

text \<open>A step that helps keeps every store within the numbers of an \<open>int\<close>.\<close>

lemma helps_roomy:
  assumes r: "mall_reach Ed2 sp False s" and h: "helps s t" and m: "roomy G s" "2000 \<le> G"
  shows "roomy G t"
proof -
  have e: "picks_empty s t" and q: "mall_step Ed2 False False s t" using h by (simp_all add: helps_def)
  from q show ?thesis
  proof (cases rule: mall_step.cases)
    case (customer c)
    then show ?thesis by (rule roomy_buyer [OF _ m(1)])
  next
    case (store i)
    then have "supplier s i \<noteq> T_none" by (auto elim: supplier_step.cases)
    then have "i < store_num" using staffed_reach [OF r] unfolding staffed_def by (meson le_trans not_less)
    then show ?thesis using roomy_supplier [OF store m _ plain_reach [OF r] e] by simp
  next
    case parent
    then show ?thesis by (rule roomy_parent [OF _ m])
  qed
qed

lemma roomy_within:
  assumes "mall_reach Ed2 sp er s" "roomy G s"
  shows "stores_within G s"
  unfolding stores_within_def
proof (intro allI conjI)
  fix n
  show "- 500 \<le> goods s n" using floor_reach [OF assms(1)] by (simp add: floor_inv_def)
  show "goods s n \<le> G" using roomyD(1) [OF assms(2), of n] by (smt (verit) of_nat_0_le_iff)
qed

text \<open>
  C12: In the second edition of the store program, take any state that the threads can reach in any order, with waits
  that wake up by themselves or not, as long as no \<open>pthread_create\<close> fails and no store has got more than
  \<open>INT_MAX - 2000\<close> goods. From there the threads have a run, without any wait that wakes up by itself
  and without an \<open>int\<close> that overflows, in which \<open>main\<close> comes to its end and every customer has got what he wanted:
  no customer is left for ever at an empty store, since the supplier that fills it wakes him.
\<close>

theorem customers_can_finish:
  assumes "reach (\<lambda>s. s = mall_start) (mall_run (2147483647 - 2000) sp) s"
  shows "\<exists>t. (mall_run 2147483647 False)\<^sup>*\<^sup>* s t \<and> main_pc t = M_over \<and> (\<forall>c < customer_num. demand t c \<le> 0)"
proof -
  let ?I = "\<lambda>s. mall_reach Ed2 sp False s \<and> roomy 2147483647 s"
  have "\<exists>t. (mall_run 2147483647 False)\<^sup>*\<^sup>* s t \<and> main_pc t = M_over \<and> ?I t"
  proof (rule helpful_steps [OF nearer_wf, where I = ?I and goal = "\<lambda>s. main_pc s = M_over"])
    show "?I s" using run_reach [OF assms] room_reach [OF assms] by simp
  next
    fix u
    assume u: "?I u" "main_pc u \<noteq> M_over"
    obtain t where t: "helps u t" using somebody_helps [OF conjunct1 [OF u(1)] u(2)] by blast
    then have st: "mall_step Ed2 False False u t" "(t, u) \<in> nearer" by (simp_all add: helps_def)
    have i: "mall_reach Ed2 sp False t" by (rule reach_step [OF conjunct1 [OF u(1)] calm_step [OF st(1)]])
    have m: "roomy 2147483647 t" using helps_roomy [OF conjunct1 [OF u(1)] t conjunct2 [OF u(1)]] by simp
    show "\<exists>t. mall_run 2147483647 False u t \<and> ?I t \<and> (t, u) \<in> nearer"
      by (intro exI [of _ t] conjI st i m roomy_within [OF i m])
  qed
  then obtain t where t: "(mall_run 2147483647 False)\<^sup>*\<^sup>* s t" "main_pc t = M_over" "mall_reach Ed2 sp False t"
    by blast
  show ?thesis by (intro exI [of _ t] conjI t conjunct1 [OF customers_satisfied [OF t(3,2)]])
qed

theorem customers_can_finish_witness:
  "\<exists>t. (mall_run 2147483647 False)\<^sup>*\<^sup>* mall_start t \<and> main_pc t = M_over \<and> demand t 0 \<le> 0"
  using customers_can_finish [OF reach_start, of mall_start] by (auto simp: customer_num_def)

end
