(* ===== verification/Shm_Files.thy ===== *)
theory Shm_Files
  imports Disk_File Getopt
begin

text \<open>
  LAB_16/task_system_v_shmem_1 and task_posix_shmem_1: a writer that puts a file into an object of
  shared memory, and a reader that prints it and removes the object. One program runs after the
  other; the command line of all shared memory programs is here too.
\<close>

section \<open>The command line\<close>

record shm_opts =
  key_name :: "string option"
  data_file :: "string option"
  seg_size :: nat

definition no_shm_opts :: shm_opts where
  "no_shm_opts = \<lparr>key_name = None, data_file = None, seg_size = 0\<rparr>"

text \<open>
  \<open>nm\<close> is the letter of the name option, \<open>m\<close> or \<open>n\<close>; \<open>size_max\<close> bounds the argument of \<open>-s\<close>. \<open>Inl b\<close> is
  the label \<open>print\<close>, where \<open>b\<close> says that \<open>ret\<close> is \<open>EXIT_FAILURE\<close>.
\<close>

fun shm_options :: "char \<Rightarrow> int \<Rightarrow> opt_call list \<Rightarrow> shm_opts \<Rightarrow> bool + shm_opts" where
  "shm_options nm size_max [] st = Inr st"
| "shm_options nm size_max (Opt_arg c optarg # es) st =
     (if c \<noteq> nm \<and> c \<noteq> CHR ''o'' \<and> c \<noteq> CHR ''s'' \<or> options_bundled c (Some optarg) then Inl False
      else if c = nm then shm_options nm size_max es (st\<lparr>key_name := Some optarg\<rparr>)
      else if c = CHR ''o'' then shm_options nm size_max es (st\<lparr>data_file := Some optarg\<rparr>)
      else let (size, range) = strtol optarg in
        if range then Inl True
        else if size \<le> 0 \<or> size_max < size then Inl False
        else shm_options nm size_max es (st\<lparr>seg_size := nat size\<rparr>))"
| "shm_options nm size_max (Opt_flag c # es) st = Inl False"
| "shm_options nm size_max (Opt_missing c # es) st = Inl False"
| "shm_options nm size_max (Opt_unknown c # es) st = Inl False"

section \<open>Objects of shared memory\<close>

text \<open>
  Which calls succeed. \<open>opens\<close> is \<open>shmget\<close> or \<open>shm_open\<close>, where it does not fail for want of the object
  or its size; \<open>sizes\<close> is \<open>shmctl(IPC_STAT)\<close>, \<open>fstat\<close> or \<open>ftruncate\<close>, \<open>attaches\<close> and \<open>detaches\<close> are
  \<open>shmat\<close>/\<open>mmap\<close> and \<open>shmdt\<close>/\<open>munmap\<close>, \<open>removes\<close> is \<open>shmctl(IPC_RMID)\<close> or \<open>shm_unlink\<close>.
\<close>

record shm_env =
  page_size :: int
  opens :: bool
  sizes :: bool
  attaches :: bool
  detaches :: bool
  removes :: bool
  allocates :: bool

text \<open>The objects under their keys or names, what is printed of the payload, and the exit status.\<close>

record 'k shm_end =
  objects :: "'k \<Rightarrow> bytes option"
  shown :: "string option"
  failed :: bool

definition shm_stop :: "('k \<Rightarrow> bytes option) \<Rightarrow> bool \<Rightarrow> 'k shm_end run" where
  "shm_stop objs b = Done \<lparr>objects = objs, shown = None, failed = b\<rparr>"

text \<open>\<open>shmget\<close> with \<open>IPC_CREAT\<close>: an existing segment keeps its size, which must be large enough.\<close>

definition shmget_create :: "nat \<Rightarrow> bytes option \<Rightarrow> bytes option" where
  "shmget_create n seg =
     (case seg of None \<Rightarrow> Some (zeros n) | Some b \<Rightarrow> if n \<le> length b then Some b else None)"

text \<open>\<open>shm_open\<close> with \<open>O_CREAT\<close> makes an empty object, \<open>ftruncate\<close> gives it its size.\<close>

definition ftruncate :: "nat \<Rightarrow> bytes \<Rightarrow> bytes" where
  "ftruncate n b = take n b @ zeros (n - length b)"

definition shm_open_create :: "bytes option \<Rightarrow> bytes" where
  "shm_open_create obj = (case obj of None \<Rightarrow> [] | Some b \<Rightarrow> b)"

definition posix_create :: "nat \<Rightarrow> bytes option \<Rightarrow> bytes option" where
  "posix_create n obj = Some (ftruncate n (shm_open_create obj))"

text \<open>What both kinds of objects promise.\<close>

locale shared_object =
  fixes create :: "nat \<Rightarrow> bytes option \<Rightarrow> bytes option"
  assumes create_new: "create n None = Some (zeros n)"
    and create_length: "create n obj = Some b \<Longrightarrow> n \<le> length b"
begin

lemma put_string:
  assumes "create n obj = Some b" "length s < n"
  shows "\<exists>b'. blit 0 (s @ [NUL]) b = Done b' \<and> cstr b' = cstr s \<and> NUL \<in> set b'"
proof -
  have "length s + 1 \<le> length b" using create_length [OF assms(1)] assms(2) by simp
  then have "blit 0 (s @ [NUL]) b = Done (s @ NUL # drop (length s + 1) b)" by simp
  moreover have "cstr (s @ NUL # r) = cstr s" for r by (induction s) (simp_all add: cstr_def)
  ultimately show ?thesis by auto
qed

lemma put_bytes_new:
  assumes "length s < n"
  shows "\<exists>b b'. create n None = Some b \<and> blit 0 s b = Done b' \<and> cstr b' = cstr s \<and> NUL \<in> set b'"
proof -
  have "blit 0 s (zeros n) = Done (s @ zeros (n - length s))"
    using assms by (simp add: zeros_def)
  moreover have "NUL \<in> set (s @ zeros (n - length s))" using assms by (simp add: zeros_def)
  ultimately show ?thesis using create_new by auto
qed

end

lemma length_ftruncate [simp]: "length (ftruncate n b) = n"
  by (simp add: ftruncate_def)

interpretation sysv_shm: shared_object shmget_create
  by unfold_locales (auto simp: shmget_create_def split: option.splits if_splits)

interpretation posix_shm: shared_object posix_create
  by unfold_locales (auto simp: posix_create_def shm_open_create_def ftruncate_def)

section \<open>System V\<close>

definition key_file :: "shm_opts \<Rightarrow> string" where
  "key_file st = (case key_name st of None \<Rightarrow> ''/proc/meminfo'' | Some s \<Rightarrow> s)"

text \<open>
  \<open>fs\<close> are the files by their paths; \<open>ftok\<close> gives the key of a path. \<open>payload_ok\<close> are the checks of the
  size of the file against \<open>SHMMIN\<close> and four pages.
\<close>

definition payload_ok :: "shm_env \<Rightarrow> disk_file \<Rightarrow> bool" where
  "payload_ok env f \<longleftrightarrow> 0 \<le> page_size env \<and> 1 \<le> st_size f \<and> int (st_size f) \<le> page_size env * 4"

definition sysv_writer :: "shm_env \<Rightarrow> (string \<Rightarrow> disk_file option) \<Rightarrow> (string \<Rightarrow> 'k option) \<Rightarrow> string list \<Rightarrow>
    ('k \<Rightarrow> bytes option) \<Rightarrow> 'k shm_end run" where
  "sysv_writer env fs ftok args objs =
     (case shm_options (CHR ''m'') 0 (getopt ''mo'' ''h'' args) no_shm_opts of
        Inl b \<Rightarrow> shm_stop objs b
      | Inr st \<Rightarrow>
     (case data_file st of
        None \<Rightarrow> shm_stop objs False
      | Some path \<Rightarrow>
     if fs (key_file st) = None then shm_stop objs True else
     (case fs path of
        None \<Rightarrow> shm_stop objs True
      | Some f \<Rightarrow>
     if st_mode f \<noteq> S_IFREG then shm_stop objs False
     else if \<not> payload_ok env f then shm_stop objs True
     else if \<not> allocates env \<or> \<not> can_open f \<or> \<not> can_read f 0 then shm_stop objs True
     else
     let nbytes = min (st_size f) (length (contents f));
         payload = take nbytes (contents f) @ zeros (st_size f + 1 - nbytes) in
     (case ftok (key_file st) of
        None \<Rightarrow> shm_stop objs True
      | Some key \<Rightarrow>
     if \<not> opens env then shm_stop objs True else
     (case shmget_create (st_size f + 1) (objs key) of
        None \<Rightarrow> shm_stop objs True
      | Some seg \<Rightarrow>
     if \<not> attaches env then shm_stop (objs(key \<mapsto> seg)) True
     else bind_run (blit 0 (take (nbytes + 1) payload) seg) (\<lambda>memseg.
       shm_stop (objs(key \<mapsto> memseg)) (\<not> detaches env)))))))"

text \<open>The failure of \<open>shmget\<close> leaves \<open>ret\<close> at the 0 of \<open>stat\<close>.\<close>

definition sysv_reader :: "shm_env \<Rightarrow> (string \<Rightarrow> disk_file option) \<Rightarrow> (string \<Rightarrow> 'k option) \<Rightarrow> string list \<Rightarrow>
    ('k \<Rightarrow> bytes option) \<Rightarrow> 'k shm_end run" where
  "sysv_reader env fs ftok args objs =
     (case shm_options (CHR ''m'') 0 (getopt ''m'' ''h'' args) no_shm_opts of
        Inl b \<Rightarrow> shm_stop objs b
      | Inr st \<Rightarrow>
     if fs (key_file st) = None then shm_stop objs True else
     (case ftok (key_file st) of
        None \<Rightarrow> shm_stop objs True
      | Some key \<Rightarrow>
     (case if opens env then objs key else None of
        None \<Rightarrow> shm_stop objs False
      | Some memseg \<Rightarrow>
     if \<not> sizes env \<or> \<not> allocates env \<or> \<not> attaches env then shm_stop objs True
     else Done \<lparr>objects = (if detaches env \<and> removes env then objs(key := None) else objs),
       shown = Some (cstr (memseg @ [NUL])), failed = \<not> detaches env \<or> \<not> removes env\<rparr>)))"

section \<open>POSIX\<close>

definition shm_name :: "shm_opts \<Rightarrow> string" where
  "shm_name st = (case key_name st of None \<Rightarrow> ''/shm_object'' | Some s \<Rightarrow> s)"

definition posix_writer :: "shm_env \<Rightarrow> (string \<Rightarrow> disk_file option) \<Rightarrow> string list \<Rightarrow>
    (string \<Rightarrow> bytes option) \<Rightarrow> string shm_end run" where
  "posix_writer env fs args objs =
     (case shm_options (CHR ''n'') 0 (getopt ''hno'' '''' args) no_shm_opts of
        Inl b \<Rightarrow> shm_stop objs b
      | Inr st \<Rightarrow>
     (case data_file st of
        None \<Rightarrow> shm_stop objs False
      | Some path \<Rightarrow>
     (case fs path of
        None \<Rightarrow> shm_stop objs True
      | Some f \<Rightarrow>
     if st_mode f \<noteq> S_IFREG then shm_stop objs False
     else if \<not> payload_ok env f then shm_stop objs True
     else if \<not> allocates env \<or> \<not> can_open f \<or> \<not> can_read f 0 then shm_stop objs True
     else
     let payload = take (st_size f) (contents f); name = shm_name st in
     if \<not> opens env then shm_stop objs True else
     let obj = shm_open_create (objs name) in
     if \<not> sizes env then shm_stop (objs(name \<mapsto> obj)) True else
     let seg = ftruncate (length payload + 1) obj in
     if \<not> attaches env then shm_stop (objs(name \<mapsto> seg)) True
     else bind_run (blit 0 payload seg) (\<lambda>memseg.
       shm_stop (objs(name \<mapsto> memseg)) (\<not> detaches env)))))"

text \<open>
  A string that fills a mapping to the end of its last page runs into memory that is not mapped;
  otherwise the rest of the page is zero. \<open>mmap\<close> refuses an empty object.
\<close>

definition posix_reader :: "shm_env \<Rightarrow> string list \<Rightarrow> (string \<Rightarrow> bytes option) \<Rightarrow> string shm_end run" where
  "posix_reader env args objs =
     (case shm_options (CHR ''n'') 0 (getopt ''n'' ''h'' args) no_shm_opts of
        Inl b \<Rightarrow> shm_stop objs b
      | Inr st \<Rightarrow>
     (case if opens env then objs (shm_name st) else None of
        None \<Rightarrow> shm_stop objs True
      | Some memseg \<Rightarrow>
     if \<not> sizes env \<or> memseg = [] \<or> \<not> attaches env then shm_stop objs True
     else if NUL \<notin> set memseg \<and> int (length memseg) mod page_size env = 0 then Fault OutOfBounds
     else Done \<lparr>objects = (if detaches env \<and> removes env then objs(shm_name st := None) else objs),
       shown = Some (cstr memseg), failed = \<not> detaches env \<or> \<not> removes env\<rparr>))"

section \<open>What the reader prints\<close>

definition calls_ok :: "shm_env \<Rightarrow> bool" where
  "calls_ok env \<longleftrightarrow> opens env \<and> sizes env \<and> attaches env \<and> detaches env \<and> removes env \<and> allocates env"

definition file_ok :: "shm_env \<Rightarrow> disk_file \<Rightarrow> bool" where
  "file_ok env f \<longleftrightarrow> st_mode f = S_IFREG \<and> payload_ok env f \<and> can_open f \<and> can_read f 0"

definition word_ok :: "string \<Rightarrow> bool" where
  "word_ok w \<longleftrightarrow> w = [] \<or> hd w \<noteq> CHR ''-''"

lemma word_not_bundled: "word_ok w \<Longrightarrow> \<not> options_bundled c (Some w)"
  by (simp add: word_ok_def options_bundled_def)

lemma shm_two_options:
  assumes "word_ok k" "word_ok path" "c \<in> set a" "CHR ''o'' \<in> set a" "c \<noteq> CHR ''-''" "c \<noteq> CHR ''o''"
  shows "shm_options c n (getopt a f [[CHR ''-'', c], k, ''-o'', path]) no_shm_opts =
    Inr \<lparr>key_name = Some k, data_file = Some path, seg_size = 0\<rparr>"
  using assms getopt_arg [where c = "CHR ''o''" and a = a and f = f and w = path and ws = "[]"]
  by (simp add: getopt_arg word_not_bundled no_shm_opts_def)

lemma shm_one_option:
  assumes "word_ok k" "c \<in> set a" "c \<noteq> CHR ''-''"
  shows "shm_options c n (getopt a f [[CHR ''-'', c], k]) no_shm_opts =
    Inr \<lparr>key_name = Some k, data_file = None, seg_size = 0\<rparr>"
  using assms getopt_arg [where c = c and a = a and f = f and w = k and ws = "[]"] by (simp add: word_not_bundled no_shm_opts_def)

text \<open>
  The System V reader prints the file up to its first zero byte, also when the segment is an old and
  longer one, and removes the segment.
\<close>

theorem sysv_shm_roundtrip:
  assumes "calls_ok env" "file_ok env f" "word_ok k" "word_ok path"
    and "fs k \<noteq> None" "fs path = Some f" "ftok k = Some key"
    and "case objs key of None \<Rightarrow> True | Some b \<Rightarrow> st_size f + 1 \<le> length b"
  shows "\<exists>e. sysv_writer env fs ftok [''-m'', k, ''-o'', path] objs = Done e \<and> \<not> failed e \<and>
    sysv_reader env fs ftok [''-m'', k] (objects e) =
      Done \<lparr>objects = objs(key := None), shown = Some (cstr (take (st_size f) (contents f))), failed = False\<rparr>"
proof -
  define n where "n = min (st_size f) (length (contents f))"
  define s where "s = take n (contents f)"
  have l: "length s = n" "n \<le> st_size f" "s = take (st_size f) (contents f)"
    by (simp_all add: s_def n_def min_def)
  have mn: "min (length (contents f)) n = n" by (simp add: n_def)
  obtain seg where seg: "shmget_create (st_size f + 1) (objs key) = Some seg"
    using assms(8) by (cases "objs key") (auto simp: shmget_create_def)
  have p: "take (n + 1) (s @ zeros (st_size f + 1 - n)) = s @ [NUL]"
  proof -
    have "zeros (st_size f + 1 - n) = NUL # zeros (st_size f - n)" using l(2) by (simp add: zeros_def Suc_diff_le)
    then show ?thesis using l(1) by (simp del: Suc_eq_plus1)
  qed
  obtain b where b: "blit 0 (s @ [NUL]) seg = Done b" "cstr b = cstr s" "NUL \<in> set b"
    using sysv_shm.put_string [OF seg, of s] l by auto
  have w: "sysv_writer env fs ftok [''-m'', k, ''-o'', path] objs =
      Done \<lparr>objects = objs(key \<mapsto> b), shown = None, failed = False\<rparr>"
    using assms(1,2,5-7) seg b(1) p l(1) mn
    by (simp add: sysv_writer_def shm_two_options [OF assms(3,4)] key_file_def calls_ok_def file_ok_def
        shm_stop_def Let_def n_def [symmetric] s_def [symmetric])
  have r: "sysv_reader env fs ftok [''-m'', k] (objs(key \<mapsto> b)) =
      Done \<lparr>objects = objs(key := None), shown = Some (cstr s), failed = False\<rparr>"
    using assms(1,5,7) b(2)
    by (auto simp: sysv_reader_def shm_one_option [OF assms(3)] key_file_def calls_ok_def cstr_snoc_NUL)
  show ?thesis using w r l(3) by simp
qed

text \<open>A missing segment is reported, but the reader exits with a success.\<close>

theorem sysv_reader_missing:
  assumes "word_ok k" "fs k \<noteq> None" "ftok k = Some key" "objs key = None"
  shows "sysv_reader env fs ftok [''-m'', k] objs = Done \<lparr>objects = objs, shown = None, failed = False\<rparr>"
  using assms by (auto simp: sysv_reader_def shm_one_option key_file_def shm_stop_def)

lemma posix_written:
  assumes "calls_ok env" "file_ok env f" "word_ok k" "word_ok path" "fs path = Some f"
    and s: "s = take (st_size f) (contents f)"
  shows "posix_writer env fs [''-n'', k, ''-o'', path] objs =
    Done \<lparr>objects = objs(k \<mapsto> s @ drop (length s) (ftruncate (length s + 1) (shm_open_create (objs k)))),
      shown = None, failed = False\<rparr>"
  using assms(1,2,5)
  by (simp add: posix_writer_def shm_two_options [OF assms(3,4)] shm_name_def calls_ok_def file_ok_def
      shm_stop_def Let_def s [symmetric])

lemma posix_read:
  assumes "calls_ok env" "word_ok k" "objs k = Some b" "b \<noteq> []"
    and "NUL \<in> set b \<or> int (length b) mod page_size env \<noteq> 0"
  shows "posix_reader env [''-n'', k] objs =
    Done \<lparr>objects = objs(k := None), shown = Some (cstr b), failed = False\<rparr>"
  using assms by (auto simp: posix_reader_def shm_one_option shm_name_def calls_ok_def)

text \<open>The POSIX reader prints the file when the object was new, and removes the object.\<close>

theorem posix_shm_roundtrip:
  assumes "calls_ok env" "file_ok env f" "word_ok k" "word_ok path" "fs path = Some f" "objs k = None"
  shows "\<exists>e. posix_writer env fs [''-n'', k, ''-o'', path] objs = Done e \<and> \<not> failed e \<and>
    posix_reader env [''-n'', k] (objects e) =
      Done \<lparr>objects = objs, shown = Some (cstr (take (st_size f) (contents f))), failed = False\<rparr>"
proof -
  define s where "s = take (st_size f) (contents f)"
  have d: "drop (length s) (ftruncate (length s + 1) (shm_open_create (objs k))) = [NUL]"
    using assms(6) by (simp add: ftruncate_def shm_open_create_def zeros_def replicate_append_same [symmetric])
  have r: "posix_reader env [''-n'', k] (objs(k \<mapsto> s @ [NUL])) =
      Done \<lparr>objects = objs, shown = Some (cstr s), failed = False\<rparr>"
    using posix_read [OF assms(1,3), of "objs(k \<mapsto> s @ [NUL])" "s @ [NUL]"] assms(6)
    by (simp add: cstr_snoc_NUL fun_upd_idem)
  have w: "posix_writer env fs [''-n'', k, ''-o'', path] objs =
      Done \<lparr>objects = objs(k \<mapsto> s @ [NUL]), shown = None, failed = False\<rparr>"
    using posix_written [of env f k path fs s objs] assms(1-5) s_def d by simp
  show ?thesis unfolding s_def [symmetric] w using r by simp
qed

text \<open>
  Over an object that is longer than the file, the POSIX writer leaves the byte behind the file as
  it was: the reader prints it too, or runs off the end of the mapping.
\<close>

theorem posix_shm_stale:
  assumes "calls_ok env" "file_ok env f" "word_ok k" "word_ok path" "fs path = Some f"
    and s: "s = take (st_size f) (contents f)" "NUL \<notin> set s"
    and old: "objs k = Some b" "length s < length b" "b ! length s \<noteq> NUL"
  shows "\<exists>e. posix_writer env fs [''-n'', k, ''-o'', path] objs = Done e \<and> \<not> failed e \<and>
    posix_reader env [''-n'', k] (objects e) =
      (if int (length s + 1) mod page_size env = 0 then Fault OutOfBounds
       else Done \<lparr>objects = objs(k := None), shown = Some (s @ [b ! length s]), failed = False\<rparr>)"
proof -
  have d: "drop (length s) (ftruncate (length s + 1) (shm_open_create (objs k))) = [b ! length s]"
    using old by (simp add: ftruncate_def shm_open_create_def zeros_def take_Suc_conv_app_nth)
  have w: "posix_writer env fs [''-n'', k, ''-o'', path] objs =
      Done \<lparr>objects = objs(k \<mapsto> s @ [b ! length s]), shown = None, failed = False\<rparr>"
    using posix_written [of env f k path fs s objs] assms(1-6) d by simp
  have c: "cstr (s @ [b ! length s]) = s @ [b ! length s]" "NUL \<notin> set (s @ [b ! length s])"
    using s(2) old(3) by (auto intro: cstr_id)
  have "posix_reader env [''-n'', k] (objs(k \<mapsto> s @ [b ! length s])) =
      (if int (length s + 1) mod page_size env = 0 then Fault OutOfBounds
       else Done \<lparr>objects = objs(k := None), shown = Some (s @ [b ! length s]), failed = False\<rparr>)"
  proof (cases "int (length s + 1) mod page_size env = 0")
    case True
    then show ?thesis using assms(1) c(2)
      by (simp add: posix_reader_def shm_one_option [OF assms(3)] shm_name_def calls_ok_def)
  next
    case False
    then show ?thesis
      using posix_read [OF assms(1,3), of "objs(k \<mapsto> s @ [b ! length s])" "s @ [b ! length s]"] c(1) by simp
  qed
  then show ?thesis using w by simp
qed

section \<open>Instances\<close>

definition env_4k :: shm_env where
  "env_4k = \<lparr>page_size = 4096, opens = True, sizes = True, attaches = True, detaches = True,
     removes = True, allocates = True\<rparr>"

definition disk_of :: "bytes \<Rightarrow> disk_file" where
  "disk_of b = \<lparr>st_mode = S_IFREG, st_size = length b, contents = b, can_open = True, can_read = (\<lambda>k. True)\<rparr>"

lemma sample_shm:
  "calls_ok env_4k" "file_ok env_4k (disk_of ''Hi'')" "word_ok ''/o''" "word_ok ''msg''"
  by (simp_all add: calls_ok_def file_ok_def word_ok_def env_4k_def disk_of_def payload_ok_def)

theorem sysv_shm_roundtrip_witness:
  "\<exists>e. sysv_writer env_4k [''/o'' \<mapsto> disk_of [], ''msg'' \<mapsto> disk_of ''Hi''] (\<lambda>p. Some (65 :: int))
      [''-m'', ''/o'', ''-o'', ''msg''] [65 \<mapsto> ''Hello!''] = Done e \<and> \<not> failed e \<and>
    sysv_reader env_4k [''/o'' \<mapsto> disk_of [], ''msg'' \<mapsto> disk_of ''Hi''] (\<lambda>p. Some 65) [''-m'', ''/o''] (objects e) =
      Done \<lparr>objects = [65 \<mapsto> ''Hello!''](65 := None), shown = Some (cstr (take 2 ''Hi'')), failed = False\<rparr>"
  using sysv_shm_roundtrip [OF sample_shm, of "[''/o'' \<mapsto> disk_of [], ''msg'' \<mapsto> disk_of ''Hi'']"
      "\<lambda>p. Some (65 :: int)" 65 "[65 \<mapsto> ''Hello!'']"]
  by (simp add: disk_of_def)

theorem posix_shm_roundtrip_witness:
  "\<exists>e. posix_writer env_4k [''msg'' \<mapsto> disk_of ''Hi''] [''-n'', ''/o'', ''-o'', ''msg''] Map.empty = Done e \<and>
    \<not> failed e \<and> posix_reader env_4k [''-n'', ''/o''] (objects e) =
      Done \<lparr>objects = Map.empty, shown = Some (cstr (take 2 ''Hi'')), failed = False\<rparr>"
  using posix_shm_roundtrip [OF sample_shm, of "[''msg'' \<mapsto> disk_of ''Hi'']" Map.empty]
  by (simp add: disk_of_def)

theorem posix_shm_stale_witness:
  "\<exists>e. posix_writer env_4k [''msg'' \<mapsto> disk_of ''Hi''] [''-n'', ''/o'', ''-o'', ''msg''] [''/o'' \<mapsto> ''Hello!''] = Done e \<and>
    \<not> failed e \<and> posix_reader env_4k [''-n'', ''/o''] (objects e) =
      Done \<lparr>objects = [''/o'' \<mapsto> ''Hello!''](''/o'' := None), shown = Some ''Hil'', failed = False\<rparr>"
  using posix_shm_stale [OF sample_shm, of "[''msg'' \<mapsto> disk_of ''Hi'']" "''Hi''" "[''/o'' \<mapsto> ''Hello!'']" "''Hello!''"]
  by (simp add: disk_of_def env_4k_def)

end
