(* ===== verification/Shm_Message.thy ===== *)
theory Shm_Message
  imports Shm_Files Step_System
begin

text \<open>
  LAB_16/task_system_v_shmem_2 and task_posix_shmem_2: a server that makes an object of shared memory
  and looks at its first byte until it is not zero, and a client that copies a line into the object. The
  two have no lock. What each does before it touches the memory, and what the server does at the
  end, are functions; the exchange is a step relation.
\<close>

section \<open>The server opens the object\<close>

text \<open>\<open>nm\<close> is the letter of the name option. \<open>Inl b\<close>: it ends, \<open>b\<close> says whether with a failure.\<close>

definition server_args :: "char \<Rightarrow> shm_env \<Rightarrow> string list \<Rightarrow> bool + shm_opts" where
  "server_args nm env args =
     (if page_size env < 0 then Inl True
      else case shm_options nm (page_size env * 4) (getopt [nm, CHR ''s''] ''h'' args) no_shm_opts of
        Inl b \<Rightarrow> Inl b
      | Inr st \<Rightarrow> Inr (st\<lparr>seg_size := (if seg_size st = 0 then nat (page_size env) else seg_size st)\<rparr>))"

text \<open>
  The key of the object, \<open>memseg_size\<close> and the objects, or the objects it leaves behind when it fails.
\<close>

type_synonym 'k server_opened = "('k \<Rightarrow> bytes option) \<times> bool + 'k \<times> nat \<times> ('k \<Rightarrow> bytes option)"

definition sysv_server_open :: "shm_env \<Rightarrow> (string \<Rightarrow> disk_file option) \<Rightarrow> (string \<Rightarrow> 'k option) \<Rightarrow>
    string list \<Rightarrow> ('k \<Rightarrow> bytes option) \<Rightarrow> 'k server_opened" where
  "sysv_server_open env fs ftok args objs =
     (case server_args (CHR ''m'') env args of
        Inl b \<Rightarrow> Inl (objs, b)
      | Inr st \<Rightarrow>
     if fs (key_file st) = None then Inl (objs, True) else
     (case ftok (key_file st) of
        None \<Rightarrow> Inl (objs, True)
      | Some key \<Rightarrow>
     if \<not> opens env then Inl (objs, True) else
     (case shmget_create (seg_size st + 1) (objs key) of
        None \<Rightarrow> Inl (objs, True)
      | Some seg \<Rightarrow>
     if \<not> attaches env then Inl (objs(key \<mapsto> seg), True)
     else Inr (key, seg_size st, objs(key \<mapsto> seg)))))"

text \<open>With \<open>O_EXCL\<close>, so that the object is new.\<close>

definition posix_server_open :: "shm_env \<Rightarrow> string list \<Rightarrow> (string \<Rightarrow> bytes option) \<Rightarrow> string server_opened" where
  "posix_server_open env args objs =
     (case server_args (CHR ''n'') env args of
        Inl b \<Rightarrow> Inl (objs, b)
      | Inr st \<Rightarrow>
     if \<not> opens env \<or> objs (shm_name st) \<noteq> None then Inl (objs, True)
     else if \<not> sizes env then Inl (objs(shm_name st \<mapsto> []), True)
     else let objs1 = objs(shm_name st \<mapsto> ftruncate (seg_size st + 1) []) in
     if \<not> attaches env then Inl (objs1, True) else Inr (shm_name st, seg_size st, objs1))"

text \<open>The end of the server; only the System V server asks for the statistics of the segment.\<close>

definition server_close :: "bool \<Rightarrow> shm_env \<Rightarrow> 'k \<Rightarrow> ('k \<Rightarrow> bytes option) \<Rightarrow> ('k \<Rightarrow> bytes option) \<times> bool" where
  "server_close sysv env key objs =
     (if \<not> detaches env then (objs, True)
      else if sysv \<and> \<not> sizes env then (objs, True)
      else if \<not> removes env then (objs, True)
      else (objs(key := None), False))"

section \<open>The client reads a line\<close>

datatype line_typed = Fgets_failed | Nothing_typed | Typed string

fun drop_line :: "string \<Rightarrow> string" where
  "drop_line [] = []"
| "drop_line (c # cs) = (if c = NL then cs else drop_line cs)"

text \<open>
  \<open>fgets\<close> into a zeroed buffer of \<open>n\<close> bytes; it refuses a buffer without bytes. A line that does not
  fit is cut and the rest of it is read.
\<close>

definition client_message :: "nat \<Rightarrow> string \<Rightarrow> line_typed \<times> string" where
  "client_message n inp =
     (case if n = 0 then None else fgets n inp of
        None \<Rightarrow> (Fgets_failed, inp)
      | Some (line, rest) \<Rightarrow>
          let payload = cstr line in
          if payload = [] \<or> hd payload = NL then (Nothing_typed, rest)
          else if last payload = NL then (Typed (butlast payload), rest)
          else (Typed payload, drop_line rest))"

definition client_ready :: "shm_env \<Rightarrow> bytes option \<Rightarrow> string \<Rightarrow> (bool + string) \<times> string" where
  "client_ready env obj inp =
     (case obj of
        None \<Rightarrow> (Inl True, inp)
      | Some seg \<Rightarrow>
          if \<not> sizes env \<or> \<not> allocates env then (Inl True, inp)
          else case client_message (length seg) inp of
            (Fgets_failed, rest) \<Rightarrow> (Inl True, rest)
          | (Nothing_typed, rest) \<Rightarrow> (Inl False, rest)
          | (Typed msg, rest) \<Rightarrow> (if attaches env then Inr msg else Inl True, rest))"

definition sysv_client :: "shm_env \<Rightarrow> (string \<Rightarrow> disk_file option) \<Rightarrow> (string \<Rightarrow> 'k option) \<Rightarrow> string list \<Rightarrow>
    ('k \<Rightarrow> bytes option) \<Rightarrow> string \<Rightarrow> (bool + string) \<times> string" where
  "sysv_client env fs ftok args objs inp =
     (case shm_options (CHR ''m'') 0 (getopt ''m'' ''h'' args) no_shm_opts of
        Inl b \<Rightarrow> (Inl b, inp)
      | Inr st \<Rightarrow>
     if fs (key_file st) = None then (Inl True, inp) else
     (case ftok (key_file st) of
        None \<Rightarrow> (Inl True, inp)
      | Some key \<Rightarrow> client_ready env (if opens env then objs key else None) inp))"

definition posix_client :: "shm_env \<Rightarrow> string list \<Rightarrow> (string \<Rightarrow> bytes option) \<Rightarrow> string \<Rightarrow> (bool + string) \<times> string" where
  "posix_client env args objs inp =
     (case shm_options (CHR ''n'') 0 (getopt ''n'' ''h'' args) no_shm_opts of
        Inl b \<Rightarrow> (Inl b, inp)
      | Inr st \<Rightarrow> client_ready env (if opens env then objs (shm_name st) else None) inp)"

section \<open>The exchange\<close>

text \<open>
  \<open>V_clear\<close> is the \<open>memset\<close> of the System V server (taken as one step), \<open>V_poll\<close> the test of the first
  byte, \<open>V_cut\<close> the zero byte at \<open>memseg_size\<close>; \<open>V_print k\<close> says that \<open>printf\<close> is about to read byte \<open>k\<close>.
  \<open>U_copy C\<close> says that \<open>memcpy\<close> of the client has written the bytes of \<open>C\<close>: C leaves the order of its
  writes open. The last byte of the copy is the zero byte.
\<close>

datatype server_pc = V_clear | V_poll | V_cut | V_print nat | V_done
datatype client_pc = U_copy "nat set" | U_done

record talk =
  memseg :: bytes
  server :: server_pc
  client :: client_pc
  prints :: string

inductive talk_step :: "nat \<Rightarrow> string \<Rightarrow> talk \<Rightarrow> talk \<Rightarrow> bool" for n msg where
  clear: "server s = V_clear \<Longrightarrow>
    talk_step n msg s (s\<lparr>memseg := zeros (n + 1) @ drop (n + 1) (memseg s), server := V_poll\<rparr>)"
| sleep: "server s = V_poll \<Longrightarrow> memseg s ! 0 = NUL \<Longrightarrow> talk_step n msg s s"
| seen: "server s = V_poll \<Longrightarrow> memseg s ! 0 \<noteq> NUL \<Longrightarrow> talk_step n msg s (s\<lparr>server := V_cut\<rparr>)"
| cut: "server s = V_cut \<Longrightarrow> talk_step n msg s (s\<lparr>memseg := (memseg s)[n := NUL], server := V_print 0\<rparr>)"
| print: "server s = V_print k \<Longrightarrow> memseg s ! k \<noteq> NUL \<Longrightarrow>
    talk_step n msg s (s\<lparr>prints := prints s @ [memseg s ! k], server := V_print (k + 1)\<rparr>)"
| printed: "server s = V_print k \<Longrightarrow> memseg s ! k = NUL \<Longrightarrow> talk_step n msg s (s\<lparr>server := V_done\<rparr>)"
| copy: "client s = U_copy C \<Longrightarrow> k \<le> length msg \<Longrightarrow> k \<notin> C \<Longrightarrow>
    talk_step n msg s (s\<lparr>memseg := (memseg s)[k := (msg @ [NUL]) ! k], client := U_copy (insert k C)\<rparr>)"
| copied: "client s = U_copy {..length msg} \<Longrightarrow> talk_step n msg s (s\<lparr>client := U_done\<rparr>)"

text \<open>
  The exchange begins when both have attached the object: a new one of \<open>n + 1\<close> bytes for POSIX, one of
  \<open>n + 1\<close> bytes with any contents for System V.
\<close>

definition posix_talk :: "nat \<Rightarrow> talk \<Rightarrow> bool" where
  "posix_talk n s \<longleftrightarrow> memseg s = zeros (n + 1) \<and> server s = V_poll \<and> client s = U_copy {} \<and> prints s = []"

definition sysv_talk :: "nat \<Rightarrow> talk \<Rightarrow> bool" where
  "sysv_talk n s \<longleftrightarrow> length (memseg s) = n + 1 \<and> server s = V_clear \<and> client s = U_copy {} \<and> prints s = []"

definition msg_ok :: "nat \<Rightarrow> string \<Rightarrow> bool" where
  "msg_ok n msg \<longleftrightarrow> msg \<noteq> [] \<and> NUL \<notin> set msg \<and> length msg \<le> n"

text \<open>A line that the client has read from a segment of \<open>n + 1\<close> bytes is such a message.\<close>

lemma last_butlast: "xs \<noteq> [] \<Longrightarrow> hd xs \<noteq> last xs \<Longrightarrow> butlast xs \<noteq> []"
  by (cases xs) auto

lemma cstr_length: "length (cstr b) \<le> length b"
  by (simp add: cstr_def length_takeWhile_le)

lemma client_message_ok:
  assumes "client_message (n + 1) inp = (Typed msg, rest)"
  shows "msg_ok n msg"
proof -
  obtain line r where f: "fgets (n + 1) inp = Some (line, r)"
    using assms by (auto simp: client_message_def split: option.splits)
  have l: "length line \<le> n" using f by (auto simp: fgets_def dest: fgets_upto_length split: if_splits prod.splits)
  define p where "p = cstr line"
  have p: "p \<noteq> []" "hd p \<noteq> NL" and m: "msg = (if last p = NL then butlast p else p)"
    using assms f by (auto simp: client_message_def p_def Let_def split: if_splits)
  have "length p \<le> n" using l cstr_length [of line] by (simp add: p_def)
  moreover have "NUL \<notin> set p" by (simp add: p_def)
  ultimately show ?thesis using p m last_butlast [of p]
    by (auto simp: msg_ok_def dest: in_set_butlastD)
qed

section \<open>What the server can see\<close>

text \<open>The bytes of a cleared object after the writes of \<open>C\<close>.\<close>

definition visible :: "nat \<Rightarrow> string \<Rightarrow> nat set \<Rightarrow> bytes" where
  "visible n msg C = map (\<lambda>i. if i \<in> C \<and> i < length msg then msg ! i else NUL) [0..<n + 1]"

lemma visible_simps [simp]:
  "length (visible n msg C) = n + 1"
  "i \<le> n \<Longrightarrow> visible n msg C ! i = (if i \<in> C \<and> i < length msg then msg ! i else NUL)"
  "visible n msg {} = zeros (n + 1)"
  unfolding visible_def zeros_def by (simp_all del: upt_Suc add: map_replicate_const)

lemma visible_write:
  "k \<le> length msg \<Longrightarrow> length msg \<le> n \<Longrightarrow>
    (visible n msg C)[k := (msg @ [NUL]) ! k] = visible n msg (insert k C)"
  by (rule nth_equalityI) (auto simp: nth_list_update nth_append)

lemma visible_cut: "length msg \<le> n \<Longrightarrow> (visible n msg C)[n := NUL] = visible n msg C"
  by (rule nth_equalityI) (auto simp: nth_list_update)

lemma msg_ok_nth: "msg_ok n msg \<Longrightarrow> i < length msg \<Longrightarrow> msg ! i \<noteq> NUL"
  unfolding msg_ok_def by (metis nth_mem)

lemma visible_nonzero:
  "msg_ok n msg \<Longrightarrow> i \<le> n \<Longrightarrow> visible n msg C ! i \<noteq> NUL \<longleftrightarrow> i \<in> C \<and> i < length msg"
  by (auto simp: msg_ok_def set_conv_nth)

definition copied_bytes :: "string \<Rightarrow> client_pc \<Rightarrow> nat set" where
  "copied_bytes msg u = (case u of U_copy C \<Rightarrow> C | U_done \<Rightarrow> {..length msg})"

fun server_ok :: "string \<Rightarrow> nat set \<Rightarrow> server_pc \<Rightarrow> string \<Rightarrow> bool" where
  "server_ok msg S V_cut out \<longleftrightarrow> 0 \<in> S \<and> out = []"
| "server_ok msg S (V_print k) out \<longleftrightarrow> 0 \<in> S \<and> k \<le> length msg \<and> out = take k msg"
| "server_ok msg S V_done out \<longleftrightarrow> (\<exists>k. 0 < k \<and> k \<le> length msg \<and> out = take k msg)"
| "server_ok msg S _ out \<longleftrightarrow> out = []"

definition talk_inv :: "nat \<Rightarrow> string \<Rightarrow> talk \<Rightarrow> bool" where
  "talk_inv n msg s \<longleftrightarrow> copied_bytes msg (client s) \<subseteq> {..length msg} \<and> length (memseg s) = n + 1 \<and>
     (if server s = V_clear then prints s = [] else
      \<exists>S \<subseteq> copied_bytes msg (client s). memseg s = visible n msg S \<and> server_ok msg S (server s) (prints s))"

lemma server_ok_mono: "server_ok msg S v out \<Longrightarrow> S \<subseteq> T \<Longrightarrow> server_ok msg T v out"
  by (cases "(msg, S, v, out)" rule: server_ok.cases) auto

lemma talk_inv_step:
  assumes m: "msg_ok n msg" and i: "talk_inv n msg s" and st: "talk_step n msg s t"
  shows "talk_inv n msg t"
  using st
proof cases
  case clear
  then show ?thesis using i by (auto simp: talk_inv_def zeros_def intro!: exI [of _ "{}"])
next
  case sleep
  then show ?thesis using i by simp
next
  case seen
  then show ?thesis using i m by (auto simp: talk_inv_def split: if_splits)
next
  case cut
  then show ?thesis using i m visible_cut by (auto simp: talk_inv_def msg_ok_def)
next
  case (print k)
  then obtain S where S: "S \<subseteq> copied_bytes msg (client s)" "memseg s = visible n msg S" "0 \<in> S"
      "k \<le> length msg" "prints s = take k msg" and l: "k \<le> n"
    using i m by (auto simp: talk_inv_def msg_ok_def)
  then have k: "k \<in> S" "k < length msg" using print(3) visible_nonzero [OF m l, of S] by auto
  then show ?thesis using i print S l by (auto simp: talk_inv_def take_Suc_conv_app_nth)
next
  case (printed k)
  then obtain S where S: "S \<subseteq> copied_bytes msg (client s)" "memseg s = visible n msg S" "0 \<in> S"
      "k \<le> length msg" "prints s = take k msg" and l: "k \<le> n"
    using i m by (auto simp: talk_inv_def msg_ok_def)
  have "0 < k" using printed(3) S visible_nonzero [OF m l, of S] m by (cases k) (auto simp: msg_ok_def)
  then show ?thesis using i printed S by (auto simp: talk_inv_def)
next
  case (copy C k)
  then have k: "k < length (memseg s)" using i m by (auto simp: talk_inv_def msg_ok_def)
  show ?thesis
  proof (cases "server s = V_clear")
    case True
    then show ?thesis using i copy k by (auto simp: talk_inv_def copied_bytes_def)
  next
    case False
    then obtain S where S: "S \<subseteq> C" "memseg s = visible n msg S" "server_ok msg S (server s) (prints s)"
      using i copy by (auto simp: talk_inv_def copied_bytes_def)
    have "server_ok msg (insert k S) (server s) (prints s)" using S(3) by (rule server_ok_mono) blast
    moreover have "(memseg s)[k := (msg @ [NUL]) ! k] = visible n msg (insert k S)"
      using S(2) copy m visible_write by (auto simp: msg_ok_def)
    moreover have "insert k S \<subseteq> copied_bytes msg (client t)" using copy S(1) by (auto simp: copied_bytes_def)
    ultimately have "\<exists>T \<subseteq> copied_bytes msg (client t). memseg t = visible n msg T \<and>
        server_ok msg T (server t) (prints t)" using copy by (intro exI [of _ "insert k S"]) simp
    then show ?thesis using i copy False by (simp add: talk_inv_def copied_bytes_def)
  qed
next
  case copied
  then show ?thesis using i by (auto simp: talk_inv_def copied_bytes_def)
qed

lemma talk_inv_start: "posix_talk n s \<or> sysv_talk n s \<Longrightarrow> talk_inv n msg s"
proof (elim disjE)
  assume p: "posix_talk n s"
  then have "memseg s = visible n msg {}" by (simp add: posix_talk_def)
  then have "\<exists>S \<subseteq> copied_bytes msg (client s). memseg s = visible n msg S \<and> server_ok msg S (server s) (prints s)"
    using p by (intro exI [of _ "{}"]) (simp add: posix_talk_def)
  then show ?thesis using p by (simp add: posix_talk_def talk_inv_def copied_bytes_def zeros_def)
qed (simp add: sysv_talk_def talk_inv_def copied_bytes_def)

lemma talk_inv_reach:
  assumes "reach st (talk_step n msg) s" and "\<And>s. st s \<Longrightarrow> posix_talk n s \<or> sysv_talk n s"
    and m: "msg_ok n msg"
  shows "talk_inv n msg s"
  using assms(1)
proof (induction rule: reach_invariant)
  case (start s)
  then show ?case using assms(2) talk_inv_start by blast
next
  case (step s t)
  show ?case using talk_inv_step [OF m step(3) step(2)] step by blast
qed

lemma posix_visible:
  assumes "reach (posix_talk n) (talk_step n msg) s" and m: "msg_ok n msg"
  shows "server s \<noteq> V_clear \<and> memseg s = visible n msg (copied_bytes msg (client s))"
  using assms(1)
proof (induction rule: reach_invariant)
  case (start s)
  then show ?case by (simp add: posix_talk_def copied_bytes_def)
next
  case (step s t)
  from step(2,3) m show ?case
    by cases (auto simp: copied_bytes_def visible_write visible_cut msg_ok_def simp del: visible_simps(3))
qed

section \<open>The server comes to its end\<close>

lemma prints_to_the_end:
  "talk_inv n msg s \<Longrightarrow> server s = V_print k \<Longrightarrow> msg_ok n msg \<Longrightarrow>
    \<exists>t. (talk_step n msg)\<^sup>*\<^sup>* s t \<and> server t = V_done"
proof (induction "Suc (length msg) - k" arbitrary: s k rule: less_induct)
  case less
  show ?case
  proof (cases "memseg s ! k = NUL")
    case True
    then have "talk_step n msg s (s\<lparr>server := V_done\<rparr>)" using talk_step.printed less.prems(2) by blast
    then show ?thesis by (intro exI [of _ "s\<lparr>server := V_done\<rparr>"]) auto
  next
    case False
    let ?t = "s\<lparr>prints := prints s @ [memseg s ! k], server := V_print (k + 1)\<rparr>"
    have st: "talk_step n msg s ?t" using talk_step.print [OF less.prems(2) False] .
    have "k \<le> length msg" using less.prems by (auto simp: talk_inv_def)
    then obtain t where "(talk_step n msg)\<^sup>*\<^sup>* ?t t" "server t = V_done"
      using less.hyps [of "k + 1" ?t] talk_inv_step [OF less.prems(3,1) st] less.prems(3)
      by (auto simp: Suc_diff_le)
    then show ?thesis using st by (meson converse_rtranclp_into_rtranclp)
  qed
qed

lemma cuts_to_the_end:
  assumes "talk_inv n msg s" "server s = V_cut" "msg_ok n msg"
  shows "\<exists>t. (talk_step n msg)\<^sup>*\<^sup>* s t \<and> server t = V_done"
  using talk_step.cut [OF assms(2), of n msg] talk_inv_step [OF assms(3,1)] prints_to_the_end assms(3)
  by (metis (no_types, lifting) converse_rtranclp_into_rtranclp select_convs(2) surjective update_convs(2))

lemma polls_to_the_end:
  assumes "talk_inv n msg s" "server s = V_poll" "memseg s ! 0 \<noteq> NUL" "msg_ok n msg"
  shows "\<exists>t. (talk_step n msg)\<^sup>*\<^sup>* s t \<and> server t = V_done"
proof -
  have st: "talk_step n msg s (s\<lparr>server := V_cut\<rparr>)" using talk_step.seen [OF assms(2,3)] .
  obtain t where "(talk_step n msg)\<^sup>*\<^sup>* (s\<lparr>server := V_cut\<rparr>) t" "server t = V_done"
    using cuts_to_the_end [OF talk_inv_step [OF assms(4,1) st]] assms(4) by auto
  then show ?thesis using st by (meson converse_rtranclp_into_rtranclp)
qed

lemma posix_served:
  assumes r: "reach (posix_talk n) (talk_step n msg) s" and m: "msg_ok n msg"
  shows "\<exists>t. (talk_step n msg)\<^sup>*\<^sup>* s t \<and> server t = V_done"
proof -
  have i: "talk_inv n msg s" using talk_inv_reach [OF r _ m] by blast
  have v: "server s \<noteq> V_clear" "memseg s = visible n msg (copied_bytes msg (client s))"
    using posix_visible [OF r m] by auto
  show ?thesis
  proof (cases "server s")
    case V_clear
    then show ?thesis using v by simp
  next
    case V_poll
    show ?thesis
    proof (cases "memseg s ! 0 = NUL")
      case False
      then show ?thesis using polls_to_the_end i V_poll m by blast
    next
      case True
      then have "0 \<notin> copied_bytes msg (client s)"
        using visible_nonzero [OF m, of 0] v(2) m by (auto simp: msg_ok_def)
      then obtain C where C: "client s = U_copy C" "0 \<notin> C"
        by (cases "client s") (auto simp: copied_bytes_def)
      let ?t = "s\<lparr>memseg := (memseg s)[0 := (msg @ [NUL]) ! 0], client := U_copy (insert 0 C)\<rparr>"
      have st: "talk_step n msg s ?t" using talk_step.copy [OF C(1) _ C(2)] by blast
      have "memseg ?t ! 0 \<noteq> NUL"
        using v(2) m msg_ok_nth [OF m, of 0] by (auto simp: nth_append msg_ok_def)
      then obtain t where "(talk_step n msg)\<^sup>*\<^sup>* ?t t" "server t = V_done"
        using polls_to_the_end [OF talk_inv_step [OF m i st]] V_poll m by auto
      then show ?thesis using st by (meson converse_rtranclp_into_rtranclp)
    qed
  next
    case V_cut
    then show ?thesis using cuts_to_the_end i m by blast
  next
    case (V_print k)
    then show ?thesis using prints_to_the_end i m by blast
  next
    case V_done
    then show ?thesis by blast
  qed
qed

section \<open>What the server can print\<close>

lemma posix_copies:
  assumes "j \<le> length msg + 1" "length msg \<le> n"
  shows "reach (posix_talk n) (talk_step n msg)
    \<lparr>memseg = visible n msg {..<j}, server = V_poll, client = U_copy {..<j}, prints = []\<rparr>"
  using assms(1)
proof (induction j)
  case 0
  show ?case by (rule reach_start) (simp add: posix_talk_def)
next
  case (Suc j)
  let ?s = "\<lparr>memseg = visible n msg {..<j}, server = V_poll, client = U_copy {..<j}, prints = []\<rparr>"
  have "talk_step n msg ?s (?s\<lparr>memseg := visible n msg {..<Suc j}, client := U_copy {..<Suc j}\<rparr>)"
    using talk_step.copy [of ?s "{..<j}" j msg n] visible_write [of j msg n "{..<j}"] Suc.prems assms(2)
    by (simp add: lessThan_Suc)
  from reach_step [OF Suc.IH this] Suc.prems show ?case by simp
qed

lemma posix_client_ends:
  assumes "length msg \<le> n"
  shows "reach (posix_talk n) (talk_step n msg)
    \<lparr>memseg = visible n msg {..length msg}, server = V_poll, client = U_done, prints = []\<rparr>"
proof -
  let ?s = "\<lparr>memseg = visible n msg {..length msg}, server = V_poll, client = U_copy {..length msg}, prints = []\<rparr>"
  have "reach (posix_talk n) (talk_step n msg) ?s"
    using posix_copies [OF le_refl assms] by (simp add: lessThan_Suc_atMost)
  from reach_step [OF this, of "?s\<lparr>client := U_done\<rparr>"] talk_step.copied [of ?s msg n] show ?thesis by simp
qed

lemma posix_reads:
  assumes m: "msg_ok n msg" and k: "0 < k" "k \<le> length msg" and "j \<le> k"
  shows "reach (posix_talk n) (talk_step n msg)
    \<lparr>memseg = visible n msg {..<k}, server = V_print j, client = U_copy {..<k}, prints = take j msg\<rparr>"
  using assms(4)
proof (induction j)
  case 0
  let ?s = "\<lparr>memseg = visible n msg {..<k}, server = V_poll, client = U_copy {..<k}, prints = []\<rparr>"
  have l: "length msg \<le> n" using m by (simp add: msg_ok_def)
  note r = posix_copies [OF trans_le_add1 [OF k(2), of 1] l]
  have "talk_step n msg ?s (?s\<lparr>server := V_cut\<rparr>)"
    using k msg_ok_nth [OF m, of 0] by (intro talk_step.seen) auto
  note r = reach_step [OF r this]
  have "talk_step n msg (?s\<lparr>server := V_cut\<rparr>) (?s\<lparr>server := V_print 0\<rparr>)"
    using talk_step.cut [of "?s\<lparr>server := V_cut\<rparr>" n msg] visible_cut [OF l] by simp
  from reach_step [OF r this] show ?case by simp
next
  case (Suc j)
  let ?s = "\<lparr>memseg = visible n msg {..<k}, server = V_print j, client = U_copy {..<k}, prints = take j msg\<rparr>"
  have j: "j < length msg" "j < k" "j \<le> n" using Suc.prems k m by (auto simp: msg_ok_def)
  have "talk_step n msg ?s (?s\<lparr>prints := prints ?s @ [memseg ?s ! j], server := V_print (j + 1)\<rparr>)"
    using j msg_ok_nth [OF m j(1)] by (intro talk_step.print) auto
  then have st: "talk_step n msg ?s (?s\<lparr>prints := take (Suc j) msg, server := V_print (Suc j)\<rparr>)"
    using j by (simp add: take_Suc_conv_app_nth)
  have "reach (posix_talk n) (talk_step n msg) ?s" using Suc.IH j(2) by simp
  from reach_step [OF this st] show ?case by simp
qed

lemma posix_prints:
  assumes m: "msg_ok n msg" and k: "0 < k" "k \<le> length msg"
  shows "\<exists>s. reach (posix_talk n) (talk_step n msg) s \<and> server s = V_done \<and> prints s = take k msg"
proof -
  let ?s = "\<lparr>memseg = visible n msg {..<k}, server = V_print k, client = U_copy {..<k}, prints = take k msg\<rparr>"
  have "k \<le> n" using k m by (simp add: msg_ok_def)
  then have "talk_step n msg ?s (?s\<lparr>server := V_done\<rparr>)" by (intro talk_step.printed) auto
  from reach_step [OF posix_reads [OF m k le_refl] this] show ?thesis
    by (intro exI [of _ "?s\<lparr>server := V_done\<rparr>"]) simp
qed

lemma posix_texts:
  assumes m: "msg_ok n msg"
  shows "{prints s |s. reach (posix_talk n) (talk_step n msg) s \<and> server s = V_done} =
         {take k msg |k. 0 < k \<and> k \<le> length msg}"
proof (intro equalityI subsetI)
  fix x
  assume "x \<in> {prints s |s. reach (posix_talk n) (talk_step n msg) s \<and> server s = V_done}"
  then obtain s where s: "reach (posix_talk n) (talk_step n msg) s" "server s = V_done" "x = prints s"
    by blast
  have "talk_inv n msg s" using talk_inv_reach [OF s(1) _ m] by blast
  then show "x \<in> {take k msg |k. 0 < k \<and> k \<le> length msg}" using s by (auto simp: talk_inv_def)
next
  fix x
  assume "x \<in> {take k msg |k. 0 < k \<and> k \<le> length msg}"
  then obtain k where "0 < k" "k \<le> length msg" "x = take k msg" by blast
  with posix_prints [OF m] obtain s where
    "reach (posix_talk n) (talk_step n msg) s" "server s = V_done" "x = prints s" by metis
  then show "x \<in> {prints s |s. reach (posix_talk n) (talk_step n msg) s \<and> server s = V_done}" by blast
qed

section \<open>A message that the System V server erases\<close>

lemma sysv_copies:
  assumes "j \<le> length msg + 1"
  shows "\<exists>seg. length seg = n + 1 \<and> reach (sysv_talk n) (talk_step n msg)
    \<lparr>memseg = seg, server = V_clear, client = U_copy {..<j}, prints = []\<rparr>"
  using assms
proof (induction j)
  case 0
  show ?case by (intro exI [of _ "zeros (n + 1)"] conjI reach_start) (simp_all add: sysv_talk_def zeros_def)
next
  case (Suc j)
  then obtain seg where seg: "length seg = n + 1" and r: "reach (sysv_talk n) (talk_step n msg)
    \<lparr>memseg = seg, server = V_clear, client = U_copy {..<j}, prints = []\<rparr>" by auto
  let ?s = "\<lparr>memseg = seg, server = V_clear, client = U_copy {..<j}, prints = []\<rparr>"
  let ?seg = "seg[j := (msg @ [NUL]) ! j]"
  have "talk_step n msg ?s (?s\<lparr>memseg := ?seg, client := U_copy {..<Suc j}\<rparr>)"
    using talk_step.copy [of ?s "{..<j}" j msg n] Suc.prems by (simp add: lessThan_Suc)
  from reach_step [OF r this] seg show ?case by (intro exI [of _ ?seg]) simp
qed

lemma lost_stays:
  assumes "(talk_step n msg)\<^sup>*\<^sup>* s t" "server s = V_poll" "client s = U_done" "memseg s ! 0 = NUL"
  shows "t = s"
  using assms(1)
proof (induction rule: rtranclp_induct)
  case base
  show ?case by simp
next
  case (step u v)
  from step(2) assms(2-4) show ?case unfolding step(3) by cases auto
qed

lemma sysv_lost:
  "\<exists>s. reach (sysv_talk n) (talk_step n msg) s \<and> client s = U_done \<and>
       (\<forall>t. (talk_step n msg)\<^sup>*\<^sup>* s t \<longrightarrow> server t = V_poll \<and> prints t = [])"
proof -
  obtain seg where seg: "length seg = n + 1" and r: "reach (sysv_talk n) (talk_step n msg)
      \<lparr>memseg = seg, server = V_clear, client = U_copy {..<length msg + 1}, prints = []\<rparr>"
    using sysv_copies [of "length msg + 1"] by blast
  let ?s = "\<lparr>memseg = seg, server = V_clear, client = U_copy {..<length msg + 1}, prints = []\<rparr>"
  have e: "{..<length msg + 1} = {..length msg}" by auto
  have "talk_step n msg ?s (?s\<lparr>client := U_done\<rparr>)" using e by (intro talk_step.copied) simp
  note r = reach_step [OF r this]
  have "talk_step n msg (?s\<lparr>client := U_done\<rparr>) (?s\<lparr>client := U_done, memseg := zeros (n + 1), server := V_poll\<rparr>)"
    using talk_step.clear [of "?s\<lparr>client := U_done\<rparr>" n msg] seg by simp
  note r = reach_step [OF r this]
  show ?thesis
    by (intro exI [of _ "?s\<lparr>client := U_done, memseg := zeros (n + 1), server := V_poll\<rparr>"])
       (use r in \<open>auto dest: lost_stays simp: zeros_def\<close>)
qed

section \<open>The whole message\<close>

text \<open>When the client has ended before the server looks, the server prints the line as it was typed.\<close>

definition whole_inv :: "nat \<Rightarrow> string \<Rightarrow> talk \<Rightarrow> bool" where
  "whole_inv n msg s \<longleftrightarrow> client s = U_done \<and> memseg s = visible n msg {..length msg} \<and>
     (case server s of V_clear \<Rightarrow> False | V_poll \<Rightarrow> prints s = [] | V_cut \<Rightarrow> prints s = []
      | V_print k \<Rightarrow> k \<le> length msg \<and> prints s = take k msg | V_done \<Rightarrow> prints s = msg)"

lemma whole_step:
  assumes m: "msg_ok n msg" and i: "whole_inv n msg s" and st: "talk_step n msg s t"
  shows "whole_inv n msg t"
  using st
proof cases
  case (print k)
  then have "k \<le> length msg" "k \<le> n" "prints s = take k msg" "memseg s = visible n msg {..length msg}"
    using i m by (auto simp: whole_inv_def msg_ok_def)
  moreover from this have "k < length msg" using print(3) by (auto split: if_splits)
  ultimately show ?thesis using i print by (auto simp: whole_inv_def take_Suc_conv_app_nth)
next
  case (printed k)
  then have k: "k \<le> length msg" "k \<le> n" "prints s = take k msg" "memseg s = visible n msg {..length msg}"
    using i m by (auto simp: whole_inv_def msg_ok_def)
  then have "k = length msg" using printed(3) msg_ok_nth [OF m, of k] by (auto split: if_splits)
  then show ?thesis using i printed k by (auto simp: whole_inv_def)
qed (use i m visible_cut in \<open>auto simp: whole_inv_def msg_ok_def\<close>)

lemma posix_whole:
  assumes r: "reach (posix_talk n) (talk_step n msg) s" and m: "msg_ok n msg"
    and s: "client s = U_done" "server s = V_poll"
    and t: "(talk_step n msg)\<^sup>*\<^sup>* s t" "server t = V_done"
  shows "prints t = msg"
proof -
  have "talk_inv n msg s" using talk_inv_reach [OF r _ m] by blast
  then have i: "whole_inv n msg s"
    using posix_visible [OF r m] s by (auto simp: whole_inv_def talk_inv_def copied_bytes_def)
  have "whole_inv n msg t" using t(1)
    by (induction rule: rtranclp_induct) (use i whole_step [OF m] in blast)+
  then show ?thesis using t(2) by (simp add: whole_inv_def)
qed

section \<open>The two programs together\<close>

lemma posix_server_opened:
  assumes "posix_server_open env args objs = Inr (key, n, objs1)"
  shows "objs key = None \<and> objs1 = objs(key \<mapsto> zeros (n + 1))"
  using assms
  by (auto simp: posix_server_open_def ftruncate_def Let_def split: sum.splits if_splits option.splits)

lemma client_ready_message:
  "client_ready env obj inp = (Inr msg, rest) \<Longrightarrow>
    \<exists>seg. obj = Some seg \<and> client_message (length seg) inp = (Typed msg, rest)"
  by (auto simp: client_ready_def split: option.splits if_splits prod.splits line_typed.splits)

lemma posix_pair:
  assumes s: "posix_server_open env args Map.empty = Inr (key, n, objs)"
    and c: "posix_client env' args' objs inp = (Inr msg, rest)"
  shows "objs = [key \<mapsto> zeros (n + 1)]" "msg_ok n msg"
proof -
  show o: "objs = [key \<mapsto> zeros (n + 1)]" using posix_server_opened [OF s] by simp
  from c obtain st where "client_ready env' (if opens env' then objs (shm_name st) else None) inp = (Inr msg, rest)"
    by (auto simp: posix_client_def split: sum.splits)
  then obtain seg where "objs (shm_name st) = Some seg" "client_message (length seg) inp = (Typed msg, rest)"
    using client_ready_message [of env' "if opens env' then objs (shm_name st) else None" inp msg rest]
    by (auto split: if_splits)
  then have "client_message (n + 1) inp = (Typed msg, rest)"
    using o by (auto simp: zeros_def split: if_splits)
  then show "msg_ok n msg" by (rule client_message_ok)
qed

text \<open>C29: There is no lock, so that the server can see a part of the line: the texts that it can print are
  exactly the beginnings of the line that are not empty, whatever order \<open>memcpy\<close> copies in.
\<close>

theorem posix_talk_texts:
  assumes "posix_server_open env args Map.empty = Inr (key, n, objs)"
    and "posix_client env' args' objs inp = (Inr msg, rest)"
  shows "objs = [key \<mapsto> zeros (n + 1)] \<and>
    {prints s |s. reach (posix_talk n) (talk_step n msg) s \<and> server s = V_done} =
    {take k msg |k. 0 < k \<and> k \<le> length msg}"
  using posix_pair [OF assms] posix_texts by blast

text \<open>
  The server can always come to its end, and what it prints is the whole line when the client was
  done before it looked.
\<close>

theorem posix_talk_served:
  assumes "posix_server_open env args Map.empty = Inr (key, n, objs)"
    and "posix_client env' args' objs inp = (Inr msg, rest)"
    and "reach (posix_talk n) (talk_step n msg) s"
  shows "\<exists>t. (talk_step n msg)\<^sup>*\<^sup>* s t \<and> server t = V_done \<and>
    (client s = U_done \<and> server s = V_poll \<longrightarrow> prints t = msg)"
  using posix_served [OF assms(3)] posix_whole [OF assms(3)] posix_pair(2) [OF assms(1,2)] by blast

text \<open>The System V server clears the segment after it has attached it. A client that has attached it
  before and has already copied its line and ended is never heard: the server polls for ever.
\<close>

theorem sysv_message_lost:
  "\<exists>s. reach (sysv_talk n) (talk_step n msg) s \<and> client s = U_done \<and>
       (\<forall>t. (talk_step n msg)\<^sup>*\<^sup>* s t \<longrightarrow> server t = V_poll \<and> prints t = [])"
  by (rule sysv_lost)

text \<open>What the System V server prints is a beginning of the line, too.\<close>

theorem sysv_talk_prefix:
  assumes "msg_ok n msg" "reach (sysv_talk n) (talk_step n msg) s" "server s = V_done"
  shows "\<exists>k. 0 < k \<and> k \<le> length msg \<and> prints s = take k msg"
  using talk_inv_reach [OF assms(2) _ assms(1)] assms(3) by (auto simp: talk_inv_def)

section \<open>An instance\<close>

lemma sample_talk:
  "posix_server_open env_4k [''-s'', ''7''] Map.empty = Inr (''/shm_object'', 7, [''/shm_object'' \<mapsto> zeros 8])"
  "posix_client env_4k [] [''/shm_object'' \<mapsto> zeros 8] ''Hello''  = (Inr ''Hello'', [])"
proof -
  have m: "client_message 8 ''Hello'' = (Typed ''Hello'', [])" by code_simp
  have "strtol ''7'' = (7, False)"
    by (simp add: strtol_def scan_num_def isspace_def isdigit_def strtol64_def dec_val_def digit_val_def)
  then have "server_args (CHR ''n'') env_4k [''-s'', ''7''] = Inr (no_shm_opts\<lparr>seg_size := 7\<rparr>)"
    using getopt_arg [of "CHR ''s''" "''ns''" "''h''" "''7''" "[]"]
    by (simp add: server_args_def env_4k_def no_shm_opts_def options_bundled_def)
  then show "posix_server_open env_4k [''-s'', ''7''] Map.empty =
      Inr (''/shm_object'', 7, [''/shm_object'' \<mapsto> zeros 8])"
    by (simp add: posix_server_open_def env_4k_def no_shm_opts_def shm_name_def ftruncate_def zeros_def)
  show "posix_client env_4k [] [''/shm_object'' \<mapsto> zeros 8] ''Hello''  = (Inr ''Hello'', [])"
    using m by (simp add: posix_client_def client_ready_def env_4k_def no_shm_opts_def shm_name_def zeros_def)
qed

theorem posix_talk_texts_witness:
  "{prints s |s. reach (posix_talk 7) (talk_step 7 ''Hello'') s \<and> server s = V_done} =
   {take k ''Hello'' |k. 0 < k \<and> k \<le> length ''Hello''}"
  using posix_talk_texts [of env_4k "[''-s'', ''7'']" "''/shm_object''" 7 "[''/shm_object'' \<mapsto> zeros 8]"
      env_4k "[]" "''Hello''" "''Hello''" "[]"] sample_talk by simp

theorem posix_talk_served_witness:
  "\<exists>t. (talk_step 7 ''Hello'')\<^sup>*\<^sup>*
      \<lparr>memseg = visible 7 ''Hello'' {..5}, server = V_poll, client = U_done, prints = []\<rparr> t \<and>
    server t = V_done \<and> prints t = ''Hello''"
  using posix_talk_served [of env_4k "[''-s'', ''7'']" "''/shm_object''" 7 "[''/shm_object'' \<mapsto> zeros 8]"
      env_4k "[]" "''Hello''" "''Hello''" "[]", OF _ _ posix_client_ends] sample_talk by (simp add: eval_nat_numeral)

end
