(* ===== verification/Frame_Server.thy ===== *)
theory Frame_Server
  imports Lab_Prelude
begin

text \<open>
  LAB_17/task_af_local_tcp_socket: a server on a stream socket that collects what a client sends in
  a buffer of 512 bytes, answers each line of it with a numbered message, and keeps what comes
  behind the last newline for the next \<open>recv\<close>; and its client. The pieces in which the bytes
  arrive are an input.
\<close>

section \<open>Lines and answers\<close>

text \<open>\<open>%d\<close> of a number that is not negative.\<close>

fun show_dec :: "nat \<Rightarrow> string" where
  "show_dec n = (if n < 10 then [char_of (48 + n)] else show_dec (n div 10) @ [char_of (48 + n mod 10)])"

declare show_dec.simps [simp del]

abbreviation FRAME_BUF_SIZ :: nat where "FRAME_BUF_SIZ \<equiv> 512"

text \<open>
  The message of frame \<open>i\<close>: \<open>%.*s\<close> prints the bytes of the line up to a zero byte, \<open>snprintf\<close> cuts the
  text to 511 bytes, and \<open>send\<close> takes it with its zero byte.
\<close>

definition frame_text :: "nat \<Rightarrow> bytes \<Rightarrow> string" where
  "frame_text i line = ''Frame'' @ show_dec i @ '': '' @ cstr line @ '' received!'' @ [NL]"

definition frame_reply :: "nat \<Rightarrow> bytes \<Rightarrow> bytes" where
  "frame_reply i line = take (FRAME_BUF_SIZ - 1) (frame_text i line) @ [NUL]"

fun memchr :: "char \<Rightarrow> bytes \<Rightarrow> nat option" where
  "memchr x [] = None"
| "memchr x (c # cs) = (if c = x then Some 0 else map_option Suc (memchr x cs))"

lemma memchr_None: "memchr x s = None \<longleftrightarrow> x \<notin> set s"
  by (induction s) auto

lemma memchr_split:
  "memchr x s = Some k \<Longrightarrow> k < length s \<and> s = take k s @ x # drop (Suc k) s \<and> x \<notin> set (take k s)"
  by (induction s arbitrary: k) (auto split: if_splits)

section \<open>A connection\<close>

record conn =
  frame_buf :: bytes
  frame_nbytes :: nat
  frame_i :: int
  answers :: "bytes list"

text \<open>
  A client, as the server sees it: the pieces that \<open>recv\<close> returns, each of 1 to 256 bytes, which calls
  of \<open>send\<close> succeed, and whether \<open>recv\<close> fails in the end or the client disconnects; an empty piece is
  a disconnection too.
\<close>

record peer =
  chunks :: "bytes list"
  send_ok :: "nat \<Rightarrow> bool"
  recv_breaks :: bool

text \<open>
  The loop over the newlines from \<open>p\<close> on. The flag says that a \<open>send\<close> has failed. The counter \<open>i\<close> is an
  \<open>int\<close>, whose increment can overflow.
\<close>

function answer_frames :: "(nat \<Rightarrow> bool) \<Rightarrow> int \<Rightarrow> bytes \<Rightarrow> bytes list \<Rightarrow> (bool \<times> int \<times> bytes \<times> bytes list) run" where
  "answer_frames ok i p outs =
     (case memchr NL p of
        None \<Rightarrow> Done (False, i, p, outs)
      | Some ch \<Rightarrow>
          if \<not> ok (length outs) then Done (True, i, p, outs)
          else bind_run (c_int (i + 1)) (\<lambda>i'.
            answer_frames ok i' (drop (ch + 1) p) (outs @ [frame_reply (nat i) (take ch p)])))"
  by pat_completeness auto
termination
  by (relation "measure (\<lambda>(ok, i, p, outs). length p)") (auto dest: memchr_split)

declare answer_frames.simps [simp del]

datatype conn_end = Hung_up | Dropped | Broken

text \<open>One \<open>recv\<close> that has returned bytes; \<open>Some\<close> is the end of the connection.\<close>

definition on_recv :: "(nat \<Rightarrow> bool) \<Rightarrow> bytes \<Rightarrow> conn \<Rightarrow> (conn_end option \<times> conn) run" where
  "on_recv ok buf c =
     (if FRAME_BUF_SIZ < frame_nbytes c + length buf then Done (Some Dropped, c)
      else bind_run (blit (frame_nbytes c) buf (frame_buf c)) (\<lambda>fb.
        let n = frame_nbytes c + length buf; p = take n fb in
        if memchr NL p = None then Done (None, c\<lparr>frame_buf := fb, frame_nbytes := n\<rparr>)
        else bind_run (answer_frames ok (frame_i c) p (answers c)) (\<lambda>(failed, i, rest, outs).
          if failed then Done (Some Broken, c\<lparr>frame_buf := fb, frame_nbytes := n, frame_i := i, answers := outs\<rparr>)
          else bind_run (if rest = [] then Done fb else blit 0 rest fb) (\<lambda>fb'.
            Done (None, \<lparr>frame_buf = fb', frame_nbytes = length rest, frame_i = i, answers = outs\<rparr>)))))"

fun recv_loop :: "(nat \<Rightarrow> bool) \<Rightarrow> bool \<Rightarrow> bytes list \<Rightarrow> conn \<Rightarrow> (conn_end \<times> conn) run" where
  "recv_loop ok breaks [] c = Done (if breaks then Broken else Hung_up, c)"
| "recv_loop ok breaks (d # ds) c =
     (if d = [] then Done (Hung_up, c) else bind_run (on_recv ok d c) (\<lambda>(e, c'). case e of None \<Rightarrow> recv_loop ok breaks ds c' | Some e' \<Rightarrow> Done (e', c')))"

section \<open>The server\<close>

text \<open>
  The clients one after the other, until \<open>accept\<close> fails, which it does after the last one of the list.
  Behind a connection that was closed the buffer is cleared.
\<close>

fun accept_loop :: "peer list \<Rightarrow> bytes \<Rightarrow> nat \<Rightarrow> bytes list list \<Rightarrow> bytes list list run" where
  "accept_loop [] fb n outs = Done outs"
| "accept_loop (p # ps) fb n outs =
     bind_run (recv_loop (send_ok p) (recv_breaks p) (chunks p)
         \<lparr>frame_buf = fb, frame_nbytes = n, frame_i = 0, answers = []\<rparr>) (\<lambda>(e, c).
       if e = Broken then Done (outs @ [answers c])
       else accept_loop ps (zeros FRAME_BUF_SIZ) 0 (outs @ [answers c]))"

text \<open>Which calls succeed; a name that does not exist counts as a success of \<open>unlink\<close>.\<close>

record sock_env =
  socket_ok :: bool
  unlink_ok :: bool
  bind_ok :: bool
  listen_ok :: bool
  unlink_end_ok :: bool

text \<open>What each client was sent, whether the name of the socket is left behind, the exit status.\<close>

record sock_end =
  replies :: "bytes list list"
  name_left :: bool
  status_failed :: bool

text \<open>The label \<open>end\<close>, where \<open>named\<close> says that \<open>filename\<close> is not empty and \<open>st\<close> that \<open>status\<close> is a failure.\<close>

definition sock_finish :: "sock_env \<Rightarrow> bool \<Rightarrow> bool \<Rightarrow> bytes list list \<Rightarrow> bool \<Rightarrow> sock_end" where
  "sock_finish env named there outs st =
     (if named \<and> unlink_end_ok env then \<lparr>replies = outs, name_left = False, status_failed = st\<rparr>
      else \<lparr>replies = outs, name_left = there, status_failed = st \<or> named\<rparr>)"

definition frame_main :: "sock_env \<Rightarrow> bool \<Rightarrow> peer list \<Rightarrow> sock_end run" where
  "frame_main env there peers =
     (if \<not> socket_ok env then Done (sock_finish env False there [] True)
      else if \<not> unlink_ok env then Done (sock_finish env False there [] True)
      else if \<not> bind_ok env then Done (sock_finish env True False [] True)
      else if \<not> listen_ok env then Done (sock_finish env True True [] True)
      else bind_run (accept_loop peers (zeros FRAME_BUF_SIZ) 0 []) (\<lambda>outs.
        Done (sock_finish env True True outs True)))"

section \<open>The client\<close>

text \<open>\<open>got\<close> is the result of \<open>recv\<close>, at most 256 bytes of the answer. The client sends \<open>Ping\<close> and a newline.\<close>

definition stream_client :: "bool \<Rightarrow> bool \<Rightarrow> bool \<Rightarrow> bytes option \<Rightarrow> bytes list \<times> string option \<times> bool" where
  "stream_client sock conn_ok sent got =
     (if \<not> sock \<or> \<not> conn_ok \<or> \<not> sent then ([], None, True)
      else case got of
        None \<Rightarrow> ([''Ping'' @ [NL]], None, True)
      | Some buf \<Rightarrow> ([''Ping'' @ [NL]],
          if buf = [] then None else Some (cstr (take (if 256 \<le> length buf then 255 else length buf) buf)), False))"

section \<open>The lines of a stream\<close>

text \<open>The complete lines of a text, and what comes behind the last newline.\<close>

fun lines_of :: "bytes \<Rightarrow> bytes list \<times> bytes" where
  "lines_of [] = ([], [])"
| "lines_of (c # cs) =
     (case lines_of cs of (ls, r) \<Rightarrow>
        if c = NL then ([] # ls, r)
        else case ls of [] \<Rightarrow> ([], c # r) | l # ls' \<Rightarrow> ((c # l) # ls', r))"

definition frames_from :: "nat \<Rightarrow> bytes list \<Rightarrow> bytes list" where
  "frames_from i ls = map (\<lambda>(k, l). frame_reply k l) (enumerate i ls)"

lemma frames_from_simps [simp]:
  "frames_from i [] = []" "frames_from i (l # ls) = frame_reply i l # frames_from (Suc i) ls"
  by (simp_all add: frames_from_def)

lemma frames_from_append: "frames_from i (a @ b) = frames_from i a @ frames_from (i + length a) b"
  by (induction a arbitrary: i) simp_all

lemma length_frames_from [simp]: "length (frames_from i ls) = length ls"
  by (simp add: frames_from_def)

lemma lines_of_append:
  "lines_of (a @ b) =
     (fst (lines_of a) @ fst (lines_of (snd (lines_of a) @ b)), snd (lines_of (snd (lines_of a) @ b)))"
  by (induction a) (auto split: prod.splits list.splits)

lemma lines_of_no_newline: "NL \<notin> set s \<Longrightarrow> lines_of s = ([], s)"
  by (induction s) auto

lemma lines_of_none: "fst (lines_of s) = [] \<Longrightarrow> NL \<notin> set s"
  by (induction s) (auto split: prod.splits list.splits if_splits)

lemma lines_of_newline:
  "NL \<notin> set s \<Longrightarrow> lines_of (s @ NL # r) = (s # fst (lines_of r), snd (lines_of r))"
  by (induction s) (auto split: prod.splits)

lemma lines_of_shorter: "length (snd (lines_of s)) + length (fst (lines_of s)) \<le> length s"
  by (induction s) (auto split: prod.splits list.splits)

lemma answer_frames_lines:
  "(\<And>n. ok n) \<Longrightarrow> i + length (fst (lines_of p)) < 2 ^ 31 \<Longrightarrow>
   answer_frames ok (int i) p outs =
    Done (False, int (i + length (fst (lines_of p))), snd (lines_of p), outs @ frames_from i (fst (lines_of p)))"
proof (induction "length p" arbitrary: i p outs rule: less_induct)
  case less
  show ?case
  proof (cases "memchr NL p")
    case None
    then have "lines_of p = ([], p)" using memchr_None lines_of_no_newline by blast
    then show ?thesis by (simp add: answer_frames.simps [of ok "int i" p] None)
  next
    case (Some k)
    have p: "lines_of p = (take k p # fst (lines_of (drop (Suc k) p)), snd (lines_of (drop (Suc k) p)))"
      using lines_of_newline memchr_split [OF Some] by metis
    have "length (drop (Suc k) p) < length p" using conjunct1 [OF memchr_split [OF Some]] by simp
    moreover have "Suc i + length (fst (lines_of (drop (Suc k) p))) < 2 ^ 31" using less.prems(2) p by simp
    ultimately have "answer_frames ok (int (Suc i)) (drop (Suc k) p) (outs @ [frame_reply i (take k p)]) =
        Done (False, int (Suc i + length (fst (lines_of (drop (Suc k) p)))), snd (lines_of (drop (Suc k) p)),
          (outs @ [frame_reply i (take k p)]) @ frames_from (Suc i) (fst (lines_of (drop (Suc k) p))))"
      using less.hyps less.prems(1) by blast
    moreover have "c_int (int i + 1) = Done (int (Suc i))" "int i + 1 = int (Suc i)"
      using less.prems(2) p by (simp_all add: c_int_def)
    ultimately show ?thesis
      using less.prems(1) by (simp add: answer_frames.simps [of ok "int i" p] Some p run_simps add.commute)
  qed
qed

section \<open>A connection answers the lines of its stream\<close>

definition pending :: "conn \<Rightarrow> bytes" where
  "pending c = take (frame_nbytes c) (frame_buf c)"

definition conn_ok :: "conn \<Rightarrow> bool" where
  "conn_ok c \<longleftrightarrow> length (frame_buf c) = FRAME_BUF_SIZ \<and> frame_nbytes c \<le> FRAME_BUF_SIZ \<and> 0 \<le> frame_i c"

lemma length_pending [simp]: "conn_ok c \<Longrightarrow> length (pending c) = frame_nbytes c"
  by (simp add: conn_ok_def pending_def)

lemma on_recv_lines:
  assumes c: "conn_ok c" and fits: "frame_nbytes c + length d \<le> FRAME_BUF_SIZ" and ok: "\<And>n. ok n"
    and few: "frame_i c + int (length (fst (lines_of (pending c @ d)))) < 2 ^ 31"
  shows "\<exists>c'. on_recv ok d c = Done (None, c') \<and> conn_ok c' \<and>
    pending c' = snd (lines_of (pending c @ d)) \<and>
    frame_i c' = frame_i c + int (length (fst (lines_of (pending c @ d)))) \<and>
    answers c' = answers c @ frames_from (nat (frame_i c)) (fst (lines_of (pending c @ d)))"
proof -
  define fb where "fb = take (frame_nbytes c) (frame_buf c) @ d @ drop (frame_nbytes c + length d) (frame_buf c)"
  have b: "blit (frame_nbytes c) d (frame_buf c) = Done fb"
    using c fits by (simp add: fb_def conn_ok_def)
  have l: "length fb = FRAME_BUF_SIZ" using c fits by (simp add: fb_def conn_ok_def)
  have p: "take (frame_nbytes c + length d) fb = pending c @ d"
    using c fits by (simp add: fb_def pending_def conn_ok_def)
  have i: "0 \<le> frame_i c" using c by (simp add: conn_ok_def)
  show ?thesis
  proof (cases "memchr NL (pending c @ d)")
    case None
    then have "lines_of (pending c @ d) = ([], pending c @ d)"
      using memchr_None lines_of_no_newline by blast
    then show ?thesis using None fits l i
      by (simp add: on_recv_def b p Let_def run_simps conn_ok_def pending_def [of "c\<lparr>frame_buf := _, frame_nbytes := _\<rparr>"])
  next
    case (Some k)
    define rest where "rest = snd (lines_of (pending c @ d))"
    have "nat (frame_i c) + length (fst (lines_of (pending c @ d))) < 2 ^ 31" using few i by simp
    then have a: "answer_frames ok (frame_i c) (pending c @ d) (answers c) =
      Done (False, frame_i c + int (length (fst (lines_of (pending c @ d)))), rest,
        answers c @ frames_from (nat (frame_i c)) (fst (lines_of (pending c @ d))))"
      using answer_frames_lines [where ok = ok and i = "nat (frame_i c)" and p = "pending c @ d" and outs = "answers c", OF ok] i
      by (simp add: conn_ok_def rest_def)
    have r: "length rest \<le> FRAME_BUF_SIZ"
      using lines_of_shorter [of "pending c @ d"] c fits by (simp add: rest_def)
    obtain fb' where "(if rest = [] then Done fb else blit 0 rest fb) = Done fb'"
        "length fb' = FRAME_BUF_SIZ" "take (length rest) fb' = rest"
      using r l by (cases "rest = []") auto
    then show ?thesis using Some fits r
      by (simp add: on_recv_def b p Let_def run_simps a rest_def [symmetric] i
          conn_ok_def pending_def [of "\<lparr>frame_buf = _, frame_nbytes = _, frame_i = _, answers = _\<rparr>"])
  qed
qed

text \<open>The pieces fit the buffer behind what is kept of the pieces before.\<close>

fun fits :: "bytes \<Rightarrow> bytes list \<Rightarrow> bool" where
  "fits r [] = True"
| "fits r (d # ds) \<longleftrightarrow> length r + length d \<le> FRAME_BUF_SIZ \<and> fits (snd (lines_of (r @ d))) ds"

lemma lines_of_rest: "lines_of (snd (lines_of s)) = ([], snd (lines_of s))"
  by (induction s) (auto split: prod.splits list.splits)

lemma lines_of_concat:
  "lines_of r = ([], r) \<Longrightarrow> lines_of (r @ d @ e) =
    (fst (lines_of (r @ d)) @ fst (lines_of (snd (lines_of (r @ d)) @ e)), snd (lines_of (snd (lines_of (r @ d)) @ e)))"
  using lines_of_append [of "r @ d" e] by simp

lemma recv_loop_lines:
  assumes "conn_ok c" "fits (pending c) ds" "lines_of (pending c) = ([], pending c)"
    "frame_i c + int (length (fst (lines_of (pending c @ concat ds)))) < 2 ^ 31" "[] \<notin> set ds" and ok: "\<And>n. ok n"
  shows "\<exists>c'. recv_loop ok breaks ds c = Done (if breaks then Broken else Hung_up, c') \<and>
    answers c' = answers c @ frames_from (nat (frame_i c)) (fst (lines_of (pending c @ concat ds)))"
  using assms(1-5)
proof (induction ds arbitrary: c)
  case Nil
  then show ?case by simp
next
  case (Cons d ds)
  have f: "frame_nbytes c + length d \<le> FRAME_BUF_SIZ" using Cons.prems by simp
  have q: "fst (lines_of (pending c @ d @ concat ds)) =
      fst (lines_of (pending c @ d)) @ fst (lines_of (snd (lines_of (pending c @ d)) @ concat ds))"
    using lines_of_concat [OF Cons.prems(3), of d "concat ds"] by simp
  have few: "frame_i c + int (length (fst (lines_of (pending c @ d)))) < 2 ^ 31" using Cons.prems(4) q by simp
  have i: "0 \<le> frame_i c" using Cons.prems(1) by (simp add: conn_ok_def)
  obtain c1 where c1: "on_recv ok d c = Done (None, c1)" "conn_ok c1" "pending c1 = snd (lines_of (pending c @ d))"
      "frame_i c1 = frame_i c + int (length (fst (lines_of (pending c @ d))))"
      "answers c1 = answers c @ frames_from (nat (frame_i c)) (fst (lines_of (pending c @ d)))"
    using on_recv_lines [where ok = ok, OF Cons.prems(1) f ok few] by blast
  obtain c' where "recv_loop ok breaks ds c1 = Done (if breaks then Broken else Hung_up, c')"
      "answers c' = answers c1 @ frames_from (nat (frame_i c1)) (fst (lines_of (pending c1 @ concat ds)))"
    using Cons.IH [OF c1(2)] Cons.prems(2,4,5) q c1(3,4) lines_of_rest by auto
  then show ?case using i Cons.prems by (auto simp: c1 q run_simps frames_from_append nat_add_distrib)
qed

text \<open>The first piece that does not fit ends the connection; what was complete before has been answered.\<close>

lemma recv_loop_dropped:
  assumes "conn_ok c" "fits (pending c) ds" "\<not> fits (pending c) (ds @ [d])" "lines_of (pending c) = ([], pending c)"
    "frame_i c + int (length (fst (lines_of (pending c @ concat ds)))) < 2 ^ 31" "[] \<notin> set ds" "d \<noteq> []" and ok: "\<And>n. ok n"
  shows "\<exists>c'. recv_loop ok breaks (ds @ d # es) c = Done (Dropped, c') \<and>
    answers c' = answers c @ frames_from (nat (frame_i c)) (fst (lines_of (pending c @ concat ds)))"
  using assms(1-7)
proof (induction ds arbitrary: c)
  case Nil
  then show ?case by (simp add: on_recv_def run_simps)
next
  case (Cons e ds)
  have f: "frame_nbytes c + length e \<le> FRAME_BUF_SIZ" using Cons.prems by simp
  have q: "fst (lines_of (pending c @ e @ concat ds)) =
      fst (lines_of (pending c @ e)) @ fst (lines_of (snd (lines_of (pending c @ e)) @ concat ds))"
    using lines_of_concat [OF Cons.prems(4), of e "concat ds"] by simp
  have few: "frame_i c + int (length (fst (lines_of (pending c @ e)))) < 2 ^ 31" using Cons.prems(5) q by simp
  have i: "0 \<le> frame_i c" using Cons.prems(1) by (simp add: conn_ok_def)
  obtain c1 where c1: "on_recv ok e c = Done (None, c1)" "conn_ok c1" "pending c1 = snd (lines_of (pending c @ e))"
      "frame_i c1 = frame_i c + int (length (fst (lines_of (pending c @ e))))"
      "answers c1 = answers c @ frames_from (nat (frame_i c)) (fst (lines_of (pending c @ e)))"
    using on_recv_lines [where ok = ok, OF Cons.prems(1) f ok few] by blast
  obtain c' where "recv_loop ok breaks (ds @ d # es) c1 = Done (Dropped, c')"
      "answers c' = answers c1 @ frames_from (nat (frame_i c1)) (fst (lines_of (pending c1 @ concat ds)))"
    using Cons.IH [OF c1(2)] Cons.prems(2,3,5-7) q c1(3,4) lines_of_rest by auto
  then show ?case using i Cons.prems by (auto simp: c1 q run_simps frames_from_append nat_add_distrib)
qed

section \<open>Lines that are short enough\<close>

definition short_lines :: "nat \<Rightarrow> bytes \<Rightarrow> bool" where
  "short_lines n s \<longleftrightarrow> (\<forall>l \<in> set (fst (lines_of s)). length l \<le> n) \<and> length (snd (lines_of s)) \<le> n"

lemma rest_is_a_start:
  assumes "lines_of r = ([], r)"
  shows "\<exists>l. (l \<in> set (fst (lines_of (r @ s))) \<or> l = snd (lines_of (r @ s))) \<and> length r \<le> length l"
  using assms
proof (induction s arbitrary: r)
  case Nil
  then show ?case by auto
next
  case (Cons c s)
  have n: "NL \<notin> set r" using lines_of_none Cons.prems by (metis fst_conv)
  show ?case
  proof (cases "c = NL")
    case True
    then show ?thesis using lines_of_newline [OF n, of s] by auto
  next
    case False
    then have "lines_of (r @ [c]) = ([], r @ [c])" using n by (intro lines_of_no_newline) auto
    from Cons.IH [OF this] show ?thesis by fastforce
  qed
qed

lemma short_fits:
  assumes "lines_of r = ([], r)" "short_lines 256 (r @ concat ds)" "\<forall>d \<in> set ds. length d \<le> 256"
  shows "fits r ds"
  using assms
proof (induction ds arbitrary: r)
  case Nil
  show ?case by simp
next
  case (Cons d ds)
  have "length r \<le> 256"
    using rest_is_a_start [OF Cons.prems(1), of "d @ concat ds"] Cons.prems(2)
    by (auto simp: short_lines_def intro: le_trans)
  moreover have "short_lines 256 (snd (lines_of (r @ d)) @ concat ds)"
    using Cons.prems(2) lines_of_concat [OF Cons.prems(1), of d "concat ds"] by (auto simp: short_lines_def)
  ultimately show ?case using Cons.IH [OF lines_of_rest [of "r @ d"]] Cons.prems(3) by simp
qed

definition new_conn :: conn where
  "new_conn = \<lparr>frame_buf = zeros FRAME_BUF_SIZ, frame_nbytes = 0, frame_i = 0, answers = []\<rparr>"

lemma new_conn_ok [simp]: "conn_ok new_conn" "pending new_conn = []" "answers new_conn = []" "frame_i new_conn = 0"
  by (simp_all add: new_conn_def conn_ok_def pending_def)

text \<open>
  A client that is served: \<open>recv\<close> returns pieces of 1 to 256 bytes and does not fail, every \<open>send\<close>
  succeeds, no line is longer than 256 bytes, and there are fewer than \<open>2 ^ 31\<close> lines.
\<close>

definition peer_ok :: "peer \<Rightarrow> bool" where
  "peer_ok p \<longleftrightarrow> [] \<notin> set (chunks p) \<and> (\<forall>d \<in> set (chunks p). length d \<le> 256) \<and> (\<forall>n. send_ok p n) \<and> \<not> recv_breaks p \<and>
     short_lines 256 (concat (chunks p)) \<and> length (fst (lines_of (concat (chunks p)))) < 2 ^ 31"

lemma peer_answered:
  assumes "peer_ok p"
  shows "\<exists>c. recv_loop (send_ok p) (recv_breaks p) (chunks p) new_conn = Done (Hung_up, c) \<and>
    answers c = frames_from 0 (fst (lines_of (concat (chunks p))))"
  using recv_loop_lines [of new_conn "chunks p" "send_ok p" "recv_breaks p"] short_fits [of "[]" "chunks p"] assms
  by (simp add: peer_ok_def)

lemma accept_loop_answers:
  "\<forall>p \<in> set peers. peer_ok p \<Longrightarrow> accept_loop peers (zeros FRAME_BUF_SIZ) 0 outs =
    Done (outs @ map (\<lambda>p. frames_from 0 (fst (lines_of (concat (chunks p))))) peers)"
proof (induction peers arbitrary: outs)
  case (Cons p ps)
  obtain c where "recv_loop (send_ok p) (recv_breaks p) (chunks p) new_conn = Done (Hung_up, c)"
      "answers c = frames_from 0 (fst (lines_of (concat (chunks p))))"
    using peer_answered Cons.prems by auto
  then show ?case using Cons by (simp add: new_conn_def run_simps)
qed simp

section \<open>The server never leaves its buffer\<close>

text \<open>What bounds the counter: the lines that have been answered and the bytes that can still hold lines.\<close>

lemma answer_frames_done:
  "0 \<le> i \<Longrightarrow> i + int (length p) < 2 ^ 31 \<Longrightarrow>
   \<exists>b j r outs'. answer_frames ok i p outs = Done (b, j, r, outs') \<and> length r \<le> length p \<and>
     0 \<le> j \<and> j + int (length r) \<le> i + int (length p)"
proof (induction ok i p outs rule: answer_frames.induct)
  case (1 ok i p outs)
  show ?case
  proof (cases "memchr NL p")
    case None
    then show ?thesis using "1.prems" by (auto simp: answer_frames.simps [of ok i p])
  next
    case (Some k)
    have k: "k < length p" using memchr_split [OF Some] by blast
    show ?thesis
    proof (cases "ok (length outs)")
      case True
      have c: "c_int (i + 1) = Done (i + 1)" using "1.prems" k by simp
      show ?thesis using "1.IH" [OF Some _ c] "1.prems" Some True k c
        by (fastforce simp: answer_frames.simps [of ok i p] run_simps of_nat_diff)
    next
      case False
      then show ?thesis using "1.prems" Some by (auto simp: answer_frames.simps [of ok i p])
    qed
  qed
qed

lemma on_recv_done:
  assumes "conn_ok c" "frame_i c + int (frame_nbytes c + length d) < 2 ^ 31"
  shows "\<exists>e c'. on_recv ok d c = Done (e, c') \<and>
    (e \<noteq> None \<or> conn_ok c' \<and> frame_i c' + int (frame_nbytes c') \<le> frame_i c + int (frame_nbytes c + length d))"
proof (cases "frame_nbytes c + length d \<le> FRAME_BUF_SIZ")
  case False
  then show ?thesis by (simp add: on_recv_def)
next
  case True
  define fb where "fb = take (frame_nbytes c) (frame_buf c) @ d @ drop (frame_nbytes c + length d) (frame_buf c)"
  have b: "blit (frame_nbytes c) d (frame_buf c) = Done fb"
    using assms True by (simp add: fb_def conn_ok_def)
  have l: "length fb = FRAME_BUF_SIZ" using assms True by (simp add: fb_def conn_ok_def)
  then have p: "length (take (frame_nbytes c + length d) fb) = frame_nbytes c + length d" using True by simp
  obtain failed i rest outs where f:
      "answer_frames ok (frame_i c) (take (frame_nbytes c + length d) fb) (answers c) = Done (failed, i, rest, outs)"
      "length rest \<le> frame_nbytes c + length d" "0 \<le> i"
      "i + int (length rest) \<le> frame_i c + int (frame_nbytes c + length d)"
    using answer_frames_done [of "frame_i c" "take (frame_nbytes c + length d) fb" ok "answers c"] assms p
    unfolding p by (auto simp: conn_ok_def)
  show ?thesis using True f l assms(1)
    by (cases "rest = []") (auto simp: on_recv_def b Let_def run_simps conn_ok_def)
qed

lemma recv_loop_done:
  "conn_ok c \<Longrightarrow> frame_i c + int (frame_nbytes c + length (concat ds)) < 2 ^ 31 \<Longrightarrow>
   \<exists>r. recv_loop ok breaks ds c = Done r"
proof (induction ds arbitrary: c)
  case (Cons d ds)
  have "frame_i c + int (frame_nbytes c + length d) < 2 ^ 31" using Cons.prems(2) by simp
  from on_recv_done [OF Cons.prems(1) this] obtain e c' where r: "on_recv ok d c = Done (e, c')"
    "e \<noteq> None \<or> conn_ok c' \<and> frame_i c' + int (frame_nbytes c') \<le> frame_i c + int (frame_nbytes c + length d)"
    by blast
  show ?case
  proof (cases e)
    case None
    then have "conn_ok c'" "frame_i c' + int (frame_nbytes c' + length (concat ds)) < 2 ^ 31"
      using r(2) Cons.prems(2) by auto
    then show ?thesis using Cons.IH r(1) None by (simp add: run_simps)
  qed (use r(1) in \<open>simp add: run_simps\<close>)
qed simp

lemma accept_loop_done:
  "\<forall>p \<in> set peers. length (concat (chunks p)) < 2 ^ 31 \<Longrightarrow>
   \<exists>r. accept_loop peers (zeros FRAME_BUF_SIZ) 0 outs = Done r"
proof (induction peers arbitrary: outs)
  case (Cons p ps)
  have "frame_i new_conn + int (frame_nbytes new_conn + length (concat (chunks p))) < 2 ^ 31"
    using Cons.prems by (simp add: new_conn_def)
  from recv_loop_done [OF new_conn_ok(1) this] obtain e c where
    "recv_loop (send_ok p) (recv_breaks p) (chunks p) new_conn = Done (e, c)" by (metis surj_pair)
  then show ?case using Cons by (simp add: new_conn_def run_simps)
qed simp

text \<open>
  Whatever the clients send, fewer than \<open>2 ^ 31\<close> bytes each, in whatever pieces, and whatever calls
  fail, the server stays inside its buffer and its counter inside an \<open>int\<close>, and it leaves its name
  behind only when \<open>unlink\<close> fails.
\<close>

theorem frame_server_safe:
  assumes "\<forall>p \<in> set peers. length (concat (chunks p)) < 2 ^ 31"
  shows "\<exists>e. frame_main env there peers = Done e \<and> status_failed e \<and>
    name_left e = (if socket_ok env \<and> unlink_ok env then bind_ok env \<and> \<not> unlink_end_ok env else there)"
  using accept_loop_done [OF assms, of "[]"] by (auto simp: frame_main_def sock_finish_def run_simps)

text \<open>C22: When every call succeeds, each client gets the numbered answers to the lines of its stream, in
  whatever pieces of at most 256 bytes the stream arrives, provided that no line is longer than 256
  bytes and that there are fewer than \<open>2 ^ 31\<close> lines.
\<close>

theorem frame_server_answers:
  assumes "\<forall>p \<in> set peers. peer_ok p"
    and "socket_ok env" "unlink_ok env" "bind_ok env" "listen_ok env"
  shows "\<exists>e. frame_main env there peers = Done e \<and>
    replies e = map (\<lambda>p. frames_from 0 (fst (lines_of (concat (chunks p))))) peers"
  using accept_loop_answers [OF assms(1), of "[]"] assms(2-5)
  by (simp add: frame_main_def sock_finish_def run_simps)

text \<open>Sharpness: a line of 257 bytes is dropped or answered, as its pieces happen to arrive.\<close>

theorem frame_pieces_matter:
  defines "x \<equiv> replicate 256 (CHR ''x'')" and "y \<equiv> replicate 255 (CHR ''y'')"
  shows "concat [x, ''x'', NL # y] = concat [x, ''x'' @ [NL], y] \<and>
    (\<exists>c. recv_loop (\<lambda>n. True) False [x, ''x'', NL # y] new_conn = Done (Dropped, c) \<and> answers c = []) \<and>
    (\<exists>c. recv_loop (\<lambda>n. True) False [x, ''x'' @ [NL], y] new_conn = Done (Hung_up, c) \<and>
      answers c = [frame_reply 0 (x @ ''x'')])"
proof -
  have n: "NL \<notin> set x" "NL \<notin> set (x @ ''x'')" "NL \<notin> set y" by (auto simp: x_def y_def)
  have l: "length x = 256" "length y = 255" "x \<noteq> []" "y \<noteq> []" by (simp_all add: x_def y_def)
  have lx: "lines_of x = ([], x)" "lines_of (x @ ''x'') = ([], x @ ''x'')" "lines_of y = ([], y)"
    "lines_of (x @ [CHR ''x'', NL]) = ([x @ ''x''], [])"
    using lines_of_no_newline n lines_of_newline [OF n(2), of "[]"] by auto
  have lxy: "lines_of (x @ CHR ''x'' # NL # y) = ([x @ ''x''], y)"
    using lines_of_newline [OF n(2), of y] lx(3) by simp
  have "\<exists>c. recv_loop (\<lambda>n. True) False ([x, ''x''] @ (NL # y) # []) new_conn = Done (Dropped, c) \<and> answers c = []"
    using recv_loop_dropped [of new_conn "[x, ''x'']" "NL # y" "\<lambda>n. True" False "[]"] l lx by simp
  moreover have "\<exists>c. recv_loop (\<lambda>n. True) False [x, ''x'' @ [NL], y] new_conn = Done (Hung_up, c) \<and>
      answers c = [frame_reply 0 (x @ ''x'')]"
    using recv_loop_lines [of new_conn "[x, ''x'' @ [NL], y]" "\<lambda>n. True" False] l lx lxy by simp
  ultimately show ?thesis by simp
qed

section \<open>The client and the server together\<close>

lemma piece_length: "d \<in> set ds \<Longrightarrow> length d \<le> length (concat ds)"
  by (induction ds) auto

theorem ping_answered:
  fixes p :: peer
  assumes "concat (chunks p) = ''Ping'' @ [NL]" "[] \<notin> set (chunks p)" "\<forall>n. send_ok p n" "\<not> recv_breaks p"
  shows "\<exists>c a. recv_loop (send_ok p) (recv_breaks p) (chunks p) new_conn = Done (Hung_up, c) \<and> answers c = [a] \<and>
    stream_client True True True (Some a) = ([concat (chunks p)], Some (''Frame0: Ping received!'' @ [NL]), False)"
proof -
  have "length d \<le> 256" if "d \<in> set (chunks p)" for d
    using piece_length [OF that] assms(1) by simp
  then have "peer_ok p" using assms by (simp add: peer_ok_def short_lines_def)
  then obtain c where "recv_loop (send_ok p) (recv_breaks p) (chunks p) new_conn = Done (Hung_up, c)"
      "answers c = [frame_reply 0 ''Ping'']"
    using peer_answered [of p] assms(1) by auto
  moreover have "frame_reply 0 ''Ping'' = ''Frame0: Ping received!'' @ [NL, NUL]" by code_simp
  ultimately show ?thesis using assms(1) by (simp add: stream_client_def cstr_def)
qed

section \<open>Instances\<close>

definition sample_peer :: peer where
  "sample_peer = \<lparr>chunks = [''on'', ''e'' @ [NL] @ ''two'', [NL]], send_ok = (\<lambda>n. True), recv_breaks = False\<rparr>"

definition sock_fine :: sock_env where
  "sock_fine = \<lparr>socket_ok = True, unlink_ok = True, bind_ok = True, listen_ok = True, unlink_end_ok = True\<rparr>"

theorem frame_server_answers_witness:
  "\<exists>e. frame_main sock_fine True [sample_peer, sample_peer] = Done e \<and>
    replies e = [[frame_reply 0 ''one'', frame_reply 1 ''two''], [frame_reply 0 ''one'', frame_reply 1 ''two'']]"
proof -
  have "peer_ok sample_peer" by (simp add: peer_ok_def sample_peer_def short_lines_def)
  then show ?thesis
    using frame_server_answers [of "[sample_peer, sample_peer]" sock_fine True]
    by (simp add: sock_fine_def sample_peer_def)
qed

theorem ping_answered_witness:
  "\<exists>c a. recv_loop (\<lambda>n. True) False [''Pi'', ''ng'', [NL]] new_conn = Done (Hung_up, c) \<and> answers c = [a] \<and>
    stream_client True True True (Some a) = ([''Ping'' @ [NL]], Some (''Frame0: Ping received!'' @ [NL]), False)"
  using ping_answered [of "\<lparr>chunks = [''Pi'', ''ng'', [NL]], send_ok = (\<lambda>n. True), recv_breaks = False\<rparr>"] by simp

end
