(* ===== verification/Echo_Servers.thy ===== *)
theory Echo_Servers
  imports Frame_Server
begin

text \<open>
  The socket programs of LAB_17 that send a message back: the local datagram socket
  (task_af_local_udp_socket), UDP and TCP over the loopback address (task_udp_inet, task_tcp_inet), and the
  UDP server of the raw client (task_raw_udp/src/server.c). A datagram arrives whole or not at all.
\<close>

section \<open>Buffers\<close>

text \<open>\<open>recv\<close> into a buffer: what does not fit is lost, what is not overwritten stays.\<close>

definition recv_into :: "bytes \<Rightarrow> bytes \<Rightarrow> bytes" where
  "recv_into d buf = (let n = min (length d) (length buf) in take n d @ drop n buf)"

text \<open>\<open>strncat(buffer, "!", 2)\<close>.\<close>

definition strncat_bang :: "bytes \<Rightarrow> bytes run" where
  "strncat_bang buf = (if NUL \<notin> set buf then Fault OutOfBounds else blit (length (cstr buf)) [CHR ''!'', NUL] buf)"

definition strncmp_eq :: "nat \<Rightarrow> string \<Rightarrow> string \<Rightarrow> bool" where
  "strncmp_eq n a b \<longleftrightarrow> take n (a @ [NUL]) = take n (b @ [NUL])"

lemma length_recv_into [simp]: "length (recv_into d buf) = length buf"
  by (simp add: recv_into_def Let_def)

lemma recv_into_full: "length d = length buf \<Longrightarrow> recv_into d buf = d"
  by (simp add: recv_into_def)

section \<open>The local datagram socket\<close>

text \<open>
  A datagram and whether the answer can be sent; \<open>recvfrom\<close> fails behind the last one. What is printed
  is \<open>None\<close> for an empty payload.
\<close>

definition on_datagram :: "bytes \<Rightarrow> bytes \<Rightarrow> bytes \<times> string option" where
  "on_datagram d buf =
     (let buf1 = recv_into d buf; nbytes = min (length d) (length buf) in
      if nbytes = 0 then (buf1, None)
      else let buf2 = buf1[(if length buf \<le> nbytes then length buf - 1 else nbytes) := NUL] in (buf2, Some (cstr buf2)))"

abbreviation received_text :: string where "received_text \<equiv> ''Message received!''"

fun local_udp_loop :: "(bytes \<times> bool) list \<Rightarrow> bytes \<Rightarrow> string option list \<Rightarrow> bytes list \<Rightarrow> (string option list \<times> bytes list) run" where
  "local_udp_loop [] buf shown sent = Done (shown, sent)"
| "local_udp_loop ((d, ok) # ds) buf shown sent =
     (case on_datagram d buf of (buf1, s) \<Rightarrow>
        bind_run (blit 0 (received_text @ [NUL]) buf1) (\<lambda>buf2.
          if \<not> ok then Done (shown @ [s], sent)
          else local_udp_loop ds buf2 (shown @ [s]) (sent @ [take (length received_text + 1) buf2])))"

definition local_udp_server :: "sock_env \<Rightarrow> bool \<Rightarrow> (bytes \<times> bool) list \<Rightarrow> (string option list \<times> sock_end) run" where
  "local_udp_server env there ds =
     (if \<not> socket_ok env then Done ([], sock_finish env False there [] True)
      else if \<not> unlink_ok env then Done ([], sock_finish env False there [] True)
      else if \<not> bind_ok env then Done ([], sock_finish env True False [] True)
      else bind_run (local_udp_loop ds (zeros 256) [] []) (\<lambda>(shown, sent).
        Done (shown, sock_finish env True True [sent] True)))"

text \<open>The client; \<open>got\<close> is the datagram that \<open>recvfrom\<close> returns.\<close>

definition local_udp_client :: "sock_env \<Rightarrow> bool \<Rightarrow> bool \<Rightarrow> bytes option \<Rightarrow> (bytes list \<times> string option \<times> sock_end) run" where
  "local_udp_client env there sends got =
     (if \<not> socket_ok env then Done ([], None, sock_finish env False there [] True)
      else if \<not> unlink_ok env then Done ([], None, sock_finish env False there [] True)
      else if \<not> bind_ok env then Done ([], None, sock_finish env True False [] True)
      else bind_run (blit 0 (''Ping'' @ [NUL]) (zeros 256)) (\<lambda>buf.
        if \<not> sends then Done ([], None, sock_finish env True True [] True)
        else case got of
          None \<Rightarrow> Done ([take 5 buf], None, sock_finish env True True [] True)
        | Some d \<Rightarrow> Done ([take 5 buf], snd (on_datagram d buf), sock_finish env True True [] False)))"

section \<open>The server of the raw client\<close>

text \<open>\<open>printf\<close> and \<open>strncat\<close> on what has been received; the answer is the whole buffer.\<close>

definition echo :: "bytes \<Rightarrow> bytes \<Rightarrow> (string \<times> bytes) run" where
  "echo d buf =
     (let buf1 = recv_into d buf in
      bind_run (strncat_bang buf1) (\<lambda>buf2. Done (cstr buf1, buf2)))"

text \<open>Each message with what the server prints and the answer; \<open>recvfrom\<close> fails behind the last one.\<close>

fun raw_udp_server :: "bytes list \<Rightarrow> bytes \<Rightarrow> (string \<times> bytes) list \<Rightarrow> (string \<times> bytes) list run" where
  "raw_udp_server [] buf log = Done log"
| "raw_udp_server (d # ds) buf log =
     bind_run (echo d buf) (\<lambda>(s, buf1). raw_udp_server ds buf1 (log @ [(s, buf1)]))"

section \<open>UDP and TCP with a client\<close>

text \<open>
  The line that the client reads: at the end of file its buffer keeps the last answer. The last byte of
  the string is cut off; of an empty string that is the byte before the buffer.
\<close>

definition client_line :: "string \<Rightarrow> bytes \<Rightarrow> (bytes \<times> string) run" where
  "client_line inp buf =
     (let (buf1, rest) = (case fgets 1024 inp of
          None \<Rightarrow> (buf, inp)
        | Some (line, rest) \<Rightarrow> (line @ [NUL] @ drop (length line + 1) buf, rest)) in
      if NUL \<notin> set buf1 \<or> cstr buf1 = [] then Fault OutOfBounds
      else Done (buf1[length (cstr buf1) - 1 := NUL], rest))"

text \<open>The test for the end, in the client and (with the arguments exchanged) in the UDP server.\<close>

definition says_close :: "bytes \<Rightarrow> bool" where
  "says_close buf \<longleftrightarrow> strncmp_eq (length (cstr buf)) (cstr buf) ''close'' \<or> buf ! 0 = CHR 0xFF"

datatype echo_round =
    Goes string bytes bytes
  | Quits bytes bool

text \<open>
  One round: the client reads a line and sends its buffer, the server answers. \<open>Goes\<close> has the rest of
  the input and the two buffers, \<open>Quits\<close> the buffer of the server and whether it ends, too.
\<close>

definition udp_round :: "string \<Rightarrow> bytes \<Rightarrow> bytes \<Rightarrow> echo_round run" where
  "udp_round inp cbuf sbuf =
     bind_run (client_line inp cbuf) (\<lambda>(cb, rest).
       let sb = recv_into cb sbuf in
       if says_close sb then Done (Quits sb True)
       else bind_run (strncat_bang sb) (\<lambda>sb2.
         if says_close cb then Done (Quits sb2 False) else Done (Goes rest (recv_into sb2 cb) sb2)))"

definition tcp_round :: "string \<Rightarrow> bytes \<Rightarrow> bytes \<Rightarrow> echo_round run" where
  "tcp_round inp cbuf sbuf =
     bind_run (client_line inp cbuf) (\<lambda>(cb, rest).
       if says_close cb then Done (Quits sbuf False)
       else bind_run (strncat_bang (recv_into cb sbuf)) (\<lambda>sb2. Done (Goes rest (recv_into sb2 cb) sb2)))"

text \<open>What the client prints, round by round; \<open>None\<close> is a session that never ends.\<close>

partial_function (option) echo_session ::
    "(string \<Rightarrow> bytes \<Rightarrow> bytes \<Rightarrow> echo_round run) \<Rightarrow> string \<Rightarrow> bytes \<Rightarrow> bytes \<Rightarrow> string list \<Rightarrow>
     (string list \<times> bytes \<times> bool) run option" where
  "echo_session step inp cbuf sbuf log =
     (case step inp cbuf sbuf of
        Fault f \<Rightarrow> Some (Fault f)
      | Diverge \<Rightarrow> Some Diverge
      | Done (Quits sb e) \<Rightarrow> Some (Done (log, sb, e))
      | Done (Goes rest cb sb) \<Rightarrow> echo_session step rest cb sb (log @ [cstr cb]))"

text \<open>The UDP client begins with a \<open>ping\<close>; \<open>sbuf\<close> is the buffer of the server.\<close>

definition udp_inet :: "string \<Rightarrow> bytes \<Rightarrow> (string list \<times> bytes \<times> bool) run option" where
  "udp_inet inp sbuf =
     (case echo ''ping'' sbuf of
        Done (s, sb) \<Rightarrow> echo_session udp_round inp (recv_into sb (zeros 1024)) sb []
      | Fault f \<Rightarrow> Some (Fault f)
      | Diverge \<Rightarrow> Some Diverge)"

definition tcp_inet :: "string \<Rightarrow> bytes \<Rightarrow> (string list \<times> bytes \<times> bool) run option" where
  "tcp_inet inp sbuf = echo_session tcp_round inp (zeros 1024) sbuf []"

text \<open>
  The TCP server serves the clients one after the other and asks after each whether to go on; \<open>ask\<close> is
  its standard input, of which every question reads one byte.
\<close>

fun tcp_server :: "string list \<Rightarrow> string \<Rightarrow> bytes \<Rightarrow> string list list \<Rightarrow> string list list run option" where
  "tcp_server [] ask sbuf logs = Some (Done logs)"
| "tcp_server (inp # inps) ask sbuf logs =
     (case tcp_inet inp sbuf of
        None \<Rightarrow> None
      | Some (Fault f) \<Rightarrow> Some (Fault f)
      | Some Diverge \<Rightarrow> Some Diverge
      | Some (Done (log, sb, e)) \<Rightarrow>
          (case fgets 2 ask of
             None \<Rightarrow> Some (Done (logs @ [log]))
           | Some (a, rest) \<Rightarrow>
               if hd a = CHR ''y'' then tcp_server inps rest sb (logs @ [log]) else Some (Done (logs @ [log]))))"

section \<open>What the local datagram server prints\<close>

lemma on_datagram_shown:
  assumes "length buf = 256"
  shows "on_datagram d buf = (fst (on_datagram d buf), if d = [] then None else Some (cstr (take 255 d)))"
    and "length (fst (on_datagram d buf)) = 256"
proof -
  have "cstr ((recv_into d buf)[(if 256 \<le> min (length d) 256 then 255 else min (length d) 256) := NUL]) =
      cstr (take 255 d)"
  proof (cases "length d < 256")
    case True
    then have "(recv_into d buf)[length d := NUL] = d @ NUL # drop (Suc (length d)) buf"
      using assms by (simp add: recv_into_def Let_def list_update_append Cons_nth_drop_Suc [symmetric])
    then show ?thesis using True by (simp add: cstr_snoc_NUL)
  next
    case False
    then have "(recv_into d buf)[255 := NUL] = take 255 d @ [NUL]"
      using assms by (intro nth_equalityI) (auto simp: recv_into_def Let_def nth_append nth_list_update)
    then show ?thesis using False cstr_snoc_NUL [of "take 255 d" "[]"] by simp
  qed
  then show "on_datagram d buf = (fst (on_datagram d buf), if d = [] then None else Some (cstr (take 255 d)))"
    using assms by (auto simp: on_datagram_def Let_def)
  show "length (fst (on_datagram d buf)) = 256" using assms by (simp add: on_datagram_def Let_def)
qed

lemma local_udp_loop_answers:
  assumes "\<forall>(d, ok) \<in> set ds. ok" "length buf = 256"
  shows "local_udp_loop ds buf shown sent =
    Done (shown @ map (\<lambda>(d, ok). if d = [] then None else Some (cstr (take 255 d))) ds,
          sent @ replicate (length ds) (received_text @ [NUL]))"
  using assms
proof (induction ds arbitrary: buf shown sent)
  case (Cons p ds)
  obtain d ok where p: "p = (d, ok)" by (cases p)
  obtain b where b: "on_datagram d buf = (b, if d = [] then None else Some (cstr (take 255 d)))" "length b = 256"
    using on_datagram_shown [OF Cons.prems(2), of d] by metis
  have "blit 0 (received_text @ [NUL]) b = Done (received_text @ [NUL] @ drop 18 b)"
    using b(2) by (simp add: eval_nat_numeral)
  then show ?case using Cons b p by (simp add: run_simps replicate_append_same [symmetric])
qed simp

section \<open>The exclamation marks add up\<close>

lemma cstr_bangs: "NUL \<notin> set m \<Longrightarrow> cstr (m @ replicate j (CHR ''!'') @ NUL # r) = m @ replicate j (CHR ''!'')"
  using cstr_append_NUL [of "m @ replicate j (CHR ''!'')" r] by simp

lemma echo_bangs:
  assumes "NUL \<notin> set m" "length m + j \<le> 1024"
  shows "echo m (m @ replicate j (CHR ''!'') @ zeros (1024 - length m - j)) =
    (if length m + j < 1023 then Done (m @ replicate j (CHR ''!''),
        m @ replicate (Suc j) (CHR ''!'') @ zeros (1024 - length m - Suc j))
     else Fault OutOfBounds)"
proof -
  define b where "b = m @ replicate j (CHR ''!'') @ zeros (1024 - length m - j)"
  have r: "recv_into m b = b" using assms(2) by (simp add: b_def recv_into_def Let_def)
  show ?thesis
  proof (cases "length m + j < 1024")
    case False
    then have "NUL \<notin> set b" using assms by (auto simp: b_def zeros_def)
    then show ?thesis unfolding b_def [symmetric] using False by (simp add: echo_def r Let_def strncat_bang_def run_simps)
  next
    case True
    then obtain k where k: "1024 - length m - j = Suc k" by (metis Suc_diff_Suc diff_diff_left)
    then have c: "cstr b = m @ replicate j (CHR ''!'')" "NUL \<in> set b"
      using cstr_bangs [OF assms(1), of j "zeros k"] by (simp_all add: b_def zeros_def)
    show ?thesis
    proof (cases k)
      case 0
      then have "length m + j = 1023" using k by simp
      then show ?thesis unfolding b_def [symmetric] using c k
        by (simp add: echo_def r Let_def strncat_bang_def blit_def run_simps) (simp add: b_def)
    next
      case (Suc i)
      then have l: "length m + j < 1023" using k by simp
      have z: "zeros (1024 - length m - Suc j) = NUL # zeros i"
      proof -
        have "1024 - length m - Suc j = Suc i" using k Suc by linarith
        then show ?thesis by (simp add: zeros_def)
      qed
      have "b = (m @ replicate j (CHR ''!'')) @ NUL # NUL # zeros i"
        using k Suc by (simp add: b_def zeros_def)
      then have "blit (length m + j) [CHR ''!'', NUL] b = Done (m @ replicate (Suc j) (CHR ''!'') @ zeros (1024 - length m - Suc j))"
        unfolding z by (simp add: replicate_append_same [symmetric])
      then show ?thesis unfolding b_def [symmetric] using c l by (simp add: echo_def r Let_def strncat_bang_def run_simps)
    qed
  qed
qed

lemma echo_new: "length m \<le> 1024 \<Longrightarrow> echo m (zeros 1024) = echo m (m @ zeros (1024 - length m))"
  by (simp add: echo_def recv_into_def zeros_def)

lemma raw_udp_server_bangs:
  assumes "NUL \<notin> set m" "length m + j \<le> 1023"
  shows "raw_udp_server (replicate k m) (m @ replicate j (CHR ''!'') @ zeros (1024 - length m - j)) log =
    (if length m + j + k \<le> 1023 then Done (log @ map (\<lambda>i. (m @ replicate i (CHR ''!''),
      m @ replicate (Suc i) (CHR ''!'') @ zeros (1024 - length m - Suc i))) [j..<j + k])
     else Fault OutOfBounds)"
  using assms(2)
proof (induction k arbitrary: j log)
  case (Suc k)
  show ?case
  proof (cases "length m + j < 1023")
    case True
    have "[j..<j + Suc k] = j # [Suc j..<Suc j + k]" by (simp add: upt_conv_Cons)
    then show ?thesis using Suc.IH [of "Suc j"] True echo_bangs [OF assms(1), of j]
      by (simp add: run_simps del: upt_Suc)
  next
    case False
    then show ?thesis using Suc.prems echo_bangs [OF assms(1), of j] by (simp add: run_simps)
  qed
qed simp

lemma raw_udp_server_counts_all:
  assumes "NUL \<notin> set m" "length m \<le> 1023"
  shows "raw_udp_server (replicate k m) (zeros 1024) [] =
    (if length m + k \<le> 1023 then Done (map (\<lambda>i. (m @ replicate i (CHR ''!''),
      m @ replicate (i + 1) (CHR ''!'') @ zeros (1023 - length m - i))) [0..<k])
     else Fault OutOfBounds)"
proof (cases k)
  case 0
  then show ?thesis using assms by simp
next
  case (Suc n)
  have "raw_udp_server (replicate k m) (zeros 1024) [] =
      raw_udp_server (replicate k m) (m @ replicate 0 (CHR ''!'') @ zeros (1024 - length m - 0)) []"
    using echo_new [of m] assms(2) Suc by simp
  then show ?thesis using raw_udp_server_bangs [OF assms(1), of 0 k "[]"] assms(2) by simp
qed

text \<open>
  The buffer of the server is never cleared. The same message is answered with one more exclamation
  mark each time, until \<open>strncat\<close> writes past the end of the buffer.
\<close>

theorem raw_udp_server_counts:
  assumes "NUL \<notin> set m" "length m \<le> 1023"
  shows "raw_udp_server (replicate k m) (zeros 1024) [] =
    (if length m + k \<le> 1023 then Done (map (\<lambda>i. (m @ replicate i (CHR ''!''),
      m @ replicate (i + 1) (CHR ''!'') @ zeros (1023 - length m - i))) [0..<k])
     else Fault OutOfBounds)"
  using raw_udp_server_counts_all [OF assms] .

section \<open>A round of the client and the server\<close>

definition typed_ok :: "string \<Rightarrow> bool" where
  "typed_ok l \<longleftrightarrow> NUL \<notin> set l \<and> NL \<notin> set l \<and> length l \<le> 1022"

lemma client_line_typed:
  assumes "typed_ok l" "length buf = 1024"
  shows "\<exists>cb. client_line (l @ NL # rest) buf = Done (cb, rest) \<and> cstr cb = l \<and> length cb = 1024"
proof -
  define b where "b = (l @ [NL]) @ NUL # drop (length l + 2) buf"
  have f: "fgets 1024 (l @ NL # rest) = Some (l @ [NL], rest)"
    using assms(1) by (simp add: fgets_def fgets_upto_line typed_ok_def)
  have c: "cstr b = l @ [NL]" "NUL \<in> set b"
    using assms(1) cstr_append_NUL [of "l @ [NL]"] by (auto simp: b_def typed_ok_def)
  have u: "b[length l := NUL] = l @ NUL # NUL # drop (length l + 2) buf" by (simp add: b_def list_update_append)
  have "cstr (b[length l := NUL]) = l" unfolding u using assms(1) by (simp add: cstr_append_NUL typed_ok_def)
  moreover have "length b = 1024" using assms by (simp add: b_def typed_ok_def)
  moreover have e: "(l @ [NL]) @ [NUL] @ drop (length (l @ [NL]) + 1) buf = b" by (simp add: b_def)
  ultimately show ?thesis using c e by (simp add: client_line_def f Let_def del: append_assoc)
qed

lemma cstr_split: "NUL \<in> set buf \<Longrightarrow> \<exists>r. buf = cstr buf @ NUL # r"
  by (induction buf) (auto simp: cstr_def)

lemma client_line_eof:
  assumes "cstr buf = s @ [c]" "length s < length buf" "NUL \<in> set buf"
  shows "\<exists>cb. client_line [] buf = Done (cb, []) \<and> cstr cb = s \<and> length cb = length buf"
proof -
  have "\<exists>r. buf = s @ c # NUL # r" using cstr_split [OF assms(3)] assms(1) by simp
  then obtain r where r: "buf = s @ c # NUL # r" by blast
  have "NUL \<notin> set s" using assms(1) NUL_notin_cstr [of buf] by simp
  then show ?thesis using assms(1)
    by (simp add: client_line_def fgets_def r cstr_append_NUL list_update_append)
qed

text \<open>A text that neither side takes for the end.\<close>

definition goes_on :: "string \<Rightarrow> bool" where
  "goes_on t \<longleftrightarrow> \<not> strncmp_eq (length t) t ''close'' \<and> hd t \<noteq> CHR 0xFF \<and> length t \<le> 1022"

lemma goes_on_not_Nil: "goes_on t \<Longrightarrow> t \<noteq> []"
  by (auto simp: goes_on_def strncmp_eq_def)

lemma says_close_cstr:
  assumes "NUL \<in> set b" "cstr b = t" "goes_on t"
  shows "\<not> says_close b"
proof -
  obtain r where "b = t @ NUL # r" using cstr_split [OF assms(1)] assms(2) by blast
  then have "b ! 0 = hd t" using goes_on_not_Nil [OF assms(3)] by (cases t) auto
  then show ?thesis using assms(2,3) by (simp add: says_close_def goes_on_def)
qed

lemma strncat_bang_cstr:
  assumes "NUL \<in> set b" "length (cstr b) + 2 \<le> length b"
  shows "\<exists>b'. strncat_bang b = Done b' \<and> cstr b' = cstr b @ ''!'' \<and> length b' = length b \<and> NUL \<in> set b'"
proof -
  obtain r where r: "b = cstr b @ NUL # r" using cstr_split [OF assms(1)] by blast
  define c where "c = cstr b"
  have n: "NUL \<notin> set (c @ ''!'')" by (simp add: c_def)
  have "strncat_bang b = Done (take (length c) b @ ''!'' @ [NUL] @ drop (length c + 2) b)"
    using assms by (simp add: strncat_bang_def c_def)
  also have "take (length c) b = c" using r by (metis append_eq_conv_conj c_def)
  finally show ?thesis
    using assms(2) cstr_append_NUL [OF n, of "drop (length c + 2) b"] by (simp add: c_def)
qed

lemma round_goes:
  assumes "client_line inp cbuf = Done (cb, rest)" "goes_on (cstr cb)" "length cb = 1024" "length sbuf = 1024"
  shows "\<exists>b. udp_round inp cbuf sbuf = Done (Goes rest b b) \<and> tcp_round inp cbuf sbuf = Done (Goes rest b b) \<and>
    cstr b = cstr cb @ ''!'' \<and> length b = 1024 \<and> NUL \<in> set b"
proof -
  have l: "length (cstr cb) \<le> 1022" using assms(2) by (simp add: goes_on_def)
  have n: "NUL \<in> set cb"
  proof (rule ccontr)
    assume "NUL \<notin> set cb"
    then show False using cstr_id assms(3) l by fastforce
  qed
  obtain b where b: "strncat_bang cb = Done b" "cstr b = cstr cb @ ''!''" "length b = 1024" "NUL \<in> set b"
    using strncat_bang_cstr [OF n] l assms(3) by auto
  have c: "\<not> says_close cb" using says_close_cstr [OF n _ assms(2)] by blast
  have r: "recv_into cb sbuf = cb" "recv_into b cb = b" using assms(3,4) b(3) recv_into_full by auto
  show ?thesis using b c r by (simp add: udp_round_def tcp_round_def assms(1) run_simps)
qed

lemma round_quits:
  assumes "client_line inp cbuf = Done (cb, rest)" "says_close cb" "length cb = 1024" "length sbuf = 1024"
  shows "udp_round inp cbuf sbuf = Done (Quits cb True)" "tcp_round inp cbuf sbuf = Done (Quits sbuf False)"
  using assms recv_into_full [of cb sbuf] by (simp_all add: udp_round_def tcp_round_def run_simps)

text \<open>A typed line that ends the session: a beginning of \<open>close\<close>, the empty line among them, or one with EOF in front.\<close>

definition ends_it :: "string \<Rightarrow> bool" where
  "ends_it l \<longleftrightarrow> strncmp_eq (length l) l ''close'' \<or> hd l = CHR 0xFF"

lemma says_close_typed:
  assumes "typed_ok l" "cstr cb = l" "length cb = 1024" "ends_it l"
  shows "says_close cb"
proof (cases "l = []")
  case True
  then show ?thesis using assms(2) by (simp add: says_close_def strncmp_eq_def)
next
  case False
  have "NUL \<in> set cb"
  proof (rule ccontr)
    assume "NUL \<notin> set cb"
    then show False using cstr_id assms(1,2,3) by (fastforce simp: typed_ok_def)
  qed
  then obtain r where "cb = l @ NUL # r" using cstr_split assms(2) by blast
  then have "cb ! 0 = hd l" using False by (cases l) auto
  then show ?thesis using assms(2,4) by (auto simp: says_close_def ends_it_def)
qed

definition type_in :: "string list \<Rightarrow> string" where
  "type_in ls = concat (map (\<lambda>l. l @ [NL]) ls)"

lemma type_in_simps [simp]: "type_in [] = []" "type_in (l # ls) = l @ NL # type_in ls"
  by (simp_all add: type_in_def)

lemma echo_session_lines:
  assumes "\<forall>l \<in> set ls. typed_ok l \<and> goes_on l" "length cbuf = 1024" "length sbuf = 1024"
    and "step = udp_round \<or> step = tcp_round"
  shows "\<exists>cb sb. length cb = 1024 \<and> length sb = 1024 \<and> (ls = [] \<and> cb = cbuf \<or> (\<exists>t. cstr cb = t @ ''!'' \<and> goes_on t)) \<and>
    echo_session step (type_in ls @ rest) cbuf sbuf log =
      echo_session step rest cb sb (log @ map (\<lambda>l. l @ ''!'') ls)"
  using assms(1-3)
proof (induction ls arbitrary: cbuf sbuf log)
  case Nil
  then show ?case by auto
next
  case (Cons l ls)
  obtain c where c: "client_line (l @ NL # type_in ls @ rest) cbuf = Done (c, type_in ls @ rest)" "cstr c = l" "length c = 1024"
    using client_line_typed Cons.prems by force
  obtain b where b: "step (l @ NL # type_in ls @ rest) cbuf sbuf = Done (Goes (type_in ls @ rest) b b)"
      "cstr b = l @ ''!''" "length b = 1024"
    using round_goes [OF c(1) _ c(3) Cons.prems(3)] c(2) Cons.prems(1) assms(4) by auto
  obtain cb sb where "length cb = 1024" "length sb = 1024"
      "ls = [] \<and> cb = b \<or> (\<exists>t. cstr cb = t @ ''!'' \<and> goes_on t)"
      "echo_session step (type_in ls @ rest) b b (log @ [l @ ''!'']) =
        echo_session step rest cb sb ((log @ [l @ ''!'']) @ map (\<lambda>l. l @ ''!'') ls)"
    using Cons.IH [OF _ b(3) b(3), of "log @ [l @ ''!'']"] Cons.prems(1) by auto
  then show ?case using b Cons.prems(1) by (subst echo_session.simps) auto
qed

lemma echo_session_closes:
  assumes "typed_ok c" "ends_it c" "length cbuf = 1024" "length sbuf = 1024"
  shows "\<exists>sb. echo_session udp_round (c @ NL # rest) cbuf sbuf log = Some (Done (log, sb, True))"
    and "\<exists>sb. echo_session tcp_round (c @ NL # rest) cbuf sbuf log = Some (Done (log, sb, False))"
proof -
  obtain cb where cb: "client_line (c @ NL # rest) cbuf = Done (cb, rest)" "cstr cb = c" "length cb = 1024"
    using client_line_typed assms(1,3) by blast
  note q = round_quits [OF cb(1) says_close_typed [OF assms(1) cb(2,3) assms(2)] cb(3) assms(4)]
  show "\<exists>sb. echo_session udp_round (c @ NL # rest) cbuf sbuf log = Some (Done (log, sb, True))"
    by (subst echo_session.simps) (simp add: q)
  show "\<exists>sb. echo_session tcp_round (c @ NL # rest) cbuf sbuf log = Some (Done (log, sb, False))"
    by (subst echo_session.simps) (simp add: q)
qed

text \<open>At the end of file the client takes the last answer for its line, without the mark, again and again.\<close>

definition stuck :: "bytes \<Rightarrow> bytes \<Rightarrow> bool" where
  "stuck cbuf sbuf \<longleftrightarrow> (\<exists>t. cstr cbuf = t @ ''!'' \<and> goes_on t) \<and> length cbuf = 1024 \<and> length sbuf = 1024"

lemma stuck_round:
  assumes "stuck cbuf sbuf" "step = udp_round \<or> step = tcp_round"
  shows "\<exists>b. step [] cbuf sbuf = Done (Goes [] b b) \<and> stuck b b"
proof -
  obtain t where t: "cstr cbuf = t @ ''!''" "goes_on t" using assms(1) by (auto simp: stuck_def)
  have l: "length t < length cbuf" using t(2) assms(1) by (simp add: goes_on_def stuck_def)
  have n: "NUL \<in> set cbuf"
  proof (rule ccontr)
    assume "NUL \<notin> set cbuf"
    then show False using cstr_id t assms(1) by (fastforce simp: goes_on_def stuck_def)
  qed
  obtain cb where cb: "client_line [] cbuf = Done (cb, [])" "cstr cb = t" "length cb = 1024"
    using client_line_eof [OF t(1) l n] assms(1) by (auto simp: stuck_def)
  show ?thesis using round_goes [OF cb(1) _ cb(3), of sbuf] t(2) cb(2) assms by (auto simp: stuck_def)
qed

lemma stuck_session:
  assumes "stuck cbuf sbuf" "step = udp_round \<or> step = tcp_round"
  shows "echo_session step [] cbuf sbuf log = None"
proof (rule ccontr)
  let ?P = "\<lambda>f (inp :: string) cb sb (lg :: string list) (r :: (string list \<times> bytes \<times> bool) run). f = step \<longrightarrow> inp = [] \<longrightarrow> stuck cb sb \<longrightarrow> False"
  assume "echo_session step [] cbuf sbuf log \<noteq> None"
  then obtain r where ret: "echo_session step [] cbuf sbuf log = Some r" by blast
  have "?P step [] cbuf sbuf log r"
  proof (rule echo_session.raw_induct [where P = ?P, OF _ ret])
    fix session :: "(string \<Rightarrow> bytes \<Rightarrow> bytes \<Rightarrow> echo_round run) \<Rightarrow> string \<Rightarrow> bytes \<Rightarrow> bytes \<Rightarrow> string list \<Rightarrow>
        (string list \<times> bytes \<times> bool) run option"
      and f inp cb sb lg and r :: "(string list \<times> bytes \<times> bool) run"
    assume IH: "\<And>f inp cb sb lg r. session f inp cb sb lg = Some r \<Longrightarrow> ?P f inp cb sb lg r"
      and eq: "(case f inp cb sb of
        Done (Goes rest cb sb) \<Rightarrow> session f rest cb sb (lg @ [cstr cb]) | Done (Quits sb e) \<Rightarrow> Some (Done (lg, sb, e))
      | Diverge \<Rightarrow> Some Diverge | Fault f \<Rightarrow> Some (Fault f)) = Some r"
    show "?P f inp cb sb lg r"
    proof (intro impI)
      assume f: "f = step" "inp = []" "stuck cb sb"
      obtain b where b: "step [] cb sb = Done (Goes [] b b)" "stuck b b" using stuck_round [OF f(3) assms(2)] by blast
      have "session step [] b b (lg @ [cstr b]) = Some r" using eq by (simp add: f b(1))
      from IH [OF this] b(2) show False by blast
    qed
  qed
  then show False using assms(1) by blast
qed

section \<open>Sessions\<close>

lemma goes_on_ping: "goes_on ''ping''"
  by (simp add: goes_on_def strncmp_eq_def)

lemma ping_echo:
  "\<exists>b. echo ''ping'' (zeros 1024) = Done (''ping'', b) \<and> cstr b = ''ping!'' \<and> length b = 1024"
proof -
  have c: "cstr (''ping'' @ CHR ''!'' # zeros 1019) = ''ping!''"
    using cstr_append_NUL [of "''ping!''" "zeros 1018"] by (simp add: zeros_def eval_nat_numeral)
  show ?thesis using echo_bangs [of "''ping''" 0] c echo_new [of "''ping''"] by simp
qed

text \<open>C24: The client prints each line with an exclamation mark, until a line that is a beginning of \<open>close\<close>.\<close>

theorem echo_sessions_end:
  assumes "\<forall>l \<in> set ls. typed_ok l \<and> goes_on l" "typed_ok c" "ends_it c" "length sbuf = 1024"
  shows "(\<exists>sb. udp_inet (type_in (ls @ [c]) @ rest) (zeros 1024) = Some (Done (map (\<lambda>l. l @ ''!'') ls, sb, True))) \<and>
    (\<exists>sb. tcp_inet (type_in (ls @ [c]) @ rest) sbuf = Some (Done (map (\<lambda>l. l @ ''!'') ls, sb, False)))"
proof -
  obtain b where b: "echo ''ping'' (zeros 1024) = Done (''ping'', b)" "length b = 1024" using ping_echo by blast
  have t: "type_in (ls @ [c]) @ rest = type_in ls @ c @ NL # rest" by (simp add: type_in_def)
  obtain cb sb where u: "length cb = 1024" "length sb = 1024"
      "echo_session udp_round (type_in ls @ c @ NL # rest) b b [] =
       echo_session udp_round (c @ NL # rest) cb sb (map (\<lambda>l. l @ ''!'') ls)"
    using echo_session_lines [OF assms(1) b(2,2), of udp_round "c @ NL # rest" "[]"] by auto
  obtain cb' sb' where v: "length cb' = 1024" "length sb' = 1024"
      "echo_session tcp_round (type_in ls @ c @ NL # rest) (zeros 1024) sbuf [] =
       echo_session tcp_round (c @ NL # rest) cb' sb' (map (\<lambda>l. l @ ''!'') ls)"
    using echo_session_lines [OF assms(1) _ assms(4), of "zeros 1024" tcp_round "c @ NL # rest" "[]"] by auto
  show ?thesis
    using echo_session_closes(1) [OF assms(2,3) u(1,2)] echo_session_closes(2) [OF assms(2,3) v(1,2)] u(3) v(3) b
    unfolding t by (simp add: udp_inet_def tcp_inet_def recv_into_full)
qed

text \<open>C25: Without such a line there is no end: at the end of file the UDP client sends its last line for
  ever, and so does the TCP client, which writes outside its buffer when there was no line at all.
\<close>

theorem echo_sessions_stuck:
  assumes "\<forall>l \<in> set ls. typed_ok l \<and> goes_on l" "length sbuf = 1024"
  shows "udp_inet (type_in ls) (zeros 1024) = None \<and>
    tcp_inet (type_in ls) sbuf = (if ls = [] then Some (Fault OutOfBounds) else None)"
proof
  obtain b where b: "echo ''ping'' (zeros 1024) = Done (''ping'', b)" "cstr b = ''ping!''" "length b = 1024"
    using ping_echo by blast
  have p: "cstr b = ''ping'' @ ''!''" using b(2) by simp
  obtain cb sb where u: "length cb = 1024" "length sb = 1024" "ls = [] \<and> cb = b \<or> (\<exists>t. cstr cb = t @ ''!'' \<and> goes_on t)"
      "echo_session udp_round (type_in ls) b b [] = echo_session udp_round [] cb sb (map (\<lambda>l. l @ ''!'') ls)"
    using echo_session_lines [OF assms(1) b(3,3), of udp_round "[]" "[]"] by auto
  have "\<exists>t. cstr cb = t @ ''!'' \<and> goes_on t" using u(3) p goes_on_ping by blast
  then have "stuck cb sb" using u(1,2) by (simp add: stuck_def)
  then show "udp_inet (type_in ls) (zeros 1024) = None"
    using stuck_session [of cb sb udp_round] u(4) b by (simp add: udp_inet_def recv_into_full)
  show "tcp_inet (type_in ls) sbuf = (if ls = [] then Some (Fault OutOfBounds) else None)"
  proof (cases "ls = []")
    case True
    then show ?thesis
      by (simp add: tcp_inet_def echo_session.simps [of tcp_round] tcp_round_def client_line_def fgets_def run_simps)
  next
    case False
    obtain cb sb where v: "length cb = 1024" "length sb = 1024" "\<exists>t. cstr cb = t @ ''!'' \<and> goes_on t"
        "echo_session tcp_round (type_in ls) (zeros 1024) sbuf [] = echo_session tcp_round [] cb sb (map (\<lambda>l. l @ ''!'') ls)"
      using echo_session_lines [OF assms(1) _ assms(2), of "zeros 1024" tcp_round "[]" "[]"] False by auto
    then have "stuck cb sb" by (simp add: stuck_def)
    then show ?thesis using stuck_session [of cb sb tcp_round] v(4) False by (simp add: tcp_inet_def)
  qed
qed

text \<open>
  The local datagram server prints each message up to a zero byte and answers it; nothing of an
  earlier message shows up in a later one.
\<close>

theorem local_udp_answers:
  assumes "\<forall>(d, ok) \<in> set ds. ok" "socket_ok env" "unlink_ok env" "bind_ok env"
  shows "local_udp_server env there ds =
    Done (map (\<lambda>(d, ok). if d = [] then None else Some (cstr (take 255 d))) ds,
      \<lparr>replies = [replicate (length ds) (received_text @ [NUL])], name_left = \<not> unlink_end_ok env, status_failed = True\<rparr>)"
  using local_udp_loop_answers [OF assms(1), of "zeros 256" "[]" "[]"] assms(2-4)
  by (simp add: local_udp_server_def sock_finish_def run_simps)

lemma local_udp_ping:
  "local_udp_client sock_fine there True (Some (received_text @ [NUL])) =
    Done ([''Ping'' @ [NUL]], Some received_text, \<lparr>replies = [], name_left = False, status_failed = False\<rparr>)"
proof -
  have "blit 0 (''Ping'' @ [NUL]) (zeros 256) = Done (''Ping'' @ [NUL] @ zeros 251)"
    by (simp add: zeros_def)
  moreover have "snd (on_datagram (received_text @ [NUL]) (''Ping'' @ [NUL] @ zeros 251)) = Some received_text"
    using arg_cong [OF on_datagram_shown(1) [of "''Ping'' @ [NUL] @ zeros 251" "received_text @ [NUL]"], of snd]
    by (simp add: cstr_def)
  ultimately show ?thesis
    by (simp add: local_udp_client_def sock_fine_def sock_finish_def run_simps)
qed

section \<open>Instances\<close>

theorem raw_udp_server_counts_witness:
  "raw_udp_server (replicate 2 ''Hi'') (zeros 1024) [] =
    Done [(''Hi'', ''Hi!'' @ zeros 1021), (''Hi!'', ''Hi!!'' @ zeros 1020)]"
  using raw_udp_server_counts [of "''Hi''" 2] by (simp add: upt_rec numeral_2_eq_2)

lemma sample_line: "typed_ok ''hello''" "goes_on ''hello''" "typed_ok ''cl''" "ends_it ''cl''"
  by (simp_all add: typed_ok_def goes_on_def ends_it_def strncmp_eq_def)

theorem echo_sessions_end_witness:
  "(\<exists>sb. udp_inet (type_in [''hello'', ''cl'']) (zeros 1024) = Some (Done ([''hello!''], sb, True))) \<and>
   (\<exists>sb. tcp_inet (type_in [''hello'', ''cl'']) (zeros 1024) = Some (Done ([''hello!''], sb, False)))"
  using echo_sessions_end [of "[''hello'']" "''cl''" "zeros 1024" "[]"] sample_line by simp

theorem echo_sessions_stuck_witness:
  "udp_inet (type_in [''hello'']) (zeros 1024) = None \<and> tcp_inet (type_in [''hello'']) (zeros 1024) = None"
  using echo_sessions_stuck [of "[''hello'']" "zeros 1024"] sample_line by simp

theorem local_udp_answers_witness:
  "local_udp_server sock_fine False [(''long message'', True), (''Ping'' @ [NUL], True)] =
    Done ([Some ''long message'', Some ''Ping''],
      \<lparr>replies = [replicate 2 (received_text @ [NUL])], name_left = False, status_failed = True\<rparr>)"
  using local_udp_answers [of "[(''long message'', True), (''Ping'' @ [NUL], True)]" sock_fine False]
  by (simp add: sock_fine_def cstr_def numeral_2_eq_2)

end
