(* ===== verification/Raw_Packets.thy ===== *)
theory Raw_Packets
  imports Echo_Servers Bytes
begin

text \<open>
  LAB_17/task_raw_udp and task_raw_ip_udp: clients on raw sockets that write the UDP header, and in the
  second program the IP header too, themselves. A header is a record of the numbers as they stand
  in memory, and \<open>udp_bytes\<close> and \<open>ip_bytes\<close> are the bytes of the structs on a little-endian machine.
\<close>

type_synonym u16 = "16 word"

section \<open>Byte order\<close>

definition htons :: "u16 \<Rightarrow> u16" where
  "htons w = push_bit 8 w OR drop_bit 8 w"

definition le16 :: "u16 \<Rightarrow> bytes" where
  "le16 w = [char_of (unat w mod 256), char_of (unat w div 256)]"

definition of_le16 :: "bytes \<Rightarrow> u16" where
  "of_le16 b = word_of_nat (of_char (b ! 0) + 256 * of_char (b ! 1))"

definition le32 :: "u32 \<Rightarrow> bytes" where
  "le32 w = map (\<lambda>b. char_of (unat b)) (le_bytes w)"

lemma length_le16 [simp]: "length (le16 w) = 2"
  by (simp add: le16_def)

lemma length_le32 [simp]: "length (le32 w) = 4"
  by (simp add: le32_def le_bytes_def)

lemma u16_high: "unat (w :: u16) div 256 < 256"
proof -
  have "unat w < 2 ^ LENGTH(16)" by (rule unsigned_less)
  then show ?thesis by (simp add: less_mult_imp_div_less)
qed

lemma of_le16_le16 [simp]: "of_le16 (le16 w @ r) = w"
proof -
  have "of_le16 (le16 w @ r) = word_of_nat (unat w mod 256 + 256 * (unat w div 256))"
    using u16_high [of w] by (simp add: of_le16_def le16_def)
  then show ?thesis by simp
qed

lemma htons_htons [simp]: "htons (htons w) = w"
  by (rule bit_word_eqI) (auto simp: htons_def bit_simps)

lemma unat_htons: "unat (htons w) = unat w mod 256 * 256 + unat w div 256"
proof -
  have l: "unat w < 2 ^ 16" using unsigned_less [of w] by simp
  have t: "take_bit 16 (unat w) = unat w" using l by (rule take_bit_nat_eq_self)
  have h: "unat (push_bit 8 w) = push_bit 8 (take_bit 8 (unat w))"
    by (simp add: unsigned_push_bit_eq push_bit_take_bit)
  have "unat (htons w) = push_bit 8 (take_bit 8 (unat w)) OR drop_bit 8 (unat w)"
    by (simp add: htons_def unsigned_or_eq h unsigned_drop_bit_eq t)
  also have "\<dots> = push_bit 8 (take_bit 8 (unat w)) + drop_bit 8 (unat w)"
  proof (rule disjunctive_add_eq_or [symmetric], rule bit_eqI)
    fix n
    have "drop_bit 8 (unat w) = take_bit 8 (drop_bit 8 (unat w))"
      using l by (simp add: take_bit_nat_eq_self drop_bit_nat_def less_mult_imp_div_less)
    then have "bit (drop_bit 8 (unat w)) n \<Longrightarrow> n < 8" by (metis bit_take_bit_iff)
    then show "bit (push_bit 8 (take_bit 8 (unat w)) AND drop_bit 8 (unat w)) n = bit (0 :: nat) n"
      by (auto simp: bit_and_iff bit_push_bit_iff)
  qed
  finally show ?thesis by (simp add: push_bit_nat_def take_bit_nat_def drop_bit_nat_def)
qed

text \<open>\<open>htons\<close> puts the byte of the higher value in front.\<close>

lemma le16_htons: "le16 (htons w) = [char_of (unat w div 256), char_of (unat w mod 256)]"
  using u16_high [of w] by (simp add: le16_def unat_htons)

section \<open>Headers\<close>

record udphdr =
  uh_sport :: u16
  uh_dport :: u16
  uh_ulen :: u16
  uh_sum :: u16

record ip_header =
  iph_verlen :: u8
  iph_tos :: u8
  iph_len :: u16
  iph_ident :: u16
  iph_offset :: u16
  iph_ttl :: u8
  iph_protocol :: u8
  iph_chksum :: u16
  iph_source :: u32
  iph_dest :: u32

definition udp_bytes :: "udphdr \<Rightarrow> bytes" where
  "udp_bytes h = le16 (uh_sport h) @ le16 (uh_dport h) @ le16 (uh_ulen h) @ le16 (uh_sum h)"

definition udp_of_bytes :: "bytes \<Rightarrow> udphdr" where
  "udp_of_bytes b = \<lparr>uh_sport = of_le16 b, uh_dport = of_le16 (drop 2 b), uh_ulen = of_le16 (drop 4 b),
     uh_sum = of_le16 (drop 6 b)\<rparr>"

definition ip_bytes :: "ip_header \<Rightarrow> bytes" where
  "ip_bytes h = [char_of (unat (iph_verlen h)), char_of (unat (iph_tos h))] @ le16 (iph_len h) @ le16 (iph_ident h) @
     le16 (iph_offset h) @ [char_of (unat (iph_ttl h)), char_of (unat (iph_protocol h))] @ le16 (iph_chksum h) @
     le32 (iph_source h) @ le32 (iph_dest h)"

lemma length_udp_bytes [simp]: "length (udp_bytes h) = 8"
  by (simp add: udp_bytes_def)

lemma length_ip_bytes [simp]: "length (ip_bytes h) = 20"
  by (simp add: ip_bytes_def)

lemma udp_of_udp_bytes [simp]: "udp_of_bytes (udp_bytes h @ r) = h"
proof -
  have "drop 2 (udp_bytes h @ r) = le16 (uh_dport h) @ le16 (uh_ulen h) @ le16 (uh_sum h) @ r"
    "drop 4 (udp_bytes h @ r) = le16 (uh_ulen h) @ le16 (uh_sum h) @ r"
    "drop 6 (udp_bytes h @ r) = le16 (uh_sum h) @ r"
    by (simp_all add: udp_bytes_def)
  moreover have "of_le16 (udp_bytes h @ r) = uh_sport h" by (simp add: udp_bytes_def)
  ultimately show ?thesis by (simp add: udp_of_bytes_def)
qed

section \<open>What the clients send\<close>

abbreviation SPORT :: u16 where "SPORT \<equiv> 8888"
abbreviation DPORT :: u16 where "DPORT \<equiv> 7777"

definition hello_udp :: udphdr where
  "hello_udp = \<lparr>uh_sport = htons SPORT, uh_dport = htons DPORT,
     uh_ulen = htons (8 + word_of_nat (length (cstr (''Hello'' @ [NUL])))), uh_sum = 0\<rparr>"

text \<open>\<open>inet_addr("127.0.0.1")\<close>: the bytes in memory are 127, 0, 0, 1.\<close>

definition loopback :: u32 where
  "loopback = 0x0100007F"

text \<open>\<open>junk\<close> are the last four bytes of the payload, which nothing has written.\<close>

definition raw_udp_packet :: "bytes \<Rightarrow> bytes" where
  "raw_udp_packet junk = udp_bytes hello_udp @ ''Hello'' @ [NUL] @ take 4 junk"

definition hello_ip :: ip_header where
  "hello_ip = \<lparr>iph_verlen = push_bit 4 4 OR 20 div 4, iph_tos = 0,
     iph_len = 20 + 8 + word_of_nat (length (cstr (''Hello'' @ zeros 20))), iph_ident = 0, iph_offset = 0, iph_ttl = 16,
     iph_protocol = 17, iph_chksum = 0, iph_source = loopback, iph_dest = loopback\<rparr>"

text \<open>The struct has been cleared, and has three bytes of padding behind its 25 bytes of payload.\<close>

definition raw_ip_packet :: bytes where
  "raw_ip_packet = ip_bytes hello_ip @ udp_bytes hello_udp @ ''Hello'' @ zeros 20 @ zeros 3"

section \<open>What they receive\<close>

text \<open>
  \<open>recv\<close> is not initialised: \<open>junk\<close> are its bytes before a packet is written over them. A packet
  for another port is reported, and the loop ends with the first packet for \<open>SPORT\<close>. \<open>n\<close> is the
  length of the payload in the struct; a payload without a zero byte is read past its end.
\<close>

datatype raw_print = Port u16 | Payload u16 string

fun raw_recv_loop :: "nat \<Rightarrow> bytes \<Rightarrow> bytes list \<Rightarrow> raw_print list \<Rightarrow> (raw_print list \<times> bool) run" where
  "raw_recv_loop n junk [] out = Done (out, True)"
| "raw_recv_loop n junk (pkt # pkts) out =
     (let recv = recv_into pkt junk;
          converted_port = htons (uh_dport (udp_of_bytes (drop 20 recv)));
          payload = take n (drop 28 recv) in
      if converted_port \<noteq> SPORT then raw_recv_loop n junk pkts (out @ [Port converted_port])
      else if NUL \<notin> set payload then Fault OutOfBounds
      else Done (out @ [Payload converted_port (cstr payload)], False))"

text \<open>
  The two clients: what they send when \<open>socket\<close> (and \<open>setsockopt\<close>) and \<open>sendto\<close> succeed, and what they
  print for the packets that arrive; \<open>recvfrom\<close> fails behind the last one. The flag is the exit status.
\<close>

definition raw_udp_client :: "bool \<Rightarrow> bool \<Rightarrow> bytes \<Rightarrow> bytes \<Rightarrow> bytes list \<Rightarrow> bytes option \<times> (raw_print list \<times> bool) run" where
  "raw_udp_client sock sends junk rjunk pkts =
     (if \<not> sock \<or> \<not> sends then (None, Done ([], True))
      else (Some (raw_udp_packet junk), raw_recv_loop 10 rjunk pkts []))"

definition raw_ip_client :: "bool \<Rightarrow> bool \<Rightarrow> bytes \<Rightarrow> bytes list \<Rightarrow> bytes option \<times> (raw_print list \<times> bool) run" where
  "raw_ip_client sock sends rjunk pkts =
     (if \<not> sock \<or> \<not> sends then (None, Done ([], True))
      else (Some raw_ip_packet, raw_recv_loop 25 rjunk pkts []))"

text \<open>The file \<open>server.c\<close> of task_raw_ip_udp holds the same client.\<close>

definition raw_ip_server :: "bool \<Rightarrow> bool \<Rightarrow> bytes \<Rightarrow> bytes list \<Rightarrow> bytes option \<times> (raw_print list \<times> bool) run" where
  "raw_ip_server = raw_ip_client"

section \<open>A client and the UDP server\<close>

text \<open>
  What the kernel hands to a UDP socket: the port, and the payload without what the length of the
  header does not count. A raw socket sees whole packets, with an IP header \<open>iph\<close>.
\<close>

definition udp_deliver :: "bytes \<Rightarrow> (u16 \<times> bytes) option" where
  "udp_deliver seg =
     (let h = udp_of_bytes seg; len = unat (htons (uh_ulen h)) in
      if 8 \<le> len \<and> len \<le> length seg then Some (htons (uh_dport h), take (len - 8) (drop 8 seg)) else None)"

definition udp_reply :: "bytes \<Rightarrow> u16 \<Rightarrow> bytes \<Rightarrow> bytes" where
  "udp_reply iph chk data =
     iph @ udp_bytes \<lparr>uh_sport = htons DPORT, uh_dport = htons SPORT, uh_ulen = htons (8 + word_of_nat (length data)),
       uh_sum = chk\<rparr> @ data"

text \<open>The answer of the server of task_raw_udp to \<open>seg\<close>, when \<open>k\<close> clients have sent the same before.\<close>

definition raw_answer :: "bytes \<Rightarrow> nat \<Rightarrow> bytes run" where
  "raw_answer seg k =
     (case udp_deliver seg of
        None \<Rightarrow> Diverge
      | Some (port, d) \<Rightarrow>
          if port \<noteq> DPORT then Diverge
          else bind_run (raw_udp_server (replicate (k + 1) d) (zeros 1024) []) (\<lambda>log. Done (snd (last log))))"

lemma recv_into_append:
  "length a \<le> length buf \<Longrightarrow> recv_into (a @ b) buf = a @ recv_into b (drop (length a) buf)"
  by (auto simp: recv_into_def Let_def min_def add.commute)

lemma recv_into_take: "length buf \<le> length d \<Longrightarrow> recv_into d buf = take (length buf) d"
  by (simp add: recv_into_def Let_def)

lemma raw_recv_two:
  assumes "length iph = 20" "length junk = 28 + n + pad" "n + pad \<le> length data"
    and "htons (uh_dport own) = DPORT" "htons (uh_dport h) = SPORT"
  shows "raw_recv_loop n junk [iph @ udp_bytes own @ r, iph @ udp_bytes h @ data] [] =
    (if NUL \<notin> set (take n data) then Fault OutOfBounds
     else Done ([Port DPORT, Payload SPORT (cstr (take n data))], False))"
proof -
  have own: "recv_into (iph @ udp_bytes own @ r) junk = (iph @ udp_bytes own) @ recv_into r (drop 28 junk)"
    using recv_into_append [of "iph @ udp_bytes own" junk r] assms(1,2) by simp
  have h: "recv_into (iph @ udp_bytes h @ data) junk = (iph @ udp_bytes h) @ take (n + pad) data"
    using recv_into_append [of "iph @ udp_bytes h" junk data] assms(1,2,3) by (simp add: recv_into_take)
  have p: "(DPORT :: u16) \<noteq> SPORT" by simp
  show ?thesis using assms(1,4,5) p by (simp add: own h Let_def)
qed

lemma hello_delivered:
  "udp_deliver (udp_bytes hello_udp @ ''Hello'' @ r) = Some (DPORT, ''Hello'')"
proof -
  have h: "htons (uh_ulen hello_udp) = 13" "htons (uh_dport hello_udp) = DPORT"
    by (simp_all add: hello_udp_def cstr_def)
  show ?thesis using udp_of_udp_bytes [of hello_udp "''Hello'' @ r"] by (simp add: udp_deliver_def h Let_def)
qed

lemma raw_answer_hello:
  assumes "k \<le> 1017"
  shows "raw_answer (udp_bytes hello_udp @ ''Hello'' @ r) k =
    Done (''Hello'' @ replicate (Suc k) (CHR ''!'') @ zeros (1018 - k))"
proof -
  have s: "raw_udp_server (replicate (Suc k) ''Hello'') (zeros 1024) [] =
      Done (map (\<lambda>i. (''Hello'' @ replicate i (CHR ''!''),
      ''Hello'' @ replicate (i + 1) (CHR ''!'') @ zeros (1023 - length ''Hello'' - i))) [0..<Suc k])"
    using raw_udp_server_counts_all [of "''Hello''" "Suc k"] assms by (simp del: replicate_Suc upt_Suc)
  have "last (map (\<lambda>i. (''Hello'' @ replicate i (CHR ''!''),
      ''Hello'' @ replicate (i + 1) (CHR ''!'') @ zeros (1023 - length ''Hello'' - i))) [0..<Suc k]) =
      (''Hello'' @ replicate k (CHR ''!''), ''Hello'' @ replicate (Suc k) (CHR ''!'') @ zeros (1018 - k))"
    by simp
  then show ?thesis
    using s hello_delivered [of r] by (simp add: raw_answer_def run_simps del: replicate_Suc upt_Suc)
qed

lemma take_bangs:
  assumes "5 \<le> n" "n \<le> 1000" "k \<le> 1017"
  shows "NUL \<notin> set (take n (''Hello'' @ replicate (Suc k) (CHR ''!'') @ zeros (1018 - k))) \<longleftrightarrow> n \<le> 6 + k"
    and "6 + k < n \<Longrightarrow> cstr (take n (''Hello'' @ replicate (Suc k) (CHR ''!'') @ zeros (1018 - k))) =
      ''Hello'' @ replicate (Suc k) (CHR ''!'')"
proof -
  define m where "m = ''Hello'' @ replicate (Suc k) (CHR ''!'')"
  have m: "length m = 6 + k" "NUL \<notin> set m" by (simp_all add: m_def)
  have t: "take n (m @ zeros (1018 - k)) = take n m @ zeros (min (n - (6 + k)) (1018 - k))"
    using m(1) by (simp add: zeros_def min_def)
  have e: "''Hello'' @ replicate (Suc k) (CHR ''!'') @ zeros (1018 - k) = m @ zeros (1018 - k)" by (simp add: m_def)
  show "NUL \<notin> set (take n (''Hello'' @ replicate (Suc k) (CHR ''!'') @ zeros (1018 - k))) \<longleftrightarrow> n \<le> 6 + k"
    unfolding e t using m assms by (auto simp: zeros_def dest: in_set_takeD)
  assume l: "6 + k < n"
  then have "0 < min (n - (6 + k)) (1018 - k)" using assms by simp
  then obtain z where "min (n - (6 + k)) (1018 - k) = Suc z" using gr0_conv_Suc by blast
  then show "cstr (take n (''Hello'' @ replicate (Suc k) (CHR ''!'') @ zeros (1018 - k))) =
      ''Hello'' @ replicate (Suc k) (CHR ''!'')"
    unfolding e t using m l cstr_append_NUL [OF m(2)] by (simp add: zeros_def) (simp add: m_def)
qed

text \<open>C27: The client that comes after \<open>k\<close> others sees its own packet and an answer with \<open>k + 1\<close> exclamation
  marks, until the answer fills the payload of its struct: from then on it reads past the end.
\<close>

theorem raw_clients_count:
  assumes "length iph = 20" "length junk = 38" "length junk' = 56" "k \<le> 1017"
  shows "bind_run (raw_answer (raw_udp_packet pad) k) (\<lambda>data.
      snd (raw_udp_client True True pad junk [iph @ raw_udp_packet pad, udp_reply iph chk data])) =
    (if k < 4 then Done ([Port DPORT, Payload SPORT (''Hello'' @ replicate (k + 1) (CHR ''!''))], False)
     else Fault OutOfBounds) \<and>
    bind_run (raw_answer (drop 20 raw_ip_packet) k) (\<lambda>data.
      snd (raw_ip_client True True junk' [iph @ drop 20 raw_ip_packet, udp_reply iph chk data])) =
    (if k < 19 then Done ([Port DPORT, Payload SPORT (''Hello'' @ replicate (k + 1) (CHR ''!''))], False)
     else Fault OutOfBounds)"
proof
  let ?data = "''Hello'' @ replicate (Suc k) (CHR ''!'') @ zeros (1018 - k)"
  define data where "data = ?data"
  define h where "h = \<lparr>uh_sport = htons DPORT, uh_dport = htons SPORT, uh_ulen = htons (8 + word_of_nat (length data)), uh_sum = chk\<rparr>"
  have l: "length data = 1024" using assms(4) by (simp add: data_def)
  have own: "htons (uh_dport hello_udp) = DPORT" "htons (uh_dport h) = SPORT" by (simp_all add: hello_udp_def h_def)
  have r: "udp_reply iph chk data = iph @ udp_bytes h @ data" by (simp add: udp_reply_def h_def)
  have u: "raw_answer (raw_udp_packet pad) k = Done data"
    using raw_answer_hello [OF assms(4), of "[NUL] @ take 4 pad"] by (simp add: raw_udp_packet_def data_def)
  have ip: "drop 20 raw_ip_packet = udp_bytes hello_udp @ ''Hello'' @ zeros 20 @ zeros 3"
    by (simp add: raw_ip_packet_def)
  have i: "raw_answer (drop 20 raw_ip_packet) k = Done data"
    unfolding ip using raw_answer_hello [OF assms(4), of "zeros 20 @ zeros 3"] by (simp add: data_def)
  have "raw_recv_loop 10 junk [iph @ udp_bytes hello_udp @ ''Hello'' @ [NUL] @ take 4 pad, iph @ udp_bytes h @ data] [] =
      (if NUL \<notin> set (take 10 data) then Fault OutOfBounds
       else Done ([Port DPORT, Payload SPORT (cstr (take 10 data))], False))"
    by (rule raw_recv_two [where pad = 0]) (use assms(1,2) l own in simp_all)
  then show "bind_run (raw_answer (raw_udp_packet pad) k) (\<lambda>data.
      snd (raw_udp_client True True pad junk [iph @ raw_udp_packet pad, udp_reply iph chk data])) =
    (if k < 4 then Done ([Port DPORT, Payload SPORT (''Hello'' @ replicate (k + 1) (CHR ''!''))], False)
     else Fault OutOfBounds)"
    using take_bangs [of 10 k] assms(4) unfolding u data_def [symmetric]
    by (simp add: run_simps r raw_udp_client_def raw_udp_packet_def del: raw_recv_loop.simps)
  have "raw_recv_loop 25 junk' [iph @ udp_bytes hello_udp @ ''Hello'' @ zeros 20 @ zeros 3, iph @ udp_bytes h @ data] [] =
      (if NUL \<notin> set (take 25 data) then Fault OutOfBounds
       else Done ([Port DPORT, Payload SPORT (cstr (take 25 data))], False))"
    by (rule raw_recv_two [where pad = 3]) (use assms(1,3) l own in simp_all)
  then show "bind_run (raw_answer (drop 20 raw_ip_packet) k) (\<lambda>data.
      snd (raw_ip_client True True junk' [iph @ drop 20 raw_ip_packet, udp_reply iph chk data])) =
    (if k < 19 then Done ([Port DPORT, Payload SPORT (''Hello'' @ replicate (k + 1) (CHR ''!''))], False)
     else Fault OutOfBounds)"
    using take_bangs [of 25 k] assms(4) unfolding i data_def [symmetric]
    by (simp add: run_simps r raw_ip_client_def ip del: raw_recv_loop.simps)
qed

theorem raw_clients_count_witness:
  "bind_run (raw_answer (raw_udp_packet ''abcd'') 0) (\<lambda>data.
      snd (raw_udp_client True True ''abcd'' (zeros 38) [ip_bytes hello_ip @ raw_udp_packet ''abcd'', udp_reply (ip_bytes hello_ip) 0 data])) =
    Done ([Port DPORT, Payload SPORT ''Hello!''], False) \<and>
   bind_run (raw_answer (drop 20 raw_ip_packet) 0) (\<lambda>data.
      snd (raw_ip_client True True (zeros 56) [ip_bytes hello_ip @ drop 20 raw_ip_packet, udp_reply (ip_bytes hello_ip) 0 data])) =
    Done ([Port DPORT, Payload SPORT ''Hello!''], False)"
  using raw_clients_count [of "ip_bytes hello_ip" "zeros 38" "zeros 56" 0 "''abcd''" 0]
  by (simp del: raw_recv_loop.simps)

end
