(* ===== verification/Pull_Server.thy ===== *)
theory Pull_Server
  imports Echo_Servers Step_System
begin

text \<open>
  LAB_17/task_udp_pull_inet: a server with ten threads, each with a socket of its own. A thread enters its
  descriptor into the first free of ten bytes of shared memory; the main thread answers the first
  datagram of a client from the socket in a byte that it chooses at random, so that the client goes
  on with the thread. There is no lock around the ten bytes.
\<close>

abbreviation SERV_THREAD_MAX :: nat where "SERV_THREAD_MAX \<equiv> 10"

section \<open>The service of a thread\<close>

text \<open>
  The loop of \<open>service\<close> over the datagrams it receives: the answers, the totals it prints when a client
  has said goodbye, and \<open>counter\<close>. The buffer is new in every round.
\<close>

fun service_loop :: "bytes list \<Rightarrow> nat \<Rightarrow> bytes list \<Rightarrow> nat list \<Rightarrow> (bytes list \<times> nat list \<times> nat) run" where
  "service_loop [] counter sent totals = Done (sent, totals, counter)"
| "service_loop (d # ds) counter sent totals =
     (let buffer = recv_into d (zeros 1024); counter1 = counter + 1 in
      if buffer ! 0 = CHR ''!'' \<and> buffer ! 1 = NUL
      then service_loop ds (counter1 + 1) sent (totals @ [counter1 + 1])
      else if NUL \<notin> set buffer then Fault OutOfBounds
      else service_loop ds counter1 (sent @ [''Served you'']) totals)"

section \<open>A client\<close>

text \<open>
  The loop of \<open>call_client\<close>: \<open>gots\<close> are the results of \<open>recv\<close>, \<open>None\<close> a failure; an empty datagram is
  taken for one, too. The messages sent, the texts printed and whether the loop has ended.
\<close>

fun client_loop :: "nat \<Rightarrow> bytes option list \<Rightarrow> bytes \<Rightarrow> bytes list \<Rightarrow> string list \<Rightarrow> (bytes list \<times> string list \<times> bool) run" where
  "client_loop counter [] buffer sent shown =
     Done (if counter < 5000 then (sent @ [''.Serve me''], shown, False) else (sent @ [''!'' @ [NUL]], shown, True))"
| "client_loop counter (got # gots) buffer sent shown =
     (if 5000 \<le> counter then Done (sent @ [''!'' @ [NUL]], shown, True)
      else case got of
        None \<Rightarrow> client_loop counter gots buffer (sent @ [''.Serve me'']) shown
      | Some d \<Rightarrow>
          let buffer1 = recv_into d buffer in
          if d = [] then client_loop counter gots buffer1 (sent @ [''.Serve me'']) shown
          else if NUL \<notin> set buffer1 then Fault OutOfBounds
          else client_loop (counter + 1) gots buffer1 (sent @ [''.Serve me'']) (shown @ [cstr buffer1]))"

text \<open>It begins with a \<open>ping\<close>; \<open>first\<close> is the answer to it.\<close>

definition call_client :: "bytes \<Rightarrow> bytes option list \<Rightarrow> (bytes list \<times> string list \<times> bool) run" where
  "call_client first gots =
     (let buffer = recv_into first (zeros 1024) in
      if NUL \<notin> set buffer then Fault OutOfBounds
      else client_loop 0 gots buffer [''ping''] [cstr buffer])"

section \<open>The threads and the main thread\<close>

text \<open>
  \<open>T_scan l\<close>: about to read byte \<open>l\<close>; \<open>T_write l\<close>: has seen it 0 and is about to write it. \<open>slots\<close> are the ten
  bytes from \<open>FD_OFFSET\<close> on; \<open>answered\<close> are the descriptors from which the main thread has answered.
\<close>

datatype thread_pc = T_scan nat | T_write nat | T_serve

record pull =
  slots :: "int list"
  pcs :: "nat \<Rightarrow> thread_pc"
  answered :: "int list"
  packages_lost :: nat

inductive pull_step :: "(nat \<Rightarrow> int) \<Rightarrow> pull \<Rightarrow> pull \<Rightarrow> bool" for fd where
  found: "i < SERV_THREAD_MAX \<Longrightarrow> pcs s i = T_scan l \<Longrightarrow> l < SERV_THREAD_MAX \<Longrightarrow> slots s ! l = 0 \<Longrightarrow>
    pull_step fd s (s\<lparr>pcs := (pcs s)(i := T_write l)\<rparr>)"
| next_slot: "i < SERV_THREAD_MAX \<Longrightarrow> pcs s i = T_scan l \<Longrightarrow> l < SERV_THREAD_MAX \<Longrightarrow> slots s ! l \<noteq> 0 \<Longrightarrow>
    pull_step fd s (s\<lparr>pcs := (pcs s)(i := T_scan (l + 1))\<rparr>)"
| no_slot: "i < SERV_THREAD_MAX \<Longrightarrow> pcs s i = T_scan SERV_THREAD_MAX \<Longrightarrow>
    pull_step fd s (s\<lparr>pcs := (pcs s)(i := T_serve)\<rparr>)"
| enter: "i < SERV_THREAD_MAX \<Longrightarrow> pcs s i = T_write l \<Longrightarrow>
    pull_step fd s (s\<lparr>slots := (slots s)[l := fd i], pcs := (pcs s)(i := T_serve)\<rparr>)"
| answer: "r < SERV_THREAD_MAX \<Longrightarrow> slots s ! r \<noteq> 0 \<Longrightarrow>
    pull_step fd s (s\<lparr>answered := slots s ! r # answered s\<rparr>)"
| lose: "r < SERV_THREAD_MAX \<Longrightarrow> slots s ! r = 0 \<Longrightarrow>
    pull_step fd s (s\<lparr>packages_lost := packages_lost s + 1\<rparr>)"

definition pull_start :: "pull \<Rightarrow> bool" where
  "pull_start s \<longleftrightarrow> slots s = replicate SERV_THREAD_MAX 0 \<and> pcs s = (\<lambda>i. T_scan 0) \<and> answered s = [] \<and> packages_lost s = 0"

text \<open>The descriptors of the sockets: none is 0, and \<open>(char) serv_fd\<close> keeps them.\<close>

definition fds_ok :: "(nat \<Rightarrow> int) \<Rightarrow> bool" where
  "fds_ok fd \<longleftrightarrow> (\<forall>i < SERV_THREAD_MAX. 0 < fd i \<and> fd i < 128)"

lemma fd_nonzero: "fds_ok fd \<Longrightarrow> i < SERV_THREAD_MAX \<Longrightarrow> fd i \<noteq> 0"
  by (metis fds_ok_def less_irrefl)

section \<open>A client and its thread\<close>

lemma recv_into_twice: "recv_into d (recv_into d b) = recv_into d b"
  by (simp add: recv_into_def Let_def)

lemma recv_into_new: "length d \<le> n \<Longrightarrow> recv_into d (zeros n) = d @ zeros (n - length d)"
  by (simp add: recv_into_def Let_def zeros_def)

lemma service_loop_request:
  "service_loop (''.Serve me'' # ds) counter sent totals = service_loop ds (counter + 1) (sent @ [''Served you'']) totals"
  by (simp add: recv_into_new Let_def) (simp add: zeros_def)

lemma service_loop_requests:
  "service_loop (replicate k ''.Serve me'' @ ds) counter sent totals =
    service_loop ds (counter + k) (sent @ replicate k ''Served you'') totals"
proof (induction k arbitrary: counter sent)
  case (Suc k)
  show ?case using Suc service_loop_request [of "replicate k ''.Serve me'' @ ds"] by (simp del: service_loop.simps)
qed simp

lemma service_loop_goodbye:
  "service_loop ((''!'' @ [NUL]) # ds) counter sent totals =
    service_loop ds (counter + 2) sent (totals @ [counter + 2])"
proof -
  have b: "recv_into (''!'' @ [NUL]) (zeros 1024) = ''!'' @ NUL # zeros 1022"
    using recv_into_new [of "''!'' @ [NUL]" 1024] by simp
  show ?thesis using b by (simp add: Let_def)
qed

lemma client_loop_served:
  assumes "counter + k = 5000" "NUL \<in> set (recv_into ''Served you'' buffer)"
  shows "client_loop counter (replicate k (Some ''Served you'')) buffer sent shown =
    Done (sent @ replicate k ''.Serve me'' @ [''!'' @ [NUL]], shown @ replicate k (cstr (recv_into ''Served you'' buffer)), True)"
  using assms
proof (induction k arbitrary: counter buffer sent shown)
  case (Suc k)
  show ?case
    using Suc.IH [of "counter + 1" "recv_into ''Served you'' buffer"] Suc.prems
    by (simp add: Let_def recv_into_twice)
qed simp

text \<open>
  A client that is answered each time sends 5000 requests and prints the answers; its thread answers
  each of them, and counts two more than there were: the goodbye is counted twice.
\<close>

theorem pull_client_served:
  "call_client ''response'' (replicate 5000 (Some ''Served you'')) =
     Done ([''ping''] @ replicate 5000 ''.Serve me'' @ [''!'' @ [NUL]], [''response''] @ replicate 5000 ''Served you'', True) \<and>
   service_loop (replicate 5000 ''.Serve me'' @ [''!'' @ [NUL]]) n [] [] =
     Done (replicate 5000 ''Served you'', [n + 5002], n + 5002)"
proof
  define b where "b = recv_into ''response'' (zeros 1024)"
  have b: "b = ''response'' @ zeros 1016" by (simp add: b_def recv_into_new)
  have s: "recv_into ''Served you'' b = ''Served you'' @ zeros 1014"
    unfolding b by (simp add: recv_into_def Let_def zeros_def)
  have n: "NUL \<in> set b" "NUL \<in> set (recv_into ''Served you'' b)" unfolding s by (simp add: b zeros_def) (simp add: zeros_def)
  have z: "zeros 1016 = NUL # zeros 1015" "zeros 1014 = NUL # zeros 1013"
    using replicate_Suc [of 1015 NUL] replicate_Suc [of 1013 NUL] by (simp_all add: zeros_def del: replicate_Suc)
  have c: "cstr b = ''response''" "cstr (recv_into ''Served you'' b) = ''Served you''"
    unfolding s unfolding b z
    by (simp_all add: cstr_append_NUL [of "''response''", simplified] cstr_append_NUL [of "''Served you''", simplified])
  show "call_client ''response'' (replicate 5000 (Some ''Served you'')) =
     Done ([''ping''] @ replicate 5000 ''.Serve me'' @ [''!'' @ [NUL]], [''response''] @ replicate 5000 ''Served you'', True)"
    using client_loop_served [of 0 5000 b "[''ping'']" "[''response'']"] n c
    by (simp add: call_client_def b_def [symmetric] Let_def)
  show "service_loop (replicate 5000 ''.Serve me'' @ [''!'' @ [NUL]]) n [] [] =
     Done (replicate 5000 ''Served you'', [n + 5002], n + 5002)"
    unfolding service_loop_requests service_loop_goodbye by simp
qed

section \<open>Whom the main thread answers for\<close>

fun thread_ok :: "int list \<Rightarrow> thread_pc \<Rightarrow> bool" where
  "thread_ok sl (T_scan l) \<longleftrightarrow> (\<forall>m < l. sl ! m \<noteq> 0)"
| "thread_ok sl (T_write l) \<longleftrightarrow> l < SERV_THREAD_MAX \<and> (\<forall>m < l. sl ! m \<noteq> 0)"
| "thread_ok sl T_serve \<longleftrightarrow> sl ! 0 \<noteq> 0"

definition pull_inv :: "(nat \<Rightarrow> int) \<Rightarrow> pull \<Rightarrow> bool" where
  "pull_inv fd s \<longleftrightarrow> length (slots s) = SERV_THREAD_MAX \<and>
     set (slots s) \<subseteq> insert 0 (fd ` {..<SERV_THREAD_MAX}) \<and> set (answered s) \<subseteq> fd ` {..<SERV_THREAD_MAX} \<and>
     (\<forall>i < SERV_THREAD_MAX. thread_ok (slots s) (pcs s i))"

lemma pull_inv_start: "pull_start s \<Longrightarrow> pull_inv fd s"
  by (auto simp: pull_start_def pull_inv_def)

lemma thread_ok_write:
  assumes "thread_ok sl pc" "x \<noteq> 0"
  shows "thread_ok (sl[l := x]) pc"
proof -
  have "sl[l := x] ! m \<noteq> 0" if "sl ! m \<noteq> 0" for m
    using that assms(2) by (cases "m = l"; cases "l < length sl") (simp_all add: list_update_beyond)
  then show ?thesis using assms(1) by (cases pc) auto
qed

lemma pull_inv_step:
  assumes fd: "fds_ok fd" and i: "pull_inv fd s" and st: "pull_step fd s t"
  shows "pull_inv fd t"
  using st
proof cases
  case (found i l)
  have "thread_ok (slots s) (T_scan l)" using found i by (metis pull_inv_def)
  then show ?thesis using i found by (simp add: pull_inv_def)
next
  case (next_slot i l)
  have "thread_ok (slots s) (T_scan l)" using next_slot i by (metis pull_inv_def)
  then have "thread_ok (slots s) (T_scan (l + 1))" using next_slot by (auto simp: less_Suc_eq)
  then show ?thesis using i next_slot by (simp add: pull_inv_def)
next
  case (no_slot i)
  have "thread_ok (slots s) (T_scan SERV_THREAD_MAX)" using no_slot i by (metis pull_inv_def)
  then show ?thesis using i no_slot by (simp add: pull_inv_def)
next
  case (enter i l)
  have l: "thread_ok (slots s) (T_write l)" using enter i by (metis pull_inv_def)
  have z: "fd i \<noteq> 0" using fd enter by (simp add: fd_nonzero)
  have "thread_ok ((slots s)[l := fd i]) T_serve"
    using l z i by (cases "l = 0") (auto simp: pull_inv_def)
  moreover have "set ((slots s)[l := fd i]) \<subseteq> insert 0 (fd ` {..<SERV_THREAD_MAX})"
    using i enter set_update_subset_insert [of "slots s" l "fd i"] by (auto simp: pull_inv_def)
  ultimately show ?thesis using i enter thread_ok_write [OF _ z] by (simp add: pull_inv_def)
next
  case (answer r)
  have "slots s ! r \<in> set (slots s)" using answer i by (auto simp: pull_inv_def)
  then have "slots s ! r \<in> fd ` {..<SERV_THREAD_MAX}" using answer i unfolding pull_inv_def by blast
  then show ?thesis using answer i by (simp add: pull_inv_def)
next
  case (lose r)
  then show ?thesis using i by (simp add: pull_inv_def)
qed

lemma pull_inv_reach: "reach pull_start (pull_step fd) s \<Longrightarrow> fds_ok fd \<Longrightarrow> pull_inv fd s"
  by (induction rule: reach_invariant) (auto intro: pull_inv_start pull_inv_step)

section \<open>All threads in one byte\<close>

abbreviation pull_at :: "int list \<Rightarrow> (nat \<Rightarrow> thread_pc) \<Rightarrow> pull" where
  "pull_at sl pc \<equiv> \<lparr>slots = sl, pcs = pc, answered = [], packages_lost = 0\<rparr>"

lemma all_find_first:
  "j \<le> SERV_THREAD_MAX \<Longrightarrow> reach pull_start (pull_step fd)
    (pull_at (replicate SERV_THREAD_MAX 0) (\<lambda>i. if i < j then T_write 0 else T_scan 0))"
proof (induction j)
  case 0
  show ?case by (rule reach_start) (simp add: pull_start_def)
next
  case (Suc j)
  let ?s = "pull_at (replicate SERV_THREAD_MAX 0) (\<lambda>i. if i < j then T_write 0 else T_scan 0)"
  have "pull_step fd ?s (?s\<lparr>pcs := (pcs ?s)(j := T_write 0)\<rparr>)"
    using Suc.prems by (intro pull_step.found) auto
  moreover have "(pcs ?s)(j := T_write 0) = (\<lambda>i. if i < Suc j then T_write 0 else T_scan 0)" by auto
  ultimately show ?case using reach_step [OF Suc.IH] Suc.prems by simp
qed

lemma all_enter_first:
  "j \<le> SERV_THREAD_MAX \<Longrightarrow> reach pull_start (pull_step fd)
    (pull_at ((if j = 0 then 0 else fd (j - 1)) # replicate 9 0)
      (\<lambda>i. if i < j then T_serve else if i < SERV_THREAD_MAX then T_write 0 else T_scan 0))"
proof (induction j)
  case 0
  show ?case using all_find_first [of SERV_THREAD_MAX fd] by (simp add: numeral_eq_Suc)
next
  case (Suc j)
  let ?s = "pull_at ((if j = 0 then 0 else fd (j - 1)) # replicate 9 0)
      (\<lambda>i. if i < j then T_serve else if i < SERV_THREAD_MAX then T_write 0 else T_scan 0)"
  have "pull_step fd ?s (?s\<lparr>slots := (slots ?s)[0 := fd j], pcs := (pcs ?s)(j := T_serve)\<rparr>)"
    using Suc.prems by (intro pull_step.enter) auto
  moreover have "(pcs ?s)(j := T_serve) =
      (\<lambda>i. if i < Suc j then T_serve else if i < SERV_THREAD_MAX then T_write 0 else T_scan 0)" by auto
  ultimately show ?case using reach_step [OF Suc.IH] Suc.prems by simp
qed

lemma serving_stays:
  assumes "(pull_step fd)\<^sup>*\<^sup>* s t" "\<forall>i < SERV_THREAD_MAX. pcs s i = T_serve"
  shows "slots t = slots s \<and> (\<forall>i < SERV_THREAD_MAX. pcs t i = T_serve)"
  using assms(1)
proof (induction rule: rtranclp_induct)
  case base
  show ?case using assms(2) by simp
next
  case (step u v)
  from step(2,3) show ?case by cases auto
qed

section \<open>Each thread in its own byte\<close>

lemma scans_to_its_slot:
  assumes j: "j < SERV_THREAD_MAX" and sl: "\<forall>m < j. sl ! m \<noteq> 0"
    and r: "reach pull_start (pull_step fd) (pull_at sl (f(j := T_scan 0)))"
  shows "l \<le> j \<Longrightarrow> reach pull_start (pull_step fd) (pull_at sl (f(j := T_scan l)))"
proof (induction l)
  case 0
  show ?case by (rule r)
next
  case (Suc l)
  have st: "pull_step fd (pull_at sl (f(j := T_scan l))) (pull_at sl (f(j := T_scan (Suc l))))"
    using pull_step.next_slot [of j "pull_at sl (f(j := T_scan l))" l fd] j sl Suc.prems by simp
  have r': "reach pull_start (pull_step fd) (pull_at sl (f(j := T_scan l)))" by (rule Suc.IH) (use Suc.prems in simp)
  show ?case by (rule reach_step [OF r' st])
qed

lemma enters_its_slot:
  assumes j: "j < SERV_THREAD_MAX" "sl ! j = 0"
    and r: "reach pull_start (pull_step fd) (pull_at sl (f(j := T_scan j)))"
  shows "reach pull_start (pull_step fd) (pull_at (sl[j := fd j]) (f(j := T_serve)))"
proof -
  have a: "pull_step fd (pull_at sl (f(j := T_scan j))) (pull_at sl (f(j := T_write j)))"
    using pull_step.found [of j "pull_at sl (f(j := T_scan j))" j fd] j by simp
  have b: "pull_step fd (pull_at sl (f(j := T_write j))) (pull_at (sl[j := fd j]) (f(j := T_serve)))"
    using pull_step.enter [of j "pull_at sl (f(j := T_write j))" j fd] j by simp
  show ?thesis by (rule reach_step [OF reach_step [OF r a] b])
qed

lemma one_after_the_other:
  assumes "fds_ok fd"
  shows "j \<le> SERV_THREAD_MAX \<Longrightarrow> reach pull_start (pull_step fd)
    (pull_at (map fd [0..<j] @ replicate (SERV_THREAD_MAX - j) 0) (\<lambda>i. if i < j then T_serve else T_scan 0))"
proof (induction j)
  case 0
  show ?case by (rule reach_start) (simp add: pull_start_def)
next
  case (Suc j)
  define sl where "sl = map fd [0..<j] @ replicate (SERV_THREAD_MAX - j) 0"
  define f where "f = (\<lambda>i. if i < j then T_serve else T_scan 0)"
  have j: "j < SERV_THREAD_MAX" "SERV_THREAD_MAX - j = Suc (9 - j)" using Suc.prems by simp_all
  have z: "sl ! j = 0" "\<forall>m < j. sl ! m \<noteq> 0"
    using j fd_nonzero [OF assms] by (auto simp: sl_def nth_append)
  have f0: "f(j := T_scan 0) = f" by (auto simp: f_def)
  have r: "reach pull_start (pull_step fd) (pull_at sl (f(j := T_scan 0)))"
    unfolding f0 unfolding sl_def f_def by (rule Suc.IH [OF less_imp_le [OF j(1)]])
  have sl': "sl[j := fd j] = map fd [0..<Suc j] @ replicate (SERV_THREAD_MAX - Suc j) 0"
    using j by (simp add: sl_def list_update_append)
  have f': "f(j := T_serve) = (\<lambda>i. if i < Suc j then T_serve else T_scan 0)" by (auto simp: f_def)
  show ?case
    using enters_its_slot [OF j(1) z(1) scans_to_its_slot [OF j(1) z(2) r le_refl]] unfolding sl' f' .
qed

text \<open>Every answer of the main thread comes from the socket of a thread.\<close>

theorem pull_answers:
  assumes "fds_ok fd" "reach pull_start (pull_step fd) s"
  shows "set (answered s) \<subseteq> fd ` {..<SERV_THREAD_MAX}"
  using pull_inv_reach [OF assms(2,1)] by (simp add: pull_inv_def)

text \<open>C26: The threads can enter themselves
  one after the other, but as they have no lock they can also all write the first byte: then the
  other nine bytes stay empty, and a request for which one of them is drawn is lost, for ever.
\<close>

theorem pull_registration:
  assumes "fds_ok fd"
  shows "(\<exists>s. reach pull_start (pull_step fd) s \<and> slots s = map fd [0..<SERV_THREAD_MAX]) \<and>
    (\<exists>s. reach pull_start (pull_step fd) s \<and> {slots t |t. (pull_step fd)\<^sup>*\<^sup>* s t} = {fd 9 # replicate 9 0})"
proof (intro conjI)
  show "\<exists>s. reach pull_start (pull_step fd) s \<and> slots s = map fd [0..<SERV_THREAD_MAX]"
    using one_after_the_other [OF assms le_refl] by fastforce
  let ?s = "pull_at (fd 9 # replicate 9 0)
      (\<lambda>i. if i < SERV_THREAD_MAX then T_serve else if i < SERV_THREAD_MAX then T_write 0 else T_scan 0)"
  have r: "reach pull_start (pull_step fd) ?s" using all_enter_first [OF le_refl, of fd] by simp
  have "slots t = fd 9 # replicate 9 0" if "(pull_step fd)\<^sup>*\<^sup>* ?s t" for t
    using serving_stays [OF that] by simp
  moreover have "slots ?s = fd 9 # replicate 9 0" by simp
  ultimately have "{slots t |t. (pull_step fd)\<^sup>*\<^sup>* ?s t} = {fd 9 # replicate 9 0}"
    by (intro equalityI subsetI) (auto intro: exI [of _ ?s])
  with r show "\<exists>s. reach pull_start (pull_step fd) s \<and> {slots t |t. (pull_step fd)\<^sup>*\<^sup>* s t} = {fd 9 # replicate 9 0}"
    by blast
qed

theorem pull_registration_witness:
  "\<exists>s. reach pull_start (pull_step (\<lambda>i. int i + 5)) s \<and>
    {slots t |t. (pull_step (\<lambda>i. int i + 5))\<^sup>*\<^sup>* s t} = {14 # replicate 9 0}"
  using pull_registration [of "\<lambda>i. int i + 5"] by (simp add: fds_ok_def)

end
