(* ===== verification/Chatroom.thy ===== *)
theory Chatroom
  imports Echo_Servers Matrix_Threads
begin

text \<open>
  LAB_16/task_shmem_chatroom: an administrator and a user that talk through 4096 bytes of shared memory.
  The user writes at its beginning, the administrator answers at \<open>data_ptr_1 + 500\<close> and posts a
  semaphore. Modelled are \<open>server_control_room\<close>, one turn of its loop, and the client; the windows
  are not. What the user does to the memory while the server sleeps is an input.
\<close>

section \<open>Strings in the shared memory\<close>

text \<open>\<open>strncpy\<close> with the zero byte and the store of a second one behind it.\<close>

definition put_str :: "nat \<Rightarrow> string \<Rightarrow> bytes \<Rightarrow> bytes run" where
  "put_str off s m = blit off (s @ [NUL, NUL]) m"

definition clean_string :: "nat \<Rightarrow> bytes \<Rightarrow> bytes run" where
  "clean_string off m =
     (if NUL \<notin> set (drop off m) then Fault OutOfBounds
      else let n = length (cstr (drop off m)) in Done (take off m @ zeros n @ drop (off + n) m))"

definition has_word :: "string \<Rightarrow> string \<Rightarrow> bool" where
  "has_word t s \<longleftrightarrow> list_ex (\<lambda>n. take (length t) (drop n s) = t) [0..<length s + 1]"

abbreviation is_space :: "char \<Rightarrow> bool" where "is_space c \<equiv> c = CHR '' ''"

section \<open>The room\<close>

text \<open>\<open>posted\<close> is the answer string at each \<open>sem_post\<close> of the semaphore of the user.\<close>

record room =
  seg :: bytes
  user_counter :: int
  user_id_data :: "int list"
  yes_pswd :: bool
  posted :: "string list"

text \<open>
  The keys and the line of the administrator, and what has happened to the memory when the server
  has counted down for the password and for the response.
\<close>

record admin =
  key1 :: char
  key2 :: char
  admin_line :: string
  entered :: "bytes \<Rightarrow> bytes"
  replied :: "bytes \<Rightarrow> bytes"

abbreviation user_text :: "room \<Rightarrow> string" where "user_text r \<equiv> cstr (seg r)"
abbreviation answer_text :: "room \<Rightarrow> string" where "answer_text r \<equiv> cstr (drop 500 (seg r))"

definition post_user :: "room \<Rightarrow> room" where
  "post_user r = r\<lparr>posted := posted r @ [answer_text r]\<rparr>"

text \<open>\<open>clean_string\<close>, \<open>strncpy\<close> and \<open>sem_post\<close>.\<close>

definition answer_user :: "string \<Rightarrow> room \<Rightarrow> room run" where
  "answer_user t r =
     bind_run (clean_string 500 (seg r)) (\<lambda>m.
     bind_run (put_str 500 t m) (\<lambda>m1. Done (post_user (r\<lparr>seg := m1\<rparr>))))"

text \<open>The user whose number and PID are printed.\<close>

definition user_known :: "room \<Rightarrow> bool" where
  "user_known r \<longleftrightarrow> 1 \<le> user_counter r \<and> user_counter r \<le> 100"

text \<open>
  A new user: \<open>strtok\<close> puts zero bytes behind the first two words, which are cleaned, and then what is
  left at the beginning. Without a second word \<open>atoi\<close> gets a null pointer.
\<close>

definition new_user :: "room \<Rightarrow> room run" where
  "new_user r =
     (let s = user_text r in
      case strtok_all is_space s of
        t0 # t1 # ts \<Rightarrow>
          if user_counter r < 0 \<or> 100 \<le> user_counter r then Fault OutOfBounds
          else
            let p0 = length (takeWhile is_space s); e0 = p0 + length t0;
                p1 = e0 + length (takeWhile is_space (drop e0 s)); e1 = p1 + length t1;
                m = ((seg r)[e0 := NUL])[e1 := NUL] in
            bind_run (clean_string p0 m) (\<lambda>m0. bind_run (clean_string p1 m0) (\<lambda>m1. bind_run (clean_string 0 m1) (\<lambda>m2.
              Done (post_user (r\<lparr>seg := m2, user_id_data := (user_id_data r)[nat (user_counter r) := atoi t1],
                user_counter := user_counter r + 1\<rparr>)))))
      | _ \<Rightarrow> Fault NullDeref)"

text \<open>
  The switches of a request for data; the flag is \<open>resp_flag\<close>. Only the lower case of a key matters.
\<close>

definition require_password :: "admin \<Rightarrow> room \<Rightarrow> (room \<times> bool) run" where
  "require_password a r =
     bind_run (answer_user ''password required'' (r\<lparr>yes_pswd := True\<rparr>)) (\<lambda>r1.
       let r2 = r1\<lparr>seg := entered a (seg r1)\<rparr> in
       if strncmp_eq 6 (user_text r2) ''QWERTY''
       then bind_run (answer_user ''Granted'' r2) (\<lambda>r3. Done (r3, False))
       else bind_run (answer_user ''Rejected'' r2) (\<lambda>r3. Done (r3, True)))"

definition decide_request :: "admin \<Rightarrow> room \<Rightarrow> (room \<times> bool) run" where
  "decide_request a r =
     (if tolower (key1 a) = CHR ''y'' then
        if tolower (key2 a) = CHR ''y'' then require_password a r
        else if tolower (key2 a) = CHR ''n''
        then bind_run (answer_user ''Granted'' (r\<lparr>yes_pswd := True\<rparr>)) (\<lambda>r1. Done (r1, True))
        else Done (r, False)
      else if tolower (key1 a) = CHR ''n'' then bind_run (answer_user ''Rejected'' r) (\<lambda>r1. Done (r1, True))
      else Done (r, False))"

definition request_data :: "admin \<Rightarrow> room \<Rightarrow> (room \<times> bool) run" where
  "request_data a r =
     bind_run (clean_string 0 (seg r)) (\<lambda>m.
       if \<not> user_known r then Fault OutOfBounds
       else bind_run (decide_request a (r\<lparr>seg := m\<rparr>)) (\<lambda>(r1, resp).
         if yes_pswd r1 then
           bind_run (answer_user ''some data'' r1) (\<lambda>r2.
           bind_run (clean_string 0 (replied a (seg r2))) (\<lambda>m1.
           bind_run (clean_string 500 m1) (\<lambda>m2. Done (r2\<lparr>seg := m2, yes_pswd := False\<rparr>, True))))
         else Done (r1, resp)))"

definition user_leaves :: "room \<Rightarrow> room run" where
  "user_leaves r =
     (if \<not> user_known r then Fault OutOfBounds
      else bind_run (clean_string 0 (seg r)) (\<lambda>m.
        Done (r\<lparr>seg := m, user_counter := user_counter r - 1,
          user_id_data := (user_id_data r)[nat (user_counter r - 1) := 0]\<rparr>)))"

text \<open>
  The line of the administrator: \<open>wgetnstr(buf, 100)\<close> writes its zero byte behind 100 characters,
  outside the buffer. The flag says that the server exits.
\<close>

definition admin_answers :: "admin \<Rightarrow> room \<Rightarrow> (room \<times> bool) run" where
  "admin_answers a r =
     (if 100 \<le> length (admin_line a) then Fault OutOfBounds
      else if admin_line a = ''q''
      then bind_run (put_str 500 ''server died'' (seg r)) (\<lambda>m. Done (post_user (r\<lparr>seg := m\<rparr>), True))
      else bind_run (put_str 500 (admin_line a) (seg r)) (\<lambda>m.
        let r1 = post_user (r\<lparr>seg := m\<rparr>) in
        bind_run (clean_string 0 (seg r1)) (\<lambda>m1. Done (r1\<lparr>seg := m1\<rparr>, False))))"

text \<open>One turn of the loop.\<close>

definition server_turn :: "admin \<Rightarrow> room \<Rightarrow> (room \<times> bool) run" where
  "server_turn a r =
     (if user_text r = [] then Done (r, False)
      else bind_run
        (if has_word ''PID'' (user_text r) then bind_run (new_user r) (\<lambda>r1. Done (r1, True))
         else if has_word ''request data'' (user_text r) then request_data a r
         else if has_word ''disconnect'' (user_text r) then bind_run (user_leaves r) (\<lambda>r1. Done (r1, False))
         else bind_run (clean_string 0 (seg r)) (\<lambda>m. Done (r\<lparr>seg := m\<rparr>, False)))
        (\<lambda>(r1, resp_flag). if resp_flag then Done (r1, False) else admin_answers a r1))"

section \<open>The client\<close>

definition client_connect :: "nat \<Rightarrow> bytes \<Rightarrow> bytes run" where
  "client_connect my_pid m = blit 0 (''PID '' @ show_dec my_pid @ [NUL]) m"

text \<open>The line it has read, without its newline; \<open>True\<close> when it leaves.\<close>

definition client_says :: "string \<Rightarrow> bytes \<Rightarrow> (bytes \<times> bool) run" where
  "client_says msg m =
     (if msg = ''q'' then bind_run (put_str 0 ''disconnect'' m) (\<lambda>m1. Done (m1, True))
      else bind_run (put_str 0 msg m) (\<lambda>m1. Done (m1, False)))"

text \<open>What it does with the answers it finds each time the semaphore has let it through.\<close>

datatype client_report = Waits | Obtained string | Got_rejected | Server_died | Got string

fun client_after :: "string \<Rightarrow> string list \<Rightarrow> client_report \<times> string list" where
  "client_after b bs =
     (if b = ''Granted'' then (case bs of [] \<Rightarrow> (Waits, []) | c # cs \<Rightarrow> (Obtained c, cs))
      else if b = ''Rejected'' then (Got_rejected, bs)
      else if b = ''server died'' then (Server_died, bs)
      else (Got b, bs))"

fun client_hears :: "string list \<Rightarrow> client_report \<times> string list" where
  "client_hears [] = (Waits, [])"
| "client_hears (b # bs) =
     (if b = ''password required'' then (case bs of [] \<Rightarrow> (Waits, []) | c # cs \<Rightarrow> client_after c cs)
      else client_after b bs)"

section \<open>Answers\<close>

definition mem_ok :: "bytes \<Rightarrow> bool" where
  "mem_ok m \<longleftrightarrow> length m = 4096 \<and> NUL \<in> set (drop 500 m)"

lemma mem_ok_NUL: "mem_ok m \<Longrightarrow> NUL \<in> set m"
  unfolding mem_ok_def by (meson in_set_dropD)

lemma clean_500:
  assumes "mem_ok m"
  shows "\<exists>m1. clean_string 500 m = Done m1 \<and> mem_ok m1 \<and> take 500 m1 = take 500 m \<and> cstr (drop 500 m1) = []"
proof -
  define n where "n = length (cstr (drop 500 m))"
  obtain r where r: "drop 500 m = cstr (drop 500 m) @ NUL # r"
    using cstr_split [of "drop 500 m"] assms by (auto simp: mem_ok_def)
  have l: "n < length (drop 500 m)" by (subst r) (simp add: n_def)
  have d: "drop (500 + n) m = NUL # r" using arg_cong [OF r, of "drop n"] by (simp add: n_def add.commute)
  have len: "length m = 4096" using assms by (simp add: mem_ok_def)
  have c: "clean_string 500 m = Done (take 500 m @ zeros n @ NUL # r)"
    using assms d by (simp add: clean_string_def mem_ok_def n_def Let_def)
  have "cstr (zeros n @ NUL # r) = []" by (cases n) (simp_all add: zeros_def cstr_def)
  moreover have "length (take 500 m @ zeros n @ NUL # r) = 4096"
    using arg_cong [OF d, of length] len l by simp
  ultimately show ?thesis using c len by (simp add: mem_ok_def)
qed

lemma clean_0:
  assumes "mem_ok m"
  shows "\<exists>m1. clean_string 0 m = Done m1 \<and> mem_ok m1 \<and> cstr m1 = []"
proof -
  define n where "n = length (cstr m)"
  obtain r where r: "m = cstr m @ NUL # r" using cstr_split [OF mem_ok_NUL [OF assms]] by blast
  have d: "drop n m = NUL # r" using arg_cong [OF r, of "drop n"] by (simp add: n_def)
  have c: "clean_string 0 m = Done (zeros n @ NUL # r)"
    using mem_ok_NUL [OF assms] d by (simp add: clean_string_def n_def Let_def)
  have z: "cstr (zeros n @ NUL # r) = []" by (cases n) (simp_all add: zeros_def cstr_def)
  have "length (zeros n @ NUL # r) = length m" by (subst r) (simp add: n_def)
  moreover have "NUL \<in> set (drop 500 (zeros n @ NUL # r))"
  proof (cases "n < 500")
    case True
    have "drop 500 m = drop (500 - n) (NUL # r)"
      using arg_cong [OF r, of "drop 500"] True by (simp add: n_def)
    moreover have "drop 500 (zeros n @ NUL # r) = drop (500 - n) (NUL # r)" using True by simp
    ultimately show ?thesis using assms by (simp add: mem_ok_def)
  next
    case False
    then show ?thesis by simp
  qed
  ultimately show ?thesis using c z assms by (simp add: mem_ok_def)
qed

lemma answer_user_ok:
  assumes "mem_ok (seg r)" "length t \<le> 100" "NUL \<notin> set t"
  shows "\<exists>m. answer_user t r = Done (r\<lparr>seg := m, posted := posted r @ [t]\<rparr>) \<and> mem_ok m \<and> take 500 m = take 500 (seg r)"
proof -
  obtain m1 where m1: "clean_string 500 (seg r) = Done m1" "mem_ok m1" "take 500 m1 = take 500 (seg r)"
    using clean_500 [OF assms(1)] by blast
  define m where "m = take 500 m1 @ t @ NUL # NUL # drop (502 + length t) m1"
  have l: "length m1 = 4096" using m1(2) by (simp add: mem_ok_def)
  have "put_str 500 t m1 = Done m" using l assms(2) by (simp add: put_str_def m_def)
  moreover have d: "drop 500 m = t @ NUL # NUL # drop (502 + length t) m1" using l by (simp add: m_def)
  moreover have "cstr (drop 500 m) = t" unfolding d by (rule cstr_append_NUL [OF assms(3)])
  moreover have "length m = 4096" using l assms(2) by (simp add: m_def)
  moreover have "take 500 m = take 500 m1" using l by (simp add: m_def)
  moreover have "NUL \<in> set (drop 500 m)" unfolding d by simp
  ultimately show ?thesis using m1(1,3)
    by (intro exI [of _ m]) (simp add: answer_user_def post_user_def mem_ok_def run_simps)
qed

text \<open>What the user does while the server counts down leaves the answers alone.\<close>

definition keeps_answers :: "(bytes \<Rightarrow> bytes) \<Rightarrow> bool" where
  "keeps_answers f \<longleftrightarrow> (\<forall>m. length (f m) = length m \<and> drop 500 (f m) = drop 500 m)"

lemma keeps_answers_ok: "keeps_answers f \<Longrightarrow> mem_ok m \<Longrightarrow> mem_ok (f m)"
  by (simp add: keeps_answers_def mem_ok_def)

text \<open>The password is compared with what the user has made of the memory with the question in it.\<close>

definition password_entered :: "admin \<Rightarrow> room \<Rightarrow> bool" where
  "password_entered a r =
     (case answer_user ''password required'' r of Done r1 \<Rightarrow> strncmp_eq 6 (cstr (entered a (seg r1))) ''QWERTY'' | _ \<Rightarrow> False)"

lemma answer_user_yes:
  "answer_user t (r\<lparr>yes_pswd := b\<rparr>) = bind_run (answer_user t r) (\<lambda>r1. Done (r1\<lparr>yes_pswd := b\<rparr>))"
  by (cases r; cases "clean_string 500 (seg r)") (auto simp: answer_user_def post_user_def run_simps bind_run_assoc)

definition password_answers :: "admin \<Rightarrow> room \<Rightarrow> string list" where
  "password_answers a r = [''password required'', if password_entered a r then ''Granted'' else ''Rejected'']"

definition request_answers :: "admin \<Rightarrow> room \<Rightarrow> string list" where
  "request_answers a r =
     (if tolower (key1 a) = CHR ''n'' then [''Rejected'']
      else if tolower (key2 a) = CHR ''n'' then [''Granted'']
      else password_answers a r)"

definition key_pressed :: "admin \<Rightarrow> bool" where
  "key_pressed a \<longleftrightarrow> tolower (key1 a) = CHR ''n'' \<or>
     tolower (key1 a) = CHR ''y'' \<and> (tolower (key2 a) = CHR ''y'' \<or> tolower (key2 a) = CHR ''n'')"

lemma require_password_ok:
  fixes r :: room
  assumes "mem_ok (seg r)" "keeps_answers (entered a)"
  shows "\<exists>m b. require_password a r = Done (r\<lparr>seg := m, yes_pswd := True,
      posted := posted r @ password_answers a r\<rparr>, b) \<and> mem_ok m"
proof -
  obtain m where m: "answer_user ''password required'' r = Done (r\<lparr>seg := m, posted := posted r @ [''password required'']\<rparr>)"
      "mem_ok m"
    using answer_user_ok [OF assms(1), of "''password required''"] by auto
  define w where "w = (if password_entered a r then ''Granted'' else ''Rejected'')"
  have p: "password_entered a r \<longleftrightarrow> strncmp_eq 6 (cstr (entered a m)) ''QWERTY''"
    using m(1) by (simp add: password_entered_def)
  define r2 where "r2 = r\<lparr>seg := entered a m, yes_pswd := True, posted := posted r @ [''password required'']\<rparr>"
  have "mem_ok (seg r2)" using keeps_answers_ok [OF assms(2) m(2)] by (simp add: r2_def)
  moreover have "length w \<le> 100" "NUL \<notin> set w" by (simp_all add: w_def)
  ultimately obtain m1 where m1: "answer_user w r2 = Done (r2\<lparr>seg := m1, posted := posted r2 @ [w]\<rparr>)" "mem_ok m1"
    using answer_user_ok by blast
  have "answer_user ''password required'' (r\<lparr>yes_pswd := True\<rparr>)
      = Done (r\<lparr>seg := m, yes_pswd := True, posted := posted r @ [''password required'']\<rparr>)"
    unfolding answer_user_yes m(1) by (cases r) (simp add: run_simps)
  then have "\<exists>b. require_password a r = Done (r2\<lparr>seg := m1, posted := posted r2 @ [w]\<rparr>, b)"
    using m1(1) p
    by (intro exI [of _ "\<not> password_entered a r"], cases r) (auto simp: require_password_def w_def r2_def run_simps Let_def)
  moreover have "r2\<lparr>seg := m1, posted := posted r2 @ [w]\<rparr> = r\<lparr>seg := m1, yes_pswd := True, posted := posted r @ password_answers a r\<rparr>"
    by (cases r) (simp add: r2_def password_answers_def w_def)
  ultimately show ?thesis using m1(2) by metis
qed

lemma decide_request_ok:
  fixes r :: room
  assumes "mem_ok (seg r)" "keeps_answers (entered a)" "\<not> yes_pswd r" "key_pressed a"
  shows "\<exists>m b. decide_request a r = Done (r\<lparr>seg := m, yes_pswd := (tolower (key1 a) = CHR ''y''),
      posted := posted r @ request_answers a r\<rparr>, b) \<and> (b \<or> tolower (key1 a) = CHR ''y'') \<and> mem_ok m"
proof (cases "tolower (key1 a) = CHR ''n''")
  case True
  obtain m where m: "answer_user ''Rejected'' r = Done (r\<lparr>seg := m, posted := posted r @ [''Rejected'']\<rparr>)" "mem_ok m"
    using answer_user_ok [OF assms(1), of "''Rejected''"] by auto
  then show ?thesis using True assms(3)
    by (intro exI [of _ m] exI [of _ True], cases r) (simp add: decide_request_def request_answers_def run_simps)
next
  case False
  then have y: "tolower (key1 a) = CHR ''y''" using assms(4) by (auto simp: key_pressed_def)
  show ?thesis
  proof (cases "tolower (key2 a) = CHR ''n''")
    case True
    obtain m where m: "answer_user ''Granted'' r = Done (r\<lparr>seg := m, posted := posted r @ [''Granted'']\<rparr>)" "mem_ok m"
      using answer_user_ok [OF assms(1), of "''Granted''"] by auto
    have "answer_user ''Granted'' (r\<lparr>yes_pswd := True\<rparr>) = Done (r\<lparr>seg := m, yes_pswd := True, posted := posted r @ [''Granted'']\<rparr>)"
      unfolding answer_user_yes m(1) by (cases r) (simp add: run_simps)
    then show ?thesis using True y m(2)
      by (intro exI [of _ m] exI [of _ True]) (simp add: decide_request_def request_answers_def run_simps)
  next
    case False
    then have k: "tolower (key2 a) = CHR ''y''" using assms(4) y by (auto simp: key_pressed_def)
    obtain m b where "require_password a r = Done (r\<lparr>seg := m, yes_pswd := True,
        posted := posted r @ password_answers a r\<rparr>, b)" "mem_ok m"
      using require_password_ok [OF assms(1,2)] by blast
    then show ?thesis using k y
      by (intro exI [of _ m] exI [of _ b]) (simp add: decide_request_def request_answers_def)
  qed
qed

text \<open>A request for data: the answers, and behind them the data once the administrator has said yes.\<close>

lemma request_data_ok:
  fixes r :: room
  assumes m: "clean_string 0 (seg r) = Done m" "mem_ok m"
    and a: "user_known r" "\<not> yes_pswd r" "keeps_answers (entered a)" "keeps_answers (replied a)" "key_pressed a"
  shows "\<exists>r2. request_data a r = Done (r2, True) \<and> \<not> yes_pswd r2 \<and> user_counter r2 = user_counter r \<and>
    posted r2 = posted r @ request_answers a (r\<lparr>seg := m\<rparr>) @ (if tolower (key1 a) = CHR ''y'' then [''some data''] else [])"
proof -
  define r0 where "r0 = r\<lparr>seg := m\<rparr>"
  have r0: "mem_ok (seg r0)" "\<not> yes_pswd r0" "posted r0 = posted r" "user_counter r0 = user_counter r"
    using m(2) a(2) by (simp_all add: r0_def)
  obtain m1 b where d: "decide_request a r0 = Done (r0\<lparr>seg := m1, yes_pswd := (tolower (key1 a) = CHR ''y''),
      posted := posted r0 @ request_answers a r0\<rparr>, b)" "b \<or> tolower (key1 a) = CHR ''y''" "mem_ok m1"
    using decide_request_ok [OF r0(1) a(3) r0(2) a(5)] by blast
  have q: "request_data a r = bind_run (decide_request a r0) (\<lambda>(r1, resp).
      if yes_pswd r1 then
        bind_run (answer_user ''some data'' r1) (\<lambda>r2.
        bind_run (clean_string 0 (replied a (seg r2))) (\<lambda>m1.
        bind_run (clean_string 500 m1) (\<lambda>m2. Done (r2\<lparr>seg := m2, yes_pswd := False\<rparr>, True))))
      else Done (r1, resp))"
    using m(1) a(1) by (simp add: request_data_def r0_def run_simps)
  show ?thesis
  proof (cases "tolower (key1 a) = CHR ''y''")
    case True
    define r1 where "r1 = r0\<lparr>seg := m1, yes_pswd := True, posted := posted r0 @ request_answers a r0\<rparr>"
    have "mem_ok (seg r1)" using d(3) by (simp add: r1_def)
    then obtain m2 where m2: "answer_user ''some data'' r1 = Done (r1\<lparr>seg := m2, posted := posted r1 @ [''some data'']\<rparr>)" "mem_ok m2"
      using answer_user_ok [of r1 "''some data''"] by auto
    obtain m3 where m3: "clean_string 0 (replied a m2) = Done m3" "mem_ok m3"
      using clean_0 [OF keeps_answers_ok [OF a(4) m2(2)]] by blast
    obtain m4 where "clean_string 500 m3 = Done m4" using clean_500 [OF m3(2)] by blast
    then have "request_data a r = Done (r1\<lparr>seg := m4, yes_pswd := False, posted := posted r1 @ [''some data'']\<rparr>, True)"
      using d(1) True m2(1) m3(1) unfolding q by (simp add: run_simps flip: r1_def) (simp add: r1_def)
    then show ?thesis using r0 True by (simp add: r1_def flip: r0_def)
  next
    case False
    then show ?thesis using d r0 unfolding q by (simp add: run_simps flip: r0_def)
  qed
qed

text \<open>The turn of a request for data: with a user in the room, the administrator's keys decide what is posted. ``n''
  gives Rejected, ``y'' and ``n'' give Granted, ``y'' and ``y'' ask for the password and give Granted or Rejected; and
  whenever the first key was ``y'' the data follows, whatever the password was.\<close>
theorem chatroom_request:
  assumes "mem_ok (seg r)" "has_word ''request data'' (user_text r)" "\<not> has_word ''PID'' (user_text r)"
    and "user_known r" "\<not> yes_pswd r" "keeps_answers (entered a)" "keeps_answers (replied a)" "key_pressed a"
  shows "\<exists>m r2. clean_string 0 (seg r) = Done m \<and> server_turn a r = Done (r2, False) \<and> \<not> yes_pswd r2 \<and>
    posted r2 = posted r @ request_answers a (r\<lparr>seg := m\<rparr>) @ (if tolower (key1 a) = CHR ''y'' then [''some data''] else [])"
proof -
  obtain m where m: "clean_string 0 (seg r) = Done m" "mem_ok m" using clean_0 [OF assms(1)] by blast
  have "user_text r \<noteq> []" using assms(2) by (auto simp: has_word_def)
  obtain r2 where r2: "request_data a r = Done (r2, True)" "\<not> yes_pswd r2"
      "posted r2 = posted r @ request_answers a (r\<lparr>seg := m\<rparr>) @ (if tolower (key1 a) = CHR ''y'' then [''some data''] else [])"
    using request_data_ok [OF m assms(4-8)] by blast
  have "server_turn a r = Done (r2, False)"
    using r2(1) assms(2,3) \<open>user_text r \<noteq> []\<close> by (simp add: server_turn_def run_simps)
  then show ?thesis using m(1) r2(2,3) by blast
qed

text \<open>What the user sends in the witness.\<close>

definition type_user :: "string \<Rightarrow> bytes \<Rightarrow> bytes" where
  "type_user t m = (if length m < length t + 1 \<or> 500 < length t + 1 then m else t @ NUL # drop (length t + 1) m)"

lemma type_user_keeps: "keeps_answers (type_user t)"
proof -
  have "drop 500 (type_user t m) = drop 500 m" for m
    using drop_drop [of "500 - Suc (length t)" "Suc (length t)" m] by (auto simp: type_user_def drop_Cons' add.commute)
  then show ?thesis by (auto simp: keeps_answers_def type_user_def)
qed

lemma request_memory: "mem_ok (''request data'' @ zeros 4084)" "user_text \<lparr>seg = ''request data'' @ zeros 4084, user_counter = c,
    user_id_data = ids, yes_pswd = b, posted = p\<rparr> = ''request data''"
proof -
  show "mem_ok (''request data'' @ zeros 4084)" by (simp add: mem_ok_def zeros_def)
  have "zeros 4084 = NUL # zeros 4083" by (simp add: zeros_def flip: replicate_Suc)
  then show "user_text \<lparr>seg = ''request data'' @ zeros 4084, user_counter = c, user_id_data = ids, yes_pswd = b, posted = p\<rparr> = ''request data''"
    by (simp add: cstr_def)
qed

definition yes_admin :: admin where
  "yes_admin = \<lparr>key1 = CHR ''y'', key2 = CHR ''Y'', admin_line = [], entered = type_user ''NOPE'', replied = type_user ''Success''\<rparr>"

definition asking_room :: room where
  "asking_room = \<lparr>seg = ''request data'' @ zeros 4084, user_counter = 1, user_id_data = 42 # replicate 99 0, yes_pswd = False, posted = []\<rparr>"

lemma tolower_y: "tolower CHR ''y'' = CHR ''y''" "tolower CHR ''Y'' = CHR ''y''" by code_simp+

lemma asking_room_ok:
  "mem_ok (seg asking_room)" "has_word ''request data'' (user_text asking_room)" "\<not> has_word ''PID'' (user_text asking_room)"
  "user_known asking_room" "\<not> yes_pswd asking_room" "keeps_answers (entered yes_admin)" "keeps_answers (replied yes_admin)" "key_pressed yes_admin"
  using request_memory by (simp_all add: asking_room_def yes_admin_def type_user_keeps user_known_def key_pressed_def
    tolower_y has_word_def upt_rec)

lemma chatroom_request_witness:
  "\<exists>m r2. clean_string 0 (seg asking_room) = Done m \<and> server_turn yes_admin asking_room = Done (r2, False) \<and> \<not> yes_pswd r2 \<and>
    posted r2 = request_answers yes_admin (asking_room\<lparr>seg := m\<rparr>) @ [''some data'']"
  using chatroom_request [OF asking_room_ok] by (simp add: asking_room_def yes_admin_def tolower_y)

section \<open>The password does not protect the data\<close>

text \<open>C28: With the right keys (``y'' and ``y'') and a user who never types the password, the server asks for it, answers
  Rejected, and then posts the data all the same: \<open>yes_pswd\<close> stays true. The client reports the rejection and takes the
  data as the next message of the administrator.\<close>
theorem chatroom_wrong_password:
  assumes "mem_ok (seg r)" "has_word ''request data'' (user_text r)" "\<not> has_word ''PID'' (user_text r)"
    and "user_known r" "\<not> yes_pswd r" "keeps_answers (entered a)" "keeps_answers (replied a)"
    and "tolower (key1 a) = CHR ''y''" "tolower (key2 a) = CHR ''y''"
    and "\<And>m. mem_ok m \<Longrightarrow> \<not> strncmp_eq 6 (cstr (entered a m)) ''QWERTY''"
  shows "\<exists>r2. server_turn a r = Done (r2, False) \<and>
    posted r2 = posted r @ [''password required'', ''Rejected'', ''some data''] \<and>
    client_hears [''password required'', ''Rejected'', ''some data''] = (Got_rejected, [''some data'']) \<and>
    client_hears [''some data''] = (Got ''some data'', [])"
proof -
  have k: "key_pressed a" using assms(8,9) by (simp add: key_pressed_def)
  obtain m where m: "clean_string 0 (seg r) = Done m" "mem_ok m" using clean_0 [OF assms(1)] by blast
  obtain m1 where "answer_user ''password required'' (r\<lparr>seg := m\<rparr>)
      = Done (r\<lparr>seg := m1, posted := posted r @ [''password required'']\<rparr>)" "mem_ok m1"
    using answer_user_ok [of "r\<lparr>seg := m\<rparr>" "''password required''"] m(2) by auto
  then have "\<not> password_entered a (r\<lparr>seg := m\<rparr>)"
    using assms(10) by (simp add: password_entered_def)
  then have "request_answers a (r\<lparr>seg := m\<rparr>) = [''password required'', ''Rejected'']"
    using assms(8,9) by (simp add: request_answers_def password_answers_def)
  then show ?thesis using chatroom_request [OF assms(1-7) k] m(1) assms(8) by auto
qed

lemma chatroom_wrong_password_witness:
  "\<exists>r2. server_turn yes_admin asking_room = Done (r2, False) \<and>
    posted r2 = [''password required'', ''Rejected'', ''some data''] \<and>
    client_hears [''password required'', ''Rejected'', ''some data''] = (Got_rejected, [''some data'']) \<and>
    client_hears [''some data''] = (Got ''some data'', [])"
proof -
  have w: "\<not> strncmp_eq 6 (cstr (entered yes_admin m)) ''QWERTY''" if "mem_ok m" for m
    using that by (simp add: yes_admin_def type_user_def mem_ok_def cstr_def strncmp_eq_def)
  have k: "tolower (key1 yes_admin) = CHR ''y''" "tolower (key2 yes_admin) = CHR ''y''"
    by (simp_all add: yes_admin_def tolower_y)
  show ?thesis using chatroom_wrong_password [OF asking_room_ok(1-7) k w] by (simp add: asking_room_def)
qed

text \<open>Messages that stop the server.\<close>

lemma pid_without_number:
  assumes "has_word ''PID'' (user_text r)" "strtok_all is_space (user_text r) = [t]"
  shows "server_turn a r = Fault NullDeref"
proof -
  have "user_text r \<noteq> []" using assms(1) by (auto simp: has_word_def)
  then show ?thesis using assms by (simp add: server_turn_def new_user_def run_simps Let_def)
qed

lemma no_user_in_the_room:
  assumes "mem_ok (seg r)" "has_word ''request data'' (user_text r) \<or> has_word ''disconnect'' (user_text r)"
    and "\<not> has_word ''PID'' (user_text r)" "user_counter r = 0"
  shows "server_turn a r = Fault OutOfBounds"
proof -
  obtain m where "clean_string 0 (seg r) = Done m" using clean_0 [OF assms(1)] by blast
  moreover have "user_text r \<noteq> []" using assms(2) by (auto simp: has_word_def)
  ultimately show ?thesis using assms(2-4)
    by (auto simp: server_turn_def request_data_def user_leaves_def user_known_def run_simps)
qed

end
