(* ===== verification/Fork_Loop.thy ===== *)
theory Fork_Loop
  imports Step_System
begin

text \<open>
  LAB_12/task_wait_fork and task_forked_zombies: a loop in which every process forks \<open>NUM\<close> times. The
  parent waits for its child (fork_wait.c) or sleeps (zombies.c). The processes are a table in which a new one
  is entered at the end; its index stands for its PID. A step is one \<open>printf\<close> to a terminal or one call.
\<close>

section \<open>Processes\<close>

definition NUM :: nat where "NUM = 3"

text \<open>Where a process stands; \<open>F_parent None\<close> is the parent after a \<open>fork\<close> that has failed.\<close>

datatype fork_pc =
    F_top
  | F_fork
  | F_parent "nat option"
  | F_wait
  | F_child
  | F_post
  | F_exit
  | F_gone

text \<open>\<open>ppid\<close> is \<open>None\<close> for the first process, whose parent is the shell, and for those that \<open>init\<close> has inherited.\<close>

record fork_proc =
  fpc :: fork_pc
  iter :: nat
  ppid :: "nat option"
  reaped :: bool

datatype fork_line =
    Pre_fork nat nat
  | Parent_line nat "nat option"
  | Child_line nat bool
  | Post_fork nat nat
  | Forking_done nat nat

record forks =
  procs :: "fork_proc list"
  lines_out :: "fork_line list"

definition forks_start :: "forks \<Rightarrow> bool" where
  "forks_start s \<longleftrightarrow> s = \<lparr>procs = [\<lparr>fpc = F_top, iter = 0, ppid = None, reaped = False\<rparr>], lines_out = []\<rparr>"

abbreviation at :: "forks \<Rightarrow> nat \<Rightarrow> fork_pc \<Rightarrow> bool" where
  "at s p c \<equiv> p < length (procs s) \<and> fpc (procs s ! p) = c"

definition go :: "nat \<Rightarrow> fork_pc \<Rightarrow> forks \<Rightarrow> forks" where
  "go p c s = s\<lparr>procs := (procs s)[p := (procs s ! p)\<lparr>fpc := c\<rparr>]\<rparr>"

definition print_line :: "fork_line \<Rightarrow> forks \<Rightarrow> forks" where
  "print_line l s = s\<lparr>lines_out := lines_out s @ [l]\<rparr>"

text \<open>A child of \<open>p\<close> whose status nobody has read.\<close>

definition child_of :: "nat \<Rightarrow> fork_proc \<Rightarrow> bool" where
  "child_of p q \<longleftrightarrow> ppid q = Some p \<and> \<not> reaped q"

text \<open>\<open>init\<close> inherits the children of a process that ends, and reads the status of those that have ended.\<close>

definition adopt :: "nat \<Rightarrow> fork_proc \<Rightarrow> fork_proc" where
  "adopt p q = (if child_of p q then q\<lparr>ppid := None, reaped := (fpc q = F_gone)\<rparr> else q)"

definition end_proc :: "nat \<Rightarrow> forks \<Rightarrow> forks" where
  "end_proc p s = s\<lparr>procs := (map (adopt p) (procs s))
     [p := (procs s ! p)\<lparr>fpc := F_gone, reaped := (ppid (procs s ! p) = None)\<rparr>]\<rparr>"

text \<open>\<open>w\<close>: does the program wait? \<open>f\<close>: may \<open>fork\<close> fail?\<close>

inductive fork_step :: "bool \<Rightarrow> bool \<Rightarrow> forks \<Rightarrow> forks \<Rightarrow> bool" for w f where
  pre: "at s p F_top \<Longrightarrow> iter (procs s ! p) < NUM \<Longrightarrow>
    fork_step w f s (print_line (Pre_fork (iter (procs s ! p)) p) (go p F_fork s))"
| loop_over: "at s p F_top \<Longrightarrow> \<not> iter (procs s ! p) < NUM \<Longrightarrow>
    fork_step w f s (print_line (Forking_done p (iter (procs s ! p))) (go p F_exit s))"
| forked: "at s p F_fork \<Longrightarrow>
    fork_step w f s (s\<lparr>procs := (procs s)[p := (procs s ! p)\<lparr>fpc := F_parent (Some (length (procs s)))\<rparr>]
      @ [(procs s ! p)\<lparr>fpc := F_child, ppid := Some p\<rparr>]\<rparr>)"
| fork_fails: "f \<Longrightarrow> at s p F_fork \<Longrightarrow> fork_step w f s (go p (F_parent None) s)"
| parent_says: "at s p (F_parent n) \<Longrightarrow>
    fork_step w f s (print_line (Parent_line p n) (go p (if w then F_wait else F_post) s))"
| reaps: "at s p F_wait \<Longrightarrow> at s c F_gone \<Longrightarrow> child_of p (procs s ! c) \<Longrightarrow>
    fork_step w f s (go p F_post (s\<lparr>procs := (procs s)[c := (procs s ! c)\<lparr>reaped := True\<rparr>]\<rparr>))"
| no_child: "at s p F_wait \<Longrightarrow> \<not> list_ex (child_of p) (procs s) \<Longrightarrow> fork_step w f s (go p F_post s)"
| child_says: "at s p F_child \<Longrightarrow>
    fork_step w f s (print_line (Child_line p (ppid (procs s ! p) = None)) (go p F_post s))"
| post: "at s p F_post \<Longrightarrow>
    fork_step w f s (print_line (Post_fork (iter (procs s ! p)) p)
      (s\<lparr>procs := (procs s)[p := (procs s ! p)\<lparr>fpc := F_top, iter := iter (procs s ! p) + 1\<rparr>]\<rparr>))"
| ends: "at s p F_exit \<Longrightarrow> fork_step w f s (end_proc p s)"

abbreviation forks_reach :: "bool \<Rightarrow> bool \<Rightarrow> forks \<Rightarrow> bool" where
  "forks_reach w f \<equiv> reach forks_start (fork_step w f)"

definition all_gone :: "forks \<Rightarrow> bool" where
  "all_gone s \<longleftrightarrow> list_all (\<lambda>q. fpc q = F_gone) (procs s)"

section \<open>How many processes\<close>

text \<open>How many processes a process will have become, itself included, when no \<open>fork\<close> fails.\<close>

definition becomes :: "fork_proc \<Rightarrow> nat" where
  "becomes q = (case fpc q of
      F_top \<Rightarrow> 2 ^ (NUM - iter q)
    | F_fork \<Rightarrow> 2 ^ (NUM - iter q)
    | F_exit \<Rightarrow> 1
    | F_gone \<Rightarrow> 1
    | _ \<Rightarrow> 2 ^ (NUM - Suc (iter q)))"

text \<open>How many steps it and its children have left.\<close>

fun turns_left :: "nat \<Rightarrow> nat" where
  "turns_left 0 = 2"
| "turns_left (Suc k) = 7 + 2 * turns_left k"

definition steps_left :: "fork_proc \<Rightarrow> nat" where
  "steps_left q = (let k = NUM - Suc (iter q) in case fpc q of
      F_top \<Rightarrow> turns_left (NUM - iter q)
    | F_fork \<Rightarrow> 6 + 2 * turns_left k
    | F_parent n \<Rightarrow> 3 + turns_left k
    | F_wait \<Rightarrow> 2 + turns_left k
    | F_child \<Rightarrow> 2 + turns_left k
    | F_post \<Rightarrow> 1 + turns_left k
    | F_exit \<Rightarrow> 1
    | F_gone \<Rightarrow> 0)"

definition iter_ok :: "fork_proc \<Rightarrow> bool" where
  "iter_ok q \<longleftrightarrow> (case fpc q of F_top \<Rightarrow> iter q \<le> NUM | F_exit \<Rightarrow> iter q = NUM | F_gone \<Rightarrow> iter q = NUM | _ \<Rightarrow> iter q < NUM)"

lemma adopt_same [simp]: "fpc (adopt p q) = fpc q" "iter (adopt p q) = iter q"
  by (simp_all add: adopt_def)

lemma proc_fields [simp]:
  "iter_ok (q\<lparr>reaped := b\<rparr>) = iter_ok q" "becomes (q\<lparr>reaped := b\<rparr>) = becomes q" "steps_left (q\<lparr>reaped := b\<rparr>) = steps_left q"
  "iter_ok (adopt p q) = iter_ok q" "becomes (adopt p q) = becomes q" "steps_left (adopt p q) = steps_left q"
  by (simp_all add: iter_ok_def becomes_def steps_left_def Let_def split: fork_pc.split)

lemma sum_update:
  fixes g :: "'a \<Rightarrow> nat"
  assumes "p < length xs"
  shows "sum_list (map g (xs[p := q])) + g (xs ! p) = sum_list (map g xs) + g q"
proof -
  have "xs = take p xs @ xs ! p # drop (Suc p) xs" using assms by (rule id_take_nth_drop)
  then have "sum_list (map g xs) = sum_list (map g (take p xs)) + g (xs ! p) + sum_list (map g (drop (Suc p) xs))"
    by (metis add.assoc list.simps(9) map_append sum_list.Cons sum_list.append)
  moreover have "sum_list (map g (xs[p := q])) = sum_list (map g (take p xs)) + g q + sum_list (map g (drop (Suc p) xs))"
    using assms by (simp add: upd_conv_take_nth_drop)
  ultimately show ?thesis by simp
qed

lemma list_all_update: "list_all P xs \<Longrightarrow> P q \<Longrightarrow> list_all P (xs[p := q])"
  by (auto simp: list_all_iff dest!: set_update_subset_insert [THEN subsetD])

definition all_become :: "forks \<Rightarrow> nat" where "all_become s = sum_list (map becomes (procs s))"
definition all_left :: "forks \<Rightarrow> nat" where "all_left s = sum_list (map steps_left (procs s))"

text \<open>A step of one process, with new processes behind the table.\<close>

lemma one_proc:
  assumes "procs t = (procs s)[p := q] @ qs" "p < length (procs s)" "list_all iter_ok (procs s)"
    and "iter_ok (procs s ! p) \<Longrightarrow> iter_ok q \<and> list_all iter_ok qs \<and>
      becomes q + sum_list (map becomes qs) \<le> becomes (procs s ! p) \<and>
      (\<not> f \<longrightarrow> becomes q + sum_list (map becomes qs) = becomes (procs s ! p)) \<and>
      steps_left q + sum_list (map steps_left qs) < steps_left (procs s ! p)"
  shows "list_all iter_ok (procs t) \<and> all_become t \<le> all_become s \<and> (\<not> f \<longrightarrow> all_become t = all_become s) \<and> all_left t < all_left s"
proof -
  have "iter_ok (procs s ! p)" using assms(2,3) by (simp add: list_all_length)
  note q = assms(4) [OF this]
  have "list_all iter_ok (procs t)" using q assms(1,3) by (simp add: list_all_update)
  then show ?thesis
    using q sum_update [OF assms(2), of becomes q] sum_update [OF assms(2), of steps_left q]
    by (auto simp: all_become_def all_left_def assms(1))
qed

lemma NUM_iter: "i < NUM \<Longrightarrow> NUM - i = Suc (NUM - Suc i)"
  by simp

lemmas proc_measures = iter_ok_def becomes_def steps_left_def Let_def go_def print_line_def NUM_iter

lemma fork_step_measures:
  assumes "fork_step w f s t" "list_all iter_ok (procs s)"
  shows "list_all iter_ok (procs t) \<and> all_become t \<le> all_become s \<and> (\<not> f \<longrightarrow> all_become t = all_become s) \<and> all_left t < all_left s"
  using assms
proof cases
  case (pre p)
  show ?thesis by (rule one_proc [of t s p _ "[]"]) (use pre assms(2) in \<open>auto simp: proc_measures\<close>)
next
  case (loop_over p)
  show ?thesis by (rule one_proc [of t s p _ "[]"]) (use loop_over assms(2) in \<open>auto simp: proc_measures\<close>)
next
  case (forked p)
  show ?thesis by (rule one_proc [OF _ _ assms(2)]) (use forked in \<open>auto simp: proc_measures\<close>)
next
  case (fork_fails p)
  show ?thesis by (rule one_proc [of t s p _ "[]"]) (use fork_fails assms(2) in \<open>auto simp: proc_measures\<close>)
next
  case (parent_says p n)
  show ?thesis by (rule one_proc [of t s p _ "[]"]) (use parent_says assms(2) in \<open>auto simp: proc_measures\<close>)
next
  case (reaps p c)
  let ?s = "s\<lparr>procs := (procs s)[c := (procs s ! c)\<lparr>reaped := True\<rparr>]\<rparr>"
  have i: "list_all iter_ok (procs ?s)" using assms(2) reaps(3) list_all_update [OF assms(2)] by (simp add: list_all_length [of _ "procs s"])
  have e: "all_become ?s = all_become s" "all_left ?s = all_left s"
    using sum_update [OF conjunct1 [OF reaps(3)], of becomes "(procs s ! c)\<lparr>reaped := True\<rparr>"]
      sum_update [OF conjunct1 [OF reaps(3)], of steps_left "(procs s ! c)\<lparr>reaped := True\<rparr>"]
    by (simp_all add: all_become_def all_left_def)
  have "p \<noteq> c" using reaps by auto
  then show ?thesis unfolding e [symmetric]
    by (intro one_proc [of t ?s p _ "[]"]) (use reaps i in \<open>auto simp: proc_measures\<close>)
next
  case (no_child p)
  show ?thesis by (rule one_proc [of t s p _ "[]"]) (use no_child assms(2) in \<open>auto simp: proc_measures\<close>)
next
  case (child_says p)
  show ?thesis by (rule one_proc [of t s p _ "[]"]) (use child_says assms(2) in \<open>auto simp: proc_measures\<close>)
next
  case (post p)
  show ?thesis by (rule one_proc [of t s p _ "[]"]) (use post assms(2) in \<open>auto simp: proc_measures\<close>)
next
  case (ends p)
  let ?s = "s\<lparr>procs := map (adopt p) (procs s)\<rparr>"
  have i: "list_all iter_ok (procs ?s)" using assms(2) by (auto simp: list_all_length)
  have e: "all_become ?s = all_become s" "all_left ?s = all_left s"
    by (simp_all add: all_become_def all_left_def comp_def)
  show ?thesis unfolding e [symmetric]
    by (intro one_proc [of t ?s p _ "[]"]) (use ends i in \<open>auto simp: proc_measures end_proc_def\<close>)
qed

lemma forks_measures:
  assumes "forks_reach w f s"
  shows "list_all iter_ok (procs s) \<and> all_become s \<le> 2 ^ NUM \<and> (\<not> f \<longrightarrow> all_become s = 2 ^ NUM)"
  using assms
proof (induction rule: reach_invariant)
  case (start s)
  then show ?case by (auto simp: forks_start_def iter_ok_def all_become_def becomes_def)
next
  case (step s t)
  then show ?case using fork_step_measures [of w f s t] by auto
qed

lemma becomes_pos: "0 < becomes q"
  by (simp add: becomes_def split: fork_pc.split)

lemma length_become: "length (procs s) \<le> all_become s"
proof -
  have "length qs \<le> sum_list (map becomes qs)" for qs
  proof (induction qs)
    case (Cons q qs)
    then show ?case using becomes_pos [of q] by simp
  qed simp
  then show ?thesis by (simp add: all_become_def)
qed

lemma all_gone_become:
  assumes "all_gone s"
  shows "all_become s = length (procs s)"
proof -
  have "list_all (\<lambda>q. fpc q = F_gone) qs \<Longrightarrow> sum_list (map becomes qs) = length qs" for qs
    by (induction qs) (auto simp: becomes_def)
  then show ?thesis using assms by (simp add: all_gone_def all_become_def)
qed

text \<open>There are never more than \<open>2 ^ NUM\<close> processes, and at the end that many, in every order, when no \<open>fork\<close> fails.\<close>

theorem fork_counts:
  assumes "forks_reach w f s"
  shows "length (procs s) \<le> 2 ^ NUM \<and> (\<not> f \<and> all_gone s \<longrightarrow> length (procs s) = 2 ^ NUM)"
  using forks_measures [OF assms] length_become [of s] all_gone_become [of s] by auto

text \<open>No run is infinite.\<close>

theorem fork_loops_end:
  assumes "forks_reach w f s"
  shows "\<not> (\<exists>h. h 0 = s \<and> (\<forall>k. fork_step w f (h k) (h (Suc k))))"
  by (rule no_endless_run [OF _ assms, where w = all_left]) (use fork_step_measures forks_measures in blast)

section \<open>Families\<close>

text \<open>A child is younger than its parent, and its status is read only when it has ended.\<close>

definition young :: "forks \<Rightarrow> bool" where
  "young s \<longleftrightarrow> (\<forall>c < length (procs s). (\<forall>p. ppid (procs s ! c) = Some p \<longrightarrow> p < c) \<and>
     (reaped (procs s ! c) \<longrightarrow> fpc (procs s ! c) = F_gone))"

definition kin :: "nat \<Rightarrow> fork_proc \<Rightarrow> bool" where
  "kin c q \<longleftrightarrow> (\<forall>p. ppid q = Some p \<longrightarrow> p < c) \<and> (reaped q \<longrightarrow> fpc q = F_gone)"

lemma young_kin: "young s \<longleftrightarrow> (\<forall>c < length (procs s). kin c (procs s ! c))"
  by (simp add: young_def kin_def)

lemma kin_adopt: "kin c q \<Longrightarrow> kin c (adopt p q)"
  by (auto simp: kin_def adopt_def)

lemma young_step:
  assumes "fork_step w f s t" "young s"
  shows "young t"
  using assms
proof cases
  case (forked p)
  have "kin p (procs s ! p)" using forked(2) assms(2) by (simp add: young_kin)
  then have "kin p ((procs s ! p)\<lparr>fpc := F_parent (Some (length (procs s)))\<rparr>)"
    "kin (length (procs s)) ((procs s ! p)\<lparr>fpc := F_child, ppid := Some p\<rparr>)"
    using forked(2) by (auto simp: kin_def)
  then show ?thesis using assms(2) forked(2) unfolding forked(1) young_kin
    by (auto simp: nth_append nth_list_update less_Suc_eq)
next
  case (ends p)
  have "kin p ((procs s ! p)\<lparr>fpc := F_gone, reaped := b\<rparr>)" for b
    using ends(2) assms(2) by (auto simp: young_kin kin_def)
  then show ?thesis using assms(2) ends(2) unfolding ends(1) young_kin
    by (auto simp: end_proc_def nth_list_update kin_adopt)
next
  case (reaps p c)
  then show ?thesis using assms(2) by (auto simp: young_kin kin_def go_def nth_list_update)
qed (use assms(2) in \<open>auto simp: young_kin kin_def go_def print_line_def nth_list_update\<close>)

lemma young_reach:
  assumes "forks_reach w f s"
  shows "young s"
  using assms
proof (induction rule: reach_invariant)
  case (start s)
  then show ?case by (simp add: forks_start_def young_def)
next
  case (step s t)
  then show ?case using young_step by blast
qed

text \<open>In the program that waits, an unread child has a parent that is about to wait for it, and it is the only one.\<close>

definition waits :: "fork_pc \<Rightarrow> bool" where
  "waits c \<longleftrightarrow> c = F_wait \<or> (\<exists>n. c = F_parent n)"

definition kids :: "forks \<Rightarrow> nat \<Rightarrow> nat set" where
  "kids s p = {d. d < length (procs s) \<and> child_of p (procs s ! d)}"

definition waited :: "forks \<Rightarrow> bool" where
  "waited s \<longleftrightarrow> (\<forall>c < length (procs s). c \<noteq> 0 \<and> \<not> reaped (procs s ! c) \<longrightarrow>
     (\<exists>p. ppid (procs s ! c) = Some p \<and> p < length (procs s) \<and> waits (fpc (procs s ! p)) \<and> kids s p = {c}))"

lemma no_kids:
  assumes "waited s" "young s" "\<not> waits (fpc (procs s ! p))"
  shows "kids s p = {}"
proof (rule ccontr)
  assume "kids s p \<noteq> {}"
  then obtain d where d: "d < length (procs s)" "child_of p (procs s ! d)" by (auto simp: kids_def)
  then have "p < d" using assms(2) by (auto simp: young_def child_of_def)
  then show False using d assms(1,3) by (auto simp: waited_def child_of_def)
qed

lemma waited_update:
  assumes "waited s" "procs t = (procs s)[p := q]" "p < length (procs s)"
    and "ppid q = ppid (procs s ! p)"
    and "reaped q = reaped (procs s ! p) \<or> ppid (procs s ! p) = None \<and> reaped q"
    and "kids s p = {} \<or> waits (fpc q)"
  shows "waited t"
proof -
  have k: "kids t r = kids s r" for r
    using assms(2-5) by (fastforce simp: kids_def child_of_def nth_list_update split: if_splits)
  show ?thesis
    unfolding waited_def
  proof (intro allI impI, elim conjE)
    fix c assume c: "c < length (procs t)" "c \<noteq> 0" "\<not> reaped (procs t ! c)"
    then have "c < length (procs s)" "\<not> reaped (procs s ! c)" "ppid (procs t ! c) = ppid (procs s ! c)"
      using assms(2-5) by (auto simp: nth_list_update split: if_splits)
    then obtain r where r: "ppid (procs s ! c) = Some r" "r < length (procs s)" "waits (fpc (procs s ! r))" "kids s r = {c}"
      using assms(1) c(2) by (auto simp: waited_def)
    have "waits (fpc (procs t ! r))" using assms(2,6) r by (cases "r = p") (auto simp: nth_list_update)
    then show "\<exists>r. ppid (procs t ! c) = Some r \<and> r < length (procs t) \<and> waits (fpc (procs t ! r)) \<and> kids t r = {c}"
      using r k assms(2) \<open>ppid (procs t ! c) = ppid (procs s ! c)\<close> by auto
  qed
qed

lemma waited_go:
  assumes "waited s" "p < length (procs s)" "kids s p = {} \<or> waits c"
  shows "waited (go p c s)"
  by (rule waited_update [OF assms(1), of _ p "(procs s ! p)\<lparr>fpc := c\<rparr>"]) (use assms in \<open>auto simp: go_def\<close>)

lemma waited_print: "waited (print_line l s) = waited s"
  by (simp add: waited_def print_line_def kids_def)

lemma waited_step:
  assumes "fork_step True f s t" "waited s" "young s"
  shows "waited t"
  using assms(1)
proof cases
  case (forked p)
  let ?n = "length (procs s)"
  have n: "kids s p = {}" using no_kids [OF assms(2,3)] forked(2) by (simp add: waits_def)
  have p0: "kids t p = {?n}"
    using n forked(2) assms(3) unfolding forked(1)
    by (auto simp: kids_def child_of_def nth_append nth_list_update young_def less_Suc_eq split: if_splits)
  have r0: "r \<noteq> p \<Longrightarrow> kids t r = kids s r" for r
    using n forked(2) unfolding forked(1)
    by (auto simp: kids_def child_of_def nth_append nth_list_update less_Suc_eq split: if_splits)
  show ?thesis
    unfolding waited_def
  proof (intro allI impI, elim conjE)
    fix c assume c: "c < length (procs t)" "c \<noteq> 0" "\<not> reaped (procs t ! c)"
    show "\<exists>r. ppid (procs t ! c) = Some r \<and> r < length (procs t) \<and> waits (fpc (procs t ! r)) \<and> kids t r = {c}"
    proof (cases "c = ?n")
      case True
      then show ?thesis using p0 forked(2) unfolding forked(1) by (auto simp: nth_append nth_list_update waits_def)
    next
      case False
      then have d: "c < ?n" "\<not> reaped (procs s ! c)" "ppid (procs t ! c) = ppid (procs s ! c)"
        using c forked(2) unfolding forked(1) by (auto simp: nth_append nth_list_update split: if_splits)
      then obtain r where r: "ppid (procs s ! c) = Some r" "r < ?n" "waits (fpc (procs s ! r))" "kids s r = {c}"
        using assms(2) c(2) by (auto simp: waited_def)
      have "r \<noteq> p" using r(4) n by auto
      then have "waits (fpc (procs t ! r))" using r(2,3) unfolding forked(1) by (simp add: nth_append)
      then show ?thesis using r d(3) r0 [OF \<open>r \<noteq> p\<close>] unfolding forked(1) by auto
    qed
  qed
next
  case (reaps p c)
  let ?u = "s\<lparr>procs := (procs s)[c := (procs s ! c)\<lparr>reaped := True\<rparr>]\<rparr>"
  have c: "p < c" using assms(3) reaps(3,4) by (auto simp: young_def child_of_def)
  then have k: "kids s p = {c}" using reaps(3,4) assms(2) by (auto simp: waited_def child_of_def)
  have ku: "kids ?u r = kids s r - {c}" for r
    using reaps(3) by (auto simp: kids_def child_of_def nth_list_update split: if_splits)
  have "waited ?u"
    unfolding waited_def
  proof (intro allI impI, elim conjE)
    fix d assume d: "d < length (procs ?u)" "d \<noteq> 0" "\<not> reaped (procs ?u ! d)"
    then have e: "d < length (procs s)" "d \<noteq> c" "\<not> reaped (procs s ! d)" "procs ?u ! d = procs s ! d"
      using reaps(3) by (auto simp: nth_list_update split: if_splits)
    then obtain r where r: "ppid (procs s ! d) = Some r" "r < length (procs s)" "waits (fpc (procs s ! r))" "kids s r = {d}"
      using assms(2) d(2) by (auto simp: waited_def)
    then show "\<exists>r. ppid (procs ?u ! d) = Some r \<and> r < length (procs ?u) \<and> waits (fpc (procs ?u ! r)) \<and> kids ?u r = {d}"
      using e ku reaps(3) by (auto simp: nth_list_update)
  qed
  then show ?thesis
    by (rule waited_update [of ?u t p "(procs s ! p)\<lparr>fpc := F_post\<rparr>"]) (use reaps c k ku in \<open>auto simp: go_def nth_list_update\<close>)
next
  case (ends p)
  have k: "kids s p = {}" using no_kids [OF assms(2,3)] ends(2) by (simp add: waits_def)
  have "map (adopt p) (procs s) = map (\<lambda>q. q) (procs s)"
    using k by (intro map_cong) (auto simp: adopt_def kids_def in_set_conv_nth)
  then have t: "procs t = (procs s)[p := (procs s ! p)\<lparr>fpc := F_gone, reaped := (ppid (procs s ! p) = None)\<rparr>]"
    using ends(1) by (simp add: end_proc_def)
  have "\<not> reaped (procs s ! p)" using assms(3) ends(2) by (auto simp: young_def)
  then show ?thesis using waited_update [OF assms(2) t] ends(2) k by auto
next
  case (post p)
  have k: "kids s p = {}" using no_kids [OF assms(2,3)] post(2) by (simp add: waits_def)
  then show ?thesis
    unfolding post(1) waited_print
    by (rule_tac waited_update [OF assms(2), of _ p "(procs s ! p)\<lparr>fpc := F_top, iter := iter (procs s ! p) + 1\<rparr>"]) (use post(2) in auto)
next
  case (no_child p)
  then show ?thesis using waited_go [OF assms(2), of p F_post] by (auto simp: kids_def list_ex_length)
qed (use no_kids [OF assms(2,3)] waited_go [OF assms(2)] in \<open>auto simp: waited_print waits_def\<close>)

lemma waited_reach:
  assumes "forks_reach True f s"
  shows "waited s"
  using assms
proof (induction rule: reach_invariant)
  case (start s)
  then show ?case by (simp add: forks_start_def waited_def)
next
  case (step s t)
  then show ?case using waited_step [of f s t] young_reach by blast
qed

text \<open>The first \<open>fork\<close>.\<close>

lemma first_fork:
  "forks_reach w False \<lparr>procs = [\<lparr>fpc = F_parent (Some 1), iter = 0, ppid = None, reaped = False\<rparr>,
      \<lparr>fpc = F_child, iter = 0, ppid = Some 0, reaped = False\<rparr>], lines_out = [Pre_fork 0 0]\<rparr>"
proof -
  define s0 where "s0 = \<lparr>procs = [\<lparr>fpc = F_top, iter = 0, ppid = None, reaped = False\<rparr>], lines_out = []\<rparr>"
  have r0: "forks_reach w False s0" by (rule reach_start) (simp add: forks_start_def s0_def)
  have "fork_step w False s0 (print_line (Pre_fork 0 0) (go 0 F_fork s0))"
    using fork_step.pre [of 0 s0] by (simp add: s0_def NUM_def)
  note r1 = reach_step [OF r0 this]
  let ?t = "\<lparr>procs = [\<lparr>fpc = F_parent (Some 1), iter = 0, ppid = None, reaped = False\<rparr>,
      \<lparr>fpc = F_child, iter = 0, ppid = Some 0, reaped = False\<rparr>], lines_out = [Pre_fork 0 0]\<rparr>"
  have "fork_step w False (print_line (Pre_fork 0 0) (go 0 F_fork s0)) ?t"
    using fork_step.forked [of 0 "print_line (Pre_fork 0 0) (go 0 F_fork s0)"]
    by (simp add: s0_def go_def print_line_def)
  then show ?thesis by (rule reach_step [OF r1])
qed

text \<open>C23: A process that has ended or goes on in \<open>fork_wait\<close> leaves no child behind: a child, alive or ended, whose status is not read
  has a parent that is about to wait, and it is the only such child. So there are no orphans and no zombies at the end.
\<close>

theorem fork_wait_orderly:
  assumes "forks_reach True f s" "c < length (procs s)" "c \<noteq> 0" "\<not> reaped (procs s ! c)"
  shows "\<exists>p. ppid (procs s ! c) = Some p \<and> p < length (procs s) \<and> waits (fpc (procs s ! p)) \<and> kids s p = {c}"
  using waited_reach [OF assms(1)] assms(2-4) by (simp add: waited_def)

theorem fork_wait_orderly_witness:
  "\<exists>p. ppid (procs \<lparr>procs = [\<lparr>fpc = F_parent (Some 1), iter = 0, ppid = None, reaped = False\<rparr>,
      \<lparr>fpc = F_child, iter = 0, ppid = Some 0, reaped = False\<rparr>], lines_out = [Pre_fork 0 0]\<rparr> ! 1) = Some p \<and> p < 2 \<and>
    waits (fpc (procs \<lparr>procs = [\<lparr>fpc = F_parent (Some 1), iter = 0, ppid = None, reaped = False\<rparr>,
      \<lparr>fpc = F_child, iter = 0, ppid = Some 0, reaped = False\<rparr>], lines_out = [Pre_fork 0 0]\<rparr> ! p))"
  using fork_wait_orderly [OF first_fork [of True], of 1] by (auto simp: eval_nat_numeral)

text \<open>Neither program comes to a stop before all processes have ended.\<close>

lemma runnable:
  assumes "at s p c" "c \<noteq> F_wait" "c \<noteq> F_gone"
  shows "\<exists>t. fork_step w f s t"
proof (cases c)
  case F_top
  then show ?thesis using assms fork_step.pre [of p s] fork_step.loop_over [of p s] by blast
qed (use assms in \<open>blast intro: fork_step.intros\<close>)+

theorem fork_progress:
  assumes "forks_reach w f s" "\<not> all_gone s"
  shows "\<exists>t. fork_step w f s t"
proof -
  let ?live = "{p. p < length (procs s) \<and> fpc (procs s ! p) \<noteq> F_gone}"
  have "?live \<noteq> {}" using assms(2) by (auto simp: all_gone_def list_all_length)
  moreover have "finite ?live" by simp
  ultimately obtain p where p: "p \<in> ?live" "\<And>q. q \<in> ?live \<Longrightarrow> q \<le> p"
    using Max_in [of ?live] Max_ge [of ?live] by blast
  show ?thesis
  proof (cases "fpc (procs s ! p) = F_wait")
    case False
    then show ?thesis using p(1) runnable by blast
  next
    case True
    show ?thesis
    proof (cases "list_ex (child_of p) (procs s)")
      case True
      then obtain c where c: "c < length (procs s)" "child_of p (procs s ! c)" by (auto simp: list_ex_length)
      then have "p < c" using young_reach [OF assms(1)] by (auto simp: young_def child_of_def)
      then have "fpc (procs s ! c) = F_gone" using p(2) [of c] c(1) by fastforce
      then show ?thesis using fork_step.reaps [of p s c] c p(1) \<open>fpc (procs s ! p) = F_wait\<close> by blast
    next
      case False
      then show ?thesis using fork_step.no_child [of p s] p(1) True by blast
    qed
  qed
qed

section \<open>Zombies and orphans\<close>

text \<open>Steps of \<open>c\<close> alone: the other processes stay where they are, and keep a parent other than \<open>c\<close>.\<close>

definition solo :: "nat \<Rightarrow> forks \<Rightarrow> forks \<Rightarrow> bool" where
  "solo c s t \<longleftrightarrow> c < length (procs t) \<and> length (procs s) \<le> length (procs t) \<and> ppid (procs t ! c) = ppid (procs s ! c) \<and>
     (ppid (procs s ! c) \<noteq> None \<and> \<not> reaped (procs s ! c) \<longrightarrow> \<not> reaped (procs t ! c)) \<and>
     (\<forall>q < length (procs s). q \<noteq> c \<longrightarrow> fpc (procs t ! q) = fpc (procs s ! q) \<and>
       (ppid (procs t ! q) = ppid (procs s ! q) \<or> ppid (procs t ! q) = None) \<and>
       (ppid (procs s ! q) \<noteq> Some c \<longrightarrow> procs t ! q = procs s ! q))"

lemma solo_other:
  assumes "solo c s t" "q < length (procs s)" "q \<noteq> c"
  shows "fpc (procs t ! q) = fpc (procs s ! q)" "ppid (procs t ! q) = ppid (procs s ! q) \<or> ppid (procs t ! q) = None"
    and "ppid (procs s ! q) \<noteq> Some c \<Longrightarrow> procs t ! q = procs s ! q"
  using assms by (auto simp: solo_def)

lemma solo_trans:
  assumes "solo c s t" "solo c t u"
  shows "solo c s u"
proof -
  have q: "fpc (procs u ! q) = fpc (procs s ! q) \<and> (ppid (procs u ! q) = ppid (procs s ! q) \<or> ppid (procs u ! q) = None) \<and>
      (ppid (procs s ! q) \<noteq> Some c \<longrightarrow> procs u ! q = procs s ! q)" if "q < length (procs s)" "q \<noteq> c" for q
  proof -
    have "q < length (procs t)" using that(1) assms(1) by (simp add: solo_def)
    note a = solo_other [OF assms(1) that] and b = solo_other [OF assms(2) this that(2)]
    show ?thesis using a(1) b(1) a(2,3) b(2,3) by auto
  qed
  then show ?thesis using assms unfolding solo_def by auto
qed

lemma solo_step:
  assumes "at s c x" "x \<noteq> F_wait" "x \<noteq> F_gone" "list_all iter_ok (procs s)"
    and "ppid (procs s ! c) \<noteq> Some c" "\<not> reaped (procs s ! c)"
  shows "\<exists>t. fork_step False False s t \<and> solo c s t \<and> steps_left (procs t ! c) < steps_left (procs s ! c) \<and>
    fpc (procs t ! c) \<noteq> F_wait \<and> (fpc (procs t ! c) = F_gone \<longrightarrow> kids t c = {})"
proof -
  have i: "iter_ok (procs s ! c)" using assms(1,4) by (simp add: list_all_length)
  note d = solo_def iter_ok_def steps_left_def Let_def go_def print_line_def NUM_iter
  show ?thesis
  proof (cases x)
    case F_top
    show ?thesis
    proof (cases "iter (procs s ! c) < NUM")
      case True
      show ?thesis
        by (intro exI conjI, rule fork_step.pre) (use True F_top assms(1) i in \<open>auto simp: d\<close>)
    next
      case False
      show ?thesis
        by (intro exI conjI, rule fork_step.loop_over) (use False F_top assms(1) i in \<open>auto simp: d\<close>)
    qed
  next
    case F_fork
    show ?thesis
      by (intro exI conjI, rule fork_step.forked) (use F_fork assms(1) i in \<open>auto simp: d nth_append\<close>)
  next
    case (F_parent n)
    show ?thesis
      by (intro exI conjI, rule fork_step.parent_says) (use F_parent assms(1) i in \<open>auto simp: d\<close>)
  next
    case F_child
    show ?thesis
      by (intro exI conjI, rule fork_step.child_says) (use F_child assms(1) i in \<open>auto simp: d\<close>)
  next
    case F_post
    show ?thesis
      by (intro exI conjI, rule fork_step.post) (use F_post assms(1) i in \<open>auto simp: d\<close>)
  next
    case F_exit
    show ?thesis
    proof (intro exI conjI)
      show "fork_step False False s (end_proc c s)" by (rule fork_step.ends) (use F_exit assms(1) in simp)
      show "fpc (procs (end_proc c s) ! c) = F_gone \<longrightarrow> kids (end_proc c s) c = {}"
        using assms(1,5) by (auto simp: end_proc_def kids_def child_of_def adopt_def nth_list_update split: if_splits)
    qed (use F_exit assms(1,5) i in \<open>auto simp: d end_proc_def adopt_def child_of_def nth_list_update\<close>)
  qed (use assms in simp_all)
qed

lemma solo_run:
  assumes "forks_reach False False s" "c < length (procs s)" "fpc (procs s ! c) \<noteq> F_wait" "fpc (procs s ! c) \<noteq> F_gone"
  shows "\<exists>t. forks_reach False False t \<and> solo c s t \<and> fpc (procs t ! c) = F_gone \<and> kids t c = {}"
  using assms
proof (induction "steps_left (procs s ! c)" arbitrary: s rule: less_induct)
  case less
  have i: "list_all iter_ok (procs s)" using forks_measures [OF less.prems(1)] by blast
  obtain t where t: "fork_step False False s t" "solo c s t" "steps_left (procs t ! c) < steps_left (procs s ! c)"
      "fpc (procs t ! c) \<noteq> F_wait" "fpc (procs t ! c) = F_gone \<longrightarrow> kids t c = {}"
    using solo_step [OF conjI [OF less.prems(2) refl] less.prems(3,4) i] young_reach [OF less.prems(1)] less.prems(2,4)
    by (fastforce simp: young_def)
  have r: "forks_reach False False t" using reach_step [OF less.prems(1) t(1)] .
  show ?case
  proof (cases "fpc (procs t ! c) = F_gone")
    case True
    then show ?thesis using r t by blast
  next
    case False
    have "c < length (procs t)" using t(2) by (simp add: solo_def)
    then obtain u where "forks_reach False False u" "solo c t u" "fpc (procs u ! c) = F_gone" "kids u c = {}"
      using less.hyps [OF t(3) r _ t(4) False] by blast
    then show ?thesis using solo_trans [OF t(2)] by blast
  qed
qed

text \<open>
  Without the call of \<open>wait\<close>: while the first process sleeps after its first \<open>fork\<close>, its child can end and stay a zombie; and
  the first process can end before its child has printed its line, which is then an orphan.
\<close>

theorem zombies_and_orphans:
  "(\<exists>s. forks_reach False False s \<and> at s 0 (F_parent (Some 1)) \<and> at s 1 F_gone \<and> child_of 0 (procs s ! 1)) \<and>
   (\<exists>s. forks_reach False False s \<and> at s 0 F_gone \<and> at s 1 F_child \<and> ppid (procs s ! 1) = None)"
proof -
  define s2 where "s2 = \<lparr>procs = [\<lparr>fpc = F_parent (Some 1), iter = 0, ppid = None, reaped = False\<rparr>,
      \<lparr>fpc = F_child, iter = 0, ppid = Some 0, reaped = False\<rparr>], lines_out = [Pre_fork 0 0]\<rparr>"
  have r2: "forks_reach False False s2" unfolding s2_def by (rule first_fork)
  have l: "length (procs s2) = 2" "fpc (procs s2 ! 0) = F_parent (Some 1)" "fpc (procs s2 ! 1) = F_child"
      "ppid (procs s2 ! 0) = None" "ppid (procs s2 ! 1) = Some 0" "\<not> reaped (procs s2 ! 1)" by (simp_all add: s2_def)
  obtain t where t: "forks_reach False False t" "solo 1 s2 t" "fpc (procs t ! 1) = F_gone"
    using solo_run [OF r2, of 1] l by auto
  have z: "at t 0 (F_parent (Some 1))" "at t 1 F_gone" "child_of 0 (procs t ! 1)"
    using t(2,3) l by (auto simp: solo_def child_of_def)
  obtain u where u: "forks_reach False False u" "solo 0 s2 u" "fpc (procs u ! 0) = F_gone" "kids u 0 = {}"
    using solo_run [OF r2, of 0] l by auto
  have o: "at u 0 F_gone" "at u 1 F_child" using u(2,3) l by (auto simp: solo_def)
  have "\<not> reaped (procs u ! 1)" using young_reach [OF u(1)] o(2) by (auto simp: young_def)
  then have "ppid (procs u ! 1) \<noteq> Some 0" using u(4) o(2) by (auto simp: kids_def child_of_def)
  then have "ppid (procs u ! 1) = None" using solo_other(2) [OF u(2), of 1] l by auto
  then show ?thesis using t(1) z u(1) o by blast
qed

end
