(* ===== verification/Thread_Once.thy ===== *)
theory Thread_Once
  imports Step_System
begin

text \<open>
  LAB_13/task_pthread_once: threads that create one key with \<open>pthread_once\<close> and keep a buffer of their own
  under it, which a destructor frees. Modelled are the three editions with their \<open>main\<close>, one call at a time; a call of
  \<open>malloc\<close>, \<open>pthread_create\<close>, \<open>pthread_key_create\<close> or \<open>pthread_setspecific\<close> may fail.
\<close>

section \<open>The programs\<close>

datatype once_ed = Once1 | Once2 | Once3

definition thread_num :: "once_ed \<Rightarrow> nat" where
  "thread_num ed = (if ed = Once3 then 10 else 4)"

definition batches :: "once_ed \<Rightarrow> nat" where
  "batches ed = (if ed = Once3 then 1 else 2)"

text \<open>What is under the key: the text buffer, still without a text, or the context of a thread.\<close>

datatype tsd_data = Raw_buf | Text_buf string | Ctx nat nat

datatype once_line = Alloced | Says_text string | Transactions nat | Flushed | Freed

text \<open>The accesses to the buffer: \<open>memcpy\<close> and \<open>printf\<close>; \<open>do_transaction\<close> and \<open>flush_transactions\<close>.\<close>

fun put_text :: "tsd_data \<Rightarrow> tsd_data \<times> once_line" where
  "put_text d = (Text_buf ''Hello, World!'', Says_text ''Hello, World!'')"

fun do_transaction :: "tsd_data \<Rightarrow> tsd_data \<times> once_line" where
  "do_transaction (Ctx i n) = (Ctx i (n + 1), Transactions (n + 1))"
| "do_transaction d = (d, Transactions 0)"

fun flush_transactions :: "tsd_data \<Rightarrow> tsd_data \<times> once_line" where
  "flush_transactions (Ctx i n) = (Ctx i 0, Flushed)"
| "flush_transactions d = (d, Flushed)"

definition acts :: "once_ed \<Rightarrow> (tsd_data \<Rightarrow> tsd_data \<times> once_line) list" where
  "acts ed = (if ed = Once3 then [do_transaction, do_transaction, do_transaction, flush_transactions] else [put_text])"

text \<open>Where a thread stands, the \<open>once_control\<close>, and where \<open>main\<close> stands.\<close>

datatype once_pc =
    O_none
  | O_start
  | O_call
  | O_make
  | O_get
  | O_malloc
  | O_set nat
  | O_work nat nat
  | O_exit
  | O_gone

datatype once_ctl = C_new | C_by nat | C_done

datatype once_main = Create nat nat | Join nat nat | Once_over | Once_crash

record once_st =
  omain :: once_main
  ids :: "nat \<Rightarrow> nat"
  ctl :: once_ctl
  key_ok :: bool
  calls :: nat
  opc :: "nat \<Rightarrow> once_pc"
  tid :: "nat \<Rightarrow> nat"
  tsd :: "nat \<Rightarrow> nat option"
  bufs :: "nat \<Rightarrow> tsd_data option"
  said :: "(nat \<times> once_line) list"

definition once_start :: "once_st \<Rightarrow> bool" where
  "once_start s \<longleftrightarrow> omain s = Create 0 0 \<and> ctl s = C_new \<and> \<not> key_ok s \<and> calls s = 0 \<and> opc s = (\<lambda>t. O_none) \<and>
     tsd s = Map.empty \<and> bufs s = Map.empty \<and> said s = []"

definition move :: "nat \<Rightarrow> once_pc \<Rightarrow> once_st \<Rightarrow> once_st" where
  "move t c s = s\<lparr>opc := (opc s)(t := c)\<rparr>"

text \<open>
  Thread \<open>b * thread_num + k\<close> is the one that \<open>main\<close> creates in round \<open>b\<close> as \<open>threads[k]\<close>. The first edition passes
  the address of \<open>thread_ids[k]\<close>, the others the number itself. To join a thread that was not created is undefined.
\<close>

inductive once_step :: "once_ed \<Rightarrow> bool \<Rightarrow> once_st \<Rightarrow> once_st \<Rightarrow> bool" for ed f where
  create: "omain s = Create b k \<Longrightarrow> k < thread_num ed \<Longrightarrow> t = b * thread_num ed + k \<Longrightarrow>
    once_step ed f s (move t O_start (s\<lparr>ids := (ids s)(k := t + 1), omain := Create b (k + 1)\<rparr>))"
| create_fails: "f \<Longrightarrow> omain s = Create b k \<Longrightarrow> k < thread_num ed \<Longrightarrow> t = b * thread_num ed + k \<Longrightarrow>
    once_step ed f s (s\<lparr>ids := (ids s)(k := t + 1), omain := Create b (k + 1)\<rparr>)"
| created: "omain s = Create b k \<Longrightarrow> \<not> k < thread_num ed \<Longrightarrow> once_step ed f s (s\<lparr>omain := Join b 0\<rparr>)"
| join: "omain s = Join b k \<Longrightarrow> k < thread_num ed \<Longrightarrow> opc s (b * thread_num ed + k) = O_gone \<Longrightarrow>
    once_step ed f s (s\<lparr>omain := Join b (k + 1)\<rparr>)"
| join_bad: "omain s = Join b k \<Longrightarrow> k < thread_num ed \<Longrightarrow> opc s (b * thread_num ed + k) = O_none \<Longrightarrow>
    once_step ed f s (s\<lparr>omain := Once_crash\<rparr>)"
| next_round: "omain s = Join b k \<Longrightarrow> \<not> k < thread_num ed \<Longrightarrow> b + 1 < batches ed \<Longrightarrow>
    once_step ed f s (s\<lparr>omain := Create (b + 1) 0\<rparr>)"
| key_delete: "omain s = Join b k \<Longrightarrow> \<not> k < thread_num ed \<Longrightarrow> \<not> b + 1 < batches ed \<Longrightarrow>
    once_step ed f s (s\<lparr>omain := Once_over\<rparr>)"
| read_id: "opc s t = O_start \<Longrightarrow>
    once_step ed f s (move t O_call (s\<lparr>tid := (tid s)(t := if ed = Once1 then ids s (t mod thread_num ed) else t + 1)\<rparr>))"
| once_first: "opc s t = O_call \<Longrightarrow> ctl s = C_new \<Longrightarrow> once_step ed f s (move t O_make (s\<lparr>ctl := C_by t\<rparr>))"
| make_key: "opc s t = O_make \<Longrightarrow> b \<or> f \<Longrightarrow>
    once_step ed f s (move t O_get (s\<lparr>ctl := C_done, key_ok := b, calls := calls s + 1\<rparr>))"
| once_done: "opc s t = O_call \<Longrightarrow> ctl s = C_done \<Longrightarrow> once_step ed f s (move t O_get s)"
| get_none: "opc s t = O_get \<Longrightarrow> ed = Once3 \<or> tsd s t = None \<Longrightarrow> once_step ed f s (move t O_malloc s)"
| get_some: "opc s t = O_get \<Longrightarrow> ed \<noteq> Once3 \<Longrightarrow> tsd s t = Some a \<Longrightarrow> once_step ed f s (move t (O_work a 0) s)"
| malloc: "opc s t = O_malloc \<Longrightarrow> bufs s a = None \<Longrightarrow>
    once_step ed f s (move t (O_set a) (s\<lparr>bufs := (bufs s)(a \<mapsto> if ed = Once3 then Ctx (tid s t) 0 else Raw_buf)\<rparr>))"
| malloc_fails: "f \<Longrightarrow> opc s t = O_malloc \<Longrightarrow> once_step ed f s (move t O_exit s)"
| setspecific: "opc s t = O_set a \<Longrightarrow> key_ok s \<Longrightarrow>
    once_step ed f s (move t (O_work a 0) (s\<lparr>tsd := (tsd s)(t \<mapsto> a),
      said := said s @ (if ed = Once3 then [] else [(tid s t, Alloced)])\<rparr>))"
| setspecific_fails: "opc s t = O_set a \<Longrightarrow> f \<or> \<not> key_ok s \<Longrightarrow>
    once_step ed f s (move t O_exit (s\<lparr>bufs := (bufs s)(a := None)\<rparr>))"
| work: "opc s t = O_work a k \<Longrightarrow> k < length (acts ed) \<Longrightarrow> bufs s a = Some d \<Longrightarrow>
    once_step ed f s (move t (O_work a (k + 1)) (s\<lparr>bufs := (bufs s)(a \<mapsto> fst ((acts ed ! k) d)),
      said := said s @ [(tid s t, snd ((acts ed ! k) d))]\<rparr>))"
| work_over: "opc s t = O_work a k \<Longrightarrow> \<not> k < length (acts ed) \<Longrightarrow> once_step ed f s (move t O_exit s)"
| destr_func: "opc s t = O_exit \<Longrightarrow> tsd s t = Some a \<Longrightarrow>
    once_step ed f s (move t O_gone (s\<lparr>bufs := (bufs s)(a := None), tsd := (tsd s)(t := None), said := said s @ [(tid s t, Freed)]\<rparr>))"
| exits: "opc s t = O_exit \<Longrightarrow> tsd s t = None \<Longrightarrow> once_step ed f s (move t O_gone s)"

abbreviation once_reach :: "once_ed \<Rightarrow> bool \<Rightarrow> once_st \<Rightarrow> bool" where
  "once_reach ed f \<equiv> reach once_start (once_step ed f)"

section \<open>Threads and \<open>main\<close>\<close>

definition alive :: "once_pc \<Rightarrow> bool" where
  "alive p \<longleftrightarrow> p \<noteq> O_none \<and> p \<noteq> O_gone"

text \<open>Only threads of the present round are alive; \<open>main\<close> has joined the others.\<close>

definition main_at :: "nat \<Rightarrow> once_main \<Rightarrow> nat \<Rightarrow> once_pc \<Rightarrow> bool" where
  "main_at n m t p = (case m of
      Create b k \<Rightarrow> k \<le> n \<and> (p \<noteq> O_none \<longrightarrow> t < b * n + k) \<and> (alive p \<longrightarrow> b * n \<le> t)
    | Join b k \<Rightarrow> k \<le> n \<and> (p \<noteq> O_none \<longrightarrow> t < b * n + n) \<and> (alive p \<longrightarrow> b * n + k \<le> t)
    | Once_over \<Rightarrow> \<not> alive p
    | Once_crash \<Rightarrow> True)"

definition main_inv :: "once_ed \<Rightarrow> once_st \<Rightarrow> bool" where
  "main_inv ed s \<longleftrightarrow> (\<forall>t. main_at (thread_num ed) (omain s) t (opc s t))"

lemma main_inv_thread:
  assumes "main_inv ed s" "omain s' = omain s" "opc s' = (opc s)(t := p)" "alive (opc s t)" "p \<noteq> O_none"
  shows "main_inv ed s'"
proof -
  have "main_at (thread_num ed) (omain s) t (opc s t)" using assms(1) by (simp add: main_inv_def)
  then have "main_at (thread_num ed) (omain s) t p"
    using assms(4,5) by (auto simp: main_at_def alive_def split: once_main.splits)
  then show ?thesis using assms(1-3) by (simp add: main_inv_def)
qed

lemma main_inv_step:
  assumes "once_step ed f s s'" "main_inv ed s"
  shows "main_inv ed s'"
  using assms(1)
proof cases
  case (create b k t)
  show ?thesis
    unfolding main_inv_def
  proof
    fix u
    have "main_at (thread_num ed) (omain s) u (opc s u)" using assms(2) by (simp add: main_inv_def)
    then show "main_at (thread_num ed) (omain s') u (opc s' u)"
      using create by (cases "u = t") (auto simp: main_at_def move_def)
  qed
next
  case (join b k)
  show ?thesis
    unfolding main_inv_def
  proof
    fix u
    have "main_at (thread_num ed) (omain s) u (opc s u)" using assms(2) by (simp add: main_inv_def)
    then show "main_at (thread_num ed) (omain s') u (opc s' u)"
      using join by (cases "u = b * thread_num ed + k") (auto simp: main_at_def alive_def)
  qed
next
  case (create_fails b k t)
  then show ?thesis using assms(2) by (fastforce simp: main_inv_def main_at_def)
next
  case (created b k)
  then show ?thesis using assms(2) by (fastforce simp: main_inv_def main_at_def)
next
  case (next_round b k)
  then show ?thesis using assms(2) by (fastforce simp: main_inv_def main_at_def)
next
  case (key_delete b k)
  have "main_at (thread_num ed) (omain s) u (opc s u)" for u using assms(2) by (simp add: main_inv_def)
  then have "\<not> alive (opc s u)" for u using key_delete by (fastforce simp: main_at_def alive_def)
  then show ?thesis using key_delete by (simp add: main_inv_def main_at_def)
next
  case (join_bad b k)
  then show ?thesis by (simp add: main_inv_def main_at_def)
next
  case (read_id t)
  then show ?thesis by (intro main_inv_thread [OF assms(2), of s' t O_call]) (simp_all add: move_def alive_def)
next
  case (get_none t)
  then show ?thesis by (intro main_inv_thread [OF assms(2), of s' t O_malloc]) (simp_all add: move_def alive_def)
next
  case (malloc t a)
  then show ?thesis by (intro main_inv_thread [OF assms(2), of s' t "O_set a"]) (simp_all add: move_def alive_def)
next
  case (setspecific t a)
  then show ?thesis by (intro main_inv_thread [OF assms(2), of s' t "O_work a 0"]) (simp_all add: move_def alive_def)
qed (auto intro!: main_inv_thread [OF assms(2)] simp: move_def alive_def)

lemma main_inv_reach:
  assumes "once_reach ed f s"
  shows "main_inv ed s"
  using assms
proof (induction rule: reach_invariant)
  case (start s)
  then show ?case by (simp add: once_start_def main_inv_def main_at_def alive_def)
next
  case (step s t)
  then show ?case using main_inv_step by blast
qed

text \<open>The thread that \<open>main\<close> creates next has not been there before.\<close>

lemma next_is_new:
  assumes "main_inv ed s" "omain s = Create b k"
  shows "opc s (b * thread_num ed + k) = O_none"
proof -
  have "main_at (thread_num ed) (omain s) (b * thread_num ed + k) (opc s (b * thread_num ed + k))"
    using assms(1) by (simp add: main_inv_def)
  then show ?thesis using assms(2) by (auto simp: main_at_def)
qed

section \<open>The key is made once\<close>

fun past_once :: "once_pc \<Rightarrow> bool" where
  "past_once O_none = False"
| "past_once O_start = False"
| "past_once O_call = False"
| "past_once O_make = False"
| "past_once O_gone = True"
| "past_once _ = True"

definition once_at :: "once_ctl \<Rightarrow> nat \<Rightarrow> once_pc \<Rightarrow> bool" where
  "once_at c t p \<longleftrightarrow> (p = O_make \<longleftrightarrow> c = C_by t) \<and> (past_once p \<longrightarrow> c = C_done)"

definition once_inv :: "once_st \<Rightarrow> bool" where
  "once_inv s \<longleftrightarrow> (\<forall>t. once_at (ctl s) t (opc s t)) \<and> calls s = (if ctl s = C_done then 1 else 0)"

lemma once_inv_same:
  assumes "once_inv s" "ctl s' = ctl s" "calls s' = calls s" "opc s' = (opc s)(t := p)"
    and "once_at (ctl s) t (opc s t) \<Longrightarrow> once_at (ctl s) t p"
  shows "once_inv s'"
  using assms by (simp add: once_inv_def)

lemma once_inv_main: "once_inv s \<Longrightarrow> ctl s' = ctl s \<Longrightarrow> calls s' = calls s \<Longrightarrow> opc s' = opc s \<Longrightarrow> once_inv s'"
  by (simp add: once_inv_def)

lemma once_inv_step:
  assumes "once_step ed f s s'" "once_inv s" "main_inv ed s"
  shows "once_inv s'"
  using assms(1)
proof cases
  case (create b k t)
  show ?thesis by (rule once_inv_same [OF assms(2), of s' t O_start])
    (use create next_is_new [OF assms(3) create(2)] in \<open>auto simp: move_def once_at_def\<close>)
next
  case (once_first t)
  have "once_at (ctl s) u (opc s u)" for u using assms(2) by (simp add: once_inv_def)
  then have "opc s u \<noteq> O_make \<and> \<not> past_once (opc s u)" for u using once_first(3) by (auto simp: once_at_def)
  then show ?thesis using once_first assms(2) by (simp add: once_inv_def once_at_def move_def)
next
  case (make_key t b)
  have a: "once_at (ctl s) u (opc s u)" for u using assms(2) by (simp add: once_inv_def)
  from a [of t] have c: "ctl s = C_by t" using make_key(2) by (simp add: once_at_def)
  have "u \<noteq> t \<Longrightarrow> opc s u \<noteq> O_make" for u using a [of u] c by (auto simp: once_at_def)
  then show ?thesis using make_key assms(2) c by (simp add: once_inv_def once_at_def move_def)
next
  case (create_fails b k t)
  then show ?thesis using once_inv_main [OF assms(2)] by simp
next
  case (created b k)
  then show ?thesis using once_inv_main [OF assms(2)] by simp
next
  case (join b k)
  then show ?thesis using once_inv_main [OF assms(2)] by simp
next
  case (join_bad b k)
  then show ?thesis using once_inv_main [OF assms(2)] by simp
next
  case (next_round b k)
  then show ?thesis using once_inv_main [OF assms(2)] by simp
next
  case (key_delete b k)
  then show ?thesis using once_inv_main [OF assms(2)] by simp
qed (auto intro!: once_inv_same [OF assms(2)] simp: move_def once_at_def)

lemma once_inv_reach:
  assumes "once_reach ed f s"
  shows "once_inv s"
  using assms
proof (induction rule: reach_invariant)
  case (start s)
  then show ?case by (simp add: once_start_def once_inv_def once_at_def)
next
  case (step s t)
  then show ?case using once_inv_step main_inv_reach by blast
qed

text \<open>\<open>make_key\<close> is called at most once, and has returned before any thread goes on.\<close>

theorem make_key_once:
  assumes "once_reach ed f s"
  shows "calls s \<le> 1" and "past_once (opc s t) \<Longrightarrow> calls s = 1"
  using once_inv_reach [OF assms] by (auto simp: once_inv_def once_at_def)

section \<open>Every thread has its own buffer\<close>

text \<open>The buffer that a thread has allocated and not given back.\<close>

fun owned :: "once_pc \<Rightarrow> nat option \<Rightarrow> nat option" where
  "owned (O_set a) d = Some a"
| "owned (O_work a k) d = Some a"
| "owned O_exit d = d"
| "owned _ d = None"

abbreviation own :: "once_st \<Rightarrow> nat \<Rightarrow> nat option" where "own s \<equiv> \<lambda>t. owned (opc s t) (tsd s t)"

fun tsd_ok :: "once_pc \<Rightarrow> nat option \<Rightarrow> bool" where
  "tsd_ok (O_work a k) d = (d = Some a)"
| "tsd_ok O_exit d = True"
| "tsd_ok _ d = (d = None)"

abbreviation tsd_at :: "once_st \<Rightarrow> nat \<Rightarrow> bool" where "tsd_at s t \<equiv> tsd_ok (opc s t) (tsd s t)"

definition heap_inv :: "once_st \<Rightarrow> bool" where
  "heap_inv s \<longleftrightarrow> (\<forall>t. tsd_at s t) \<and> (\<forall>a. bufs s a \<noteq> None \<longleftrightarrow> (\<exists>t. own s t = Some a)) \<and>
     (\<forall>t u a. own s t = Some a \<and> own s u = Some a \<longrightarrow> t = u)"

lemma ex_take: "g t = None \<Longrightarrow> (\<exists>u. (g(t := Some a)) u = Some c) \<longleftrightarrow> c = a \<or> (\<exists>u. g u = Some c)"
  by (metis fun_upd_other fun_upd_same option.distinct(1) option.inject)

lemma ex_drop: "g t = Some a \<Longrightarrow> (\<And>u. g u = Some a \<Longrightarrow> u = t) \<Longrightarrow> (\<exists>u. (g(t := None)) u = Some c) \<longleftrightarrow> c \<noteq> a \<and> (\<exists>u. g u = Some c)"
  by (metis fun_upd_other fun_upd_same option.distinct(1) option.inject)

text \<open>A step of thread \<open>t\<close> and what it does to the buffers.\<close>

lemma heap_inv_move:
  assumes "heap_inv s" "\<And>u. u \<noteq> t \<Longrightarrow> opc s' u = opc s u \<and> tsd s' u = tsd s u" "tsd_at s' t"
    and "own s' t = own s t \<and> (\<forall>a. (bufs s' a \<noteq> None) = (bufs s a \<noteq> None)) \<or>
      (\<exists>a. own s t = None \<and> own s' t = Some a \<and> bufs s a = None \<and> (\<exists>d. bufs s' = (bufs s)(a \<mapsto> d))) \<or>
      (\<exists>a. own s t = Some a \<and> own s' t = None \<and> bufs s' = (bufs s)(a := None))"
  shows "heap_inv s'"
proof -
  have o: "u \<noteq> t \<Longrightarrow> own s' u = own s u" "u \<noteq> t \<Longrightarrow> tsd_at s' u = tsd_at s u" for u
    using assms(2) [of u] by simp_all
  have i: "tsd_at s u" "bufs s a \<noteq> None \<longleftrightarrow> (\<exists>t. own s t = Some a)" "own s u = Some a \<Longrightarrow> own s v = Some a \<Longrightarrow> u = v" for u v a
    using assms(1) unfolding heap_inv_def by blast+
  have h: "tsd_at s' u" for u using o(2) [of u] i(1) [of u] assms(3) by (cases "u = t") auto
  from assms(4) show ?thesis
  proof (elim disjE exE conjE)
    assume a: "own s' t = own s t" "\<forall>a. (bufs s' a \<noteq> None) = (bufs s a \<noteq> None)"
    have "own s' u = own s u" for u using o(1) [of u] a(1) by (cases "u = t") auto
    then show ?thesis using h i a(2) by (simp add: heap_inv_def)
  next
    fix a d assume a: "own s t = None" "own s' t = Some a" "bufs s a = None" "bufs s' = (bufs s)(a \<mapsto> d)"
    have w: "own s' u = ((own s)(t := Some a)) u" for u using o(1) [of u] a(2) by simp
    have n: "own s u \<noteq> Some a" for u using i(2) [of a] a(3) by blast
    have e: "(\<exists>u. own s' u = Some c) \<longleftrightarrow> c = a \<or> (\<exists>u. own s u = Some c)" for c
      unfolding w by (rule ex_take) (rule a(1))
    have b: "(bufs s' c \<noteq> None) = (\<exists>u. own s' u = Some c)" for c
      unfolding e a(4) using i(2) [of c] by (cases "c = a") simp_all
    show ?thesis using h b i(3) n unfolding heap_inv_def w by auto
  next
    fix a assume a: "own s t = Some a" "own s' t = None" "bufs s' = (bufs s)(a := None)"
    have w: "own s' u = ((own s)(t := None)) u" for u using o(1) [of u] a(2) by simp
    have e: "(\<exists>u. own s' u = Some c) \<longleftrightarrow> c \<noteq> a \<and> (\<exists>u. own s u = Some c)" for c
      unfolding w by (rule ex_drop) (use a(1) i(3) in blast)+
    have b: "(bufs s' c \<noteq> None) = (\<exists>u. own s' u = Some c)" for c
      unfolding e a(3) using i(2) [of c] by (cases "c = a") simp_all
    show ?thesis using h b i(3) unfolding heap_inv_def w by auto
  qed
qed

lemma heap_inv_main:
  assumes "heap_inv s" "opc s' = opc s" "tsd s' = tsd s" "bufs s' = bufs s"
  shows "heap_inv s'"
  using assms by (simp add: heap_inv_def)

lemma heap_inv_step:
  assumes "once_step ed f s s'" "heap_inv s" "main_inv ed s"
  shows "heap_inv s'"
proof -
  have t: "tsd_at s u" for u using assms(2) by (simp add: heap_inv_def)
  from assms(1) show ?thesis
  proof cases
    case (create b k t)
    show ?thesis
      by (rule heap_inv_move [OF assms(2), of t])
        (use create next_is_new [OF assms(3) create(2)] t [of t] in \<open>auto simp: move_def\<close>)
  next
    case (create_fails b k t)
    then show ?thesis using heap_inv_main [OF assms(2)] by simp
  next
    case (created b k)
    then show ?thesis using heap_inv_main [OF assms(2)] by simp
  next
    case (join b k)
    then show ?thesis using heap_inv_main [OF assms(2)] by simp
  next
    case (join_bad b k)
    then show ?thesis using heap_inv_main [OF assms(2)] by simp
  next
    case (next_round b k)
    then show ?thesis using heap_inv_main [OF assms(2)] by simp
  next
    case (key_delete b k)
    then show ?thesis using heap_inv_main [OF assms(2)] by simp
  next
    case (read_id t)
    show ?thesis by (rule heap_inv_move [OF assms(2), of t]) (use read_id t [of t] in \<open>auto simp: move_def\<close>)
  next
    case (once_first t)
    show ?thesis by (rule heap_inv_move [OF assms(2), of t]) (use once_first t [of t] in \<open>auto simp: move_def\<close>)
  next
    case (make_key t b)
    show ?thesis by (rule heap_inv_move [OF assms(2), of t]) (use make_key t [of t] in \<open>auto simp: move_def\<close>)
  next
    case (once_done t)
    show ?thesis by (rule heap_inv_move [OF assms(2), of t]) (use once_done t [of t] in \<open>auto simp: move_def\<close>)
  next
    case (get_none t)
    show ?thesis by (rule heap_inv_move [OF assms(2), of t]) (use get_none t [of t] in \<open>auto simp: move_def\<close>)
  next
    case (get_some t a)
    then show ?thesis using t [of t] by simp
  next
    case (malloc t a)
    show ?thesis by (rule heap_inv_move [OF assms(2), of t]) (use malloc t [of t] in \<open>auto simp: move_def\<close>)
  next
    case (malloc_fails t)
    show ?thesis by (rule heap_inv_move [OF assms(2), of t]) (use malloc_fails t [of t] in \<open>auto simp: move_def\<close>)
  next
    case (setspecific t a)
    show ?thesis by (rule heap_inv_move [OF assms(2), of t]) (use setspecific t [of t] in \<open>auto simp: move_def\<close>)
  next
    case (setspecific_fails t a)
    show ?thesis by (rule heap_inv_move [OF assms(2), of t]) (use setspecific_fails t [of t] in \<open>auto simp: move_def\<close>)
  next
    case (work t a k d)
    show ?thesis by (rule heap_inv_move [OF assms(2), of t]) (use work t [of t] in \<open>auto simp: move_def\<close>)
  next
    case (work_over t a k)
    show ?thesis by (rule heap_inv_move [OF assms(2), of t]) (use work_over t [of t] in \<open>auto simp: move_def\<close>)
  next
    case (destr_func t a)
    show ?thesis by (rule heap_inv_move [OF assms(2), of t]) (use destr_func t [of t] in \<open>auto simp: move_def\<close>)
  next
    case (exits t)
    show ?thesis by (rule heap_inv_move [OF assms(2), of t]) (use exits t [of t] in \<open>auto simp: move_def\<close>)
  qed
qed

lemma heap_inv_reach:
  assumes "once_reach ed f s"
  shows "heap_inv s"
  using assms
proof (induction rule: reach_invariant)
  case (start s)
  then show ?case by (simp add: once_start_def heap_inv_def)
next
  case (step s t)
  then show ?case using heap_inv_step main_inv_reach by blast
qed

text \<open>
  No two threads work in the same buffer, and what a thread works in is allocated; when \<open>main\<close> is over, after whatever
  failed calls, all buffers have been freed.
\<close>

theorem once_buffers:
  assumes "once_reach ed f s"
  shows "opc s t = O_work a k \<Longrightarrow> opc s u = O_work a j \<Longrightarrow> t = u" and "opc s t = O_work a k \<Longrightarrow> bufs s a \<noteq> None"
    and "omain s = Once_over \<Longrightarrow> bufs s = Map.empty"
proof -
  note h = heap_inv_reach [OF assms]
  show "t = u" if "opc s t = O_work a k" "opc s u = O_work a j"
    using h that unfolding heap_inv_def by (metis owned.simps(2))
  show "bufs s a \<noteq> None" if "opc s t = O_work a k"
    using h that unfolding heap_inv_def by (metis owned.simps(2))
  show "bufs s = Map.empty" if "omain s = Once_over"
  proof -
    have "\<not> alive (opc s t)" for t
      using main_inv_reach [OF assms] that by (simp add: main_inv_def main_at_def)
    then have "own s t = None" for t by (cases "opc s t") (metis alive_def once_pc.distinct owned.simps)+
    then show ?thesis using h by (auto simp: heap_inv_def)
  qed
qed

section \<open>What the threads print\<close>

definition tid_lines :: "nat \<Rightarrow> (nat \<times> once_line) list \<Rightarrow> once_line list" where
  "tid_lines t ls = map snd (filter (\<lambda>l. fst l = t + 1) ls)"

definition outs :: "once_ed \<Rightarrow> once_line list" where
  "outs ed = (if ed = Once3 then [Transactions 1, Transactions 2, Transactions 3, Flushed] else [Says_text ''Hello, World!''])"

definition first_lines :: "once_ed \<Rightarrow> once_line list" where
  "first_lines ed = (if ed = Once3 then [] else [Alloced])"

text \<open>The lines of a thread at each place, and the context it has there.\<close>

fun lines_at :: "once_ed \<Rightarrow> bool \<Rightarrow> nat \<Rightarrow> once_pc \<Rightarrow> nat option \<Rightarrow> (nat \<Rightarrow> tsd_data option) \<Rightarrow> once_line list \<Rightarrow> bool" where
  "lines_at ed f t (O_work a k) d b ls \<longleftrightarrow> k \<le> length (acts ed) \<and> ls = first_lines ed @ take k (outs ed) \<and>
     (ed = Once3 \<longrightarrow> b a = Some (Ctx (t + 1) (if k = 4 then 0 else k)))"
| "lines_at ed f t (O_set a) d b ls \<longleftrightarrow> ls = [] \<and> (ed = Once3 \<longrightarrow> b a = Some (Ctx (t + 1) 0))"
| "lines_at ed f t O_exit d b ls \<longleftrightarrow> (if d = None then f \<and> ls = [] else ls = first_lines ed @ outs ed)"
| "lines_at ed f t O_gone d b ls \<longleftrightarrow> ls = first_lines ed @ outs ed @ [Freed] \<or> f \<and> ls = []"
| "lines_at ed f t _ d b ls \<longleftrightarrow> ls = []"

definition started :: "once_pc \<Rightarrow> bool" where
  "started p \<longleftrightarrow> p \<noteq> O_none \<and> p \<noteq> O_start"

definition line_at :: "once_ed \<Rightarrow> bool \<Rightarrow> once_st \<Rightarrow> nat \<Rightarrow> bool" where
  "line_at ed f s t \<longleftrightarrow> (ed = Once1 \<and> opc s t = O_start \<longrightarrow> ids s (t mod thread_num ed) = t + 1) \<and>
     (started (opc s t) \<longrightarrow> tid s t = t + 1) \<and>
     lines_at ed f t (opc s t) (tsd s t) (bufs s) (tid_lines t (said s))"

definition line_inv :: "once_ed \<Rightarrow> bool \<Rightarrow> once_st \<Rightarrow> bool" where
  "line_inv ed f s \<longleftrightarrow> (\<forall>t. line_at ed f s t) \<and> (f \<or> ctl s \<noteq> C_done \<or> key_ok s)"

lemma tid_lines_append: "tid_lines t (ls @ [(i, l)]) = tid_lines t ls @ (if i = t + 1 then [l] else [])"
  by (simp add: tid_lines_def)

lemma lines_at_cong:
  assumes "\<And>a. owned p d = Some a \<Longrightarrow> b' a = b a"
  shows "lines_at ed f t p d b' ls = lines_at ed f t p d b ls"
  using assms by (cases p) auto

text \<open>A step of thread \<open>t\<close> leaves the lines of another one alone.\<close>

lemma line_other:
  assumes "line_at ed f s u" "u \<noteq> t" "opc s' u = opc s u" "tsd s' u = tsd s u" "tid s' u = tid s u" "ids s' = ids s"
    and "\<And>a. own s u = Some a \<Longrightarrow> bufs s' a = bufs s a"
    and "said s' = said s \<or> (\<exists>l. said s' = said s @ [(t + 1, l)])"
  shows "line_at ed f s' u"
proof -
  have "tid_lines u (said s') = tid_lines u (said s)"
    using assms(2,8) by (auto simp: tid_lines_append)
  then show ?thesis
    using assms(1,3-6) lines_at_cong [OF assms(7)] by (simp add: line_at_def)
qed

lemma line_move:
  assumes "line_inv ed f s" "heap_inv s"
    and "\<And>u. u \<noteq> t \<Longrightarrow> opc s' u = opc s u \<and> tsd s' u = tsd s u \<and> tid s' u = tid s u" "ids s' = ids s"
    and "\<exists>a. (own s t = Some a \<or> bufs s a = None) \<and> (\<forall>c. c \<noteq> a \<longrightarrow> bufs s' c = bufs s c) \<or> bufs s' = bufs s"
    and "said s' = said s \<or> (\<exists>l. said s' = said s @ [(t + 1, l)])"
    and "line_at ed f s t \<Longrightarrow> line_at ed f s' t" "f \<or> ctl s' \<noteq> C_done \<or> key_ok s'"
  shows "line_inv ed f s'"
proof -
  have "line_at ed f s' u" for u
  proof (cases "u = t")
    case True
    then show ?thesis using assms(1,7) by (simp add: line_inv_def)
  next
    case False
    have o: "own s u = Some a \<Longrightarrow> bufs s a \<noteq> None" "own s u = Some a \<Longrightarrow> own s t \<noteq> Some a" for a
      using assms(2) False unfolding heap_inv_def by blast+
    have "bufs s' a = bufs s a" if "own s u = Some a" for a
      using assms(5) o [OF that] by metis
    then show ?thesis
      by (intro line_other [OF _ False, of ed f s s']) (use assms(1,3,4,6) False in \<open>auto simp: line_inv_def\<close>)
  qed
  then show ?thesis using assms(8) by (simp add: line_inv_def)
qed

lemma act_out:
  assumes "k < length (acts ed)" "ed = Once3 \<longrightarrow> d = Ctx (t + 1) (if k = 4 then 0 else k)"
  shows "snd ((acts ed ! k) d) = outs ed ! k" "ed = Once3 \<Longrightarrow> fst ((acts ed ! k) d) = Ctx (t + 1) (if k + 1 = 4 then 0 else k + 1)"
  using assms by (auto simp: acts_def outs_def less_Suc_eq numeral_eq_Suc)

lemma length_outs: "length (outs ed) = length (acts ed)"
  by (simp add: outs_def acts_def)

lemma line_inv_main:
  assumes "line_inv ed f s" "opc s' = opc s" "tsd s' = tsd s" "tid s' = tid s" "ids s' = ids s" "bufs s' = bufs s" "said s' = said s"
    "ctl s' = ctl s" "key_ok s' = key_ok s"
  shows "line_inv ed f s'"
  using assms by (simp add: line_inv_def line_at_def)

text \<open>An entry of \<open>thread_ids\<close> is overwritten only when its thread of the round before has been joined.\<close>

lemma ids_kept:
  assumes "main_inv ed s" "omain s = Create b k" "opc s u = O_start" "k < thread_num ed"
  shows "u mod thread_num ed \<noteq> k"
proof -
  have "main_at (thread_num ed) (omain s) u (opc s u)" using assms(1) by (simp add: main_inv_def)
  then have "b * thread_num ed \<le> u" "u < b * thread_num ed + k" using assms(2,3) by (auto simp: main_at_def alive_def)
  then obtain r where "u = b * thread_num ed + r" "r < k" by (metis le_Suc_ex nat_add_left_cancel_less)
  then show ?thesis using assms(4) by simp
qed

lemma line_inv_create:
  assumes "line_inv ed f s" "main_inv ed s" "omain s = Create b k" "k < thread_num ed" "t = b * thread_num ed + k"
    and "tsd s' = tsd s" "tid s' = tid s" "bufs s' = bufs s" "said s' = said s" "ctl s' = ctl s" "key_ok s' = key_ok s"
    and "ids s' = (ids s)(k := t + 1)" "opc s' = opc s \<or> opc s' = (opc s)(t := O_start)"
  shows "line_inv ed f s'"
proof -
  have "line_at ed f s' u" for u
  proof (cases "u = t")
    case True
    have "opc s t = O_none" using next_is_new [OF assms(2,3)] assms(5) by simp
    moreover have "line_at ed f s t" using assms(1) by (simp add: line_inv_def)
    ultimately show ?thesis using True assms(4-13) by (auto simp: line_at_def started_def)
  next
    case False
    have "line_at ed f s u" using assms(1) by (simp add: line_inv_def)
    moreover have "opc s' u = opc s u" using assms(13) False by auto
    moreover have "opc s u = O_start \<Longrightarrow> ids s' (u mod thread_num ed) = ids s (u mod thread_num ed)"
      using ids_kept [OF assms(2,3) _ assms(4), of u] assms(12) by simp
    ultimately show ?thesis using assms(6-9) by (auto simp: line_at_def)
  qed
  then show ?thesis using assms(1,10,11) by (simp add: line_inv_def)
qed

lemma line_inv_step:
  assumes "once_step ed f s s'" "line_inv ed f s" "heap_inv s" "main_inv ed s" "once_inv s"
  shows "line_inv ed f s'"
proof -
  have k: "f \<or> ctl s \<noteq> C_done \<or> key_ok s" using assms(2) by (simp add: line_inv_def)
  have i: "started (opc s t) \<Longrightarrow> tid s t = t + 1" for t using assms(2) by (simp add: line_inv_def line_at_def)
  have c: "past_once (opc s t) \<Longrightarrow> ctl s = C_done" for t using assms(5) by (simp add: once_inv_def once_at_def)
  have h: "tsd_at s t" for t using assms(3) by (simp add: heap_inv_def)
  note d = move_def line_at_def started_def tid_lines_append first_lines_def
  from assms(1) show ?thesis
  proof cases
    case (create b k t)
    show ?thesis by (rule line_inv_create [OF assms(2,4) create(2-4)]) (use create in \<open>simp_all add: move_def\<close>)
  next
    case (create_fails b k t)
    show ?thesis by (rule line_inv_create [OF assms(2,4) create_fails(3-5)]) (use create_fails in \<open>simp_all add: move_def\<close>)
  next
    case (created b k)
    then show ?thesis using line_inv_main [OF assms(2)] by simp
  next
    case (join b k)
    then show ?thesis using line_inv_main [OF assms(2)] by simp
  next
    case (join_bad b k)
    then show ?thesis using line_inv_main [OF assms(2)] by simp
  next
    case (next_round b k)
    then show ?thesis using line_inv_main [OF assms(2)] by simp
  next
    case (key_delete b k)
    then show ?thesis using line_inv_main [OF assms(2)] by simp
  next
    case (read_id t)
    show ?thesis by (rule line_move [OF assms(2,3), of t]) (use read_id k in \<open>auto simp: d\<close>)
  next
    case (once_first t)
    show ?thesis by (rule line_move [OF assms(2,3), of t]) (use once_first in \<open>auto simp: d\<close>)
  next
    case (make_key t b)
    show ?thesis by (rule line_move [OF assms(2,3), of t]) (use make_key in \<open>auto simp: d\<close>)
  next
    case (once_done t)
    show ?thesis by (rule line_move [OF assms(2,3), of t]) (use once_done k in \<open>auto simp: d\<close>)
  next
    case (get_none t)
    show ?thesis by (rule line_move [OF assms(2,3), of t]) (use get_none k in \<open>auto simp: d\<close>)
  next
    case (get_some t a)
    then show ?thesis using h [of t] by simp
  next
    case (malloc t a)
    show ?thesis by (rule line_move [OF assms(2,3), of t]) (use malloc k i [of t] in \<open>auto simp: d\<close>)
  next
    case (malloc_fails t)
    show ?thesis by (rule line_move [OF assms(2,3), of t]) (use malloc_fails k h [of t] in \<open>auto simp: d\<close>)
  next
    case (setspecific t a)
    show ?thesis by (rule line_move [OF assms(2,3), of t]) (use setspecific k i [of t] in \<open>auto simp: d\<close>)
  next
    case (setspecific_fails t a)
    have "f" using setspecific_fails k c [of t] by auto
    then show ?thesis
      by (intro line_move [OF assms(2,3), of t]) (use setspecific_fails k h [of t] in \<open>auto simp: d\<close>)
  next
    case (work t a j x)
    have l: "lines_at ed f t (O_work a j) (tsd s t) (bufs s) (tid_lines t (said s))"
    proof -
      have "line_at ed f s t" using assms(2) by (simp only: line_inv_def)
      then have "lines_at ed f t (opc s t) (tsd s t) (bufs s) (tid_lines t (said s))" by (simp only: line_at_def)
      then show ?thesis by (simp only: work(2))
    qed
    then have x: "ed = Once3 \<longrightarrow> x = Ctx (t + 1) (if j = 4 then 0 else j)" using work(4) by simp
    have t: "tid s t = t + 1" using i [of t] work(2) by (simp add: started_def)
    show ?thesis
      by (rule line_move [OF assms(2,3), of t])
        (use work k t act_out [OF work(3) x] length_outs [of ed] l in
          \<open>auto simp: move_def line_at_def started_def tid_lines_append take_Suc_conv_app_nth\<close>)
  next
    case (work_over t a j)
    show ?thesis
      by (rule line_move [OF assms(2,3), of t]) (use work_over k h [of t] length_outs [of ed] in \<open>auto simp: d\<close>)
  next
    case (destr_func t a)
    show ?thesis by (rule line_move [OF assms(2,3), of t]) (use destr_func k i [of t] in \<open>auto simp: d\<close>)
  next
    case (exits t)
    show ?thesis by (rule line_move [OF assms(2,3), of t]) (use exits k in \<open>auto simp: d\<close>)
  qed
qed

lemma line_inv_reach:
  assumes "once_reach ed f s"
  shows "line_inv ed f s"
  using assms
proof (induction rule: reach_invariant)
  case (start s)
  then show ?case by (simp add: once_start_def line_inv_def line_at_def started_def tid_lines_def)
next
  case (step s t)
  then show ?case using line_inv_step heap_inv_reach main_inv_reach once_inv_reach by blast
qed

text \<open>The threads that \<open>main\<close> has joined have ended.\<close>

definition all_joined :: "once_ed \<Rightarrow> once_main \<Rightarrow> nat \<Rightarrow> bool" where
  "all_joined ed m t \<longleftrightarrow> (case m of
      Create b k \<Rightarrow> t < b * thread_num ed
    | Join b k \<Rightarrow> k \<le> thread_num ed \<and> t < b * thread_num ed + k
    | Once_over \<Rightarrow> t < batches ed * thread_num ed
    | Once_crash \<Rightarrow> False)"

definition join_inv :: "once_ed \<Rightarrow> once_st \<Rightarrow> bool" where
  "join_inv ed s \<longleftrightarrow> (\<forall>t. all_joined ed (omain s) t \<longrightarrow> opc s t = O_gone)"

lemma gone_stays:
  assumes "once_step ed f s s'" "main_inv ed s" "opc s t = O_gone"
  shows "opc s' t = O_gone"
  using assms(1)
proof cases
  case (create b k u)
  then have "u \<noteq> t" using next_is_new [OF assms(2) create(2)] assms(3) by auto
  then show ?thesis using create assms(3) by (simp add: move_def)
qed (use assms(3) in \<open>auto simp: move_def\<close>)

lemma join_inv_step:
  assumes "once_step ed f s s'" "main_inv ed s" "join_inv ed s"
  shows "join_inv ed s'"
proof -
  have g: "opc s' t = O_gone" if "all_joined ed (omain s) t" for t
    using gone_stays [OF assms(1,2)] assms(3) that by (simp add: join_inv_def)
  have "all_joined ed (omain s) t" if "all_joined ed (omain s') t" "opc s' t \<noteq> O_gone" for t
    using assms(1)
  proof cases
    case (join b k)
    then have "t \<noteq> b * thread_num ed + k" using that(2) by auto
    then show ?thesis using join that(1) by (simp add: all_joined_def)
  next
    case (next_round b k)
    have "main_at (thread_num ed) (omain s) t (opc s t)" using assms(2) by (simp add: main_inv_def)
    then show ?thesis using next_round that(1) by (auto simp: all_joined_def main_at_def)
  next
    case (key_delete b k)
    have "main_at (thread_num ed) (omain s) t (opc s t)" using assms(2) by (simp add: main_inv_def)
    then have "k = thread_num ed" using key_delete by (simp add: main_at_def)
    moreover have "batches ed * thread_num ed \<le> b * thread_num ed + thread_num ed"
      using key_delete(4) mult_le_mono1 [of "batches ed" "b + 1" "thread_num ed"] by simp
    ultimately show ?thesis using key_delete that(1) by (simp add: all_joined_def)
  qed (use that(1) in \<open>simp_all add: all_joined_def move_def\<close>)
  then show ?thesis using g by (auto simp: join_inv_def)
qed

lemma join_inv_reach:
  assumes "once_reach ed f s"
  shows "join_inv ed s"
  using assms
proof (induction rule: reach_invariant)
  case (start s)
  then show ?case by (simp add: once_start_def join_inv_def all_joined_def)
next
  case (step s t)
  then show ?case using join_inv_step main_inv_reach by blast
qed

text \<open>
  When \<open>main\<close> is over every thread has printed its lines with its own number, in the order of the program, whatever the
  order of the threads, or, after a failed call, nothing; the first edition, which passes an address, as well as the others.
\<close>

theorem once_lines:
  assumes "once_reach ed f s" "omain s = Once_over" "t < batches ed * thread_num ed"
  shows "tid_lines t (said s) = first_lines ed @ outs ed @ [Freed] \<or> f \<and> tid_lines t (said s) = []"
proof -
  have "opc s t = O_gone" using join_inv_reach [OF assms(1)] assms(2,3) by (simp add: join_inv_def all_joined_def)
  moreover have "line_at ed f s t" using line_inv_reach [OF assms(1)] by (simp add: line_inv_def)
  ultimately show ?thesis by (simp add: line_at_def)
qed

section \<open>No deadlock\<close>

lemma heap_inv_owner:
  assumes "heap_inv s" "bufs s a \<noteq> None"
  obtains t where "own s t = Some a"
proof -
  have "\<forall>a. bufs s a \<noteq> None \<longleftrightarrow> (\<exists>t. own s t = Some a)" using assms(1) unfolding heap_inv_def by (elim conjE)
  then have "bufs s a \<noteq> None \<longleftrightarrow> (\<exists>t. own s t = Some a)" by (rule spec)
  then have "\<exists>t. own s t = Some a" using assms(2) by (rule iffD1)
  then show thesis using that by (elim exE)
qed

lemma free_address:
  assumes "once_reach ed f s" "omain s \<noteq> Once_crash"
  shows "\<exists>a. bufs s a = None"
proof -
  have m: "main_at (thread_num ed) (omain s) t (opc s t)" for t
    using main_inv_reach [OF assms(1)] by (simp add: main_inv_def)
  have "\<exists>n. \<forall>t. alive (opc s t) \<longrightarrow> t < n"
  proof (cases "omain s")
    case (Create b k)
    then have "alive (opc s t) \<Longrightarrow> t < b * thread_num ed + k" for t using m [of t] by (auto simp: main_at_def alive_def)
    then show ?thesis by blast
  next
    case (Join b k)
    then have "alive (opc s t) \<Longrightarrow> t < b * thread_num ed + thread_num ed" for t
      using m [of t] by (auto simp: main_at_def alive_def)
    then show ?thesis by blast
  next
    case Once_over
    then have "\<not> alive (opc s t)" for t using m [of t] by (simp add: main_at_def)
    then show ?thesis by blast
  qed (use assms(2) in simp)
  then obtain n where n: "alive (opc s t) \<Longrightarrow> t < n" for t by blast
  have "a \<in> (\<lambda>t. the (own s t)) ` {..<n}" if b: "bufs s a \<noteq> None" for a
  proof -
    obtain t where t: "own s t = Some a" by (rule heap_inv_owner [OF heap_inv_reach [OF assms(1)], of a]) (use b in auto)
    then have "alive (opc s t)" by (cases "opc s t") (auto simp: alive_def)
    then show ?thesis using n [of t] t by (force intro: image_eqI [of _ _ t])
  qed
  then have "{a. bufs s a \<noteq> None} \<subseteq> (\<lambda>t. the (own s t)) ` {..<n}" by blast
  then have "finite {a. bufs s a \<noteq> None}" by (rule finite_subset) simp
  with infinite_UNIV_nat have "\<exists>a. a \<notin> {a. bufs s a \<noteq> None}" by (rule ex_new_if_finite)
  then show ?thesis by simp
qed

lemma thread_steps:
  assumes "once_reach ed f s" "omain s \<noteq> Once_crash" "alive (opc s t)"
  shows "\<exists>s'. once_step ed f s s'"
proof (cases "opc s t")
  case O_start
  then show ?thesis by (blast intro: once_step.read_id)
next
  case O_call
  have m: "opc s u = O_make" if "ctl s = C_by u" for u
    using once_inv_reach [OF assms(1)] that by (simp add: once_inv_def once_at_def)
  show ?thesis
  proof (cases "ctl s")
    case (C_by u)
    then show ?thesis using once_step.make_key [OF m, of u True] by blast
  qed (use O_call once_step.once_first once_step.once_done in blast)+
next
  case O_make
  then show ?thesis using once_step.make_key [of s t True] by blast
next
  case O_get
  have "tsd s t = None" using heap_inv_reach [OF assms(1)] O_get unfolding heap_inv_def by (metis tsd_ok.simps(7))
  then show ?thesis using O_get by (blast intro: once_step.get_none)
next
  case O_malloc
  then show ?thesis using free_address [OF assms(1,2)] by (blast intro: once_step.malloc)
next
  case (O_set a)
  then show ?thesis using once_step.setspecific once_step.setspecific_fails by blast
next
  case (O_work a k)
  then show ?thesis using once_buffers(2) [OF assms(1)] once_step.work once_step.work_over by (metis option.exhaust)
next
  case O_exit
  then show ?thesis using once_step.destr_func once_step.exits by (metis option.exhaust)
qed (use assms(3) in \<open>auto simp: alive_def\<close>)

text \<open>Some thread or \<open>main\<close> can go on until \<open>main\<close> is over, or joins a thread that was not created.\<close>

theorem once_progress:
  assumes "once_reach ed f s" "omain s \<noteq> Once_over" "omain s \<noteq> Once_crash"
  shows "\<exists>s'. once_step ed f s s'"
proof (cases "omain s")
  case (Create b k)
  then show ?thesis using once_step.create [of s b k ed] once_step.created [of s b k ed] by blast
next
  case (Join b k)
  show ?thesis
  proof (cases "k < thread_num ed")
    case True
    show ?thesis
    proof (cases "alive (opc s (b * thread_num ed + k))")
      case True
      then show ?thesis using thread_steps [OF assms(1,3)] by blast
    next
      case False
      then show ?thesis using Join True once_step.join [of s b k ed] once_step.join_bad [of s b k ed]
        by (auto simp: alive_def)
    qed
  next
    case False
    then show ?thesis using Join once_step.next_round [of s b k ed] once_step.key_delete [of s b k ed] by blast
  qed
qed (use assms(2,3) in simp_all)

end
