(* ===== verification/Thread_Opts.thy ===== *)
theory Thread_Opts
  imports Getopt
begin

text \<open>
  LAB_13/task_thread_opts: a thread for each word of the command line returns a copy of it in capital letters. The stack
  size is an option. The threads share nothing, so that what they return does not depend on their order.
\<close>

section \<open>A thread\<close>

definition toupper :: "char \<Rightarrow> char" where
  "toupper c = (if 97 \<le> (of_char c :: nat) \<and> (of_char c :: nat) \<le> 122
     then char_of ((of_char c :: nat) - 32) else c)"

text \<open>The loop over the copy; \<open>strdup\<close> gives an object with the string and its zero byte.\<close>

function upper_loop :: "nat \<Rightarrow> bytes \<Rightarrow> bytes run" where
  "upper_loop p b =
     (if length b \<le> p then Fault OutOfBounds
      else if b ! p = NUL then Done b
      else upper_loop (p + 1) (b[p := toupper (b ! p)]))"
  by pat_completeness auto
termination by (relation "measure (\<lambda>(p, b). length b - p)") auto

declare upper_loop.simps [simp del]

definition thread_start :: "bool \<Rightarrow> string \<Rightarrow> bytes option run" where
  "thread_start strdup_ok s =
     (if strdup_ok then bind_run (upper_loop 0 (s @ [NUL])) (\<lambda>b. Done (Some b)) else Done None)"

section \<open>The command line\<close>

text \<open>\<open>strtoul(s, NULL, 0)\<close> on 64 bits: the prefix decides on the base.\<close>

definition hex_val :: "char \<Rightarrow> nat" where
  "hex_val c = (let n = of_char c :: nat in
     if 48 \<le> n \<and> n \<le> 57 then n - 48 else if 97 \<le> n \<and> n \<le> 102 then n - 87
     else if 65 \<le> n \<and> n \<le> 70 then n - 55 else 16)"

definition strtoul0 :: "string \<Rightarrow> nat" where
  "strtoul0 s =
     (let s1 = dropWhile isspace s;
          neg = (s1 \<noteq> [] \<and> hd s1 = CHR ''-'');
          s2 = (if s1 \<noteq> [] \<and> hd s1 \<in> set ''+-'' then tl s1 else s1);
          hex = (2 < length s2 \<and> s2 ! 0 = CHR ''0'' \<and> s2 ! 1 \<in> set ''xX'' \<and> hex_val (s2 ! 2) < 16);
          base = (if hex then 16 else if s2 \<noteq> [] \<and> hd s2 = CHR ''0'' then 8 else 10);
          n = foldl (\<lambda>n c. n * base + hex_val c) 0 (takeWhile (\<lambda>c. hex_val c < base) (if hex then drop 2 s2 else s2))
      in if 2 ^ 64 \<le> n then 2 ^ 64 - 1 else if neg then (2 ^ 64 - n) mod 2 ^ 64 else n)"

definition PTHREAD_STACK_MIN :: nat where "PTHREAD_STACK_MIN = 16384"

text \<open>The loop over the options: the size, or \<open>None\<close> for \<open>goto err\<close>. The comparison reads the size as a \<open>long\<close>.\<close>

fun stack_option :: "nat \<Rightarrow> opt_call list \<Rightarrow> nat option" where
  "stack_option stack [] = Some stack"
| "stack_option stack (Opt_arg c s # es) =
     (if strtoul0 s < PTHREAD_STACK_MIN \<or> 2 ^ 63 \<le> strtoul0 s then None else stack_option (strtoul0 s) es)"
| "stack_option stack (e # es) = None"

text \<open>The words that \<open>getopt\<close> has moved behind the options: \<open>argv[optind]\<close> and what follows.\<close>

function operands :: "string \<Rightarrow> string \<Rightarrow> string list \<Rightarrow> string list" where
  "operands with_arg flags [] = []"
| "operands with_arg flags (w # ws) =
     (if w = ''--'' then ws
      else if 1 < length w \<and> hd w = CHR ''-''
      then operands with_arg flags (snd (opt_word with_arg flags (tl w) ws))
      else w # operands with_arg flags ws)"
  by pat_completeness auto
termination
  by (relation "measure (\<lambda>(a, f, ws). length ws)") (auto simp: le_imp_less_Suc opt_word_length)

record opts_env =
  attr_ok :: bool
  setstack_ok :: bool
  calloc_ok :: bool
  create_ok :: "nat \<Rightarrow> bool"
  dup_ok :: "nat \<Rightarrow> bool"

text \<open>
  The loops of \<open>pthread_create\<close> and \<open>pthread_join\<close>. The identifier of a thread that was not created is zero, and to join
  it is undefined.
\<close>

fun join_all :: "opts_env \<Rightarrow> nat \<Rightarrow> string list \<Rightarrow> (nat \<times> bytes option) list run" where
  "join_all env i [] = Done []"
| "join_all env i (s # ss) =
     (if \<not> create_ok env i then Fault NullDeref
      else bind_run (thread_start (dup_ok env i) s) (\<lambda>r. bind_run (join_all env (i + 1) ss) (\<lambda>rs. Done ((i, r) # rs))))"

definition thread_opts_main :: "opts_env \<Rightarrow> string list \<Rightarrow> (nat \<times> bytes option) list run" where
  "thread_opts_main env args =
     (if \<not> attr_ok env then Done []
      else case stack_option 0 (getopt ''s'' '''' args) of
        None \<Rightarrow> Done []
      | Some stack \<Rightarrow>
          if 0 < stack \<and> \<not> setstack_ok env \<or> \<not> calloc_ok env then Done []
          else join_all env 0 (operands ''s'' '''' args))"

section \<open>What it returns\<close>

lemma toupper_NUL: "c \<noteq> NUL \<Longrightarrow> toupper c \<noteq> NUL"
proof -
  assume c: "c \<noteq> NUL"
  have "toupper c \<noteq> NUL" if a: "97 \<le> (of_char c :: nat)" "(of_char c :: nat) \<le> 122"
  proof
    assume "toupper c = NUL"
    then have "(of_char (char_of ((of_char c :: nat) - 32)) :: nat) = of_char NUL" using a by (simp add: toupper_def)
    then show False using a by simp
  qed
  then show ?thesis using c by (auto simp: toupper_def)
qed

lemma upper_loop_map:
  assumes "NUL \<notin> set s"
  shows "upper_loop (length p) (p @ s @ [NUL]) = Done (p @ map toupper s @ [NUL])"
  using assms
proof (induction s arbitrary: p)
  case Nil
  then show ?case by (simp add: upper_loop.simps)
next
  case (Cons c s)
  have "upper_loop (length p) (p @ (c # s) @ [NUL]) = upper_loop (length (p @ [toupper c])) ((p @ [toupper c]) @ s @ [NUL])"
    using Cons.prems by (subst upper_loop.simps) (auto simp: list_update_append)
  also have "\<dots> = Done ((p @ [toupper c]) @ map toupper s @ [NUL])"
    using Cons.prems by (intro Cons.IH) simp
  finally show ?case by simp
qed

lemma thread_start_upper:
  "NUL \<notin> set s \<Longrightarrow> thread_start b s = Done (if b then Some (map toupper s @ [NUL]) else None)"
  using upper_loop_map [of s "[]"] by (simp add: thread_start_def run_simps)

lemma join_all_upper:
  assumes "\<forall>s \<in> set ss. NUL \<notin> set s" "\<forall>i. create_ok env i"
  shows "join_all env k ss =
    Done (map (\<lambda>i. (k + i, if dup_ok env (k + i) then Some (map toupper (ss ! i) @ [NUL]) else None)) [0..<length ss])"
  using assms(1)
proof (induction ss arbitrary: k)
  case (Cons s ss)
  have "[0..<length (s # ss)] = 0 # map Suc [0..<length ss]" by (simp only: length_Cons upt_conv_Cons zero_less_Suc map_Suc_upt)
  then show ?case using Cons assms(2) by (simp add: thread_start_upper run_simps comp_def del: upt_Suc)
qed simp

text \<open>The options may stand anywhere; the operands keep their order.\<close>

definition operand :: "string \<Rightarrow> bool" where
  "operand w \<longleftrightarrow> length w \<le> 1 \<or> hd w \<noteq> CHR ''-''"

lemma operands_plain:
  assumes "list_all operand ws"
  shows "operands a f ws = ws \<and> getopt a f ws = []"
  using assms by (induction ws) (auto simp: operand_def getopt.simps)

lemma operands_append:
  assumes "list_all operand us" "c \<in> set a" "c \<noteq> CHR ''-''"
  shows "operands a f (us @ [CHR ''-'', c] # v # ws) = us @ operands a f ws \<and>
    getopt a f (us @ [CHR ''-'', c] # v # ws) = Opt_arg c v # getopt a f ws"
  using assms by (induction us) (auto simp: operand_def getopt.simps)

text \<open>
  With \<open>-s\<close> anywhere among the words, and no failing call, the threads return the other words, in order and in capital
  letters; a stack that is too small, or negative, ends the program before.
\<close>

theorem thread_opts_upper:
  assumes "list_all operand us" "list_all operand ws" "\<forall>w \<in> set (us @ ws). NUL \<notin> set w"
    and "attr_ok env" "setstack_ok env" "calloc_ok env" "\<forall>i. create_ok env i" "\<forall>i. dup_ok env i"
  shows "thread_opts_main env (us @ ''-s'' # v # ws) =
    Done (if PTHREAD_STACK_MIN \<le> strtoul0 v \<and> strtoul0 v < 2 ^ 63
      then map (\<lambda>i. (i, Some (map toupper ((us @ ws) ! i) @ [NUL]))) [0..<length (us @ ws)] else [])"
proof -
  have "operands ''s'' '''' (us @ ''-s'' # v # ws) = us @ ws" "getopt ''s'' '''' (us @ ''-s'' # v # ws) = [Opt_arg CHR ''s'' v]"
    using operands_append [OF assms(1), of "CHR ''s''" "''s''" "''''" v ws] operands_plain [OF assms(2), of "''s''" "''''"] by simp_all
  moreover have "join_all env 0 (us @ ws) = Done (map (\<lambda>i. (i, Some (map toupper ((us @ ws) ! i) @ [NUL]))) [0..<length (us @ ws)])"
    using join_all_upper [OF assms(3,7), of 0] assms(8) by simp
  ultimately show ?thesis using assms(4-6) by (auto simp: thread_opts_main_def not_less)
qed

theorem thread_opts_upper_witness:
  "thread_opts_main \<lparr>attr_ok = True, setstack_ok = True, calloc_ok = True, create_ok = \<lambda>i. True, dup_ok = \<lambda>i. True\<rparr>
     [''salut'', ''-s'', ''0x8000'', ''Bye''] = Done [(0, Some (''SALUT'' @ [NUL])), (1, Some (''BYE'' @ [NUL]))]"
proof -
  have s: "strtoul0 ''0x8000'' = 32768" by (simp add: strtoul0_def isspace_def hex_val_def Let_def)
  have t: "map toupper ''salut'' = ''SALUT''" "map toupper ''Bye'' = ''BYE''" by code_simp+
  show ?thesis
    using thread_opts_upper [of "[''salut'']" "[''Bye'']" "\<lparr>attr_ok = True, setstack_ok = True, calloc_ok = True,
        create_ok = \<lambda>i. True, dup_ok = \<lambda>i. True\<rparr>" "''0x8000''"] s t
    by (simp add: operand_def PTHREAD_STACK_MIN_def)
qed

text \<open>A thread that cannot be created is joined all the same.\<close>

theorem thread_opts_create_fails:
  assumes "\<not> create_ok env 0" "list_all operand (w # ws)" "attr_ok env" "calloc_ok env"
  shows "thread_opts_main env (w # ws) = Fault NullDeref"
  using assms operands_plain [OF assms(2), of "''s''" "''''"] by (simp add: thread_opts_main_def)

end
