(* ===== verification/Hack_Pass.thy ===== *)
theory Hack_Pass
  imports Lab_Prelude
begin

text \<open>
  LAB_5/task_hack: a password read with \<open>gets\<close> into twelve bytes. What a longer line does to the stack is undefined; the
  model says for which lines that happens, and what the program answers to the others.
\<close>

text \<open>The line without its newline and the rest of \<open>stdin\<close>; at the end of file, with nothing read, the buffer stays.\<close>

definition gets :: "bytes \<Rightarrow> bytes \<Rightarrow> bytes run" where
  "gets inp buf =
     (if inp = [] then Done buf else blit 0 (takeWhile (\<lambda>c. c \<noteq> NL) inp @ [NUL]) buf)"

definition is_pass_ok :: "bytes \<Rightarrow> bool run" where
  "is_pass_ok inp = bind_run (gets inp (zeros 12)) (\<lambda>pass. Done (cstr pass = ''test''))"

definition hack_main :: "bytes \<Rightarrow> (string \<times> int) run" where
  "hack_main inp = bind_run (is_pass_ok inp) (\<lambda>ok. Done (if \<not> ok then (''Bad password!'', -1) else (''Access granted!'', 0)))"

text \<open>
  Every line is judged by what comes before its first zero byte when it has at most eleven bytes; a longer one, and only such a
  one, is written past the end of the buffer.
\<close>

theorem hack_pass:
  defines "line \<equiv> \<lambda>inp. takeWhile (\<lambda>c. c \<noteq> NL) inp"
  shows "hack_main inp =
    (if 11 < length (line inp) then Fault OutOfBounds
     else if cstr (line inp) = ''test'' then Done (''Access granted!'', 0) else Done (''Bad password!'', -1))"
proof (cases "inp = []")
  case True
  then show ?thesis by (simp add: hack_main_def is_pass_ok_def gets_def line_def zeros_def cstr_def run_simps eval_nat_numeral)
next
  case False
  have c: "cstr (l @ NUL # r) = cstr l" for l r by (induction l) (simp_all add: cstr_def)
  show ?thesis
    using False by (auto simp: hack_main_def is_pass_ok_def gets_def blit_def zeros_def line_def run_simps c)
qed

end
