(* ===== verification/Midnight.thy ===== *)
theory Midnight
  imports Lab_Prelude
begin

text \<open>
  LAB_11/task_mc_all_In_one (and task_mc, the same program in several files): a file manager with two panels. The
  state behind the windows is modelled: which panel is active, the row of the cursor and the offset of the list, which are
  shared by the panels, and what the windows show. \<open>LINES\<close> is the height of the terminal; directories and files are parameters,
  which may be different at each turn.
\<close>

section \<open>The program\<close>

datatype panel = P_left | P_right

datatype mc_key = K_up | K_down | K_left | K_right | K_enter | K_eof | K_other

text \<open>\<open>scandir\<close> in alphabetical order, \<open>stat\<close> (is it a directory, and its size), \<open>chdir\<close> with \<open>getcwd\<close>; \<open>None\<close> when they fail.\<close>

record mc_fs =
  scandir :: "string \<Rightarrow> string list option"
  stat_file :: "string \<Rightarrow> (bool \<times> int) option"
  chdir_getcwd :: "string \<Rightarrow> string option"

text \<open>A row of a window: where, the name, is it a directory, and the size, or \<open>UP--DIR\<close>.\<close>

type_synonym mc_row = "nat \<times> string \<times> bool \<times> int option"

record mc =
  side :: panel
  c_y :: nat
  offset :: nat
  path_way :: "panel \<Rightarrow> string"
  name_list :: "panel \<Rightarrow> string list"
  wnd_rows :: "panel \<Rightarrow> mc_row list"
  menu_line :: "panel \<Rightarrow> (string \<times> bool \<times> nat \<times> nat) option"

definition file_path :: "string \<Rightarrow> string \<Rightarrow> string" where
  "file_path path name = path @ ''/'' @ name"

text \<open>The loop of \<open>display_wnd\<close>: an entry whose \<open>stat\<close> fails does not get a row.\<close>

fun mc_rows :: "mc_fs \<Rightarrow> nat \<Rightarrow> string \<Rightarrow> nat \<Rightarrow> string list \<Rightarrow> mc_row list" where
  "mc_rows fs LINES path y [] = []"
| "mc_rows fs LINES path y (d # ds) =
     (if LINES - 5 \<le> y then []
      else case stat_file fs (file_path path d) of
        None \<Rightarrow> mc_rows fs LINES path y ds
      | Some (dir, sz) \<Rightarrow>
          (y, d, dir, if d = ''..'' then None else Some sz) # mc_rows fs LINES path (y + 1) ds)"

definition display_wnd :: "mc_fs \<Rightarrow> nat \<Rightarrow> panel \<Rightarrow> nat \<Rightarrow> mc \<Rightarrow> mc" where
  "display_wnd fs LINES p off m =
     m\<lparr>wnd_rows := (wnd_rows m)(p := mc_rows fs LINES (path_way m p) 2 (drop off (name_list m p)))\<rparr>"

text \<open>\<open>display_line\<close> prints the entry \<open>c_y - 2\<close>, and the index with the offset behind it.\<close>

definition display_line :: "mc_fs \<Rightarrow> panel \<Rightarrow> nat \<Rightarrow> mc \<Rightarrow> mc run" where
  "display_line fs p off m =
     (if length (name_list m p) \<le> c_y m - 2 then Fault OutOfBounds
      else let d = name_list m p ! (c_y m - 2) in
        case stat_file fs (file_path (path_way m p) d) of
          None \<Rightarrow> Done m
        | Some (dir, sz) \<Rightarrow> Done (m\<lparr>menu_line := (menu_line m)(p \<mapsto> (d, dir, c_y m, c_y m - 2 + off))\<rparr>))"

text \<open>
  The key \<open>ENTER\<close>. The flag says that the program ends. When \<open>scandir\<close> fails it leaves -1 for the number of names, and
  \<open>deinit_mc\<close> counts down from there through a null pointer.
\<close>

definition mc_enter :: "mc_fs \<Rightarrow> nat \<Rightarrow> mc \<Rightarrow> (mc \<times> bool) run" where
  "mc_enter fs LINES m =
     (let p = side m; idx = c_y m - 2 + offset m in
      if length (name_list m p) \<le> idx then Fault OutOfBounds
      else let str = file_path (path_way m p) (name_list m p ! idx) in
        case stat_file fs str of
          Some (True, sz) \<Rightarrow>
            (case chdir_getcwd fs str of
               None \<Rightarrow> Done (m, True)
             | Some path \<Rightarrow>
                 (case scandir fs path of
                    None \<Rightarrow> Fault NullDeref
                  | Some names \<Rightarrow>
                      Done ((display_wnd fs LINES p 0
                        (m\<lparr>path_way := (path_way m)(p := path), name_list := (name_list m)(p := names), offset := 0\<rparr>))\<lparr>c_y := 2\<rparr>, False)))
        | _ \<Rightarrow> Done (m, False))"

definition mc_key_step :: "mc_fs \<Rightarrow> nat \<Rightarrow> mc_key \<Rightarrow> mc \<Rightarrow> (mc \<times> bool) run" where
  "mc_key_step fs LINES k m =
     (let idx = c_y m - 2 + offset m; n = length (name_list m (side m)) in
      case k of
        K_eof \<Rightarrow> Done (m, True)
      | K_up \<Rightarrow>
          if 2 < c_y m then Done (m\<lparr>c_y := c_y m - 1\<rparr>, False)
          else if offset m \<noteq> 0
          then Done (display_wnd fs LINES (side m) (offset m - 1) (m\<lparr>offset := offset m - 1\<rparr>), False)
          else Done (m, False)
      | K_down \<Rightarrow>
          if idx + 1 < n \<and> c_y m + 1 < LINES - 5 then Done (m\<lparr>c_y := c_y m + 1\<rparr>, False)
          else if idx + 1 < n
          then Done (display_wnd fs LINES (side m) (offset m + 1) (m\<lparr>offset := offset m + 1\<rparr>), False)
          else Done (m, False)
      | K_right \<Rightarrow> Done (m\<lparr>side := P_right\<rparr>, False)
      | K_left \<Rightarrow> Done (m\<lparr>side := P_left\<rparr>, False)
      | K_enter \<Rightarrow> mc_enter fs LINES m
      | K_other \<Rightarrow> Done (m, False))"

text \<open>One turn of the loop.\<close>

definition mc_turn :: "mc_fs \<Rightarrow> nat \<Rightarrow> mc_key \<Rightarrow> mc \<Rightarrow> (mc \<times> bool) run" where
  "mc_turn fs LINES k m = bind_run (display_line fs (side m) (offset m) m) (mc_key_step fs LINES k)"

fun mc_loop :: "nat \<Rightarrow> (mc_fs \<times> mc_key) list \<Rightarrow> mc \<Rightarrow> (mc \<times> bool) run" where
  "mc_loop LINES [] m = Done (m, False)"
| "mc_loop LINES ((fs, k) # ks) m =
     bind_run (mc_turn fs LINES k m) (\<lambda>(m1, over). if over then Done (m1, True) else mc_loop LINES ks m1)"

text \<open>\<open>init_mc\<close> and what comes before the loop; \<open>cwd\<close> is the directory it is started in.\<close>

definition start_mc :: "mc_fs \<Rightarrow> nat \<Rightarrow> string \<Rightarrow> mc run" where
  "start_mc fs LINES cwd =
     (case scandir fs cwd of
        None \<Rightarrow> Fault NullDeref
      | Some names \<Rightarrow>
          let m = \<lparr>side = P_left, c_y = 2, offset = 0, path_way = (\<lambda>p. cwd), name_list = (\<lambda>p. names),
                wnd_rows = (\<lambda>p. []), menu_line = (\<lambda>p. None)\<rparr> in
          bind_run (display_line fs P_left 0 (display_wnd fs LINES P_right 0 (display_wnd fs LINES P_left 0 m)))
            (display_line fs P_right 0))"

section \<open>One panel\<close>

text \<open>The cursor is on an entry of the list and on a row of the window.\<close>

definition mc_ok :: "nat \<Rightarrow> mc \<Rightarrow> bool" where
  "mc_ok LINES m \<longleftrightarrow> 2 \<le> c_y m \<and> (c_y m = 2 \<or> c_y m < LINES - 5) \<and> c_y m - 2 + offset m < length (name_list m (side m))"

definition fs_ok :: "mc_fs \<Rightarrow> bool" where
  "fs_ok fs \<longleftrightarrow> (\<forall>path. \<exists>d ds. scandir fs path = Some (d # ds))"

lemma display_wnd_same [simp]:
  "side (display_wnd fs L p off m) = side m" "c_y (display_wnd fs L p off m) = c_y m" "offset (display_wnd fs L p off m) = offset m"
  "path_way (display_wnd fs L p off m) = path_way m" "name_list (display_wnd fs L p off m) = name_list m"
  by (simp_all add: display_wnd_def)

lemma display_line_ok:
  assumes "c_y m - 2 < length (name_list m p)"
  shows "\<exists>m'. display_line fs p off m = Done m' \<and> side m' = side m \<and> c_y m' = c_y m \<and> offset m' = offset m \<and>
    path_way m' = path_way m \<and> name_list m' = name_list m \<and> wnd_rows m' = wnd_rows m"
  using assms by (cases "stat_file fs (file_path (path_way m p) (name_list m p ! (c_y m - 2)))")
    (auto simp: display_line_def Let_def)

lemma mc_enter_ok:
  assumes "mc_ok L m" "fs_ok fs"
  shows "\<exists>m' over. mc_enter fs L m = Done (m', over) \<and> side m' = side m \<and> mc_ok L m'"
proof -
  let ?str = "file_path (path_way m (side m)) (name_list m (side m) ! (c_y m - 2 + offset m))"
  have i: "c_y m - 2 + offset m < length (name_list m (side m))" using assms(1) unfolding mc_ok_def by blast
  show ?thesis
  proof (cases "stat_file fs ?str")
    case None
    then show ?thesis using i assms(1) by (intro exI [of _ m] exI [of _ False]) (simp add: mc_enter_def Let_def)
  next
    case (Some x)
    obtain dir sz where x: "x = (dir, sz)" by (cases x)
    show ?thesis
    proof (cases "dir \<and> chdir_getcwd fs ?str \<noteq> None")
      case True
      then obtain path where p: "chdir_getcwd fs ?str = Some path" by auto
      obtain d ds where "scandir fs path = Some (d # ds)" using assms(2) unfolding fs_ok_def by blast
      then show ?thesis using i Some x True p by (auto simp: mc_enter_def Let_def mc_ok_def)
    next
      case False
      then show ?thesis using i Some x assms(1) by (cases dir) (auto simp: mc_enter_def Let_def)
    qed
  qed
qed

lemma mc_key_step_ok:
  assumes "mc_ok L m" "fs_ok fs" "k \<noteq> K_left" "k \<noteq> K_right"
  shows "\<exists>m' over. mc_key_step fs L k m = Done (m', over) \<and> side m' = side m \<and> mc_ok L m'"
proof (cases k)
  case K_enter
  then show ?thesis using mc_enter_ok [OF assms(1,2)] by (simp add: mc_key_step_def)
next
  case K_up
  then show ?thesis using assms(1) by (auto simp: mc_key_step_def mc_ok_def Let_def)
next
  case K_down
  then show ?thesis using assms(1) by (auto simp: mc_key_step_def mc_ok_def Let_def)
qed (use assms in \<open>auto simp: mc_key_step_def\<close>)

lemma mc_turn_ok:
  assumes "mc_ok L m" "fs_ok fs" "k \<noteq> K_left" "k \<noteq> K_right"
  shows "\<exists>m' over. mc_turn fs L k m = Done (m', over) \<and> side m' = side m \<and> mc_ok L m'"
proof -
  obtain m1 where m1: "display_line fs (side m) (offset m) m = Done m1" "side m1 = side m" "c_y m1 = c_y m"
      "offset m1 = offset m" "name_list m1 = name_list m"
    using display_line_ok [of m "side m" fs "offset m"] assms(1) by (auto simp: mc_ok_def)
  then have "mc_ok L m1" using assms(1) by (simp only: mc_ok_def)
  then show ?thesis using mc_key_step_ok [OF _ assms(2-4)] m1(1,2) by (fastforce simp: mc_turn_def run_simps)
qed

lemma mc_loop_ok:
  assumes "mc_ok L m" "\<forall>(fs, k) \<in> set ks. fs_ok fs \<and> k \<noteq> K_left \<and> k \<noteq> K_right"
  shows "\<exists>m' over. mc_loop L ks m = Done (m', over) \<and> mc_ok L m'"
  using assms
proof (induction ks arbitrary: m)
  case (Cons x ks)
  obtain fs k where x: "x = (fs, k)" by (cases x)
  obtain m1 over where "mc_turn fs L k m = Done (m1, over)" "mc_ok L m1"
    using mc_turn_ok [OF Cons.prems(1), of fs k] Cons.prems(2) x by auto
  then show ?case using Cons.IH [of m1] Cons.prems(2) x by (cases over) (auto simp: run_simps)
qed auto

text \<open>
  As long as the panel is not changed and directories can be read, no key makes the program look outside its lists, whatever
  the terminal, the directories and the files.
\<close>

theorem mc_one_panel_safe:
  assumes "start_mc fs L cwd = Done m" "scandir fs cwd \<noteq> Some []"
    and "\<forall>(fs, k) \<in> set ks. fs_ok fs \<and> k \<noteq> K_left \<and> k \<noteq> K_right"
  shows "\<exists>m' over. mc_loop L ks m = Done (m', over) \<and> mc_ok L m'"
proof -
  obtain d ds where n: "scandir fs cwd = Some (d # ds)"
    using assms(1,2) by (cases "scandir fs cwd") (auto simp: start_mc_def neq_Nil_conv)
  have "mc_ok L m"
    using assms(1) n by (auto simp: start_mc_def mc_ok_def display_line_def Let_def split: option.splits if_splits)
  then show ?thesis using mc_loop_ok assms(3) by blast
qed

text \<open>
  The panels share the cursor: after a change to a panel with fewer entries the next turn, or \<open>ENTER\<close>, reads behind the end of
  its list.
\<close>

theorem mc_change_panel:
  assumes "mc_ok L m" "side m = P_left"
  shows "length (name_list m P_right) \<le> c_y m - 2 \<Longrightarrow> mc_loop L [(fs, K_right), (fs', k)] m = Fault OutOfBounds"
    and "c_y m - 2 < length (name_list m P_right) \<Longrightarrow> length (name_list m P_right) \<le> c_y m - 2 + offset m \<Longrightarrow>
      mc_loop L [(fs, K_right), (fs', K_enter)] m = Fault OutOfBounds"
proof -
  obtain m1 where m1: "display_line fs (side m) (offset m) m = Done m1" "c_y m1 = c_y m" "offset m1 = offset m" "name_list m1 = name_list m"
    using display_line_ok [of m "side m" fs "offset m"] assms(1) by (auto simp: mc_ok_def)
  then have t: "mc_turn fs L K_right m = Done (m1\<lparr>side := P_right\<rparr>, False)"
    by (simp add: mc_turn_def mc_key_step_def run_simps Let_def)
  show "mc_loop L [(fs, K_right), (fs', k)] m = Fault OutOfBounds" if "length (name_list m P_right) \<le> c_y m - 2"
    using t m1(2-4) that by (simp add: mc_turn_def [of fs' L k] display_line_def run_simps)
  show "mc_loop L [(fs, K_right), (fs', K_enter)] m = Fault OutOfBounds"
    if c: "c_y m - 2 < length (name_list m P_right)" "length (name_list m P_right) \<le> c_y m - 2 + offset m"
  proof -
    let ?m = "m1\<lparr>side := P_right\<rparr>"
    obtain m2 where m2: "display_line fs' P_right (offset m) ?m = Done m2" "side m2 = P_right" "c_y m2 = c_y m" "offset m2 = offset m"
        "name_list m2 = name_list m"
      using display_line_ok [of ?m P_right fs' "offset m"] m1 c(1) by auto
    have "mc_key_step fs' L K_enter m2 = Fault OutOfBounds"
      using m2(2-5) c(2) by (simp add: mc_key_step_def mc_enter_def Let_def)
    then have "mc_turn fs' L K_enter ?m = Fault OutOfBounds"
      using m1(3) m2(1) by (simp add: mc_turn_def run_simps)
    then show ?thesis using t by (simp add: run_simps)
  qed
qed

section \<open>What the window shows\<close>

text \<open>The row of the cursor is the entry that \<open>ENTER\<close> opens, when \<open>stat\<close> succeeds for all of them.\<close>

lemma display_rows_nth:
  assumes "\<forall>d \<in> set ds. stat_file fs (file_path path d) \<noteq> None" "i < length ds" "y + i < L - 5"
  shows "i < length (mc_rows fs L path y ds) \<and> fst (mc_rows fs L path y ds ! i) = y + i \<and>
    fst (snd (mc_rows fs L path y ds ! i)) = ds ! i"
  using assms
proof (induction ds arbitrary: i y)
  case (Cons d ds)
  obtain dir sz where d: "stat_file fs (file_path path d) = Some (dir, sz)" using Cons.prems(1) by auto
  show ?case
  proof (cases i)
    case 0
    then show ?thesis using d Cons.prems(3) by simp
  next
    case (Suc j)
    then show ?thesis using d Cons.IH [of j "y + 1"] Cons.prems by simp
  qed
qed simp

text \<open>With a file that has gone, or a dangling link, the rows below move up and the cursor is on another entry than \<open>ENTER\<close>.\<close>

theorem mc_window_shows:
  assumes "mc_ok L m" "c_y m < L - 5" "wnd_rows m (side m) = wnd_rows (display_wnd fs L (side m) (offset m) m) (side m)"
  shows "\<forall>d \<in> set (name_list m (side m)). stat_file fs (file_path (path_way m (side m)) d) \<noteq> None \<Longrightarrow>
    fst (wnd_rows m (side m) ! (c_y m - 2)) = c_y m \<and>
    fst (snd (wnd_rows m (side m) ! (c_y m - 2))) = name_list m (side m) ! (c_y m - 2 + offset m)"
proof -
  assume s: "\<forall>d \<in> set (name_list m (side m)). stat_file fs (file_path (path_way m (side m)) d) \<noteq> None"
  let ?ds = "drop (offset m) (name_list m (side m))"
  have i: "c_y m - 2 < length ?ds" "2 \<le> c_y m" using assms(1) by (auto simp: mc_ok_def)
  have "\<forall>d \<in> set ?ds. stat_file fs (file_path (path_way m (side m)) d) \<noteq> None" using s in_set_dropD by fast
  from display_rows_nth [OF this i(1), of 2 L] show ?thesis
    using i assms(2,3) by (simp add: display_wnd_def add.commute)
qed

text \<open>Under the window, the program names another entry once the list has been scrolled.\<close>

theorem mc_line_ignores_offset:
  assumes "display_line fs p off m = Done m'" "menu_line m' p = Some (d, dir, y, i)" "menu_line m p = None"
  shows "d = name_list m p ! (c_y m - 2)" "i = c_y m - 2 + off"
  using assms by (auto simp: display_line_def Let_def split: if_splits option.splits)

end
