(* ===== verification/Curses_Password.thy ===== *)
theory Curses_Password
  imports Lab_Prelude
begin

text \<open>
  LAB_11/task_curse_files/src/cursedpassword.c: a password is read key by key, with the backspace as the only editing key.
  A key is the number that \<open>wgetch\<close> returns; the screen is left out.
\<close>

section \<open>The program\<close>

definition MAX_LEN :: nat where "MAX_LEN = 11"
definition KEY_BACKSPACE :: int where "KEY_BACKSPACE = 263"
definition KEY_NEWLINE :: int where "KEY_NEWLINE = 10"
definition RIGHT_PASSWORD :: string where "RIGHT_PASSWORD = ''12345678''"

text \<open>\<open>password[i] = c\<close>.\<close>

definition store :: "nat \<Rightarrow> char \<Rightarrow> bytes \<Rightarrow> bytes run" where
  "store i c b = (if length b \<le> i then Fault OutOfBounds else Done (b[i := c]))"

text \<open>\<open>None\<close> while it waits for a key. A key is read before the length is checked.\<close>

fun get_password :: "int list \<Rightarrow> bytes \<Rightarrow> nat \<Rightarrow> bytes run option" where
  "get_password [] b i = None"
| "get_password (ch # chs) b i =
     (if ch = KEY_NEWLINE \<or> \<not> i < MAX_LEN - 1 then Some (store i NUL b)
      else if ch = KEY_BACKSPACE then get_password chs b (i - 1)
      else case store i (char_of (nat (ch mod 256))) b of
        Done b1 \<Rightarrow> get_password chs b1 (i + 1)
      | Diverge \<Rightarrow> Some Diverge
      | Fault r \<Rightarrow> Some (Fault r))"

definition access_granted :: "int list \<Rightarrow> bool run option" where
  "access_granted chs =
     map_option (\<lambda>r. bind_run r (\<lambda>b. Done (cstr b = RIGHT_PASSWORD))) (get_password chs (zeros MAX_LEN) 0)"

section \<open>What is typed\<close>

text \<open>The text that a user sees after some keys: the backspace takes the last character back.\<close>

definition edit_key :: "string \<Rightarrow> int \<Rightarrow> string" where
  "edit_key s ch = (if ch = KEY_BACKSPACE then butlast s else s @ [char_of (nat (ch mod 256))])"

abbreviation edited :: "int list \<Rightarrow> string" where "edited \<equiv> foldl edit_key []"

text \<open>The buffer when \<open>s\<close> has been typed; what stands behind it does not matter.\<close>

definition holds :: "string \<Rightarrow> bytes \<Rightarrow> bool" where
  "holds s b \<longleftrightarrow> length b = MAX_LEN \<and> length s < MAX_LEN \<and> take (length s) b = s"

lemma holds_store: "holds s b \<Longrightarrow> length s < MAX_LEN - 1 \<Longrightarrow> holds (s @ [c]) (b[length s := c])"
  by (auto simp: holds_def MAX_LEN_def take_Suc_conv_app_nth)

lemma holds_butlast:
  assumes "holds s b"
  shows "holds (butlast s) b"
proof -
  have "butlast s = take (length s - 1) (take (length s) b)"
    using assms butlast_conv_take [of s] by (simp add: holds_def)
  then show ?thesis using assms by (auto simp: holds_def min_def)
qed

lemma get_password_edits:
  assumes "holds s b" "KEY_NEWLINE \<notin> set chs" "\<forall>n < length chs. length (foldl edit_key s (take n chs)) < MAX_LEN - 1"
  shows "\<exists>b'. get_password (chs @ rest) b (length s) = get_password rest b' (length (foldl edit_key s chs)) \<and> holds (foldl edit_key s chs) b'"
  using assms
proof (induction chs arbitrary: s b)
  case Nil
  then show ?case by auto
next
  case (Cons ch chs)
  have l: "length s < MAX_LEN - 1" using Cons.prems(3) by (auto dest: spec [of _ 0])
  have n: "\<forall>n < length chs. length (foldl edit_key (edit_key s ch) (take n chs)) < MAX_LEN - 1"
    using Cons.prems(3) by (auto dest: spec [of _ "Suc n" for n])
  show ?case
  proof (cases "ch = KEY_BACKSPACE")
    case True
    have e: "edit_key s ch = butlast s" using True by (simp add: edit_key_def)
    then show ?thesis using Cons.IH [OF holds_butlast [OF Cons.prems(1)]] Cons.prems(2) l n True by simp
  next
    case False
    define c where "c = (char_of (nat (ch mod 256)) :: char)"
    have e: "edit_key s ch = s @ [c]" using False by (simp add: edit_key_def c_def)
    have "store (length s) c b = Done (b[length s := c])" using Cons.prems(1) by (simp add: store_def holds_def)
    then show ?thesis using Cons.IH [OF holds_store [OF Cons.prems(1) l]] Cons.prems(2) l False n e
      by (simp add: c_def)
  qed
qed

text \<open>
  A text of at most nine characters at each key is compared as the user sees it, up to a zero byte; and with the tenth character
  the next key ends the input, whatever it is, a backspace too.
\<close>

theorem password_compared:
  assumes "KEY_NEWLINE \<notin> set chs" "\<forall>n < length chs. length (edited (take n chs)) < MAX_LEN - 1"
    and "ch = KEY_NEWLINE \<or> length (edited chs) = MAX_LEN - 1"
  shows "access_granted (chs @ ch # rest) = Some (Done (cstr (edited chs) = RIGHT_PASSWORD))"
proof -
  have "holds [] (zeros MAX_LEN)" by (simp add: holds_def zeros_def MAX_LEN_def)
  from get_password_edits [OF this assms(1,2), of "ch # rest"]
  obtain b where b: "get_password (chs @ ch # rest) (zeros MAX_LEN) 0 = get_password (ch # rest) b (length (edited chs))" "holds (edited chs) b"
    by auto
  have u: "length (edited chs) < length b" "take (length (edited chs)) b = edited chs" using b(2) by (simp_all add: holds_def)
  have "b[length (edited chs) := NUL] = edited chs @ NUL # drop (Suc (length (edited chs))) b"
    using u by (simp add: upd_conv_take_nth_drop)
  moreover have "cstr (l @ NUL # r) = cstr l" for l r by (induction l) (simp_all add: cstr_def)
  ultimately have "cstr (b[length (edited chs) := NUL]) = cstr (edited chs)" by simp
  then show ?thesis using b(1) u(1) assms(3) by (auto simp: access_granted_def store_def run_simps)
qed

theorem password_compared_witness:
  "access_granted ([49, 50, 51, 52, 53, 54, 55, 57, KEY_BACKSPACE, 56] @ KEY_NEWLINE # []) = Some (Done True)"
proof -
  let ?k = "[49, 50, 51, 52, 53, 54, 55, 57, KEY_BACKSPACE, 56]"
  have "edited ?k = RIGHT_PASSWORD" by code_simp
  moreover have "KEY_NEWLINE \<notin> set ?k" by code_simp
  moreover have "list_all (\<lambda>n. length (edited (take n ?k)) < MAX_LEN - 1) [0..<length ?k]" by code_simp
  then have "\<forall>n < length ?k. length (edited (take n ?k)) < MAX_LEN - 1" by (simp only: list_all_iff set_upt atLeast0LessThan Ball_def lessThan_iff)
  moreover have "cstr RIGHT_PASSWORD = RIGHT_PASSWORD" by code_simp
  ultimately show ?thesis using password_compared [of ?k KEY_NEWLINE "[]"] by simp
qed

end
