(* ===== verification/Nano.thy ===== *)
theory Nano
  imports Lab_Prelude
begin

text \<open>
  LAB_11/task_nano: a text editor in a window of \<open>m_y\<close> rows and \<open>m_x\<close> columns. The lines are kept in an array of \<open>m_y - 5\<close>
  rows of \<open>m_x - 1\<close> bytes. Where the cursor of the screen goes when a character is put on it is a parameter \<open>adv\<close>: that
  is decided by the curses library. Borders, colours and messages are left out.
\<close>

section \<open>The editor\<close>

text \<open>Keys; \<open>N_char\<close> is one without a case of its own, with its low byte.\<close>

datatype nano_key =
    N_mouse | N_F2 | N_F4 | N_up | N_down | N_left | N_right | N_backspace
  | N_char char

record nano =
  n_y :: nat
  n_x :: nat
  max_x :: nat
  lin_buf :: "bytes list"
  scr :: "nat \<times> nat"

definition init_nano :: "nat \<Rightarrow> nat \<Rightarrow> nano" where
  "init_nano m_y m_x = \<lparr>n_y = 1, n_x = 1, max_x = 0, lin_buf = replicate (m_y - 5) (zeros (m_x - 1)), scr = (1, 1)\<rparr>"

text \<open>\<open>lin_buf[y - 1][x - 1]\<close>, read and written; 0 stands for what is not above it.\<close>

definition row_of :: "nat \<Rightarrow> nano \<Rightarrow> bytes run" where
  "row_of y s = (if y = 0 \<or> length (lin_buf s) < y then Fault OutOfBounds else Done (lin_buf s ! (y - 1)))"

definition row_cell :: "nat \<Rightarrow> bytes \<Rightarrow> char run" where
  "row_cell x r = (if x = 0 \<or> length r < x then Fault OutOfBounds else Done (r ! (x - 1)))"

definition put_cell :: "nat \<Rightarrow> nat \<Rightarrow> char \<Rightarrow> nano \<Rightarrow> nano run" where
  "put_cell y x c s =
     bind_run (row_of y s) (\<lambda>r.
       if x = 0 \<or> length r < x then Fault OutOfBounds
       else Done (s\<lparr>lin_buf := (lin_buf s)[y - 1 := r[x - 1 := c]]\<rparr>))"

definition row_len :: "bytes \<Rightarrow> nat run" where
  "row_len r = (if NUL \<in> set r then Done (length (cstr r)) else Fault OutOfBounds)"

definition move_to :: "nat \<Rightarrow> nat \<Rightarrow> nano \<Rightarrow> nano" where
  "move_to y x s = s\<lparr>n_y := y, n_x := x, scr := (y, x)\<rparr>"

definition key_up :: "nano \<Rightarrow> nano run" where
  "key_up s =
     (if 1 < n_y s then
        bind_run (row_of (n_y s - 1) s) (\<lambda>next.
        bind_run (row_len next) (\<lambda>len.
        bind_run (row_cell (max_x s) next) (\<lambda>c.
          Done (move_to (n_y s - 1) (if c = NUL then len else max_x s) s))))
      else Done s)"

definition key_down :: "nat \<Rightarrow> nano \<Rightarrow> nano run" where
  "key_down m_y s =
     (if n_y s < m_y - 5 then
        bind_run (row_of (n_y s) s) (\<lambda>cur.
        bind_run (row_of (n_y s + 1) s) (\<lambda>next.
        bind_run (row_len next) (\<lambda>len0.
          let len = (if NL \<in> set (cstr next) then len0 else len0 + 1) in
          bind_run (row_cell 2 next) (\<lambda>c.
            if c = NUL then
              (if NL \<in> set (cstr cur) then Done (move_to (n_y s + 1) 1 s) else bind_run (row_len cur) (\<lambda>_. Done s))
            else Done (move_to (n_y s + 1) (min (max_x s) len) s)))))
      else Done s)"

definition key_right :: "nat \<Rightarrow> nano \<Rightarrow> nano run" where
  "key_right m_x s =
     (if n_x s < m_x - 1 then
        bind_run (row_of (n_y s) s) (\<lambda>r. bind_run (row_cell (n_x s) r) (\<lambda>c.
          if c = NUL \<or> c = NL then Done s
          else Done ((move_to (n_y s) (n_x s + 1) s)\<lparr>max_x := n_x s + 1\<rparr>)))
      else Done s)"

definition key_left :: "nano \<Rightarrow> nano" where
  "key_left s = (if 1 < n_x s then (move_to (n_y s) (n_x s - 1) s)\<lparr>max_x := n_x s - 1\<rparr> else s)"

text \<open>
  \<open>KEY_BACKSPACE\<close>: a blank is put on the character before, or at the left border the newline of the line above is taken away,
  when that line has a second character.
\<close>

definition key_backspace :: "(nat \<times> nat \<Rightarrow> char \<Rightarrow> nat \<times> nat) \<Rightarrow> nano \<Rightarrow> nano run" where
  "key_backspace adv s =
     (if 1 < n_x s then
        let x = snd (adv (n_y s, n_x s - 1) CHR '' '') in
        if x = 0 then Fault OutOfBounds
        else bind_run (put_cell (n_y s) (x - 1) NUL s) (\<lambda>s1. Done ((move_to (n_y s) (x - 1) s1)\<lparr>max_x := x - 1\<rparr>))
      else if 1 < n_y s then
        bind_run (row_of (n_y s - 1) s) (\<lambda>next.
        bind_run (row_cell 2 next) (\<lambda>c.
          if c = NUL then Done ((move_to (n_y s - 1) (n_x s) s)\<lparr>max_x := n_x s\<rparr>)
          else bind_run (row_len next) (\<lambda>len.
            let r = (if NL \<in> set (cstr next) then next[length (takeWhile (\<lambda>c. c \<noteq> NL) next) := NUL] else next) in
            Done ((move_to (n_y s - 1) len (s\<lparr>lin_buf := (lin_buf s)[n_y s - 2 := r]\<rparr>))\<lparr>max_x := len\<rparr>))))
      else Done s)"

text \<open>The default case.\<close>

definition key_char :: "(nat \<times> nat \<Rightarrow> char \<Rightarrow> nat \<times> nat) \<Rightarrow> char \<Rightarrow> nano \<Rightarrow> nano run" where
  "key_char adv c s =
     bind_run (put_cell (n_y s) (n_x s) c (s\<lparr>scr := adv (scr s) c\<rparr>)) (\<lambda>s1.
       if c = NL then Done ((move_to (fst (scr s1)) 1 s1)\<lparr>max_x := 1\<rparr>)
       else Done (s1\<lparr>n_x := snd (scr s1), max_x := snd (scr s1)\<rparr>))"

text \<open>The loop of \<open>KEY_F(2)\<close> in \<open>redraw\<close>: the rows up to the first empty one.\<close>

fun save_rows :: "bytes list \<Rightarrow> bytes run" where
  "save_rows [] = Fault OutOfBounds"
| "save_rows (r # rs) =
     bind_run (row_cell 1 r) (\<lambda>c.
       if c = NUL then Done []
       else if NUL \<notin> set r then Fault OutOfBounds
       else bind_run (save_rows rs) (\<lambda>t. Done (cstr r @ t)))"

text \<open>The name of the file: the path, a slash and the name. \<open>wgetnstr\<close> does not store a newline.\<close>

definition save_path :: "string \<Rightarrow> string \<Rightarrow> string \<Rightarrow> string" where
  "save_path cwd name path =
     (let p = (if path \<noteq> [] \<and> hd path = NL then cwd else path) in
      takeWhile (\<lambda>c. c \<noteq> NL) p @ ''/'' @ takeWhile (\<lambda>c. c \<noteq> NL) name)"

text \<open>A key: \<open>Inl\<close> the editor goes on; \<open>Inr\<close> it has ended and, after \<open>KEY_F(2)\<close>, has written a file.\<close>

definition nano_press :: "(nat \<times> nat \<Rightarrow> char \<Rightarrow> nat \<times> nat) \<Rightarrow> nat \<Rightarrow> nat \<Rightarrow> nano_key \<Rightarrow> nano \<Rightarrow> (nano + bytes option) run" where
  "nano_press adv m_y m_x k s =
     (case k of
        N_mouse \<Rightarrow> Done (Inl (move_to (n_y s) (n_x s) s))
      | N_F2 \<Rightarrow> bind_run (save_rows (lin_buf s)) (\<lambda>t. Done (Inr (Some t)))
      | N_F4 \<Rightarrow> Done (Inr None)
      | N_up \<Rightarrow> bind_run (key_up s) (\<lambda>s1. Done (Inl s1))
      | N_down \<Rightarrow> bind_run (key_down m_y s) (\<lambda>s1. Done (Inl s1))
      | N_left \<Rightarrow> Done (Inl (key_left s))
      | N_right \<Rightarrow> bind_run (key_right m_x s) (\<lambda>s1. Done (Inl s1))
      | N_backspace \<Rightarrow> bind_run (key_backspace adv s) (\<lambda>s1. Done (Inl s1))
      | N_char c \<Rightarrow> bind_run (key_char adv c s) (\<lambda>s1. Done (Inl s1)))"

fun nano_editor :: "(nat \<times> nat \<Rightarrow> char \<Rightarrow> nat \<times> nat) \<Rightarrow> nat \<Rightarrow> nat \<Rightarrow> nano_key list \<Rightarrow> nano \<Rightarrow> (nano + bytes option) run" where
  "nano_editor adv m_y m_x [] s = Done (Inl s)"
| "nano_editor adv m_y m_x (k # ks) s =
     bind_run (nano_press adv m_y m_x k s) (\<lambda>r. case r of Inl s1 \<Rightarrow> nano_editor adv m_y m_x ks s1 | Inr t \<Rightarrow> Done (Inr t))"

section \<open>What is typed is saved\<close>

text \<open>
  What is used of the library, as the manual of \<open>addch\<close> describes it: a printable character, here one of the printable
  characters of ASCII, moves the cursor one column inside the row, and a newline moves it to the start of the next row
  above the bottom of the screen. Nothing is said of a tab, which goes to the next multiple of eight, and of the other
  control characters, which are shown in two columns.
\<close>

definition printable :: "char \<Rightarrow> bool" where
  "printable c \<longleftrightarrow> 32 \<le> (of_char c :: nat) \<and> (of_char c :: nat) < 127"

lemma printable_plain: "printable c \<Longrightarrow> c \<noteq> NUL \<and> c \<noteq> NL"
  by (auto simp: printable_def)

definition adv_ok :: "(nat \<times> nat \<Rightarrow> char \<Rightarrow> nat \<times> nat) \<Rightarrow> nat \<Rightarrow> nat \<Rightarrow> bool" where
  "adv_ok adv m_y m_x \<longleftrightarrow>
     (\<forall>y x c. printable c \<and> x + 1 < m_x \<longrightarrow> adv (y, x) c = (y, x + 1)) \<and>
     (\<forall>y x. y + 1 < m_y \<longrightarrow> adv (y, x) NL = (y + 1, 0))"

text \<open>A screen on which \<open>done_rows\<close> are typed and \<open>l\<close> of the next row.\<close>

definition typed_screen :: "nat \<Rightarrow> nat \<Rightarrow> string list \<Rightarrow> string \<Rightarrow> nano \<Rightarrow> bool" where
  "typed_screen m_y m_x ls l s \<longleftrightarrow> n_y s = length ls + 1 \<and> n_x s = length l + 1 \<and> scr s = (n_y s, n_x s) \<and>
     lin_buf s = map (\<lambda>t. t @ NL # zeros (m_x - 2 - length t)) ls @ (l @ zeros (m_x - 1 - length l)) #
       replicate (m_y - 6 - length ls) (zeros (m_x - 1))"

lemma typed_screen_init:
  assumes "6 \<le> m_y"
  shows "typed_screen m_y m_x [] [] (init_nano m_y m_x)"
proof -
  have "m_y - 5 = Suc (m_y - 6)" using assms by simp
  then show ?thesis by (simp add: typed_screen_def init_nano_def)
qed

lemma zeros_cons: "0 < n \<Longrightarrow> zeros n = NUL # zeros (n - 1)"
  by (cases n) (simp_all add: zeros_def)

lemma put_cell_typed:
  assumes "typed_screen m_y m_x ls l s" "length l < m_x - 1"
  shows "put_cell (n_y s) (n_x s) c (s\<lparr>scr := p\<rparr>) = Done (s\<lparr>scr := p,
    lin_buf := map (\<lambda>t. t @ NL # zeros (m_x - 2 - length t)) ls @ (l @ c # zeros (m_x - 2 - length l)) #
       replicate (m_y - 6 - length ls) (zeros (m_x - 1))\<rparr>)"
proof -
  have z: "zeros (m_x - 1 - length l) = NUL # zeros (m_x - 2 - length l)"
    using assms(2) zeros_cons [of "m_x - 1 - length l"] by (simp add: numeral_2_eq_2)
  show ?thesis
    using assms(1) z by (simp add: put_cell_def row_of_def typed_screen_def run_simps nth_append list_update_append)
qed

lemma type_char:
  assumes "typed_screen m_y m_x ls l s" "length l + 2 < m_x" "printable c" "adv_ok adv m_y m_x"
  shows "\<exists>s1. nano_press adv m_y m_x (N_char c) s = Done (Inl s1) \<and> typed_screen m_y m_x ls (l @ [c]) s1"
proof -
  have a: "adv (scr s) c = (n_y s, n_x s + 1)"
    using assms by (simp add: adv_ok_def typed_screen_def)
  have c: "c \<noteq> NL" using printable_plain [OF assms(3)] by simp
  have l: "length l < m_x - 1" using assms(2) by simp
  show ?thesis
    using put_cell_typed [OF assms(1) l, of c "adv (scr s) c"] assms(1) a c
    by (simp add: nano_press_def key_char_def run_simps typed_screen_def)
qed

lemma type_newline:
  assumes "typed_screen m_y m_x ls l s" "length l + 1 < m_x" "length ls + 2 < m_y" "adv_ok adv m_y m_x"
  shows "\<exists>s1. nano_press adv m_y m_x (N_char NL) s = Done (Inl s1) \<and> n_y s1 = length ls + 2 \<and> n_x s1 = 1 \<and>
    scr s1 = (n_y s1, n_x s1) \<and>
    lin_buf s1 = map (\<lambda>t. t @ NL # zeros (m_x - 2 - length t)) (ls @ [l]) @ replicate (m_y - 6 - length ls) (zeros (m_x - 1))"
proof -
  have a: "adv (scr s) NL = (length ls + 2, 0)"
    using assms(1,3,4) by (simp add: adv_ok_def typed_screen_def)
  have l: "length l < m_x - 1" using assms(2) by simp
  show ?thesis
    using put_cell_typed [OF assms(1) l, of NL "adv (scr s) NL"] a
    by (simp add: nano_press_def key_char_def run_simps move_to_def)
qed

lemma type_text:
  assumes "typed_screen m_y m_x ls l s" "length l + length t + 1 < m_x" "list_all printable t" "adv_ok adv m_y m_x"
  shows "\<exists>s1. nano_editor adv m_y m_x (map N_char t @ ks) s = nano_editor adv m_y m_x ks s1 \<and> typed_screen m_y m_x ls (l @ t) s1"
  using assms
proof (induction t arbitrary: l s)
  case Nil
  then show ?case by auto
next
  case (Cons c t)
  obtain s1 where "nano_press adv m_y m_x (N_char c) s = Done (Inl s1)" "typed_screen m_y m_x ls (l @ [c]) s1"
    using type_char [OF Cons.prems(1) _ _ Cons.prems(4), of c] Cons.prems(2,3) by auto
  then show ?case using Cons.IH [of "l @ [c]" s1] Cons.prems(2-4) by (simp add: run_simps)
qed

lemma type_line:
  assumes "typed_screen m_y m_x ls [] s" "length t + 2 < m_x" "list_all printable t" "adv_ok adv m_y m_x" "length ls + 6 < m_y"
  shows "\<exists>s1. nano_editor adv m_y m_x (map N_char (t @ [NL]) @ ks) s = nano_editor adv m_y m_x ks s1 \<and>
    typed_screen m_y m_x (ls @ [t]) [] s1"
proof -
  obtain s1 where s1: "nano_editor adv m_y m_x (map N_char t @ N_char NL # ks) s = nano_editor adv m_y m_x (N_char NL # ks) s1"
      "typed_screen m_y m_x ls t s1"
    using type_text [OF assms(1) _ assms(3,4), of "N_char NL # ks"] assms(2) by auto
  obtain s2 where s2: "nano_press adv m_y m_x (N_char NL) s1 = Done (Inl s2)" "n_y s2 = length ls + 2" "n_x s2 = 1"
      "scr s2 = (n_y s2, n_x s2)"
      "lin_buf s2 = map (\<lambda>t. t @ NL # zeros (m_x - 2 - length t)) (ls @ [t]) @ replicate (m_y - 6 - length ls) (zeros (m_x - 1))"
    using type_newline [OF s1(2) _ _ assms(4)] assms(2,5) by auto
  have "replicate (m_y - 6 - length ls) (zeros (m_x - 1)) = zeros (m_x - 1) # replicate (m_y - 7 - length ls) (zeros (m_x - 1))"
    using assms(5) by (simp flip: replicate_Suc)
  then have "typed_screen m_y m_x (ls @ [t]) [] s2" using s2 by (simp add: typed_screen_def)
  then show ?thesis using s1(1) s2(1) by (auto simp: run_simps)
qed

definition typed_text :: "string list \<Rightarrow> string" where
  "typed_text ls = concat (map (\<lambda>l. l @ [NL]) ls)"

lemma type_lines:
  assumes "typed_screen m_y m_x ks [] s" "\<forall>l \<in> set ls. length l + 2 < m_x \<and> list_all printable l" "adv_ok adv m_y m_x"
    and "length ks + length ls + 6 \<le> m_y"
  shows "\<exists>s1. nano_editor adv m_y m_x (map N_char (typed_text ls) @ rest) s = nano_editor adv m_y m_x rest s1 \<and>
    typed_screen m_y m_x (ks @ ls) [] s1"
  using assms
proof (induction ls arbitrary: ks s)
  case Nil
  then show ?case by (auto simp: typed_text_def)
next
  case (Cons l ls)
  obtain s1 where s1: "nano_editor adv m_y m_x (map N_char (l @ [NL]) @ map N_char (typed_text ls) @ rest) s
      = nano_editor adv m_y m_x (map N_char (typed_text ls) @ rest) s1" "typed_screen m_y m_x (ks @ [l]) [] s1"
    using type_line [OF Cons.prems(1) _ _ assms(3), of l "map N_char (typed_text ls) @ rest"] Cons.prems(2,4) by auto
  then show ?case using Cons.IH [OF s1(2)] Cons.prems(2-4) by (simp add: typed_text_def)
qed

lemma save_typed:
  assumes "\<forall>l \<in> set ls. length l + 2 < m_x \<and> list_all printable l" "1 < m_x"
  shows "save_rows (map (\<lambda>t. t @ NL # zeros (m_x - 2 - length t)) ls @ zeros (m_x - 1) # rs) = Done (typed_text ls)"
  using assms(1)
proof (induction ls)
  case Nil
  show ?case using zeros_cons [of "m_x - 1"] assms(2) by (simp add: row_cell_def typed_text_def run_simps)
next
  case (Cons l ls)
  let ?r = "l @ NL # zeros (m_x - 2 - length l)"
  have z: "zeros (m_x - 2 - length l) = NUL # zeros (m_x - 3 - length l)"
    using Cons.prems zeros_cons [of "m_x - 2 - length l"] by (simp add: numeral_3_eq_3 numeral_2_eq_2)
  have n: "NUL \<notin> set (l @ [NL])" using Cons.prems by (auto simp: list_all_iff dest: printable_plain)
  have "cstr ((l @ [NL]) @ NUL # zeros (m_x - 3 - length l)) = l @ [NL]" by (rule cstr_append_NUL [OF n])
  then have c: "cstr ?r = l @ [NL]" using z by simp
  have "?r ! 0 \<noteq> NUL" using n by (cases l) auto
  then show ?case using Cons c z by (simp add: row_cell_def typed_text_def run_simps)
qed

text \<open>C30: Lines of printable ASCII characters, each of which leaves two columns free, and together one row, are written
  to the file as they have been typed.
\<close>

theorem nano_saves:
  assumes "\<forall>l \<in> set ls. length l + 2 < m_x \<and> list_all printable l" "1 < m_x" "length ls + 6 \<le> m_y" "adv_ok adv m_y m_x"
  shows "nano_editor adv m_y m_x (map N_char (typed_text ls) @ [N_F2]) (init_nano m_y m_x) = Done (Inr (Some (typed_text ls)))"
proof -
  have i: "typed_screen m_y m_x [] [] (init_nano m_y m_x)" using typed_screen_init assms(3) by simp
  obtain s where s: "nano_editor adv m_y m_x (map N_char (typed_text ls) @ [N_F2]) (init_nano m_y m_x) = nano_editor adv m_y m_x [N_F2] s"
      "typed_screen m_y m_x ls [] s"
    using type_lines [OF i assms(1,4), of "[N_F2]"] assms(3) by auto
  have "save_rows (lin_buf s) = Done (typed_text ls)"
    using s(2) save_typed [OF assms(1,2)] by (simp add: typed_screen_def)
  then show ?thesis using s(1) by (simp add: nano_press_def run_simps)
qed

definition plain_adv :: "nat \<times> nat \<Rightarrow> char \<Rightarrow> nat \<times> nat" where
  "plain_adv p c = (if c = NL then (fst p + 1, 0) else (fst p, snd p + 1))"

theorem nano_saves_witness:
  "nano_editor plain_adv 24 80 (map N_char (typed_text [''Hello'', [], ''World'']) @ [N_F2]) (init_nano 24 80)
    = Done (Inr (Some (''Hello'' @ [NL, NL] @ ''World'' @ [NL])))"
proof -
  have "adv_ok plain_adv 24 80" using printable_plain by (auto simp: adv_ok_def plain_adv_def)
  then show ?thesis
    using nano_saves [of "[''Hello'', [], ''World'']" 80 24 plain_adv] by (simp add: printable_def typed_text_def)
qed

section \<open>A tab\<close>

text \<open>
  A tab moves the cursor more than one column and leaves zero bytes in the row: what is typed behind it is not written to
  the file.
\<close>

definition tab_adv :: "nat \<times> nat \<Rightarrow> char \<Rightarrow> nat \<times> nat" where
  "tab_adv p c = (if c = TAB then (fst p, 8 * (snd p div 8 + 1)) else plain_adv p c)"

theorem nano_tab_cuts:
  "nano_editor tab_adv 24 80 (map N_char ([TAB] @ ''Hello'' @ [NL]) @ [N_F2]) (init_nano 24 80) = Done (Inr (Some [TAB]))"
  by code_simp

section \<open>The borders are not guarded\<close>

text \<open>A character behind the last row, or a key too many in a row, is stored outside the array.\<close>

theorem nano_last_row:
  assumes "6 \<le> m_y" "2 < m_x" "adv_ok adv m_y m_x"
  shows "nano_editor adv m_y m_x (replicate (m_y - 5) (N_char NL) @ [N_char c]) (init_nano m_y m_x) = Fault OutOfBounds"
proof -
  let ?n = "m_y - 6"
  have t: "typed_text (replicate n []) = replicate n NL" for n by (induction n) (simp_all add: typed_text_def)
  have e: "m_y - 5 = ?n + 1" using assms(1) by simp
  have k: "replicate (m_y - 5) (N_char NL) @ [N_char c] = map N_char (typed_text (replicate ?n [])) @ [N_char NL, N_char c]"
    unfolding t map_replicate e replicate_add by simp
  obtain s where s: "nano_editor adv m_y m_x (map N_char (typed_text (replicate ?n [])) @ [N_char NL, N_char c]) (init_nano m_y m_x)
      = nano_editor adv m_y m_x [N_char NL, N_char c] s" "typed_screen m_y m_x (replicate ?n []) [] s"
    using type_lines [OF typed_screen_init [OF assms(1)], where ls = "replicate ?n []" and adv = adv and rest = "[N_char NL, N_char c]" and m_x = m_x] assms by auto
  have b: "length (replicate ?n []) + 2 < m_y" using assms(1) by simp
  obtain s1 where s1: "nano_press adv m_y m_x (N_char NL) s = Done (Inl s1)" "n_y s1 = ?n + 2" "n_x s1 = 1"
      "lin_buf s1 = map (\<lambda>t. t @ NL # zeros (m_x - 2 - length t)) (replicate ?n [] @ [[]]) @ replicate (m_y - 6 - ?n) (zeros (m_x - 1))"
    using type_newline [OF s(2) _ b assms(3)] assms(2) by auto
  have "length (lin_buf s1) < n_y s1" using s1(2,4) by simp
  then have "nano_press adv m_y m_x (N_char c) s1 = Fault OutOfBounds"
    by (simp add: nano_press_def key_char_def put_cell_def row_of_def run_simps)
  then show ?thesis using s(1) s1(1) unfolding k by (simp add: run_simps)
qed

theorem nano_last_column:
  assumes "6 \<le> m_y" "2 < m_x" "adv_ok adv m_y m_x" "printable c" "adv (1, m_x - 1) c = (y, 0)"
  shows "nano_editor adv m_y m_x (map N_char (replicate m_x c)) (init_nano m_y m_x) = Fault OutOfBounds"
proof -
  have e: "m_x - 2 + 2 = m_x" using assms(2) by simp
  have r: "replicate m_x c = replicate (m_x - 2) c @ [c, c]"
    using replicate_add [of "m_x - 2" 2 c] unfolding e by (simp add: numeral_2_eq_2)
  have q: "length ([] :: string) + length (replicate (m_x - 2) c) + 1 < m_x" using assms(2) by simp
  have p: "list_all printable (replicate (m_x - 2) c)" using assms(4) by (simp add: list_all_iff)
  obtain s where s: "nano_editor adv m_y m_x (map N_char (replicate (m_x - 2) c) @ [N_char c, N_char c]) (init_nano m_y m_x)
      = nano_editor adv m_y m_x [N_char c, N_char c] s" "typed_screen m_y m_x [] (replicate (m_x - 2) c) s"
    using type_text [OF typed_screen_init [OF assms(1)] q p assms(3), where ks = "[N_char c, N_char c]"] by auto
  have l: "length (replicate (m_x - 2) c) < m_x - 1" using assms(2) by simp
  have n: "scr s = (1, m_x - 1)" using s(2) assms(2) by (simp add: typed_screen_def)
  have "c \<noteq> NL" using printable_plain [OF assms(4)] by simp
  then obtain s1 where "nano_press adv m_y m_x (N_char c) s = Done (Inl s1)" "n_x s1 = 0"
    using put_cell_typed [OF s(2) l, of c "adv (scr s) c"] assms(5) n by (simp add: nano_press_def key_char_def run_simps)
  moreover have "nano_press adv m_y m_x (N_char c) s1 = Fault OutOfBounds" if "n_x s1 = 0" for s1
    using that by (simp add: nano_press_def key_char_def put_cell_def row_of_def run_simps)
  ultimately show ?thesis using s(1) unfolding r by (simp add: run_simps)
qed

text \<open>Without a path the file goes to the root directory: the text of \<open>wgetnstr\<close> is empty then, not a newline.\<close>

lemma save_path_empty: "NL \<notin> set name \<Longrightarrow> save_path cwd name [] = CHR ''/'' # name"
  by (simp add: save_path_def takeWhile_eq_all_conv) (metis takeWhile_eq_all_conv)

end
