(* ===== verification/Spec2Isabelle.thy ===== *)
theory Spec2Isabelle
  imports Bytes Ledger_Program Snake Calc_Props Table_Props Pipe_Props Market_Live Market_Owner
    Gas_Props Matrix_Product Counters Get_Line Incr_Owner Sysv_Props Sysv_Main
    Queue_Pieces Sysv_Queues Pipe_Task_Props Customer_Live Shm_Message
    Raw_Packets Pull_Server Chatroom Fork_Loop Thread_Once Thread_Opts
    Hack_Pass Midnight Curses_Password Nano
begin

text \<open>
  Models of the programs of the ELTEX laboratory course, \<open>src/LABS/LAB_0\<close> to \<open>LAB_17\<close>, and what
  holds of them. The labs are separate programs that grow out of each other; what they share is
  the C library. Each theory names the files and functions it models; a definition has the
  name of the C function where the language allows it.

  \<^bold>\<open>Shared theories.\<close> \<open>Lab_Prelude\<close>: the outcome of a piece of C (\<open>Done\<close>, \<open>Diverge\<close> for a loop
  that never ends, \<open>Fault\<close> for undefined behaviour with its reason), byte objects, NUL-terminated
  strings, \<open>stdin\<close> as the list of the bytes still to be read, \<open>fgets\<close>, \<open>strtok\<close>, \<open>scanf\<close> and the
  decimal conversions. \<open>Getopt\<close>: \<open>getopt\<close> with the permutation of GNU, \<open>strtol\<close>, and the
  conversion of a \<open>long\<close> to an \<open>int\<close>. \<open>Node_Heap\<close>: the interface of a heap of list nodes (locale)
  and its interpretation by the heap of the ledger. \<open>Step_System\<close>: reachable states, and the
  locking discipline (locale \<open>lock_discipline\<close>) from which mutual exclusion follows; it is
  interpreted by the markets, the gas station, the counters and the incrementing processes. Its
  extension \<open>undo_discipline\<close> adds that what a process holds is given back when it ends; the
  System V programs interpret it, and their freedom from deadlock rests on it.

  \<^bold>\<open>LAB_1, LAB_3\<close> (\<open>Bytes\<close>). The bytes of a 32-bit word by shifts and masks, and through a byte
  pointer on a little-endian machine; both replacements of a byte compute the same word.

  \<^bold>\<open>LAB_2\<close> (\<open>Matrix\<close>, \<open>Snake\<close>). Filling, displaying, reversing, the triangle; the spiral in its
  pointer and its array version. The snake numbers every cell once along a path of neighbours
  for every size the program accepts; the two versions print the same for every input.

  \<^bold>\<open>LAB_4\<close> (\<open>Ledger_Table\<close>, \<open>Table_Props\<close>). The address book in a table of 64 slots: each command
  refines an operation on the list of customers, and no input makes it read or write outside the table: the
  accesses of all loops are checked.

  \<^bold>\<open>LAB_6\<close> (\<open>Ledger_Heap\<close>, \<open>Ledger_List\<close>, \<open>Ledger_Spec\<close>, \<open>Ledger_App\<close>, \<open>Ledger_Safety\<close>,
  \<open>Ledger_Program\<close>). The address book as a linked list on an explicit heap, where reading a freed
  node is a fault. \<open>represents\<close> relates a heap to the list of its entries; \<open>add\<close>, \<open>remove_by\<close>,
  \<open>find_by\<close>, \<open>display\<close> and the destructor refine the operations on that list. The theorem on the
  whole program says what can happen to it at all, for every input, file system, tokeniser and
  amount of memory. The tokeniser (jsmn, a submodule) and the files are parameters. Walks along
  the list have as fuel one more than the number of heap cells, so that running out of it is the
  endless loop of a cyclic list; the well-formedness of the list rules it out.
  The constructor leaves \<open>entry_total\<close> as it is in the memory: the theorem on the program holds for every
  start of that counter, and says that the counter stays between its start and its start plus the number
  of allocations.

  \<^bold>\<open>LAB_7, LAB_8, LAB_9\<close> (\<open>Calc_Stack\<close>, \<open>Calculator\<close>, \<open>Calc_Props\<close>). The reverse Polish
  calculator over the interface \<open>calc_stack\<close>; the arithmetic of \<open>double\<close> and \<open>strtod\<close> are a record
  of functions. Lines in the notation, with the five operators and literals with an optional minus sign, print the
  value of their expression; the version that
  loads its stack from a shared library does the same.

  \<^bold>\<open>LAB_10\<close> (\<open>Get_Line\<close>). Reading a line that is not empty, writing it to a file, reading it back
  and printing it in reverse, with \<open>stdio\<close> or with system calls. The first mode prints the line
  from its end; the second one reads the file twice and always fails.

  \<^bold>\<open>LAB_5, LAB_11\<close>. \<open>Hack_Pass\<close>: which lines leave the buffer of \<open>gets\<close>. \<open>Curses_Password\<close>
  (\<open>cursedpassword.c\<close>): the keys of a password. \<open>Nano\<close> (\<open>task_nano\<close>): the array of lines of a text editor;
  how the screen moves its cursor is a parameter. Printable ASCII characters are saved as they are typed, a tab cuts its line; the last row and the last column are not guarded.
  \<open>Midnight\<close> (\<open>task_mc\<close>, \<open>task_mc_all_In_one\<close>): a file manager whose two panels share a cursor; on one panel no key
  leaves the list, a change of the panel can.

  \<^bold>\<open>LAB_12\<close> (\<open>Fork_Loop\<close>: \<open>task_wait_fork\<close>, \<open>task_forked_zombies\<close>). The processes of a loop of \<open>fork\<close> as a step
  relation on a table: how many there are in every order, that every run ends, and what \<open>wait\<close> changes.

  \<^bold>\<open>LAB_12, LAB_14\<close> (\<open>Shell_Text\<close>, \<open>Shell_Pipes\<close>, \<open>Pipe_Props\<close>). The shells: splitting a line,
  \<open>cd\<close>, running commands; in \<open>LAB_14/task_pipe7\<close> the context of a pipeline with its
  redirections, the descriptor tables of the parent and of every child, and waiting. A pipeline of
  any length gives each command exactly the ends of its two neighbouring pipes. Each line
  starts from the three descriptors of the terminal: descriptors that a failed \<open>fork\<close> leaves open
  in the parent are not carried to the next line. \<open>Pipe_Tasks\<close>, \<open>Pipe_Task_Props\<close> (\<open>task_pipe1\<close> to
  \<open>task_pipe6\<close>): the steps on the way to that shell; \<open>task_pipe3\<close> does what the shell does with commands
  without redirections, and in \<open>task_pipe4\<close> to \<open>task_pipe6\<close> redirections of neighbouring commands are lost.

  \<^bold>\<open>LAB_13\<close>. \<open>Gas_Station\<close>, \<open>Gas_Props\<close> (\<open>task_cond_wait\<close>, five programs): threads with a
  mutex and condition variables as one step relation, where waits may wake up by themselves and
  calls may fail. No signal is lost, there is no deadlock, and every run ends, by a weight that each
  step lowers; the two programs that differ in the number of condition variables do the same steps.
  \<open>Matrix_Threads\<close>, \<open>Matrix_Product\<close>: the product of two matrices with a thread for each row,
  run in the order of a schedule; the result is the product for every schedule, and a schedule
  with \<open>l * (m + 2) + 1\<close> steps for each thread is long enough. \<open>Counters\<close>
  (\<open>task_mutex_no_mutex\<close>): threads as lists of instructions on a shared number; with the mutex the
  total is exact in every order, without it increments are lost. \<open>long\<close> holds the total
  of 10 threads; the sums of the product are checked \<open>int\<close>s, and up to 85899345 columns no sum overflows.
  \<open>Customers\<close>, \<open>Customer_Props\<close> (\<open>task_customer\<close>): customers and suppliers with a mutex for each
  store, the three editions as one step relation. In the first two there is no deadlock; in the
  third, where a supplier waits at a full store, a state is reached from which nothing moves any
  more. At the end of \<open>main\<close> all are satisfied and no mutex is held; goods and demands are bounded.
  \<open>Customer_Room\<close>, \<open>Customer_Live\<close>: in the second edition the end of \<open>main\<close> can be reached from every state,
  without an overflow of the goods, by steps that each bring one waiting customer or supplier nearer to his end.
  \<open>Thread_Once\<close> (\<open>task_pthread_once\<close>): the three editions as one step relation; the key is made once, every thread works in
  its own buffer and all are freed. \<open>Thread_Opts\<close> (\<open>task_thread_opts\<close>): a thread for each operand.

  \<^bold>\<open>LAB_15\<close>. \<open>Msg_Queue\<close>: POSIX and System V message queues, and the locale \<open>mailbox\<close>, the contract that
  messages leave in the order of their ranks and of their arrival; both queues interpret it.
  \<open>Posix_Queues\<close>, \<open>Posix_Queue_Props\<close>, \<open>Queue_Pieces\<close> (\<open>task_posix_queues_1\<close> to \<open>3\<close>) and \<open>Sysv_Queues\<close>
  (\<open>task_sys_v_queues_1\<close> to \<open>3\<close>): what is sent is printed, in which order, when a receiver returns, and
  which failures are forgotten. A program runs alone on its queue; a call that waits for
  another process ends the model of the run with \<open>Waiting\<close>. The receiver that jumps back is a partial
  function: \<open>None\<close> is a run without an end.

  \<^bold>\<open>LAB_16\<close> (\<open>task_posix_semaphores_2\<close>). \<open>Market\<close>: the consumers, the suppliers and the loops of \<open>fork\<close>
  and \<open>waitpid\<close> as a step relation, one access to shared memory or one semaphore call at a time;
  any call may fail, and a process may be killed. \<open>Market_Inv\<close> and \<open>Market_Data\<close>: the
  locking discipline and the invariant. \<open>Market_Props\<close>: no goods are lost, demands and stocks stay
  in range, a supplier leaves only when all are served. \<open>Market_Live\<close>: no deadlock, and for all
  parameters a run that satisfies everybody. \<open>Market_Main\<close>, \<open>Market_Owner\<close>: the command line, the
  shared memory and the semaphores as objects with names, and the cleanup, which gives back
  what the process holds whatever call has failed.

  \<^bold>\<open>LAB_16\<close> (\<open>task_system_v_semaphores_2\<close>). \<open>Sysv_Market\<close> wraps the same loops into processes that
  attach the segment and whose semaphore operations the kernel takes back when they end;
  \<open>Sysv_Props\<close>: this market does not deadlock even when a process is killed in a critical section, and
  before that it is simulated by the POSIX market, whose invariant gives that no goods are lost.
  \<open>Sysv_Main\<close>: the command line, the keys and identifiers, and the cleanup.

  \<^bold>\<open>LAB_16\<close> (\<open>task_system_v_semaphores_1\<close>, \<open>task_posix_semaphores_1\<close>). \<open>Incr_Sem\<close>: the processes that
  increment a number in shared memory up to a cap, with the undo of the kernel as a parameter;
  \<open>Incr_Props\<close>: every run ends, and without failing calls with the number at its cap. \<open>Incr_Main\<close>,
  \<open>Incr_Owner\<close>: the parents, what they leave behind, and two defects of the POSIX program.

  \<^bold>\<open>LAB_16\<close>, shared memory. \<open>Disk_File\<close>: files as byte strings with calls that may fail.
  \<open>Shm_Files\<close> (\<open>task_system_v_shmem_1\<close>, \<open>task_posix_shmem_1\<close>): a file is put into shared memory and taken
  out again; the locale \<open>shared_object\<close> is what a writer and a reader of an object with a name rely on, and the
  creating calls of System V and of POSIX interpret it; the POSIX reader prints what an older, longer file has left.
  \<open>Shm_Message\<close> (\<open>task_system_v_shmem_2\<close>, \<open>task_posix_shmem_2\<close>): a line handed over without a lock, as a
  step relation in which the bytes are copied one by one in any order; the texts the server can print are
  exactly the beginnings of the line. \<open>Chatroom\<close> (\<open>task_shmem_chatroom\<close>): one turn of the server of the
  chat room and what the client makes of its answers; a wrong password does not keep the data back.

  \<^bold>\<open>LAB_17\<close>. \<open>Frame_Server\<close> (\<open>task_af_local_tcp_socket\<close>): the lines of a byte stream, of at most 256 bytes, are answered in whatever
  pieces of at most 256 bytes they arrive; a longer line is not, and the counter of the answers is an \<open>int\<close>. \<open>Echo_Servers\<close> (\<open>task_af_local_udp_socket\<close>, \<open>task_udp_inet\<close>, \<open>task_tcp_inet\<close>, the server of \<open>task_raw_udp\<close>):
  one exchange after the other with the two buffers as state; a session is a partial function, \<open>None\<close> is a session
  without an end. \<open>Raw_Packets\<close> (\<open>task_raw_udp\<close>, \<open>task_raw_ip_udp\<close>): the headers as bytes and
  as records, and the client that picks its answer from the packets it sees. \<open>Pull_Server\<close>
  (\<open>task_udp_pull_inet\<close>): the threads of the pool enter themselves without a lock, as a step relation.

  \<^bold>\<open>Not modelled.\<close> Prompts, messages on stderr and sleeping; what the curses programs draw, and those of them that do nothing
  else; LAB_0, and exercises of a few lines in LAB_3, LAB_4 and LAB_12.
  In LAB_14, \<open>calloc\<close> does not fail. In LAB_13,
  \<open>pthread_join\<close> does not fail, and \<open>pthread_create\<close> only in the matrix program. In LAB_16, the
  calls of \<open>munmap\<close> and \<open>sem_close\<close> in the children are left out, and \<open>waitpid\<close> does not fail.
  In LAB_17, the calls that set up the sockets of UDP and TCP do not fail, the network loses nothing, and
  the addresses that are printed are left out. \<open>memset\<close> is one step where it is interleaved with another process.
\<close>

end
